(* ===== verification/Prelude.thy ===== *)
theory Prelude
  imports Main "HOL-Library.Word" "HOL-Library.AList"
begin

text \<open>
  Shared vocabulary of the development.

  Machine integers: \<open>usize\<close> and \<open>u64\<close> are 64 bits wide on the only supported target
  (\<open>aarch64-apple-darwin\<close>). Counters that the code only combines with saturating, wrapping or
  checked arithmetic are natural numbers with the bound written out by the functions below; bit
  patterns are \<open>w word\<close>; \<open>i32\<close> page numbers, for which the code uses \<open>-1\<close> as "no page", are \<open>int\<close>.

  State: an operation on \<open>&mut self\<close> that can fail returns \<open>('e, 's, 'a) outcome\<close>, the result
  together with the state it leaves behind, because the code keeps the partial updates of a failing
  call.
\<close>

unbundle bit_operations_syntax

section \<open>Automation collections\<close>

named_theorems word_bits \<open>bit-level equations of the packed formats\<close>
named_theorems sat_arith \<open>unfolding of saturating arithmetic\<close>
named_theorems frame_simps \<open>fields an operation leaves alone\<close>
named_theorems inv_intros \<open>preservation of a component's invariant by its operations\<close>

section \<open>Saturating and wrapping arithmetic on 64-bit counters\<close>

definition u64_max :: nat where
  "u64_max = 2 ^ 64 - 1"

definition sat_add :: "nat \<Rightarrow> nat \<Rightarrow> nat" where
  "sat_add a b = min (a + b) u64_max"

definition sat_mul :: "nat \<Rightarrow> nat \<Rightarrow> nat" where
  "sat_mul a b = min (a * b) u64_max"

text \<open>\<open>saturating_sub\<close> on unsigned integers is the truncating subtraction of \<open>nat\<close>.\<close>

abbreviation (input) sat_sub :: "nat \<Rightarrow> nat \<Rightarrow> nat" where
  "sat_sub a b \<equiv> a - b"

definition wrap_add :: "nat \<Rightarrow> nat \<Rightarrow> nat" where
  "wrap_add a b = (a + b) mod 2 ^ 64"

text \<open>\<open>usize::div_ceil\<close>, \<open>Ord::clamp\<close> (which panics unless \<open>lo \<le> hi\<close>) on naturals.\<close>

definition div_ceil :: "nat \<Rightarrow> nat \<Rightarrow> nat" where
  "div_ceil a b = (if a mod b = 0 then a div b else a div b + 1)"

definition clamp :: "nat \<Rightarrow> nat \<Rightarrow> nat \<Rightarrow> nat" where
  "clamp x lo hi = (if x < lo then lo else if hi < x then hi else x)"

text \<open>Evaluation goes through binary integers, not through the unary bound.\<close>

lemma sat_add_code [code]:
  "sat_add a b = (let n = int a + int b in if n \<le> 18446744073709551615 then nat n else nat 18446744073709551615)"
  by (simp add: sat_add_def u64_max_def Let_def min_def nat_add_distrib)

lemma sat_mul_code [code]:
  "sat_mul a b = (let n = int a * int b in if n \<le> 18446744073709551615 then nat n else nat 18446744073709551615)"
  by (simp add: sat_mul_def u64_max_def Let_def min_def flip: of_nat_mult)

lemma sat_add_exact [sat_arith]: "a + b \<le> u64_max \<Longrightarrow> sat_add a b = a + b"
  by (simp add: sat_add_def)

lemma sat_add_le [simp]: "sat_add a b \<le> u64_max"
  by (simp add: sat_add_def)

lemma sat_add_mono: "a \<le> a' \<Longrightarrow> b \<le> b' \<Longrightarrow> sat_add a b \<le> sat_add a' b'"
  by (simp add: sat_add_def min_le_iff_disj)

lemma sat_add_ge: "a \<le> u64_max \<Longrightarrow> a \<le> sat_add a b"
  by (simp add: sat_add_def)

lemma sat_mul_le [simp]: "sat_mul a b \<le> u64_max"
  by (simp add: sat_mul_def)

lemma sat_mul_mono: "a \<le> a' \<Longrightarrow> b \<le> b' \<Longrightarrow> sat_mul a b \<le> sat_mul a' b'"
  by (simp add: sat_mul_def min_le_iff_disj mult_le_mono)

lemma clamp_bounds: "lo \<le> hi \<Longrightarrow> lo \<le> clamp x lo hi \<and> clamp x lo hi \<le> hi"
  by (simp add: clamp_def)

lemma clamp_id [simp]: "lo \<le> x \<Longrightarrow> x \<le> hi \<Longrightarrow> clamp x lo hi = x"
  by (simp add: clamp_def)

lemma div_ceil_mult:
  assumes "0 < b"
  shows "a \<le> div_ceil a b * b" and "div_ceil a b * b < a + b"
proof -
  define q r where "q = a div b" and "r = a mod b"
  have a: "a = q * b + r" unfolding q_def r_def by simp
  have r: "r < b" unfolding r_def using assms by simp
  have c: "div_ceil a b = (if r = 0 then q else q + 1)"
    by (simp add: div_ceil_def q_def r_def)
  show "a \<le> div_ceil a b * b" and "div_ceil a b * b < a + b"
    unfolding c using a r by auto
qed

lemma div_ceil_pos: "0 < a \<Longrightarrow> 0 < b \<Longrightarrow> 0 < div_ceil a b"
  using div_ceil_mult(1) [of b a] by (cases "div_ceil a b") auto

section \<open>Outcomes: a result and the state left behind\<close>

type_synonym ('e, 's, 'a) outcome = "('e + 'a) \<times> 's"

text \<open>The \<open>?\<close> operator: stop at the first error, keep its state.\<close>

definition andthen :: "('e, 's, 'a) outcome \<Rightarrow> ('a \<Rightarrow> 's \<Rightarrow> ('e, 's, 'b) outcome) \<Rightarrow> ('e, 's, 'b) outcome" where
  "andthen m f = (case m of (Inl e, s) \<Rightarrow> (Inl e, s) | (Inr x, s) \<Rightarrow> f x s)"

lemma andthen_simps [simp]:
  "andthen (Inl e, s) f = (Inl e, s)"
  "andthen (Inr x, s) f = f x s"
  by (simp_all add: andthen_def)

lemma andthen_Inr_iff:
  "andthen m f = (Inr y, t) \<longleftrightarrow> (\<exists>x s. m = (Inr x, s) \<and> f x s = (Inr y, t))"
  by (cases m; cases "fst m") (auto simp: andthen_def)

lemma andthen_state:
  assumes "P (snd m)" and "\<And>x s. m = (Inr x, s) \<Longrightarrow> P (snd (f x s))"
  shows "P (snd (andthen m f))"
  using assms by (cases m; cases "fst m") (auto simp: andthen_def)

section \<open>Machines driven by a list of operations\<close>

definition run_ops :: "('s \<Rightarrow> 'o \<Rightarrow> 's) \<Rightarrow> 's \<Rightarrow> 'o list \<Rightarrow> 's" where
  "run_ops step s ops = foldl step s ops"

fun run_ok :: "('s \<Rightarrow> 'o \<Rightarrow> 's) \<Rightarrow> ('s \<Rightarrow> 'o \<Rightarrow> bool) \<Rightarrow> 's \<Rightarrow> 'o list \<Rightarrow> bool" where
  "run_ok step ok s [] = True"
| "run_ok step ok s (x # xs) = (ok s x \<and> run_ok step ok (step s x) xs)"

lemma run_ops_simps [simp]:
  "run_ops step s [] = s"
  "run_ops step s (x # xs) = run_ops step (step s x) xs"
  by (simp_all add: run_ops_def)

lemma run_ops_append: "run_ops step s (xs @ ys) = run_ops step (run_ops step s xs) ys"
  by (simp add: run_ops_def)

lemma run_ok_append: "run_ok step ok s (xs @ ys) \<longleftrightarrow> run_ok step ok s xs \<and> run_ok step ok (run_ops step s xs) ys"
  by (induction xs arbitrary: s) simp_all

text \<open>
  The contract every stateful component of the program has: its operations, called in any order
  their callers may call them, keep its invariant. \<open>ok\<close> is what a caller must respect.
\<close>

locale invariant_machine =
  fixes step :: "'s \<Rightarrow> 'o \<Rightarrow> 's"
    and ok :: "'s \<Rightarrow> 'o \<Rightarrow> bool"
    and inv :: "'s \<Rightarrow> bool"
  assumes step_inv: "inv s \<Longrightarrow> ok s x \<Longrightarrow> inv (step s x)"
begin

lemma run_inv: "inv s \<Longrightarrow> run_ok step ok s xs \<Longrightarrow> inv (run_ops step s xs)"
  by (induction xs arbitrary: s) (auto intro: step_inv)

lemma run_prefix_inv: "inv s \<Longrightarrow> run_ok step ok s (xs @ ys) \<Longrightarrow> inv (run_ops step s xs)"
  by (simp add: run_ok_append run_inv)

end

text \<open>
  A consumer of a stream. How the stream is cut into pieces must not matter: feeding two pieces
  one after the other is feeding their concatenation.
\<close>

locale chunked_feed =
  fixes feed :: "'s \<Rightarrow> 'c list \<Rightarrow> 's"
    and ok :: "'s \<Rightarrow> bool"
  assumes feed_append: "ok s \<Longrightarrow> feed s (xs @ ys) = feed (feed s xs) ys"
    and feed_ok: "ok s \<Longrightarrow> ok (feed s xs)"
begin

lemma feed_chunks: "ok s \<Longrightarrow> foldl feed (feed s xs) yss = feed s (xs @ concat yss)"
  by (induction yss arbitrary: xs) (simp_all add: feed_append [symmetric])

lemma feed_same_stream:
  assumes "ok s" and "xss \<noteq> []" and "yss \<noteq> []" and "concat xss = concat yss"
  shows "foldl feed s xss = foldl feed s yss"
  using assms by (cases xss; cases yss) (simp_all add: feed_chunks)

end

section \<open>Lists and association lists\<close>

lemma take_Suc_nth: "n < length xs \<Longrightarrow> take (Suc n) xs = take n xs @ [xs ! n]"
  by (simp add: take_Suc_conv_app_nth)

lemma update_same: "map_of al k = Some v \<Longrightarrow> AList.update k v al = al"
  by (induction al) (auto split: if_splits)

lemma update_new: "map_of al k = None \<Longrightarrow> AList.update k v al = al @ [(k, v)]"
  by (induction al) (auto split: if_splits)

lemma set_update_subset_alist: "set (AList.update k v al) \<subseteq> insert (k, v) (set al)"
  by (induction al) auto

lemma delete_absent: "k \<notin> set (map fst al) \<Longrightarrow> AList.delete k al = al"
  by (induction al) (auto simp: AList.delete_eq)

lemma concat_uniform:
  assumes "\<forall>xs \<in> set xss. length xs = b"
  shows "length (concat xss) = length xss * b"
    and "i < length xss * b \<Longrightarrow> concat xss ! i = xss ! (i div b) ! (i mod b)"
proof -
  show "length (concat xss) = length xss * b" using assms by (induction xss) simp_all
  show "concat xss ! i = xss ! (i div b) ! (i mod b)" if "i < length xss * b"
    using assms that
  proof (induction xss arbitrary: i)
    case (Cons xs xss)
    show ?case
    proof (cases "i < b")
      case True
      then show ?thesis using Cons.prems by (simp add: nth_append)
    next
      case False
      then have b: "0 < b" using Cons.prems(2) by (cases b) simp_all
      have "concat (xs # xss) ! i = concat xss ! (i - b)" using Cons.prems(1) False by (simp add: nth_append)
      also have "\<dots> = xss ! ((i - b) div b) ! ((i - b) mod b)" using Cons False by simp
      also have "\<dots> = (xs # xss) ! (i div b) ! (i mod b)"
        using False b by (simp add: le_div_geq le_mod_geq)
      finally show ?thesis .
    qed
  qed simp
qed

end
