(* ===== verification/TurboPack.thy ===== *)
theory TurboPack
  imports Prelude
begin

text \<open>
  \<open>turboquant/src/pack.rs\<close>: the bit-packing of the 3-bit and 4-bit codebook indices of a
  32-value TurboQuant block. Arrays \<open>[u8; n]\<close> are lists of \<open>8 word\<close>; the loops carry the packed
  buffer and \<open>bit_pos\<close>. A packed buffer is read as one little-endian sequence of bits (\<open>fbit\<close>), and
  the lemmas say which bit of which index each bit of it holds; both directions of the round trip
  follow.
\<close>

type_synonym u8 = "8 word"

section \<open>The code\<close>

definition pack_3bit_step :: "u8 list \<times> nat \<Rightarrow> u8 \<Rightarrow> u8 list \<times> nat" where
  "pack_3bit_step st idx =
     (let (packed, bit_pos) = st;
          byte_idx = bit_pos div 8;
          bit_offset = bit_pos mod 8;
          p1 = packed[byte_idx := packed ! byte_idx OR push_bit bit_offset (idx AND 0x07)];
          p2 = (if bit_offset > 5
                then p1[byte_idx + 1 := p1 ! (byte_idx + 1) OR drop_bit (8 - bit_offset) (idx AND 0x07)]
                else p1)
      in (p2, bit_pos + 3))"

definition pack_3bit :: "u8 list \<Rightarrow> u8 list" where
  "pack_3bit indices = fst (foldl pack_3bit_step (replicate 12 0, 0) indices)"

definition unpack_3bit_at :: "u8 list \<Rightarrow> nat \<Rightarrow> u8" where
  "unpack_3bit_at packed bit_pos =
     (let byte_idx = bit_pos div 8;
          bit_offset = bit_pos mod 8;
          val = drop_bit bit_offset (packed ! byte_idx) AND 0x07
      in if bit_offset > 5 \<and> byte_idx + 1 < 12
         then val OR (push_bit (8 - bit_offset) (packed ! (byte_idx + 1)) AND 0x07)
         else val)"

definition unpack_3bit :: "u8 list \<Rightarrow> u8 list" where
  "unpack_3bit packed = map (\<lambda>n. unpack_3bit_at packed (3 * n)) [0..<32]"

definition pack_4bit :: "u8 list \<Rightarrow> u8 list" where
  "pack_4bit indices =
     map (\<lambda>i. (indices ! (i * 2) AND 0x0F) OR push_bit 4 (indices ! (i * 2 + 1) AND 0x0F)) [0..<16]"

definition unpack_4bit :: "u8 list \<Rightarrow> u8 list" where
  "unpack_4bit packed =
     concat (map (\<lambda>i. [packed ! i AND 0x0F, drop_bit 4 (packed ! i) AND 0x0F]) [0..<16])"

text \<open>\<open>packed_bytes\<close> panics for any other width: \<open>None\<close>.\<close>

definition packed_bytes :: "nat \<Rightarrow> nat option" where
  "packed_bytes bits = (if bits = 3 then Some 12 else if bits = 4 then Some 16 else None)"

definition BLOCK_SIZE :: nat where
  "BLOCK_SIZE = 32"

definition block_bytes :: "nat \<Rightarrow> nat option" where
  "block_bytes bits = map_option (\<lambda>n. 2 + n) (packed_bytes bits)"

section \<open>A packed buffer as a sequence of bits\<close>

definition fbit :: "u8 list \<Rightarrow> nat \<Rightarrow> bool" where
  "fbit p q = bit (p ! (q div 8)) (q mod 8)"

lemma fbit_at: "r < 8 \<Longrightarrow> fbit p (8 * c + r) = bit (p ! c) r"
  by (simp add: fbit_def)

lemma bit_mask7 [word_bits]: "bit (x AND 7 :: u8) j \<longleftrightarrow> j < 3 \<and> bit x j"
proof -
  have m: "(7 :: u8) = mask 3" by (simp add: mask_eq_exp_minus_1)
  show ?thesis unfolding m by (auto simp: bit_and_iff bit_mask_iff)
qed

lemma bit_mask15 [word_bits]: "bit (x AND 15 :: u8) j \<longleftrightarrow> j < 4 \<and> bit x j"
proof -
  have m: "(15 :: u8) = mask 4" by (simp add: mask_eq_exp_minus_1)
  show ?thesis unfolding m by (auto simp: bit_and_iff bit_mask_iff)
qed

lemma bit_push8 [word_bits]: "bit (push_bit k x :: u8) j \<longleftrightarrow> k \<le> j \<and> j < 8 \<and> bit x (j - k)"
  by (auto simp: bit_push_bit_iff)

lemma bit_drop8 [word_bits]: "bit (drop_bit k x :: u8) j \<longleftrightarrow> bit x (j + k)"
  by (simp add: bit_drop_bit_eq add.commute)

lemma bit_u8_high: "8 \<le> j \<Longrightarrow> \<not> bit (x :: u8) j"
  using bit_imp_le_length [of x j] by auto

lemma u8_eqI: "(\<And>j. j < 8 \<Longrightarrow> bit x j = bit y j) \<Longrightarrow> x = (y :: u8)"
  by (rule bit_word_eqI) simp

lemma and_mask_small: "unat (x :: u8) < 2 ^ k \<Longrightarrow> x AND mask k = x"
  by (metis take_bit_eq_mask take_bit_nat_eq_self unsigned_take_bit_eq word_unat_eq_iff)

lemma small3_and: "x < (8 :: u8) \<Longrightarrow> x AND 7 = x"
  using and_mask_small [of x 3] by (simp add: word_less_nat_alt mask_eq_exp_minus_1)

lemma small4_and: "x < (16 :: u8) \<Longrightarrow> x AND 15 = x"
  using and_mask_small [of x 4] by (simp add: word_less_nat_alt mask_eq_exp_minus_1)

lemma fbit_eqI:
  assumes "length p = length p'" and "\<And>q. q < 8 * length p \<Longrightarrow> fbit p q = fbit p' q"
  shows "p = p'"
proof (rule nth_equalityI)
  fix i assume i: "i < length p"
  show "p ! i = p' ! i"
  proof (rule u8_eqI)
    fix j :: nat assume "j < 8"
    with i show "bit (p ! i) j = bit (p' ! i) j"
      using assms(2) [of "8 * i + j"] by (simp add: fbit_def)
  qed
qed (rule assms(1))

section \<open>The 3-bit format\<close>

lemma length_pack_3bit_step [simp]: "length (fst (pack_3bit_step st x)) = length (fst st)"
  by (simp add: pack_3bit_step_def Let_def split: prod.splits)

lemma length_pack_fold [simp]: "length (fst (foldl pack_3bit_step st xs)) = length (fst st)"
  by (induction xs arbitrary: st) simp_all

lemma pos_pack_3bit_step [simp]: "snd (pack_3bit_step st x) = snd st + 3"
  by (simp add: pack_3bit_step_def Let_def split: prod.splits)

lemma pos_pack_fold [simp]: "snd (foldl pack_3bit_step st xs) = snd st + 3 * length xs"
  by (induction xs arbitrary: st) simp_all

text \<open>One step sets the three bits from \<open>bit_pos\<close> on and no other.\<close>

lemma fbit_pack_3bit_step:
  assumes "b + 2 < 8 * length p" and "q < 8 * length p"
  shows "fbit (fst (pack_3bit_step (p, b) x)) q
     \<longleftrightarrow> fbit p q \<or> (b \<le> q \<and> q < b + 3 \<and> bit x (q - b))"
proof -
  define c where "c = b div 8"
  define d where "d = b mod 8"
  define i where "i = q div 8"
  define j where "j = q mod 8"
  have b: "b = 8 * c + d" and d: "d < 8" and q: "q = 8 * i + j" and j: "j < 8"
    by (simp_all add: c_def d_def i_def j_def)
  have i: "i < length p" using assms(2) q j by simp
  have c: "c < length p" using assms(1) b by simp
  have c1: "5 < d \<Longrightarrow> c + 1 < length p" using assms(1) b by simp
  have low: "bit (fst (pack_3bit_step (p, b) x) ! i) j \<longleftrightarrow>
     bit (p ! i) j
     \<or> (i = c \<and> d \<le> j \<and> j - d < 3 \<and> bit x (j - d))
     \<or> (5 < d \<and> i = c + 1 \<and> j + (8 - d) < 3 \<and> bit x (j + (8 - d)))"
    using i c c1 j
    by (auto simp: pack_3bit_step_def Let_def c_def [symmetric] d_def [symmetric]
        nth_list_update bit_or_iff word_bits simp del: push_bit_and drop_bit_and)
  have "(i = c \<and> d \<le> j \<and> j - d < 3 \<and> bit x (j - d))
     \<or> (5 < d \<and> i = c + 1 \<and> j + (8 - d) < 3 \<and> bit x (j + (8 - d)))
     \<longleftrightarrow> (b \<le> q \<and> q < b + 3 \<and> bit x (q - b))" (is "?A \<or> ?B \<longleftrightarrow> ?C")
  proof
    assume "?A \<or> ?B" then show ?C
      unfolding b q using d j by (auto simp: algebra_simps diff_mult_distrib2)
  next
    assume c: ?C
    then have "i = c \<or> i = c + 1" unfolding b q using d j by linarith
    then show "?A \<or> ?B"
    proof
      assume "i = c" with c show ?thesis unfolding b q by auto
    next
      assume ic: "i = c + 1"
      then have "q - b = j + (8 - d)" unfolding b q using d by simp
      with c ic show ?thesis unfolding b q using d j by auto
    qed
  qed
  with low show ?thesis by (simp add: fbit_def i_def j_def)
qed

lemma fbit_pack_fold:
  assumes "3 * length xs \<le> 8 * n" and "q < 8 * n"
  shows "fbit (fst (foldl pack_3bit_step (replicate n 0, 0) xs)) q
     \<longleftrightarrow> q < 3 * length xs \<and> bit (xs ! (q div 3)) (q mod 3)"
  using assms(1)
proof (induction xs rule: rev_induct)
  case Nil
  with assms(2) show ?case by (simp add: fbit_def)
next
  case (snoc x xs)
  let ?s = "foldl pack_3bit_step (replicate n 0, 0) xs"
  have s: "?s = (fst ?s, 3 * length xs)"
    using pos_pack_fold [of "(replicate n 0, 0)" xs] by (metis add_0 prod.collapse snd_conv)
  have "fbit (fst (pack_3bit_step ?s x)) q \<longleftrightarrow>
      fbit (fst ?s) q \<or> (3 * length xs \<le> q \<and> q < 3 * length xs + 3 \<and> bit x (q - 3 * length xs))"
    using snoc.prems assms(2) by (subst s, subst fbit_pack_3bit_step) auto
  also have "fbit (fst ?s) q \<longleftrightarrow> q < 3 * length xs \<and> bit (xs ! (q div 3)) (q mod 3)"
    using snoc by simp
  also have "(q < 3 * length xs \<and> bit (xs ! (q div 3)) (q mod 3)) \<or>
      (3 * length xs \<le> q \<and> q < 3 * length xs + 3 \<and> bit x (q - 3 * length xs))
    \<longleftrightarrow> q < 3 * length (xs @ [x]) \<and> bit ((xs @ [x]) ! (q div 3)) (q mod 3)"
  proof (cases "q < 3 * length xs")
    case True
    then have "q div 3 < length xs" by auto
    with True show ?thesis by (auto simp: nth_append)
  next
    case False
    have "q div 3 = length xs \<and> q mod 3 = q - 3 * length xs" if "q < 3 * length xs + 3"
    proof -
      define r where "r = q - 3 * length xs"
      have "q = 3 * length xs + r" "r < 3" using that False by (auto simp: r_def)
      then show ?thesis by simp
    qed
    with False show ?thesis by (auto simp: nth_append)
  qed
  finally show ?case by simp
qed

lemma length_pack_3bit [simp]: "length (pack_3bit xs) = 12"
  by (simp add: pack_3bit_def)

lemma length_unpack_3bit [simp]: "length (unpack_3bit p) = 32"
  by (simp add: unpack_3bit_def)

lemma fbit_pack_3bit:
  "length xs = 32 \<Longrightarrow> q < 96 \<Longrightarrow> fbit (pack_3bit xs) q = bit (xs ! (q div 3)) (q mod 3)"
  unfolding pack_3bit_def by (subst fbit_pack_fold) auto

text \<open>Index \<open>n\<close> is read from the three bits at \<open>3 n\<close>.\<close>

lemma bit_unpack_3bit_at:
  assumes "length p = 12" and "b + 2 < 96"
  shows "bit (unpack_3bit_at p b) j \<longleftrightarrow> j < 3 \<and> fbit p (b + j)"
proof -
  define c where "c = b div 8"
  define d where "d = b mod 8"
  have b: "b = 8 * c + d" and d: "d < 8" by (simp_all add: c_def d_def)
  have c1: "5 < d \<Longrightarrow> c + 1 < 12" using assms(2) b by simp
  show ?thesis
  proof (cases "j < 3")
    case True
    show ?thesis
    proof (cases "d + j < 8")
      case True
      have e: "b + j = 8 * c + (d + j)" by (simp add: b)
      have "fbit p (b + j) = bit (p ! c) (d + j)"
        unfolding e using True by (rule fbit_at)
      with True \<open>j < 3\<close> d c1 show ?thesis
        by (auto simp: unpack_3bit_at_def Let_def c_def [symmetric] d_def [symmetric]
            bit_or_iff word_bits add.commute simp del: push_bit_and drop_bit_and)
    next
      case False
      then have e: "b + j = 8 * (c + 1) + (d + j - 8)" and "d + j - 8 < 8" and five: "5 < d"
        using b d \<open>j < 3\<close> by auto
      then have f: "fbit p (b + j) = bit (p ! (c + 1)) (d + j - 8)"
        using fbit_at [of "d + j - 8" p "c + 1"] by (simp only: e)
      have g: "j - (8 - d) = d + j - 8" and "8 - d \<le> j" and "\<not> bit (p ! c) (j + d)"
        using False d bit_u8_high [of "j + d" "p ! c"] by auto
      then show ?thesis using \<open>j < 3\<close> five c1 f
        by (auto simp: unpack_3bit_at_def Let_def c_def [symmetric] d_def [symmetric]
            bit_or_iff word_bits simp del: push_bit_and drop_bit_and)
    qed
  next
    case False
    then show ?thesis
      by (auto simp: unpack_3bit_at_def Let_def bit_or_iff word_bits simp del: push_bit_and drop_bit_and)
  qed
qed

lemma unpack_3bit_nth:
  "n < 32 \<Longrightarrow> unpack_3bit p ! n = unpack_3bit_at p (3 * n)"
  by (simp add: unpack_3bit_def)

lemma unpack_pack_3bit:
  assumes "length xs = 32" and "\<And>x. x \<in> set xs \<Longrightarrow> x < 8"
  shows "unpack_3bit (pack_3bit xs) = xs"
proof (rule nth_equalityI)
  fix n assume "n < length (unpack_3bit (pack_3bit xs))"
  then have n: "n < 32" by simp
  show "unpack_3bit (pack_3bit xs) ! n = xs ! n"
  proof (rule u8_eqI)
    fix j :: nat
    have "xs ! n AND 7 = xs ! n" using assms n by (intro small3_and) auto
    then have hi: "bit (xs ! n) j \<longleftrightarrow> j < 3 \<and> bit (xs ! n) j" by (metis bit_mask7)
    have "bit (unpack_3bit (pack_3bit xs) ! n) j \<longleftrightarrow> j < 3 \<and> fbit (pack_3bit xs) (3 * n + j)"
      using n by (simp add: unpack_3bit_nth bit_unpack_3bit_at)
    also have "\<dots> \<longleftrightarrow> j < 3 \<and> bit (xs ! n) j"
      using n assms(1) by (auto simp: fbit_pack_3bit)
    finally show "bit (unpack_3bit (pack_3bit xs) ! n) j = bit (xs ! n) j" using hi by simp
  qed
qed (use assms in simp)

lemma pack_unpack_3bit:
  assumes "length p = 12"
  shows "pack_3bit (unpack_3bit p) = p"
proof (rule fbit_eqI)
  fix q assume "q < 8 * length (pack_3bit (unpack_3bit p))"
  then have q: "q < 96" by simp
  then have "fbit (pack_3bit (unpack_3bit p)) q = bit (unpack_3bit p ! (q div 3)) (q mod 3)"
    by (simp add: fbit_pack_3bit)
  also have "\<dots> = fbit p (3 * (q div 3) + q mod 3)"
  proof -
    have "q div 3 < 32" using q by simp
    moreover from this have "3 * (q div 3) + 2 < 96" by simp
    ultimately show ?thesis using assms by (simp only: unpack_3bit_nth bit_unpack_3bit_at) simp
  qed
  finally show "fbit (pack_3bit (unpack_3bit p)) q = fbit p q" by simp
qed (simp add: assms)

text \<open>
  Every block of 32 three-bit indices survives packing and unpacking, and packing is also
  inverse to unpacking on every 12-byte buffer: the format wastes no bit and loses none.
\<close>

theorem pack_3bit_roundtrip:
  assumes "length indices = 32" and "\<forall>x \<in> set indices. x < 8" and "length packed = 12"
  shows "unpack_3bit (pack_3bit indices) = indices \<and> pack_3bit (unpack_3bit packed) = packed"
  using assms by (simp add: unpack_pack_3bit pack_unpack_3bit)

theorem pack_3bit_roundtrip_witness:
  "unpack_3bit (pack_3bit (replicate 31 3 @ [6])) = replicate 31 3 @ [6]
     \<and> pack_3bit (unpack_3bit (replicate 12 0xA5)) = replicate 12 0xA5"
  by (rule pack_3bit_roundtrip) simp_all

section \<open>The 4-bit format\<close>

lemma length_pack_4bit [simp]: "length (pack_4bit xs) = 16"
  by (simp add: pack_4bit_def)

lemma concat_pairs_nth:
  "n < 2 * length xs \<Longrightarrow> concat (map (\<lambda>i. [f i, g i]) xs) ! n
     = (if even n then f (xs ! (n div 2)) else g (xs ! (n div 2)))"
proof (induction xs arbitrary: n)
  case (Cons x xs)
  consider "n = 0" | "n = 1" | m where "n = m + 2"
    by (metis One_nat_def add_2_eq_Suc' not0_implies_Suc)
  then show ?case
  proof cases
    case 3
    with Cons show ?thesis by auto
  qed simp_all
qed simp

lemma length_unpack_4bit [simp]: "length (unpack_4bit p) = 32"
  by (simp add: unpack_4bit_def length_concat comp_def sum_list_triv)

lemma unpack_4bit_nth:
  "n < 32 \<Longrightarrow> unpack_4bit p ! n
     = (if even n then p ! (n div 2) AND 15 else drop_bit 4 (p ! (n div 2)) AND 15)"
  unfolding unpack_4bit_def by (subst concat_pairs_nth) (simp_all add: less_mult_imp_div_less del: upt_rec_numeral upt_conv_Cons)

lemma pack_4bit_nth:
  "i < 16 \<Longrightarrow> pack_4bit xs ! i = (xs ! (i * 2) AND 15) OR push_bit 4 (xs ! (i * 2 + 1) AND 15)"
  by (simp add: pack_4bit_def)

lemma and_assoc_self: "(x AND 15) AND 15 = (x AND 15 :: u8)"
  by (simp add: and.assoc)

lemma nibbles:
  "((x AND 15) OR push_bit 4 (y AND 15)) AND 15 = (x AND 15 :: u8)"
  "drop_bit 4 ((x AND 15) OR push_bit 4 (y AND 15)) AND 15 = (y AND 15 :: u8)"
  "(z AND 15) OR push_bit 4 (drop_bit 4 z AND 15) = (z :: u8)"
  by (rule u8_eqI; auto simp: bit_or_iff word_bits simp del: push_bit_and drop_bit_and drop_bit_or)+

text \<open>
  The same two round trips for the 4-bit format (32 indices in 16 bytes).
\<close>

theorem pack_4bit_roundtrip:
  assumes "length indices = 32" and "\<forall>x \<in> set indices. x < 16" and "length packed = 16"
  shows "unpack_4bit (pack_4bit indices) = indices \<and> pack_4bit (unpack_4bit packed) = packed"
proof
  show "unpack_4bit (pack_4bit indices) = indices"
  proof (rule nth_equalityI)
    fix n assume "n < length (unpack_4bit (pack_4bit indices))"
    then have n: "n < 32" by simp
    have n2: "n div 2 < 16" using n by simp
    have self: "indices ! n AND 15 = indices ! n" using assms n by (intro small4_and) auto
    show "unpack_4bit (pack_4bit indices) ! n = indices ! n"
    proof (cases "even n")
      case True
      then have "unpack_4bit (pack_4bit indices) ! n = indices ! (n div 2 * 2) AND 15"
        by (simp only: unpack_4bit_nth [OF n] if_True pack_4bit_nth [OF n2] nibbles)
      with True self show ?thesis by simp
    next
      case False
      then have "unpack_4bit (pack_4bit indices) ! n = indices ! (n div 2 * 2 + 1) AND 15"
        by (simp only: unpack_4bit_nth [OF n] if_False pack_4bit_nth [OF n2] nibbles)
      moreover have "n div 2 * 2 + 1 = n" using False by presburger
      ultimately show ?thesis using self by simp
    qed
  qed (use assms in simp)
  show "pack_4bit (unpack_4bit packed) = packed"
  proof (rule nth_equalityI)
    fix i assume "i < length (pack_4bit (unpack_4bit packed))"
    then have i: "i < 16" by simp
    then have "unpack_4bit packed ! (i * 2) = packed ! i AND 15"
      and "unpack_4bit packed ! (i * 2 + 1) = drop_bit 4 (packed ! i) AND 15"
      by (simp_all add: unpack_4bit_nth)
    then show "pack_4bit (unpack_4bit packed) ! i = packed ! i"
      by (simp only: pack_4bit_nth [OF i] and_assoc_self nibbles)
  qed (simp add: assms)
qed

theorem pack_4bit_roundtrip_witness:
  "unpack_4bit (pack_4bit (replicate 31 13 @ [9])) = replicate 31 13 @ [9]
     \<and> pack_4bit (unpack_4bit (replicate 16 0xA5)) = replicate 16 0xA5"
  by (rule pack_4bit_roundtrip) simp_all

end
