(* ===== verification/Admission.thy ===== *)
theory Admission
  imports Prelude
begin

text \<open>
  \<open>ironmlx/src/core/server/adaptive_admission.rs\<close>: how many requests a fresh batch may hold, which
  requests may share one, and when a request may join a batch that is already decoding. The policy
  is stateless; the scheduler actor consults it before every admission.
\<close>

definition ADAPTIVE_LATENCY_BATCH_LIMIT :: nat where
  "ADAPTIVE_LATENCY_BATCH_LIMIT = 2"

record admission_request_shape =
  prompt_len :: nat
  prefill_chunk_size :: nat
  decode_cadence_mid_chunk_cap :: nat
  speculative_pipelinable :: bool

definition uses_multi_chunk_prefill :: "admission_request_shape \<Rightarrow> bool" where
  "uses_multi_chunk_prefill r \<longleftrightarrow> prefill_chunk_size r > 0 \<and> prompt_len r > prefill_chunk_size r"

datatype adaptive_admission_mode = Disabled | Gemma4Drafter | PromptLookup | QwenMtp

fun fresh_batch_limit ::
  "adaptive_admission_mode \<Rightarrow> admission_request_shape \<Rightarrow> nat \<Rightarrow> nat \<Rightarrow> nat" where
  "fresh_batch_limit mode request model_limit b_max =
     (let model_limit = clamp model_limit 1 (max b_max 1);
          latency = clamp (min model_limit ADAPTIVE_LATENCY_BATCH_LIMIT) 1 (max b_max 1)
      in case mode of
           Disabled \<Rightarrow> model_limit
         | QwenMtp \<Rightarrow>
             if uses_multi_chunk_prefill request
             then if speculative_pipelinable request then latency else 1
             else latency
         | _ \<Rightarrow> if uses_multi_chunk_prefill request then 1 else latency)"

fun can_join_fresh_batch ::
  "adaptive_admission_mode \<Rightarrow> admission_request_shape \<Rightarrow> admission_request_shape \<Rightarrow> bool" where
  "can_join_fresh_batch Disabled a c = True"
| "can_join_fresh_batch QwenMtp a c =
     (if uses_multi_chunk_prefill a \<noteq> uses_multi_chunk_prefill c then False
      else if uses_multi_chunk_prefill a
           then speculative_pipelinable a \<and> speculative_pipelinable c
           else True)"
| "can_join_fresh_batch _ a c = (uses_multi_chunk_prefill a = uses_multi_chunk_prefill c)"

definition can_start_rolling_mid_admit ::
  "adaptive_admission_mode \<Rightarrow> admission_request_shape \<Rightarrow> nat \<Rightarrow> nat \<Rightarrow> nat \<Rightarrow> nat \<Rightarrow> bool" where
  "can_start_rolling_mid_admit mode request active_count model_limit b_max available_decode_steps =
     (if active_count \<ge> b_max then False
      else let model_limit = clamp model_limit 1 (max b_max 1)
           in case mode of
                Disabled \<Rightarrow> active_count < model_limit \<or> uses_multi_chunk_prefill request
              | QwenMtp \<Rightarrow>
                  if uses_multi_chunk_prefill request then False
                  else active_count < min model_limit ADAPTIVE_LATENCY_BATCH_LIMIT
              | _ \<Rightarrow>
                  if uses_multi_chunk_prefill request then True
                  else active_count < min model_limit ADAPTIVE_LATENCY_BATCH_LIMIT)"

declare fresh_batch_limit.simps [simp del]

section \<open>Limits\<close>

lemma fresh_batch_limit_pos: "1 \<le> fresh_batch_limit mode r ml b"
  by (cases mode) (auto simp: fresh_batch_limit.simps clamp_def ADAPTIVE_LATENCY_BATCH_LIMIT_def Let_def)

lemma fresh_batch_limit_slots: "fresh_batch_limit mode r ml b \<le> max b 1"
  by (cases mode) (auto simp: fresh_batch_limit.simps clamp_def ADAPTIVE_LATENCY_BATCH_LIMIT_def Let_def)

lemma fresh_batch_limit_model: "1 \<le> ml \<Longrightarrow> fresh_batch_limit mode r ml b \<le> ml"
  by (cases mode) (auto simp: fresh_batch_limit.simps clamp_def ADAPTIVE_LATENCY_BATCH_LIMIT_def Let_def)

lemma fresh_batch_limit_latency:
  "mode \<noteq> Disabled \<Longrightarrow> fresh_batch_limit mode r ml b \<le> 2"
  by (cases mode) (auto simp: fresh_batch_limit.simps clamp_def ADAPTIVE_LATENCY_BATCH_LIMIT_def Let_def)

section \<open>Who may share a batch\<close>

lemma can_join_refl: "mode \<noteq> QwenMtp \<Longrightarrow> can_join_fresh_batch mode a a"
  by (cases mode) auto

lemma can_join_sym: "can_join_fresh_batch mode a c = can_join_fresh_batch mode c a"
  by (cases mode) auto

lemma can_join_trans:
  "can_join_fresh_batch mode a c \<Longrightarrow> can_join_fresh_batch mode a d \<Longrightarrow> can_join_fresh_batch mode c d"
  by (cases mode) (auto split: if_splits)

text \<open>Shapes that may join each other get the same limit, for the same model limit.\<close>

lemma can_join_limit:
  "can_join_fresh_batch mode a c \<Longrightarrow> fresh_batch_limit mode c ml b = fresh_batch_limit mode a ml b"
  by (cases mode) (auto simp: fresh_batch_limit.simps split: if_splits)

end
