(* ===== verification/FreshBatch.thy ===== *)
theory FreshBatch
  imports Admission "HOL-Library.Sublist"
begin

text \<open>
  \<open>ironmlx/src/core/server/scheduler_actor.rs\<close>: how the actor fills a fresh batch. The batch starts
  from one request (off the channel or off the head of the admission queue), grows first from the
  queue and then from the channel until the admission deadline, and what does not fit goes to the
  bounded admission queue or is refused.

  The scheduler's own verdict on a request, whether the caller still listens when the reply is
  sent, whether the eviction of an orphan succeeds, and the model's batch limit are the fields of
  \<open>admission_env\<close>. A channel event carries the callers that have gone away by the time it is handled.
\<close>

record admission_env =
  sched_accepts :: "nat \<Rightarrow> bool"
  reply_received :: "nat \<Rightarrow> bool"
  evict_succeeds :: "nat \<Rightarrow> bool"
  model_batch_limit :: "nat \<Rightarrow> nat \<Rightarrow> nat"

record pending_admit =
  pa_id :: nat
  pa_shape :: admission_request_shape

datatype admit_reply = Admitted | AdmitError | QueueFull nat

record admission_state =
  active :: "pending_admit list"
  admission_queue :: "pending_admit list"
  admit_count :: nat
  saturate_triggered :: nat
  queue_depth_peak :: nat
  queue_rejected :: nat
  replies :: "(nat \<times> admit_reply) list"

definition LLAMA_LONG_PREFILL_THRESHOLD :: nat where "LLAMA_LONG_PREFILL_THRESHOLD = 4096"
definition LLAMA_LONG_PREFILL_LIMIT :: nat where "LLAMA_LONG_PREFILL_LIMIT = 1"
definition GLM4_LONG_PREFILL_THRESHOLD :: nat where "GLM4_LONG_PREFILL_THRESHOLD = 1024"
definition GLM4_LONG_PREFILL_LIMIT :: nat where "GLM4_LONG_PREFILL_LIMIT = 2"

definition llama_fresh_prefill_batch_limit :: "nat \<Rightarrow> nat \<Rightarrow> nat" where
  "llama_fresh_prefill_batch_limit len b_max =
     (if len \<ge> LLAMA_LONG_PREFILL_THRESHOLD then min b_max LLAMA_LONG_PREFILL_LIMIT else b_max)"

definition glm4_fresh_prefill_batch_limit :: "nat \<Rightarrow> nat \<Rightarrow> nat" where
  "glm4_fresh_prefill_batch_limit len b_max =
     (if len \<ge> GLM4_LONG_PREFILL_THRESHOLD then min b_max GLM4_LONG_PREFILL_LIMIT else b_max)"

definition fresh_prefill_batch_limit_for_request ::
  "admission_env \<Rightarrow> adaptive_admission_mode \<Rightarrow> nat \<Rightarrow> pending_admit \<Rightarrow> nat" where
  "fresh_prefill_batch_limit_for_request env mode b_max p =
     fresh_batch_limit mode (pa_shape p)
       (clamp (model_batch_limit env (prompt_len (pa_shape p)) b_max) 1 b_max) b_max"

definition handle_admit :: "admission_env \<Rightarrow> pending_admit \<Rightarrow> admission_state \<Rightarrow> admission_state" where
  "handle_admit env p st =
     (if sched_accepts env (pa_id p) then
        let st = st\<lparr>admit_count := admit_count st + 1\<rparr> in
        if reply_received env (pa_id p)
        then st\<lparr>active := active st @ [p], replies := replies st @ [(pa_id p, Admitted)]\<rparr>
        else if evict_succeeds env (pa_id p) then st
        else st\<lparr>active := active st @ [p]\<rparr>
      else st\<lparr>replies := replies st @ [(pa_id p, AdmitError)]\<rparr>)"

definition prune_abandoned_pending_admits :: "nat set \<Rightarrow> pending_admit list \<Rightarrow> pending_admit list" where
  "prune_abandoned_pending_admits closed q = filter (\<lambda>p. pa_id p \<notin> closed) q"

definition enqueue_or_reject ::
  "nat \<Rightarrow> nat set \<Rightarrow> pending_admit \<Rightarrow> admission_state \<Rightarrow> admission_state" where
  "enqueue_or_reject queue_max closed p st =
     (if pa_id p \<in> closed then st
      else let q = prune_abandoned_pending_admits closed (admission_queue st) in
        if length q \<ge> queue_max
        then st\<lparr>admission_queue := q, queue_rejected := queue_rejected st + 1,
                replies := replies st @ [(pa_id p, QueueFull queue_max)]\<rparr>
        else st\<lparr>admission_queue := q @ [p],
                queue_depth_peak := max (queue_depth_peak st) (length q + 1)\<rparr>)"

fun drain_window_loop ::
  "admission_env \<Rightarrow> adaptive_admission_mode \<Rightarrow> nat \<Rightarrow> nat \<Rightarrow> nat \<Rightarrow> admission_request_shape \<Rightarrow> bool
   \<Rightarrow> (pending_admit \<times> nat set) list \<Rightarrow> admission_state \<Rightarrow> admission_state" where
  "drain_window_loop env mode batch_limit b_max queue_max shape limit_reached [] st = st"
| "drain_window_loop env mode batch_limit b_max queue_max shape limit_reached ((p, closed) # evs) st =
     (if limit_reached
         \<or> length (active st) \<ge> fresh_prefill_batch_limit_for_request env mode b_max p
         \<or> \<not> can_join_fresh_batch mode shape (pa_shape p)
      then drain_window_loop env mode batch_limit b_max queue_max shape limit_reached evs
             (enqueue_or_reject queue_max closed p st)
      else let st = handle_admit env p st in
        if length (active st) \<ge> batch_limit
        then drain_window_loop env mode batch_limit b_max queue_max shape True evs
               (if batch_limit \<ge> b_max
                then st\<lparr>saturate_triggered := saturate_triggered st + 1\<rparr> else st)
        else drain_window_loop env mode batch_limit b_max queue_max shape limit_reached evs st)"

definition drain_window ::
  "admission_env \<Rightarrow> adaptive_admission_mode \<Rightarrow> nat \<Rightarrow> nat \<Rightarrow> nat \<Rightarrow> admission_request_shape
   \<Rightarrow> (pending_admit \<times> nat set) list \<Rightarrow> admission_state \<Rightarrow> admission_state" where
  "drain_window env mode batch_limit b_max queue_max shape evs st =
     drain_window_loop env mode (clamp batch_limit 1 b_max) b_max queue_max shape False evs st"

text \<open>
  \<open>driver_loop\<close>, from the first command of an idle actor to the end of the admission window. Between the window and the
  prefill the actor drops requests whose callers have gone away, from the queue and from the batch; that only
  removes requests and is left out.
\<close>

definition start_batch_from_command ::
  "admission_env \<Rightarrow> adaptive_admission_mode \<Rightarrow> nat \<Rightarrow> nat \<Rightarrow> pending_admit
   \<Rightarrow> (pending_admit \<times> nat set) list \<Rightarrow> admission_state \<Rightarrow> admission_state" where
  "start_batch_from_command env mode b_max queue_max first evs st =
     (let limit = fresh_prefill_batch_limit_for_request env mode b_max first;
          st = handle_admit env first st
      in if active st = [] then st
         else if length (active st) < limit
         then drain_window env mode limit b_max queue_max (pa_shape first) evs st
         else st)"

text \<open>\<open>drive_empty_scheduler_handoff\<close>: the loop that takes queued requests head by head.\<close>

fun drain_queue ::
  "admission_env \<Rightarrow> adaptive_admission_mode \<Rightarrow> nat \<Rightarrow> nat \<Rightarrow> admission_request_shape
   \<Rightarrow> pending_admit list \<Rightarrow> admission_state \<Rightarrow> admission_state" where
  "drain_queue env mode limit b_max shape [] st = st"
| "drain_queue env mode limit b_max shape (p # q) st =
     (if length (active st) < limit then
        if length (active st) \<ge> fresh_prefill_batch_limit_for_request env mode b_max p
           \<or> \<not> can_join_fresh_batch mode shape (pa_shape p)
        then st
        else drain_queue env mode limit b_max shape q (handle_admit env p (st\<lparr>admission_queue := q\<rparr>))
      else st)"

definition start_batch_from_queue ::
  "admission_env \<Rightarrow> adaptive_admission_mode \<Rightarrow> nat \<Rightarrow> nat
   \<Rightarrow> (pending_admit \<times> nat set) list \<Rightarrow> admission_state \<Rightarrow> admission_state" where
  "start_batch_from_queue env mode b_max queue_max evs st =
     (case admission_queue st of
        [] \<Rightarrow> st
      | first # q \<Rightarrow>
         (let limit = fresh_prefill_batch_limit_for_request env mode b_max first;
              st = handle_admit env first (st\<lparr>admission_queue := q\<rparr>)
          in if active st = [] then st
             else if length (active st) < limit then
               let st = drain_queue env mode limit b_max (pa_shape first) (admission_queue st) st in
               if length (active st) < limit
               then drain_window env mode limit b_max queue_max (pa_shape first) evs st
               else st
             else st))"

definition can_start_rolling_mid_admit_for_request ::
  "admission_env \<Rightarrow> adaptive_admission_mode \<Rightarrow> nat \<Rightarrow> pending_admit \<Rightarrow> nat \<Rightarrow> nat \<Rightarrow> bool" where
  "can_start_rolling_mid_admit_for_request env mode b_max p active_count steps =
     (if active_count \<ge> b_max then False
      else can_start_rolling_mid_admit mode (pa_shape p) active_count
             (clamp (model_batch_limit env (prompt_len (pa_shape p)) b_max) 1 b_max) b_max steps)"

section \<open>Frames and single steps\<close>

lemma handle_admit_queue [frame_simps]: "admission_queue (handle_admit env p st) = admission_queue st"
  by (simp add: handle_admit_def Let_def)

lemma handle_admit_active:
  "active (handle_admit env p st) = active st \<or> active (handle_admit env p st) = active st @ [p]"
  by (simp add: handle_admit_def Let_def)

lemma handle_admit_replies: "set (replies st) \<subseteq> set (replies (handle_admit env p st))"
  by (auto simp: handle_admit_def Let_def)

lemma enqueue_active [frame_simps]: "active (enqueue_or_reject qm cl p st) = active st"
  by (simp add: enqueue_or_reject_def Let_def)

lemma enqueue_replies: "set (replies st) \<subseteq> set (replies (enqueue_or_reject qm cl p st))"
  by (auto simp: enqueue_or_reject_def Let_def)

lemma request_limit_bounds:
  "1 \<le> b \<Longrightarrow> 1 \<le> fresh_prefill_batch_limit_for_request env mode b p
          \<and> fresh_prefill_batch_limit_for_request env mode b p \<le> b"
  using fresh_batch_limit_pos fresh_batch_limit_slots [of mode "pa_shape p" _ b]
  by (simp add: fresh_prefill_batch_limit_for_request_def max_def)

section \<open>The batch that is being filled\<close>

text \<open>
  \<open>first\<close> opened the batch, every later member may share with it, was not refused by its own limit
  while the batch already had a member, and the size respects the limit of the first.
\<close>

definition batch_ok ::
  "admission_env \<Rightarrow> adaptive_admission_mode \<Rightarrow> nat \<Rightarrow> pending_admit \<Rightarrow> pending_admit list \<Rightarrow> bool" where
  "batch_ok env mode b first ps =
     (\<exists>rest. ps = first # rest
        \<and> length ps \<le> fresh_prefill_batch_limit_for_request env mode b first
        \<and> (\<forall>c \<in> set rest. can_join_fresh_batch mode (pa_shape first) (pa_shape c)
             \<and> 2 \<le> fresh_prefill_batch_limit_for_request env mode b c))"

lemma batch_ok_snoc:
  assumes "batch_ok env mode b first ps"
    and "length ps < fresh_prefill_batch_limit_for_request env mode b first"
    and "length ps < fresh_prefill_batch_limit_for_request env mode b p"
    and "can_join_fresh_batch mode (pa_shape first) (pa_shape p)"
  shows "batch_ok env mode b first (ps @ [p])"
  using assms by (auto simp: batch_ok_def)

lemma batch_ok_handle:
  assumes "batch_ok env mode b first (active st)"
    and "length (active st) < fresh_prefill_batch_limit_for_request env mode b first"
    and "length (active st) < fresh_prefill_batch_limit_for_request env mode b p"
    and "can_join_fresh_batch mode (pa_shape first) (pa_shape p)"
  shows "batch_ok env mode b first (active (handle_admit env p st))"
  using handle_admit_active [of env p st] batch_ok_snoc [OF assms] assms(1) by auto

lemma drain_queue_batch_ok:
  "batch_ok env mode b first (active st)
   \<Longrightarrow> batch_ok env mode b first (active (drain_queue env mode
         (fresh_prefill_batch_limit_for_request env mode b first) b (pa_shape first) q st))"
proof (induction q arbitrary: st)
  case (Cons p q)
  show ?case
  proof (cases "length (active st) < fresh_prefill_batch_limit_for_request env mode b first
      \<and> length (active st) < fresh_prefill_batch_limit_for_request env mode b p
      \<and> can_join_fresh_batch mode (pa_shape first) (pa_shape p)")
    case True
    with Cons.prems
    have "batch_ok env mode b first (active (handle_admit env p (st\<lparr>admission_queue := q\<rparr>)))"
      by (intro batch_ok_handle) auto
    with True Cons.IH show ?thesis by simp
  next
    case False
    with Cons.prems show ?thesis by auto
  qed
qed simp

lemma drain_window_loop_full [frame_simps]:
  "active (drain_window_loop env mode limit b qm shape True evs st) = active st"
  by (induction evs arbitrary: st) (auto simp: frame_simps)

lemma drain_window_loop_batch_ok:
  "batch_ok env mode b first (active st)
   \<Longrightarrow> limit = fresh_prefill_batch_limit_for_request env mode b first
   \<Longrightarrow> length (active st) < limit
   \<Longrightarrow> batch_ok env mode b first
         (active (drain_window_loop env mode limit b qm (pa_shape first) False evs st))"
proof (induction evs arbitrary: st)
  case (Cons e evs)
  obtain p cl where e: "e = (p, cl)" by (cases e)
  show ?case
  proof (cases "length (active st) \<ge> fresh_prefill_batch_limit_for_request env mode b p
       \<or> \<not> can_join_fresh_batch mode (pa_shape first) (pa_shape p)")
    case True
    then show ?thesis using Cons by (auto simp: e frame_simps)
  next
    case False
    with Cons.prems have "batch_ok env mode b first (active (handle_admit env p st))"
      by (auto intro: batch_ok_handle)
    with False Cons show ?thesis by (auto simp: e Let_def frame_simps)
  qed
qed simp

lemma batch_ok_first:
  "active st = [] \<Longrightarrow> active (handle_admit env p st) \<noteq> [] \<Longrightarrow> 1 \<le> b
    \<Longrightarrow> batch_ok env mode b p (active (handle_admit env p st))"
  using handle_admit_active [of env p st] request_limit_bounds [of b env mode p]
  by (auto simp: batch_ok_def)

lemma drain_window_batch_ok:
  assumes "batch_ok env mode b first (active st)"
    and "length (active st) < fresh_prefill_batch_limit_for_request env mode b first" and "0 < b"
  shows "batch_ok env mode b first (active (drain_window env mode
           (fresh_prefill_batch_limit_for_request env mode b first) b qm (pa_shape first) evs st))"
  using assms request_limit_bounds [of b env mode first]
  by (simp add: drain_window_def drain_window_loop_batch_ok)

lemma start_from_command_batch_ok:
  assumes "active st = []" and "1 \<le> b"
    and "active (start_batch_from_command env mode b qm first evs st) \<noteq> []"
  shows "batch_ok env mode b first (active (start_batch_from_command env mode b qm first evs st))"
  using assms batch_ok_first [OF assms(1), of env first b mode]
  by (auto simp: start_batch_from_command_def Let_def intro: drain_window_batch_ok)

lemma start_from_queue_batch_ok:
  assumes "active st = []" and "1 \<le> b" and "admission_queue st = first # q"
    and "active (start_batch_from_queue env mode b qm evs st) \<noteq> []"
  shows "batch_ok env mode b first (active (start_batch_from_queue env mode b qm evs st))"
proof -
  let ?st = "handle_admit env first (st\<lparr>admission_queue := q\<rparr>)"
  have "active ?st \<noteq> [] \<Longrightarrow> batch_ok env mode b first (active ?st)"
    using assms(1,2) by (intro batch_ok_first) auto
  with assms show ?thesis
    by (auto simp: start_batch_from_queue_def Let_def
        intro!: drain_window_batch_ok drain_queue_batch_ok)
qed

text \<open>
  C39: every batch the actor prefills, whether it was opened by a command off the channel or by the
  head of the admission queue, and whatever arrives while it fills, is homogeneous and bounded: its
  members may pairwise share a batch under the admission policy, its size is at least one and at
  most the limit of the request that opened it (hence at most \<open>b_max\<close>), and a member whose own limit
  is one never shares it with another.
\<close>

theorem fresh_batch_sound:
  assumes "active st = []" and "1 \<le> b"
    and "st' = start_batch_from_command env mode b qm first evs st
       \<or> admission_queue st = first # q \<and> st' = start_batch_from_queue env mode b qm evs st"
    and "active st' \<noteq> []"
  shows "\<exists>rest. active st' = first # rest
     \<and> length (active st') \<le> fresh_prefill_batch_limit_for_request env mode b first
     \<and> fresh_prefill_batch_limit_for_request env mode b first \<le> b
     \<and> (\<forall>c \<in> set rest. can_join_fresh_batch mode (pa_shape first) (pa_shape c)
          \<and> (\<forall>d \<in> set rest. can_join_fresh_batch mode (pa_shape c) (pa_shape d)))
     \<and> (rest \<noteq> [] \<longrightarrow> (\<forall>c \<in> set (first # rest). 2 \<le> fresh_prefill_batch_limit_for_request env mode b c))"
proof -
  have "batch_ok env mode b first (active st')"
    using assms start_from_command_batch_ok start_from_queue_batch_ok by blast
  then obtain rest where rest: "active st' = first # rest"
    "length (active st') \<le> fresh_prefill_batch_limit_for_request env mode b first"
    "\<forall>c \<in> set rest. can_join_fresh_batch mode (pa_shape first) (pa_shape c)
       \<and> 2 \<le> fresh_prefill_batch_limit_for_request env mode b c"
    unfolding batch_ok_def by blast
  moreover have "rest \<noteq> [] \<Longrightarrow> 2 \<le> fresh_prefill_batch_limit_for_request env mode b first"
    using rest(1,2) by (cases rest) auto
  ultimately show ?thesis
    using request_limit_bounds [OF assms(2)] by (auto intro: can_join_trans)
qed

definition demo_env :: "(nat \<Rightarrow> nat \<Rightarrow> nat) \<Rightarrow> admission_env" where
  "demo_env limit = \<lparr>sched_accepts = (\<lambda>i. i \<noteq> 9), reply_received = (\<lambda>i. i \<noteq> 8),
     evict_succeeds = (\<lambda>i. True), model_batch_limit = limit\<rparr>"

definition demo_request :: "nat \<Rightarrow> nat \<Rightarrow> pending_admit" where
  "demo_request i len = \<lparr>pa_id = i, pa_shape = \<lparr>prompt_len = len, prefill_chunk_size = 2048,
     decode_cadence_mid_chunk_cap = 256, speculative_pipelinable = True\<rparr>\<rparr>"

definition demo_state :: "pending_admit list \<Rightarrow> admission_state" where
  "demo_state q = \<lparr>active = [], admission_queue = q, admit_count = 0, saturate_triggered = 0,
     queue_depth_peak = 0, queue_rejected = 0, replies = []\<rparr>"

lemmas demo_eval =
  demo_env_def demo_request_def demo_state_def start_batch_from_queue_def
  start_batch_from_command_def drain_window_def handle_admit_def enqueue_or_reject_def
  prune_abandoned_pending_admits_def fresh_prefill_batch_limit_for_request_def
  fresh_batch_limit.simps uses_multi_chunk_prefill_def clamp_def ADAPTIVE_LATENCY_BATCH_LIMIT_def
  llama_fresh_prefill_batch_limit_def glm4_fresh_prefill_batch_limit_def
  LLAMA_LONG_PREFILL_THRESHOLD_def LLAMA_LONG_PREFILL_LIMIT_def
  GLM4_LONG_PREFILL_THRESHOLD_def GLM4_LONG_PREFILL_LIMIT_def Let_def

theorem fresh_batch_sound_witness:
  "map pa_id (active (start_batch_from_queue (demo_env llama_fresh_prefill_batch_limit) Disabled 4 8
      [(demo_request 3 90, {})] (demo_state [demo_request 1 100, demo_request 2 200]))) = [1, 2, 3]
   \<and> (\<exists>rest. active (start_batch_from_queue (demo_env llama_fresh_prefill_batch_limit) Disabled 4 8
      [(demo_request 3 90, {})] (demo_state [demo_request 1 100, demo_request 2 200]))
        = demo_request 1 100 # rest)"
proof -
  let ?q = "[demo_request 2 200]"
  let ?st = "demo_state (demo_request 1 100 # ?q)"
  let ?st' = "start_batch_from_queue (demo_env llama_fresh_prefill_batch_limit) Disabled 4 8
      [(demo_request 3 90, {})] ?st"
  have ids: "map pa_id (active ?st') = [1, 2, 3]" by (simp add: demo_eval)
  have ne: "active ?st' \<noteq> []" using ids by auto
  have "\<exists>rest. active ?st' = demo_request 1 100 # rest"
    using fresh_batch_sound [of ?st 4 ?st' "demo_env llama_fresh_prefill_batch_limit" Disabled 8
        "demo_request 1 100" "[(demo_request 3 90, {})]" ?q, OF _ _ _ ne]
    by (auto simp: demo_state_def)
  with ids show ?thesis by blast
qed

section \<open>Backpressure and accounting\<close>

text \<open>
  Where a request can be after the actor has handled it: in the batch, in the queue, answered, or
  given up by its caller.
\<close>

definition accounted :: "admission_env \<Rightarrow> nat set \<Rightarrow> admission_state \<Rightarrow> pending_admit \<Rightarrow> bool" where
  "accounted env gone st p \<longleftrightarrow>
     p \<in> set (active st) \<or> p \<in> set (admission_queue st) \<or> pa_id p \<in> fst ` set (replies st)
     \<or> pa_id p \<in> gone \<or> \<not> reply_received env (pa_id p)"

lemma accounted_handle_new: "accounted env gone (handle_admit env p st) p"
  by (auto simp: accounted_def handle_admit_def Let_def)

lemma accounted_handle: "accounted env gone st c \<Longrightarrow> accounted env gone (handle_admit env p st) c"
  by (auto simp: accounted_def handle_admit_def Let_def)

lemma accounted_enqueue:
  assumes "accounted env gone st c \<or> c = p" and "closed \<subseteq> gone"
  shows "accounted env gone (enqueue_or_reject qm closed p st) c"
  using assms
  by (auto simp: accounted_def enqueue_or_reject_def prune_abandoned_pending_admits_def Let_def)

lemma accounted_saturate [simp]:
  "accounted env gone (s\<lparr>saturate_triggered := n\<rparr>) c = accounted env gone s c"
  by (simp add: accounted_def)

lemma accounted_loop:
  assumes "\<Union> (snd ` set evs) \<subseteq> gone" and "accounted env gone st c \<or> c \<in> fst ` set evs"
  shows "accounted env gone (drain_window_loop env mode limit b qm shape r evs st) c"
  using assms
proof (induction env mode limit b qm shape r evs st rule: drain_window_loop.induct)
  case (2 env mode limit b qm shape r p cl evs st)
  have cl: "cl \<subseteq> gone" and sub: "\<Union> (snd ` set evs) \<subseteq> gone" using 2(4) by auto
  have "accounted env gone (enqueue_or_reject qm cl p st) c \<or> c \<in> fst ` set evs"
    using 2(5) accounted_enqueue [OF _ cl] by auto
  moreover have "accounted env gone (handle_admit env p st) c \<or> c \<in> fst ` set evs"
    using 2(5) accounted_handle accounted_handle_new by auto
  ultimately show ?case using 2(1-3) sub by (simp add: Let_def del: split_paired_Ex)
qed simp

lemma accounted_drain_queue:
  assumes "admission_queue st = q" and "accounted env gone st c"
  shows "accounted env gone (drain_queue env mode limit b shape q st) c"
  using assms
proof (induction q arbitrary: st)
  case (Cons p q)
  let ?st = "handle_admit env p (st\<lparr>admission_queue := q\<rparr>)"
  have "accounted env gone (st\<lparr>admission_queue := q\<rparr>) c \<or> c = p"
    using Cons.prems by (auto simp: accounted_def)
  then have "accounted env gone ?st c"
    using accounted_handle accounted_handle_new by blast
  with Cons show ?case by (simp add: frame_simps)
qed simp

section \<open>Order and length of the queue\<close>

lemma drain_queue_queue:
  assumes "admission_queue st = q"
  shows "suffix (admission_queue (drain_queue env mode limit b shape q st)) q"
  using assms
proof (induction q arbitrary: st)
  case (Cons p q)
  have "suffix (admission_queue (drain_queue env mode limit b shape q
      (handle_admit env p (st\<lparr>admission_queue := q\<rparr>)))) q"
    by (rule Cons.IH) (simp add: frame_simps)
  with Cons.prems show ?case by (auto intro: suffix_ConsI)
qed simp

lemma enqueue_queue:
  "subseq (admission_queue (enqueue_or_reject qm cl p st)) (admission_queue st @ [p])"
  "length (admission_queue (enqueue_or_reject qm cl p st)) \<le> max (length (admission_queue st)) qm"
proof -
  show "subseq (admission_queue (enqueue_or_reject qm cl p st)) (admission_queue st @ [p])"
    by (auto simp: enqueue_or_reject_def prune_abandoned_pending_admits_def Let_def
        intro: list_emb_append_mono subseq_filter_left subseq_rev_drop_many)
  show "length (admission_queue (enqueue_or_reject qm cl p st)) \<le> max (length (admission_queue st)) qm"
    by (auto simp: enqueue_or_reject_def prune_abandoned_pending_admits_def Let_def le_max_iff_disj)
qed

lemma loop_queue:
  "subseq (admission_queue (drain_window_loop env mode limit b qm shape r evs st))
     (admission_queue st @ map fst evs)
   \<and> length (admission_queue (drain_window_loop env mode limit b qm shape r evs st))
       \<le> max (length (admission_queue st)) qm"
proof (induction env mode limit b qm shape r evs st rule: drain_window_loop.induct)
  case (2 env mode limit b qm shape r p cl evs st)
  have skip: "subseq xs (admission_queue st @ map fst evs)
      \<Longrightarrow> subseq xs (admission_queue st @ p # map fst evs)" for xs
    by (rule subseq_order.order_trans) (auto intro: list_emb_append_mono)
  have one: "subseq (admission_queue (enqueue_or_reject qm cl p st) @ map fst evs)
      (admission_queue st @ p # map fst evs)"
    using list_emb_append_mono [OF enqueue_queue(1) subseq_order.order_refl] by fastforce
  show ?case
  proof (cases "r \<or> length (active st) \<ge> fresh_prefill_batch_limit_for_request env mode b p
         \<or> \<not> can_join_fresh_batch mode shape (pa_shape p)")
    case True
    then show ?thesis
      using 2(1) [OF True] enqueue_queue(2) [of qm cl p st] one by (auto intro: subseq_order.order_trans)
  next
    case False
    then show ?thesis
      using 2(2,3) [OF False refl] skip by (auto simp: Let_def frame_simps)
  qed
qed simp

text \<open>
  C40: backpressure without loss. While a batch is filled from the admission queue and then from the
  channel, the queue never grows beyond \<open>admission_queue_max\<close> (or the length it already had), it
  keeps first-in-first-out order with the new arrivals behind the old, and every request, queued
  or newly arrived, is accounted for: it is in the batch, in the queue, has been sent a reply
  (admitted, refused or queue full), or its caller has gone away.
\<close>

theorem admission_accounting:
  assumes "st1 = drain_queue env mode limit b shape (admission_queue st) st"
    and "st2 = drain_window env mode limit b qm shape evs st1"
  shows "length (admission_queue st2) \<le> max (length (admission_queue st)) qm
     \<and> subseq (admission_queue st2) (admission_queue st @ map fst evs)
     \<and> (\<forall>c \<in> set (active st) \<union> set (admission_queue st) \<union> fst ` set evs.
          accounted env (\<Union> (snd ` set evs)) st2 c)"
proof -
  let ?q = "admission_queue st"
  have suf: "suffix (admission_queue st1) ?q" using drain_queue_queue assms(1) by blast
  then have l1: "length (admission_queue st1) \<le> length ?q" by (simp add: suffix_length_le)
  have s1: "subseq (admission_queue st1) ?q" using suf by (auto simp: suffix_def)
  have "subseq (admission_queue st1 @ map fst evs) (?q @ map fst evs)"
    using s1 by (simp add: list_emb_append_mono)
  moreover have w: "subseq (admission_queue st2) (admission_queue st1 @ map fst evs)
      \<and> length (admission_queue st2) \<le> max (length (admission_queue st1)) qm"
    unfolding assms(2) drain_window_def by (rule loop_queue)
  moreover have "accounted env (\<Union> (snd ` set evs)) st2 c"
    if c: "c \<in> set (active st) \<union> set ?q \<union> fst ` set evs" for c
  proof -
    have "accounted env (\<Union> (snd ` set evs)) st1 c \<or> c \<in> fst ` set evs"
    proof (cases "c \<in> fst ` set evs")
      case False
      with c have "accounted env (\<Union> (snd ` set evs)) st c" by (auto simp: accounted_def)
      then show ?thesis unfolding assms(1) using accounted_drain_queue [OF refl] by blast
    qed simp
    then show ?thesis
      unfolding assms(2) drain_window_def by (intro accounted_loop) auto
  qed
  ultimately show ?thesis using l1 by (auto intro: subseq_order.order_trans)
qed

theorem admission_accounting_witness:
  "(let e = demo_env glm4_fresh_prefill_batch_limit; st = demo_state [demo_request 1 90, demo_request 9 90];
        st1 = drain_queue e Disabled 2 4 (pa_shape (demo_request 1 90)) (admission_queue st) st;
        st2 = drain_window e Disabled 2 4 1 (pa_shape (demo_request 1 90))
                [(demo_request 2 90, {}), (demo_request 3 90, {}), (demo_request 4 90, {})] st1
    in map pa_id (active st2) = [1, 2] \<and> map pa_id (admission_queue st2) = [3]
       \<and> replies st2 = [(1, Admitted), (9, AdmitError), (2, Admitted), (4, QueueFull 1)]
       \<and> length (admission_queue st2) \<le> max (length (admission_queue st)) 1)"
proof -
  let ?e = "demo_env glm4_fresh_prefill_batch_limit"
  let ?st = "demo_state [demo_request 1 90, demo_request 9 90]"
  let ?st1 = "drain_queue ?e Disabled 2 4 (pa_shape (demo_request 1 90)) (admission_queue ?st) ?st"
  show ?thesis
    using admission_accounting [of ?st1 ?e Disabled 2 4 "pa_shape (demo_request 1 90)" ?st
        "drain_window ?e Disabled 2 4 1 (pa_shape (demo_request 1 90))
           [(demo_request 2 90, {}), (demo_request 3 90, {}), (demo_request 4 90, {})] ?st1" 1]
    by (simp add: demo_eval)
qed

section \<open>The model's own limit\<close>

lemma llama_long_limit:
  assumes "model_batch_limit env = llama_fresh_prefill_batch_limit" and "1 \<le> b"
    and "prompt_len (pa_shape c) \<ge> LLAMA_LONG_PREFILL_THRESHOLD"
  shows "fresh_prefill_batch_limit_for_request env mode b c = 1"
proof -
  have "clamp (min b 1) 1 b = 1" using assms(2) by (auto simp: clamp_def)
  then have "fresh_prefill_batch_limit_for_request env mode b c \<le> 1"
    using assms fresh_batch_limit_model [of 1 mode "pa_shape c" b]
    by (simp add: fresh_prefill_batch_limit_for_request_def llama_fresh_prefill_batch_limit_def
        LLAMA_LONG_PREFILL_LIMIT_def)
  then show ?thesis using request_limit_bounds [OF assms(2), of env mode c] by simp
qed

text \<open>
  The Llama family serializes long prompts: under its \<open>fresh_prefill_batch_limit\<close> a batch that
  holds a prompt of 4096 tokens or more holds nothing else, in every admission mode and whatever
  the order of arrival.
\<close>

theorem llama_long_prompt_alone:
  assumes "model_batch_limit env = llama_fresh_prefill_batch_limit"
    and "active st = []" and "1 \<le> b" and "admission_queue st = first # q"
    and "c \<in> set (active (start_batch_from_queue env mode b qm evs st))"
    and "prompt_len (pa_shape c) \<ge> LLAMA_LONG_PREFILL_THRESHOLD"
  shows "active (start_batch_from_queue env mode b qm evs st) = [c]"
proof -
  let ?a = "active (start_batch_from_queue env mode b qm evs st)"
  have "?a \<noteq> []" using assms(5) by auto
  from start_from_queue_batch_ok [OF assms(2,3,4) this] obtain rest
    where r: "?a = first # rest" "length ?a \<le> fresh_prefill_batch_limit_for_request env mode b first"
      "\<forall>d \<in> set rest. 2 \<le> fresh_prefill_batch_limit_for_request env mode b d"
    unfolding batch_ok_def by blast
  have one: "fresh_prefill_batch_limit_for_request env mode b c = 1"
    using llama_long_limit assms(1,3,6) by blast
  have "c = first" using r one assms(5) by auto
  with r(1,2) one show ?thesis by (cases rest) auto
qed

theorem llama_long_prompt_alone_witness:
  "active (start_batch_from_queue (demo_env llama_fresh_prefill_batch_limit) Disabled 4 8 []
     (demo_state [demo_request 1 5000, demo_request 2 90])) = [demo_request 1 5000]"
proof (rule llama_long_prompt_alone)
  show "demo_request 1 5000 \<in> set (active (start_batch_from_queue
      (demo_env llama_fresh_prefill_batch_limit) Disabled 4 8 []
      (demo_state [demo_request 1 5000, demo_request 2 90])))"
    by (simp add: demo_eval)
qed (simp_all add: demo_eval)

lemma glm4_limits:
  assumes "model_batch_limit env = glm4_fresh_prefill_batch_limit" and "2 \<le> b"
  shows "GLM4_LONG_PREFILL_THRESHOLD \<le> prompt_len (pa_shape p) \<Longrightarrow> fresh_prefill_batch_limit_for_request env Disabled b p = 2"
    and "prompt_len (pa_shape p) < GLM4_LONG_PREFILL_THRESHOLD \<Longrightarrow> fresh_prefill_batch_limit_for_request env Disabled b p = b"
  using assms by (auto simp: fresh_prefill_batch_limit_for_request_def glm4_fresh_prefill_batch_limit_def fresh_batch_limit.simps
      GLM4_LONG_PREFILL_LIMIT_def clamp_def Let_def)

text \<open>Requests that are short, accepted and still waited for all join while there is room.\<close>

lemma shorts_join:
  assumes "model_batch_limit env = glm4_fresh_prefill_batch_limit" and "2 \<le> b"
    and "\<forall>p \<in> set q. prompt_len (pa_shape p) < GLM4_LONG_PREFILL_THRESHOLD \<and> sched_accepts env (pa_id p) \<and> reply_received env (pa_id p)"
    and "length (active st) + length q \<le> b"
  shows "active (drain_queue env Disabled b b shape q st) = active st @ q"
  using assms(3,4)
proof (induction q arbitrary: st)
  case (Cons p q)
  have "fresh_prefill_batch_limit_for_request env Disabled b p = b" using glm4_limits(2) [OF assms(1,2)] Cons.prems(1) by simp
  moreover have "active (handle_admit env p (st\<lparr>admission_queue := q\<rparr>)) = active st @ [p]"
    using Cons.prems(1) by (simp add: handle_admit_def)
  ultimately show ?case using Cons.IH [of "handle_admit env p (st\<lparr>admission_queue := q\<rparr>)"] Cons.prems by simp
qed simp

text \<open>
  The limit of two that GLM-4 sets for a long prompt is not kept. A long prompt's own limit is compared with the
  batch once, when the prompt joins; afterwards only the limit of the request that opened the batch counts. With any
  short prompt at the head of the queue, a long one second and then short ones, all accepted and still waited for,
  the whole queue up to the slots of the machine is prefilled in one batch; with a long prompt at the head the batch
  stops at two.
\<close>

theorem glm4_long_prompt_overshoots:
  assumes "model_batch_limit env = glm4_fresh_prefill_batch_limit" and "active st = []"
    and "\<forall>p \<in> set (first # long # rest). sched_accepts env (pa_id p) \<and> reply_received env (pa_id p)"
    and "\<forall>p \<in> set (first # rest). prompt_len (pa_shape p) < GLM4_LONG_PREFILL_THRESHOLD"
    and "GLM4_LONG_PREFILL_THRESHOLD \<le> prompt_len (pa_shape long)" and "length (first # long # rest) = b"
  shows "fresh_prefill_batch_limit_for_request env Disabled b long = 2
    \<and> active (start_batch_from_queue env Disabled b qm evs (st\<lparr>admission_queue := first # long # rest\<rparr>)) = first # long # rest
    \<and> length (active (start_batch_from_queue env Disabled b qm evs (st\<lparr>admission_queue := long # first # rest\<rparr>))) \<le> 2"
proof -
  have b: "2 \<le> b" using assms(6) by simp
  note lim = glm4_limits [OF assms(1) b]
  have l: "fresh_prefill_batch_limit_for_request env Disabled b long = 2" using lim(1) assms(5) by simp
  have f: "fresh_prefill_batch_limit_for_request env Disabled b first = b" using lim(2) assms(4) by simp
  let ?st = "handle_admit env first (st\<lparr>admission_queue := long # rest\<rparr>)"
  have a1: "active ?st = [first]" "admission_queue ?st = long # rest" using assms(2,3) by (simp_all add: handle_admit_def)
  let ?st2 = "handle_admit env long (?st\<lparr>admission_queue := rest\<rparr>)"
  have a2: "active ?st2 = [first, long]" using a1 assms(3) by (simp add: handle_admit_def [of env long])
  have "active (drain_queue env Disabled b b (pa_shape first) rest ?st2) = [first, long] @ rest"
    using shorts_join [OF assms(1) b, of rest ?st2] assms(3,4,6) a2 by simp
  then have q: "active (drain_queue env Disabled b b (pa_shape first) (long # rest) ?st) = first # long # rest"
    using a1 l b by simp
  have "active (start_batch_from_queue env Disabled b qm evs (st\<lparr>admission_queue := first # long # rest\<rparr>)) = first # long # rest"
    using a1 f q b assms(6) by (simp add: start_batch_from_queue_def Let_def)
  moreover have "length (active (start_batch_from_queue env Disabled b qm evs (st\<lparr>admission_queue := long # first # rest\<rparr>))) \<le> 2"
  proof (cases "active (start_batch_from_queue env Disabled b qm evs (st\<lparr>admission_queue := long # first # rest\<rparr>)) = []")
    case False
    then have "batch_ok env Disabled b long (active (start_batch_from_queue env Disabled b qm evs (st\<lparr>admission_queue := long # first # rest\<rparr>)))"
      using assms(2) b by (intro start_from_queue_batch_ok [where q = "first # rest"]) simp_all
    then show ?thesis using l by (auto simp: batch_ok_def)
  qed simp
  ultimately show ?thesis using l by blast
qed

theorem glm4_long_prompt_overshoots_witness:
  "active (start_batch_from_queue (demo_env glm4_fresh_prefill_batch_limit) Disabled 4 8 []
     (demo_state [demo_request 1 90, demo_request 2 2000, demo_request 3 90, demo_request 4 90]))
   = [demo_request 1 90, demo_request 2 2000, demo_request 3 90, demo_request 4 90]"
proof -
  let ?q = "[demo_request 1 90, demo_request 2 2000, demo_request 3 90, demo_request 4 90]"
  have e: "model_batch_limit (demo_env glm4_fresh_prefill_batch_limit) = glm4_fresh_prefill_batch_limit" by (simp add: demo_env_def)
  have s: "demo_state ?q = (demo_state [])\<lparr>admission_queue := ?q\<rparr>" by (simp add: demo_state_def)
  show ?thesis unfolding s
    by (rule glm4_long_prompt_overshoots [OF e, THEN conjunct2, THEN conjunct1])
      (simp_all add: demo_env_def demo_state_def demo_request_def GLM4_LONG_PREFILL_THRESHOLD_def)
qed

section \<open>Rolling admission\<close>

text \<open>
  The gate for joining a batch that is decoding never exceeds the physical slots, only gets
  more permissive as rows finish (so the actor's test "could this start if one row were parked"
  is implied by "it can start now"), accepts a long prompt in every mode but \<open>QwenMtp\<close> as soon
  as a slot is free, never lets one in under \<open>QwenMtp\<close>, and keeps short prompts of the speculative
  modes to two rows.
\<close>

theorem rolling_admission_gate:
  "(can_start_rolling_mid_admit_for_request env mode b p a s \<longrightarrow>
      a < b \<and> (\<forall>a' \<le> a. can_start_rolling_mid_admit_for_request env mode b p a' s)
      \<and> (\<not> uses_multi_chunk_prefill (pa_shape p) \<and> mode \<noteq> Disabled \<longrightarrow> a < 2))
   \<and> (uses_multi_chunk_prefill (pa_shape p) \<longrightarrow>
        can_start_rolling_mid_admit_for_request env mode b p a s = (a < b \<and> mode \<noteq> QwenMtp))"
  by (cases mode)
    (auto simp: can_start_rolling_mid_admit_for_request_def can_start_rolling_mid_admit_def
      ADAPTIVE_LATENCY_BATCH_LIMIT_def Let_def split: if_splits)

theorem rolling_admission_gate_witness:
  "can_start_rolling_mid_admit_for_request (demo_env llama_fresh_prefill_batch_limit) PromptLookup 4
     (demo_request 1 5000) 3 0"
  using rolling_admission_gate [of "demo_env llama_fresh_prefill_batch_limit" PromptLookup 4
      "demo_request 1 5000" 3 0]
  by (simp add: demo_request_def uses_multi_chunk_prefill_def)

end
