(* ===== verification/MemoryBudget.thy ===== *)
theory MemoryBudget
  imports Prelude "HOL-Library.Multiset" "HOL-Library.Signed_Division"
begin

text \<open>
  \<open>ironmlx/src/core/memory_budget.rs\<close>: the KV-cache cost of a request, the start-up check that
  \<open>b_max\<close> sequences fit into the machine, and the counter of admitted bytes that
  \<open>Scheduler::admit\<close> and \<open>Scheduler::evict\<close> move.

  \<open>usize\<close> is a natural number below \<open>2 ^ 64\<close>; the plain \<open>+\<close> and \<open>*\<close> of the code wrap, as the
  release profile builds them. The floating-point product \<open>(n as f64 * 0.85) as usize\<close> is the
  parameter \<open>scale\<close>.
\<close>

definition usize_mul :: "nat \<Rightarrow> nat \<Rightarrow> nat" where
  "usize_mul a b = (a * b) mod 2 ^ 64"

definition i32_as_usize :: "int \<Rightarrow> nat" where
  "i32_as_usize x = nat (x mod 2 ^ 64)"

record model_meta =
  num_hidden_layers :: int
  num_attention_heads :: int
  num_key_value_heads :: int
  hidden_size :: int
  head_dim :: "int option"
  weight_bytes :: nat
  max_position_embeddings :: int
  spatial_merge_size :: int

text \<open>
  The argument of \<open>unwrap_or\<close> is evaluated first, so the division panics on zero heads (and on the
  overflowing \<open>i32::MIN / -1\<close>) even when the head dimension is given.
\<close>

definition effective_head_dim :: "model_meta \<Rightarrow> int option" where
  "effective_head_dim meta =
     (if num_attention_heads meta = 0
         \<or> hidden_size meta = - (2 ^ 31) \<and> num_attention_heads meta = - 1 then None
      else Some (case head_dim meta of
          Some d \<Rightarrow> d
        | None \<Rightarrow> hidden_size meta sdiv num_attention_heads meta))"

definition SAFETY_MARGIN_BYTES :: nat where
  "SAFETY_MARGIN_BYTES = 2 * 1024 * 1024 * 1024"

datatype kv_budget_policy = FullResident | ActiveKvOffload nat

definition active_kv_offload :: "nat \<Rightarrow> kv_budget_policy" where
  "active_kv_offload cap = ActiveKvOffload (max cap 1)"

fun policy_resident_cap :: "kv_budget_policy \<Rightarrow> nat \<Rightarrow> nat" where
  "policy_resident_cap FullResident logical_cap = logical_cap"
| "policy_resident_cap (ActiveKvOffload cap) logical_cap = max (min cap logical_cap) 1"

definition kv_bytes_per_token :: "model_meta \<Rightarrow> nat option" where
  "kv_bytes_per_token meta =
     (case effective_head_dim meta of
        None \<Rightarrow> None
      | Some d \<Rightarrow>
          Some (usize_mul (usize_mul (usize_mul (usize_mul
            (i32_as_usize (num_hidden_layers meta)) (i32_as_usize (num_key_value_heads meta)))
            (i32_as_usize d)) 2) 2))"

definition kv_cache_bytes :: "nat \<Rightarrow> nat \<Rightarrow> model_meta \<Rightarrow> nat option" where
  "kv_cache_bytes b cap meta =
     (case kv_bytes_per_token meta of None \<Rightarrow> None | Some t \<Rightarrow> Some (usize_mul (usize_mul b cap) t))"

definition available_budget_bytes_for_total_ram :: "model_meta \<Rightarrow> nat \<Rightarrow> nat" where
  "available_budget_bytes_for_total_ram meta ram = ram - weight_bytes meta - SAFETY_MARGIN_BYTES"

record memory_budget_error =
  err_b_max :: nat
  err_cap :: nat
  err_resident_cap :: nat
  err_policy :: kv_budget_policy
  err_bytes_per_token :: nat
  err_fixed_bytes_per_sequence :: nat
  err_requested_bytes :: nat
  err_available_bytes :: nat
  err_total_ram_bytes :: nat
  err_model_weight_bytes :: nat

record budget_state =
  soft_limit :: nat
  active_bytes :: nat
  logical_cap :: nat
  resident_cap :: nat
  budget_policy :: kv_budget_policy

definition with_soft_limit :: "nat \<Rightarrow> nat \<Rightarrow> nat \<Rightarrow> kv_budget_policy \<Rightarrow> budget_state" where
  "with_soft_limit limit lcap rcap policy =
     \<lparr>soft_limit = limit, active_bytes = 0, logical_cap = lcap, resident_cap = rcap,
      budget_policy = policy\<rparr>"

definition with_caps :: "(nat \<Rightarrow> nat) \<Rightarrow> nat \<Rightarrow> nat \<Rightarrow> nat \<Rightarrow> kv_budget_policy \<Rightarrow> budget_state" where
  "with_caps scale budget lcap rcap policy = with_soft_limit (scale budget) lcap rcap policy"

definition budget_new :: "(nat \<Rightarrow> nat) \<Rightarrow> nat \<Rightarrow> budget_state" where
  "budget_new scale budget = with_caps scale budget u64_max u64_max FullResident"

definition resident_charge_cap :: "budget_state \<Rightarrow> nat \<Rightarrow> nat" where
  "resident_charge_cap st requested_cap = min requested_cap (resident_cap st)"

definition try_admit :: "budget_state \<Rightarrow> nat \<Rightarrow> (nat \<times> nat \<times> nat, budget_state, unit) outcome" where
  "try_admit st requested =
     (let cur = active_bytes st in
      if wrap_add cur requested > soft_limit st then (Inl (cur, requested, soft_limit st), st)
      else (Inr (), st\<lparr>active_bytes := wrap_add cur requested\<rparr>))"

definition release_bytes :: "budget_state \<Rightarrow> nat \<Rightarrow> budget_state" where
  "release_bytes st bytes =
     st\<lparr>active_bytes := nat ((int (active_bytes st) - int bytes) mod 2 ^ 64)\<rparr>"

definition validate_startup_budget_with_cost_for_total_ram ::
  "(nat \<Rightarrow> nat) \<Rightarrow> nat \<Rightarrow> nat \<Rightarrow> model_meta \<Rightarrow> nat \<Rightarrow> nat \<Rightarrow> kv_budget_policy \<Rightarrow> nat
   \<Rightarrow> memory_budget_error + budget_state" where
  "validate_startup_budget_with_cost_for_total_ram scale b_max cap meta per_token fixed policy ram =
     (let rcap = policy_resident_cap policy cap;
          requested_per_sequence = sat_add (sat_mul rcap per_token) fixed;
          requested = sat_mul b_max requested_per_sequence;
          available = available_budget_bytes_for_total_ram meta ram
      in if requested > available then
           Inl \<lparr>err_b_max = b_max, err_cap = cap, err_resident_cap = rcap, err_policy = policy,
             err_bytes_per_token = per_token, err_fixed_bytes_per_sequence = fixed,
             err_requested_bytes = requested, err_available_bytes = available,
             err_total_ram_bytes = ram, err_model_weight_bytes = weight_bytes meta\<rparr>
         else
           Inr (with_soft_limit
             (case policy of
                FullResident \<Rightarrow> max (scale available) requested
              | ActiveKvOffload _ \<Rightarrow> requested) cap rcap policy))"

definition validate_startup_budget_with_policy ::
  "(nat \<Rightarrow> nat) \<Rightarrow> nat \<Rightarrow> nat \<Rightarrow> model_meta \<Rightarrow> kv_budget_policy \<Rightarrow> nat
   \<Rightarrow> (memory_budget_error + budget_state) option" where
  "validate_startup_budget_with_policy scale b_max cap meta policy ram =
     (case kv_bytes_per_token meta of
        None \<Rightarrow> None
      | Some t \<Rightarrow> Some (validate_startup_budget_with_cost_for_total_ram scale b_max cap meta t 0 policy ram))"

text \<open>The charge \<open>Scheduler::admit\<close> computes for a request.\<close>

definition admission_charge :: "budget_state \<Rightarrow> model_meta \<Rightarrow> nat \<Rightarrow> nat \<Rightarrow> nat option" where
  "admission_charge st meta prompt_len max_new_tokens =
     kv_cache_bytes 1 (resident_charge_cap st (sat_add prompt_len max_new_tokens)) meta"

section \<open>Start-up\<close>

lemma sat_mul_exact_below: "sat_mul a b < u64_max \<Longrightarrow> a * b = sat_mul a b"
  by (auto simp: sat_mul_def min_def split: if_splits)

lemma sat_add_exact_below: "sat_add a b < u64_max \<Longrightarrow> a + b = sat_add a b"
  by (auto simp: sat_add_def min_def split: if_splits)

lemma sat_cost_exact:
  assumes "sat_mul b (sat_add (sat_mul r t) f) < u64_max"
  shows "b * (r * t + f) = sat_mul b (sat_add (sat_mul r t) f)"
proof (cases "b = 0")
  case False
  have e: "b * sat_add (sat_mul r t) f = sat_mul b (sat_add (sat_mul r t) f)"
    using assms by (rule sat_mul_exact_below)
  moreover have "sat_add (sat_mul r t) f \<le> b * sat_add (sat_mul r t) f" using False by simp
  ultimately have a: "sat_add (sat_mul r t) f < u64_max" using assms by linarith
  then have "sat_mul r t + f = sat_add (sat_mul r t) f" by (rule sat_add_exact_below)
  moreover from this a have "r * t = sat_mul r t" by (intro sat_mul_exact_below) linarith
  ultimately show ?thesis using e by simp
qed (simp add: sat_mul_def)

lemma available_below: "ram \<le> u64_max \<Longrightarrow> available_budget_bytes_for_total_ram meta ram < u64_max"
  by (simp add: available_budget_bytes_for_total_ram_def SAFETY_MARGIN_BYTES_def u64_max_def)

lemma startup_ok:
  assumes "validate_startup_budget_with_cost_for_total_ram scale b cap meta t f policy ram = Inr st"
    and "ram \<le> u64_max"
  shows "resident_cap st = policy_resident_cap policy cap" and "active_bytes st = 0"
    and "b * (resident_cap st * t + f) \<le> available_budget_bytes_for_total_ram meta ram"
    and "b * (resident_cap st * t + f) \<le> soft_limit st"
    and "(\<And>n. scale n \<le> n) \<Longrightarrow> soft_limit st \<le> available_budget_bytes_for_total_ram meta ram"
proof -
  let ?q = "sat_mul b (sat_add (sat_mul (policy_resident_cap policy cap) t) f)"
  let ?av = "available_budget_bytes_for_total_ram meta ram"
  have le: "?q \<le> ?av" and st: "st = with_soft_limit
      (case policy of FullResident \<Rightarrow> max (scale ?av) ?q | ActiveKvOffload _ \<Rightarrow> ?q)
      cap (policy_resident_cap policy cap) policy"
    using assms(1)
    by (auto simp: validate_startup_budget_with_cost_for_total_ram_def Let_def split: if_splits)
  have ex: "b * (policy_resident_cap policy cap * t + f) = ?q"
    using le available_below [OF assms(2), of meta] by (intro sat_cost_exact) linarith
  show "resident_cap st = policy_resident_cap policy cap" and "active_bytes st = 0"
    by (simp_all add: st with_soft_limit_def)
  then show "b * (resident_cap st * t + f) \<le> ?av" using le ex by simp
  show "b * (resident_cap st * t + f) \<le> soft_limit st"
    using ex by (simp add: st with_soft_limit_def split: kv_budget_policy.split)
  show "soft_limit st \<le> ?av" if "\<And>n. scale n \<le> n"
    using le that [of ?av] by (cases policy) (simp_all add: st with_soft_limit_def)
qed

text \<open>
  A configuration that passes the start-up check fits: weights, the safety margin and \<open>b_max\<close>
  full sequences stay within the machine's memory, computed without rounding or saturation, and
  the limit handed to the admission gate covers those sequences; a configuration is refused
  exactly when it does not fit, with the offending numbers in the error.
\<close>

theorem startup_budget_sound:
  assumes "ram \<le> u64_max" and "weight_bytes meta + SAFETY_MARGIN_BYTES \<le> ram" and "\<And>n. scale n \<le> n"
    and need_def: "need = b * (policy_resident_cap policy cap * t + fixed)"
  shows "case validate_startup_budget_with_cost_for_total_ram scale b cap meta t fixed policy ram of
      Inr st \<Rightarrow> need + weight_bytes meta + SAFETY_MARGIN_BYTES \<le> ram \<and> need \<le> soft_limit st
        \<and> soft_limit st + weight_bytes meta + SAFETY_MARGIN_BYTES \<le> ram
        \<and> active_bytes st = 0 \<and> resident_cap st = policy_resident_cap policy cap
    | Inl e \<Rightarrow> need + weight_bytes meta + SAFETY_MARGIN_BYTES > ram
        \<and> err_requested_bytes e > err_available_bytes e
        \<and> err_available_bytes e + weight_bytes meta + SAFETY_MARGIN_BYTES = ram"
proof (cases "validate_startup_budget_with_cost_for_total_ram scale b cap meta t fixed policy ram")
  case (Inr st)
  note ok = startup_ok [OF Inr assms(1)]
  have "soft_limit st + weight_bytes meta + SAFETY_MARGIN_BYTES \<le> ram"
    using ok(5) [OF assms(3)] assms(2) by (simp add: available_budget_bytes_for_total_ram_def)
  moreover have "need \<le> soft_limit st" using ok(1,4) by (simp add: need_def)
  ultimately show ?thesis using ok(1,2) by (simp add: Inr)
next
  case (Inl e)
  let ?q = "sat_mul b (sat_add (sat_mul (policy_resident_cap policy cap) t) fixed)"
  have gt: "available_budget_bytes_for_total_ram meta ram < ?q"
    and e: "err_requested_bytes e = ?q" "err_available_bytes e = available_budget_bytes_for_total_ram meta ram"
    using Inl by (auto simp: validate_startup_budget_with_cost_for_total_ram_def Let_def split: if_splits)
  have "sat_add (sat_mul (policy_resident_cap policy cap) t) fixed \<le> policy_resident_cap policy cap * t + fixed"
    by (simp add: sat_add_def sat_mul_def min_le_iff_disj)
  then have "?q \<le> need"
    by (simp add: need_def sat_mul_def min_le_iff_disj)
  with gt e assms(2) show ?thesis
    by (auto simp: Inl available_budget_bytes_for_total_ram_def)
qed

definition demo_meta :: model_meta where
  "demo_meta = \<lparr>num_hidden_layers = 28, num_attention_heads = 32, num_key_value_heads = 8,
     hidden_size = 4096, head_dim = None, weight_bytes = 3 * 1024 ^ 3,
     max_position_embeddings = 32768, spatial_merge_size = 2\<rparr>"

lemma demo_meta_cost: "kv_bytes_per_token demo_meta = Some 114688"
  by (simp add: kv_bytes_per_token_def effective_head_dim_def demo_meta_def usize_mul_def
      i32_as_usize_def signed_divide_int_def)

theorem startup_budget_sound_witness:
  "(\<exists>st. validate_startup_budget_with_cost_for_total_ram (\<lambda>n. n * 85 div 100) 4 32768 demo_meta 114688 0
       FullResident (32 * 1024 ^ 3) = Inr st
     \<and> 4 * (32768 * 114688) + weight_bytes demo_meta + SAFETY_MARGIN_BYTES \<le> 32 * 1024 ^ 3)"
proof -
  let ?v = "validate_startup_budget_with_cost_for_total_ram (\<lambda>n. n * 85 div 100) 4 32768 demo_meta 114688 0
       FullResident (32 * 1024 ^ 3)"
  obtain st where st: "?v = Inr st"
    by (simp add: validate_startup_budget_with_cost_for_total_ram_def Let_def sat_add_def sat_mul_def
        u64_max_def available_budget_bytes_for_total_ram_def demo_meta_def SAFETY_MARGIN_BYTES_def)
  have "4 * (32768 * 114688) + weight_bytes demo_meta + SAFETY_MARGIN_BYTES \<le> 32 * 1024 ^ 3"
    using startup_budget_sound [of "32 * 1024 ^ 3" demo_meta "\<lambda>n. n * 85 div 100"
        "4 * (32768 * 114688)" 4 FullResident 32768 114688 0]
    by (simp add: st u64_max_def demo_meta_def SAFETY_MARGIN_BYTES_def)
  with st show ?thesis by blast
qed

section \<open>The ledger of admitted requests\<close>

datatype budget_op = Charge nat | Refund nat

text \<open>The counter beside the charges of the requests that are admitted and not yet evicted.\<close>

fun budget_step :: "budget_state \<times> nat list \<Rightarrow> budget_op \<Rightarrow> budget_state \<times> nat list" where
  "budget_step (st, out) (Charge n) =
     (case try_admit st n of (Inr _, st') \<Rightarrow> (st', n # out) | (Inl _, st') \<Rightarrow> (st', out))"
| "budget_step (st, out) (Refund n) = (release_bytes st n, remove1 n out)"

fun budget_ok :: "budget_state \<times> nat list \<Rightarrow> budget_op \<Rightarrow> bool" where
  "budget_ok (st, out) (Charge n) = (soft_limit st + n < 2 ^ 64)"
| "budget_ok (st, out) (Refund n) = (n \<in> set out)"

fun budget_inv :: "nat \<Rightarrow> nat \<Rightarrow> budget_state \<times> nat list \<Rightarrow> bool" where
  "budget_inv limit rcap (st, out) \<longleftrightarrow> soft_limit st = limit \<and> resident_cap st = rcap
     \<and> active_bytes st = sum_list out \<and> sum_list out \<le> limit \<and> limit < 2 ^ 64"

lemma try_admit_exact:
  "soft_limit st + n < 2 ^ 64 \<Longrightarrow> active_bytes st \<le> soft_limit st
   \<Longrightarrow> try_admit st n = (if active_bytes st + n > soft_limit st
         then (Inl (active_bytes st, n, soft_limit st), st)
         else (Inr (), st\<lparr>active_bytes := active_bytes st + n\<rparr>))"
  by (simp add: try_admit_def wrap_add_def Let_def)

lemma sum_list_remove1: "(n :: nat) \<in> set xs \<Longrightarrow> n + sum_list (remove1 n xs) = sum_list xs"
  by (induction xs) auto

lemma release_exact:
  "n \<le> active_bytes st \<Longrightarrow> active_bytes st < 2 ^ 64
   \<Longrightarrow> release_bytes st n = st\<lparr>active_bytes := active_bytes st - n\<rparr>"
  by (simp add: release_bytes_def of_nat_diff [symmetric] nat_mod_distrib del: of_nat_diff)

lemma budget_step_inv [inv_intros]:
  "budget_inv limit rcap s \<Longrightarrow> budget_ok s x \<Longrightarrow> budget_inv limit rcap (budget_step s x)"
proof (cases s; cases x)
  fix st out n
  assume s: "s = (st, out)" and "budget_inv limit rcap s" "budget_ok s x" and x: "x = Charge n"
  then show "budget_inv limit rcap (budget_step s x)" by (auto simp: try_admit_exact)
next
  fix st out n
  assume s: "s = (st, out)" "budget_inv limit rcap s" "budget_ok s x" "x = Refund n"
  have "n + sum_list (remove1 n out) = sum_list out" using s by (auto intro: sum_list_remove1)
  with s show "budget_inv limit rcap (budget_step s x)" by (auto simp: release_exact)
qed

interpretation budget: invariant_machine budget_step budget_ok "budget_inv limit rcap" for limit rcap
  by unfold_locales (rule budget_step_inv)

lemma run_budget_out:
  "set (snd (run_ops budget_step (st, out) ops)) \<subseteq> set out \<union> {n. Charge n \<in> set ops}"
proof (induction ops arbitrary: st out)
  case (Cons x ops)
  show ?case
  proof (cases x)
    case (Charge n)
    then show ?thesis using Cons [of "snd (try_admit st n)" out] Cons [of "snd (try_admit st n)" "n # out"]
      by (cases "try_admit st n"; cases "fst (try_admit st n)") auto
  next
    case (Refund n)
    then show ?thesis using Cons [of "release_bytes st n" "remove1 n out"] notin_set_remove1 [of _ out n]
      by (auto dest!: subsetD)
  qed
qed simp

lemma usize_mul_le: "usize_mul a b \<le> a * b"
  by (simp add: usize_mul_def)

lemma admission_charge_le:
  assumes "admission_charge st meta p m = Some n" and "kv_bytes_per_token meta = Some t"
  shows "n \<le> resident_cap st * t"
proof -
  have "n = usize_mul (usize_mul 1 (resident_charge_cap st (sat_add p m))) t"
    using assms by (simp add: admission_charge_def kv_cache_bytes_def)
  also have "\<dots> \<le> usize_mul 1 (resident_charge_cap st (sat_add p m)) * t" by (rule usize_mul_le)
  also have "\<dots> \<le> resident_charge_cap st (sat_add p m) * t"
    using usize_mul_le [of 1 "resident_charge_cap st (sat_add p m)"] by simp
  also have "\<dots> \<le> resident_cap st * t" by (simp add: resident_charge_cap_def)
  finally show ?thesis .
qed

definition refunds_admitted :: "budget_state \<times> nat list \<Rightarrow> budget_op \<Rightarrow> bool" where
  "refunds_admitted s x = (case x of Charge _ \<Rightarrow> True | Refund n \<Rightarrow> n \<in> set (snd s))"

lemma run_ok_budget:
  assumes "run_ok budget_step refunds_admitted s ops" and "budget_inv limit rcap s"
    and "\<And>n. Charge n \<in> set ops \<Longrightarrow> limit + n < 2 ^ 64"
  shows "run_ok budget_step budget_ok s ops"
  using assms
proof (induction ops arbitrary: s)
  case (Cons x ops)
  have "budget_ok s x"
    using Cons.prems by (cases s; cases x) (auto simp: refunds_admitted_def)
  with Cons.prems Cons.IH [of "budget_step s x"] show ?case
    by (simp add: budget_step_inv)
qed simp

text \<open>
  The counter is exact and never above its limit: after any sequence of admissions and
  evictions in which only admitted charges are given back, \<open>active\<close> is the sum of the charges of
  the requests still admitted and at most \<open>soft_limit\<close>, and on a server that passed the start-up
  check, however requests came and went, a request is never refused for memory while fewer than
  \<open>b_max\<close> are admitted.
\<close>

theorem validated_budget_admits:
  assumes "validate_startup_budget_with_policy scale b cap meta policy ram = Some (Inr st0)"
    and "ram < 2 ^ 63" and "\<And>n. scale n \<le> n"
    and "\<And>n. Charge n \<in> set ops \<Longrightarrow> \<exists>p m. admission_charge st0 meta p m = Some n"
    and "1 \<le> b" and "run_ok budget_step refunds_admitted (st0, []) ops"
    and "run_ops budget_step (st0, []) ops = (st, out)"
  shows "active_bytes st = sum_list out \<and> active_bytes st \<le> soft_limit st \<and> soft_limit st = soft_limit st0
     \<and> (length out < b \<longrightarrow> admission_charge st meta p m = Some n
          \<longrightarrow> try_admit st n = (Inr (), st\<lparr>active_bytes := sum_list out + n\<rparr>))"
proof -
  obtain t where t: "kv_bytes_per_token meta = Some t"
    and v: "validate_startup_budget_with_cost_for_total_ram scale b cap meta t 0 policy ram = Inr st0"
    using assms(1) by (auto simp: validate_startup_budget_with_policy_def split: option.splits)
  have ram: "ram \<le> u64_max" using assms(2) by (simp add: u64_max_def)
  note ok = startup_ok [OF v ram]
  define c where "c = resident_cap st0 * t"
  have lim: "b * c \<le> soft_limit st0" "soft_limit st0 < 2 ^ 63"
    using ok(4,5) assms(2,3) by (auto simp: c_def available_budget_bytes_for_total_ram_def)
  have cost: "n \<le> c" if "admission_charge s meta p m = Some n" "resident_cap s = resident_cap st0"
    for s p m n
    using admission_charge_le [OF that(1) t] that(2) by (simp add: c_def)
  have small: "c < 2 ^ 63" using lim assms(5) by (cases b) auto
  have charges: "n \<le> c" if "Charge n \<in> set ops" for n using assms(4) [OF that] cost by blast
  have "budget_inv (soft_limit st0) (resident_cap st0) (st0, [])"
    using lim ok(2) by simp
  moreover have "soft_limit st0 + n < 2 ^ 64" if "Charge n \<in> set ops" for n
    using charges [OF that] lim small by simp
  ultimately have inv: "budget_inv (soft_limit st0) (resident_cap st0) (st, out)"
    using budget.run_inv run_ok_budget [OF assms(6)] assms(7) by metis
  have out: "n \<le> c" if "n \<in> set out" for n
    using run_budget_out [of st0 "[]" ops] charges that assms(7) by auto
  have sum: "sum_list xs \<le> length xs * c" if "\<forall>n \<in> set xs. n \<le> c" for xs :: "nat list"
    using that by (induction xs) auto
  have "try_admit st n = (Inr (), st\<lparr>active_bytes := sum_list out + n\<rparr>)"
    if l: "length out < b" and a: "admission_charge st meta p m = Some n"
  proof -
    have n: "n \<le> c" using cost [OF a] inv by simp
    have "sum_list out + n \<le> Suc (length out) * c" using sum out n by fastforce
    also have "\<dots> \<le> b * c" using l by (intro mult_le_mono1) simp
    finally have "sum_list out + n \<le> soft_limit st0" using lim by linarith
    then show ?thesis using inv n small lim by (subst try_admit_exact) auto
  qed
  with inv show ?thesis by simp
qed

definition demo_budget :: "nat \<Rightarrow> budget_state" where
  "demo_budget a = \<lparr>soft_limit = 24642374860, active_bytes = a, logical_cap = 32768,
     resident_cap = 32768, budget_policy = FullResident\<rparr>"

lemma demo_budget_start:
  "validate_startup_budget_with_policy (\<lambda>n. n * 85 div 100) 4 32768 demo_meta FullResident (32 * 1024 ^ 3)
   = Some (Inr (demo_budget 0))"
  by (simp add: validate_startup_budget_with_policy_def demo_meta_cost with_soft_limit_def demo_budget_def
      validate_startup_budget_with_cost_for_total_ram_def Let_def sat_add_def sat_mul_def u64_max_def
      available_budget_bytes_for_total_ram_def SAFETY_MARGIN_BYTES_def)
    (simp add: demo_meta_def)

lemma demo_budget_charges:
  "admission_charge (demo_budget a) demo_meta 900 100 = Some 114688000"
  "admission_charge (demo_budget a) demo_meta 40000 100 = Some 3758096384"
  by (simp_all add: admission_charge_def kv_cache_bytes_def demo_meta_cost resident_charge_cap_def
      demo_budget_def sat_add_def u64_max_def usize_mul_def)

lemma demo_budget_run:
  "run_ops budget_step (demo_budget 0, []) [Charge 114688000, Charge 3758096384, Refund 114688000]
   = (demo_budget 3758096384, [3758096384])"
  "run_ok budget_step refunds_admitted (demo_budget 0, [])
     [Charge 114688000, Charge 3758096384, Refund 114688000]"
  by (simp_all add: try_admit_def wrap_add_def release_bytes_def demo_budget_def refunds_admitted_def)

theorem validated_budget_admits_witness:
  "active_bytes (demo_budget 3758096384) = 3758096384
   \<and> try_admit (demo_budget 3758096384) 3758096384
       = (Inr (), (demo_budget 3758096384)\<lparr>active_bytes := sum_list [3758096384] + 3758096384\<rparr>)"
proof -
  have "\<exists>p m. admission_charge (demo_budget 0) demo_meta p m = Some n"
    if "Charge n \<in> set [Charge 114688000, Charge 3758096384, Refund 114688000]" for n
    using that demo_budget_charges by auto
  then show ?thesis
    using validated_budget_admits [OF demo_budget_start _ _ _ _ demo_budget_run(2,1),
        of 40000 100 3758096384] demo_budget_charges(2)
    by fastforce
qed

end
