(* ===== verification/Float64.thy ===== *)
theory Float64
  imports Prelude
begin

text \<open>
  The little of \<open>f64\<close> that the memory governor of \<open>ironmlx/src/core/process_memory.rs\<close> uses: comparison, and
  \<open>((n as f64) * ratio) as usize\<close>.

  A finite number is a dyadic fraction. Conversion and multiplication round to 53 significant bits, ties to
  even; the cast truncates and saturates. Products below \<open>2 ^ -1022\<close>, which round differently, truncate to zero
  either way, and products past the largest \<open>f64\<close> saturate either way, so the result is that of the code
  whenever the ratio is an \<open>f64\<close>.
\<close>

datatype f64 = Dyadic int nat | Infinity | NegInfinity | NaN

fun f64_less :: "f64 \<Rightarrow> f64 \<Rightarrow> bool" where
  "f64_less (Dyadic m k) (Dyadic n l) = (m * 2 ^ l < n * 2 ^ k)"
| "f64_less (Dyadic m k) Infinity = True"
| "f64_less NegInfinity (Dyadic m k) = True"
| "f64_less NegInfinity Infinity = True"
| "f64_less _ _ = False"

fun f64_le :: "f64 \<Rightarrow> f64 \<Rightarrow> bool" where
  "f64_le (Dyadic m k) (Dyadic n l) = (m * 2 ^ l \<le> n * 2 ^ k)"
| "f64_le NaN _ = False"
| "f64_le _ NaN = False"
| "f64_le _ Infinity = True"
| "f64_le NegInfinity _ = True"
| "f64_le _ _ = False"

definition f64_zero :: f64 where "f64_zero = Dyadic 0 0"
definition f64_one :: f64 where "f64_one = Dyadic 1 0"

text \<open>The bits beyond the 53rd: how many there are, and rounding them away.\<close>

function excess_bits :: "nat \<Rightarrow> nat" where
  "excess_bits n = (if n < 2 ^ 53 then 0 else Suc (excess_bits (n div 2)))"
  by pat_completeness auto
termination by (relation "measure id") (auto simp: not_less)

declare excess_bits.simps [simp del]

definition round_half_even :: "nat \<Rightarrow> nat \<Rightarrow> nat" where
  "round_half_even n s =
     (let q = n div 2 ^ s; r = n mod 2 ^ s
      in if 2 * r > 2 ^ s \<or> 2 * r = 2 ^ s \<and> odd q then q + 1 else q)"

definition round53 :: "nat \<Rightarrow> nat" where
  "round53 n = round_half_even n (excess_bits n) * 2 ^ excess_bits n"

fun f64_scale :: "nat \<Rightarrow> f64 \<Rightarrow> nat" where
  "f64_scale n (Dyadic m k) = min (round53 (round53 n * nat m) div 2 ^ k) u64_max"
| "f64_scale n Infinity = (if n = 0 then 0 else u64_max)"
| "f64_scale n NegInfinity = 0"
| "f64_scale n NaN = 0"

section \<open>Rounding stays below what is representable\<close>

lemma excess_bits_bounds: "n < 2 ^ (53 + excess_bits n) \<and> (0 < excess_bits n \<longrightarrow> 2 ^ (52 + excess_bits n) \<le> n)"
proof (induction n rule: excess_bits.induct)
  case (1 n)
  show ?case
  proof (cases "n < 2 ^ 53")
    case True
    then show ?thesis by (simp add: excess_bits.simps [of n])
  next
    case False
    let ?s = "excess_bits (n div 2)"
    have e: "excess_bits n = Suc ?s" using False by (simp add: excess_bits.simps [of n])
    have "2 ^ (52 + ?s) \<le> n div 2"
    proof (cases "0 < ?s")
      case True
      then show ?thesis using 1 False by blast
    next
      case False
      then show ?thesis using \<open>\<not> n < 2 ^ 53\<close> by simp
    qed
    then have "2 * 2 ^ (52 + ?s) \<le> n" by linarith
    moreover have "n < 2 * 2 ^ (53 + ?s)" using 1 False by linarith
    ultimately show ?thesis unfolding e add_Suc_right power_Suc by blast
  qed
qed

lemma round53_exact [simp]: "n < 2 ^ 53 \<Longrightarrow> round53 n = n"
  by (simp add: round53_def round_half_even_def excess_bits.simps [of n])

lemma round53_le:
  assumes "n \<le> y * 2 ^ t" and "y < 2 ^ 53"
  shows "round53 n \<le> y * 2 ^ t"
proof (cases "excess_bits n = 0")
  case True
  then show ?thesis using assms(1) by (simp add: round53_def round_half_even_def)
next
  case False
  define s where "s = excess_bits n"
  let ?q = "n div 2 ^ s"
  have n: "n = ?q * 2 ^ s + n mod 2 ^ s" by (rule div_mult_mod_eq [symmetric])
  have "2 ^ (52 + s) \<le> n" using excess_bits_bounds [of n] False by (simp add: s_def)
  also have "\<dots> \<le> y * 2 ^ t" by (rule assms(1))
  also have "\<dots> < 2 ^ 53 * 2 ^ t" using assms(2) by simp
  finally have "(2 :: nat) ^ (52 + s) < 2 ^ (53 + t)" by (simp add: power_add)
  then have st: "s \<le> t" by (simp add: power_strict_increasing_iff)
  then have y: "y * 2 ^ t = (y * 2 ^ (t - s)) * 2 ^ s" by (simp add: power_add [symmetric] mult.assoc)
  have "?q \<le> y * 2 ^ (t - s)" using assms(1) unfolding y by (metis div_le_mono nonzero_mult_div_cancel_right power_not_zero zero_neq_numeral)
  moreover have "?q < y * 2 ^ (t - s)" if "0 < n mod 2 ^ s"
  proof (rule ccontr)
    assume "\<not> ?q < y * 2 ^ (t - s)"
    then have "y * 2 ^ t \<le> ?q * 2 ^ s" unfolding y by simp
    then show False using assms(1) n that by linarith
  qed
  ultimately have "round_half_even n s \<le> y * 2 ^ (t - s)" 
    by (cases "n mod 2 ^ s = 0") (auto simp: round_half_even_def Let_def)
  then show ?thesis unfolding y round53_def s_def [symmetric] by simp
qed

lemma f64_scale_le:
  assumes "n < 2 ^ 53" and "f64_le r f64_one"
  shows "f64_scale n r \<le> n"
proof (cases r)
  case (Dyadic m k)
  have "m \<le> 2 ^ k" using assms(2) Dyadic by (simp add: f64_one_def)
  then have "nat m \<le> 2 ^ k" by (simp add: nat_le_iff)
  then have "round53 n * nat m \<le> n * 2 ^ k" using assms(1) by simp
  then have "round53 (round53 n * nat m) \<le> n * 2 ^ k" using assms(1) by (rule round53_le)
  then have "round53 (round53 n * nat m) div 2 ^ k \<le> n" by (metis div_le_mono nonzero_mult_div_cancel_right power_not_zero zero_neq_numeral)
  then show ?thesis using Dyadic by (simp add: min.coboundedI1)
qed (use assms(2) in \<open>simp_all add: f64_one_def\<close>)

lemma f64_scale_max: "f64_scale n r \<le> u64_max"
  by (cases r) simp_all

end
