(* ===== verification/MemoryGovernor.thy ===== *)
theory MemoryGovernor
  imports Float64 MemoryBudget
begin

text \<open>
  \<open>ironmlx/src/core/process_memory.rs\<close>, \<open>ProcessMemoryGovernor\<close>: what one telemetry sample does to the pressure level and
  the ceilings, reservations against the headroom, the cap on the allocator's cache, and the choice of a
  prefill chunk.

  The state behind the lock is \<open>governor_state\<close>: the fields of the snapshot, then the debouncing counters. Clock
  readings are arguments, in nanoseconds. The native allocator is only told limits; \<open>native_limit\<close> is the
  limit it had before, which its setter returns. The text label of a reservation is left out.
\<close>

section \<open>Configuration and telemetry\<close>

datatype pressure_level = Normal | Soft | Hard | Emergency

fun rank :: "pressure_level \<Rightarrow> nat" where
  "rank Normal = 0"
| "rank Soft = 1"
| "rank Hard = 2"
| "rank Emergency = 3"

record governor_config =
  static_reserve_bytes :: nat
  active_reclaim_ratio :: f64
  soft_ratio :: f64
  hard_ratio :: f64
  prefill_headroom_ratio :: f64
  recovery_ratio :: f64
  promotion_samples :: nat
  needed_recovery_samples :: nat
  emergency_overage_bytes :: nat
  minimum_prefill_chunk_tokens :: nat
  poll_interval :: nat
  telemetry_stale_after :: nat
  mlx_cache_ratio :: f64
  mlx_cache_min_bytes :: nat
  mlx_cache_cold_max_bytes :: nat
  mlx_cache_max_bytes :: nat

definition MIB :: nat where "MIB = 1024 * 1024"
definition GIB :: nat where "GIB = 1024 * 1024 * 1024"

text \<open>The decimal fractions are those of the nearest \<open>f64\<close>.\<close>

definition governor_config_default :: governor_config where
  "governor_config_default = \<lparr>static_reserve_bytes = 6 * GIB, active_reclaim_ratio = Dyadic 1 1,
     soft_ratio = Dyadic 8106479329266893 53, hard_ratio = Dyadic 4278419646001971 52,
     prefill_headroom_ratio = Dyadic 8106479329266893 53, recovery_ratio = Dyadic 7656119366529843 53,
     promotion_samples = 2, needed_recovery_samples = 3, emergency_overage_bytes = 2 * GIB,
     minimum_prefill_chunk_tokens = 128, poll_interval = 250 * 1000000, telemetry_stale_after = 2 * 1000000000,
     mlx_cache_ratio = Dyadic 3602879701896397 56, mlx_cache_min_bytes = 128 * MIB,
     mlx_cache_cold_max_bytes = 512 * MIB, mlx_cache_max_bytes = 2 * GIB\<rparr>"

datatype governor_config_error =
  ZeroStaticReserve | InvalidActiveReclaimRatio | InvalidWatermarks | InvalidPrefillHeadroom | ZeroSampleCount
| ZeroMinimumPrefillChunk | InvalidPollingWindow | InvalidMlxCacheBudget

definition governor_config_validate :: "governor_config \<Rightarrow> governor_config_error + governor_config" where
  "governor_config_validate c =
     (if static_reserve_bytes c = 0 then Inl ZeroStaticReserve
      else if \<not> (f64_le f64_zero (active_reclaim_ratio c) \<and> f64_le (active_reclaim_ratio c) f64_one) then Inl InvalidActiveReclaimRatio
      else if \<not> (f64_less f64_zero (recovery_ratio c) \<and> f64_less (recovery_ratio c) (soft_ratio c)
          \<and> f64_less (soft_ratio c) (hard_ratio c) \<and> f64_le (hard_ratio c) f64_one) then Inl InvalidWatermarks
      else if \<not> (f64_less f64_zero (prefill_headroom_ratio c) \<and> f64_le (prefill_headroom_ratio c) f64_one)
        then Inl InvalidPrefillHeadroom
      else if promotion_samples c = 0 \<or> needed_recovery_samples c = 0 then Inl ZeroSampleCount
      else if minimum_prefill_chunk_tokens c = 0 then Inl ZeroMinimumPrefillChunk
      else if poll_interval c = 0 \<or> telemetry_stale_after c < poll_interval c then Inl InvalidPollingWindow
      else if \<not> (f64_less f64_zero (mlx_cache_ratio c) \<and> f64_le (mlx_cache_ratio c) f64_one)
          \<or> mlx_cache_min_bytes c = 0 \<or> mlx_cache_min_bytes c > mlx_cache_cold_max_bytes c
          \<or> mlx_cache_cold_max_bytes c > mlx_cache_max_bytes c \<or> mlx_cache_min_bytes c > mlx_cache_max_bytes c
        then Inl InvalidMlxCacheBudget
      else Inr c)"

record host_vm =
  free_bytes :: nat
  vm_active_bytes :: nat
  inactive_bytes :: nat
  wired_bytes :: nat

record telemetry =
  total_ram_bytes :: nat
  phys_footprint_bytes :: "nat option"
  vm :: "host_vm option"
  mlx_active_bytes :: "nat option"
  mlx_cache_seen :: "nat option"
  metal_limit_bytes :: "nat option"

definition usage_of :: "telemetry \<Rightarrow> nat option" where
  "usage_of t =
     (case (phys_footprint_bytes t, mlx_active_bytes t) of
        (Some phys, Some active) \<Rightarrow> Some (max phys active)
      | (Some phys, None) \<Rightarrow> Some phys
      | (None, Some active) \<Rightarrow> Some active
      | (None, None) \<Rightarrow> None)"

section \<open>State\<close>

record governor_snapshot =
  pressure :: pressure_level
  current_usage_bytes :: nat
  available_ram_bytes :: "nat option"
  reserved_bytes :: nat
  effective_ceiling_bytes :: nat
  static_ceiling_bytes :: nat
  dynamic_ceiling_bytes :: "nat option"
  metal_ceiling_bytes :: "nat option"
  soft_watermark_bytes :: nat
  hard_watermark_bytes :: nat
  mlx_cache_bytes :: nat
  mlx_cache_limit_bytes :: nat
  cold_materialization_reservations :: nat
  prefill_reservations :: nat
  prefill_cache_growth_reserved_bytes :: nat
  telemetry_degraded :: bool
  sample_sequence :: nat

record governor_state = governor_snapshot +
  candidate_level :: pressure_level
  candidate_samples :: nat
  recovery_samples :: nat
  last_sample_at :: "nat option"
  original_limit_bytes :: "nat option"
  applied_limit_bytes :: nat

text \<open>The last two fields are \<open>MlxCacheControllerState\<close>, which only a managing governor uses.\<close>

record governor_env =
  gov_config :: governor_config
  manage_mlx_cache :: bool
  native_limit :: nat

definition governor_new :: "bool \<Rightarrow> nat \<Rightarrow> governor_config \<Rightarrow> governor_config_error + (governor_env \<times> governor_state)" where
  "governor_new manage native c =
     (case governor_config_validate c of
        Inl e \<Rightarrow> Inl e
      | Inr c \<Rightarrow> Inr (\<lparr>gov_config = c, manage_mlx_cache = manage, native_limit = native\<rparr>,
          \<lparr>pressure = Normal, current_usage_bytes = 0, available_ram_bytes = None, reserved_bytes = 0,
           effective_ceiling_bytes = 0, static_ceiling_bytes = 0, dynamic_ceiling_bytes = None, metal_ceiling_bytes = None,
           soft_watermark_bytes = 0, hard_watermark_bytes = 0, mlx_cache_bytes = 0, mlx_cache_limit_bytes = 0,
           cold_materialization_reservations = 0, prefill_reservations = 0, prefill_cache_growth_reserved_bytes = 0,
           telemetry_degraded = True, sample_sequence = 0, candidate_level = Normal, candidate_samples = 0,
           recovery_samples = 0, last_sample_at = None, original_limit_bytes = None, applied_limit_bytes = 0\<rparr>))"

section \<open>The cap on the allocator's cache\<close>

definition apply_limit :: "governor_env \<Rightarrow> nat \<Rightarrow> governor_state \<Rightarrow> nat \<times> governor_state" where
  "apply_limit env requested s =
     (let original = (case original_limit_bytes s of Some l \<Rightarrow> l | None \<Rightarrow> native_limit env);
          applied = min requested original
      in (applied, s\<lparr>original_limit_bytes := Some original, applied_limit_bytes := applied\<rparr>))"

definition desired_cache_limit :: "governor_config \<Rightarrow> governor_state \<Rightarrow> nat" where
  "desired_cache_limit c s =
     (let safe_target = f64_scale (effective_ceiling_bytes s) (prefill_headroom_ratio c);
          non_cache_usage = current_usage_bytes s - mlx_cache_bytes s;
          unreserved_headroom = safe_target - non_cache_usage - reserved_bytes s;
          normal_budget = min (clamp (f64_scale (effective_ceiling_bytes s) (mlx_cache_ratio c))
            (mlx_cache_min_bytes c) (mlx_cache_max_bytes c)) unreserved_headroom;
          desired = (if telemetry_degraded s then 0
            else case pressure s of
              Normal \<Rightarrow> if cold_materialization_reservations s > 0 then min normal_budget (mlx_cache_cold_max_bytes c) else normal_budget
            | Soft \<Rightarrow> min (normal_budget div 2) (mlx_cache_cold_max_bytes c)
            | _ \<Rightarrow> 0)
      in if prefill_reservations s > 0
         then min desired (sat_add (mlx_cache_bytes s) (prefill_cache_growth_reserved_bytes s))
         else desired)"

definition apply_mlx_cache_budget :: "governor_env \<Rightarrow> governor_state \<Rightarrow> governor_state" where
  "apply_mlx_cache_budget env s =
     (let desired = desired_cache_limit (gov_config env) s in
      if manage_mlx_cache env
      then let (limit, s) = apply_limit env desired s in s\<lparr>mlx_cache_limit_bytes := limit\<rparr>
      else s\<lparr>mlx_cache_limit_bytes := desired\<rparr>)"

section \<open>Samples\<close>

definition classify_observed_pressure :: "nat \<Rightarrow> nat \<Rightarrow> nat \<Rightarrow> nat \<Rightarrow> nat \<Rightarrow> bool \<Rightarrow> pressure_level" where
  "classify_observed_pressure current ceiling soft hard overage valid =
     (if \<not> valid \<or> ceiling = 0 then Soft
      else if current \<ge> sat_add ceiling overage then Emergency
      else if current \<ge> hard then Hard
      else if current \<ge> soft then Soft
      else Normal)"

fun calmer :: "pressure_level \<Rightarrow> pressure_level" where
  "calmer Emergency = Hard"
| "calmer Hard = Soft"
| "calmer Soft = Normal"
| "calmer Normal = Normal"

text \<open>The \<open>u32\<close> counters saturate.\<close>

definition count_u32 :: "nat \<Rightarrow> nat" where
  "count_u32 n = min (n + 1) (2 ^ 32 - 1)"

definition advance_pressure_state :: "governor_config \<Rightarrow> pressure_level \<Rightarrow> nat \<Rightarrow> nat \<Rightarrow> governor_state \<Rightarrow> governor_state" where
  "advance_pressure_state c observed current recovery_watermark s =
     (if rank observed > rank (pressure s) then
        let s = s\<lparr>recovery_samples := 0\<rparr> in
        if observed = Emergency then s\<lparr>pressure := Emergency, candidate_samples := 0\<rparr>
        else
          let s = (if candidate_level s = observed then s\<lparr>candidate_samples := count_u32 (candidate_samples s)\<rparr>
                   else s\<lparr>candidate_level := observed, candidate_samples := 1\<rparr>) in
          if candidate_samples s \<ge> promotion_samples c then s\<lparr>pressure := observed, candidate_samples := 0\<rparr> else s
      else
        let s = s\<lparr>candidate_samples := 0\<rparr> in
        if current \<le> recovery_watermark then
          let s = s\<lparr>recovery_samples := count_u32 (recovery_samples s)\<rparr> in
          if recovery_samples s \<ge> needed_recovery_samples c
          then s\<lparr>pressure := calmer (pressure s), recovery_samples := 0\<rparr> else s
        else s\<lparr>recovery_samples := 0\<rparr>)"

definition static_ceiling :: "governor_config \<Rightarrow> telemetry \<Rightarrow> nat" where
  "static_ceiling c t = max (total_ram_bytes t - static_reserve_bytes c) 1"

definition available_ram :: "governor_config \<Rightarrow> telemetry \<Rightarrow> nat option" where
  "available_ram c t = map_option (\<lambda>v. max (sat_add (sat_add (free_bytes v) (inactive_bytes v))
     (f64_scale (vm_active_bytes v) (active_reclaim_ratio c))) 1) (vm t)"

definition effective_ceiling :: "nat \<Rightarrow> nat option \<Rightarrow> nat option \<Rightarrow> nat" where
  "effective_ceiling st dyn metal =
     (let e = (case dyn of Some d \<Rightarrow> min st d | None \<Rightarrow> st) in case metal of Some m \<Rightarrow> min e m | None \<Rightarrow> e)"

definition degraded :: "telemetry \<Rightarrow> bool" where
  "degraded t = (phys_footprint_bytes t = None \<or> vm t = None \<or> metal_limit_bytes t = None)"

text \<open>A partial sample cannot prove that the process is safe.\<close>

definition fail_safe :: "governor_state \<Rightarrow> governor_state" where
  "fail_safe s = (if pressure s = Normal then s\<lparr>pressure := Soft\<rparr> else s)"

definition update :: "governor_env \<Rightarrow> nat \<Rightarrow> telemetry \<Rightarrow> governor_state \<Rightarrow> governor_state" where
  "update env now t s =
     (let c = gov_config env;
          current = (case usage_of t of Some u \<Rightarrow> u | None \<Rightarrow> 0);
          st = static_ceiling c t;
          available = available_ram c t;
          dyn = map_option (\<lambda>a. max (sat_add current a) 1) available;
          metal = (case metal_limit_bytes t of Some l \<Rightarrow> if l > 0 then Some l else None | None \<Rightarrow> None);
          eff = effective_ceiling st dyn metal;
          soft = f64_scale eff (soft_ratio c);
          hard = f64_scale eff (hard_ratio c);
          with_reservations = sat_add current (reserved_bytes s);
          observed = classify_observed_pressure with_reservations eff soft hard (emergency_overage_bytes c) (usage_of t \<noteq> None);
          recovery = f64_scale eff (recovery_ratio c);
          s = (if degraded t
               then let s = fail_safe s in s\<lparr>candidate_level := pressure s, candidate_samples := 0, recovery_samples := 0\<rparr>
               else advance_pressure_state c observed with_reservations recovery s);
          s = s\<lparr>current_usage_bytes := current, available_ram_bytes := available, effective_ceiling_bytes := eff,
                static_ceiling_bytes := st, dynamic_ceiling_bytes := dyn, metal_ceiling_bytes := metal,
                soft_watermark_bytes := soft, hard_watermark_bytes := hard,
                mlx_cache_bytes := (case mlx_cache_seen t of Some b \<Rightarrow> b | None \<Rightarrow> 0), telemetry_degraded := degraded t,
                sample_sequence := wrap_add (sample_sequence s) 1, last_sample_at := Some now\<rparr>
      in apply_mlx_cache_budget env s)"

text \<open>The periodic sampler; \<open>t\<close> is what the operating system reports if it is asked.\<close>

definition sample_process :: "governor_env \<Rightarrow> nat \<Rightarrow> telemetry \<Rightarrow> governor_state \<Rightarrow> governor_state" where
  "sample_process env now t s =
     (case last_sample_at s of
        Some sampled \<Rightarrow> if now - sampled < poll_interval (gov_config env) then s else update env now t s
      | None \<Rightarrow> update env now t s)"

definition telemetry_stale :: "governor_env \<Rightarrow> nat \<Rightarrow> governor_state \<Rightarrow> bool" where
  "telemetry_stale env now s =
     (case last_sample_at s of None \<Rightarrow> True | Some sampled \<Rightarrow> now - sampled > telemetry_stale_after (gov_config env))"

definition snapshot :: "governor_env \<Rightarrow> nat \<Rightarrow> governor_state \<Rightarrow> governor_state" where
  "snapshot env now s =
     (if telemetry_stale env now s then apply_mlx_cache_budget env (fail_safe (s\<lparr>telemetry_degraded := True\<rparr>)) else s)"

definition admission_paused :: "governor_env \<Rightarrow> nat \<Rightarrow> governor_state \<Rightarrow> bool \<times> governor_state" where
  "admission_paused env now s = (let s = snapshot env now s in (pressure s \<noteq> Normal, s))"

section \<open>Reservations\<close>

datatype reservation_kind = General | ColdMaterialization | Prefill

record reservation =
  res_bytes :: nat
  res_liability :: nat
  res_kind :: reservation_kind

datatype reservation_error =
  TelemetryUnavailable
| Pressure pressure_level
| InsufficientHeadroom nat nat nat

definition prefill_cache_growth_liability :: "governor_state \<Rightarrow> nat" where
  "prefill_cache_growth_liability s =
     (if prefill_reservations s > 0 then 0 else mlx_cache_limit_bytes s - mlx_cache_bytes s)"

definition count_reservation :: "reservation_kind \<Rightarrow> nat \<Rightarrow> governor_state \<Rightarrow> governor_state" where
  "count_reservation kind liability s =
     (case kind of
        General \<Rightarrow> s
      | ColdMaterialization \<Rightarrow> s\<lparr>cold_materialization_reservations := sat_add (cold_materialization_reservations s) 1\<rparr>
      | Prefill \<Rightarrow> s\<lparr>prefill_reservations := sat_add (prefill_reservations s) 1,
            prefill_cache_growth_reserved_bytes := sat_add (prefill_cache_growth_reserved_bytes s) liability\<rparr>)"

definition try_reserve_inner :: "governor_env \<Rightarrow> nat \<Rightarrow> nat \<Rightarrow> reservation_kind \<Rightarrow> governor_state
    \<Rightarrow> (reservation_error, governor_state, reservation) outcome" where
  "try_reserve_inner env now bytes kind s =
     (let stale = telemetry_stale env now s; s = snapshot env now s in
      if effective_ceiling_bytes s = 0 \<or> telemetry_degraded s \<or> stale then (Inl TelemetryUnavailable, s)
      else if rank (pressure s) \<ge> rank Hard then (Inl (Pressure (pressure s)), s)
      else
        let target = f64_scale (effective_ceiling_bytes s) (prefill_headroom_ratio (gov_config env));
            liability = (if kind = Prefill \<and> prefill_reservations s = 0 then prefill_cache_growth_liability s else 0);
            reserved = sat_add bytes liability;
            projected = sat_add (sat_add (current_usage_bytes s) (reserved_bytes s)) reserved
        in if projected > target then (Inl (InsufficientHeadroom reserved projected target), s)
           else (Inr \<lparr>res_bytes = reserved, res_liability = liability, res_kind = kind\<rparr>,
                 apply_mlx_cache_budget env (count_reservation kind liability
                   (s\<lparr>reserved_bytes := sat_add (reserved_bytes s) reserved\<rparr>))))"

definition release_reservation :: "governor_env \<Rightarrow> reservation \<Rightarrow> governor_state \<Rightarrow> governor_state" where
  "release_reservation env r s =
     (let s =
        (case res_kind r of
           Prefill \<Rightarrow>
             (let s = s\<lparr>reserved_bytes := reserved_bytes s - (res_bytes r - res_liability r),
                        prefill_reservations := prefill_reservations s - 1\<rparr>
              in if prefill_reservations s = 0
                 then s\<lparr>reserved_bytes := reserved_bytes s - prefill_cache_growth_reserved_bytes s,
                        prefill_cache_growth_reserved_bytes := 0\<rparr>
                 else s)
         | ColdMaterialization \<Rightarrow> s\<lparr>reserved_bytes := reserved_bytes s - res_bytes r,
               cold_materialization_reservations := cold_materialization_reservations s - 1\<rparr>
         | General \<Rightarrow> s\<lparr>reserved_bytes := reserved_bytes s - res_bytes r\<rparr>)
      in apply_mlx_cache_budget env s)"

section \<open>Prefill chunks\<close>

text \<open>\<open>None\<close> where the code divides by zero.\<close>

definition estimate_prefill_peak_growth :: "model_meta \<Rightarrow> nat \<Rightarrow> nat \<Rightarrow> nat \<Rightarrow> nat option" where
  "estimate_prefill_peak_growth meta query_tokens kv_len batch_size =
     map_option (\<lambda>per_token.
       let batch = max batch_size 1; query = max query_tokens 1; context = max (sat_add kv_len query) 1;
           kv_growth = sat_mul (sat_mul per_token query) batch;
           score_peak = sat_mul (sat_mul (sat_mul (sat_mul (nat (max (num_attention_heads meta) 1)) query) context) 4) batch;
           hidden_peak = sat_mul (sat_mul (sat_mul (nat (max (hidden_size meta) 1)) query) 2) batch
       in sat_add (sat_add kv_growth score_peak) hidden_peak) (kv_bytes_per_token meta)"

function largest_safe_chunk :: "(nat \<Rightarrow> bool) \<Rightarrow> nat \<Rightarrow> nat \<Rightarrow> nat" where
  "largest_safe_chunk ok low high =
     (if low < high
      then let mid = low + div_ceil (high - low) 2
           in if ok mid then largest_safe_chunk ok mid high else largest_safe_chunk ok low (mid - 1)
      else low)"
  by pat_completeness auto
termination by (relation "measure (\<lambda>(ok, low, high). high - low)") (auto simp: div_ceil_def Let_def)

declare largest_safe_chunk.simps [simp del]

datatype prefill_guard_error =
  ZeroRequestedTokens
| GuardTelemetryUnavailable
| MinimumChunkUnsafe nat nat nat
| GuardReservation reservation_error

record prefill_plan =
  plan_requested :: nat
  plan_selected :: nat
  plan_estimate :: nat
  plan_liability :: nat
  plan_target :: nat
  plan_reservation :: reservation

text \<open>The choice of a chunk from a snapshot; \<open>estimate\<close> is the modeled peak for a number of tokens.\<close>

definition select_prefill_chunk :: "governor_config \<Rightarrow> governor_state \<Rightarrow> nat \<Rightarrow> (nat \<Rightarrow> nat) \<Rightarrow> prefill_guard_error + nat" where
  "select_prefill_chunk c s requested estimate =
     (if effective_ceiling_bytes s = 0 \<or> telemetry_degraded s then Inl GuardTelemetryUnavailable
      else
        let target = f64_scale (effective_ceiling_bytes s) (prefill_headroom_ratio c);
            baseline = sat_add (sat_add (current_usage_bytes s) (reserved_bytes s)) (prefill_cache_growth_liability s);
            minimum = min requested (max (minimum_prefill_chunk_tokens c) 1)
        in if sat_add baseline (estimate minimum) > target
           then Inl (MinimumChunkUnsafe minimum (sat_add baseline (estimate minimum)) target)
           else Inr (if sat_add baseline (estimate requested) \<le> target then requested
                     else largest_safe_chunk (\<lambda>n. sat_add baseline (estimate n) \<le> target) minimum requested))"

text \<open>
  The lock is released between the choice and the reservation: \<open>meanwhile\<close> is what other threads do in between.
\<close>

definition plan_prefill_chunk :: "governor_env \<Rightarrow> nat \<Rightarrow> nat \<Rightarrow> (governor_state \<Rightarrow> governor_state) \<Rightarrow> nat \<Rightarrow> (nat \<Rightarrow> nat)
    \<Rightarrow> governor_state \<Rightarrow> (prefill_guard_error, governor_state, prefill_plan) outcome" where
  "plan_prefill_chunk env now now' meanwhile requested estimate s =
     (if requested = 0 then (Inl ZeroRequestedTokens, s)
      else
        let s = snapshot env now s in
        case select_prefill_chunk (gov_config env) s requested estimate of
          Inl e \<Rightarrow> (Inl e, s)
        | Inr selected \<Rightarrow>
            (case try_reserve_inner env now' (estimate selected) Prefill (meanwhile s) of
               (Inl e, s') \<Rightarrow> (Inl (GuardReservation e), s')
             | (Inr r, s') \<Rightarrow>
                 (Inr \<lparr>plan_requested = requested, plan_selected = selected, plan_estimate = estimate selected,
                   plan_liability = res_bytes r - estimate selected,
                   plan_target = f64_scale (effective_ceiling_bytes s) (prefill_headroom_ratio (gov_config env)),
                   plan_reservation = r\<rparr>, s')))"

end
