(* ===== verification/GovernorInv.thy ===== *)
theory GovernorInv
  imports MemoryGovernor
begin

text \<open>
  The invariant of the memory governor (\<open>ironmlx/src/core/process_memory.rs\<close>): reservations are accounted for
  exactly, the cap on the allocator's cache fits into the headroom, the effective ceiling is below every
  ceiling. The machine's state is the governor's with the reservations that have not been dropped yet.
\<close>

section \<open>What the cache budget leaves alone\<close>

lemma budget_frame [simp]:
  "pressure (apply_mlx_cache_budget env s) = pressure s"
  "current_usage_bytes (apply_mlx_cache_budget env s) = current_usage_bytes s"
  "reserved_bytes (apply_mlx_cache_budget env s) = reserved_bytes s"
  "effective_ceiling_bytes (apply_mlx_cache_budget env s) = effective_ceiling_bytes s"
  "static_ceiling_bytes (apply_mlx_cache_budget env s) = static_ceiling_bytes s"
  "dynamic_ceiling_bytes (apply_mlx_cache_budget env s) = dynamic_ceiling_bytes s"
  "metal_ceiling_bytes (apply_mlx_cache_budget env s) = metal_ceiling_bytes s"
  "mlx_cache_bytes (apply_mlx_cache_budget env s) = mlx_cache_bytes s"
  "cold_materialization_reservations (apply_mlx_cache_budget env s) = cold_materialization_reservations s"
  "prefill_reservations (apply_mlx_cache_budget env s) = prefill_reservations s"
  "prefill_cache_growth_reserved_bytes (apply_mlx_cache_budget env s) = prefill_cache_growth_reserved_bytes s"
  "telemetry_degraded (apply_mlx_cache_budget env s) = telemetry_degraded s"
  "candidate_level (apply_mlx_cache_budget env s) = candidate_level s"
  "candidate_samples (apply_mlx_cache_budget env s) = candidate_samples s"
  "recovery_samples (apply_mlx_cache_budget env s) = recovery_samples s"
  "last_sample_at (apply_mlx_cache_budget env s) = last_sample_at s"
  by (simp_all add: apply_mlx_cache_budget_def apply_limit_def Let_def)

lemma desired_frame [simp]: "desired_cache_limit c (apply_mlx_cache_budget env s) = desired_cache_limit c s"
  unfolding desired_cache_limit_def budget_frame by (rule refl)

lemma budget_limit: "mlx_cache_limit_bytes (apply_mlx_cache_budget env s) \<le> desired_cache_limit (gov_config env) s"
  by (simp add: apply_mlx_cache_budget_def apply_limit_def Let_def)

lemma desired_fits:
  assumes "0 < desired_cache_limit c s"
  shows "current_usage_bytes s - mlx_cache_bytes s + reserved_bytes s + desired_cache_limit c s
      \<le> f64_scale (effective_ceiling_bytes s) (prefill_headroom_ratio c)"
    and "\<not> telemetry_degraded s" and "rank (pressure s) < rank Hard"
proof -
  let ?room = "f64_scale (effective_ceiling_bytes s) (prefill_headroom_ratio c) - (current_usage_bytes s - mlx_cache_bytes s) - reserved_bytes s"
  define nb where "nb = min (clamp (f64_scale (effective_ceiling_bytes s) (mlx_cache_ratio c)) (mlx_cache_min_bytes c) (mlx_cache_max_bytes c)) ?room"
  define g where "g = sat_add (mlx_cache_bytes s) (prefill_cache_growth_reserved_bytes s)"
  define d where "d = (if telemetry_degraded s then 0
            else case pressure s of
              Normal \<Rightarrow> if cold_materialization_reservations s > 0 then min nb (mlx_cache_cold_max_bytes c) else nb
            | Soft \<Rightarrow> min (nb div 2) (mlx_cache_cold_max_bytes c)
            | _ \<Rightarrow> 0)"
  have "desired_cache_limit c s = (if prefill_reservations s > 0 then min d g else d)"
    unfolding desired_cache_limit_def Let_def d_def nb_def g_def by (rule refl)
  moreover have "d \<le> nb" by (cases "pressure s") (auto simp: d_def min_def)
  moreover have "nb \<le> ?room" by (simp add: nb_def)
  ultimately have "desired_cache_limit c s \<le> ?room" by (simp add: min_def split: if_splits)
  with assms show "current_usage_bytes s - mlx_cache_bytes s + reserved_bytes s + desired_cache_limit c s
      \<le> f64_scale (effective_ceiling_bytes s) (prefill_headroom_ratio c)" by linarith
  have z: "telemetry_degraded s \<Longrightarrow> desired_cache_limit c s = 0" "pressure s = Hard \<Longrightarrow> desired_cache_limit c s = 0"
    "pressure s = Emergency \<Longrightarrow> desired_cache_limit c s = 0" by (simp_all add: desired_cache_limit_def Let_def)
  show "\<not> telemetry_degraded s" using z(1) assms by fastforce
  show "rank (pressure s) < rank Hard" using z(2,3) assms by (cases "pressure s") auto
qed

section \<open>The invariant\<close>

definition held :: "reservation \<Rightarrow> nat" where
  "held r = res_bytes r - res_liability r"

definition accounted :: "governor_state \<Rightarrow> reservation list \<Rightarrow> bool" where
  "accounted s rs = (reserved_bytes s = sum_list (map held rs) + prefill_cache_growth_reserved_bytes s
     \<and> prefill_reservations s = length (filter (\<lambda>r. res_kind r = Prefill) rs)
     \<and> cold_materialization_reservations s = length (filter (\<lambda>r. res_kind r = ColdMaterialization) rs)
     \<and> (prefill_reservations s = 0 \<longrightarrow> prefill_cache_growth_reserved_bytes s = 0)
     \<and> list_all (\<lambda>r. res_liability r \<le> res_bytes r \<and> (res_kind r \<noteq> Prefill \<longrightarrow> res_liability r = 0)) rs)"

definition ceilings_ok :: "governor_state \<Rightarrow> bool" where
  "ceilings_ok s = (effective_ceiling_bytes s \<le> static_ceiling_bytes s \<and> effective_ceiling_bytes s < 2 ^ 53
     \<and> (\<forall>d. dynamic_ceiling_bytes s = Some d \<longrightarrow> effective_ceiling_bytes s \<le> d)
     \<and> (\<forall>m. metal_ceiling_bytes s = Some m \<longrightarrow> effective_ceiling_bytes s \<le> m))"

definition governor_inv :: "governor_env \<Rightarrow> governor_state \<times> reservation list \<Rightarrow> bool" where
  "governor_inv env = (\<lambda>(s, rs). governor_config_validate (gov_config env) = Inr (gov_config env) \<and> accounted s rs
     \<and> ceilings_ok s \<and> mlx_cache_limit_bytes s \<le> desired_cache_limit (gov_config env) s)"

lemma headroom_le_ceiling:
  assumes "governor_config_validate c = Inr c" and "ceilings_ok s"
  shows "f64_scale (effective_ceiling_bytes s) (prefill_headroom_ratio c) \<le> effective_ceiling_bytes s"
  using assms by (intro f64_scale_le) (auto simp: ceilings_ok_def governor_config_validate_def split: if_splits)

section \<open>The machine\<close>

datatype governor_op =
  Sample nat telemetry
| Refresh nat telemetry
| Peek nat
| Reserve nat nat reservation_kind
| Release nat

fun governor_step :: "governor_env \<Rightarrow> governor_state \<times> reservation list \<Rightarrow> governor_op \<Rightarrow> governor_state \<times> reservation list" where
  "governor_step env (s, rs) (Sample now t) = (sample_process env now t s, rs)"
| "governor_step env (s, rs) (Refresh now t) = (update env now t s, rs)"
| "governor_step env (s, rs) (Peek now) = (snapshot env now s, rs)"
| "governor_step env (s, rs) (Reserve now bytes kind) =
     (case try_reserve_inner env now bytes kind s of (Inl e, s) \<Rightarrow> (s, rs) | (Inr r, s) \<Rightarrow> (s, rs @ [r]))"
| "governor_step env (s, rs) (Release i) =
     (if i < length rs then (release_reservation env (rs ! i) s, take i rs @ drop (Suc i) rs) else (s, rs))"

text \<open>A machine has less than 8 PiB of memory, and fewer than \<open>2 ^ 64\<close> reservations.\<close>

fun governor_op_ok :: "governor_state \<times> reservation list \<Rightarrow> governor_op \<Rightarrow> bool" where
  "governor_op_ok st (Sample now t) = (total_ram_bytes t < 2 ^ 53)"
| "governor_op_ok st (Refresh now t) = (total_ram_bytes t < 2 ^ 53)"
| "governor_op_ok (s, rs) (Reserve now bytes kind) = (length rs < u64_max)"
| "governor_op_ok st _ = True"

lemma accounted_cong:
  "reserved_bytes t = reserved_bytes s \<Longrightarrow> prefill_reservations t = prefill_reservations s \<Longrightarrow>
    cold_materialization_reservations t = cold_materialization_reservations s \<Longrightarrow>
    prefill_cache_growth_reserved_bytes t = prefill_cache_growth_reserved_bytes s \<Longrightarrow> accounted t rs = accounted s rs"
  by (simp add: accounted_def)

lemma ceilings_cong:
  "effective_ceiling_bytes t = effective_ceiling_bytes s \<Longrightarrow> static_ceiling_bytes t = static_ceiling_bytes s \<Longrightarrow>
    dynamic_ceiling_bytes t = dynamic_ceiling_bytes s \<Longrightarrow> metal_ceiling_bytes t = metal_ceiling_bytes s \<Longrightarrow> ceilings_ok t = ceilings_ok s"
  by (simp add: ceilings_ok_def)

lemma budget_inv:
  assumes "governor_config_validate (gov_config env) = Inr (gov_config env)" and "accounted s rs" and "ceilings_ok s"
  shows "governor_inv env (apply_mlx_cache_budget env s, rs)"
  using assms budget_limit [of env s] unfolding governor_inv_def
  by (simp add: accounted_cong [of "apply_mlx_cache_budget env s" s] ceilings_cong [of "apply_mlx_cache_budget env s" s])

lemma advance_frame [simp]:
  "reserved_bytes (advance_pressure_state c ob cu re s) = reserved_bytes s"
  "prefill_reservations (advance_pressure_state c ob cu re s) = prefill_reservations s"
  "cold_materialization_reservations (advance_pressure_state c ob cu re s) = cold_materialization_reservations s"
  "prefill_cache_growth_reserved_bytes (advance_pressure_state c ob cu re s) = prefill_cache_growth_reserved_bytes s"
  by (simp_all add: advance_pressure_state_def Let_def)

lemma fail_safe_frame [simp]:
  "reserved_bytes (fail_safe s) = reserved_bytes s"
  "prefill_reservations (fail_safe s) = prefill_reservations s"
  "cold_materialization_reservations (fail_safe s) = cold_materialization_reservations s"
  "prefill_cache_growth_reserved_bytes (fail_safe s) = prefill_cache_growth_reserved_bytes s"
  "effective_ceiling_bytes (fail_safe s) = effective_ceiling_bytes s"
  "static_ceiling_bytes (fail_safe s) = static_ceiling_bytes s"
  "dynamic_ceiling_bytes (fail_safe s) = dynamic_ceiling_bytes s"
  "metal_ceiling_bytes (fail_safe s) = metal_ceiling_bytes s"
  "current_usage_bytes (fail_safe s) = current_usage_bytes s"
  "mlx_cache_bytes (fail_safe s) = mlx_cache_bytes s"
  "telemetry_degraded (fail_safe s) = telemetry_degraded s"
  "last_sample_at (fail_safe s) = last_sample_at s"
  by (simp_all add: fail_safe_def)

lemma effective_ceiling_le:
  "effective_ceiling st dyn metal \<le> st"
  "dyn = Some d \<Longrightarrow> effective_ceiling st dyn metal \<le> d"
  "metal = Some m \<Longrightarrow> effective_ceiling st dyn metal \<le> m"
  by (auto simp: effective_ceiling_def Let_def min_def split: option.split)

lemma update_inv:
  assumes i: "governor_inv env (s, rs)" and t: "total_ram_bytes t < 2 ^ 53"
  shows "governor_inv env (update env now t s, rs)"
proof -
  have st: "static_ceiling c t < 2 ^ 53" for c using t by (simp add: static_ceiling_def)
  have e: "effective_ceiling (static_ceiling c t) d m < 9007199254740992" for c d m
    using le_less_trans [OF effective_ceiling_le(1) [of "static_ceiling c t" d m] st [of c]] by simp
  have "accounted s rs" and v: "governor_config_validate (gov_config env) = Inr (gov_config env)" using i by (simp_all add: governor_inv_def)
  then show ?thesis unfolding update_def Let_def
    by (intro budget_inv v) (simp_all add: accounted_def ceilings_ok_def e effective_ceiling_le split: option.split)
qed

lemma snapshot_inv:
  assumes "governor_inv env (s, rs)"
  shows "governor_inv env (snapshot env now s, rs)"
proof (cases "telemetry_stale env now s")
  case True
  let ?u = "fail_safe (s\<lparr>telemetry_degraded := True\<rparr>)"
  have "accounted ?u rs" "ceilings_ok ?u" using assms by (simp_all add: governor_inv_def accounted_def ceilings_ok_def)
  then show ?thesis using assms True budget_inv [of env ?u rs] by (simp add: snapshot_def governor_inv_def)
qed (use assms in \<open>simp add: snapshot_def\<close>)

lemma snapshot_frame [simp]:
  "reserved_bytes (snapshot env now s) = reserved_bytes s"
  "prefill_reservations (snapshot env now s) = prefill_reservations s"
  "cold_materialization_reservations (snapshot env now s) = cold_materialization_reservations s"
  "prefill_cache_growth_reserved_bytes (snapshot env now s) = prefill_cache_growth_reserved_bytes s"
  "effective_ceiling_bytes (snapshot env now s) = effective_ceiling_bytes s"
  "current_usage_bytes (snapshot env now s) = current_usage_bytes s"
  "last_sample_at (snapshot env now s) = last_sample_at s"
  by (simp_all add: snapshot_def)

section \<open>Reservations\<close>

lemma try_reserve_cases:
  assumes "try_reserve_inner env now bytes kind s = (r, t)"
  obtains e where "r = Inl e" and "t = snapshot env now s"
  | liability where "r = Inr \<lparr>res_bytes = sat_add bytes liability, res_liability = liability, res_kind = kind\<rparr>"
      and "liability = (if kind = Prefill \<and> prefill_reservations s = 0 then prefill_cache_growth_liability s else 0)"
      and "\<not> telemetry_stale env now s" and "\<not> telemetry_degraded s" and "rank (pressure s) < rank Hard"
      and "sat_add (sat_add (current_usage_bytes s) (reserved_bytes s)) (sat_add bytes liability)
             \<le> f64_scale (effective_ceiling_bytes s) (prefill_headroom_ratio (gov_config env))"
      and "t = apply_mlx_cache_budget env (count_reservation kind liability
             (s\<lparr>reserved_bytes := sat_add (reserved_bytes s) (sat_add bytes liability)\<rparr>))"
proof (cases "telemetry_stale env now s")
  case True
  then have "r = Inl TelemetryUnavailable" "t = snapshot env now s" using assms by (auto simp: try_reserve_inner_def Let_def)
  then show ?thesis by (rule that(1))
next
  case False
  then have e: "snapshot env now s = s" by (simp add: snapshot_def)
  let ?l = "if kind = Prefill \<and> prefill_reservations s = 0 then prefill_cache_growth_liability s else 0"
  let ?fit = "sat_add (sat_add (current_usage_bytes s) (reserved_bytes s)) (sat_add bytes ?l)
    \<le> f64_scale (effective_ceiling_bytes s) (prefill_headroom_ratio (gov_config env))"
  note u = assms [unfolded try_reserve_inner_def e Let_def]
  show ?thesis
  proof (cases "effective_ceiling_bytes s \<noteq> 0 \<and> \<not> telemetry_degraded s \<and> rank (pressure s) < rank Hard \<and> ?fit")
    case True
    then have c: "\<not> (effective_ceiling_bytes s = 0 \<or> telemetry_degraded s \<or> telemetry_stale env now s)"
      "\<not> rank Hard \<le> rank (pressure s)"
      "\<not> f64_scale (effective_ceiling_bytes s) (prefill_headroom_ratio (gov_config env))
        < sat_add (sat_add (current_usage_bytes s) (reserved_bytes s)) (sat_add bytes ?l)" using False by auto
    from u have "r = Inr \<lparr>res_bytes = sat_add bytes ?l, res_liability = ?l, res_kind = kind\<rparr>"
      "t = apply_mlx_cache_budget env (count_reservation kind ?l (s\<lparr>reserved_bytes := sat_add (reserved_bytes s) (sat_add bytes ?l)\<rparr>))"
      unfolding if_not_P [OF c(1)] if_not_P [OF c(2)] if_not_P [OF c(3)] by blast+
    then show ?thesis using True False by (intro that(2)) simp_all
  next
    case no: False
    then have "(\<exists>x. r = Inl x) \<and> t = s" using u by (cases r) (auto simp: not_le split: if_split_asm)
    then show ?thesis using that(1) e by auto
  qed
qed

lemma reserve_inv:
  assumes i: "governor_inv env (s, rs)" and r: "try_reserve_inner env now bytes kind s = (Inr r, t)" and l: "length rs < u64_max"
  shows "governor_inv env (t, rs @ [r])"
    and "current_usage_bytes s + reserved_bytes s + res_bytes r \<le> f64_scale (effective_ceiling_bytes s) (prefill_headroom_ratio (gov_config env))"
    and "res_bytes r = bytes + res_liability r"
proof -
  have v: "governor_config_validate (gov_config env) = Inr (gov_config env)" and a: "accounted s rs" and c: "ceilings_ok s"
    using i by (simp_all add: governor_inv_def)
  show "governor_inv env (t, rs @ [r])"
    and "current_usage_bytes s + reserved_bytes s + res_bytes r \<le> f64_scale (effective_ceiling_bytes s) (prefill_headroom_ratio (gov_config env))"
    and "res_bytes r = bytes + res_liability r"
  proof (atomize (full), cases rule: try_reserve_cases [OF r])
    case (2 liability)
    let ?target = "f64_scale (effective_ceiling_bytes s) (prefill_headroom_ratio (gov_config env))"
    have "?target < 2 ^ 53" using headroom_le_ceiling [OF v c] c by (simp add: ceilings_ok_def)
    then have small: "sat_add (sat_add (current_usage_bytes s) (reserved_bytes s)) (sat_add bytes liability) < 2 ^ 53"
      using 2(6) by (rule le_less_trans [rotated])
    have ex: "current_usage_bytes s + reserved_bytes s + (bytes + liability) < 2 ^ 53" "sat_add bytes liability = bytes + liability"
      "sat_add (reserved_bytes s) (bytes + liability) = reserved_bytes s + (bytes + liability)"
      using small by (auto simp: sat_add_def u64_max_def min_def split: if_splits)
    have sum: "current_usage_bytes s + reserved_bytes s + (bytes + liability) \<le> ?target"
      using 2(6) ex by (simp add: sat_add_def u64_max_def min_def split: if_splits)
    have r': "r = \<lparr>res_bytes = bytes + liability, res_liability = liability, res_kind = kind\<rparr>" using 2(1) ex(2) by simp
    let ?u = "count_reservation kind liability (s\<lparr>reserved_bytes := reserved_bytes s + (bytes + liability)\<rparr>)"
    have l2: "length (filter P rs) < u64_max" for P using le_less_trans [OF length_filter_le l] .
    have gr: "sat_add (prefill_cache_growth_reserved_bytes s) liability = prefill_cache_growth_reserved_bytes s + liability"
      using a ex(1) by (auto simp: accounted_def sat_add_def u64_max_def)
    have lz: "kind \<noteq> Prefill \<Longrightarrow> liability = 0" using 2(2) by simp
    have "accounted ?u (rs @ [r])"
      using a l2 [of "\<lambda>r. res_kind r = Prefill"] l2 [of "\<lambda>r. res_kind r = ColdMaterialization"] gr lz unfolding r'
      by (cases kind) (auto simp: accounted_def count_reservation_def held_def sat_add_exact)
    moreover have "ceilings_ok ?u" using c by (cases kind) (simp_all add: ceilings_ok_def count_reservation_def)
    moreover have "t = apply_mlx_cache_budget env ?u" using 2(7) ex by simp
    ultimately show "governor_inv env (t, rs @ [r]) \<and> current_usage_bytes s + reserved_bytes s + res_bytes r \<le> ?target
        \<and> res_bytes r = bytes + res_liability r"
      using budget_inv [OF v] sum r' by simp
  qed simp
qed

definition uncount_reservation :: "reservation \<Rightarrow> governor_state \<Rightarrow> governor_state" where
  "uncount_reservation r s = (case res_kind r of
     Prefill \<Rightarrow>
       (let s = s\<lparr>reserved_bytes := reserved_bytes s - (res_bytes r - res_liability r),
                  prefill_reservations := prefill_reservations s - 1\<rparr>
        in if prefill_reservations s = 0
           then s\<lparr>reserved_bytes := reserved_bytes s - prefill_cache_growth_reserved_bytes s,
                  prefill_cache_growth_reserved_bytes := 0\<rparr>
           else s)
   | ColdMaterialization \<Rightarrow> s\<lparr>reserved_bytes := reserved_bytes s - res_bytes r,
         cold_materialization_reservations := cold_materialization_reservations s - 1\<rparr>
   | General \<Rightarrow> s\<lparr>reserved_bytes := reserved_bytes s - res_bytes r\<rparr>)"

lemma uncount_accounted:
  assumes a: "accounted s (xs @ r # ys)"
  shows "accounted (uncount_reservation r s) (xs @ ys)"
proof -
  have b: "reserved_bytes s = held r + sum_list (map held (xs @ ys)) + prefill_cache_growth_reserved_bytes s"
    "prefill_reservations s = (if res_kind r = Prefill then 1 else 0) + length (filter (\<lambda>r. res_kind r = Prefill) (xs @ ys))"
    "cold_materialization_reservations s = (if res_kind r = ColdMaterialization then 1 else 0)
       + length (filter (\<lambda>r. res_kind r = ColdMaterialization) (xs @ ys))"
    "prefill_reservations s = 0 \<longrightarrow> prefill_cache_growth_reserved_bytes s = 0"
    "res_kind r \<noteq> Prefill \<longrightarrow> res_liability r = 0"
    "list_all (\<lambda>r. res_liability r \<le> res_bytes r \<and> (res_kind r \<noteq> Prefill \<longrightarrow> res_liability r = 0)) (xs @ ys)"
    using a by (simp_all add: accounted_def)
  show ?thesis
  proof (cases "res_kind r")
    case Prefill
    show ?thesis unfolding accounted_def uncount_reservation_def Let_def Prefill reservation_kind.case
      using b Prefill by (simp add: held_def del: map_append filter_append length_append list_all_append sum_list.append)
  next
    case ColdMaterialization
    show ?thesis unfolding accounted_def uncount_reservation_def ColdMaterialization reservation_kind.case
      using b ColdMaterialization by (simp add: held_def del: map_append filter_append length_append list_all_append sum_list.append)
  next
    case General
    show ?thesis unfolding accounted_def uncount_reservation_def General reservation_kind.case
      using b General by (simp add: held_def del: map_append filter_append length_append list_all_append sum_list.append)
  qed
qed

lemma release_inv:
  assumes i: "governor_inv env (s, rs)" and n: "n < length rs"
  shows "governor_inv env (release_reservation env (rs ! n) s, take n rs @ drop (Suc n) rs)"
proof -
  let ?r = "rs ! n"
  have v: "governor_config_validate (gov_config env) = Inr (gov_config env)" and a: "accounted s rs" and c: "ceilings_ok s"
    using i by (simp_all add: governor_inv_def)
  have "accounted s (take n rs @ ?r # drop (Suc n) rs)" using a id_take_nth_drop [OF n] by simp
  then have "accounted (uncount_reservation ?r s) (take n rs @ drop (Suc n) rs)" by (rule uncount_accounted)
  moreover have "ceilings_ok (uncount_reservation ?r s)"
    using c by (cases "res_kind ?r") (simp_all add: uncount_reservation_def ceilings_ok_def Let_def)
  moreover have "release_reservation env ?r s = apply_mlx_cache_budget env (uncount_reservation ?r s)"
    by (simp add: release_reservation_def uncount_reservation_def)
  ultimately show ?thesis using budget_inv [OF v] by simp
qed

lemma governor_step_inv:
  assumes "governor_inv env st" and "governor_op_ok st op"
  shows "governor_inv env (governor_step env st op)"
proof -
  obtain s rs where st: "st = (s, rs)" by fastforce
  show ?thesis
  proof (cases op)
    case (Sample now t)
    then show ?thesis using assms st update_inv by (auto simp: sample_process_def split: option.split)
  next
    case (Reserve now bytes kind)
    obtain r t where e: "try_reserve_inner env now bytes kind s = (r, t)" by fastforce
    show ?thesis
    proof (cases r)
      case (Inl x)
      then have "t = snapshot env now s" using e by (auto elim: try_reserve_cases)
      then show ?thesis using Reserve st e Inl assms snapshot_inv by simp
    next
      case (Inr x)
      then show ?thesis using Reserve st e assms reserve_inv(1) [of env s rs now bytes kind x t] by simp
    qed
  qed (use assms st update_inv snapshot_inv release_inv in simp_all)
qed

interpretation governor: invariant_machine "governor_step env" governor_op_ok "governor_inv env" for env
  by unfold_locales (rule governor_step_inv)

lemma governor_new_inv:
  assumes "governor_new manage native c = Inr (env, s)"
  shows "governor_inv env (s, [])" and "gov_config env = c"
proof -
  obtain d where d: "governor_config_validate c = Inr d" using assms by (cases "governor_config_validate c") (auto simp: governor_new_def)
  have "d = c" using d unfolding governor_config_validate_def by (auto split: if_splits)
  then show "governor_inv env (s, [])" "gov_config env = c"
    using assms d by (auto simp: governor_new_def governor_inv_def accounted_def ceilings_ok_def)
qed

end
