(* ===== verification/GovernorPlan.thy ===== *)
theory GovernorPlan
  imports GovernorInv
begin

text \<open>
  The memory governor (\<open>ironmlx/src/core/process_memory.rs\<close>): the binary search for a prefill chunk, and the pressure
  level under a sequence of samples.
\<close>

section \<open>The search for a chunk\<close>

lemma largest_safe_chunk_spec:
  assumes "low \<le> high" and "ok low"
  shows "low \<le> largest_safe_chunk ok low high \<and> largest_safe_chunk ok low high \<le> high \<and> ok (largest_safe_chunk ok low high)
    \<and> (largest_safe_chunk ok low high < high \<longrightarrow> \<not> ok (largest_safe_chunk ok low high + 1))"
  using assms
proof (induction ok low high rule: largest_safe_chunk.induct)
  case (1 ok low high)
  show ?case
  proof (cases "low < high")
    case True
    let ?mid = "low + div_ceil (high - low) 2"
    have mid: "low < ?mid" "?mid \<le> high" using True by (auto simp: div_ceil_def)
    show ?thesis
    proof (cases "ok ?mid")
      case ok: True
      have "largest_safe_chunk ok low high = largest_safe_chunk ok ?mid high"
        using True ok by (simp add: largest_safe_chunk.simps [of ok low high] Let_def)
      then show ?thesis using "1.IH"(1) [OF True refl ok mid(2) ok] mid by simp
    next
      case no: False
      let ?r = "largest_safe_chunk ok low (?mid - 1)"
      have e: "largest_safe_chunk ok low high = ?r"
        using True no by (simp add: largest_safe_chunk.simps [of ok low high] Let_def)
      have "low \<le> ?mid - 1" using mid by simp
      from "1.IH"(2) [OF True refl no this "1.prems"(2)]
      have r: "low \<le> ?r" "?r \<le> ?mid - 1" "ok ?r" "?r < ?mid - 1 \<longrightarrow> \<not> ok (?r + 1)" by blast+
      have "\<not> ok (?r + 1)"
      proof (cases "?r < ?mid - 1")
        case False
        then have "?r + 1 = ?mid" using r(2) mid(1) by simp
        then show ?thesis using no by simp
      qed (use r(4) in blast)
      moreover have "?r \<le> high" using r(2) mid by linarith
      ultimately show ?thesis unfolding e using r(1,3) by blast
    qed
  next
    case False
    then have "largest_safe_chunk ok low high = low" by (simp add: largest_safe_chunk.simps [of ok low high])
    then show ?thesis using "1.prems" False by simp
  qed
qed

lemma estimate_mono:
  assumes "estimate_prefill_peak_growth meta m kv b = Some x" and "estimate_prefill_peak_growth meta n kv b = Some y" and "m \<le> n"
  shows "x \<le> y"
proof -
  have q: "max m 1 \<le> max n 1" using assms(3) by auto
  have c: "max (sat_add kv (max m 1)) 1 \<le> max (sat_add kv (max n 1)) 1"
    by (rule max.mono [OF sat_add_mono [OF order_refl q] order_refl])
  obtain p where p: "kv_bytes_per_token meta = Some p" using assms(1) by (auto simp: estimate_prefill_peak_growth_def)
  show ?thesis
    using assms(1,2) unfolding estimate_prefill_peak_growth_def p option.map Let_def option.inject
    by (elim subst) (intro sat_add_mono sat_mul_mono order_refl q c)
qed

definition chunk_fits :: "governor_config \<Rightarrow> governor_state \<Rightarrow> (nat \<Rightarrow> nat) \<Rightarrow> nat \<Rightarrow> bool" where
  "chunk_fits c s estimate n =
     (sat_add (sat_add (sat_add (current_usage_bytes s) (reserved_bytes s)) (prefill_cache_growth_liability s)) (estimate n)
        \<le> f64_scale (effective_ceiling_bytes s) (prefill_headroom_ratio c))"

definition least_chunk :: "governor_config \<Rightarrow> nat \<Rightarrow> nat" where
  "least_chunk c requested = min requested (max (minimum_prefill_chunk_tokens c) 1)"

lemma chunk_fits_mono:
  assumes "\<And>n. estimate_prefill_peak_growth meta n kv b = Some (estimate n)" and "m \<le> n" and "chunk_fits c s estimate n"
  shows "chunk_fits c s estimate m"
  using assms(3) sat_add_mono [OF order_refl estimate_mono [OF assms(1) assms(1) assms(2)]]
  unfolding chunk_fits_def by (rule order_trans [rotated])

lemma select_chunk_spec:
  "select_prefill_chunk c s requested estimate =
     (if effective_ceiling_bytes s = 0 \<or> telemetry_degraded s then Inl GuardTelemetryUnavailable
      else if \<not> chunk_fits c s estimate (least_chunk c requested)
        then Inl (MinimumChunkUnsafe (least_chunk c requested)
          (sat_add (sat_add (sat_add (current_usage_bytes s) (reserved_bytes s)) (prefill_cache_growth_liability s)) (estimate (least_chunk c requested)))
          (f64_scale (effective_ceiling_bytes s) (prefill_headroom_ratio c)))
      else Inr (if chunk_fits c s estimate requested then requested
                else largest_safe_chunk (chunk_fits c s estimate) (least_chunk c requested) requested))"
  unfolding select_prefill_chunk_def Let_def chunk_fits_def [abs_def] least_chunk_def not_le by (rule refl)

lemma select_chunk_largest:
  assumes e: "\<And>n. estimate_prefill_peak_growth meta n kv b = Some (estimate n)"
    and s: "select_prefill_chunk c s requested estimate = Inr n"
  shows "least_chunk c requested \<le> n \<and> n \<le> requested \<and> chunk_fits c s estimate n
    \<and> (\<forall>m \<le> requested. n < m \<longrightarrow> \<not> chunk_fits c s estimate m)"
proof -
  have l: "least_chunk c requested \<le> requested" by (simp add: least_chunk_def)
  have ok: "chunk_fits c s estimate (least_chunk c requested)"
    and n: "n = (if chunk_fits c s estimate requested then requested
      else largest_safe_chunk (chunk_fits c s estimate) (least_chunk c requested) requested)"
    using s unfolding select_chunk_spec by (auto split: if_splits)
  show ?thesis
  proof (cases "chunk_fits c s estimate requested")
    case True
    then show ?thesis using n l by simp
  next
    case False
    then have n: "n = largest_safe_chunk (chunk_fits c s estimate) (least_chunk c requested) requested" using n by simp
    note r = largest_safe_chunk_spec [of _ _ "chunk_fits c s estimate", OF l ok, folded n]
    have "n < requested" using r False by (metis le_neq_implies_less)
    then have "\<not> chunk_fits c s estimate (n + 1)" using r by blast
    then have "\<not> chunk_fits c s estimate m" if "n < m" for m using chunk_fits_mono [OF e, of "n + 1" m] that by auto
    then show ?thesis using r by blast
  qed
qed

section \<open>The pressure level\<close>

definition observed :: "governor_config \<Rightarrow> telemetry \<Rightarrow> nat \<Rightarrow> pressure_level" where
  "observed c t reserved =
     (let current = (case usage_of t of Some u \<Rightarrow> u | None \<Rightarrow> 0);
          dyn = map_option (\<lambda>a. max (sat_add current a) 1) (available_ram c t);
          metal = (case metal_limit_bytes t of Some l \<Rightarrow> if l > 0 then Some l else None | None \<Rightarrow> None);
          eff = effective_ceiling (static_ceiling c t) dyn metal
      in classify_observed_pressure (sat_add current reserved) eff (f64_scale eff (soft_ratio c)) (f64_scale eff (hard_ratio c))
           (emergency_overage_bytes c) (usage_of t \<noteq> None))"

definition below_recovery :: "governor_config \<Rightarrow> telemetry \<Rightarrow> nat \<Rightarrow> bool" where
  "below_recovery c t reserved =
     (let current = (case usage_of t of Some u \<Rightarrow> u | None \<Rightarrow> 0);
          dyn = map_option (\<lambda>a. max (sat_add current a) 1) (available_ram c t);
          metal = (case metal_limit_bytes t of Some l \<Rightarrow> if l > 0 then Some l else None | None \<Rightarrow> None);
          eff = effective_ceiling (static_ceiling c t) dyn metal
      in sat_add current reserved \<le> f64_scale eff (recovery_ratio c))"

text \<open>The part of a sample that concerns the level.\<close>

lemma update_level:
  assumes "\<not> degraded t"
  shows "\<exists>watermark u. (u \<le> watermark \<longleftrightarrow> below_recovery (gov_config env) t (reserved_bytes s))
    \<and> (let a = advance_pressure_state (gov_config env) (observed (gov_config env) t (reserved_bytes s)) u watermark s; r = update env now t s
       in pressure r = pressure a \<and> candidate_level r = candidate_level a \<and> candidate_samples r = candidate_samples a
          \<and> recovery_samples r = recovery_samples a \<and> reserved_bytes r = reserved_bytes s \<and> last_sample_at r = Some now)"
proof -
  let ?c = "gov_config env"
  let ?current = "case usage_of t of Some u \<Rightarrow> u | None \<Rightarrow> 0"
  let ?dyn = "map_option (\<lambda>a. max (sat_add ?current a) 1) (available_ram ?c t)"
  let ?metal = "case metal_limit_bytes t of Some l \<Rightarrow> if l > 0 then Some l else None | None \<Rightarrow> None"
  let ?eff = "effective_ceiling (static_ceiling ?c t) ?dyn ?metal"
  let ?u = "sat_add ?current (reserved_bytes s)" and ?w = "f64_scale ?eff (recovery_ratio ?c)"
  have b: "?u \<le> ?w \<longleftrightarrow> below_recovery ?c t (reserved_bytes s)" unfolding below_recovery_def Let_def by (rule refl)
  have o': "classify_observed_pressure ?u ?eff (f64_scale ?eff (soft_ratio ?c)) (f64_scale ?eff (hard_ratio ?c))
      (emergency_overage_bytes ?c) (usage_of t \<noteq> None) = observed ?c t (reserved_bytes s)"
    unfolding observed_def Let_def by (rule refl)
  have "(let a = advance_pressure_state ?c (observed ?c t (reserved_bytes s)) ?u ?w s; r = update env now t s
       in pressure r = pressure a \<and> candidate_level r = candidate_level a \<and> candidate_samples r = candidate_samples a
          \<and> recovery_samples r = recovery_samples a \<and> reserved_bytes r = reserved_bytes s \<and> last_sample_at r = Some now)"
    unfolding update_def Let_def o' if_not_P [OF assms] by simp
  with b show ?thesis by blast
qed

lemma update_degraded:
  assumes "degraded t"
  shows "pressure (update env now t s) = (if pressure s = Normal then Soft else pressure s)"
    and "candidate_samples (update env now t s) = 0" and "recovery_samples (update env now t s) = 0"
  using assms by (simp_all add: update_def Let_def fail_safe_def)

lemma update_sampled: "last_sample_at (update env now t s) = Some now"
  by (simp add: update_def Let_def)

definition counts_ok :: "governor_env \<Rightarrow> governor_state \<times> reservation list \<Rightarrow> bool" where
  "counts_ok env st = (recovery_samples (fst st) < needed_recovery_samples (gov_config env) \<and> 0 < needed_recovery_samples (gov_config env))"

lemma advance_counts:
  assumes "0 < needed_recovery_samples c" and "recovery_samples s < needed_recovery_samples c"
  shows "recovery_samples (advance_pressure_state c ob cu re s) < needed_recovery_samples c"
  using assms by (simp add: advance_pressure_state_def Let_def not_le)

lemma update_counts:
  assumes "0 < needed_recovery_samples (gov_config env)" and "recovery_samples s < needed_recovery_samples (gov_config env)"
  shows "recovery_samples (update env now t s) < needed_recovery_samples (gov_config env)"
proof (cases "degraded t")
  case True
  then show ?thesis using update_degraded(3) assms by simp
next
  case False
  obtain u w where "recovery_samples (update env now t s)
      = recovery_samples (advance_pressure_state (gov_config env) (observed (gov_config env) t (reserved_bytes s)) u w s)"
    using update_level [OF False, of env s now] by (auto simp: Let_def)
  then show ?thesis using advance_counts [OF assms] by simp
qed

lemma snapshot_counts [simp]: "recovery_samples (snapshot env now s) = recovery_samples s"
  by (simp add: snapshot_def fail_safe_def)

lemma reserve_counts: "try_reserve_inner env now bytes kind s = (r, t) \<Longrightarrow> recovery_samples t = recovery_samples s"
  by (erule try_reserve_cases) (simp_all add: count_reservation_def split: reservation_kind.split)

lemma release_counts [simp]: "recovery_samples (release_reservation env r s) = recovery_samples s"
  by (simp add: release_reservation_def Let_def split: reservation_kind.split)

lemma step_counts: "counts_ok env st \<Longrightarrow> counts_ok env (governor_step env st op)"
proof -
  assume c: "counts_ok env st"
  obtain s rs where st: "st = (s, rs)" by fastforce
  show ?thesis
  proof (cases op)
    case (Reserve now bytes kind)
    obtain r t where e: "try_reserve_inner env now bytes kind s = (r, t)" by fastforce
    then show ?thesis using c st Reserve reserve_counts [OF e] by (cases r) (simp_all add: counts_ok_def)
  qed (use c st update_counts in \<open>auto simp: counts_ok_def sample_process_def split: option.split\<close>)
qed

interpretation governor_counts: invariant_machine "governor_step env" governor_op_ok "counts_ok env" for env
  by unfold_locales (rule step_counts)

text \<open>A calm sample: complete, nothing to worry about, and below the recovery watermark.\<close>

definition calm_sample :: "governor_config \<Rightarrow> nat \<Rightarrow> telemetry \<Rightarrow> bool" where
  "calm_sample c reserved t = (\<not> degraded t \<and> observed c t reserved = Normal \<and> below_recovery c t reserved)"

lemma rank_calmer [simp]: "rank (calmer l) = rank l - 1"
  by (cases l) simp_all

lemma calm_step:
  fixes env :: governor_env and s :: governor_state and t :: telemetry and now :: nat
  assumes c: "calm_sample (gov_config env) (reserved_bytes s) t" and n: "needed_recovery_samples (gov_config env) < 2 ^ 32"
    and k: "recovery_samples s < needed_recovery_samples (gov_config env)"
  defines "r \<equiv> update env now t s"
  shows "reserved_bytes r = reserved_bytes s"
    and "rank (pressure r) * needed_recovery_samples (gov_config env) - recovery_samples r
      \<le> rank (pressure s) * needed_recovery_samples (gov_config env) - recovery_samples s - 1"
    and "recovery_samples r < needed_recovery_samples (gov_config env)" and "rank (pressure r) \<le> rank (pressure s)"
proof -
  let ?c = "gov_config env" and ?n = "needed_recovery_samples (gov_config env)"
  have d: "\<not> degraded t" and o': "observed ?c t (reserved_bytes s) = Normal" and b: "below_recovery ?c t (reserved_bytes s)"
    using c by (simp_all add: calm_sample_def)
  obtain u w where w: "u \<le> w \<longleftrightarrow> below_recovery ?c t (reserved_bytes s)"
    and f: "pressure r = pressure (advance_pressure_state ?c (observed ?c t (reserved_bytes s)) u w s)"
      "recovery_samples r = recovery_samples (advance_pressure_state ?c (observed ?c t (reserved_bytes s)) u w s)"
      "reserved_bytes r = reserved_bytes s"
    using update_level [OF d, of env s now] unfolding r_def by (auto simp: Let_def)
  show "reserved_bytes r = reserved_bytes s" by (rule f(3))
  have cu: "count_u32 (recovery_samples s) = recovery_samples s + 1" using n k by (simp add: count_u32_def)
  have p: "pressure r = (if ?n \<le> recovery_samples s + 1 then calmer (pressure s) else pressure s)"
    and q: "recovery_samples r = (if ?n \<le> recovery_samples s + 1 then 0 else recovery_samples s + 1)"
    using w b unfolding f(1,2) o' by (simp_all add: advance_pressure_state_def Let_def cu)
  show "recovery_samples r < ?n" using k unfolding q by simp
  show "rank (pressure r) \<le> rank (pressure s)" unfolding p by simp
  show "rank (pressure r) * ?n - recovery_samples r \<le> rank (pressure s) * ?n - recovery_samples s - 1"
  proof (cases "?n \<le> recovery_samples s + 1")
    case True
    then have "?n = recovery_samples s + 1" using k by simp
    then show ?thesis unfolding p q by (cases "pressure s") simp_all
  next
    case False
    then show ?thesis unfolding p q by simp
  qed
qed

lemma calm_run:
  assumes "list_all (\<lambda>(now, t). calm_sample (gov_config env) (reserved_bytes s) t) ts" and "needed_recovery_samples (gov_config env) < 2 ^ 32"
    and "recovery_samples s < needed_recovery_samples (gov_config env)"
  shows "rank (pressure (foldl (\<lambda>s (now, t). update env now t s) s ts)) * needed_recovery_samples (gov_config env)
      - recovery_samples (foldl (\<lambda>s (now, t). update env now t s) s ts)
      \<le> rank (pressure s) * needed_recovery_samples (gov_config env) - recovery_samples s - length ts
    \<and> recovery_samples (foldl (\<lambda>s (now, t). update env now t s) s ts) < needed_recovery_samples (gov_config env)"
  using assms
proof (induction ts arbitrary: s)
  case (Cons x ts)
  obtain now t where x: "x = (now, t)" by fastforce
  have c: "calm_sample (gov_config env) (reserved_bytes s) t" using Cons.prems(1) x by simp
  note f = calm_step [OF c Cons.prems(2,3), of now]
  have "list_all (\<lambda>(now, t). calm_sample (gov_config env) (reserved_bytes (update env now' t' s)) t) ts" if "x = (now', t')" for now' t'
    using Cons.prems(1) f(1) x that by simp
  note g = Cons.IH [OF this [OF x] Cons.prems(2) f(3)]
  then show ?case using f(2) unfolding x foldl_Cons prod.case list.size by linarith
qed simp

end
