(* ===== verification/GovernorInstance.thy ===== *)
theory GovernorInstance
  imports GovernorPlan
begin

text \<open>
  The memory governor (\<open>ironmlx/src/core/process_memory.rs\<close>) on a small machine, evaluated on concrete samples and
  reservations.
\<close>

definition small_config :: governor_config where
  "small_config = \<lparr>static_reserve_bytes = 100, active_reclaim_ratio = Dyadic 1 1, soft_ratio = Dyadic 1 1, hard_ratio = Dyadic 3 2,
     prefill_headroom_ratio = Dyadic 1 1, recovery_ratio = Dyadic 1 2, promotion_samples = 2, needed_recovery_samples = 1,
     emergency_overage_bytes = 50, minimum_prefill_chunk_tokens = 2, poll_interval = 1, telemetry_stale_after = 10,
     mlx_cache_ratio = Dyadic 1 3, mlx_cache_min_bytes = 10, mlx_cache_cold_max_bytes = 50, mlx_cache_max_bytes = 100\<rparr>"

definition small_env :: governor_env where
  "small_env = \<lparr>gov_config = small_config, manage_mlx_cache = True, native_limit = 1000000\<rparr>"

definition small_start :: governor_state where
  "small_start = \<lparr>pressure = Normal, current_usage_bytes = 0, available_ram_bytes = None, reserved_bytes = 0,
           effective_ceiling_bytes = 0, static_ceiling_bytes = 0, dynamic_ceiling_bytes = None, metal_ceiling_bytes = None,
           soft_watermark_bytes = 0, hard_watermark_bytes = 0, mlx_cache_bytes = 0, mlx_cache_limit_bytes = 0,
           cold_materialization_reservations = 0, prefill_reservations = 0, prefill_cache_growth_reserved_bytes = 0,
           telemetry_degraded = True, sample_sequence = 0, candidate_level = Normal, candidate_samples = 0,
           recovery_samples = 0, last_sample_at = None, original_limit_bytes = None, applied_limit_bytes = 0\<rparr>"

definition usage_sample :: "nat \<Rightarrow> telemetry" where
  "usage_sample n = \<lparr>total_ram_bytes = 1124, phys_footprint_bytes = Some n,
     vm = Some \<lparr>free_bytes = 5000, vm_active_bytes = 0, inactive_bytes = 0, wired_bytes = 0\<rparr>,
     mlx_active_bytes = Some 0, mlx_cache_seen = Some 20, metal_limit_bytes = Some 4096\<rparr>"

lemma small_new: "governor_new True 1000000 small_config = Inr (small_env, small_start)"
  by (simp add: governor_new_def governor_config_validate_def small_config_def f64_zero_def f64_one_def small_env_def small_start_def)

lemma small_env_sel [simp]: "gov_config small_env = small_config" "manage_mlx_cache small_env" "native_limit small_env = 1000000"
  by (simp_all add: small_env_def)

text \<open>With usage below the recovery watermark a sample of this machine lowers the level by one.\<close>

lemma small_update:
  assumes "n + reserved_bytes s \<le> 256"
  shows "update small_env now (usage_sample n) s = apply_mlx_cache_budget small_env (s\<lparr>candidate_samples := 0, pressure := calmer (pressure s),
      recovery_samples := 0, current_usage_bytes := n, available_ram_bytes := Some 5000, effective_ceiling_bytes := 1024,
      static_ceiling_bytes := 1024, dynamic_ceiling_bytes := Some (n + 5000), metal_ceiling_bytes := Some 4096,
      soft_watermark_bytes := 512, hard_watermark_bytes := 768, mlx_cache_bytes := 20, telemetry_degraded := False,
      sample_sequence := wrap_add (sample_sequence s) 1, last_sample_at := Some now\<rparr>)"
proof -
  have a: "sat_add n (reserved_bytes s) = n + reserved_bytes s" "sat_add n 5000 = n + 5000" using assms by (simp_all add: sat_add_def u64_max_def)
  have "usage_of (usage_sample n) = Some n" "static_ceiling small_config (usage_sample n) = 1024"
    "available_ram small_config (usage_sample n) = Some 5000" "\<not> degraded (usage_sample n)" "metal_limit_bytes (usage_sample n) = Some 4096"
    "mlx_cache_seen (usage_sample n) = Some 20"
    by (simp_all add: usage_of_def usage_sample_def static_ceiling_def small_config_def available_ram_def degraded_def sat_add_def u64_max_def)
  then show ?thesis
    using assms unfolding update_def Let_def
    by (simp add: a effective_ceiling_def small_config_def classify_observed_pressure_def sat_add_def u64_max_def
        advance_pressure_state_def count_u32_def)
qed

lemma small_budget: "apply_mlx_cache_budget small_env s = s\<lparr>original_limit_bytes := Some (case original_limit_bytes s of Some l \<Rightarrow> l | None \<Rightarrow> 1000000),
    applied_limit_bytes := min (desired_cache_limit small_config s) (case original_limit_bytes s of Some l \<Rightarrow> l | None \<Rightarrow> 1000000),
    mlx_cache_limit_bytes := min (desired_cache_limit small_config s) (case original_limit_bytes s of Some l \<Rightarrow> l | None \<Rightarrow> 1000000)\<rparr>"
  by (simp add: apply_mlx_cache_budget_def apply_limit_def Let_def split: option.split)

lemma small_desired:
  assumes "effective_ceiling_bytes s = 1024" and "mlx_cache_bytes s = 20" and "pressure s = Normal" and "\<not> telemetry_degraded s"
    and "cold_materialization_reservations s = 0" and "current_usage_bytes s + reserved_bytes s \<le> 400"
  shows "desired_cache_limit small_config s = (if 0 < prefill_reservations s then min 100 (sat_add 20 (prefill_cache_growth_reserved_bytes s)) else 100)"
proof -
  have "100 \<le> 512 - (current_usage_bytes s - 20 + reserved_bytes s)" using assms(6) by linarith
  then show ?thesis using assms by (simp add: desired_cache_limit_def small_config_def Let_def clamp_def u64_max_def min_def)
qed

text \<open>The machine after a sample of usage 100 at time 5, with so many bytes reserved.\<close>

definition small_state :: "nat \<Rightarrow> nat \<Rightarrow> nat \<Rightarrow> governor_state" where
  "small_state res prefills growth = \<lparr>pressure = Normal, current_usage_bytes = 100, available_ram_bytes = Some 5000, reserved_bytes = res,
     effective_ceiling_bytes = 1024, static_ceiling_bytes = 1024, dynamic_ceiling_bytes = Some 5100, metal_ceiling_bytes = Some 4096,
     soft_watermark_bytes = 512, hard_watermark_bytes = 768, mlx_cache_bytes = 20, mlx_cache_limit_bytes = 100,
     cold_materialization_reservations = 0, prefill_reservations = prefills, prefill_cache_growth_reserved_bytes = growth,
     telemetry_degraded = False, sample_sequence = 1, candidate_level = Normal, candidate_samples = 0,
     recovery_samples = 0, last_sample_at = Some 5, original_limit_bytes = Some 1000000, applied_limit_bytes = 100\<rparr>"

definition small_ops :: "governor_op list" where
  "small_ops = [Sample 5 (usage_sample 100), Reserve 6 60 Prefill, Reserve 7 30 General]"

definition small_held :: "reservation list" where
  "small_held = [\<lparr>res_bytes = 140, res_liability = 80, res_kind = Prefill\<rparr>, \<lparr>res_bytes = 30, res_liability = 0, res_kind = General\<rparr>]"

lemma small_sampled: "update small_env 5 (usage_sample 100) small_start = small_state 0 0 0"
proof -
  have "reserved_bytes small_start = 0" by (simp add: small_start_def)
  then have u: "100 + reserved_bytes small_start \<le> 256" by simp
  show ?thesis unfolding small_update [OF u] small_budget
    by (simp add: small_desired small_start_def small_state_def wrap_add_def)
qed

lemma small_stale: "telemetry_stale small_env now s = (case last_sample_at s of None \<Rightarrow> True | Some sampled \<Rightarrow> 10 < now - sampled)"
  by (simp add: telemetry_stale_def small_config_def split: option.split)

lemma small_fresh: "now \<le> 15 \<Longrightarrow> snapshot small_env now (small_state a b c) = small_state a b c"
  by (simp add: snapshot_def small_stale small_state_def)

lemma small_target: "f64_scale 1024 (prefill_headroom_ratio small_config) = 512"
  by (simp add: small_config_def u64_max_def)

lemma small_prefill: "try_reserve_inner small_env 6 60 Prefill (small_state 0 0 0)
    = (Inr \<lparr>res_bytes = 140, res_liability = 80, res_kind = Prefill\<rparr>, small_state 140 1 80)"
proof -
  have "desired_cache_limit small_config (count_reservation Prefill 80 (small_state 0 0 0\<lparr>reserved_bytes := 140\<rparr>)) = 100"
    by (subst small_desired) (simp_all add: small_state_def count_reservation_def sat_add_def u64_max_def)
  then show ?thesis unfolding try_reserve_inner_def small_fresh [of 6, simplified] Let_def small_budget
    by (simp add: small_stale small_state_def small_target prefill_cache_growth_liability_def sat_add_def u64_max_def count_reservation_def)
qed

lemma small_general: "try_reserve_inner small_env 7 30 General (small_state 140 1 80)
    = (Inr \<lparr>res_bytes = 30, res_liability = 0, res_kind = General\<rparr>, small_state 170 1 80)"
proof -
  have "desired_cache_limit small_config (count_reservation General 0 (small_state 140 1 80\<lparr>reserved_bytes := 170\<rparr>)) = 100"
    by (subst small_desired) (simp_all add: small_state_def count_reservation_def sat_add_def u64_max_def)
  then show ?thesis unfolding try_reserve_inner_def small_fresh [of 7, simplified] Let_def small_budget
    by (simp add: small_stale small_state_def small_target prefill_cache_growth_liability_def sat_add_def u64_max_def count_reservation_def)
qed

lemma small_sample: "sample_process small_env 5 (usage_sample 100) small_start = small_state 0 0 0"
  using small_sampled by (simp add: sample_process_def small_start_def)

lemma small_ok: "run_ok (governor_step small_env) governor_op_ok (small_start, []) small_ops"
  by (simp add: small_ops_def small_sample small_prefill) (simp add: usage_sample_def u64_max_def)

lemma small_run: "run_ops (governor_step small_env) (small_start, []) small_ops = (small_state 170 1 80, small_held)"
  by (simp add: small_ops_def small_sample small_prefill small_general [simplified] small_held_def)

lemma small_observed:
  assumes "n \<le> 5000"
  shows "observed small_config (usage_sample n) r = classify_observed_pressure (sat_add n r) 1024 512 768 50 True"
    and "below_recovery small_config (usage_sample n) r \<longleftrightarrow> sat_add n r \<le> 256" and "\<not> degraded (usage_sample n)"
proof -
  have "usage_of (usage_sample n) = Some n" "static_ceiling small_config (usage_sample n) = 1024"
    "available_ram small_config (usage_sample n) = Some 5000" "metal_limit_bytes (usage_sample n) = Some 4096" "sat_add n 5000 = n + 5000"
    using assms by (simp_all add: usage_of_def usage_sample_def static_ceiling_def small_config_def available_ram_def sat_add_def u64_max_def)
  then show "observed small_config (usage_sample n) r = classify_observed_pressure (sat_add n r) 1024 512 768 50 True"
    and "below_recovery small_config (usage_sample n) r \<longleftrightarrow> sat_add n r \<le> 256"
    unfolding observed_def below_recovery_def Let_def by (simp_all add: effective_ceiling_def small_config_def u64_max_def)
  show "\<not> degraded (usage_sample n)" by (simp add: degraded_def usage_sample_def)
qed

definition tiny_meta :: model_meta where
  "tiny_meta = \<lparr>num_hidden_layers = 1, num_attention_heads = 1, num_key_value_heads = 1, hidden_size = 2, head_dim = Some 2,
     weight_bytes = 0, max_position_embeddings = 100, spatial_merge_size = 1\<rparr>"

definition tiny_estimate :: "nat \<Rightarrow> nat" where
  "tiny_estimate n = (case estimate_prefill_peak_growth tiny_meta n 0 1 of Some b \<Rightarrow> b | None \<Rightarrow> 0)"

lemma tiny_estimate: "estimate_prefill_peak_growth tiny_meta n 0 1 = Some (tiny_estimate n)"
  by (simp add: tiny_estimate_def estimate_prefill_peak_growth_def Let_def kv_bytes_per_token_def effective_head_dim_def tiny_meta_def)

lemma tiny_kv: "kv_bytes_per_token tiny_meta = Some 8"
  by (simp add: kv_bytes_per_token_def effective_head_dim_def tiny_meta_def usize_mul_def i32_as_usize_def)

lemma tiny_heads: "num_attention_heads tiny_meta = 1" "hidden_size tiny_meta = 2"
  by (simp_all add: tiny_meta_def)

lemma tiny_estimate_exact:
  assumes "1 < n" and "n \<le> 100"
  shows "tiny_estimate n = 8 * n + 4 * (n * n) + 4 * n"
proof -
  have m: "n * n \<le> 100 * 100" using mult_mono [OF assms(2,2)] by simp
  show ?thesis
    using assms m unfolding tiny_estimate_def estimate_prefill_peak_growth_def Let_def tiny_kv tiny_heads
    by (simp add: sat_add_exact sat_mul_def u64_max_def max_def)
qed

lemma tiny_estimate_values: "tiny_estimate 2 = 40" "tiny_estimate 7 = 280" "tiny_estimate 8 = 352"
  by (simp_all add: tiny_estimate_exact)

lemma small_fits: "chunk_fits small_config (small_state 0 0 0) tiny_estimate n \<longleftrightarrow> sat_add 180 (tiny_estimate n) \<le> 512"
  unfolding chunk_fits_def by (simp add: small_state_def small_target prefill_cache_growth_liability_def sat_add_def u64_max_def)

end
