(* ===== verification/GovernorProperties.thy ===== *)
theory GovernorProperties
  imports GovernorInstance
begin

text \<open>
  What \<open>ProcessMemoryGovernor\<close> (\<open>ironmlx/src/core/process_memory.rs\<close>) promises the schedulers, for every sequence of
  samples, reservations and releases, at any clock readings.
\<close>

lemma governor_run:
  assumes "governor_new manage native c = Inr (env, s0)" and "run_ok (governor_step env) governor_op_ok (s0, []) ops"
    and "(s, rs) = run_ops (governor_step env) (s0, []) ops"
  shows "governor_inv env (s, rs)" and "gov_config env = c"
  using governor.run_inv [OF governor_new_inv(1) [OF assms(1)] assms(2)] assms(3) governor_new_inv(2) [OF assms(1)] by simp_all

lemma governor_invD:
  assumes "governor_inv env (s, rs)"
  shows "accounted s rs" and "ceilings_ok s" and "governor_config_validate (gov_config env) = Inr (gov_config env)"
    and "mlx_cache_limit_bytes s \<le> desired_cache_limit (gov_config env) s"
  using assms by (simp_all add: governor_inv_def)

section \<open>Accounting\<close>

text \<open>
  C9: after any operations the reserved bytes are those of the reservations that have not been dropped, plus one
  allowance for the growth of the allocator's cache while prefills run; the counters count them exactly; and
  when the last reservation is dropped nothing stays reserved.
\<close>

theorem reservations_are_accounted:
  assumes "governor_new manage native c = Inr (env, s0)" and "run_ok (governor_step env) governor_op_ok (s0, []) ops"
    and "(s, rs) = run_ops (governor_step env) (s0, []) ops"
  shows "reserved_bytes s = sum_list (map (\<lambda>r. res_bytes r - res_liability r) rs) + prefill_cache_growth_reserved_bytes s
    \<and> prefill_reservations s = length (filter (\<lambda>r. res_kind r = Prefill) rs)
    \<and> cold_materialization_reservations s = length (filter (\<lambda>r. res_kind r = ColdMaterialization) rs)
    \<and> (filter (\<lambda>r. res_kind r = Prefill) rs = [] \<longrightarrow> prefill_cache_growth_reserved_bytes s = 0)
    \<and> (rs = [] \<longrightarrow> reserved_bytes s = 0)"
  using governor_invD(1) [OF governor_run(1) [OF assms]] by (auto simp: accounted_def held_def [abs_def])

theorem reservations_are_accounted_witness:
  "reserved_bytes (small_state 170 1 80) = 60 + 30 + 80 \<and> prefill_reservations (small_state 170 1 80) = 1"
  using reservations_are_accounted [OF small_new small_ok small_run [symmetric]] by (simp add: small_held_def small_state_def)

section \<open>Safety\<close>

text \<open>
  C8: a reservation is granted only on fresh and complete telemetry, below the hard level, and when the current
  usage, all outstanding reservations and the new one together stay below the headroom target, which is at most
  every ceiling. It covers the bytes asked for.
\<close>

theorem granted_reservation_fits:
  assumes "governor_new manage native c = Inr (env, s0)" and "run_ok (governor_step env) governor_op_ok (s0, []) ops"
    and "(s, rs) = run_ops (governor_step env) (s0, []) ops"
    and "try_reserve_inner env now bytes kind s = (Inr r, t)" and "length rs < u64_max"
  shows "\<not> telemetry_stale env now s \<and> \<not> telemetry_degraded s \<and> rank (pressure s) < rank Hard \<and> bytes \<le> res_bytes r
    \<and> current_usage_bytes s + (sum_list (map (\<lambda>r. res_bytes r - res_liability r) rs) + prefill_cache_growth_reserved_bytes s) + res_bytes r
        \<le> f64_scale (effective_ceiling_bytes s) (prefill_headroom_ratio c)
    \<and> f64_scale (effective_ceiling_bytes s) (prefill_headroom_ratio c) \<le> effective_ceiling_bytes s
    \<and> effective_ceiling_bytes s \<le> static_ceiling_bytes s
    \<and> (\<forall>d. dynamic_ceiling_bytes s = Some d \<longrightarrow> effective_ceiling_bytes s \<le> d)
    \<and> (\<forall>m. metal_ceiling_bytes s = Some m \<longrightarrow> effective_ceiling_bytes s \<le> m)"
proof -
  note g = governor_run [OF assms(1-3)]
  note i = governor_invD [OF g(1)]
  have "\<not> telemetry_stale env now s \<and> \<not> telemetry_degraded s \<and> rank (pressure s) < rank Hard"
    using assms(4) by (rule try_reserve_cases) simp_all
  moreover have "reserved_bytes s = sum_list (map (\<lambda>r. res_bytes r - res_liability r) rs) + prefill_cache_growth_reserved_bytes s"
    using i(1) by (simp add: accounted_def held_def [abs_def])
  ultimately show ?thesis
    using reserve_inv(2,3) [OF g(1) assms(4,5)] headroom_le_ceiling [OF i(3,2)] i(2) g(2) by (simp add: ceilings_ok_def)
qed

theorem granted_reservation_fits_witness:
  "\<exists>r t. try_reserve_inner small_env 7 30 General (small_state 140 1 80) = (Inr r, t) \<and> 100 + (60 + 80) + res_bytes r \<le> 512"
proof -
  have o: "run_ok (governor_step small_env) governor_op_ok (small_start, []) [Sample 5 (usage_sample 100), Reserve 6 60 Prefill]"
    using small_ok by (simp add: small_ops_def)
  have r: "(small_state 140 1 80, [\<lparr>res_bytes = 140, res_liability = 80, res_kind = Prefill\<rparr>])
      = run_ops (governor_step small_env) (small_start, []) [Sample 5 (usage_sample 100), Reserve 6 60 Prefill]"
    by (simp add: small_sample small_prefill)
  show ?thesis using granted_reservation_fits [OF small_new o r small_general] small_general
    by (simp add: small_state_def small_target u64_max_def)
qed

text \<open>
  The cap on the allocator's cache never endangers what has been promised: whenever the cap is not zero the
  telemetry is complete, the level below hard, and the process would stay below the headroom target even with
  the cache grown to its cap and every outstanding reservation used in full.
\<close>

theorem cache_cap_fits:
  assumes "governor_new manage native c = Inr (env, s0)" and "run_ok (governor_step env) governor_op_ok (s0, []) ops"
    and "(s, rs) = run_ops (governor_step env) (s0, []) ops" and "0 < mlx_cache_limit_bytes s"
  shows "current_usage_bytes s - mlx_cache_bytes s + mlx_cache_limit_bytes s
        + (sum_list (map (\<lambda>r. res_bytes r - res_liability r) rs) + prefill_cache_growth_reserved_bytes s)
      \<le> f64_scale (effective_ceiling_bytes s) (prefill_headroom_ratio c)
    \<and> \<not> telemetry_degraded s \<and> rank (pressure s) < rank Hard"
proof -
  note g = governor_run [OF assms(1-3)]
  note i = governor_invD [OF g(1)]
  have d: "0 < desired_cache_limit (gov_config env) s" using i(4) assms(4) by simp
  show ?thesis using desired_fits [OF d] i(1,4) g(2) by (simp add: accounted_def held_def [abs_def])
qed

theorem cache_cap_fits_witness: "100 - 20 + 100 + (60 + 30 + 80) \<le> (512 :: nat) \<and> \<not> telemetry_degraded (small_state 170 1 80)"
  using cache_cap_fits [OF small_new small_ok small_run [symmetric]] by (simp add: small_state_def small_target small_held_def)

section \<open>Recovery and the debounce\<close>

text \<open>
  C11: whatever has happened before, three times \<open>recovery_samples\<close> calm samples in a row bring the level back to
  normal, and admission is open again as long as the last of them is fresh.
\<close>

theorem pressure_recovers:
  assumes "governor_new manage native c = Inr (env, s0)" and "run_ok (governor_step env) governor_op_ok (s0, []) ops"
    and "(s, rs) = run_ops (governor_step env) (s0, []) ops" and "needed_recovery_samples c < 2 ^ 32"
    and "list_all (\<lambda>(now, t). calm_sample c (reserved_bytes s) t) (ts @ [(now, t)])" and "3 * needed_recovery_samples c \<le> length ts + 1"
    and "now' - now \<le> telemetry_stale_after c"
  shows "pressure (foldl (\<lambda>s (now, t). update env now t s) s (ts @ [(now, t)])) = Normal
    \<and> \<not> fst (admission_paused env now' (foldl (\<lambda>s (now, t). update env now t s) s (ts @ [(now, t)])))"
proof -
  note g = governor_run [OF assms(1-3)]
  note c = g(2)
  let ?r = "foldl (\<lambda>s (now, t). update env now t s) s (ts @ [(now, t)])"
  have "0 < needed_recovery_samples c" using governor_invD(3) [OF g(1)] unfolding c governor_config_validate_def by (auto split: if_splits)
  moreover have "recovery_samples s0 = 0" using assms(1) by (auto simp: governor_new_def split: sum.splits)
  ultimately have "counts_ok env (s0, [])" using c by (simp add: counts_ok_def)
  from governor_counts.run_inv [OF this assms(2)] have "counts_ok env (s, rs)" unfolding assms(3) .
  then have k: "recovery_samples s < needed_recovery_samples (gov_config env)" by (simp add: counts_ok_def)
  have "rank (pressure ?r) * needed_recovery_samples c - recovery_samples ?r
      \<le> rank (pressure s) * needed_recovery_samples c - recovery_samples s - length (ts @ [(now, t)])
    \<and> recovery_samples ?r < needed_recovery_samples c"
    using calm_run [of env s "ts @ [(now, t)]"] assms(4,5) k unfolding c by blast
  moreover have "rank (pressure s) * needed_recovery_samples c \<le> 3 * needed_recovery_samples c" by (cases "pressure s") simp_all
  ultimately have "rank (pressure ?r) * needed_recovery_samples c < 1 * needed_recovery_samples c"
    using assms(6) unfolding length_append list.size by linarith
  then have "rank (pressure ?r) = 0" unfolding mult_less_cancel2 by simp
  then have n: "pressure ?r = Normal" by (cases "pressure ?r") simp_all
  moreover have "\<not> telemetry_stale env now' ?r" using assms(7) c by (simp add: telemetry_stale_def update_sampled)
  ultimately show ?thesis by (simp add: admission_paused_def snapshot_def)
qed

theorem pressure_recovers_witness:
  "pressure (foldl (\<lambda>s (now, t). update small_env now t s) (small_state 170 1 80)
     ([(6, usage_sample 50), (7, usage_sample 60)] @ [(8, usage_sample 20)])) = Normal"
proof -
  have "list_all (\<lambda>(now, t). calm_sample small_config (reserved_bytes (small_state 170 1 80)) t)
      ([(6, usage_sample 50), (7, usage_sample 60)] @ [(8, usage_sample 20)])"
    by (simp add: calm_sample_def small_observed classify_observed_pressure_def sat_add_def u64_max_def small_state_def)
  from pressure_recovers [OF small_new small_ok small_run [symmetric] _ this, of 9] show ?thesis
    by (simp add: small_config_def)
qed

lemma alternating_step:
  assumes "\<not> degraded t" and "observed (gov_config env) t (reserved_bytes s) \<in> {Soft, Hard}" and "pressure s = Normal"
    and "2 \<le> promotion_samples (gov_config env)"
    and "candidate_samples s = 0 \<or> candidate_samples s = 1 \<and> candidate_level s \<noteq> observed (gov_config env) t (reserved_bytes s)"
  shows "pressure (update env now t s) = Normal" and "reserved_bytes (update env now t s) = reserved_bytes s"
    and "candidate_samples (update env now t s) = 1" and "candidate_level (update env now t s) = observed (gov_config env) t (reserved_bytes s)"
proof -
  obtain u w where
    "pressure (update env now t s) = pressure (advance_pressure_state (gov_config env) (observed (gov_config env) t (reserved_bytes s)) u w s)"
    "candidate_samples (update env now t s)
      = candidate_samples (advance_pressure_state (gov_config env) (observed (gov_config env) t (reserved_bytes s)) u w s)"
    "candidate_level (update env now t s)
      = candidate_level (advance_pressure_state (gov_config env) (observed (gov_config env) t (reserved_bytes s)) u w s)"
    "reserved_bytes (update env now t s) = reserved_bytes s"
    using update_level [OF assms(1), of env s now] by (auto simp: Let_def)
  then show "pressure (update env now t s) = Normal" and "reserved_bytes (update env now t s) = reserved_bytes s"
    and "candidate_samples (update env now t s) = 1" and "candidate_level (update env now t s) = observed (gov_config env) t (reserved_bytes s)"
    using assms(2-5) by (auto simp: advance_pressure_state_def Let_def count_u32_def)
qed

lemma alternating_run:
  assumes "list_all (\<lambda>(now, t). \<not> degraded t \<and> observed (gov_config env) t (reserved_bytes s) \<in> {Soft, Hard}) ts"
    and "successively (\<lambda>(now, t) (now', t'). observed (gov_config env) t (reserved_bytes s) \<noteq> observed (gov_config env) t' (reserved_bytes s)) ts"
    and "pressure s = Normal" and "2 \<le> promotion_samples (gov_config env)"
    and "candidate_samples s = 0 \<or> candidate_samples s = 1
      \<and> (ts \<noteq> [] \<longrightarrow> candidate_level s \<noteq> observed (gov_config env) (snd (hd ts)) (reserved_bytes s))"
  shows "pressure (foldl (\<lambda>s (now, t). update env now t s) s ts) = Normal"
  using assms
proof (induction ts arbitrary: s)
  case (Cons x ts)
  obtain now t where x: "x = (now, t)" by fastforce
  have "\<not> degraded t" "observed (gov_config env) t (reserved_bytes s) \<in> {Soft, Hard}"
    and c: "candidate_samples s = 0 \<or> candidate_samples s = 1 \<and> candidate_level s \<noteq> observed (gov_config env) t (reserved_bytes s)"
    using Cons.prems(1,5) x by auto
  note f = alternating_step [OF this(1,2) Cons.prems(3,4) c, of now]
  have "ts \<noteq> [] \<longrightarrow> candidate_level (update env now t s) \<noteq> observed (gov_config env) (snd (hd ts)) (reserved_bytes s)"
    using Cons.prems(2) f(4) x by (cases ts) (auto split: prod.splits)
  moreover have "successively (\<lambda>(now, t) (now', t'). observed (gov_config env) t (reserved_bytes s) \<noteq> observed (gov_config env) t' (reserved_bytes s)) ts"
    using Cons.prems(2) by (cases ts) auto
  ultimately show ?case using Cons.IH [of "update env now t s"] Cons.prems(1,4) f x by simp
qed simp

text \<open>
  C13: the debounce counts only samples of one and the same level: while complete samples alternate between soft and
  hard, with two or more \<open>promotion_samples\<close>, the level stays normal for ever, although every sample is above
  the soft watermark; reservations and admission go on as if nothing had happened.
\<close>

theorem alternating_pressure_never_promotes:
  assumes "governor_new manage native c = Inr (env, s0)" and "2 \<le> promotion_samples c"
    and "list_all (\<lambda>(now, t). \<not> degraded t \<and> observed c t 0 \<in> {Soft, Hard}) ts"
    and "successively (\<lambda>(now, t) (now', t'). observed c t 0 \<noteq> observed c t' 0) ts"
  shows "pressure (foldl (\<lambda>s (now, t). update env now t s) s0 ts) = Normal"
proof -
  have s: "pressure s0 = Normal" "candidate_samples s0 = 0" "reserved_bytes s0 = 0"
    using assms(1) by (auto simp: governor_new_def split: sum.splits)
  show ?thesis
    by (rule alternating_run) (use assms s governor_new_inv(2) [OF assms(1)] in \<open>simp_all\<close>)
qed

theorem alternating_pressure_never_promotes_witness:
  "pressure (foldl (\<lambda>s (now, t). update small_env now t s) small_start
     [(1, usage_sample 600), (2, usage_sample 800), (3, usage_sample 600), (4, usage_sample 1000)]) = Normal"
  by (rule alternating_pressure_never_promotes [OF small_new])
    (simp_all add: small_observed classify_observed_pressure_def sat_add_def u64_max_def, simp add: small_config_def)

section \<open>Prefill chunks\<close>

lemma sat_add_swap: "sat_add a (sat_add b c) = sat_add (sat_add a c) b"
  by (auto simp: sat_add_def min_def)

lemma reserve_projected:
  assumes "kind = Prefill"
  shows "sat_add (sat_add (current_usage_bytes s) (reserved_bytes s))
      (sat_add b (if kind = Prefill \<and> prefill_reservations s = 0 then prefill_cache_growth_liability s else 0))
    = sat_add (sat_add (sat_add (current_usage_bytes s) (reserved_bytes s)) (prefill_cache_growth_liability s)) b"
  using assms unfolding sat_add_swap by (simp add: prefill_cache_growth_liability_def)

lemma prefill_reservation_granted:
  "isl (fst (try_reserve_inner env now (estimate n) Prefill s)) \<longleftrightarrow>
     \<not> (\<not> telemetry_stale env now s \<and> \<not> telemetry_degraded s \<and> effective_ceiling_bytes s \<noteq> 0 \<and> rank (pressure s) < rank Hard
        \<and> chunk_fits (gov_config env) s estimate n)"
proof (cases "telemetry_stale env now s")
  case True
  then show ?thesis by (simp add: try_reserve_inner_def Let_def)
next
  case False
  then have e: "snapshot env now s = s" by (simp add: snapshot_def)
  show ?thesis using False unfolding try_reserve_inner_def e Let_def reserve_projected [OF refl] chunk_fits_def
    by (simp add: not_le)
qed

text \<open>
  C10: a plan takes the largest chunk whose modeled peak fits under the headroom target together with current usage,
  reservations and the allowance for the allocator's cache; it is never below the configured minimum nor above the
  request. Undisturbed, planning succeeds exactly on fresh, complete telemetry below the hard level when the
  minimum chunk fits.
\<close>

theorem plan_takes_largest_chunk:
  assumes e: "\<And>n. estimate_prefill_peak_growth meta n kv batch = Some (estimate n)"
  shows "(\<forall>meanwhile now' p t. plan_prefill_chunk env now now' meanwhile requested estimate s = (Inr p, t) \<longrightarrow>
      least_chunk (gov_config env) requested \<le> plan_selected p \<and> plan_selected p \<le> requested
      \<and> chunk_fits (gov_config env) s estimate (plan_selected p)
      \<and> (\<forall>n \<le> requested. plan_selected p < n \<longrightarrow> \<not> chunk_fits (gov_config env) s estimate n))
    \<and> ((\<exists>p t. plan_prefill_chunk env now now id requested estimate s = (Inr p, t)) \<longleftrightarrow>
      0 < requested \<and> \<not> telemetry_stale env now s \<and> \<not> telemetry_degraded s \<and> effective_ceiling_bytes s \<noteq> 0
      \<and> rank (pressure s) < rank Hard \<and> chunk_fits (gov_config env) s estimate (least_chunk (gov_config env) requested))"
proof (cases "telemetry_stale env now s")
  case True
  then have "telemetry_degraded (snapshot env now s)" by (simp add: snapshot_def)
  then have "select_prefill_chunk (gov_config env) (snapshot env now s) requested estimate = Inl GuardTelemetryUnavailable"
    by (simp add: select_prefill_chunk_def)
  then show ?thesis using True by (simp add: plan_prefill_chunk_def Let_def)
next
  case False
  then have n: "snapshot env now s = s" by (simp add: snapshot_def)
  have "least_chunk (gov_config env) requested \<le> plan_selected p \<and> plan_selected p \<le> requested
      \<and> chunk_fits (gov_config env) s estimate (plan_selected p)
      \<and> (\<forall>n \<le> requested. plan_selected p < n \<longrightarrow> \<not> chunk_fits (gov_config env) s estimate n)"
    if "plan_prefill_chunk env now now' meanwhile requested estimate s = (Inr p, t)" for meanwhile now' p t
  proof -
    have "select_prefill_chunk (gov_config env) s requested estimate = Inr (plan_selected p)"
      using that unfolding plan_prefill_chunk_def n Let_def by (auto split: if_splits sum.splits prod.splits)
    then show ?thesis by (rule select_chunk_largest [OF e])
  qed
  moreover have "(\<exists>p t. plan_prefill_chunk env now now id requested estimate s = (Inr p, t)) \<longleftrightarrow>
      0 < requested \<and> \<not> telemetry_degraded s \<and> effective_ceiling_bytes s \<noteq> 0
      \<and> rank (pressure s) < rank Hard \<and> chunk_fits (gov_config env) s estimate (least_chunk (gov_config env) requested)"
  proof (cases "select_prefill_chunk (gov_config env) s requested estimate")
    case (Inl x)
    then have "\<not> (\<not> telemetry_degraded s \<and> effective_ceiling_bytes s \<noteq> 0
      \<and> chunk_fits (gov_config env) s estimate (least_chunk (gov_config env) requested))"
      unfolding select_chunk_spec by (auto split: if_splits)
    then show ?thesis using Inl unfolding plan_prefill_chunk_def n Let_def by auto
  next
    case (Inr m)
    have "\<not> telemetry_degraded s \<and> effective_ceiling_bytes s \<noteq> 0 \<and> chunk_fits (gov_config env) s estimate (least_chunk (gov_config env) requested)"
      using Inr unfolding select_chunk_spec by (auto split: if_splits)
    moreover have "chunk_fits (gov_config env) s estimate m" using select_chunk_largest [OF e Inr] by blast
    moreover have "(\<exists>p t. plan_prefill_chunk env now now id requested estimate s = (Inr p, t))
        \<longleftrightarrow> 0 < requested \<and> \<not> isl (fst (try_reserve_inner env now (estimate m) Prefill s))"
      unfolding plan_prefill_chunk_def n Let_def Inr by (auto split: sum.split prod.split)
    ultimately show ?thesis using False unfolding prefill_reservation_granted by blast
  qed
  ultimately show ?thesis using False by blast
qed

theorem plan_takes_largest_chunk_witness:
  "\<exists>p t. plan_prefill_chunk small_env 6 6 id 20 tiny_estimate (small_state 0 0 0) = (Inr p, t) \<and> plan_selected p = 7"
proof -
  note w = plan_takes_largest_chunk [OF tiny_estimate, where env = small_env and requested = 20 and s = "small_state 0 0 0" and now = 6, unfolded small_env_sel]
  have l: "least_chunk small_config 20 = 2" by (simp add: least_chunk_def small_config_def)
  have f: "chunk_fits small_config (small_state 0 0 0) tiny_estimate 2" "chunk_fits small_config (small_state 0 0 0) tiny_estimate 7"
    "\<not> chunk_fits small_config (small_state 0 0 0) tiny_estimate 8"
    by (simp_all add: small_fits tiny_estimate_values sat_add_def u64_max_def)
  have "\<exists>p t. plan_prefill_chunk small_env 6 6 id 20 tiny_estimate (small_state 0 0 0) = (Inr p, t)"
    using w [THEN conjunct2] f(1) unfolding l by (simp add: small_stale small_state_def)
  then obtain p t where p: "plan_prefill_chunk small_env 6 6 id 20 tiny_estimate (small_state 0 0 0) = (Inr p, t)" by blast
  have q: "chunk_fits small_config (small_state 0 0 0) tiny_estimate (plan_selected p)"
    "\<forall>n \<le> 20. plan_selected p < n \<longrightarrow> \<not> chunk_fits small_config (small_state 0 0 0) tiny_estimate n"
    using w [THEN conjunct1] p by blast+
  have "\<not> plan_selected p < 7" using q(2) f(2) by auto
  moreover have "\<not> 8 \<le> plan_selected p" using chunk_fits_mono [OF tiny_estimate _ q(1)] f(3) by blast
  ultimately show ?thesis using p by (intro exI conjI) auto
qed

end
