(* ===== verification/ColdMaterialization.thy ===== *)
theory ColdMaterialization
  imports GovernorInv
begin

text \<open>
  \<open>ironmlx/src/core/process_memory.rs\<close>, \<open>ColdMaterializationTracker\<close> and its guard: the first use of a model's text,
  vision or speculative weights makes them part of the process; one thread at a time may warm a component, and only
  with a reservation for its bytes.

  The tracker and the governor have a lock each, and \<open>begin\<close>, \<open>commit\<close> and the drop of a guard take them one after
  the other. The machine has one operation per critical section, so that other threads may come in between:
  \<open>Claim\<close>, then one or two of \<open>Attempt\<close>, then \<open>Close\<close>, then \<open>Finish\<close>; everything else that happens to the governor,
  the samples these functions take included, is \<open>Govern\<close>. Waiting on the condition variable is a \<open>Claim\<close> that changes
  nothing.
\<close>

section \<open>Components\<close>

record static_estimate =
  text_cold_bytes :: nat
  vision_cold_bytes :: nat
  speculative_cold_bytes :: nat

definition total_cold_bytes :: "static_estimate \<Rightarrow> nat" where
  "total_cold_bytes est = sat_add (sat_add (text_cold_bytes est) (vision_cold_bytes est)) (speculative_cold_bytes est)"

record components =
  on_text :: bool
  on_vision :: bool
  on_speculative :: bool

definition for_request :: "bool \<Rightarrow> bool \<Rightarrow> components" where
  "for_request vision speculative = \<lparr>on_text = True, on_vision = vision, on_speculative = speculative\<rparr>"

datatype warmth = Cold | Warming | Warm

record component_states =
  text_state :: warmth
  vision_state :: warmth
  speculative_state :: warmth

definition all_cold :: component_states where
  "all_cold = \<lparr>text_state = Cold, vision_state = Cold, speculative_state = Cold\<rparr>"

datatype model_component = Text | Vision | Speculative

fun component_state :: "model_component \<Rightarrow> component_states \<Rightarrow> warmth" where
  "component_state Text st = text_state st"
| "component_state Vision st = vision_state st"
| "component_state Speculative st = speculative_state st"

definition any_warming :: "components \<Rightarrow> component_states \<Rightarrow> bool" where
  "any_warming c st = (on_text c \<and> text_state st = Warming \<or> on_vision c \<and> vision_state st = Warming
     \<or> on_speculative c \<and> speculative_state st = Warming)"

definition cold_subset :: "components \<Rightarrow> component_states \<Rightarrow> static_estimate \<Rightarrow> components" where
  "cold_subset c st est =
     \<lparr>on_text = (on_text c \<and> text_cold_bytes est > 0 \<and> text_state st = Cold),
      on_vision = (on_vision c \<and> vision_cold_bytes est > 0 \<and> vision_state st = Cold),
      on_speculative = (on_speculative c \<and> speculative_cold_bytes est > 0 \<and> speculative_state st = Cold)\<rparr>"

definition mark :: "components \<Rightarrow> warmth \<Rightarrow> component_states \<Rightarrow> component_states" where
  "mark c w st =
     \<lparr>text_state = (if on_text c then w else text_state st),
      vision_state = (if on_vision c then w else vision_state st),
      speculative_state = (if on_speculative c then w else speculative_state st)\<rparr>"

definition component_bytes :: "components \<Rightarrow> static_estimate \<Rightarrow> nat" where
  "component_bytes c est =
     sat_add (sat_add (sat_mul (if on_text c then 1 else 0) (text_cold_bytes est))
       (sat_mul (if on_vision c then 1 else 0) (vision_cold_bytes est)))
       (sat_mul (if on_speculative c then 1 else 0) (speculative_cold_bytes est))"

section \<open>Guards\<close>

text \<open>
  A claim is a thread between the start of \<open>begin\<close> and the end of \<open>commit\<close> or of the drop: it owns components, and is
  before its first or second try to reserve, holds a guard, or has given the reservation back to mark its components
  warm (\<open>True\<close>) or cold (\<open>False\<close>).
\<close>

datatype claim_phase = Claimed | Retrying | Guarded "reservation option" | Settled bool

record claim =
  owned :: components
  claim_phase :: claim_phase

record cold_system =
  component_warmth :: component_states
  governor_of :: governor_state
  other_reservations :: "reservation list"
  claims :: "claim list"

definition claim_components :: "static_estimate \<Rightarrow> components \<Rightarrow> cold_system \<Rightarrow> cold_system" where
  "claim_components est c s =
     (if any_warming c (component_warmth s) then s
      else
        let own = cold_subset c (component_warmth s) est
        in s\<lparr>component_warmth := mark own Warming (component_warmth s),
             claims := claims s @ [\<lparr>owned = own, claim_phase = (if component_bytes own est = 0 then Guarded None else Claimed)\<rparr>]\<rparr>)"

definition attempt_claim :: "governor_env \<Rightarrow> static_estimate \<Rightarrow> nat \<Rightarrow> nat \<Rightarrow> cold_system \<Rightarrow> cold_system" where
  "attempt_claim env est i now s =
     (let cl = claims s ! i in
      case try_reserve_inner env now (component_bytes (owned cl) est) ColdMaterialization (governor_of s) of
        (Inr r, g) \<Rightarrow> s\<lparr>governor_of := g, claims := (claims s)[i := cl\<lparr>claim_phase := Guarded (Some r)\<rparr>]\<rparr>
      | (Inl e, g) \<Rightarrow> s\<lparr>governor_of := g, claims := (claims s)[i := cl\<lparr>claim_phase :=
            (if claim_phase cl = Claimed then Retrying else Settled False)\<rparr>]\<rparr>)"

definition close_guard :: "governor_env \<Rightarrow> nat \<Rightarrow> bool \<Rightarrow> reservation option \<Rightarrow> cold_system \<Rightarrow> cold_system" where
  "close_guard env i committed r s =
     (let g = (case r of Some r \<Rightarrow> release_reservation env r (governor_of s) | None \<Rightarrow> governor_of s)
      in s\<lparr>governor_of := g, claims := (claims s)[i := (claims s ! i)\<lparr>claim_phase := Settled committed\<rparr>]\<rparr>)"

definition finish_claim :: "nat \<Rightarrow> bool \<Rightarrow> cold_system \<Rightarrow> cold_system" where
  "finish_claim i committed s =
     s\<lparr>component_warmth := mark (owned (claims s ! i)) (if committed then Warm else Cold) (component_warmth s),
       claims := take i (claims s) @ drop (Suc i) (claims s)\<rparr>"

datatype cold_op = Govern governor_op | Claim components | Attempt nat nat | Close nat bool | Finish nat

fun cold_step :: "governor_env \<Rightarrow> static_estimate \<Rightarrow> cold_system \<Rightarrow> cold_op \<Rightarrow> cold_system" where
  "cold_step env est s (Govern op) =
     (let (g, rs) = governor_step env (governor_of s, other_reservations s) op in s\<lparr>governor_of := g, other_reservations := rs\<rparr>)"
| "cold_step env est s (Claim c) = claim_components est c s"
| "cold_step env est s (Attempt i now) =
     (if i < length (claims s) \<and> claim_phase (claims s ! i) \<in> {Claimed, Retrying} then attempt_claim env est i now s else s)"
| "cold_step env est s (Close i committed) =
     (if i < length (claims s)
      then case claim_phase (claims s ! i) of Guarded r \<Rightarrow> close_guard env i committed r s | _ \<Rightarrow> s
      else s)"
| "cold_step env est s (Finish i) =
     (if i < length (claims s)
      then case claim_phase (claims s ! i) of Settled committed \<Rightarrow> finish_claim i committed s | _ \<Rightarrow> s
      else s)"

text \<open>Only \<open>begin\<close> makes cold reservations.\<close>

fun cold_op_ok :: "cold_system \<Rightarrow> cold_op \<Rightarrow> bool" where
  "cold_op_ok s (Govern op) = (governor_op_ok (governor_of s, other_reservations s) op
     \<and> (\<forall>now bytes kind. op = Reserve now bytes kind \<longrightarrow> kind \<noteq> ColdMaterialization
          \<and> length (other_reservations s) + length (claims s) < u64_max))"
| "cold_op_ok s (Attempt i now) = (length (other_reservations s) + length (claims s) < u64_max)"
| "cold_op_ok s _ = True"

definition cold_start :: "governor_state \<Rightarrow> cold_system" where
  "cold_start g = \<lparr>component_warmth = all_cold, governor_of = g, other_reservations = [], claims = []\<rparr>"

section \<open>Lemmas about components\<close>

fun owns :: "model_component \<Rightarrow> components \<Rightarrow> bool" where
  "owns Text c = on_text c"
| "owns Vision c = on_vision c"
| "owns Speculative c = on_speculative c"

fun cold_bytes_of :: "model_component \<Rightarrow> static_estimate \<Rightarrow> nat" where
  "cold_bytes_of Text est = text_cold_bytes est"
| "cold_bytes_of Vision est = vision_cold_bytes est"
| "cold_bytes_of Speculative est = speculative_cold_bytes est"

lemma ex_component: "(\<exists>x. P x) \<longleftrightarrow> P Text \<or> P Vision \<or> P Speculative"
  by (metis model_component.exhaust)

lemma component_state_mark [simp]: "component_state x (mark c w st) = (if owns x c then w else component_state x st)"
  by (cases x) (simp_all add: mark_def)

lemma component_state_all_cold [simp]: "component_state x all_cold = Cold"
  by (cases x) (simp_all add: all_cold_def)

lemma any_warming_iff: "any_warming c st \<longleftrightarrow> (\<exists>x. owns x c \<and> component_state x st = Warming)"
  by (simp add: ex_component any_warming_def)

lemma owns_cold_subset [simp]: "owns x (cold_subset c st est) \<longleftrightarrow> owns x c \<and> 0 < cold_bytes_of x est \<and> component_state x st = Cold"
  by (cases x) (simp_all add: cold_subset_def)

lemma component_bytes_pos: "owns x c \<Longrightarrow> 0 < cold_bytes_of x est \<Longrightarrow> 0 < component_bytes c est"
  by (cases x) (auto simp: component_bytes_def sat_add_def sat_mul_def u64_max_def)

end
