(* ===== verification/ColdProperties.thy ===== *)
theory ColdProperties
  imports ColdMaterialization GovernorInstance
begin

text \<open>
  First use of weights (\<open>ironmlx/src/core/process_memory.rs\<close>): the invariant of tracker and governor together, and what
  it means for the threads that warm a model.
\<close>

section \<open>The invariant\<close>

fun claim_reservations :: "claim_phase \<Rightarrow> reservation list" where
  "claim_reservations (Guarded (Some r)) = [r]"
| "claim_reservations _ = []"

abbreviation held_by_claims :: "claim list \<Rightarrow> reservation list" where
  "held_by_claims cs \<equiv> concat (map (\<lambda>cl. claim_reservations (claim_phase cl)) cs)"

abbreviation owners :: "model_component \<Rightarrow> claim list \<Rightarrow> claim list" where
  "owners x cs \<equiv> filter (\<lambda>cl. owns x (owned cl)) cs"

definition claim_ok :: "static_estimate \<Rightarrow> claim \<Rightarrow> bool" where
  "claim_ok est cl = ((\<forall>x. owns x (owned cl) \<longrightarrow> 0 < cold_bytes_of x est)
     \<and> (case claim_phase cl of
          Guarded None \<Rightarrow> component_bytes (owned cl) est = 0
        | Guarded (Some r) \<Rightarrow> res_kind r = ColdMaterialization \<and> res_bytes r = component_bytes (owned cl) est
        | _ \<Rightarrow> True))"

definition cold_inv :: "governor_env \<Rightarrow> static_estimate \<Rightarrow> cold_system \<Rightarrow> bool" where
  "cold_inv env est s = (governor_inv env (governor_of s, other_reservations s @ held_by_claims (claims s))
     \<and> list_all (claim_ok est) (claims s) \<and> list_all (\<lambda>r. res_kind r \<noteq> ColdMaterialization) (other_reservations s)
     \<and> (\<forall>x. length (owners x (claims s)) = (if component_state x (component_warmth s) = Warming then 1 else 0)))"

lemma accounted_mset:
  assumes "mset rs = mset rs'"
  shows "accounted s rs = accounted s rs'"
proof -
  have "sum_list (map held rs) = sum_list (map held rs')" by (metis assms mset_map sum_mset_sum_list)
  moreover have "length (filter P rs) = length (filter P rs')" for P by (metis assms mset_filter size_mset)
  moreover have "set rs = set rs'" by (rule mset_eq_setD [OF assms])
  ultimately show ?thesis by (simp add: accounted_def list_all_iff)
qed

lemma governor_inv_mset: "mset rs = mset rs' \<Longrightarrow> governor_inv env (s, rs) = governor_inv env (s, rs')"
  using accounted_mset [of rs rs' s] by (simp add: governor_inv_def)

lemma owners_update:
  assumes "i < length cs" and "owned c = owned (cs ! i)"
  shows "length (owners x (cs[i := c])) = length (owners x cs)"
proof -
  have "map owned (cs[i := c]) = map owned cs" using assms by (simp add: map_update list_update_same_conv)
  moreover have "length (owners x ds) = length (filter (owns x) (map owned ds))" for ds by (simp add: filter_map o_def)
  ultimately show ?thesis by metis
qed

lemma held_update:
  assumes "i < length cs"
  shows "mset (held_by_claims (cs[i := c])) = mset (held_by_claims (take i cs @ drop (Suc i) cs)) + mset (claim_reservations (claim_phase c))"
  using assms by (simp add: upd_conv_take_nth_drop)

lemma held_nth:
  assumes "i < length cs"
  shows "mset (held_by_claims cs) = mset (held_by_claims (take i cs @ drop (Suc i) cs)) + mset (claim_reservations (claim_phase (cs ! i)))"
  using held_update [OF assms, of "cs ! i"] by simp

lemma held_length: "length (held_by_claims cs) \<le> length cs"
proof (induction cs)
  case (Cons c cs)
  have "length (claim_reservations p) \<le> 1" for p by (cases p rule: claim_reservations.cases) simp_all
  from this [of "claim_phase c"] Cons show ?case by simp
qed simp

section \<open>Every step keeps it\<close>

lemma govern_keeps:
  assumes i: "cold_inv env est s" and o: "cold_op_ok s (Govern op)"
  shows "cold_inv env est (cold_step env est s (Govern op))"
proof -
  let ?g = "governor_of s" and ?rs = "other_reservations s" and ?h = "held_by_claims (claims s)"
  have gi: "governor_inv env (?g, ?rs @ ?h)" and k: "list_all (\<lambda>r. res_kind r \<noteq> ColdMaterialization) ?rs"
    using i by (simp_all add: cold_inv_def)
  obtain g rs where e: "governor_step env (?g, ?rs) op = (g, rs)" by fastforce
  have "governor_inv env (g, rs @ ?h) \<and> list_all (\<lambda>r. res_kind r \<noteq> ColdMaterialization) rs"
  proof (cases op)
    case (Reserve now bytes kind)
    obtain x t where t: "try_reserve_inner env now bytes kind ?g = (x, t)" by fastforce
    have l: "length (?rs @ ?h) < u64_max" using o Reserve held_length [of "claims s"] by simp
    show ?thesis
    proof (cases x)
      case (Inl y)
      then have "t = snapshot env now ?g" using t by (auto elim: try_reserve_cases)
      then show ?thesis using e k Reserve t Inl snapshot_inv [OF gi, of now] by simp
    next
      case (Inr r)
      have "res_kind r = kind" using t [unfolded Inr] by (rule try_reserve_cases) simp_all
      moreover have "governor_inv env (t, (?rs @ [r]) @ ?h)"
        using reserve_inv(1) [OF gi t [unfolded Inr] l] governor_inv_mset [of "(?rs @ ?h) @ [r]" "(?rs @ [r]) @ ?h" env t] by simp
      ultimately show ?thesis using e k Reserve t Inr o by auto
    qed
  next
    case (Release n)
    show ?thesis
    proof (cases "n < length ?rs")
      case True
      then have "governor_inv env (release_reservation env (?rs ! n) ?g, take n ?rs @ drop (Suc n) ?rs @ ?h)"
        using release_inv [OF gi, of n] by (simp add: nth_append)
      moreover have "list_all (\<lambda>r. res_kind r \<noteq> ColdMaterialization) (take n ?rs @ drop (Suc n) ?rs)"
        using k by (auto simp: list_all_iff dest: in_set_takeD in_set_dropD)
      ultimately show ?thesis using True e Release by auto
    next
      case False
      then show ?thesis using e Release gi k by simp
    qed
  next
    case (Sample now t)
    then show ?thesis using governor_step_inv [OF gi, of "Sample now t"] o e k by auto
  next
    case (Refresh now t)
    then show ?thesis using governor_step_inv [OF gi, of "Refresh now t"] o e k by auto
  next
    case (Peek now)
    then show ?thesis using governor_step_inv [OF gi, of "Peek now"] e k by auto
  qed
  then show ?thesis using i e by (simp add: cold_inv_def)
qed

lemma claim_keeps:
  assumes i: "cold_inv env est s"
  shows "cold_inv env est (cold_step env est s (Claim c))"
proof (cases "any_warming c (component_warmth s)")
  case True
  then show ?thesis using i by (simp add: claim_components_def)
next
  case False
  let ?st = "component_warmth s"
  let ?own = "cold_subset c ?st est"
  let ?cl = "\<lparr>owned = ?own, claim_phase = (if component_bytes ?own est = 0 then Guarded None else Claimed)\<rparr>"
  have e: "cold_step env est s (Claim c) = s\<lparr>component_warmth := mark ?own Warming ?st, claims := claims s @ [?cl]\<rparr>"
    using False by (simp add: claim_components_def Let_def)
  have "claim_ok est ?cl" by (simp add: claim_ok_def)
  moreover have "length (owners x (claims s @ [?cl])) = (if component_state x (mark ?own Warming ?st) = Warming then 1 else 0)" for x
    using i by (simp add: cold_inv_def)
  ultimately show ?thesis unfolding e using i by (simp add: cold_inv_def)
qed

lemma phase_keeps:
  assumes i: "cold_inv env est s" and n: "n < length (claims s)" and c: "owned cl = owned (claims s ! n)" and k: "claim_ok est cl"
    and g: "governor_inv env (g, (other_reservations s @ held_by_claims (take n (claims s) @ drop (Suc n) (claims s)))
      @ claim_reservations (claim_phase cl))"
  shows "cold_inv env est (s\<lparr>governor_of := g, claims := (claims s)[n := cl]\<rparr>)"
proof -
  have "mset (other_reservations s @ held_by_claims ((claims s)[n := cl]))
      = mset ((other_reservations s @ held_by_claims (take n (claims s) @ drop (Suc n) (claims s))) @ claim_reservations (claim_phase cl))"
    using held_update [OF n, of cl] by simp
  from governor_inv_mset [OF this] g have "governor_inv env (g, other_reservations s @ held_by_claims ((claims s)[n := cl]))" by blast
  moreover have "list_all (claim_ok est) ((claims s)[n := cl])"
    using i k set_update_subset_insert [of "claims s" n cl] by (auto simp: cold_inv_def list_all_iff)
  ultimately show ?thesis using i owners_update [of n "claims s" cl, OF n c] by (simp add: cold_inv_def)
qed

lemma rest_inv:
  assumes "cold_inv env est s" and "n < length (claims s)"
  shows "governor_inv env (governor_of s, (other_reservations s @ held_by_claims (take n (claims s) @ drop (Suc n) (claims s)))
      @ claim_reservations (claim_phase (claims s ! n)))"
proof -
  have "mset (other_reservations s @ held_by_claims (claims s))
      = mset ((other_reservations s @ held_by_claims (take n (claims s) @ drop (Suc n) (claims s))) @ claim_reservations (claim_phase (claims s ! n)))"
    using held_nth [OF assms(2)] by simp
  from governor_inv_mset [OF this] show ?thesis using assms(1) by (simp only: cold_inv_def)
qed

lemma attempt_keeps:
  assumes i: "cold_inv env est s" and o: "cold_op_ok s (Attempt n now)"
  shows "cold_inv env est (cold_step env est s (Attempt n now))"
proof (cases "n < length (claims s) \<and> claim_phase (claims s ! n) \<in> {Claimed, Retrying}")
  case True
  let ?cl = "claims s ! n" and ?rs = "other_reservations s @ held_by_claims (take n (claims s) @ drop (Suc n) (claims s))"
  have n: "n < length (claims s)" and p: "claim_reservations (claim_phase ?cl) = []" using True by auto
  have gi: "governor_inv env (governor_of s, ?rs)" using rest_inv [OF i n] unfolding p by simp
  have ok: "claim_ok est ?cl" using i n by (simp add: cold_inv_def list_all_length)
  have w: "\<And>x. owns x (owned ?cl) \<longrightarrow> 0 < cold_bytes_of x est" using ok by (simp add: claim_ok_def)
  obtain r g where t: "try_reserve_inner env now (component_bytes (owned ?cl) est) ColdMaterialization (governor_of s) = (r, g)" by fastforce
  have l: "length ?rs < u64_max" using o held_length [of "take n (claims s) @ drop (Suc n) (claims s)"] n by simp
  show ?thesis
  proof (cases r)
    case (Inl e)
    let ?new = "?cl\<lparr>claim_phase := (if claim_phase ?cl = Claimed then Retrying else Settled False)\<rparr>"
    have "g = snapshot env now (governor_of s)" using t Inl by (auto elim: try_reserve_cases)
    then have "governor_inv env (g, ?rs @ claim_reservations (claim_phase ?new))" using snapshot_inv [OF gi] by simp
    moreover have "claim_ok est ?new" using w by (simp add: claim_ok_def)
    ultimately have "cold_inv env est (s\<lparr>governor_of := g, claims := (claims s)[n := ?new]\<rparr>)" by (intro phase_keeps i n) simp_all
    then show ?thesis using True t Inl by (simp add: attempt_claim_def Let_def)
  next
    case (Inr x)
    let ?new = "?cl\<lparr>claim_phase := Guarded (Some x)\<rparr>"
    have "governor_inv env (g, ?rs @ claim_reservations (claim_phase ?new))" using reserve_inv(1) [OF gi t [unfolded Inr] l] by simp
    moreover have "res_kind x = ColdMaterialization \<and> res_liability x = 0" using t [unfolded Inr] by (rule try_reserve_cases) auto
    then have "claim_ok est ?new" using w reserve_inv(3) [OF gi t [unfolded Inr] l] by (simp add: claim_ok_def)
    ultimately have "cold_inv env est (s\<lparr>governor_of := g, claims := (claims s)[n := ?new]\<rparr>)" by (intro phase_keeps i n) simp_all
    then show ?thesis using True t Inr by (simp add: attempt_claim_def Let_def)
  qed
qed (use i in auto)

lemma close_keeps:
  assumes i: "cold_inv env est s"
  shows "cold_inv env est (cold_step env est s (Close n committed))"
proof (cases "n < length (claims s) \<and> (\<exists>r. claim_phase (claims s ! n) = Guarded r)")
  case True
  then obtain r where n: "n < length (claims s)" and p: "claim_phase (claims s ! n) = Guarded r" by blast
  let ?cl = "claims s ! n" and ?rs = "other_reservations s @ held_by_claims (take n (claims s) @ drop (Suc n) (claims s))"
  let ?new = "?cl\<lparr>claim_phase := Settled committed\<rparr>"
  let ?g = "case r of Some r \<Rightarrow> release_reservation env r (governor_of s) | None \<Rightarrow> governor_of s"
  have gi: "governor_inv env (governor_of s, ?rs @ claim_reservations (Guarded r))" using rest_inv [OF i n] unfolding p .
  have "governor_inv env (?g, ?rs)"
  proof (cases r)
    case (Some x)
    then show ?thesis using release_inv [of env "governor_of s" "?rs @ [x]" "length ?rs"] gi by simp
  qed (use gi in simp)
  moreover have "claim_ok est ?new" using i n by (simp add: cold_inv_def list_all_length claim_ok_def)
  ultimately have "cold_inv env est (s\<lparr>governor_of := ?g, claims := (claims s)[n := ?new]\<rparr>)" by (intro phase_keeps i n) simp_all
  then show ?thesis using n p by (simp add: close_guard_def Let_def)
qed (use i in \<open>auto split: claim_phase.split\<close>)

lemma finish_keeps:
  assumes i: "cold_inv env est s"
  shows "cold_inv env est (cold_step env est s (Finish n))"
proof (cases "n < length (claims s) \<and> (\<exists>b. claim_phase (claims s ! n) = Settled b)")
  case True
  then obtain b where n: "n < length (claims s)" and p: "claim_phase (claims s ! n) = Settled b" by blast
  let ?cl = "claims s ! n" and ?cs = "take n (claims s) @ drop (Suc n) (claims s)"
  have g: "governor_inv env (governor_of s, other_reservations s @ held_by_claims ?cs)" using rest_inv [OF i n] unfolding p by simp
  have k: "list_all (claim_ok est) ?cs" using i by (auto simp: cold_inv_def list_all_iff dest: in_set_takeD in_set_dropD)
  have "length (owners x (claims s)) = length (owners x ?cs) + (if owns x (owned ?cl) then 1 else 0)" for x
    by (subst id_take_nth_drop [OF n]) simp
  then have "length (owners x ?cs) = (if component_state x (mark (owned ?cl) (if b then Warm else Cold) (component_warmth s)) = Warming then 1 else 0)" for x
    using i by (auto simp: cold_inv_def split: if_splits)
  then show ?thesis using n p i g k by (simp add: cold_inv_def finish_claim_def)
qed (use i in \<open>auto split: claim_phase.split\<close>)

lemma cold_step_inv: "cold_inv env est s \<Longrightarrow> cold_op_ok s op \<Longrightarrow> cold_inv env est (cold_step env est s op)"
  by (cases op) (simp_all only: govern_keeps claim_keeps attempt_keeps close_keeps finish_keeps)

interpretation cold: invariant_machine "cold_step env est" cold_op_ok "cold_inv env est" for env est
  by unfold_locales (rule cold_step_inv)

lemma cold_start_inv:
  assumes "governor_new manage native c = Inr (env, g)"
  shows "cold_inv env est (cold_start g)"
  using governor_new_inv(1) [OF assms] by (simp add: cold_inv_def cold_start_def)

lemma cold_run:
  assumes "governor_new manage native c = Inr (env, g)" and "run_ok (cold_step env est) cold_op_ok (cold_start g) ops"
  shows "cold_inv env est (run_ops (cold_step env est) (cold_start g) ops)"
  by (rule cold.run_inv [OF cold_start_inv [OF assms(1)] assms(2)])

lemma no_owner:
  assumes "cold_inv env est s" and "component_state x (component_warmth s) \<noteq> Warming"
  shows "owners x (claims s) = []"
proof -
  have "length (owners x (claims s)) = (if component_state x (component_warmth s) = Warming then 1 else 0)" using assms(1) by (simp add: cold_inv_def)
  then show ?thesis using assms(2) by simp
qed

lemma warm_step:
  assumes i: "cold_inv env est s" and w: "component_state x (component_warmth s) = Warm"
  shows "component_state x (component_warmth (cold_step env est s op)) = Warm"
proof -
  have n: "owners x (claims s) = []" using no_owner [OF i] w by simp
  show ?thesis
  proof (cases op)
    case (Govern g)
    then show ?thesis using w by (simp split: prod.split)
  next
    case (Claim c)
    then show ?thesis using w by (simp add: claim_components_def Let_def)
  next
    case (Attempt k now)
    then show ?thesis using w by (simp add: attempt_claim_def Let_def split: prod.split sum.split)
  next
    case (Close k b)
    then show ?thesis using w by (simp add: close_guard_def Let_def split: claim_phase.split)
  next
    case (Finish k)
    have "\<not> owns x (owned (claims s ! k))" if "k < length (claims s)" using n that by (auto simp: filter_empty_conv)
    then show ?thesis using w Finish by (simp add: finish_claim_def split: claim_phase.split)
  qed
qed

lemma attempt_outcome:
  assumes "claims s = cs @ [\<lparr>owned = own, claim_phase = p\<rparr>]"
  obtains "p \<notin> {Claimed, Retrying}" and "cold_step env est s (Attempt (length cs) now) = s"
  | g r where "cold_step env est s (Attempt (length cs) now) = s\<lparr>governor_of := g, claims := cs @ [\<lparr>owned = own, claim_phase = Guarded (Some r)\<rparr>]\<rparr>"
  | "p \<in> {Claimed, Retrying}" and "cold_step env est s (Attempt (length cs) now) = s\<lparr>governor_of := snapshot env now (governor_of s),
      claims := cs @ [\<lparr>owned = own, claim_phase = (if p = Claimed then Retrying else Settled False)\<rparr>]\<rparr>"
proof (cases "p \<in> {Claimed, Retrying}")
  case True
  obtain r g where t: "try_reserve_inner env now (component_bytes own est) ColdMaterialization (governor_of s) = (r, g)" by fastforce
  have e: "cold_step env est s (Attempt (length cs) now) = attempt_claim env est (length cs) now s" using True assms by simp
  show thesis
  proof (cases r)
    case (Inl x)
    then have "g = snapshot env now (governor_of s)" using t by (auto elim: try_reserve_cases)
    then show thesis using that(3) [OF True] e t Inl assms by (simp add: attempt_claim_def Let_def)
  next
    case (Inr x)
    then have "cold_step env est s (Attempt (length cs) now)
        = s\<lparr>governor_of := g, claims := cs @ [\<lparr>owned = own, claim_phase = Guarded (Some x)\<rparr>]\<rparr>"
      using e t assms by (simp add: attempt_claim_def Let_def)
    then show thesis by (rule that(2))
  qed
next
  case False
  then show thesis using that(1) assms by simp
qed

lemma claim_held: "claim_ok est cl \<Longrightarrow> r \<in> set (claim_reservations (claim_phase cl)) \<Longrightarrow> res_kind r = ColdMaterialization"
  by (cases "claim_phase cl" rule: claim_reservations.cases) (auto simp: claim_ok_def)

lemma reserved_by_guards:
  assumes "cold_inv env est s"
  shows "cold_materialization_reservations (governor_of s) = length (held_by_claims (claims s))"
    and "sum_list (map res_bytes (held_by_claims (claims s))) \<le> reserved_bytes (governor_of s)"
proof -
  let ?h = "held_by_claims (claims s)"
  have a: "accounted (governor_of s) (other_reservations s @ ?h)" and o: "list_all (\<lambda>r. res_kind r \<noteq> ColdMaterialization) (other_reservations s)"
    using assms by (simp_all add: cold_inv_def governor_inv_def)
  have c: "list_all (\<lambda>r. res_kind r = ColdMaterialization) ?h"
    using assms claim_held by (auto simp: cold_inv_def list_all_iff)
  then have f: "filter (\<lambda>r. res_kind r = ColdMaterialization) ?h = ?h" by (simp add: filter_id_conv list_all_iff)
  have "filter (\<lambda>r. res_kind r = ColdMaterialization) (other_reservations s) = []" using o by (simp add: filter_empty_conv list_all_iff)
  then show "cold_materialization_reservations (governor_of s) = length ?h" using a f by (simp add: accounted_def)
  have "res_liability r = 0" if "r \<in> set ?h" for r using a c that unfolding accounted_def list_all_iff by fastforce
  then have h: "map held ?h = map res_bytes ?h" by (intro map_cong refl) (simp add: held_def)
  from a have "sum_list (map held ?h) \<le> reserved_bytes (governor_of s)" by (simp add: accounted_def)
  then show "sum_list (map res_bytes ?h) \<le> reserved_bytes (governor_of s)" unfolding h .
qed

section \<open>What the threads may rely on\<close>

text \<open>
  C14: a component is warming exactly while one thread owns it, and never do two; a guard that owns a component holds a
  reservation of exactly the bytes of what it owns; the governor counts the guards that hold one, and has their
  bytes reserved.
\<close>

theorem one_warming_owner:
  assumes "governor_new manage native c = Inr (env, g)" and "run_ok (cold_step env est) cold_op_ok (cold_start g) ops"
    and "s = run_ops (cold_step env est) (cold_start g) ops"
  shows "(\<forall>x. (component_state x (component_warmth s) = Warming) = (\<exists>cl \<in> set (claims s). owns x (owned cl)))
    \<and> (\<forall>x. length (filter (\<lambda>cl. owns x (owned cl)) (claims s)) \<le> 1)
    \<and> (\<forall>cl \<in> set (claims s). case claim_phase cl of
         Guarded None \<Rightarrow> \<forall>x. \<not> owns x (owned cl)
       | Guarded (Some r) \<Rightarrow> res_bytes r = component_bytes (owned cl) est
       | _ \<Rightarrow> True)
    \<and> cold_materialization_reservations (governor_of s) = length (held_by_claims (claims s))
    \<and> sum_list (map res_bytes (held_by_claims (claims s))) \<le> reserved_bytes (governor_of s)"
proof -
  have i: "cold_inv env est s" unfolding assms(3) by (rule cold_run [OF assms(1,2)])
  then have l: "length (owners x (claims s)) = (if component_state x (component_warmth s) = Warming then 1 else 0)" for x
    by (simp add: cold_inv_def)
  have "(component_state x (component_warmth s) = Warming) = (\<exists>cl \<in> set (claims s). owns x (owned cl))" for x
    using l [of x] by (cases "owners x (claims s)") (auto simp: filter_empty_conv dest: filter_eq_ConsD split: if_splits)
  moreover have "length (owners x (claims s)) \<le> 1" for x using l [of x] by simp
  moreover have "case claim_phase cl of Guarded None \<Rightarrow> \<forall>x. \<not> owns x (owned cl)
       | Guarded (Some r) \<Rightarrow> res_bytes r = component_bytes (owned cl) est | _ \<Rightarrow> True" if "cl \<in> set (claims s)" for cl
  proof -
    have "claim_ok est cl" using i that by (simp add: cold_inv_def list_all_iff)
    then show ?thesis using component_bytes_pos [of _ "owned cl" est] by (fastforce simp: claim_ok_def split: claim_phase.splits option.splits)
  qed
  ultimately show ?thesis using reserved_by_guards [OF i] by blast
qed

definition text_only :: static_estimate where
  "text_only = \<lparr>text_cold_bytes = 50, vision_cold_bytes = 0, speculative_cold_bytes = 0\<rparr>"

lemma text_only_claim: "claim_components text_only (for_request False False) (cold_start g)
    = (cold_start g)\<lparr>component_warmth := \<lparr>text_state = Warming, vision_state = Cold, speculative_state = Cold\<rparr>,
        claims := [\<lparr>owned = \<lparr>on_text = True, on_vision = False, on_speculative = False\<rparr>, claim_phase = Claimed\<rparr>]\<rparr>"
  by (simp add: claim_components_def text_only_def for_request_def cold_start_def all_cold_def any_warming_def cold_subset_def mark_def
      component_bytes_def sat_add_def sat_mul_def u64_max_def)

theorem one_warming_owner_witness:
  "\<exists>cl \<in> set (claims (run_ops (cold_step small_env text_only) (cold_start small_start)
     [Claim (for_request False False), Claim (for_request False False)])). owns Text (owned cl)"
proof -
  let ?ops = "[Claim (for_request False False), Claim (for_request False False)]"
  let ?s = "run_ops (cold_step small_env text_only) (cold_start small_start) ?ops"
  have "component_state Text (component_warmth ?s) = Warming"
    by (simp add: text_only_claim) (simp add: claim_components_def for_request_def any_warming_def)
  moreover have "run_ok (cold_step small_env text_only) cold_op_ok (cold_start small_start) ?ops" by simp
  ultimately show ?thesis using one_warming_owner [OF small_new, of text_only ?ops ?s] by blast
qed

text \<open>C15: a component that has become warm stays warm whatever happens later, and no thread ever claims it again.\<close>

theorem materialized_once:
  assumes "governor_new manage native c = Inr (env, g)" and "run_ok (cold_step env est) cold_op_ok (cold_start g) (ops @ later)"
    and "component_state x (component_warmth (run_ops (cold_step env est) (cold_start g) ops)) = Warm"
    and "s = run_ops (cold_step env est) (cold_start g) (ops @ later)"
  shows "component_state x (component_warmth s) = Warm \<and> (\<forall>cl \<in> set (claims s). \<not> owns x (owned cl))"
proof -
  have "component_state x (component_warmth s) = Warm"
    using assms(2) unfolding assms(4)
  proof (induction later rule: rev_induct)
    case Nil
    then show ?case using assms(3) by simp
  next
    case (snoc op later)
    have "run_ok (cold_step env est) cold_op_ok (cold_start g) (ops @ later)" using snoc.prems by (simp add: run_ok_append)
    from warm_step [OF cold_run [OF assms(1) this] snoc.IH [OF this], of op] show ?case
      by (simp add: run_ops_append)
  qed
  moreover have "cold_inv env est s" unfolding assms(4) by (rule cold_run [OF assms(1,2)])
  ultimately show ?thesis using no_owner [of env est s x] by (auto simp: filter_empty_conv)
qed

theorem materialized_once_witness:
  "component_state Text (component_warmth (run_ops (cold_step small_env text_only) (cold_start small_start)
     ([Govern (Sample 5 (usage_sample 100)), Claim (for_request False False), Attempt 0 6, Close 0 True, Finish 0]
      @ [Claim (for_request True False)]))) = Warm"
proof -
  let ?ops = "[Govern (Sample 5 (usage_sample 100)), Claim (for_request False False), Attempt 0 6, Close 0 True, Finish 0]"
  let ?later = "[Claim (for_request True False)]"
  have "\<exists>r g. try_reserve_inner small_env 6 50 ColdMaterialization (small_state 0 0 0) = (Inr r, g)"
    by (simp add: try_reserve_inner_def small_fresh small_stale Let_def) (simp add: small_state_def small_target sat_add_def u64_max_def)
  then obtain r g where t: "try_reserve_inner small_env 6 50 ColdMaterialization (small_state 0 0 0) = (Inr r, g)" by blast
  have b: "component_bytes \<lparr>on_text = True, on_vision = False, on_speculative = False\<rparr> text_only = 50"
    by (simp add: component_bytes_def text_only_def sat_add_def sat_mul_def u64_max_def)
  have g: "(cold_start small_start)\<lparr>governor_of := small_state 0 0 0\<rparr> = cold_start (small_state 0 0 0)"
    "governor_of (cold_start h) = h" "other_reservations (cold_start h) = []" for h by (simp_all add: cold_start_def)
  have start: "cold_step small_env text_only (cold_start small_start) (Govern (Sample 5 (usage_sample 100))) = cold_start (small_state 0 0 0)"
    by (simp add: small_sample g(2,3)) (simp add: cold_start_def)
  have w: "component_state Text (component_warmth (run_ops (cold_step small_env text_only) (cold_start small_start) ?ops)) = Warm"
    unfolding run_ops_simps start by (simp add: text_only_claim attempt_claim_def g b t close_guard_def finish_claim_def mark_def)
  have "run_ok (cold_step small_env text_only) cold_op_ok (cold_start small_start) (?ops @ ?later)"
    unfolding append.simps run_ok.simps start by (simp add: text_only_claim g usage_sample_def u64_max_def)
  from materialized_once [OF small_new this w refl] show ?thesis by blast
qed

text \<open>
  When both tries to reserve fail, \<open>begin\<close> leaves no trace: the components are as cold as before, nothing is
  owned, and nothing stays reserved, provided no other thread came in between.
\<close>

theorem failed_begin_restores:
  assumes "governor_new manage native c = Inr (env, g)" and "run_ok (cold_step env est) cold_op_ok (cold_start g) ops"
    and "s = run_ops (cold_step env est) (cold_start g) ops" and "\<not> any_warming comps (component_warmth s)" and "n = length (claims s)"
    and "t = run_ops (cold_step env est) s [Claim comps, Attempt n now, Attempt n now']" and "claim_phase (claims t ! n) = Settled False"
  shows "component_warmth (cold_step env est t (Finish n)) = component_warmth s \<and> claims (cold_step env est t (Finish n)) = claims s
    \<and> reserved_bytes (governor_of (cold_step env est t (Finish n))) = reserved_bytes (governor_of s)"
proof -
  let ?own = "cold_subset comps (component_warmth s) est"
  define p where "p = (if component_bytes ?own est = 0 then Guarded None else Claimed)"
  define u where "u = cold_step env est s (Claim comps)"
  define v where "v = cold_step env est u (Attempt n now)"
  have t: "t = cold_step env est v (Attempt n now')" unfolding assms(6) v_def u_def by simp
  have u: "u = s\<lparr>component_warmth := mark ?own Warming (component_warmth s), claims := claims s @ [\<lparr>owned = ?own, claim_phase = p\<rparr>]\<rparr>"
    using assms(4) unfolding u_def p_def by (simp add: claim_components_def Let_def)
  then have cu: "claims u = claims s @ [\<lparr>owned = ?own, claim_phase = p\<rparr>]" by simp
  have settled: "q = Settled False" if "claims t = claims s @ [\<lparr>owned = ?own, claim_phase = q\<rparr>]" for q
    using assms(5,7) that by simp
  have stays: False if "claims v = claims s @ [\<lparr>owned = ?own, claim_phase = Guarded r\<rparr>]" for r
    using attempt_outcome [OF that, of env est now'] settled [of "Guarded r"] that unfolding t assms(5) by auto
  have v: "v = u\<lparr>governor_of := snapshot env now (governor_of u), claims := claims s @ [\<lparr>owned = ?own, claim_phase = Retrying\<rparr>]\<rparr>"
  proof (cases rule: attempt_outcome [OF cu, of env est now])
    case 1
    then have "p = Guarded None" unfolding p_def by (auto split: if_splits)
    moreover have "v = u" using 1(2) unfolding v_def assms(5) .
    ultimately show ?thesis using stays cu by blast
  next
    case (2 g r)
    then have "claims v = claims s @ [\<lparr>owned = ?own, claim_phase = Guarded (Some r)\<rparr>]" unfolding v_def assms(5) by simp
    then show ?thesis using stays by blast
  next
    case 3
    then have "p = Claimed" unfolding p_def by (auto split: if_splits)
    then show ?thesis using 3(2) unfolding v_def assms(5) by simp
  qed
  then have cv: "claims v = claims s @ [\<lparr>owned = ?own, claim_phase = Retrying\<rparr>]" by simp
  have t: "t = v\<lparr>governor_of := snapshot env now' (governor_of v), claims := claims s @ [\<lparr>owned = ?own, claim_phase = Settled False\<rparr>]\<rparr>"
  proof (cases rule: attempt_outcome [OF cv, of env est now'])
    case (2 g r)
    then have "claims t = claims s @ [\<lparr>owned = ?own, claim_phase = Guarded (Some r)\<rparr>]" unfolding t assms(5) by simp
    then show ?thesis using settled by blast
  qed (unfold t assms(5), simp_all)
  have "mark ?own Cold (mark ?own Warming (component_warmth s)) = component_warmth s" by (simp add: mark_def cold_subset_def)
  then show ?thesis unfolding t v u by (simp add: assms(5) finish_claim_def)
qed

theorem failed_begin_restores_witness:
  "component_warmth (cold_step small_env text_only (run_ops (cold_step small_env text_only) (cold_start small_start)
     [Claim (for_request False False), Attempt 0 1, Attempt 0 2]) (Finish 0)) = all_cold"
proof -
  let ?s = "cold_start small_start" and ?ops = "[Claim (for_request False False), Attempt 0 1, Attempt 0 2]"
  let ?t = "run_ops (cold_step small_env text_only) ?s ?ops"
  have f: "try_reserve_inner small_env now n k u = (Inl TelemetryUnavailable, snapshot small_env now u)" if "last_sample_at u = None" for now n k u
    using that by (simp add: try_reserve_inner_def Let_def small_stale)
  have l: "last_sample_at (governor_of ?s) = None" by (simp add: cold_start_def small_start_def)
  have "claim_phase (claims ?t ! 0) = Settled False"
    using l by (simp add: text_only_claim attempt_claim_def f)
  moreover have "\<not> any_warming (for_request False False) (component_warmth ?s)" by (simp add: cold_start_def all_cold_def any_warming_def)
  moreover have "0 = length (claims ?s)" by (simp add: cold_start_def)
  ultimately show ?thesis
    using failed_begin_restores [OF small_new, of text_only "[]" ?s "for_request False False" 0 ?t 1 2] by (simp add: cold_start_def)
qed

end
