(* ===== verification/EngineRegistry.thy ===== *)
theory EngineRegistry
  imports Prelude
begin

text \<open>
  \<open>ironmlx/src/core/server/engine.rs\<close>, \<open>EngineRegistry\<close>: the models a server knows, by position and by name, and
  which of them answers a request that names none.

  The hash map \<open>index\<close> is an association list. Of a model's manifest the registry reads the name, the load policy and
  the default flag; the rest is a type parameter.
\<close>

section \<open>Data\<close>

datatype load_policy = Preload | Lazy | Disabled

record 'c engine_model =
  em_id :: string
  em_load_policy :: load_policy
  em_default :: bool
  em_rest :: 'c

record 'c pool_manifest =
  pm_default_model :: "string option"
  pm_max_loaded_models :: "nat option"
  pm_models :: "'c engine_model list"

datatype registry_error =
  EmptyModelId
| DuplicateModelId string
| EmptyManifest
| NoEnabledModels
| InvalidMaxLoadedModels
| PreloadCapacityExceeded nat nat
| UnknownModel string
| ModelDisabled string
| AmbiguousDefault
| DuplicateDefaultModels string string
| ConflictingDefaultModels string string

record 'c registry =
  registry_models :: "'c engine_model list"
  registry_index :: "(string \<times> nat) list"
  registry_default :: "string option"
  registry_max_loaded :: "nat option"

section \<open>Operations\<close>

text \<open>The loop of \<open>new\<close>: names must be there and differ, and one model at most carries the default flag.\<close>

fun scan_models :: "nat \<Rightarrow> (string \<times> nat) list \<Rightarrow> string option \<Rightarrow> 'c engine_model list
    \<Rightarrow> registry_error + (string \<times> nat) list \<times> string option" where
  "scan_models i index model_default [] = Inr (index, model_default)"
| "scan_models i index model_default (m # ms) =
     (if em_id m = [] then Inl EmptyModelId
      else if map_of index (em_id m) \<noteq> None then Inl (DuplicateModelId (em_id m))
      else
        let index = AList.update (em_id m) i index in
        if em_default m
        then case model_default of
               Some first \<Rightarrow> Inl (DuplicateDefaultModels first (em_id m))
             | None \<Rightarrow> scan_models (Suc i) index (Some (em_id m)) ms
        else scan_models (Suc i) index model_default ms)"

definition servable :: "'c engine_model list \<Rightarrow> 'c engine_model list" where
  "servable ms = filter (\<lambda>m. em_load_policy m \<noteq> Disabled) ms"

definition registry_new :: "'c pool_manifest \<Rightarrow> registry_error + 'c registry" where
  "registry_new manifest =
     (if pm_models manifest = [] then Inl EmptyManifest
      else if pm_max_loaded_models manifest = Some 0 then Inl InvalidMaxLoadedModels
      else case scan_models 0 [] None (pm_models manifest) of
        Inl e \<Rightarrow> Inl e
      | Inr (index, model_default) \<Rightarrow>
          let preload_count = length (filter (\<lambda>m. em_load_policy m = Preload) (pm_models manifest)) in
          if servable (pm_models manifest) = [] then Inl NoEnabledModels
          else if (case pm_max_loaded_models manifest of Some n \<Rightarrow> preload_count > n | None \<Rightarrow> False)
            then Inl (PreloadCapacityExceeded preload_count (case pm_max_loaded_models manifest of Some n \<Rightarrow> n | None \<Rightarrow> 0))
          else
            let default_error =
              (case pm_default_model manifest of
                 None \<Rightarrow> None
               | Some d \<Rightarrow>
                   (case map_of index d of
                      None \<Rightarrow> Some (UnknownModel d)
                    | Some i \<Rightarrow> if em_load_policy (pm_models manifest ! i) = Disabled then Some (ModelDisabled d) else None))
            in case default_error of
                 Some e \<Rightarrow> Inl e
               | None \<Rightarrow>
                   let built = (\<lambda>d. \<lparr>registry_models = pm_models manifest, registry_index = index, registry_default = d,
                     registry_max_loaded = pm_max_loaded_models manifest\<rparr>)
                   in case (pm_default_model manifest, model_default) of
                      (Some declared, Some m) \<Rightarrow> if declared \<noteq> m then Inl (ConflictingDefaultModels declared m) else Inr (built (Some declared))
                    | (Some declared, None) \<Rightarrow> Inr (built (Some declared))
                    | (None, m) \<Rightarrow> Inr (built m))"

definition registry_empty :: "nat option \<Rightarrow> registry_error + 'c registry" where
  "registry_empty max_loaded =
     (if max_loaded = Some 0 then Inl InvalidMaxLoadedModels
      else Inr \<lparr>registry_models = [], registry_index = [], registry_default = None, registry_max_loaded = max_loaded\<rparr>)"

definition registry_model :: "'c registry \<Rightarrow> string \<Rightarrow> 'c engine_model option" where
  "registry_model r i = map_option (\<lambda>k. registry_models r ! k) (map_of (registry_index r) i)"

definition upsert_model :: "'c engine_model \<Rightarrow> bool \<Rightarrow> 'c registry \<Rightarrow> (registry_error, 'c registry, unit) outcome" where
  "upsert_model m set_default r =
     (if em_id m = [] then (Inl EmptyModelId, r)
      else
        let becomes_default = (set_default \<or> registry_default r = None \<or> registry_default r = Some (em_id m));
            m = m\<lparr>em_default := becomes_default\<rparr>;
            r = (if becomes_default then r\<lparr>registry_models := map (\<lambda>m. m\<lparr>em_default := False\<rparr>) (registry_models r)\<rparr> else r);
            r = (case map_of (registry_index r) (em_id m) of
                   Some k \<Rightarrow> r\<lparr>registry_models := (registry_models r)[k := m]\<rparr>
                 | None \<Rightarrow> r\<lparr>registry_index := AList.update (em_id m) (length (registry_models r)) (registry_index r),
                             registry_models := registry_models r @ [m]\<rparr>)
        in (Inr (), if becomes_default then r\<lparr>registry_default := Some (em_id m)\<rparr> else r))"

fun index_from :: "nat \<Rightarrow> (string \<times> nat) list \<Rightarrow> 'c engine_model list \<Rightarrow> (string \<times> nat) list" where
  "index_from k index [] = index"
| "index_from k index (m # ms) = index_from (Suc k) (AList.update (em_id m) k index) ms"

definition remove_model :: "string \<Rightarrow> 'c registry \<Rightarrow> bool \<times> 'c registry" where
  "remove_model i r =
     (case map_of (registry_index r) i of
        None \<Rightarrow> (False, r)
      | Some k \<Rightarrow>
          let ms = take k (registry_models r) @ drop (Suc k) (registry_models r);
              r' = r\<lparr>registry_models := ms, registry_index := index_from 0 [] ms\<rparr>
          in (True, if registry_default r = Some i
                    then r'\<lparr>registry_default := (case servable ms of m # _ \<Rightarrow> Some (em_id m) | [] \<Rightarrow> None)\<rparr> else r'))"

definition set_default_model :: "string \<Rightarrow> 'c registry \<Rightarrow> (registry_error, 'c registry, unit) outcome" where
  "set_default_model i r =
     (case registry_model r i of
        None \<Rightarrow> (Inl (UnknownModel i), r)
      | Some m \<Rightarrow>
          if em_load_policy m = Disabled then (Inl (ModelDisabled i), r)
          else (Inr (), r\<lparr>registry_models := map (\<lambda>m. m\<lparr>em_default := (em_id m = i)\<rparr>) (registry_models r),
                          registry_default := Some i\<rparr>))"

definition restore_default_model :: "string option \<Rightarrow> 'c registry \<Rightarrow> (registry_error, 'c registry, unit) outcome" where
  "restore_default_model default_model r =
     (case default_model of
        Some i \<Rightarrow>
          if registry_model r i \<noteq> None then set_default_model i r
          else (Inr (), r\<lparr>registry_models := map (\<lambda>m. m\<lparr>em_default := False\<rparr>) (registry_models r), registry_default := None\<rparr>)
      | None \<Rightarrow> (Inr (), r\<lparr>registry_models := map (\<lambda>m. m\<lparr>em_default := False\<rparr>) (registry_models r), registry_default := None\<rparr>))"

definition resolve_model_id :: "'c registry \<Rightarrow> string option \<Rightarrow> registry_error + string" where
  "resolve_model_id r requested =
     (case requested of
        Some (c # i) \<Rightarrow>
          (case registry_model r (c # i) of
             None \<Rightarrow> Inl (UnknownModel (c # i))
           | Some m \<Rightarrow> if em_load_policy m = Disabled then Inl (ModelDisabled (c # i)) else Inr (em_id m))
      | _ \<Rightarrow>
          (case registry_default r of
             Some d \<Rightarrow> Inr d
           | None \<Rightarrow> (case servable (registry_models r) of [m] \<Rightarrow> Inr (em_id m) | _ \<Rightarrow> Inl AmbiguousDefault)))"

section \<open>The invariant\<close>

definition model_positions :: "'c engine_model list \<Rightarrow> string \<Rightarrow> nat option" where
  "model_positions ms = map_of (zip (map em_id ms) [0..<length ms])"

definition names_ok :: "'c engine_model list \<Rightarrow> bool" where
  "names_ok ms = (distinct (map em_id ms) \<and> [] \<notin> em_id ` set ms)"

definition registry_ok :: "'c registry \<Rightarrow> bool" where
  "registry_ok r = (map_of (registry_index r) = model_positions (registry_models r) \<and> names_ok (registry_models r)
     \<and> (\<forall>d. registry_default r = Some d \<longrightarrow> d \<in> em_id ` set (registry_models r)) \<and> registry_max_loaded r \<noteq> Some 0)"

lemma model_positions_cong: "map em_id ms = map em_id ms' \<Longrightarrow> model_positions ms = model_positions ms'"
  unfolding model_positions_def by (metis length_map)

lemma names_cong: "map em_id ms = map em_id ms' \<Longrightarrow> names_ok ms = names_ok ms'"
  unfolding names_ok_def by (metis list.set_map)

lemma model_positions_Some:
  assumes "names_ok ms"
  shows "model_positions ms i = Some k \<longleftrightarrow> k < length ms \<and> em_id (ms ! k) = i"
proof
  assume "model_positions ms i = Some k"
  then have "(i, k) \<in> set (zip (map em_id ms) [0..<length ms])" unfolding model_positions_def by (rule map_of_SomeD)
  then show "k < length ms \<and> em_id (ms ! k) = i" by (auto simp: in_set_zip)
next
  assume k: "k < length ms \<and> em_id (ms ! k) = i"
  then show "model_positions ms i = Some k"
    using map_of_zip_nth [of "map em_id ms" "[0..<length ms]" k] assms by (auto simp: model_positions_def names_ok_def)
qed

lemma model_positions_None: "model_positions ms i = None \<longleftrightarrow> i \<notin> em_id ` set ms"
  unfolding model_positions_def by (simp add: map_of_zip_is_None)

lemma model_positions_append:
  assumes "em_id m \<notin> em_id ` set ms"
  shows "model_positions (ms @ [m]) = (model_positions ms)(em_id m \<mapsto> length ms)"
proof -
  have "model_positions ms (em_id m) = None" using assms by (simp add: model_positions_None)
  moreover have "model_positions (ms @ [m]) = [em_id m \<mapsto> length ms] ++ model_positions ms" by (simp add: model_positions_def)
  ultimately show ?thesis by (auto simp: map_add_def fun_eq_iff split: option.split)
qed

lemma names_append: "names_ok (ms @ [m]) \<longleftrightarrow> names_ok ms \<and> em_id m \<noteq> [] \<and> em_id m \<notin> em_id ` set ms"
  by (auto simp: names_ok_def)

lemma index_from_model_positions:
  "names_ok (ps @ ms) \<Longrightarrow> map_of index = model_positions ps \<Longrightarrow> map_of (index_from (length ps) index ms) = model_positions (ps @ ms)"
proof (induction ms arbitrary: ps index)
  case (Cons m ms)
  have n: "names_ok ((ps @ [m]) @ ms)" using Cons.prems(1) by simp
  then have "em_id m \<notin> em_id ` set ps" by (auto simp: names_ok_def)
  then have "map_of (AList.update (em_id m) (length ps) index) = model_positions (ps @ [m])"
    using Cons.prems(2) by (simp add: model_positions_append update_conv')
  from Cons.IH [OF n this] show ?case by simp
qed simp

lemma scan_models_spec:
  assumes "scan_models (length ps) index d ms = Inr (index', d')" and "map_of index = model_positions ps" and "names_ok ps"
    and "d = None \<or> (\<exists>m \<in> set ps. d = Some (em_id m) \<and> em_default m)"
  shows "map_of index' = model_positions (ps @ ms) \<and> names_ok (ps @ ms)
    \<and> (d' = None \<or> (\<exists>m \<in> set (ps @ ms). d' = Some (em_id m) \<and> em_default m))
    \<and> (\<forall>m \<in> set ms. em_default m \<longrightarrow> d' = Some (em_id m)) \<and> (d \<noteq> None \<longrightarrow> d' = d)"
  using assms
proof (induction ms arbitrary: ps index d)
  case (Cons m ms)
  have n: "em_id m \<noteq> []" "map_of index (em_id m) = None" using Cons.prems(1) by (auto split: if_splits)
  then have m: "em_id m \<notin> em_id ` set ps" using Cons.prems(2) by (simp add: model_positions_None)
  let ?d = "if em_default m then Some (em_id m) else d"
  have c: "em_default m \<Longrightarrow> d = None" "scan_models (length (ps @ [m])) (AList.update (em_id m) (length ps) index) ?d ms = Inr (index', d')"
    using Cons.prems(1) n by (auto simp: Let_def split: if_splits option.splits)
  have "map_of (AList.update (em_id m) (length ps) index) = model_positions (ps @ [m])" "names_ok (ps @ [m])"
    using Cons.prems(2,3) m n by (simp_all add: model_positions_append update_conv' names_append)
  moreover have "?d = None \<or> (\<exists>x \<in> set (ps @ [m]). ?d = Some (em_id x) \<and> em_default x)" using Cons.prems(4) by auto
  ultimately have "map_of index' = model_positions ((ps @ [m]) @ ms) \<and> names_ok ((ps @ [m]) @ ms)
    \<and> (d' = None \<or> (\<exists>x \<in> set ((ps @ [m]) @ ms). d' = Some (em_id x) \<and> em_default x))
    \<and> (\<forall>x \<in> set ms. em_default x \<longrightarrow> d' = Some (em_id x)) \<and> (?d \<noteq> None \<longrightarrow> d' = ?d)"
    by (rule Cons.IH [OF c(2)])
  then show ?case using c(1) by (auto split: if_splits)
qed auto

lemma registry_new_ok:
  assumes "registry_new manifest = Inr r"
  shows "registry_ok r \<and> registry_models r = pm_models manifest \<and> registry_max_loaded r = pm_max_loaded_models manifest"
    and "pm_default_model manifest = None \<Longrightarrow> m \<in> set (registry_models r) \<Longrightarrow> em_default m \<Longrightarrow> registry_default r = Some (em_id m)"
    and "pm_default_model manifest = Some d \<Longrightarrow> registry_default r = Some d"
proof -
  obtain index md where s: "scan_models 0 [] None (pm_models manifest) = Inr (index, md)"
    using assms by (auto simp: registry_new_def split: if_splits sum.splits)
  have "map_of [] = model_positions ([] :: 'a engine_model list)" "names_ok ([] :: 'a engine_model list)" by (simp_all add: model_positions_def names_ok_def)
  from scan_models_spec [of "[]" "[]" None, OF _ this] s have
    f: "map_of index = model_positions (pm_models manifest)" "names_ok (pm_models manifest)"
      "md = None \<or> (\<exists>m \<in> set (pm_models manifest). md = Some (em_id m) \<and> em_default m)"
      "\<forall>m \<in> set (pm_models manifest). em_default m \<longrightarrow> md = Some (em_id m)" by auto
  define dd where "dd = (case pm_default_model manifest of Some x \<Rightarrow> Some x | None \<Rightarrow> md)"
  have r: "r = \<lparr>registry_models = pm_models manifest, registry_index = index, registry_default = dd,
      registry_max_loaded = pm_max_loaded_models manifest\<rparr>" "pm_max_loaded_models manifest \<noteq> Some 0"
    and u: "\<And>d. pm_default_model manifest = Some d \<Longrightarrow> map_of index d \<noteq> None"
    using assms s by (auto simp: registry_new_def Let_def dd_def split: if_splits option.splits)
  have "d \<in> em_id ` set (pm_models manifest)" if "dd = Some d" for d
    using that u [of d] f(3) unfolding dd_def f(1) model_positions_None by (auto split: option.splits)
  then show "registry_ok r \<and> registry_models r = pm_models manifest \<and> registry_max_loaded r = pm_max_loaded_models manifest"
    using f(1,2) r by (simp add: registry_ok_def)
  show "pm_default_model manifest = None \<Longrightarrow> m \<in> set (registry_models r) \<Longrightarrow> em_default m \<Longrightarrow> registry_default r = Some (em_id m)"
    and "pm_default_model manifest = Some d \<Longrightarrow> registry_default r = Some d"
    using f(4) r by (auto simp: dd_def)
qed

lemma registry_empty_ok: "registry_empty n = Inr r \<Longrightarrow> registry_ok r"
  by (auto simp: registry_empty_def registry_ok_def model_positions_def names_ok_def split: if_splits)

lemma registry_okD:
  assumes "registry_ok r"
  shows "map_of (registry_index r) = model_positions (registry_models r)" and "names_ok (registry_models r)"
    and "registry_default r = Some d \<Longrightarrow> d \<in> em_id ` set (registry_models r)" and "registry_max_loaded r \<noteq> Some 0"
  using assms by (simp_all add: registry_ok_def)

lemma registry_model_iff:
  assumes "registry_ok r"
  shows "registry_model r i = Some m \<longleftrightarrow> m \<in> set (registry_models r) \<and> em_id m = i"
proof -
  note o = registry_okD [OF assms]
  have "registry_model r i = Some m \<longleftrightarrow> (\<exists>k < length (registry_models r). em_id (registry_models r ! k) = i \<and> registry_models r ! k = m)"
    by (simp add: registry_model_def o(1)) (use model_positions_Some [OF o(2)] in blast)
  then show ?thesis by (auto simp: in_set_conv_nth)
qed

lemma registry_model_None: "registry_ok r \<Longrightarrow> registry_model r i = None \<longleftrightarrow> i \<notin> em_id ` set (registry_models r)"
  by (simp add: registry_model_def registry_okD(1) model_positions_None)

lemma same_names:
  assumes "registry_ok r" and "map em_id ms = map em_id (registry_models r)" and "d = None \<or> (\<exists>m \<in> set ms. d = Some (em_id m))"
  shows "registry_ok (r\<lparr>registry_models := ms, registry_default := d\<rparr>)"
  using registry_okD [OF assms(1)] model_positions_cong [OF assms(2)] names_cong [OF assms(2)] assms(3) by (auto simp: registry_ok_def)

lemma set_default_ok:
  assumes "registry_ok r"
  shows "registry_ok (snd (set_default_model i r))"
proof -
  have "registry_ok (r\<lparr>registry_models := map (\<lambda>m. m\<lparr>em_default := (em_id m = i)\<rparr>) (registry_models r), registry_default := Some i\<rparr>)"
    if "registry_model r i = Some m" for m
    using that by (intro same_names assms) (auto simp: registry_model_iff [OF assms])
  then show ?thesis using assms by (auto simp: set_default_model_def split: option.split)
qed

lemma unflag_ok:
  assumes "registry_ok r"
  shows "registry_ok (r\<lparr>registry_models := map (\<lambda>m. m\<lparr>em_default := False\<rparr>) (registry_models r), registry_default := None\<rparr>)"
  by (rule same_names [OF assms]) simp_all

lemma restore_ok: "registry_ok r \<Longrightarrow> registry_ok (snd (restore_default_model d r))"
  using set_default_ok unflag_ok by (auto simp: restore_default_model_def split: option.split)

lemma remove_model_ok:
  assumes "registry_ok r"
  shows "registry_ok (snd (remove_model i r))"
proof (cases "map_of (registry_index r) i")
  case None
  then show ?thesis using assms by (simp add: remove_model_def)
next
  case (Some k)
  note o = registry_okD [OF assms]
  let ?ms = "take k (registry_models r) @ drop (Suc k) (registry_models r)"
  have k: "k < length (registry_models r)" "em_id (registry_models r ! k) = i" using Some model_positions_Some [OF o(2)] by (simp_all add: o(1))
  have split: "registry_models r = take k (registry_models r) @ registry_models r ! k # drop (Suc k) (registry_models r)"
    using k(1) by (simp add: id_take_nth_drop)
  have n: "names_ok ?ms" using o(2) by (subst (asm) split) (auto simp: names_ok_def)
  have "map_of (index_from 0 [] ?ms) = model_positions ?ms"
    using index_from_model_positions [of "[]" ?ms "[]"] n by (simp add: model_positions_def)
  moreover have "d \<in> em_id ` set ?ms" if "registry_default r = Some d" and "d \<noteq> i" for d
    using o(3) [OF that(1)] that(2) k(2) by (subst (asm) split) auto
  moreover have "em_id m \<in> em_id ` set ?ms" if "servable ?ms = m # x" for m x
  proof -
    have "m \<in> set (servable ?ms)" using that by simp
    then show ?thesis by (auto simp: servable_def)
  qed
  ultimately show ?thesis using n o(4) Some by (auto simp: remove_model_def Let_def registry_ok_def split: list.split)
qed

lemma upsert_ok:
  assumes "registry_ok r"
  shows "registry_ok (snd (upsert_model m d r))"
proof (cases "em_id m = []")
  case True
  then show ?thesis using assms by (simp add: upsert_model_def)
next
  case False
  define b where "b = (d \<or> registry_default r = None \<or> registry_default r = Some (em_id m))"
  define x where "x = m\<lparr>em_default := b\<rparr>"
  define ms where "ms = (if b then map (\<lambda>m. m\<lparr>em_default := False\<rparr>) (registry_models r) else registry_models r)"
  have same: "map em_id ms = map em_id (registry_models r)" "length ms = length (registry_models r)" by (simp_all add: ms_def)
  note o = registry_okD [OF assms]
  have p: "model_positions ms = model_positions (registry_models r)" and n: "names_ok ms"
    using model_positions_cong [OF same(1)] names_cong [OF same(1)] o(2) by simp_all
  have x: "em_id x = em_id m" by (simp add: x_def)
  have ids: "em_id ` set ms = em_id ` set (registry_models r)" using same(1) by (metis list.set_map)
  show ?thesis
  proof (cases "map_of (registry_index r) (em_id m)")
    case None
    have e: "snd (upsert_model m d r) = r\<lparr>registry_models := ms @ [x], registry_index := AList.update (em_id m) (length ms) (registry_index r),
        registry_default := (if b then Some (em_id m) else registry_default r)\<rparr>"
      using False None by (simp add: upsert_model_def Let_def b_def x_def ms_def)
    have "em_id x \<notin> em_id ` set ms" using None by (simp add: o(1) model_positions_None x ids)
    then show ?thesis unfolding e using o(3,4) n False
      by (auto simp: registry_ok_def update_conv' o(1) model_positions_append names_append p x ids)
  next
    case (Some k)
    have k: "k < length ms" "em_id (ms ! k) = em_id m" using Some model_positions_Some [OF n] by (simp_all add: o(1) p)
    have e: "snd (upsert_model m d r) = r\<lparr>registry_models := ms[k := x], registry_default := (if b then Some (em_id m) else registry_default r)\<rparr>"
      using False Some by (simp add: upsert_model_def Let_def b_def x_def ms_def)
    have u: "map em_id (ms[k := x]) = map em_id (registry_models r)"
      using k x same(1) by (metis length_map list_update_id map_update nth_map)
    have "registry_default r = None \<or> (\<exists>y \<in> set (ms[k := x]). registry_default r = Some (em_id y))"
      using o(3) u by (metis (no_types, lifting) imageE imageI list.set_map option.exhaust)
    moreover have "\<exists>y \<in> set (ms[k := x]). Some (em_id m) = Some (em_id y)" using k(1) x by (metis set_update_memI)
    ultimately show ?thesis unfolding e by (intro same_names assms u) (simp split: if_split)
  qed
qed

section \<open>The machine\<close>

datatype 'c registry_op =
  Upsert "'c engine_model" bool
| RemoveModel string
| SetDefault string
| RestoreDefault "string option"

fun registry_step :: "'c registry \<Rightarrow> 'c registry_op \<Rightarrow> 'c registry" where
  "registry_step r (Upsert m d) = snd (upsert_model m d r)"
| "registry_step r (RemoveModel i) = snd (remove_model i r)"
| "registry_step r (SetDefault i) = snd (set_default_model i r)"
| "registry_step r (RestoreDefault d) = snd (restore_default_model d r)"

interpretation registry: invariant_machine registry_step "\<lambda>_ _. True" registry_ok
proof unfold_locales
  fix r :: "'c registry" and op :: "'c registry_op"
  assume "registry_ok r"
  then show "registry_ok (registry_step r op)" by (cases op) (simp_all add: upsert_ok remove_model_ok set_default_ok restore_ok)
qed

lemma run_all_ok: "run_ok step (\<lambda>_ _. True) s ops"
  by (induction ops arbitrary: s) simp_all

section \<open>Properties\<close>

text \<open>
  C25: whatever models come and go, names stay distinct and the default is a registered model; a request that names a
  model is answered with exactly that model if it is registered and not disabled, and with the right error
  otherwise; a request that names none gets a registered model or is told that the choice is ambiguous.
\<close>

theorem registry_resolves:
  assumes "registry_new manifest = Inr r0 \<or> registry_empty n = Inr r0" and "r = run_ops registry_step r0 ops"
  shows "distinct (map em_id (registry_models r))
    \<and> (\<forall>d. registry_default r = Some d \<longrightarrow> d \<in> em_id ` set (registry_models r))
    \<and> (\<forall>i. i \<noteq> [] \<longrightarrow> resolve_model_id r (Some i) =
         (if i \<notin> em_id ` set (registry_models r) then Inl (UnknownModel i)
          else if i \<in> em_id ` set (servable (registry_models r)) then Inr i else Inl (ModelDisabled i)))
    \<and> (resolve_model_id r (Some []) = resolve_model_id r None)
    \<and> (\<forall>d. resolve_model_id r None = Inr d \<longrightarrow> d \<in> em_id ` set (registry_models r))
    \<and> (\<forall>e. resolve_model_id r None = Inl e \<longrightarrow> e = AmbiguousDefault \<and> registry_default r = None \<and> length (servable (registry_models r)) \<noteq> 1)"
proof -
  have "registry_ok r0" using assms(1) registry_new_ok(1) registry_empty_ok by blast
  then have ok: "registry_ok r" unfolding assms(2) by (rule registry.run_inv) (rule run_all_ok)
  note o = registry_okD [OF ok]
  have named: "resolve_model_id r (Some i) =
         (if i \<notin> em_id ` set (registry_models r) then Inl (UnknownModel i)
          else if i \<in> em_id ` set (servable (registry_models r)) then Inr i else Inl (ModelDisabled i))" if "i \<noteq> []" for i
  proof (cases "registry_model r i")
    case None
    then have "i \<notin> em_id ` set (registry_models r)" using registry_model_None [OF ok] by simp
    then show ?thesis using that None by (cases i) (simp_all add: resolve_model_id_def)
  next
    case (Some m)
    then have m: "m \<in> set (registry_models r)" "em_id m = i" using registry_model_iff [OF ok] by simp_all
    have u: "m' = m" if "m' \<in> set (registry_models r)" and "em_id m' = i" for m'
      using registry_model_iff [OF ok, of i m'] that Some by simp
    have "i \<in> em_id ` set (servable (registry_models r)) \<longleftrightarrow> (\<exists>m' \<in> set (registry_models r). em_id m' = i \<and> em_load_policy m' \<noteq> Disabled)"
      unfolding servable_def by auto
    also have "\<dots> \<longleftrightarrow> em_load_policy m \<noteq> Disabled" using m u by blast
    finally have "i \<in> em_id ` set (servable (registry_models r)) \<longleftrightarrow> em_load_policy m \<noteq> Disabled" .
    moreover have "i \<in> em_id ` set (registry_models r)" using m by blast
    ultimately show ?thesis using that Some m by (cases i) (simp_all add: resolve_model_id_def)
  qed
  have "m \<in> set (registry_models r)" if "servable (registry_models r) = [m]" for m
  proof -
    have "m \<in> set (servable (registry_models r))" using that by simp
    then show ?thesis by (simp add: servable_def)
  qed
  then show ?thesis using o(2,3) named
    by (auto simp: names_ok_def resolve_model_id_def split: option.splits list.splits)
qed

theorem registry_resolves_witness:
  "resolve_model_id (run_ops registry_step (\<lparr>registry_models = [], registry_index = [], registry_default = None, registry_max_loaded = Some 2\<rparr>
      :: unit registry)
     [Upsert \<lparr>em_id = ''a'', em_load_policy = Lazy, em_default = False, em_rest = ()\<rparr> False,
      Upsert \<lparr>em_id = ''b'', em_load_policy = Lazy, em_default = False, em_rest = ()\<rparr> False, RemoveModel ''a'']) (Some ''b'') = Inr ''b''"
proof -
  let ?start = "\<lparr>registry_models = [], registry_index = [], registry_default = None, registry_max_loaded = Some 2\<rparr> :: unit registry"
  let ?a = "\<lparr>em_id = ''a'', em_load_policy = Lazy, em_default = False, em_rest = ()\<rparr>"
  let ?b = "\<lparr>em_id = ''b'', em_load_policy = Lazy, em_default = False, em_rest = ()\<rparr>"
  let ?r = "run_ops registry_step ?start [Upsert ?a False, Upsert ?b False, RemoveModel ''a'']"
  have e: "registry_empty (Some 2) = Inr ?start" by (simp add: registry_empty_def)
  have "registry_models ?r = [?b]" by (simp add: upsert_model_def Let_def remove_model_def)
  moreover have "(''b'' :: string) \<noteq> []" by simp
  ultimately show ?thesis using registry_resolves [OF disjI2 [OF e], of ?r "[Upsert ?a False, Upsert ?b False, RemoveModel ''a'']", OF refl]
    by (simp add: servable_def)
qed

text \<open>A manifest that \<open>new\<close> has nothing to say against but for the default.\<close>

definition well_formed :: "'c pool_manifest \<Rightarrow> bool" where
  "well_formed manifest = (names_ok (pm_models manifest) \<and> servable (pm_models manifest) \<noteq> []
     \<and> (case pm_max_loaded_models manifest of None \<Rightarrow> True
        | Some n \<Rightarrow> 0 < n \<and> length (filter (\<lambda>m. em_load_policy m = Preload) (pm_models manifest)) \<le> n))"

lemma scan_models_accepts:
  assumes "names_ok (ps @ ms)" and "map_of index = model_positions ps"
    and "length (filter em_default ms) + (case d of None \<Rightarrow> 0 | Some _ \<Rightarrow> 1) \<le> 1"
  shows "\<exists>index' d'. scan_models (length ps) index d ms = Inr (index', d')"
  using assms
proof (induction ms arbitrary: ps index d)
  case (Cons m ms)
  have n: "names_ok ((ps @ [m]) @ ms)" using Cons.prems(1) by simp
  then have m: "em_id m \<noteq> []" "em_id m \<notin> em_id ` set ps" by (auto simp: names_ok_def)
  then have i: "map_of index (em_id m) = None" "map_of (AList.update (em_id m) (length ps) index) = model_positions (ps @ [m])"
    using Cons.prems(2) by (simp_all add: model_positions_None model_positions_append update_conv')
  let ?d = "if em_default m then Some (em_id m) else d"
  have "em_default m \<Longrightarrow> d = None" "length (filter em_default ms) + (case ?d of None \<Rightarrow> 0 | Some _ \<Rightarrow> 1) \<le> 1"
    using Cons.prems(3) by (auto split: option.splits if_splits)
  then show ?case using Cons.IH [OF n i(2), of ?d] m i(1) by (auto simp: Let_def)
qed simp

text \<open>
  C26: the constructor \<open>new\<close> checks the load policy of the default named at the top of the manifest, not of a model that carries
  the default flag. A manifest that names no default at the top and flags one model, which is disabled, is accepted
  if nothing else is wrong with it, and every request that names no model is then sent to the disabled model; the
  same manifest with that model named at the top is refused.
\<close>

theorem disabled_default_is_accepted:
  assumes "well_formed manifest" and "filter em_default (pm_models manifest) = [m]" and "em_load_policy m = Disabled"
  shows "(\<exists>r. registry_new (manifest\<lparr>pm_default_model := None\<rparr>) = Inr r \<and> resolve_model_id r None = Inr (em_id m)
      \<and> resolve_model_id r (Some (em_id m)) = Inl (ModelDisabled (em_id m)))
    \<and> registry_new (manifest\<lparr>pm_default_model := Some (em_id m)\<rparr>) = Inl (ModelDisabled (em_id m))"
proof -
  let ?ms = "pm_models manifest" and ?new = "manifest\<lparr>pm_default_model := None\<rparr>"
  note w = assms(1) [unfolded well_formed_def]
  have "m \<in> set (filter em_default ?ms)" using assms(2) by simp
  then have mem: "m \<in> set ?ms" "em_default m" by simp_all
  have pos0: "map_of [] = model_positions ([] :: 'a engine_model list)" by (simp add: model_positions_def)
  obtain index d where s: "scan_models 0 [] None ?ms = Inr (index, d)"
    using scan_models_accepts [of "[]" ?ms "[]" None] pos0 w assms(2) by auto
  have f: "map_of index = model_positions ?ms"
    using scan_models_spec [of "[]" "[]" None ?ms index d] s pos0 by (simp add: names_ok_def)
  have ne: "?ms \<noteq> []" using mem(1) by auto
  obtain r where r: "registry_new ?new = Inr r"
    using w s ne by (auto simp: registry_new_def Let_def split: option.splits)
  have ok: "registry_ok r" "registry_models r = ?ms" using registry_new_ok(1) [OF r] by simp_all
  have "registry_default r = Some (em_id m)" using registry_new_ok(2) [OF r] mem ok(2) by simp
  moreover have "registry_model r (em_id m) = Some m" using registry_model_iff [OF ok(1)] mem(1) ok(2) by simp
  moreover have "em_id m \<noteq> []" using w mem(1) by (force simp: names_ok_def)
  ultimately have "\<exists>r. registry_new ?new = Inr r \<and> resolve_model_id r None = Inr (em_id m)
      \<and> resolve_model_id r (Some (em_id m)) = Inl (ModelDisabled (em_id m))"
    using r assms(3) by (cases "em_id m") (auto simp: resolve_model_id_def)
  moreover obtain k where k: "k < length ?ms" "?ms ! k = m" using mem(1) by (metis in_set_conv_nth)
  then have "map_of index (em_id m) = Some k" unfolding f using w by (subst model_positions_Some) auto
  then have "registry_new (manifest\<lparr>pm_default_model := Some (em_id m)\<rparr>) = Inl (ModelDisabled (em_id m))"
    using w s ne k assms(3) by (auto simp: registry_new_def Let_def split: option.splits)
  ultimately show ?thesis by blast
qed

theorem disabled_default_is_accepted_witness:
  "\<exists>r. registry_new \<lparr>pm_default_model = None, pm_max_loaded_models = None,
        pm_models = [\<lparr>em_id = ''a'', em_load_policy = Disabled, em_default = True, em_rest = ()\<rparr>,
                     \<lparr>em_id = ''b'', em_load_policy = Lazy, em_default = False, em_rest = ()\<rparr>]\<rparr> = Inr r
     \<and> resolve_model_id r None = Inr ''a''"
proof -
  let ?a = "\<lparr>em_id = ''a'', em_load_policy = Disabled, em_default = True, em_rest = ()\<rparr>"
  let ?m = "\<lparr>pm_default_model = None, pm_max_loaded_models = None,
        pm_models = [?a, \<lparr>em_id = ''b'', em_load_policy = Lazy, em_default = False, em_rest = ()\<rparr>]\<rparr>"
  have "well_formed ?m" by (simp add: well_formed_def names_ok_def servable_def)
  from disabled_default_is_accepted [OF this, of ?a] show ?thesis by auto
qed

end
