(* ===== verification/EnginePool.thy ===== *)
theory EnginePool
  imports EngineRegistry "HOL-Library.Char_ord" "HOL-Library.List_Lexorder" "HOL-Library.Product_Lexorder"
begin

text \<open>
  \<open>ironmlx/src/core/server/engine.rs\<close>, the slots of the engine pool: loading a model for the request that needs it,
  leases on its engine, unloading by hand, by age, for room and under memory pressure.

  Slots have a lock each and loads share a gate, so what a task does is a sequence of critical sections and of looks
  at the atomics of a slot; the machine has one operation for each, and other tasks may come in between. A scan for
  an engine to evict looks at one slot after the other, twice at each (the pin before the lock, the engine under it),
  and so does the count of the loaded engines, once at each. A task that has looked at a slot without its lock and acts
  on it later is an entry of \<open>tasks\<close>, which \<open>Resume\<close> carries on: the task that waits for a draining slot to be idle, the
  sweep by age, the change of a pin. A lease that ends first takes its request off the count and then drops the engine.
  Only a task that holds the gate loads. \<open>Cancel\<close> is what happens when the future of that task is dropped, as the
  server does when the client disconnects. What the memory governor answers, what loading a model gives and how many
  bytes the allocator reports are arguments, and so is the clock, in milliseconds. Strings of errors are values of a
  datatype. An engine is a number and its weight in bytes; a lease holds a reference to one. The map of the slots is
  visited in the order of the list, which may be any: no slot is added or removed.

  Two spans of the task at the gate are one operation although they take several locks: a refusal and the mark it
  leaves on the task's own slot, and the check of the limits and the end of the load. In between others can only
  lower the sum the check looks at, since no one else loads. The sum holds each engine for a moment, in which an
  eviction would find it in use and give up; the model does not show that refusal.
\<close>

section \<open>State\<close>

datatype load_trigger = Request | Control
datatype unload_reason = Startup | Evicted | Manual | Ttl | CapacityRejected
datatype capacity_policy = EvictLruIdle | RejectWhenFull
datatype capacity_decision = Continue | Reject | TryEvictLruIdle

datatype engine_error =
  DisabledModel string
| CurrentlyUnloading string
| InFailedState string engine_error
| MemoryRejected string
| CapacityReached nat string
| NothingToEvict nat
| PreloadCannotUnload string
| CurrentlyLoading string
| NotLoaded string
| ModelMemoryLimit nat nat
| TotalMemoryLimit nat nat
| LoadError string

record engine =
  engine_number :: nat
  engine_weight :: nat

datatype slot_state =
  Unloaded unload_reason "engine_error option" nat nat
| Loading nat nat
| Loaded engine nat nat nat nat
| Draining nat nat nat
| Failed engine_error nat nat

text \<open>
  The arguments are, in order: of \<open>Unloaded\<close> reason, last error, time and load attempts; of \<open>Loading\<close> time and attempts;
  of \<open>Loaded\<close> engine, load time, time of last use, attempts and requests; of \<open>Draining\<close> time, attempts and requests; of
  \<open>Failed\<close> error, time and attempts.
\<close>

fun load_attempts :: "slot_state \<Rightarrow> nat" where
  "load_attempts (Unloaded r e t n) = n"
| "load_attempts (Loading t n) = n"
| "load_attempts (Loaded e t u n c) = n"
| "load_attempts (Draining t n c) = n"
| "load_attempts (Failed e t n) = n"

record slot =
  slot_policy :: load_policy
  slot_active :: nat
  slot_pinned :: bool
  slot_state :: slot_state

record lease =
  lease_slot :: string
  lease_engine :: engine
  lease_counted :: bool

text \<open>A scan for an engine to evict: the slots still to look at, whether the first has passed the look without its lock.\<close>

record scan =
  scan_target :: string
  scan_todo :: "string list"
  scan_passed :: bool
  scan_seen :: "(string \<times> nat) list"

text \<open>What other tasks have still to do: wait for a draining slot to be idle, and what follows a look without a lock.\<close>

datatype pending_task =
  DrainWatch string
| DrainSeen string
| TtlSeen string nat nat
| PinSeen string bool

text \<open>Where the task that holds the gate stands.\<close>

datatype load_stage =
  Entered
| Refused
| Reclaiming scan
| Retrying
| Reserved
| Counting "string list" nat
| Crowded
| Evicting scan
| Admitted
| LoadingEngine nat

record loader =
  loader_slot :: string
  loader_trigger :: load_trigger
  loader_stage :: load_stage

record engine_pool =
  slots :: "(string \<times> slot) list"
  leases :: "lease list"
  gate :: "loader option"
  monitor_scan :: "scan option"
  tasks :: "pending_task list"
  next_engine :: nat
  capacity_policy :: capacity_policy
  max_loaded :: "nat option"
  model_limit :: "nat option"
  total_limit :: "nat option"

definition slot_of :: "engine_pool \<Rightarrow> string \<Rightarrow> slot option" where
  "slot_of p i = map_of (slots p) i"

definition set_slot :: "string \<Rightarrow> slot \<Rightarrow> engine_pool \<Rightarrow> engine_pool" where
  "set_slot i sl p = p\<lparr>slots := AList.update i sl (slots p)\<rparr>"

definition set_state :: "string \<Rightarrow> slot_state \<Rightarrow> engine_pool \<Rightarrow> engine_pool" where
  "set_state i st p = (case slot_of p i of Some sl \<Rightarrow> set_slot i (sl\<lparr>slot_state := st\<rparr>) p | None \<Rightarrow> p)"

definition new_slot :: "load_policy \<Rightarrow> bool \<Rightarrow> nat \<Rightarrow> slot" where
  "new_slot policy pinned now = \<lparr>slot_policy = policy, slot_active = 0, slot_pinned = pinned, slot_state = Unloaded Startup None now 0\<rparr>"

definition engines_new :: "(string \<times> load_policy \<times> bool) list \<Rightarrow> nat \<Rightarrow> nat option \<Rightarrow> nat option \<Rightarrow> nat option \<Rightarrow> engine_pool" where
  "engines_new models now max_models model_bytes total_bytes =
     \<lparr>slots = foldl (\<lambda>al (i, policy, pinned). AList.update i (new_slot policy pinned now) al) [] models,
      leases = [], gate = None, monitor_scan = None, tasks = [], next_engine = 0, capacity_policy = EvictLruIdle,
      max_loaded = max_models, model_limit = model_bytes, total_limit = total_bytes\<rparr>"

section \<open>Capacity and eviction\<close>

definition decide_engine_pool_capacity :: "capacity_policy \<Rightarrow> nat \<Rightarrow> nat \<Rightarrow> capacity_decision" where
  "decide_engine_pool_capacity policy max_models loaded =
     (if loaded < max_models then Continue
      else case policy of EvictLruIdle \<Rightarrow> TryEvictLruIdle | RejectWhenFull \<Rightarrow> Reject)"

fun resident :: "slot_state \<Rightarrow> bool" where
  "resident (Loaded e t u n c) = True"
| "resident (Draining t n c) = True"
| "resident _ = False"

definition loaded_count :: "engine_pool \<Rightarrow> nat" where
  "loaded_count p = length (filter (\<lambda>(i, sl). resident (slot_state sl)) (slots p))"

fun loaded_weight :: "slot_state \<Rightarrow> nat" where
  "loaded_weight (Loaded e t u n c) = engine_weight e"
| "loaded_weight _ = 0"

definition loaded_model_weight_bytes_excluding :: "string \<Rightarrow> engine_pool \<Rightarrow> nat" where
  "loaded_model_weight_bytes_excluding target p =
     foldl (\<lambda>total (i, sl). if i = target then total else sat_add total (loaded_weight (slot_state sl))) 0 (slots p)"

definition check_memory_limits_after_load :: "string \<Rightarrow> nat \<Rightarrow> nat \<Rightarrow> engine_pool \<Rightarrow> engine_error option" where
  "check_memory_limits_after_load target weight mlx_active p =
     (let bytes = sat_add (loaded_model_weight_bytes_excluding target p) weight in
      if (case model_limit p of Some l \<Rightarrow> bytes > l | None \<Rightarrow> False)
      then Some (ModelMemoryLimit bytes (case model_limit p of Some l \<Rightarrow> l | None \<Rightarrow> 0))
      else if (case total_limit p of Some l \<Rightarrow> mlx_active > l | None \<Rightarrow> False)
      then Some (TotalMemoryLimit mlx_active (case total_limit p of Some l \<Rightarrow> l | None \<Rightarrow> 0))
      else None)"

definition strong_count :: "engine \<Rightarrow> engine_pool \<Rightarrow> nat" where
  "strong_count e p = 1 + length (filter (\<lambda>l. lease_engine l = e) (leases p))"

definition select_lru_eviction_candidate :: "(string \<times> nat) list \<Rightarrow> string option" where
  "select_lru_eviction_candidate cs = (case sort_key (\<lambda>(i, used). (used, i)) cs of [] \<Rightarrow> None | (i, used) # _ \<Rightarrow> Some i)"

definition scan_start :: "string \<Rightarrow> engine_pool \<Rightarrow> scan" where
  "scan_start target p = \<lparr>scan_target = target, scan_todo = map fst (slots p), scan_passed = False, scan_seen = []\<rparr>"

definition scan_skips :: "string \<Rightarrow> string \<Rightarrow> slot \<Rightarrow> bool" where
  "scan_skips target i sl = (i = target \<or> slot_policy sl = Preload \<or> slot_pinned sl)"

definition idle_engine :: "slot \<Rightarrow> engine_pool \<Rightarrow> nat option" where
  "idle_engine sl p =
     (case slot_state sl of
        Loaded e t used n c \<Rightarrow> if slot_active sl = 0 \<and> strong_count e p = 1 then Some used else None
      | _ \<Rightarrow> None)"

definition scan_slot :: "engine_pool \<Rightarrow> scan \<Rightarrow> scan" where
  "scan_slot p sc =
     (case scan_todo sc of
        [] \<Rightarrow> sc
      | i # rest \<Rightarrow>
          (case slot_of p i of
             None \<Rightarrow> sc\<lparr>scan_todo := rest, scan_passed := False\<rparr>
           | Some sl \<Rightarrow>
               if \<not> scan_passed sc
               then if scan_skips (scan_target sc) i sl then sc\<lparr>scan_todo := rest\<rparr> else sc\<lparr>scan_passed := True\<rparr>
               else sc\<lparr>scan_todo := rest, scan_passed := False,
                 scan_seen := scan_seen sc @ (case idle_engine sl p of Some used \<Rightarrow> [(i, used)] | None \<Rightarrow> [])\<rparr>))"

definition scan_pick :: "scan \<Rightarrow> string option" where
  "scan_pick sc = select_lru_eviction_candidate (scan_seen sc)"

definition evict_commit :: "string option \<Rightarrow> nat \<Rightarrow> engine_pool \<Rightarrow> bool \<times> engine_pool" where
  "evict_commit pick now p =
     (case pick of
        None \<Rightarrow> (False, p)
      | Some i \<Rightarrow>
          (case slot_of p i of
             None \<Rightarrow> (False, p)
           | Some sl \<Rightarrow>
               (case slot_state sl of
                  Loaded e t used n c \<Rightarrow>
                    if slot_pinned sl \<or> slot_active sl \<noteq> 0 \<or> strong_count e p \<noteq> 1 then (False, p)
                    else (True, set_state i (Unloaded Evicted None now n) p)
                | _ \<Rightarrow> (False, p))))"

section \<open>Loading\<close>

datatype look = Granted engine | Wait | Refuse engine_error | Proceed

text \<open>The look at the slot that \<open>ensure_loaded\<close> takes twice: before and after it has the gate.\<close>

definition look_at :: "string \<Rightarrow> load_trigger \<Rightarrow> nat \<Rightarrow> slot \<Rightarrow> look \<times> slot" where
  "look_at i trigger now sl =
     (case slot_state sl of
        Loaded e t used n c \<Rightarrow>
          (Granted e, if trigger = Request
            then sl\<lparr>slot_active := slot_active sl + 1, slot_state := Loaded e t now n (sat_add c 1)\<rparr> else sl)
      | Loading t n \<Rightarrow> (Wait, sl)
      | Draining t n c \<Rightarrow>
          if slot_active sl = 0 then (Proceed, sl\<lparr>slot_state := Unloaded Manual None now n\<rparr>)
          else (Refuse (CurrentlyUnloading i), sl)
      | Failed e t n \<Rightarrow> if trigger = Request then (Refuse (InFailedState i e), sl) else (Proceed, sl)
      | Unloaded r e t n \<Rightarrow> (Proceed, sl))"

definition look_and_lease :: "string \<Rightarrow> load_trigger \<Rightarrow> nat \<Rightarrow> engine_pool \<Rightarrow> look \<times> engine_pool" where
  "look_and_lease i trigger now p =
     (case slot_of p i of
        None \<Rightarrow> (Wait, p)
      | Some sl \<Rightarrow>
          if slot_policy sl = Disabled then (Refuse (DisabledModel i), p)
          else
            let (l, sl) = look_at i trigger now sl; p = set_slot i sl p
            in case l of
                 Granted e \<Rightarrow> (l, p\<lparr>leases := leases p @ [\<lparr>lease_slot = i, lease_engine = e, lease_counted = (trigger = Request)\<rparr>]\<rparr>)
               | _ \<Rightarrow> (l, p))"

definition acquire_gate :: "string \<Rightarrow> load_trigger \<Rightarrow> nat \<Rightarrow> engine_pool \<Rightarrow> look \<times> engine_pool" where
  "acquire_gate i trigger now p =
     (let (l, p) = look_and_lease i trigger now p in
      case l of
        Proceed \<Rightarrow> (l, p\<lparr>gate := Some \<lparr>loader_slot = i, loader_trigger = trigger, loader_stage = Entered\<rparr>\<rparr>)
      | _ \<Rightarrow> (l, p))"

definition advance_stage :: "loader \<Rightarrow> load_stage \<Rightarrow> engine_pool \<Rightarrow> engine_pool" where
  "advance_stage l stage p = p\<lparr>gate := Some (l\<lparr>loader_stage := stage\<rparr>)\<rparr>"

definition leave_gate :: "engine_pool \<Rightarrow> engine_pool" where
  "leave_gate p = p\<lparr>gate := None\<rparr>"

definition attempts_at :: "string \<Rightarrow> engine_pool \<Rightarrow> nat" where
  "attempts_at i p = (case slot_of p i of Some sl \<Rightarrow> load_attempts (slot_state sl) | None \<Rightarrow> 0)"

definition capacity_rejected :: "loader \<Rightarrow> engine_error \<Rightarrow> nat \<Rightarrow> engine_pool \<Rightarrow> engine_pool" where
  "capacity_rejected l e now p =
     leave_gate (set_state (loader_slot l) (Unloaded CapacityRejected (Some e) now (attempts_at (loader_slot l) p)) p)"

text \<open>\<open>ensure_capacity_for\<close>, section by section.\<close>

definition reserve_first :: "engine_error + bool \<Rightarrow> nat \<Rightarrow> loader \<Rightarrow> engine_pool \<Rightarrow> engine_pool" where
  "reserve_first result now l p =
     (case result of
        Inl e \<Rightarrow> capacity_rejected l e now p
      | Inr granted \<Rightarrow> advance_stage l (if granted then Reserved else Refused) p)"

definition reclaim_scan :: "loader \<Rightarrow> engine_pool \<Rightarrow> engine_pool" where
  "reclaim_scan l p = advance_stage l (Reclaiming (scan_start (loader_slot l) p)) p"

definition shrink_failed :: "engine_error \<Rightarrow> nat \<Rightarrow> loader \<Rightarrow> engine_pool \<Rightarrow> engine_pool" where
  "shrink_failed e now l p = capacity_rejected l e now p"

definition reclaim_evict :: "scan \<Rightarrow> nat \<Rightarrow> loader \<Rightarrow> engine_pool \<Rightarrow> engine_pool" where
  "reclaim_evict sc now l p = (if scan_todo sc = [] then advance_stage l Retrying (snd (evict_commit (scan_pick sc) now p)) else p)"

definition reserve_again :: "bool \<Rightarrow> nat \<Rightarrow> loader \<Rightarrow> engine_pool \<Rightarrow> engine_pool" where
  "reserve_again granted now l p =
     (if granted then advance_stage l Reserved p else capacity_rejected l (MemoryRejected (loader_slot l)) now p)"

definition count_start :: "loader \<Rightarrow> engine_pool \<Rightarrow> engine_pool" where
  "count_start l p =
     (case max_loaded p of
        None \<Rightarrow> advance_stage l Admitted p
      | Some m \<Rightarrow> advance_stage l (Counting (map fst (slots p)) 0) p)"

definition count_slot :: "string list \<Rightarrow> nat \<Rightarrow> loader \<Rightarrow> engine_pool \<Rightarrow> engine_pool" where
  "count_slot todo n l p =
     (case todo of
        [] \<Rightarrow> p
      | i # rest \<Rightarrow>
          let here = (case slot_of p i of Some sl \<Rightarrow> resident (slot_state sl) | None \<Rightarrow> False)
          in advance_stage l (Counting rest (n + (if here then 1 else 0))) p)"

definition count_decide :: "string list \<Rightarrow> nat \<Rightarrow> nat \<Rightarrow> loader \<Rightarrow> engine_pool \<Rightarrow> engine_pool" where
  "count_decide todo n now l p =
     (case (todo, max_loaded p) of
        ([], Some m) \<Rightarrow>
          (case decide_engine_pool_capacity (capacity_policy p) m n of
             Continue \<Rightarrow> advance_stage l Admitted p
           | Reject \<Rightarrow> capacity_rejected l (CapacityReached m (loader_slot l)) now p
           | TryEvictLruIdle \<Rightarrow> advance_stage l Crowded p)
      | _ \<Rightarrow> p)"

definition crowded_scan :: "loader \<Rightarrow> engine_pool \<Rightarrow> engine_pool" where
  "crowded_scan l p = advance_stage l (Evicting (scan_start (loader_slot l) p)) p"

definition crowded_evict :: "scan \<Rightarrow> nat \<Rightarrow> loader \<Rightarrow> engine_pool \<Rightarrow> engine_pool" where
  "crowded_evict sc now l p =
     (if scan_todo sc \<noteq> [] then p
      else case evict_commit (scan_pick sc) now p of
        (True, p) \<Rightarrow> advance_stage l Admitted p
      | (False, p) \<Rightarrow> capacity_rejected l (NothingToEvict (case max_loaded p of Some m \<Rightarrow> m | None \<Rightarrow> 0)) now p)"

definition begin_loading :: "nat \<Rightarrow> loader \<Rightarrow> engine_pool \<Rightarrow> engine_pool" where
  "begin_loading now l p =
     (let n = sat_add (attempts_at (loader_slot l) p) 1
      in advance_stage l (LoadingEngine n) (set_state (loader_slot l) (Loading now n) p))"

definition finish_loading :: "nat \<Rightarrow> engine_error + nat \<Rightarrow> nat \<Rightarrow> nat \<Rightarrow> loader \<Rightarrow> engine_pool \<Rightarrow> engine_pool" where
  "finish_loading now result mlx_active n l p =
     (let i = loader_slot l in
      case result of
        Inl e \<Rightarrow> leave_gate (set_state i (Failed e now n) p)
      | Inr weight \<Rightarrow>
          (case check_memory_limits_after_load i weight mlx_active p of
             Some e \<Rightarrow> leave_gate (set_state i (Failed e now n) p)
           | None \<Rightarrow>
               let e = \<lparr>engine_number = next_engine p, engine_weight = weight\<rparr>;
                   request = (loader_trigger l = Request);
                   p = (case slot_of p i of
                          Some sl \<Rightarrow> set_slot i (sl\<lparr>slot_active := slot_active sl + (if request then 1 else 0),
                            slot_state := Loaded e now now n (if request then 1 else 0)\<rparr>) p
                        | None \<Rightarrow> p)
               in leave_gate (p\<lparr>next_engine := next_engine p + 1,
                    leases := leases p @ [\<lparr>lease_slot = i, lease_engine = e, lease_counted = request\<rparr>]\<rparr>)))"

section \<open>Leases, unloading, pins\<close>

text \<open>The end of a lease: \<open>drop\<close> takes the request off the count, and then the reference to the engine goes.\<close>

definition drop_lease :: "nat \<Rightarrow> engine_pool \<Rightarrow> engine_pool" where
  "drop_lease k p =
     (let l = leases p ! k in
      if lease_counted l
      then let p = p\<lparr>leases := (leases p)[k := l\<lparr>lease_counted := False\<rparr>]\<rparr>
           in case slot_of p (lease_slot l) of
                Some sl \<Rightarrow> set_slot (lease_slot l) (sl\<lparr>slot_active := slot_active sl - 1\<rparr>) p
              | None \<Rightarrow> p
      else p\<lparr>leases := take k (leases p) @ drop (Suc k) (leases p)\<rparr>)"

definition add_task :: "pending_task \<Rightarrow> engine_pool \<Rightarrow> engine_pool" where
  "add_task t p = p\<lparr>tasks := tasks p @ [t]\<rparr>"

definition unload :: "string \<Rightarrow> nat \<Rightarrow> engine_pool \<Rightarrow> (engine_error, engine_pool, unit) outcome" where
  "unload i now p =
     (case slot_of p i of
        None \<Rightarrow> (Inl (NotLoaded i), p)
      | Some sl \<Rightarrow>
          if slot_policy sl = Preload then (Inl (PreloadCannotUnload i), p)
          else if slot_policy sl = Disabled then (Inl (DisabledModel i), p)
          else
            let done = (Inr (), set_state i (Unloaded Manual None now (load_attempts (slot_state sl))) p)
            in case slot_state sl of
                 Loaded e t used n c \<Rightarrow>
                   if slot_active sl > 0 then (Inr (), add_task (DrainWatch i) (set_state i (Draining now n c) p)) else done
               | Loading t n \<Rightarrow> (Inl (CurrentlyLoading i), p)
               | Draining t n c \<Rightarrow> if slot_active sl > 0 then (Inr (), add_task (DrainWatch i) p) else done
               | _ \<Rightarrow> done)"

text \<open>
  What the task of \<open>schedule_finish_draining\<close> does once it has seen that no request is active: it takes the lock and
  looks at the state, but not again at the requests.
\<close>

definition finish_draining :: "string \<Rightarrow> nat \<Rightarrow> engine_pool \<Rightarrow> engine_pool" where
  "finish_draining i now p =
     (case slot_of p i of
        None \<Rightarrow> p
      | Some sl \<Rightarrow> (case slot_state sl of Draining t n c \<Rightarrow> set_state i (Unloaded Manual None now n) p | _ \<Rightarrow> p))"

text \<open>The two parts of \<open>unload_if_ttl_expired\<close>: before it has the lock and under it.\<close>

definition ttl_look :: "string \<Rightarrow> engine_pool \<Rightarrow> bool" where
  "ttl_look i p = (case slot_of p i of None \<Rightarrow> False | Some sl \<Rightarrow> \<not> (slot_policy sl = Preload \<or> slot_pinned sl \<or> slot_active sl > 0))"

definition ttl_unload :: "string \<Rightarrow> nat \<Rightarrow> nat \<Rightarrow> engine_pool \<Rightarrow> bool \<times> engine_pool" where
  "ttl_unload i now ttl p =
     (case slot_of p i of
        None \<Rightarrow> (False, p)
      | Some sl \<Rightarrow>
          (case slot_state sl of
             Loaded e t used n c \<Rightarrow>
               if now - used < ttl \<or> slot_active sl > 0 then (False, p) else (True, set_state i (Unloaded Ttl None now n) p)
           | _ \<Rightarrow> (False, p)))"

text \<open>Both, when nobody comes in between.\<close>

definition unload_if_ttl_expired :: "string \<Rightarrow> nat \<Rightarrow> nat \<Rightarrow> engine_pool \<Rightarrow> bool \<times> engine_pool" where
  "unload_if_ttl_expired i now ttl p = (if ttl_look i p then ttl_unload i now ttl p else (False, p))"

definition ttl_candidate :: "nat \<Rightarrow> nat \<Rightarrow> slot \<Rightarrow> bool" where
  "ttl_candidate now ttl sl =
     (case slot_state sl of
        Loaded e t used n c \<Rightarrow> slot_policy sl \<noteq> Disabled \<and> slot_active sl = 0 \<and> \<not> slot_pinned sl \<and> now - used \<ge> ttl
      | _ \<Rightarrow> False)"

definition select_model_ttl_unload_candidates :: "nat \<Rightarrow> nat \<Rightarrow> (string \<times> slot) list \<Rightarrow> string list" where
  "select_model_ttl_unload_candidates now ttl cs = map fst (filter (\<lambda>(i, sl). ttl_candidate now ttl sl) (sort_key fst cs))"

fun expire_all :: "nat \<Rightarrow> nat \<Rightarrow> string list \<Rightarrow> engine_pool \<Rightarrow> string list \<times> engine_pool" where
  "expire_all now ttl [] p = ([], p)"
| "expire_all now ttl (i # is) p =
     (let (b, p) = unload_if_ttl_expired i now ttl p; (gone, p) = expire_all now ttl is p
      in (if b then i # gone else gone, p))"

text \<open>The sweep, when nobody comes in between; a pool without a time to live has no sweep.\<close>

definition unload_expired_model_ttl_once :: "nat option \<Rightarrow> nat \<Rightarrow> engine_pool \<Rightarrow> string list \<times> engine_pool" where
  "unload_expired_model_ttl_once model_ttl now p =
     (case model_ttl of
        None \<Rightarrow> ([], p)
      | Some ttl \<Rightarrow> expire_all now ttl
          (select_model_ttl_unload_candidates now ttl (filter (\<lambda>(i, sl). slot_policy sl \<noteq> Preload) (slots p))) p)"

text \<open>The change of a pin looks at the state under the lock and sets the pin when it has let it go.\<close>

definition look_pin :: "string \<Rightarrow> engine_pool \<Rightarrow> bool" where
  "look_pin i p = (case slot_of p i of
     Some sl \<Rightarrow> (case slot_state sl of Loaded e t used n c \<Rightarrow> True | _ \<Rightarrow> False) | None \<Rightarrow> False)"

definition set_pinned :: "string \<Rightarrow> bool \<Rightarrow> engine_pool \<Rightarrow> engine_pool" where
  "set_pinned i pinned p = (case slot_of p i of Some sl \<Rightarrow> set_slot i (sl\<lparr>slot_pinned := pinned\<rparr>) p | None \<Rightarrow> p)"

text \<open>What a task does next; one that waits for a slot to be idle stays until it has seen it so.\<close>

definition resume_task :: "nat \<Rightarrow> nat \<Rightarrow> engine_pool \<Rightarrow> engine_pool" where
  "resume_task k now p =
     (let rest = p\<lparr>tasks := take k (tasks p) @ drop (Suc k) (tasks p)\<rparr> in
      case tasks p ! k of
        DrainWatch i \<Rightarrow>
          (case slot_of p i of
             Some sl \<Rightarrow> if slot_active sl = 0 then p\<lparr>tasks := (tasks p)[k := DrainSeen i]\<rparr> else p
           | None \<Rightarrow> p)
      | DrainSeen i \<Rightarrow> finish_draining i now rest
      | TtlSeen i time ttl \<Rightarrow> snd (ttl_unload i time ttl rest)
      | PinSeen i pinned \<Rightarrow> set_pinned i pinned rest)"

section \<open>The machine\<close>

datatype engine_op =
  Enter string load_trigger nat
| Acquire string load_trigger nat
| Reserve "engine_error + bool" nat
| Scan
| ShrinkFailed engine_error nat
| ScanStep
| Evict nat
| ReserveAgain bool nat
| Count
| CountSlot
| Decide nat
| BeginLoading nat
| FinishLoading nat "engine_error + nat" nat
| Cancel
| DropLease nat
| Unload string nat
| LookExpire string nat nat
| LookPin string bool
| Resume nat nat
| MonitorScan
| MonitorStep
| MonitorEvict nat

definition load_step :: "engine_op \<Rightarrow> loader \<Rightarrow> engine_pool \<Rightarrow> engine_pool" where
  "load_step op l p =
     (case (loader_stage l, op) of
        (Entered, Reserve result now) \<Rightarrow> reserve_first result now l p
      | (Refused, Scan) \<Rightarrow> reclaim_scan l p
      | (Refused, ShrinkFailed e now) \<Rightarrow> shrink_failed e now l p
      | (Reclaiming sc, ScanStep) \<Rightarrow> advance_stage l (Reclaiming (scan_slot p sc)) p
      | (Reclaiming sc, Evict now) \<Rightarrow> reclaim_evict sc now l p
      | (Retrying, ReserveAgain granted now) \<Rightarrow> reserve_again granted now l p
      | (Reserved, Count) \<Rightarrow> count_start l p
      | (Counting todo n, CountSlot) \<Rightarrow> count_slot todo n l p
      | (Counting todo n, Decide now) \<Rightarrow> count_decide todo n now l p
      | (Crowded, Scan) \<Rightarrow> crowded_scan l p
      | (Evicting sc, ScanStep) \<Rightarrow> advance_stage l (Evicting (scan_slot p sc)) p
      | (Evicting sc, Evict now) \<Rightarrow> crowded_evict sc now l p
      | (Admitted, BeginLoading now) \<Rightarrow> begin_loading now l p
      | (LoadingEngine n, FinishLoading now result mlx_active) \<Rightarrow> finish_loading now result mlx_active n l p
      | (stage, Cancel) \<Rightarrow> leave_gate p
      | _ \<Rightarrow> p)"

fun engine_step :: "engine_pool \<Rightarrow> engine_op \<Rightarrow> engine_pool" where
  "engine_step p (Enter i trigger now) = snd (look_and_lease i trigger now p)"
| "engine_step p (Acquire i trigger now) = (if gate p = None then snd (acquire_gate i trigger now p) else p)"
| "engine_step p (DropLease k) = (if k < length (leases p) then drop_lease k p else p)"
| "engine_step p (Unload i now) = snd (unload i now p)"
| "engine_step p (LookExpire i now ttl) = (if ttl_look i p then add_task (TtlSeen i now ttl) p else p)"
| "engine_step p (LookPin i pinned) = (if look_pin i p then add_task (PinSeen i pinned) p else p)"
| "engine_step p (Resume k now) = (if k < length (tasks p) then resume_task k now p else p)"
| "engine_step p MonitorScan = (if monitor_scan p = None then p\<lparr>monitor_scan := Some (scan_start ''memory-pressure'' p)\<rparr> else p)"
| "engine_step p MonitorStep = (case monitor_scan p of Some sc \<Rightarrow> p\<lparr>monitor_scan := Some (scan_slot p sc)\<rparr> | None \<Rightarrow> p)"
| "engine_step p (MonitorEvict now) =
     (case monitor_scan p of
        Some sc \<Rightarrow> if scan_todo sc = [] then snd (evict_commit (scan_pick sc) now p)\<lparr>monitor_scan := None\<rparr> else p
      | None \<Rightarrow> p)"
| "engine_step p op = (case gate p of Some l \<Rightarrow> load_step op l p | None \<Rightarrow> p)"

end
