(* ===== verification/EnginePoolInv.thy ===== *)
theory EnginePoolInv
  imports EnginePool
begin

text \<open>
  The invariant of the engine pool (\<open>ironmlx/src/core/server/engine.rs\<close>): requests are counted exactly, the task at the
  gate has its slot for itself, the pool stays within its limits, a count that is under way is not too low, and scans
  and the sweep never collect a preloaded model. That holds however the tasks interleave. That a slot that serves requests keeps its
  engine is a part that a late task may break; the first argument of the invariant says whether it is included.
\<close>

section \<open>Slots as a finite map\<close>

lemma slot_of_set [simp]: "slot_of (set_slot i sl p) j = (if j = i then Some sl else slot_of p j)"
  by (simp add: slot_of_def set_slot_def update_conv')

lemma set_slot_fields [simp]:
  "leases (set_slot i sl p) = leases p" "gate (set_slot i sl p) = gate p" "monitor_scan (set_slot i sl p) = monitor_scan p" "tasks (set_slot i sl p) = tasks p"
  "next_engine (set_slot i sl p) = next_engine p" "capacity_policy (set_slot i sl p) = capacity_policy p"
  "max_loaded (set_slot i sl p) = max_loaded p" "model_limit (set_slot i sl p) = model_limit p" "total_limit (set_slot i sl p) = total_limit p"
  by (simp_all add: set_slot_def)

lemma slot_of_fields [simp]:
  "slot_of (p\<lparr>leases := ls\<rparr>) i = slot_of p i" "slot_of (p\<lparr>gate := g\<rparr>) i = slot_of p i" "slot_of (p\<lparr>monitor_scan := m\<rparr>) i = slot_of p i"
  "slot_of (p\<lparr>tasks := ts\<rparr>) i = slot_of p i"
  "slot_of (p\<lparr>next_engine := n\<rparr>) i = slot_of p i"
  by (simp_all add: slot_of_def)

text \<open>Sums over the slots: replacing one slot exchanges its share.\<close>

definition slot_total :: "(slot \<Rightarrow> nat) \<Rightarrow> engine_pool \<Rightarrow> nat" where
  "slot_total f p = sum_list (map (\<lambda>(i, sl). f sl) (slots p))"

definition keys_ok :: "engine_pool \<Rightarrow> bool" where
  "keys_ok p = distinct (map fst (slots p))"

lemma keys_set [simp]: "keys_ok p \<Longrightarrow> keys_ok (set_slot i sl p)"
  by (simp add: keys_ok_def set_slot_def distinct_update)

lemma total_set:
  assumes "slot_of p i = Some old"
  shows "slot_total f (set_slot i new p) + f old = slot_total f p + f new"
proof -
  have "map_of al i = Some old \<Longrightarrow>
      sum_list (map (\<lambda>(i, sl). f sl) (AList.update i new al)) + f old = sum_list (map (\<lambda>(i, sl). f sl) al) + f new" for al
    by (induction al) (auto split: if_splits)
  then show ?thesis using assms by (simp add: slot_total_def set_slot_def slot_of_def)
qed

definition resident_share :: "slot \<Rightarrow> nat" where
  "resident_share sl = (if resident (slot_state sl) then 1 else 0)"

definition weight_share :: "slot \<Rightarrow> nat" where
  "weight_share sl = loaded_weight (slot_state sl)"

lemma loaded_count_total: "loaded_count p = slot_total resident_share p"
proof -
  have "length (filter (\<lambda>(i, sl). resident (slot_state sl)) al) = sum_list (map (\<lambda>(i, sl). resident_share sl) al)" for al :: "(string \<times> slot) list"
    by (induction al) (auto simp: resident_share_def)
  then show ?thesis by (simp add: loaded_count_def slot_total_def)
qed

lemma excluding_total:
  assumes "keys_ok p" and "slot_of p i = Some sl"
  shows "loaded_model_weight_bytes_excluding i p = min (slot_total weight_share p - weight_share sl) u64_max"
proof -
  let ?share = "\<lambda>(j, sl). if j = i then 0 else loaded_weight (slot_state sl)"
  have f: "foldl (\<lambda>t (j, sl). if j = i then t else sat_add t (loaded_weight (slot_state sl))) (min n u64_max) al
      = min (n + sum_list (map ?share al)) u64_max" for n al
  proof (induction al arbitrary: n)
    case (Cons x al)
    obtain j sl where x: "x = (j, sl)" by fastforce
    have "sat_add (min n u64_max) m = min (n + m) u64_max" for m by (auto simp: sat_add_def min_def)
    then show ?case using Cons.IH [of n] Cons.IH [of "n + loaded_weight (slot_state sl)"] by (simp add: x add.assoc)
  qed simp
  have "distinct (map fst al) \<Longrightarrow> map_of al i = Some sl \<Longrightarrow>
      sum_list (map ?share al) + weight_share sl = sum_list (map (\<lambda>(j, sl). weight_share sl) al)" for al
  proof (induction al)
    case (Cons x al)
    obtain j s' where x: "x = (j, s')" by fastforce
    have a: "i \<notin> set (map fst al) \<Longrightarrow> sum_list (map ?share al) = sum_list (map (\<lambda>(j, sl). weight_share sl) al)" for al
      by (induction al) (auto simp: weight_share_def)
    show ?case
    proof (cases "j = i")
      case True
      then show ?thesis using Cons.prems a [of al] by (simp add: x)
    next
      case False
      then show ?thesis using Cons by (simp add: x weight_share_def)
    qed
  qed simp
  from this [of "slots p"] have h: "sum_list (map ?share (slots p)) + weight_share sl = slot_total weight_share p"
    using assms by (simp add: slot_total_def keys_ok_def slot_of_def)
  then have h: "sum_list (map ?share (slots p)) = slot_total weight_share p - weight_share sl" by linarith
  show ?thesis using f [of 0 "slots p"] unfolding loaded_model_weight_bytes_excluding_def h by simp
qed

text \<open>The engines among the slots that a count has done with.\<close>

definition residents_off :: "string list \<Rightarrow> engine_pool \<Rightarrow> nat" where
  "residents_off todo p = sum_list (map (\<lambda>(i, sl). if i \<in> set todo then 0 else resident_share sl) (slots p))"

lemma residents_off_none [simp]: "residents_off [] p = loaded_count p"
  by (simp add: residents_off_def loaded_count_total slot_total_def)

lemma residents_off_all [simp]: "residents_off (map fst (slots p)) p = 0"
proof -
  have "set al \<subseteq> set (slots p) \<Longrightarrow> sum_list (map (\<lambda>(i, sl). if i \<in> set (map fst (slots p)) then 0 else resident_share sl) al) = 0" for al
    by (induction al) force+
  from this [OF subset_refl] show ?thesis by (simp only: residents_off_def)
qed

lemma residents_off_set:
  assumes "slot_of p i = Some old" and "resident_share new \<le> resident_share old"
  shows "residents_off todo (set_slot i new p) \<le> residents_off todo p"
proof -
  have "map_of al i = Some old \<Longrightarrow> sum_list (map (\<lambda>(i, sl). if i \<in> set todo then 0 else resident_share sl) (AList.update i new al))
      \<le> sum_list (map (\<lambda>(i, sl). if i \<in> set todo then 0 else resident_share sl) al)" for al
    using assms(2) by (induction al) (auto split: if_splits)
  then show ?thesis using assms(1) by (simp add: residents_off_def set_slot_def slot_of_def)
qed

lemma residents_off_tail:
  assumes "keys_ok p"
  shows "residents_off rest p \<le> residents_off (i # rest) p + (case slot_of p i of Some sl \<Rightarrow> resident_share sl | None \<Rightarrow> 0)"
proof -
  let ?f = "\<lambda>todo (i, sl). if i \<in> set todo then 0 else resident_share sl"
  have absent: "i \<notin> set (map fst al) \<Longrightarrow> sum_list (map (?f rest) al) = sum_list (map (?f (i # rest)) al)" for al
    by (induction al) auto
  have "distinct (map fst al) \<Longrightarrow> sum_list (map (?f rest) al) \<le> sum_list (map (?f (i # rest)) al) + (case map_of al i of Some sl \<Rightarrow> resident_share sl | None \<Rightarrow> 0)" for al
  proof (induction al)
    case (Cons x al)
    obtain j sl where x: "x = (j, sl)" by fastforce
    show ?case
    proof (cases "j = i")
      case True
      then show ?thesis using Cons.prems absent [of al] by (simp add: x)
    next
      case False
      then show ?thesis using Cons by (simp add: x)
    qed
  qed simp
  then show ?thesis using assms by (simp add: residents_off_def keys_ok_def slot_of_def)
qed

section \<open>The invariant\<close>

abbreviation counted :: "string \<Rightarrow> engine_pool \<Rightarrow> lease list" where
  "counted i p \<equiv> filter (\<lambda>l. lease_counted l \<and> lease_slot l = i) (leases p)"

fun serves :: "slot_state \<Rightarrow> engine \<Rightarrow> bool" where
  "serves (Loaded e t u n c) e' = (e = e')"
| "serves (Draining t n c) e' = True"
| "serves _ e' = False"

definition slots_ok :: "bool \<Rightarrow> engine_pool \<Rightarrow> bool" where
  "slots_ok s p = (\<forall>i sl. slot_of p i = Some sl \<longrightarrow>
     slot_active sl = length (counted i p) \<and> (s \<longrightarrow> (\<forall>l \<in> set (counted i p). serves (slot_state sl) (lease_engine l))))"

fun stage_fits :: "load_stage \<Rightarrow> slot_state \<Rightarrow> bool" where
  "stage_fits (LoadingEngine n) (Loading t n') = (n = n')"
| "stage_fits (LoadingEngine n) _ = False"
| "stage_fits _ (Unloaded r e t n) = True"
| "stage_fits _ (Failed e t n) = True"
| "stage_fits _ _ = False"

definition gate_ok :: "engine_pool \<Rightarrow> bool" where
  "gate_ok p = (\<forall>l. gate p = Some l \<longrightarrow> (\<exists>sl. slot_of p (loader_slot l) = Some sl \<and> stage_fits (loader_stage l) (slot_state sl)))"

fun promised :: "load_stage \<Rightarrow> nat" where
  "promised Admitted = 1"
| "promised (LoadingEngine n) = 1"
| "promised _ = 0"

definition limits_ok :: "engine_pool \<Rightarrow> bool" where
  "limits_ok p = ((\<forall>m. max_loaded p = Some m \<longrightarrow> loaded_count p + (case gate p of Some l \<Rightarrow> promised (loader_stage l) | None \<Rightarrow> 0) \<le> m)
     \<and> (\<forall>b. model_limit p = Some b \<longrightarrow> b < u64_max \<longrightarrow> slot_total weight_share p \<le> b))"

fun count_covers :: "engine_pool \<Rightarrow> load_stage \<Rightarrow> bool" where
  "count_covers p (Counting todo n) = (residents_off todo p \<le> n)"
| "count_covers p _ = True"

definition count_ok :: "engine_pool \<Rightarrow> bool" where
  "count_ok p = (\<forall>l. gate p = Some l \<longrightarrow> count_covers p (loader_stage l))"

definition evicts :: "engine_pool \<Rightarrow> string \<Rightarrow> bool" where
  "evicts p i = (\<forall>sl. slot_of p i = Some sl \<longrightarrow> slot_policy sl \<noteq> Preload)"

definition scan_ok :: "engine_pool \<Rightarrow> scan \<Rightarrow> bool" where
  "scan_ok p sc = ((\<forall>(i, used) \<in> set (scan_seen sc). evicts p i) \<and> (scan_passed sc \<longrightarrow> (\<forall>i rest. scan_todo sc = i # rest \<longrightarrow> evicts p i)))"

fun stage_scans :: "engine_pool \<Rightarrow> load_stage \<Rightarrow> bool" where
  "stage_scans p (Reclaiming sc) = scan_ok p sc"
| "stage_scans p (Evicting sc) = scan_ok p sc"
| "stage_scans p _ = True"

fun task_ok :: "engine_pool \<Rightarrow> pending_task \<Rightarrow> bool" where
  "task_ok p (TtlSeen i now ttl) = evicts p i"
| "task_ok p _ = True"

definition picks_ok :: "engine_pool \<Rightarrow> bool" where
  "picks_ok p = ((\<forall>t \<in> set (tasks p). task_ok p t) \<and> (\<forall>sc. monitor_scan p = Some sc \<longrightarrow> scan_ok p sc) \<and> (\<forall>l. gate p = Some l \<longrightarrow> stage_scans p (loader_stage l)))"

definition engines_inv :: "bool \<Rightarrow> engine_pool \<Rightarrow> bool" where
  "engines_inv s p = (keys_ok p \<and> slots_ok s p \<and> gate_ok p \<and> limits_ok p \<and> count_ok p \<and> picks_ok p)"

lemma engines_invD:
  assumes "engines_inv s p"
  shows "keys_ok p" and "slot_of p i = Some sl \<Longrightarrow> slot_active sl = length (counted i p)"
    and "s \<Longrightarrow> slot_of p i = Some sl \<Longrightarrow> l \<in> set (counted i p) \<Longrightarrow> serves (slot_state sl) (lease_engine l)"
    and "gate p = Some x \<Longrightarrow> \<exists>sl. slot_of p (loader_slot x) = Some sl \<and> stage_fits (loader_stage x) (slot_state sl)"
    and "max_loaded p = Some m \<Longrightarrow> gate p = Some x \<Longrightarrow> loaded_count p + promised (loader_stage x) \<le> m"
    and "max_loaded p = Some m \<Longrightarrow> loaded_count p \<le> m"
    and "model_limit p = Some b \<Longrightarrow> b < u64_max \<Longrightarrow> slot_total weight_share p \<le> b" and "picks_ok p" and "count_ok p"
  using assms by (auto simp: engines_inv_def slots_ok_def gate_ok_def limits_ok_def split: option.splits)

lemma resident_not_staged [dest]: "stage_fits stage st \<Longrightarrow> resident st \<Longrightarrow> False"
  by (cases "(stage, st)" rule: stage_fits.cases) auto

lemma total_fields [simp]:
  "slot_total f (p\<lparr>leases := ls\<rparr>) = slot_total f p" "slot_total f (p\<lparr>gate := g\<rparr>) = slot_total f p" "slot_total f (p\<lparr>monitor_scan := m\<rparr>) = slot_total f p"
  "slot_total f (p\<lparr>tasks := ts\<rparr>) = slot_total f p"
  "slot_total f (p\<lparr>next_engine := n\<rparr>) = slot_total f p"
  by (simp_all add: slot_total_def)

lemma count_fields [simp]: "loaded_count (p\<lparr>leases := ls\<rparr>) = loaded_count p" "loaded_count (p\<lparr>gate := g\<rparr>) = loaded_count p"
  "loaded_count (p\<lparr>monitor_scan := m\<rparr>) = loaded_count p" "loaded_count (p\<lparr>tasks := ts\<rparr>) = loaded_count p" "loaded_count (p\<lparr>next_engine := n\<rparr>) = loaded_count p"
  by (simp_all add: loaded_count_def)

lemma keys_fields [simp]: "keys_ok (p\<lparr>leases := ls\<rparr>) = keys_ok p" "keys_ok (p\<lparr>gate := g\<rparr>) = keys_ok p"
  "keys_ok (p\<lparr>monitor_scan := m\<rparr>) = keys_ok p" "keys_ok (p\<lparr>tasks := ts\<rparr>) = keys_ok p" "keys_ok (p\<lparr>next_engine := n\<rparr>) = keys_ok p"
  by (simp_all add: keys_ok_def)

lemma off_fields [simp]: "residents_off todo (p\<lparr>leases := ls\<rparr>) = residents_off todo p" "residents_off todo (p\<lparr>gate := g\<rparr>) = residents_off todo p"
  "residents_off todo (p\<lparr>monitor_scan := m\<rparr>) = residents_off todo p" "residents_off todo (p\<lparr>tasks := ts\<rparr>) = residents_off todo p"
  "residents_off todo (p\<lparr>next_engine := n\<rparr>) = residents_off todo p"
  by (simp_all add: residents_off_def)

lemma covers_fields [simp]: "count_covers (p\<lparr>leases := ls\<rparr>) st = count_covers p st" "count_covers (p\<lparr>gate := g\<rparr>) st = count_covers p st"
  "count_covers (p\<lparr>monitor_scan := m\<rparr>) st = count_covers p st" "count_covers (p\<lparr>tasks := ts\<rparr>) st = count_covers p st"
  "count_covers (p\<lparr>next_engine := n\<rparr>) st = count_covers p st"
  by (cases st; simp)+

lemma covers_set:
  assumes "slot_of p i = Some old" and "resident_share new \<le> resident_share old" and "count_covers p st"
  shows "count_covers (set_slot i new p) st"
  using assms residents_off_set [OF assms(1,2)] by (cases st) (auto intro: le_trans)

lemma evicts_set: "slot_of p i = Some old \<Longrightarrow> slot_policy new = slot_policy old \<Longrightarrow> evicts (set_slot i new p) j = evicts p j"
  by (auto simp: evicts_def)

lemma scan_set: "slot_of p i = Some old \<Longrightarrow> slot_policy new = slot_policy old \<Longrightarrow> scan_ok (set_slot i new p) x = scan_ok p x"
  by (simp add: scan_ok_def evicts_set)

lemma scans_set: "slot_of p i = Some old \<Longrightarrow> slot_policy new = slot_policy old \<Longrightarrow> stage_scans (set_slot i new p) x = stage_scans p x"
  by (cases x) (simp_all add: scan_set)

lemma scan_fields [simp]: "scan_ok (p\<lparr>leases := ls\<rparr>) x = scan_ok p x" "scan_ok (p\<lparr>gate := g\<rparr>) x = scan_ok p x"
  "scan_ok (p\<lparr>monitor_scan := m\<rparr>) x = scan_ok p x" "scan_ok (p\<lparr>tasks := ts\<rparr>) x = scan_ok p x" "scan_ok (p\<lparr>next_engine := n\<rparr>) x = scan_ok p x"
  by (simp_all add: scan_ok_def evicts_def)

lemma scans_fields [simp]: "stage_scans (p\<lparr>leases := ls\<rparr>) x = stage_scans p x" "stage_scans (p\<lparr>gate := g\<rparr>) x = stage_scans p x"
  "stage_scans (p\<lparr>monitor_scan := m\<rparr>) x = stage_scans p x" "stage_scans (p\<lparr>tasks := ts\<rparr>) x = stage_scans p x" "stage_scans (p\<lparr>next_engine := n\<rparr>) x = stage_scans p x"
  by (cases x; simp)+

lemma task_set: "slot_of p i = Some old \<Longrightarrow> slot_policy new = slot_policy old \<Longrightarrow> task_ok (set_slot i new p) t = task_ok p t"
  by (cases t) (simp_all add: evicts_set)

lemma task_fields [simp]: "task_ok (p\<lparr>leases := ls\<rparr>) t = task_ok p t" "task_ok (p\<lparr>gate := g\<rparr>) t = task_ok p t"
  "task_ok (p\<lparr>monitor_scan := m\<rparr>) t = task_ok p t" "task_ok (p\<lparr>tasks := ts\<rparr>) t = task_ok p t" "task_ok (p\<lparr>next_engine := n\<rparr>) t = task_ok p t"
  by (cases t; simp add: evicts_def)+

lemma picks_set: "slot_of p i = Some old \<Longrightarrow> slot_policy new = slot_policy old \<Longrightarrow> picks_ok (set_slot i new p) = picks_ok p"
  by (simp add: picks_ok_def scan_set scans_set task_set)

text \<open>Replacing a slot by one that holds no more.\<close>

lemma engines_inv_set:
  assumes i: "engines_inv s p" and o: "slot_of p i = Some old" and a: "slot_active new = slot_active old" "slot_policy new = slot_policy old"
    and s: "\<And>l. s \<Longrightarrow> l \<in> set (counted i p) \<Longrightarrow> serves (slot_state new) (lease_engine l)"
    and r: "resident_share new \<le> resident_share old" "weight_share new \<le> weight_share old"
    and g: "\<And>l. gate p = Some l \<Longrightarrow> loader_slot l = i \<Longrightarrow> stage_fits (loader_stage l) (slot_state new)"
  shows "engines_inv s (set_slot i new p)"
proof -
  note d = engines_invD [OF i]
  have t: "slot_total resident_share (set_slot i new p) \<le> slot_total resident_share p" "slot_total weight_share (set_slot i new p) \<le> slot_total weight_share p"
    using total_set [OF o, of resident_share new] total_set [OF o, of weight_share new] r by linarith+
  have "slots_ok s (set_slot i new p)" using i o a(1) s by (auto simp: engines_inv_def slots_ok_def)
  moreover have "gate_ok (set_slot i new p)" using i g by (auto simp: engines_inv_def gate_ok_def)
  moreover have "limits_ok (set_slot i new p)"
    using i t unfolding engines_inv_def limits_ok_def loaded_count_total set_slot_fields by (meson add_le_mono1 le_trans)
  moreover have "count_ok (set_slot i new p)" using d(9) covers_set [OF o r(1)] by (simp add: count_ok_def)
  moreover have "picks_ok (set_slot i new p)" using d(8) picks_set [OF o a(2)] by simp
  ultimately show ?thesis using d(1) by (simp add: engines_inv_def)
qed

lemma idle_uncounted: "engines_inv s p \<Longrightarrow> slot_of p i = Some sl \<Longrightarrow> slot_active sl = 0 \<Longrightarrow> counted i p = []"
  using engines_invD(2) [of s p i sl] by simp

lemma quiet_uncounted:
  assumes "engines_inv s p" and s and "slot_of p i = Some sl" and "\<not> resident (slot_state sl)"
  shows "counted i p = []"
proof (rule ccontr)
  assume "counted i p \<noteq> []"
  then obtain l where "l \<in> set (counted i p)" using hd_in_set by blast
  from engines_invD(3) [OF assms(1-3) this] show False using assms(4) by (cases "slot_state sl") auto
qed

text \<open>Leaving \<open>Loaded\<close> or \<open>Draining\<close>; nobody may be served then, if that is to be kept.\<close>

lemma retire_inv:
  assumes "engines_inv s p" and "slot_of p i = Some sl" and "resident (slot_state sl)" and "s \<Longrightarrow> slot_active sl = 0"
  shows "engines_inv s (set_state i (Unloaded r e t n) p)"
    and "loaded_count (set_state i (Unloaded r e t n) p) + 1 = loaded_count p"
proof -
  have "gate p = Some l \<Longrightarrow> loader_slot l \<noteq> i" for l using engines_invD(4) [OF assms(1), of l] assms(2,3) by auto
  then have "engines_inv s (set_slot i (sl\<lparr>slot_state := Unloaded r e t n\<rparr>) p)"
    using idle_uncounted [OF assms(1,2) assms(4)] by (intro engines_inv_set [OF assms(1,2)]) (auto simp: resident_share_def weight_share_def)
  then show "engines_inv s (set_state i (Unloaded r e t n) p)" using assms(2) by (simp add: set_state_def)
  show "loaded_count (set_state i (Unloaded r e t n) p) + 1 = loaded_count p"
    using total_set [OF assms(2), of resident_share "sl\<lparr>slot_state := Unloaded r e t n\<rparr>"] assms(2,3)
    by (simp add: loaded_count_total set_state_def resident_share_def)
qed

text \<open>From one state without an engine to another.\<close>

lemma quiet_inv:
  assumes "engines_inv s p" and "slot_of p i = Some sl" and "\<not> resident (slot_state sl)" and "\<not> resident st"
    and "\<And>l. gate p = Some l \<Longrightarrow> loader_slot l = i \<Longrightarrow> stage_fits (loader_stage l) st"
  shows "engines_inv s (set_state i st p)"
proof -
  have "weight_share (sl\<lparr>slot_state := st\<rparr>) = 0" using assms(4) by (cases st) (simp_all add: weight_share_def)
  then have "engines_inv s (set_slot i (sl\<lparr>slot_state := st\<rparr>) p)"
    using quiet_uncounted [OF assms(1) _ assms(2,3)] assms(4,5) by (intro engines_inv_set [OF assms(1,2)]) (auto simp: resident_share_def)
  then show ?thesis using assms(2) by (simp add: set_state_def)
qed

lemma leave_inv: "engines_inv s p \<Longrightarrow> engines_inv s (leave_gate p)"
  by (auto simp: leave_gate_def engines_inv_def slots_ok_def gate_ok_def limits_ok_def count_ok_def picks_ok_def split: option.splits)

text \<open>What tasks have still to do is not the pool.\<close>

lemma tasks_inv: "engines_inv s p \<Longrightarrow> (\<And>t. t \<in> set ts \<Longrightarrow> task_ok p t) \<Longrightarrow> engines_inv s (p\<lparr>tasks := ts\<rparr>)"
  by (simp add: engines_inv_def slots_ok_def gate_ok_def limits_ok_def count_ok_def picks_ok_def)

lemma monitor_inv: "engines_inv s p \<Longrightarrow> (\<And>sc. m = Some sc \<Longrightarrow> scan_ok p sc) \<Longrightarrow> engines_inv s (p\<lparr>monitor_scan := m\<rparr>)"
  by (simp add: engines_inv_def slots_ok_def gate_ok_def limits_ok_def count_ok_def picks_ok_def)

lemma advance_stage_inv:
  assumes i: "engines_inv s p" and s: "slot_of p (loader_slot l) = Some sl" "stage_fits stage (slot_state sl)"
    and c: "promised stage = 0 \<or> (\<forall>m. max_loaded p = Some m \<longrightarrow> loaded_count p + promised stage \<le> m)"
    and k: "count_covers p stage" "stage_scans p stage"
  shows "engines_inv s (advance_stage l stage p)"
proof -
  have "gate_ok (advance_stage l stage p)" using s by (simp add: gate_ok_def advance_stage_def)
  moreover have "limits_ok (advance_stage l stage p)"
    using c engines_invD(6,7) [OF i] by (auto simp: limits_ok_def advance_stage_def)
  moreover have "count_ok (advance_stage l stage p)" "picks_ok (advance_stage l stage p)"
    using k engines_invD(8) [OF i] by (simp_all add: count_ok_def picks_ok_def advance_stage_def)
  ultimately show ?thesis using i by (simp add: engines_inv_def slots_ok_def advance_stage_def)
qed

end
