(* ===== verification/EnginePoolSteps.thy ===== *)
theory EnginePoolSteps
  imports EnginePoolInv
begin

text \<open>
  Every step of the engine pool (\<open>ironmlx/src/core/server/engine.rs\<close>) keeps the invariant; the part that a slot in use
  keeps its engine as long as no task that has seen the slot idle comes late.
\<close>

section \<open>Eviction\<close>

lemma scan_start_ok [simp]: "scan_ok p (scan_start target p)"
  by (simp add: scan_ok_def scan_start_def)

lemma scan_slot_ok:
  assumes "scan_ok p sc"
  shows "scan_ok p (scan_slot p sc)"
proof (cases "scan_todo sc")
  case Nil
  then show ?thesis using assms by (simp add: scan_slot_def)
next
  case (Cons i rest)
  then show ?thesis using assms
    by (auto simp: scan_slot_def scan_ok_def scan_skips_def evicts_def split: option.split)
qed

lemma picked_seen:
  assumes "scan_pick sc = Some i"
  shows "\<exists>used. (i, used) \<in> set (scan_seen sc)"
proof -
  obtain used rest where "sort_key (\<lambda>(i, used). (used, i)) (scan_seen sc) = (i, used) # rest"
    using assms unfolding scan_pick_def select_lru_eviction_candidate_def by (auto split: list.splits)
  then have "(i, used) \<in> set (scan_seen sc)" by (metis list.set_intros(1) set_sort)
  then show ?thesis by blast
qed

lemma picked_evicts: "scan_ok p sc \<Longrightarrow> scan_pick sc = Some i \<Longrightarrow> evicts p i"
  using picked_seen by (fastforce simp: scan_ok_def)

lemma evict_cases:
  assumes "evict_commit pick now p = (b, q)"
  obtains "\<not> b" and "q = p"
  | i sl e t used n c where "b" and "pick = Some i" and "slot_of p i = Some sl" and "slot_state sl = Loaded e t used n c" and "\<not> slot_pinned sl"
      and "slot_active sl = 0" and "strong_count e p = 1" and "q = set_state i (Unloaded Evicted None now n) p"
proof (cases "\<exists>i sl e t used n c. pick = Some i \<and> slot_of p i = Some sl \<and> slot_state sl = Loaded e t used n c
    \<and> \<not> (slot_pinned sl \<or> slot_active sl \<noteq> 0 \<or> strong_count e p \<noteq> 1)")
  case True
  then obtain i sl e t used n c where x: "pick = Some i" "slot_of p i = Some sl" "slot_state sl = Loaded e t used n c"
    and y: "\<not> (slot_pinned sl \<or> slot_active sl \<noteq> 0 \<or> strong_count e p \<noteq> 1)" by blast
  have "b" "q = set_state i (Unloaded Evicted None now n) p"
    using assms unfolding evict_commit_def x option.case x(2) slot_state.case if_not_P [OF y] by simp_all
  then show ?thesis using x y that(2) by simp
next
  case False
  then have "evict_commit pick now p = (False, p)"
    unfolding evict_commit_def by (fastforce split: option.split slot_state.split if_split)
  then show ?thesis using assms that(1) by simp
qed

lemma evict_inv:
  assumes "engines_inv s p" and "evict_commit pick now p = (b, q)"
  shows "engines_inv s q" and "b \<Longrightarrow> loaded_count q + 1 = loaded_count p" and "gate q = gate p" and "max_loaded q = max_loaded p"
proof -
  have "engines_inv s q \<and> (b \<longrightarrow> loaded_count q + 1 = loaded_count p) \<and> gate q = gate p \<and> max_loaded q = max_loaded p"
    using assms(2)
  proof (cases rule: evict_cases)
    case (2 i sl e t used n c)
    then show ?thesis using retire_inv [OF assms(1) 2(3)] by (simp add: set_state_def)
  qed (use assms(1) in simp)
  then show "engines_inv s q" and "b \<Longrightarrow> loaded_count q + 1 = loaded_count p" and "gate q = gate p" and "max_loaded q = max_loaded p" by simp_all
qed

lemma evict_slot:
  assumes "evict_commit pick now p = (b, q)" and "slot_of p j = Some sl" and "\<not> resident (slot_state sl)"
  shows "slot_of q j = Some sl"
  using assms(1)
proof (cases rule: evict_cases)
  case (2 i x e t used n c)
  then have "i \<noteq> j" using assms(2,3) by auto
  then show ?thesis using 2 assms(2) by (simp add: set_state_def)
qed (use assms(2) in simp)

section \<open>Requests\<close>

lemma look_at_cases:
  assumes "look_at i trigger now sl = (l, sl')"
  obtains e t used n c where "slot_state sl = Loaded e t used n c" and "l = Granted e" and "trigger = Request"
      and "sl' = sl\<lparr>slot_active := slot_active sl + 1, slot_state := Loaded e t now n (sat_add c 1)\<rparr>"
  | e t used n c where "slot_state sl = Loaded e t used n c" and "l = Granted e" and "trigger = Control" and "sl' = sl"
  | t n c where "slot_state sl = Draining t n c" and "l = Proceed" and "slot_active sl = 0" and "sl' = sl\<lparr>slot_state := Unloaded Manual None now n\<rparr>"
  | r e t n where "slot_state sl = Unloaded r e t n" and "l = Proceed" and "sl' = sl"
  | e t n where "slot_state sl = Failed e t n" and "l = Proceed" and "sl' = sl"
  | "\<And>e. l \<noteq> Granted e" and "l \<noteq> Proceed" and "sl' = sl"
  using assms by (cases "slot_state sl"; cases trigger) (auto simp: look_at_def split: if_splits)

lemma set_same: "engines_inv s p \<Longrightarrow> slot_of p i = Some sl \<Longrightarrow> engines_inv s (set_slot i sl p)"
  by (rule engines_inv_set) (auto dest: engines_invD(3) engines_invD(4))

text \<open>A new lease on a slot that serves the engine.\<close>

lemma lease_inv:
  assumes i: "engines_inv s p" and o: "slot_of p i = Some old" and e: "serves (slot_state old) e" "slot_policy new = slot_policy old"
    and a: "slot_active new = slot_active old + (if b then 1 else 0)"
    and st: "\<And>e. serves (slot_state old) e \<Longrightarrow> serves (slot_state new) e"
      "resident_share new = resident_share old" "weight_share new = weight_share old"
    and g: "\<And>l. gate p = Some l \<Longrightarrow> loader_slot l \<noteq> i"
  shows "engines_inv s (set_slot i new p\<lparr>leases := leases p @ [\<lparr>lease_slot = i, lease_engine = e, lease_counted = b\<rparr>]\<rparr>)"
proof -
  let ?q = "set_slot i new p\<lparr>leases := leases p @ [\<lparr>lease_slot = i, lease_engine = e, lease_counted = b\<rparr>]\<rparr>"
  have t: "slot_total resident_share (set_slot i new p) = slot_total resident_share p" "slot_total weight_share (set_slot i new p) = slot_total weight_share p"
    using total_set [OF o, of resident_share new] total_set [OF o, of weight_share new] st(2,3) by linarith+
  have "slots_ok s ?q"
    unfolding slots_ok_def
  proof (intro allI impI)
    fix j sl assume "slot_of ?q j = Some sl"
    then consider "j = i" "sl = new" | "j \<noteq> i" "slot_of p j = Some sl" by (auto split: if_splits)
    then show "slot_active sl = length (counted j ?q) \<and> (s \<longrightarrow> (\<forall>l \<in> set (counted j ?q). serves (slot_state sl) (lease_engine l)))"
    proof cases
      case 1
      then show ?thesis using engines_invD(2) [OF i o] engines_invD(3) [OF i _ o] a e(1) st(1) by auto
    next
      case 2
      then show ?thesis using engines_invD(2) [OF i 2(2)] engines_invD(3) [OF i _ 2(2)] by auto
    qed
  qed
  moreover have "gate_ok ?q" using engines_invD(4) [OF i] g by (auto simp: gate_ok_def)
  moreover have "limits_ok ?q" using i t by (simp add: engines_inv_def limits_ok_def loaded_count_total)
  moreover have "count_ok ?q" using engines_invD(9) [OF i] covers_set [OF o eq_refl [OF st(2)]] by (simp add: count_ok_def)
  moreover have "picks_ok ?q" using engines_invD(8) [OF i] picks_set [OF o e(2)] by (simp add: picks_ok_def)
  ultimately show ?thesis using engines_invD(1) [OF i] by (simp add: engines_inv_def)
qed

lemma resident_not_loading: "engines_inv s p \<Longrightarrow> slot_of p i = Some sl \<Longrightarrow> resident (slot_state sl) \<Longrightarrow> gate p = Some l \<Longrightarrow> loader_slot l \<noteq> i"
  using engines_invD(4) [of s p l] by auto

lemma look_inv:
  assumes i: "engines_inv s p" and l: "look_and_lease i trigger now p = (l, q)"
  shows "engines_inv s q" and "l = Proceed \<Longrightarrow> \<exists>sl. slot_of q i = Some sl \<and> stage_fits Entered (slot_state sl)" and "gate q = gate p"
proof -
  have "engines_inv s q \<and> (l = Proceed \<longrightarrow> (\<exists>sl. slot_of q i = Some sl \<and> stage_fits Entered (slot_state sl))) \<and> gate q = gate p"
  proof (cases "\<exists>sl. slot_of p i = Some sl \<and> slot_policy sl \<noteq> Disabled")
    case True
    then obtain sl where o: "slot_of p i = Some sl" "slot_policy sl \<noteq> Disabled" by blast
    obtain l' sl' where k: "look_at i trigger now sl = (l', sl')" by fastforce
    have e: "l = l'" "\<And>e. l = Granted e \<Longrightarrow> q = set_slot i sl' p\<lparr>leases := leases p @ [\<lparr>lease_slot = i, lease_engine = e, lease_counted = (trigger = Request)\<rparr>]\<rparr>"
      "(\<And>e. l \<noteq> Granted e) \<Longrightarrow> q = set_slot i sl' p"
      using l o k by (auto simp: look_and_lease_def Let_def split: look.splits)
    show ?thesis using k
    proof (cases rule: look_at_cases)
      case (1 e t used n c)
      have q: "q = set_slot i sl' p\<lparr>leases := leases p @ [\<lparr>lease_slot = i, lease_engine = e, lease_counted = True\<rparr>]\<rparr>"
        using e(1,2) 1 by simp
      have "engines_inv s q" unfolding q
        by (rule lease_inv [OF i o(1)])
          (use 1 resident_not_loading [OF i o(1)] in \<open>simp_all add: resident_share_def weight_share_def\<close>)
      then show ?thesis using q e(1) 1(2) by simp
    next
      case (2 e t used n c)
      have q: "q = set_slot i sl' p\<lparr>leases := leases p @ [\<lparr>lease_slot = i, lease_engine = e, lease_counted = False\<rparr>]\<rparr>"
        using e(1,2) 2 by simp
      have "engines_inv s q" unfolding q
        by (rule lease_inv [OF i o(1)])
          (use 2 resident_not_loading [OF i o(1)] in \<open>simp_all add: resident_share_def weight_share_def\<close>)
      then show ?thesis using q e(1) 2(2) by simp
    next
      case (3 t n c)
      have "q = set_state i (Unloaded Manual None now n) p" using e 3 o(1) by (simp add: set_state_def)
      then show ?thesis using retire_inv(1) [OF i o(1)] 3 o(1) by (simp add: set_state_def)
    next
      case (4 r x t n)
      then show ?thesis using e set_same [OF i o(1)] by simp
    next
      case (5 x t n)
      then show ?thesis using e set_same [OF i o(1)] by simp
    next
      case 6
      then show ?thesis using e set_same [OF i o(1)] by simp
    qed
  next
    case False
    then show ?thesis using l i by (auto simp: look_and_lease_def split: option.splits)
  qed
  then show "engines_inv s q" and "l = Proceed \<Longrightarrow> \<exists>sl. slot_of q i = Some sl \<and> stage_fits Entered (slot_state sl)" and "gate q = gate p" by auto
qed

lemma acquire_inv:
  assumes i: "engines_inv s p" and g: "gate p = None"
  shows "engines_inv s (snd (acquire_gate i trigger now p))"
proof -
  obtain l q where l: "look_and_lease i trigger now p = (l, q)" by fastforce
  note k = look_inv [OF i l]
  show ?thesis
  proof (cases "l = Proceed")
    case True
    let ?l = "\<lparr>loader_slot = i, loader_trigger = trigger, loader_stage = Entered\<rparr>"
    obtain sl where "slot_of q (loader_slot ?l) = Some sl" "stage_fits Entered (slot_state sl)" using k(2) True by auto
    then have "engines_inv s (advance_stage ?l Entered q)" by (rule advance_stage_inv [OF k(1)]) simp_all
    then show ?thesis using True l by (simp add: acquire_gate_def advance_stage_def)
  next
    case False
    then show ?thesis using k(1) l by (cases l) (simp_all add: acquire_gate_def)
  qed
qed

section \<open>The task at the gate\<close>

lemma gate_slot:
  assumes "engines_inv s p" and "gate p = Some l"
  obtains sl where "slot_of p (loader_slot l) = Some sl" and "stage_fits (loader_stage l) (slot_state sl)"
  using engines_invD(4) [OF assms] by blast

lemma waiting_fits:
  assumes "stage_fits stage st" and "\<And>n. stage \<noteq> LoadingEngine n" and "\<And>n. stage' \<noteq> LoadingEngine n"
  shows "stage_fits stage' st"
  using assms by (cases stage; cases stage'; cases st) simp_all

lemma rejected_inv:
  assumes i: "engines_inv s p" and g: "gate p = Some l" and s: "\<And>n. loader_stage l \<noteq> LoadingEngine n"
  shows "engines_inv s (capacity_rejected l e now p)"
proof -
  obtain sl where o: "slot_of p (loader_slot l) = Some sl" "stage_fits (loader_stage l) (slot_state sl)" by (rule gate_slot [OF i g])
  have "stage_fits (loader_stage l) (Unloaded r x t n)" for r x t n
  proof (cases "loader_stage l")
    case (LoadingEngine k)
    then show ?thesis using s [of k] by simp
  qed simp_all
  then have "engines_inv s (set_state (loader_slot l) (Unloaded CapacityRejected (Some e) now (attempts_at (loader_slot l) p)) p)"
    using o g by (intro quiet_inv [OF i o(1)]) auto
  then show ?thesis unfolding capacity_rejected_def by (rule leave_inv)
qed

lemma stage_on:
  assumes i: "engines_inv s p" and g: "gate p = Some l" and s: "\<And>n. loader_stage l \<noteq> LoadingEngine n" and t: "\<And>n. stage \<noteq> LoadingEngine n"
    and c: "promised stage = 0 \<or> (\<forall>m. max_loaded p = Some m \<longrightarrow> loaded_count p + promised stage \<le> m)"
    and k: "count_covers p stage" "stage_scans p stage"
  shows "engines_inv s (advance_stage l stage p)"
proof -
  obtain sl where o: "slot_of p (loader_slot l) = Some sl" "stage_fits (loader_stage l) (slot_state sl)" by (rule gate_slot [OF i g])
  show ?thesis by (rule advance_stage_inv [OF i o(1) waiting_fits [OF o(2) s t] c k])
qed

lemma count_start_inv:
  assumes i: "engines_inv s p" and g: "gate p = Some l" and r: "loader_stage l = Reserved"
  shows "engines_inv s (count_start l p)"
  using r by (auto simp: count_start_def intro!: stage_on [OF i g] split: option.split)

lemma count_slot_inv:
  assumes i: "engines_inv s p" and g: "gate p = Some l" and r: "loader_stage l = Counting todo n"
  shows "engines_inv s (count_slot todo n l p)"
proof (cases todo)
  case Nil
  then show ?thesis using i by (simp add: count_slot_def)
next
  case (Cons x rest)
  let ?here = "case slot_of p x of Some sl \<Rightarrow> resident (slot_state sl) | None \<Rightarrow> False"
  have "residents_off todo p \<le> n" using engines_invD(9) [OF i] g r by (simp add: count_ok_def)
  then have "residents_off rest p \<le> n + (if ?here then 1 else 0)"
    using residents_off_tail [OF engines_invD(1) [OF i], of rest x] by (auto simp: Cons resident_share_def split: option.splits)
  then have "engines_inv s (advance_stage l (Counting rest (n + (if ?here then 1 else 0))) p)"
    using r by (intro stage_on [OF i g]) simp_all
  then show ?thesis by (simp add: count_slot_def Cons)
qed

lemma count_decide_inv:
  assumes i: "engines_inv s p" and g: "gate p = Some l" and r: "loader_stage l = Counting todo n"
  shows "engines_inv s (count_decide todo n now l p)"
proof (cases "todo = [] \<and> max_loaded p \<noteq> None")
  case False
  then show ?thesis using i by (auto simp: count_decide_def split: list.split option.split)
next
  case True
  then obtain m where m: "todo = []" "max_loaded p = Some m" by blast
  have n: "loaded_count p \<le> n" using engines_invD(9) [OF i] g r m(1) by (simp add: count_ok_def)
  show ?thesis
  proof (cases "decide_engine_pool_capacity (capacity_policy p) m n")
    case Continue
    then have "n < m" by (auto simp: decide_engine_pool_capacity_def split: if_splits capacity_policy.splits)
    then have "engines_inv s (advance_stage l Admitted p)" using m(2) n r by (intro stage_on [OF i g]) simp_all
    then show ?thesis using m Continue by (simp add: count_decide_def)
  next
    case Reject
    then show ?thesis using m rejected_inv [OF i g] r by (simp add: count_decide_def)
  next
    case TryEvictLruIdle
    then show ?thesis using m r by (simp add: count_decide_def stage_on [OF i g])
  qed
qed

lemma scan_step_inv:
  assumes i: "engines_inv s p" and g: "gate p = Some l" and r: "loader_stage l = Reclaiming sc \<or> loader_stage l = Evicting sc"
  shows "loader_stage l = Reclaiming sc \<Longrightarrow> engines_inv s (advance_stage l (Reclaiming (scan_slot p sc)) p)"
    and "loader_stage l = Evicting sc \<Longrightarrow> engines_inv s (advance_stage l (Evicting (scan_slot p sc)) p)"
proof -
  have "scan_ok p sc" using engines_invD(8) [OF i] g r by (auto simp: picks_ok_def)
  then have k: "scan_ok p (scan_slot p sc)" by (rule scan_slot_ok)
  show "loader_stage l = Reclaiming sc \<Longrightarrow> engines_inv s (advance_stage l (Reclaiming (scan_slot p sc)) p)"
    and "loader_stage l = Evicting sc \<Longrightarrow> engines_inv s (advance_stage l (Evicting (scan_slot p sc)) p)"
    using k by (auto intro!: stage_on [OF i g])
qed

lemma reclaim_evict_inv:
  assumes i: "engines_inv s p" and g: "gate p = Some l" and r: "loader_stage l = Reclaiming sc"
  shows "engines_inv s (reclaim_evict sc now l p)"
proof -
  obtain b q where e: "evict_commit (scan_pick sc) now p = (b, q)" by fastforce
  have "engines_inv s (advance_stage l Retrying q)" using evict_inv [OF i e] g r by (intro stage_on [of s q l]) simp_all
  then show ?thesis using e i by (simp add: reclaim_evict_def)
qed

lemma crowded_evict_inv:
  assumes i: "engines_inv s p" and g: "gate p = Some l" and r: "loader_stage l = Evicting sc"
  shows "engines_inv s (crowded_evict sc now l p)"
proof -
  obtain b q where e: "evict_commit (scan_pick sc) now p = (b, q)" by fastforce
  note f = evict_inv [OF i e]
  show ?thesis
  proof (cases "b \<and> scan_todo sc = []")
    case True
    have "loaded_count p \<le> m" if "max_loaded p = Some m" for m using engines_invD(6) [OF i that] .
    then have "\<forall>m. max_loaded q = Some m \<longrightarrow> loaded_count q + promised Admitted \<le> m" using f(2) f(4) True by auto
    then have "engines_inv s (advance_stage l Admitted q)" using r f(3) g by (intro stage_on [OF f(1), of l]) simp_all
    then show ?thesis using e True by (simp add: crowded_evict_def)
  next
    case False
    then show ?thesis using rejected_inv [OF f(1), of l] f(3) g r e i by (auto simp: crowded_evict_def)
  qed
qed

lemma begin_inv:
  assumes i: "engines_inv s p" and g: "gate p = Some l" and s: "loader_stage l = Admitted"
  shows "engines_inv s (begin_loading now l p)"
proof -
  obtain sl where o: "slot_of p (loader_slot l) = Some sl" "stage_fits (loader_stage l) (slot_state sl)" by (rule gate_slot [OF i g])
  let ?n = "sat_add (attempts_at (loader_slot l) p) 1"
  let ?new = "sl\<lparr>slot_state := Loading now ?n\<rparr>"
  have nr: "\<not> resident (slot_state sl)" using o(2) by auto
  have c: "max_loaded p = Some m \<Longrightarrow> loaded_count p + 1 \<le> m" for m using engines_invD(5) [OF i _ g] s by simp
  have cnt: "loaded_count (set_slot (loader_slot l) ?new p) = loaded_count p"
    using total_set [OF o(1), of resident_share ?new] nr by (simp add: loaded_count_total resident_share_def)
  have w: "slot_total weight_share (set_slot (loader_slot l) ?new p) = slot_total weight_share p"
    using total_set [OF o(1), of weight_share ?new] nr by (cases "slot_state sl") (simp_all add: weight_share_def)
  let ?q = "advance_stage l (LoadingEngine ?n) (set_slot (loader_slot l) ?new p)"
  have "slots_ok s ?q"
    using engines_invD(2) [OF i] engines_invD(3) [OF i] o(1) quiet_uncounted [OF i _ o(1) nr]
    by (auto simp: slots_ok_def advance_stage_def filter_empty_conv)
  moreover have "gate_ok ?q" by (simp add: gate_ok_def advance_stage_def)
  moreover have "limits_ok ?q" using c cnt w engines_invD(7) [OF i] by (simp add: limits_ok_def advance_stage_def)
  moreover have "count_ok ?q" by (simp add: count_ok_def advance_stage_def)
  moreover have "picks_ok ?q" using engines_invD(8) [OF i] picks_set [OF o(1), of ?new] by (simp add: picks_ok_def advance_stage_def)
  ultimately show ?thesis using engines_invD(1) [OF i] o(1) by (simp add: engines_inv_def begin_loading_def set_state_def Let_def advance_stage_def)
qed

lemma failed_inv:
  assumes i: "engines_inv s p" and g: "gate p = Some l" and s: "loader_stage l = LoadingEngine n"
  shows "engines_inv s (leave_gate (set_state (loader_slot l) (Failed e now n) p))"
proof -
  obtain sl where o: "slot_of p (loader_slot l) = Some sl" "stage_fits (loader_stage l) (slot_state sl)" by (rule gate_slot [OF i g])
  have q: "engines_inv s (leave_gate p)" by (rule leave_inv [OF i])
  have "engines_inv s (set_state (loader_slot l) (Failed e now n) (leave_gate p))"
    using o by (intro quiet_inv [OF q]) (auto simp: leave_gate_def)
  moreover have "set_state (loader_slot l) (Failed e now n) (leave_gate p) = leave_gate (set_state (loader_slot l) (Failed e now n) p)"
    using o(1) by (simp add: set_state_def leave_gate_def set_slot_def)
  ultimately show ?thesis by simp
qed

lemma limit_checked:
  assumes i: "engines_inv s p" and o: "slot_of p x = Some sl" "\<not> resident (slot_state sl)"
    and k: "check_memory_limits_after_load x weight mlx p = None" and b: "model_limit p = Some b" "b < u64_max"
  shows "slot_total weight_share p + weight \<le> b"
proof -
  have "weight_share sl = 0" using o(2) by (cases "slot_state sl") (simp_all add: weight_share_def)
  then have "loaded_model_weight_bytes_excluding x p = min (slot_total weight_share p) u64_max"
    using excluding_total [OF engines_invD(1) [OF i] o(1)] by simp
  then have "sat_add (min (slot_total weight_share p) u64_max) weight \<le> b"
    using k b(1) by (simp add: check_memory_limits_after_load_def Let_def split: if_splits)
  then show ?thesis using b(2) by (auto simp: sat_add_def min_def split: if_splits)
qed

lemma finish_inv:
  assumes i: "engines_inv s p" and g: "gate p = Some l" and s: "loader_stage l = LoadingEngine n"
  shows "engines_inv s (finish_loading now result mlx n l p)"
proof (cases result)
  case (Inl e)
  then show ?thesis using failed_inv [OF i g s] by (simp add: finish_loading_def)
next
  case (Inr weight)
  show ?thesis
  proof (cases "check_memory_limits_after_load (loader_slot l) weight mlx p")
    case (Some e)
    then show ?thesis using failed_inv [OF i g s] Inr by (simp add: finish_loading_def)
  next
    case None
    obtain sl where o: "slot_of p (loader_slot l) = Some sl" "stage_fits (loader_stage l) (slot_state sl)" by (rule gate_slot [OF i g])
    let ?x = "loader_slot l" and ?e = "\<lparr>engine_number = next_engine p, engine_weight = weight\<rparr>" and ?b = "loader_trigger l = Request"
    let ?new = "sl\<lparr>slot_active := slot_active sl + (if ?b then 1 else 0), slot_state := Loaded ?e now now n (if ?b then 1 else 0)\<rparr>"
    let ?q = "leave_gate (set_slot ?x ?new p\<lparr>next_engine := next_engine p + 1,
      leases := leases p @ [\<lparr>lease_slot = ?x, lease_engine = ?e, lease_counted = ?b\<rparr>]\<rparr>)"
    have nr: "\<not> resident (slot_state sl)" using o(2) by auto
    have none: "s \<Longrightarrow> counted ?x p = []" using quiet_uncounted [OF i _ o(1) nr] .
    note a = engines_invD(2) [OF i o(1)]
    have "max_loaded p = Some m \<Longrightarrow> loaded_count p + 1 \<le> m" for m using engines_invD(5) [OF i _ g] s by simp
    moreover have "slot_total resident_share (set_slot ?x ?new p) = slot_total resident_share p + 1"
      using total_set [OF o(1), of resident_share ?new] nr by (simp add: resident_share_def)
    moreover have "slot_total weight_share (set_slot ?x ?new p) = slot_total weight_share p + weight"
      using total_set [OF o(1), of weight_share ?new] nr by (cases "slot_state sl") (simp_all add: weight_share_def)
    ultimately have "limits_ok ?q" using limit_checked [OF i o(1) nr None] by (simp add: limits_ok_def leave_gate_def loaded_count_total)
    moreover have "slots_ok s ?q"
      unfolding slots_ok_def
    proof (intro allI impI)
      fix j sl' assume "slot_of ?q j = Some sl'"
      then consider "j = ?x" "sl' = ?new" | "j \<noteq> ?x" "slot_of p j = Some sl'" by (auto simp: leave_gate_def split: if_splits)
      then show "slot_active sl' = length (counted j ?q) \<and> (s \<longrightarrow> (\<forall>l \<in> set (counted j ?q). serves (slot_state sl') (lease_engine l)))"
      proof cases
        case 1
        then show ?thesis using none a by (auto simp: leave_gate_def)
      next
        case 2
        then show ?thesis using engines_invD(2) [OF i 2(2)] engines_invD(3) [OF i _ 2(2)] by (auto simp: leave_gate_def)
      qed
    qed
    moreover have "gate_ok ?q" by (simp add: gate_ok_def leave_gate_def)
    moreover have "count_ok ?q" by (simp add: count_ok_def leave_gate_def)
    moreover have "picks_ok ?q" using engines_invD(8) [OF i] picks_set [OF o(1), of ?new] by (simp add: picks_ok_def leave_gate_def)
    ultimately show ?thesis using engines_invD(1) [OF i] o(1) Inr None by (simp add: engines_inv_def finish_loading_def Let_def leave_gate_def)
  qed
qed

lemma load_step_inv:
  assumes i: "engines_inv s p" and g: "gate p = Some l"
  shows "engines_inv s (load_step op l p)"
  using i g unfolding load_step_def
  by (auto split: load_stage.split engine_op.split sum.split intro!: leave_inv rejected_inv count_start_inv count_slot_inv count_decide_inv
      scan_step_inv reclaim_evict_inv crowded_evict_inv begin_inv finish_inv stage_on
      simp: reserve_first_def reclaim_scan_def shrink_failed_def reserve_again_def crowded_scan_def)

section \<open>Leases and unloading\<close>

lemma counted_update:
  assumes "k < length ls" and "lease_counted (ls ! k)"
  shows "length (filter (\<lambda>l. lease_counted l \<and> lease_slot l = i) ls)
      = length (filter (\<lambda>l. lease_counted l \<and> lease_slot l = i) (ls[k := (ls ! k)\<lparr>lease_counted := False\<rparr>])) + (if lease_slot (ls ! k) = i then 1 else 0)"
    and "set (filter (\<lambda>l. lease_counted l \<and> lease_slot l = i) (ls[k := (ls ! k)\<lparr>lease_counted := False\<rparr>]))
      \<subseteq> set (filter (\<lambda>l. lease_counted l \<and> lease_slot l = i) ls)"
proof -
  let ?f = "filter (\<lambda>l. lease_counted l \<and> lease_slot l = i)"
  have u: "ls[k := (ls ! k)\<lparr>lease_counted := False\<rparr>] = take k ls @ (ls ! k)\<lparr>lease_counted := False\<rparr> # drop (Suc k) ls"
    using assms(1) by (simp add: upd_conv_take_nth_drop)
  have f: "?f ls = ?f (take k ls @ ls ! k # drop (Suc k) ls)" by (rule arg_cong [OF id_take_nth_drop [OF assms(1)]])
  show "length (?f ls) = length (?f (ls[k := (ls ! k)\<lparr>lease_counted := False\<rparr>])) + (if lease_slot (ls ! k) = i then 1 else 0)"
    unfolding f u using assms(2) by simp
  show "set (?f (ls[k := (ls ! k)\<lparr>lease_counted := False\<rparr>])) \<subseteq> set (?f ls)" unfolding f u by auto
qed

lemma uncounted_removed:
  assumes "k < length ls" and "\<not> lease_counted (ls ! k)"
  shows "filter (\<lambda>l. lease_counted l \<and> lease_slot l = i) (take k ls @ drop (Suc k) ls) = filter (\<lambda>l. lease_counted l \<and> lease_slot l = i) ls"
proof -
  let ?f = "filter (\<lambda>l. lease_counted l \<and> lease_slot l = i)"
  have "?f ls = ?f (take k ls @ ls ! k # drop (Suc k) ls)" by (rule arg_cong [OF id_take_nth_drop [OF assms(1)]])
  then show ?thesis using assms(2) by simp
qed

text \<open>Other leases, with the same requests on every slot.\<close>

lemma leases_inv:
  assumes i: "engines_inv s p" and c: "\<And>i. slot_of p i \<noteq> None \<Longrightarrow> filter (\<lambda>l. lease_counted l \<and> lease_slot l = i) ls = counted i p"
  shows "engines_inv s (p\<lparr>leases := ls\<rparr>)"
proof -
  have "slots_ok s (p\<lparr>leases := ls\<rparr>)"
    unfolding slots_ok_def slot_of_fields
  proof (intro allI impI)
    fix j sl assume o: "slot_of p j = Some sl"
    then have "counted j (p\<lparr>leases := ls\<rparr>) = counted j p" using c [of j] by simp
    then show "slot_active sl = length (counted j (p\<lparr>leases := ls\<rparr>))
        \<and> (s \<longrightarrow> (\<forall>l \<in> set (counted j (p\<lparr>leases := ls\<rparr>)). serves (slot_state sl) (lease_engine l)))"
      using engines_invD(2) [OF i o] engines_invD(3) [OF i _ o] by simp
  qed
  then show ?thesis using i by (simp add: engines_inv_def gate_ok_def limits_ok_def count_ok_def picks_ok_def)
qed

lemma drop_counted_inv:
  assumes i: "engines_inv s p" and k: "k < length (leases p)" "lease_counted (leases p ! k)" and o: "slot_of p (lease_slot (leases p ! k)) = Some sl"
  shows "engines_inv s (drop_lease k p)"
proof -
  let ?l = "leases p ! k" and ?q = "p\<lparr>leases := (leases p)[k := (leases p ! k)\<lparr>lease_counted := False\<rparr>]\<rparr>"
  let ?new = "sl\<lparr>slot_active := slot_active sl - 1\<rparr>"
  let ?r = "set_slot (lease_slot ?l) ?new ?q"
  note c = counted_update [OF k]
  have lr: "leases ?r = (leases p)[k := (leases p ! k)\<lparr>lease_counted := False\<rparr>]" by simp
  have "slots_ok s ?r"
    unfolding slots_ok_def lr
  proof (intro allI impI)
    let ?c = "\<lambda>j. filter (\<lambda>l. lease_counted l \<and> lease_slot l = j) ((leases p)[k := (leases p ! k)\<lparr>lease_counted := False\<rparr>])"
    fix j sl' assume "slot_of ?r j = Some sl'"
    then consider "j = lease_slot ?l" "sl' = ?new" | "j \<noteq> lease_slot ?l" "slot_of p j = Some sl'" by (auto split: if_splits)
    then show "slot_active sl' = length (?c j) \<and> (s \<longrightarrow> (\<forall>l \<in> set (?c j). serves (slot_state sl') (lease_engine l)))"
    proof cases
      case 1
      have "slot_active sl' = length (?c j)" using engines_invD(2) [OF i o] c(1) [of j] 1 by simp
      moreover have "serves (slot_state sl') (lease_engine l)" if s and "l \<in> set (?c j)" for l
        using engines_invD(3) [OF i that(1) o subsetD [OF c(2)]] that(2) 1 by simp
      ultimately show ?thesis by blast
    next
      case 2
      have "slot_active sl' = length (?c j)" using engines_invD(2) [OF i 2(2)] c(1) [of j] 2(1) by simp
      moreover have "serves (slot_state sl') (lease_engine l)" if s and "l \<in> set (?c j)" for l
        using engines_invD(3) [OF i that(1) 2(2) subsetD [OF c(2) that(2)]] .
      ultimately show ?thesis by blast
    qed
  qed
  moreover have oq: "slot_of ?q (lease_slot ?l) = Some sl" using o by simp
  moreover have "gate_ok ?r" using i o by (auto simp: engines_inv_def gate_ok_def)
  moreover have "limits_ok ?r"
    using i total_set [OF oq, of resident_share ?new] total_set [OF oq, of weight_share ?new]
    by (simp add: engines_inv_def limits_ok_def loaded_count_total resident_share_def weight_share_def)
  moreover have "count_ok ?r"
    using engines_invD(9) [OF i] covers_set [OF oq, of ?new] by (simp add: count_ok_def resident_share_def)
  moreover have "picks_ok ?r" using engines_invD(8) [OF i] picks_set [OF oq, of ?new] by (simp add: picks_ok_def)
  ultimately show ?thesis using k(2) o engines_invD(1) [OF i] by (simp add: drop_lease_def Let_def engines_inv_def)
qed

lemma drop_inv:
  assumes i: "engines_inv s p" and k: "k < length (leases p)"
  shows "engines_inv s (drop_lease k p)"
proof (cases "lease_counted (leases p ! k)")
  case False
  then show ?thesis using leases_inv [OF i uncounted_removed [OF k False]] by (simp add: drop_lease_def Let_def)
next
  case True
  let ?ls = "(leases p)[k := (leases p ! k)\<lparr>lease_counted := False\<rparr>]"
  show ?thesis
  proof (cases "slot_of p (lease_slot (leases p ! k))")
    case None
    have "filter (\<lambda>l. lease_counted l \<and> lease_slot l = j) ?ls = counted j p" if "slot_of p j \<noteq> None" for j
    proof -
      have "lease_slot (leases p ! k) \<noteq> j" using that None by metis
      moreover have "counted j p = filter (\<lambda>l. lease_counted l \<and> lease_slot l = j) (take k (leases p) @ leases p ! k # drop (Suc k) (leases p))"
        by (rule arg_cong [OF id_take_nth_drop [OF k]])
      ultimately show ?thesis using True k by (simp add: upd_conv_take_nth_drop)
    qed
    then have "engines_inv s (p\<lparr>leases := ?ls\<rparr>)" by (rule leases_inv [OF i])
    then show ?thesis using True None by (simp add: drop_lease_def Let_def)
  qed (rule drop_counted_inv [OF i k True])
qed

lemma add_task_inv: "engines_inv s p \<Longrightarrow> task_ok p t \<Longrightarrow> engines_inv s (add_task t p)"
  unfolding add_task_def by (rule tasks_inv) (auto dest: engines_invD(8) simp: picks_ok_def)

lemma unload_inv:
  assumes i: "engines_inv s p"
  shows "engines_inv s (snd (unload x now p))"
proof (cases "\<exists>sl. slot_of p x = Some sl \<and> slot_policy sl = Lazy")
  case True
  then obtain sl where o: "slot_of p x = Some sl" "slot_policy sl = Lazy" by blast
  have quiet: "engines_inv s (set_state x (Unloaded Manual None now n) p)" if "\<not> resident (slot_state sl)" "\<forall>t n. slot_state sl \<noteq> Loading t n" for n
  proof (rule quiet_inv [OF i o(1) that(1)])
    fix l assume "gate p = Some l" "loader_slot l = x"
    then have "stage_fits (loader_stage l) (slot_state sl)" using engines_invD(4) [OF i, of l] o(1) by auto
    then show "stage_fits (loader_stage l) (Unloaded Manual None now n)"
      using that(2) by (cases "loader_stage l"; cases "slot_state sl") simp_all
  qed simp
  show ?thesis
  proof (cases "slot_state sl")
    case (Loaded e t used n c)
    show ?thesis
    proof (cases "slot_active sl > 0")
      case True
      have "engines_inv s (set_slot x (sl\<lparr>slot_state := Draining now n c\<rparr>) p)"
        using resident_not_loading [OF i o(1)] Loaded
        by (intro engines_inv_set [OF i o(1)]) (auto simp: resident_share_def weight_share_def)
      then show ?thesis using o Loaded True by (simp add: unload_def set_state_def add_task_inv)
    next
      case False
      then show ?thesis using retire_inv(1) [OF i o(1)] o Loaded by (simp add: unload_def Let_def)
    qed
  next
    case (Draining t n c)
    then show ?thesis using retire_inv(1) [OF i o(1)] o i by (simp add: unload_def Let_def add_task_inv)
  next
    case (Loading t n)
    then show ?thesis using o i by (simp add: unload_def Let_def)
  next
    case (Unloaded r e t n)
    then show ?thesis using o quiet by (simp add: unload_def Let_def)
  next
    case (Failed e t n)
    then show ?thesis using o quiet by (simp add: unload_def Let_def)
  qed
next
  case False
  then show ?thesis using i by (auto simp: unload_def split: option.split) (metis load_policy.exhaust)
qed

text \<open>A task that has seen a slot idle must not come late, if a slot in use is to keep its engine.\<close>

fun on_time :: "engine_pool \<Rightarrow> engine_op \<Rightarrow> bool" where
  "on_time p (Resume k now) =
     (k < length (tasks p) \<longrightarrow>
        (case tasks p ! k of
           DrainSeen i \<Rightarrow> (case slot_of p i of Some sl \<Rightarrow> resident (slot_state sl) \<longrightarrow> slot_active sl = 0 | None \<Rightarrow> True)
         | _ \<Rightarrow> True))"
| "on_time p op = True"

lemma drain_cases:
  obtains "finish_draining i now p = p"
  | sl t n c where "slot_of p i = Some sl" and "slot_state sl = Draining t n c" and "finish_draining i now p = set_state i (Unloaded Manual None now n) p"
proof (cases "slot_of p i")
  case (Some sl)
  then show ?thesis using that by (cases "slot_state sl") (simp_all add: finish_draining_def)
qed (use that in \<open>simp add: finish_draining_def\<close>)

lemma drain_inv:
  assumes i: "engines_inv s p" and t: "\<And>sl. s \<Longrightarrow> slot_of p x = Some sl \<Longrightarrow> resident (slot_state sl) \<Longrightarrow> slot_active sl = 0"
  shows "engines_inv s (finish_draining x now p)"
  using drain_cases [of x now p]
proof cases
  case (2 sl t n c)
  have "resident (slot_state sl)" using 2(2) by simp
  then show ?thesis using retire_inv(1) [OF i 2(1)] t [OF _ 2(1)] 2(3) by metis
qed (use i in simp)

lemma ttl_cases:
  assumes "ttl_unload x now ttl p = (b, q)"
  obtains "\<not> b" and "q = p"
  | sl e t used n c where "b" and "slot_of p x = Some sl" and "slot_state sl = Loaded e t used n c"
      and "slot_active sl = 0" and "ttl \<le> now - used" and "q = set_state x (Unloaded Ttl None now n) p"
proof (cases "\<exists>sl e t used n c. slot_of p x = Some sl \<and> slot_state sl = Loaded e t used n c \<and> \<not> (now - used < ttl \<or> slot_active sl > 0)")
  case True
  then obtain sl e t used n c where o: "slot_of p x = Some sl" "slot_state sl = Loaded e t used n c" and y: "\<not> (now - used < ttl \<or> slot_active sl > 0)"
    by (elim exE conjE)
  have "b" "q = set_state x (Unloaded Ttl None now n) p"
    using assms unfolding ttl_unload_def o option.case slot_state.case if_not_P [OF y] by simp_all
  then show ?thesis using o y that(2) by simp
next
  case False
  then have "ttl_unload x now ttl p = (False, p)"
    unfolding ttl_unload_def by (fastforce split: option.split slot_state.split if_split)
  then show ?thesis using assms that(1) by simp
qed

lemma ttl_inv:
  assumes i: "engines_inv s p"
  shows "engines_inv s (snd (ttl_unload x now ttl p))"
proof -
  obtain b q where e: "ttl_unload x now ttl p = (b, q)" by fastforce
  then have "engines_inv s q"
  proof (cases rule: ttl_cases)
    case (2 sl e t used n c)
    then show ?thesis using retire_inv(1) [OF i 2(2)] by simp
  qed (use i in simp)
  then show ?thesis using e by simp
qed

lemma pin_inv:
  assumes i: "engines_inv s p"
  shows "engines_inv s (set_pinned x b p)"
proof -
  have "engines_inv s (set_slot x (sl\<lparr>slot_pinned := b\<rparr>) p)" if "slot_of p x = Some sl" for sl
    using that by (intro engines_inv_set [OF i that]) (auto dest: engines_invD(3) [OF i] engines_invD(4) [OF i] simp: resident_share_def weight_share_def)
  then show ?thesis using i by (auto simp: set_pinned_def split: option.split)
qed

lemma tasks_rest_inv:
  assumes i: "engines_inv s p"
  shows "engines_inv s (p\<lparr>tasks := take k (tasks p) @ drop (Suc k) (tasks p)\<rparr>)"
  by (rule tasks_inv [OF i]) (use engines_invD(8) [OF i] in \<open>auto simp: picks_ok_def dest: in_set_takeD in_set_dropD\<close>)

lemma look_ttl_ok: "ttl_look i p \<Longrightarrow> evicts p i"
  by (auto simp: ttl_look_def evicts_def split: option.splits)

lemma resume_inv:
  assumes i: "engines_inv s p" and t: "s \<Longrightarrow> on_time p (Resume k now)" and k: "k < length (tasks p)"
  shows "engines_inv s (resume_task k now p)"
proof (cases "tasks p ! k")
  case (DrainWatch x)
  have "engines_inv s (p\<lparr>tasks := (tasks p)[k := DrainSeen x]\<rparr>)"
    by (rule tasks_inv [OF i]) (use engines_invD(8) [OF i] set_update_subset_insert [of "tasks p" k "DrainSeen x"] in \<open>auto simp: picks_ok_def\<close>)
  then show ?thesis using DrainWatch i by (simp add: resume_task_def Let_def split: option.split)
next
  case (DrainSeen x)
  let ?p = "p\<lparr>tasks := take k (tasks p) @ drop (Suc k) (tasks p)\<rparr>"
  have "engines_inv s (finish_draining x now ?p)" by (rule drain_inv [OF tasks_rest_inv [OF i]]) (use t k DrainSeen in simp)
  then show ?thesis using DrainSeen by (simp add: resume_task_def Let_def)
next
  case (TtlSeen x time ttl)
  then show ?thesis using tasks_rest_inv [OF i] by (simp add: resume_task_def Let_def ttl_inv)
next
  case (PinSeen x b)
  then show ?thesis using tasks_rest_inv [OF i] by (simp add: resume_task_def Let_def pin_inv)
qed

lemma engine_step_inv:
  assumes i: "engines_inv s p" and t: "s \<Longrightarrow> on_time p op"
  shows "engines_inv s (engine_step p op)"
proof (cases op)
  case (Enter x t now)
  obtain l q where "look_and_lease x t now p = (l, q)" by fastforce
  then show ?thesis using Enter look_inv(1) [OF i] by simp
next
  case (Resume k now)
  then show ?thesis using i t resume_inv [OF i] by simp
next
  case MonitorStep
  have "scan_ok p sc" if "monitor_scan p = Some sc" for sc using engines_invD(8) [OF i] that by (simp add: picks_ok_def)
  then have "engines_inv s (p\<lparr>monitor_scan := Some (scan_slot p sc)\<rparr>)" if "monitor_scan p = Some sc" for sc
    using that by (intro monitor_inv [OF i]) (auto intro: scan_slot_ok)
  then show ?thesis using MonitorStep i by (simp split: option.split)
next
  case (MonitorEvict now)
  show ?thesis
  proof (cases "monitor_scan p")
    case (Some sc)
    obtain b q where e: "evict_commit (scan_pick sc) now p = (b, q)" by fastforce
    have "engines_inv s (q\<lparr>monitor_scan := None\<rparr>)" by (rule monitor_inv [OF evict_inv(1) [OF i e]]) simp
    then show ?thesis using MonitorEvict Some i e by simp
  qed (use MonitorEvict i in simp)
qed (use i in \<open>auto simp: acquire_inv drop_inv unload_inv look_ttl_ok intro!: add_task_inv monitor_inv load_step_inv split: option.split\<close>)

text \<open>However the tasks interleave, and when none of them comes late.\<close>

interpretation engines: invariant_machine engine_step "\<lambda>_ _. True" "engines_inv False"
  by unfold_locales (simp add: engine_step_inv)

interpretation timely: invariant_machine engine_step on_time "engines_inv True"
  by unfold_locales (simp add: engine_step_inv)

end
