(* ===== verification/EngineLifecycle.thy ===== *)
theory EngineLifecycle
  imports EnginePoolSteps
begin

text \<open>
  The life of one slot of the engine pool (\<open>ironmlx/src/core/server/engine.rs\<close>) as an abstract step relation, and
  that every step of the pool is for every slot a step of it.
\<close>

section \<open>The abstract machine of a slot\<close>

fun same_phase :: "slot_state \<Rightarrow> slot_state \<Rightarrow> bool" where
  "same_phase (Loaded e t u n c) (Loaded e' t' u' n' c') = (e = e' \<and> t = t' \<and> n = n')"
| "same_phase st st' = (st = st')"

fun cold :: "slot_state \<Rightarrow> bool" where
  "cold (Unloaded r e t n) = True"
| "cold (Failed e t n) = True"
| "cold _ = False"

text \<open>
  The first argument says whether the task at the gate loads this slot, the second whether a task acts that has seen
  the slot idle while it drained.
\<close>

inductive lifecycle :: "bool \<Rightarrow> bool \<Rightarrow> slot \<Rightarrow> slot \<Rightarrow> bool" for g :: bool and d :: bool where
  stay: "same_phase (slot_state sl) (slot_state sl') \<Longrightarrow> slot_policy sl' = slot_policy sl \<Longrightarrow> lifecycle g d sl sl'"
| start: "g \<Longrightarrow> cold (slot_state sl) \<Longrightarrow> lifecycle g d sl (sl\<lparr>slot_state := Loading now (sat_add (load_attempts (slot_state sl)) 1)\<rparr>)"
| loaded: "g \<Longrightarrow> slot_state sl = Loading t n \<Longrightarrow> lifecycle g d sl (sl\<lparr>slot_active := slot_active sl + c, slot_state := Loaded e now now n c\<rparr>)"
| failed: "g \<Longrightarrow> slot_state sl = Loading t n \<Longrightarrow> lifecycle g d sl (sl\<lparr>slot_state := Failed e now n\<rparr>)"
| rejected: "cold (slot_state sl) \<Longrightarrow> lifecycle g d sl (sl\<lparr>slot_state := Unloaded r e now (load_attempts (slot_state sl))\<rparr>)"
| retire: "slot_state sl = Loaded e t u n c \<Longrightarrow> slot_active sl = 0 \<Longrightarrow> slot_policy sl \<noteq> Preload
    \<Longrightarrow> lifecycle g d sl (sl\<lparr>slot_state := Unloaded r None now n\<rparr>)"
| drain: "slot_state sl = Loaded e t u n c \<Longrightarrow> slot_active sl > 0 \<Longrightarrow> slot_policy sl \<noteq> Preload
    \<Longrightarrow> lifecycle g d sl (sl\<lparr>slot_state := Draining now n c\<rparr>)"
| drained: "slot_state sl = Draining t n c \<Longrightarrow> slot_active sl = 0 \<or> d \<Longrightarrow> lifecycle g d sl (sl\<lparr>slot_state := Unloaded Manual None now n\<rparr>)"

inductive_cases lifecycleE: "lifecycle g d sl sl'"

lemma same_phase_refl [simp]: "same_phase st st"
  by (cases st) simp_all

lemma lifecycle_policy: "lifecycle g d sl sl' \<Longrightarrow> slot_policy sl' = slot_policy sl"
  by (erule lifecycleE) simp_all

lemma preloaded_step:
  assumes "lifecycle g d sl sl'" and "slot_policy sl = Preload" and "slot_state sl = Loaded e t u n c"
  shows "\<exists>u c. slot_state sl' = Loaded e t u n c"
  using assms by (cases "slot_state sl'") (auto elim!: lifecycleE)

lemma stuck_step:
  assumes "lifecycle False d sl sl'" and "slot_state sl = Loading t n"
  shows "slot_state sl' = Loading t n"
  using assms by (cases "slot_state sl'") (auto elim!: lifecycleE)

section \<open>Every step of the pool is one\<close>

definition at_gate :: "engine_pool \<Rightarrow> string \<Rightarrow> bool" where
  "at_gate p i = (\<exists>l. gate p = Some l \<and> loader_slot l = i)"

text \<open>The slot that the task has seen idle.\<close>

fun seen_idle :: "engine_pool \<Rightarrow> engine_op \<Rightarrow> string \<Rightarrow> bool" where
  "seen_idle p (Resume k now) i = (k < length (tasks p) \<and> tasks p ! k = DrainSeen i)"
| "seen_idle p op i = False"

definition follows :: "(string \<Rightarrow> bool) \<Rightarrow> engine_pool \<Rightarrow> engine_pool \<Rightarrow> bool" where
  "follows d p q = (\<forall>i sl. slot_of p i = Some sl \<longrightarrow> (\<exists>sl'. slot_of q i = Some sl' \<and> lifecycle (at_gate p i) (d i) sl sl'))"

lemma followsD: "follows d p q \<Longrightarrow> slot_of p i = Some sl \<Longrightarrow> \<exists>sl'. slot_of q i = Some sl' \<and> lifecycle (at_gate p i) (d i) sl sl'"
  by (simp add: follows_def)

lemma follows_refl [simp]: "follows d p p"
  by (auto simp: follows_def intro: stay)

lemma follows_fields [simp]:
  "follows d p (q\<lparr>leases := ls\<rparr>) = follows d p q" "follows d p (q\<lparr>gate := g\<rparr>) = follows d p q" "follows d p (q\<lparr>monitor_scan := m\<rparr>) = follows d p q" "follows d p (q\<lparr>tasks := ts\<rparr>) = follows d p q"
  "follows d p (q\<lparr>next_engine := n\<rparr>) = follows d p q" "follows d p (advance_stage l stage q) = follows d p q" "follows d p (leave_gate q) = follows d p q"
  by (simp_all add: follows_def advance_stage_def leave_gate_def)

lemma follows_set: "slot_of p i = Some sl \<Longrightarrow> lifecycle (at_gate p i) (d i) sl new \<Longrightarrow> follows d p (set_slot i new p)"
  by (auto simp: follows_def intro: stay)

lemma follows_set_leases: "slot_of p i = Some sl \<Longrightarrow> lifecycle (at_gate p i) (d i) sl new \<Longrightarrow> follows d p (set_slot i new (p\<lparr>leases := ls\<rparr>))"
  by (auto simp: follows_def intro: stay)

lemma follows_tasks [simp]: "follows d (p\<lparr>tasks := ts\<rparr>) q = follows d p q"
  by (simp add: follows_def at_gate_def)

lemma follows_state: "slot_of p i = Some sl \<Longrightarrow> lifecycle (at_gate p i) (d i) sl (sl\<lparr>slot_state := st\<rparr>) \<Longrightarrow> follows d p (set_state i st p)"
  by (simp add: set_state_def follows_set)

lemma evict_follows:
  assumes "engines_inv s p" and "\<And>i. pick = Some i \<Longrightarrow> evicts p i" and "evict_commit pick now p = (b, q)"
  shows "follows d p q"
  using assms(3)
proof (cases rule: evict_cases)
  case (2 i sl e t used n c)
  have "slot_policy sl \<noteq> Preload" using assms(2) 2(2,3) by (simp add: evicts_def)
  then show ?thesis using 2 retire [OF 2(4)] by (simp add: follows_state [OF 2(3)])
qed simp

lemma look_follows:
  assumes "look_and_lease i trigger now p = (l, q)"
  shows "follows d p q"
proof (cases "\<exists>sl. slot_of p i = Some sl \<and> slot_policy sl \<noteq> Disabled")
  case True
  then obtain sl where o: "slot_of p i = Some sl" "slot_policy sl \<noteq> Disabled" by blast
  obtain l' sl' where k: "look_at i trigger now sl = (l', sl')" by fastforce
  have "lifecycle (at_gate p i) (d i) sl sl'"
    using k by (cases rule: look_at_cases) (auto intro: stay drained)
  then have "follows d p (set_slot i sl' p)" by (rule follows_set [OF o(1)])
  moreover have "\<exists>ls. q = set_slot i sl' p\<lparr>leases := ls\<rparr>"
  proof (cases l')
    case (Granted e)
    then show ?thesis using assms o k by (auto simp: look_and_lease_def)
  qed (use assms o k in \<open>auto simp: look_and_lease_def intro!: exI [of _ "leases p"]\<close>)
  ultimately show ?thesis by auto
next
  case False
  then show ?thesis using assms by (auto simp: look_and_lease_def split: option.splits)
qed

lemma rejected_follows:
  assumes "slot_of p (loader_slot l) = Some sl" and "cold (slot_state sl)"
  shows "follows d p (capacity_rejected l e now p)"
  using rejected [OF assms(2), of _ _ CapacityRejected "Some e" now] assms(1)
  by (simp add: capacity_rejected_def attempts_at_def follows_state [OF assms(1)])

lemma waiting_cold: "stage_fits stage st \<Longrightarrow> (\<And>n. stage \<noteq> LoadingEngine n) \<Longrightarrow> cold st"
  by (cases "(stage, st)" rule: stage_fits.cases) auto

lemma staged_loading: "stage_fits (LoadingEngine n) st \<Longrightarrow> \<exists>t. st = Loading t n"
  by (cases st) auto

lemma finish_follows:
  assumes "engines_inv s p" and "gate p = Some l" and "loader_stage l = LoadingEngine n"
  shows "follows d p (finish_loading now result mlx n l p)"
proof -
  obtain sl t where o: "slot_of p (loader_slot l) = Some sl" and st: "slot_state sl = Loading t n"
    using gate_slot [OF assms(1,2)] staged_loading assms(3) by metis
  have g: "at_gate p (loader_slot l)" using assms(2) by (simp add: at_gate_def)
  have f: "follows d p (set_state (loader_slot l) (Failed e now n) p)" for e
    by (rule follows_state [OF o]) (rule failed [OF g st])
  have "follows d p (set_slot (loader_slot l) (sl\<lparr>slot_active := slot_active sl + c, slot_state := Loaded e now now n c\<rparr>) p)" for e c
    by (rule follows_set [OF o]) (rule loaded [OF g st])
  then show ?thesis using f o by (simp add: finish_loading_def Let_def split: sum.split option.split)
qed

lemma load_follows:
  assumes i: "engines_inv s p" and g: "gate p = Some l"
  shows "follows d p (load_step op l p)"
proof -
  obtain sl where o: "slot_of p (loader_slot l) = Some sl" "stage_fits (loader_stage l) (slot_state sl)" by (rule gate_slot [OF i g])
  have at: "at_gate p (loader_slot l)" using g by (simp add: at_gate_def)
  have rej: "follows d p (capacity_rejected l e now p)" if "\<And>n. loader_stage l \<noteq> LoadingEngine n" for e now
    by (rule rejected_follows [OF o(1) waiting_cold [OF o(2) that]])
  have pick: "scan_pick sc = Some i \<Longrightarrow> evicts p i" if "loader_stage l = Reclaiming sc \<or> loader_stage l = Evicting sc" for sc i
    using engines_invD(8) [OF i] g that picked_evicts [of p sc i] by (auto simp: picks_ok_def)
  have ev: "follows d p (reclaim_evict sc now l p)" if "loader_stage l = Reclaiming sc" for sc now
  proof -
    obtain b q where e: "evict_commit (scan_pick sc) now p = (b, q)" by fastforce
    show ?thesis using evict_follows [OF i pick e] that e by (simp add: reclaim_evict_def)
  qed
  have cr: "follows d p (crowded_evict sc now l p)" if s: "loader_stage l = Evicting sc" for sc now
  proof -
    obtain b q where e: "evict_commit (scan_pick sc) now p = (b, q)" by fastforce
    show ?thesis
    proof (cases b)
      case True
      then show ?thesis using evict_follows [OF i pick e] s e by (simp add: crowded_evict_def)
    next
      case False
      from e have "q = p" using False by (cases rule: evict_cases) simp_all
      then show ?thesis using rej s e False by (simp add: crowded_evict_def)
    qed
  qed
  have ld: "follows d p (begin_loading now l p)" if "loader_stage l = Admitted" for now
  proof -
    have c: "cold (slot_state sl)" using o(2) that by (intro waiting_cold [of Admitted]) simp_all
    show ?thesis using follows_state [OF o(1) start [OF at c]] o(1) by (simp add: begin_loading_def Let_def attempts_at_def)
  qed
  show ?thesis
    unfolding load_step_def
    by (auto split: load_stage.split engine_op.split sum.split option.split capacity_decision.split list.split intro!: ev cr ld rej finish_follows [OF i g]
        simp: reserve_first_def reclaim_scan_def shrink_failed_def reserve_again_def crowded_scan_def count_start_def count_slot_def count_decide_def)
qed

lemma add_task_follows [simp]: "follows d p (add_task t q) = follows d p q"
  by (simp add: add_task_def)

lemma unload_follows: "follows d p (snd (unload i now p))"
proof (cases "\<exists>sl. slot_of p i = Some sl \<and> slot_policy sl = Lazy")
  case True
  then obtain sl where o: "slot_of p i = Some sl" "slot_policy sl = Lazy" by blast
  have "lifecycle (at_gate p i) (d i) sl (sl\<lparr>slot_state := Unloaded Manual None now (load_attempts (slot_state sl))\<rparr>)"
    if "cold (slot_state sl) \<or> resident (slot_state sl) \<and> slot_active sl = 0"
  proof (cases "cold (slot_state sl)")
    case True
    then show ?thesis by (rule rejected)
  next
    case False
    then show ?thesis using that o(2) by (cases "slot_state sl") (auto intro: retire drained)
  qed
  then have u: "follows d p (set_state i (Unloaded Manual None now (load_attempts (slot_state sl))) p)"
    if "cold (slot_state sl) \<or> resident (slot_state sl) \<and> slot_active sl = 0"
    using that follows_state [OF o(1)] by blast
  have d: "follows d p (set_state i (Draining now n c) p)" if "slot_state sl = Loaded e t used n c" "slot_active sl > 0" for e t used n c
    by (rule follows_state [OF o(1)]) (use drain [OF that] o(2) in simp)
  show ?thesis using o u d by (cases "slot_state sl") (simp_all add: unload_def Let_def)
next
  case False
  then show ?thesis by (auto simp: unload_def split: option.split) (metis load_policy.exhaust)
qed

lemma drain_follows:
  assumes "d i"
  shows "follows d p (finish_draining i now p)"
  using drain_cases [of i now p]
proof cases
  case (2 sl t n c)
  have "lifecycle (at_gate p i) (d i) sl (sl\<lparr>slot_state := Unloaded Manual None now n\<rparr>)" using drained [OF 2(2)] assms by blast
  then show ?thesis using follows_state [OF 2(1)] 2(3) by simp
qed simp

lemma resume_follows:
  assumes i: "engines_inv s p" and k: "k < length (tasks p)"
  shows "follows (seen_idle p (Resume k now)) p (resume_task k now p)"
proof -
  let ?d = "seen_idle p (Resume k now)" and ?p = "p\<lparr>tasks := take k (tasks p) @ drop (Suc k) (tasks p)\<rparr>"
  have rest: "follows ?d ?p q = follows ?d p q" for q by simp
  show ?thesis
  proof (cases "tasks p ! k")
    case (DrainWatch x)
    then show ?thesis by (simp add: resume_task_def Let_def split: option.split)
  next
    case (DrainSeen x)
    have "follows ?d ?p (finish_draining x now ?p)" by (rule drain_follows) (use k DrainSeen in simp)
    then show ?thesis using DrainSeen unfolding rest by (simp add: resume_task_def Let_def)
  next
    case (TtlSeen x time ttl)
    obtain b q where e: "ttl_unload x time ttl ?p = (b, q)" by fastforce
    have "tasks p ! k \<in> set (tasks p)" using k by simp
    then have x: "evicts p x" using engines_invD(8) [OF i] TtlSeen by (force simp: picks_ok_def)
    from e have "follows ?d ?p q"
    proof (cases rule: ttl_cases)
      case (2 sl e t u n c)
      have "slot_policy sl \<noteq> Preload" using x 2(2) by (simp add: evicts_def)
      then show ?thesis using follows_state [OF 2(2) retire [OF 2(3,4)]] 2(6) by simp
    qed simp
    then show ?thesis using TtlSeen e unfolding rest by (simp add: resume_task_def Let_def)
  next
    case (PinSeen x b)
    have "follows ?d ?p (set_slot x (sl\<lparr>slot_pinned := b\<rparr>) ?p)" if "slot_of ?p x = Some sl" for sl
      by (rule follows_set [OF that]) (simp add: stay)
    then have "follows ?d ?p (set_pinned x b ?p)" by (simp add: set_pinned_def split: option.split)
    then show ?thesis using PinSeen unfolding rest by (simp add: resume_task_def Let_def)
  qed
qed

lemma engine_step_follows:
  assumes i: "engines_inv s p"
  shows "follows (seen_idle p op) p (engine_step p op)"
proof (cases op)
  case (Enter x t now)
  obtain l q where "look_and_lease x t now p = (l, q)" by fastforce
  then show ?thesis using Enter look_follows by simp
next
  case (Acquire x t now)
  obtain l q where e: "look_and_lease x t now p = (l, q)" by fastforce
  then show ?thesis using Acquire look_follows [OF e] by (cases l) (simp_all add: acquire_gate_def)
next
  case (MonitorEvict now)
  have pick: "scan_pick sc = Some x \<Longrightarrow> evicts p x" if "monitor_scan p = Some sc" for sc x
    using engines_invD(8) [OF i] that picked_evicts [of p sc x] by (simp add: picks_ok_def)
  have "follows (seen_idle p op) p (snd (evict_commit (scan_pick sc) now p))" if "monitor_scan p = Some sc" for sc
    using evict_follows [OF i pick [OF that], of "scan_pick sc" now "fst (evict_commit (scan_pick sc) now p)"] by simp
  then show ?thesis using MonitorEvict by (simp split: option.split)
next
  case (DropLease k)
  have "follows (seen_idle p op) p (drop_lease k p)"
    by (auto simp: drop_lease_def Let_def split: option.split intro!: follows_set_leases stay)
  then show ?thesis using DropLease by simp
next
  case (Resume k now)
  then show ?thesis using resume_follows [OF i] by simp
qed (use i in \<open>simp_all add: unload_follows load_follows split: option.split\<close>)

end
