(* ===== verification/EnginePoolProperties.thy ===== *)
theory EnginePoolProperties
  imports EngineLifecycle
begin

text \<open>
  What the engine pool (\<open>ironmlx/src/core/server/engine.rs\<close>) promises, for every interleaving of requests, loads,
  unloads, sweeps and lost clients.
\<close>

section \<open>From an empty pool\<close>

definition started :: "(string \<times> load_policy \<times> bool) list \<Rightarrow> nat \<Rightarrow> (string \<times> slot) list" where
  "started models now = foldl (\<lambda>al (i, policy, pinned). AList.update i (new_slot policy pinned now) al) [] models"

definition unused :: "(string \<times> slot) list \<Rightarrow> bool" where
  "unused al = (distinct (map fst al) \<and> (\<forall>(i, sl) \<in> set al. slot_active sl = 0 \<and> \<not> resident (slot_state sl)))"

lemma unused_update: "unused al \<Longrightarrow> unused (AList.update i (new_slot policy pinned now) al)"
proof -
  have "set (AList.update i (new_slot policy pinned now) al) \<subseteq> insert (i, new_slot policy pinned now) (set al)"
    by (induction al) auto
  then show "unused al \<Longrightarrow> ?thesis" using distinct_update [of al i] by (auto simp: new_slot_def unused_def)
qed

lemma started_slots: "unused (started models now)"
proof -
  have "unused al \<Longrightarrow> unused (foldl (\<lambda>al (i, policy, pinned). AList.update i (new_slot policy pinned now) al) al models)" for al
    by (induction models arbitrary: al) (simp_all add: split_beta unused_update)
  from this [of "[]"] show ?thesis by (simp add: started_def unused_def)
qed

lemma started_slot: "map_of (started models now) i = Some sl \<Longrightarrow> slot_active sl = 0 \<and> \<not> resident (slot_state sl)"
  using started_slots [of models now] map_of_SomeD [of "started models now" i sl] by (auto simp: unused_def)

lemma engines_new_inv: "engines_inv s (engines_new models now m b t)"
proof -
  let ?p = "engines_new models now m b t"
  have k: "slots ?p = started models now" by (simp add: engines_new_def started_def)
  have z: "slot_total f ?p = 0" if "\<And>sl. \<not> resident (slot_state sl) \<Longrightarrow> f sl = 0" for f
    using started_slots [of models now] that unfolding slot_total_def k by (auto simp: unused_def)
  have "weight_share sl = 0" if "\<not> resident (slot_state sl)" for sl
    using that by (cases "slot_state sl") (simp_all add: weight_share_def)
  then have "limits_ok ?p" using z [of resident_share] z [of weight_share]
    by (simp add: limits_ok_def loaded_count_total resident_share_def) (simp add: engines_new_def)
  moreover have "slots_ok s ?p"
    unfolding slots_ok_def
  proof (intro allI impI)
    fix i sl assume "slot_of ?p i = Some sl"
    then have "slot_active sl = 0" using started_slot [of models now i sl] by (simp add: slot_of_def k)
    then show "slot_active sl = length (counted i ?p) \<and> (s \<longrightarrow> (\<forall>l \<in> set (counted i ?p). serves (slot_state sl) (lease_engine l)))"
      by (simp add: engines_new_def)
  qed
  moreover have "gate_ok ?p" "count_ok ?p" "picks_ok ?p" by (simp_all add: gate_ok_def count_ok_def picks_ok_def engines_new_def)
  ultimately show ?thesis using started_slots [of models now] by (simp add: engines_inv_def keys_ok_def k unused_def)
qed

lemma reached: "p = run_ops engine_step (engines_new models now m b t) ops \<Longrightarrow> engines_inv False p"
  using engines.run_inv [OF engines_new_inv run_all_ok] by simp

lemma reached_timely:
  "p = run_ops engine_step (engines_new models now m b t) ops \<Longrightarrow> run_ok engine_step on_time (engines_new models now m b t) ops \<Longrightarrow> engines_inv True p"
  using timely.run_inv [OF engines_new_inv] by simp

text \<open>The configuration of the pool never changes.\<close>

definition config :: "engine_pool \<Rightarrow> capacity_policy \<times> nat option \<times> nat option" where
  "config p = (capacity_policy p, max_loaded p, model_limit p)"

lemma config_fields [simp]:
  "config (set_slot i sl p) = config p" "config (set_state i st p) = config p" "config (p\<lparr>leases := ls\<rparr>) = config p"
  "config (p\<lparr>gate := g\<rparr>) = config p" "config (p\<lparr>monitor_scan := x\<rparr>) = config p" "config (p\<lparr>tasks := ts\<rparr>) = config p" "config (p\<lparr>next_engine := n\<rparr>) = config p"
  "config (advance_stage l stage p) = config p" "config (leave_gate p) = config p" "config (capacity_rejected l e now p) = config p"
  by (simp_all add: config_def set_slot_def set_state_def advance_stage_def leave_gate_def capacity_rejected_def split: option.split)

lemma config_parts [simp]:
  "config (snd (look_and_lease i trigger now p)) = config p" "config (snd (evict_commit pick now p)) = config p"
  "config (add_task x p) = config p" "config (snd (unload i now p)) = config p" "config (finish_draining i now p) = config p"
  "config (snd (ttl_unload i now ttl p)) = config p" "config (set_pinned i b p) = config p" "config (drop_lease k p) = config p"
  by (auto simp: look_and_lease_def evict_commit_def add_task_def unload_def finish_draining_def ttl_unload_def set_pinned_def
      drop_lease_def Let_def split: option.split slot_state.split look.split prod.split)

lemma config_acquire [simp]: "config (snd (acquire_gate i trigger now p)) = config p"
  using config_parts(1) [of i trigger now p] by (auto simp: acquire_gate_def split: look.split prod.split simp del: config_parts)

lemma config_crowded [simp]: "config (crowded_evict sc now l p) = config p"
  using config_parts(2) [of "scan_pick sc" now p] by (auto simp: crowded_evict_def split: prod.split bool.split simp del: config_parts)

lemma config_load [simp]: "config (load_step op l p) = config p"
  by (auto simp: load_step_def reserve_first_def reclaim_scan_def shrink_failed_def reclaim_evict_def reserve_again_def count_start_def count_slot_def
      count_decide_def crowded_scan_def begin_loading_def finish_loading_def Let_def
      split: load_stage.split engine_op.split sum.split option.split capacity_decision.split list.split)

lemma config_resume [simp]: "config (resume_task k now p) = config p"
  by (simp add: resume_task_def Let_def split: pending_task.split option.split)

lemma config_step [simp]: "config (engine_step p op) = config p"
  by (cases op) (simp_all split: option.split)

lemma config_run [simp]: "config (run_ops engine_step p ops) = config p"
  by (induction ops arbitrary: p) simp_all

lemma reached_config:
  assumes "p = run_ops engine_step (engines_new models now m b t) ops"
  shows "capacity_policy p = EvictLruIdle" and "max_loaded p = m" and "model_limit p = b"
  using config_run [of "engines_new models now m b t" ops] unfolding assms by (simp_all add: config_def engines_new_def)

section \<open>Requests, limits and life cycles\<close>

text \<open>A pool of two models for one engine; \<open>loading\<close> brings the first up to the load, \<open>serving\<close> through it.\<close>

abbreviation small_engines :: engine_pool where
  "small_engines \<equiv> engines_new [(''a'', Lazy, False), (''b'', Preload, False)] 0 (Some 1) (Some 100) None"

abbreviation loading :: "string \<Rightarrow> engine_op list" where
  "loading i \<equiv> [Acquire i Request 1, Reserve (Inr True) 1, Count, CountSlot, CountSlot, Decide 1, BeginLoading 1]"

abbreviation serving_of :: "nat \<Rightarrow> string \<Rightarrow> engine_op list" where
  "serving_of w i \<equiv> loading i @ [FinishLoading 1 (Inr w) 0]"

abbreviation serving :: "string \<Rightarrow> engine_op list" where
  "serving i \<equiv> serving_of 80 i"

text \<open>What evaluates the machine on the small pool.\<close>

lemmas pool_evals = engines_new_def new_slot_def acquire_gate_def look_and_lease_def look_at_def load_step_def reserve_first_def count_start_def count_slot_def
  count_decide_def decide_engine_pool_capacity_def loaded_count_def begin_loading_def finish_loading_def check_memory_limits_after_load_def
  loaded_model_weight_bytes_excluding_def advance_stage_def leave_gate_def attempts_at_def set_state_def slot_of_def set_slot_def Let_def sat_add_def u64_max_def

lemma small_served:
  "run_ops engine_step small_engines (serving ''b'') =
     \<lparr>slots = [(''a'', new_slot Lazy False 0), (''b'', \<lparr>slot_policy = Preload, slot_active = 1, slot_pinned = False,
        slot_state = Loaded \<lparr>engine_number = 0, engine_weight = 80\<rparr> 1 1 1 1\<rparr>)],
      leases = [\<lparr>lease_slot = ''b'', lease_engine = \<lparr>engine_number = 0, engine_weight = 80\<rparr>, lease_counted = True\<rparr>],
      gate = None, monitor_scan = None, tasks = [], next_engine = 1, capacity_policy = EvictLruIdle, max_loaded = Some 1, model_limit = Some 100,
      total_limit = None\<rparr>"
  by (simp add: pool_evals)

text \<open>
  C17: however requests, loads, unloads, sweeps and evictions interleave, the number of active requests of a slot is
  exactly the number of leases that requests hold on it. And unless a task that waits for a draining slot comes late,
  that is sees the slot idle and gets its lock only when requests are active on it again, while a request holds a lease
  the slot still serves the very engine of that lease or is draining: it is not unloaded, evicted or loaded anew under
  the request, by the sweep, the monitor, another load or an unload.
\<close>

theorem engine_in_use_stays:
  assumes "p = run_ops engine_step (engines_new models now m b t) ops" and "slot_of p i = Some sl"
  shows "slot_active sl = length (filter (\<lambda>l. lease_counted l \<and> lease_slot l = i) (leases p))
    \<and> (run_ok engine_step on_time (engines_new models now m b t) ops \<longrightarrow>
       (\<forall>l \<in> set (leases p). lease_counted l \<longrightarrow> lease_slot l = i \<longrightarrow>
         (\<exists>t u n c. slot_state sl = Loaded (lease_engine l) t u n c) \<or> (\<exists>t n c. slot_state sl = Draining t n c)))"
proof -
  have "(\<exists>t u n c. slot_state sl = Loaded e t u n c) \<or> (\<exists>t n c. slot_state sl = Draining t n c)" if "serves (slot_state sl) e" for e
    using that by (cases "slot_state sl") simp_all
  then show ?thesis
    using engines_invD(2) [OF reached [OF assms(1)] assms(2)] engines_invD(3) [OF reached_timely [OF assms(1)] TrueI assms(2)] by auto
qed

theorem engine_in_use_stays_witness:
  "\<exists>sl. slot_of (run_ops engine_step small_engines (serving ''b'')) ''b'' = Some sl \<and> slot_active sl = 1
     \<and> (\<exists>t u n c. slot_state sl = Loaded \<lparr>engine_number = 0, engine_weight = 80\<rparr> t u n c)"
proof -
  obtain sl where o: "slot_of (run_ops engine_step small_engines (serving ''b'')) ''b'' = Some sl" and n: "\<forall>t n c. slot_state sl \<noteq> Draining t n c"
    unfolding small_served by (simp add: slot_of_def)
  have l: "leases (run_ops engine_step small_engines (serving ''b''))
      = [\<lparr>lease_slot = ''b'', lease_engine = \<lparr>engine_number = 0, engine_weight = 80\<rparr>, lease_counted = True\<rparr>]"
    unfolding small_served by simp
  have "run_ok engine_step on_time small_engines (serving ''b'')" by simp
  from engine_in_use_stays [OF refl o] n this show ?thesis unfolding l by (intro exI [of _ sl] conjI o) simp_all
qed

text \<open>
  C23: the late task. The task that an unload leaves behind sees the slot idle when its last request ends; before it has
  the lock a new request loads the model again, and another unload drains it. The task then unloads the slot although
  that request is active, as the state is all it looks at under the lock. The next request loads the model a second
  time: a pool for one engine now has two of them in use, both of the full weight.
\<close>

theorem stale_drain_unloads_in_use:
  assumes "w \<le> limit" and "limit < u64_max"
    and "p = run_ops engine_step (engines_new [(i, Lazy, False)] 0 (Some 1) (Some limit) None)
      (serving_of w i @ [Unload i 2, DropLease 0, DropLease 0, Resume 0 2] @ serving_of w i @ [Unload i 4, Resume 0 5])"
    and "q = run_ops engine_step p (serving_of w i)"
  shows "(\<exists>sl. slot_of p i = Some sl \<and> slot_active sl = 1 \<and> slot_state sl = Unloaded Manual None 5 2) \<and> loaded_count p = 0
    \<and> map (\<lambda>l. (lease_slot l, lease_counted l, engine_number (lease_engine l), engine_weight (lease_engine l))) (leases q)
        = [(i, True, 1, w), (i, True, 2, w)] \<and> loaded_count q = 1"
  using assms(1,2) unfolding assms(3,4)
  by (simp add: pool_evals unload_def drop_lease_def resume_task_def finish_draining_def add_task_def)

theorem stale_drain_unloads_in_use_witness:
  "length (leases (run_ops engine_step (run_ops engine_step (engines_new [(''a'', Lazy, False)] 0 (Some 1) (Some 100) None)
      (serving_of 80 ''a'' @ [Unload ''a'' 2, DropLease 0, DropLease 0, Resume 0 2] @ serving_of 80 ''a'' @ [Unload ''a'' 4, Resume 0 5]))
      (serving_of 80 ''a''))) = 2"
proof -
  have "(80 :: nat) \<le> 100" "(100 :: nat) < u64_max" by (simp_all add: u64_max_def)
  from stale_drain_unloads_in_use [OF this refl refl, of "''a''", THEN conjunct2, THEN conjunct2, THEN conjunct1, THEN arg_cong [of _ _ length]]
  show ?thesis by (simp only: length_map list.size)
qed



text \<open>
  A model with the preload policy that is loaded stays loaded, with the same engine, whatever happens: it is not
  unloaded by hand or by age, not evicted for another model and not under memory pressure.
\<close>

theorem preloaded_stays:
  assumes "p = run_ops engine_step (engines_new models now m b t) ops" and "slot_of p i = Some sl" and "slot_policy sl = Preload"
    and "slot_state sl = Loaded e at_time u n c"
  shows "\<exists>sl' u' c'. slot_of (run_ops engine_step p later) i = Some sl' \<and> slot_state sl' = Loaded e at_time u' n c'"
proof -
  have "engines_inv False q \<Longrightarrow> slot_of q i = Some x \<Longrightarrow> slot_policy x = Preload \<Longrightarrow> slot_state x = Loaded e at_time u n c \<Longrightarrow>
      \<exists>sl' u' c'. slot_of (run_ops engine_step q later) i = Some sl' \<and> slot_state sl' = Loaded e at_time u' n c'" for q x u c
  proof (induction later arbitrary: q x u c)
    case (Cons op later)
    obtain y where y: "slot_of (engine_step q op) i = Some y" "lifecycle (at_gate q i) (seen_idle q op i) x y"
      using followsD [OF engine_step_follows [OF Cons.prems(1)] Cons.prems(2)] by blast
    obtain u c where "slot_state y = Loaded e at_time u n c" using preloaded_step [OF y(2) Cons.prems(3,4)] by blast
    then show ?case
      using Cons.IH [OF engine_step_inv [OF Cons.prems(1)] y(1)] lifecycle_policy [OF y(2)] Cons.prems(3) by simp
  qed simp
  then show ?thesis using reached [OF assms(1)] assms(2-4) by blast
qed

theorem preloaded_stays_witness:
  "\<exists>sl u c. slot_of (run_ops engine_step (run_ops engine_step small_engines (serving ''b'')) [DropLease 0, DropLease 0, Unload ''b'' 5, LookExpire ''b'' 99 1, Resume 0 99]) ''b'' = Some sl
     \<and> slot_state sl = Loaded \<lparr>engine_number = 0, engine_weight = 80\<rparr> 1 u 1 c"
proof -
  let ?sl = "\<lparr>slot_policy = Preload, slot_active = 1, slot_pinned = False, slot_state = Loaded \<lparr>engine_number = 0, engine_weight = 80\<rparr> 1 1 1 1\<rparr>"
  have "slot_of (run_ops engine_step small_engines (serving ''b'')) ''b'' = Some ?sl" unfolding small_served by (simp add: slot_of_def)
  moreover have "slot_policy ?sl = Preload" "slot_state ?sl = Loaded \<lparr>engine_number = 0, engine_weight = 80\<rparr> 1 1 1 1" by simp_all
  ultimately show ?thesis by (rule preloaded_stays [OF refl])
qed

text \<open>
  C19: each step of the pool, in any reachable state, is for each slot a step of its life cycle: a load starts only from a
  cold slot and only through the task at the gate, which ends it; only an idle engine without the preload policy is
  given up; one that is in use is drained, and becomes cold when its last request has gone or when the task acts that
  waits for the slot and has seen it idle before.
\<close>

theorem slots_follow_lifecycle:
  assumes "p = run_ops engine_step (engines_new models now m b t) ops" and "slot_of p i = Some sl"
  shows "\<exists>sl'. slot_of (engine_step p op) i = Some sl'
    \<and> lifecycle (\<exists>l. gate p = Some l \<and> loader_slot l = i) (\<exists>k time. op = Resume k time \<and> k < length (tasks p) \<and> tasks p ! k = DrainSeen i) sl sl'"
proof -
  have "seen_idle p op i = (\<exists>k time. op = Resume k time \<and> k < length (tasks p) \<and> tasks p ! k = DrainSeen i)" by (cases op) auto
  then show ?thesis using followsD [OF engine_step_follows [OF reached [OF assms(1)]] assms(2), of op] by (simp add: at_gate_def)
qed

theorem slots_follow_lifecycle_witness:
  "\<exists>sl sl'. slot_of (run_ops engine_step small_engines (serving ''b'')) ''b'' = Some sl
     \<and> slot_of (engine_step (run_ops engine_step small_engines (serving ''b'')) (Unload ''b'' 5)) ''b'' = Some sl'
     \<and> (\<exists>g. lifecycle g False sl sl')"
proof -
  have "slot_of (run_ops engine_step small_engines (serving ''b'')) ''b'' \<noteq> None" unfolding small_served by (simp add: slot_of_def)
  then obtain sl where o: "slot_of (run_ops engine_step small_engines (serving ''b'')) ''b'' = Some sl" by blast
  have none: "(\<exists>k time. Unload ''b'' 5 = Resume k time \<and> P k) = False" for P by simp
  from slots_follow_lifecycle [OF refl o, of "Unload ''b'' 5"] o show ?thesis unfolding none by blast
qed

section \<open>A load that is given up\<close>

lemma gate_step:
  assumes "gate (engine_step p op) = Some l'"
  shows "(\<exists>l. gate p = Some l \<and> loader_slot l = loader_slot l')
    \<or> (\<exists>trigger now. fst (look_and_lease (loader_slot l') trigger now p) = Proceed)"
proof -
  have look: "gate (snd (look_and_lease i trigger now p)) = gate p" for i trigger now
    by (auto simp: look_and_lease_def Let_def split: option.split look.split prod.split)
  have evict: "gate (snd (evict_commit pick now p)) = gate p" for pick now
    by (auto simp: evict_commit_def set_state_def split: option.split slot_state.split)
  have crowded: "\<exists>l. gate p = Some l \<and> loader_slot l = loader_slot l'" if "gate (crowded_evict sc now l p) = Some l'" "gate p = Some l" for sc now l
    using that by (auto simp: crowded_evict_def advance_stage_def capacity_rejected_def leave_gate_def split: prod.splits bool.splits if_splits)
  have load: "\<exists>l. gate p = Some l \<and> loader_slot l = loader_slot l'" if "gate (load_step op l p) = Some l'" "gate p = Some l" for op l
    using that crowded
    by (auto simp: load_step_def reserve_first_def reclaim_scan_def shrink_failed_def reclaim_evict_def reserve_again_def count_start_def count_slot_def count_decide_def
      crowded_scan_def begin_loading_def finish_loading_def advance_stage_def leave_gate_def capacity_rejected_def Let_def
      split: load_stage.splits engine_op.splits sum.splits option.splits capacity_decision.splits list.splits if_splits)
  have acquire: "(\<exists>l. gate p = Some l \<and> loader_slot l = loader_slot l') \<or> i = loader_slot l' \<and> fst (look_and_lease i trigger now p) = Proceed"
    if "gate (snd (acquire_gate i trigger now p)) = Some l'" for i trigger now
    using that look [of i trigger now] by (auto simp: acquire_gate_def split: look.splits prod.splits)
  have set: "gate (set_state i st p) = gate p" for i st p by (simp add: set_state_def split: option.split)
  have rest: "gate (snd (unload i now p)) = gate p" "gate (add_task x p) = gate p" "gate (drop_lease k p) = gate p" for i now x k
    by (auto simp: unload_def add_task_def drop_lease_def Let_def set split: option.split slot_state.split)
  have parts: "gate (finish_draining i now q) = gate q" "gate (snd (ttl_unload i now ttl q)) = gate q" "gate (set_pinned i b q) = gate q" for i now ttl b q
    by (auto simp: finish_draining_def ttl_unload_def set_pinned_def set split: option.split slot_state.split)
  have resume: "gate (resume_task k now p) = gate p" for k now
    by (simp add: resume_task_def Let_def parts split: pending_task.split option.split)
  show ?thesis
  proof (cases op)
    case (Acquire i trigger now)
    then show ?thesis using assms acquire [of i trigger now] by (auto split: if_splits)
  qed (use assms load in \<open>auto simp: look evict rest resume split: option.splits if_splits\<close>)
qed

lemma stuck_step_pool:
  assumes i: "engines_inv False p" and g: "\<not> at_gate p x" and o: "slot_of p x = Some sl" "slot_state sl = Loading t n"
  shows "\<not> at_gate (engine_step p op) x \<and> (\<exists>sl. slot_of (engine_step p op) x = Some sl \<and> slot_state sl = Loading t n)"
proof -
  have "fst (look_and_lease x trigger now p) \<noteq> Proceed" for trigger now
    using o by (simp add: look_and_lease_def look_at_def)
  then have "\<not> at_gate (engine_step p op) x" using g gate_step [of p op] unfolding at_gate_def by metis
  then show ?thesis using followsD [OF engine_step_follows [OF i] o(1), of op] stuck_step [OF _ o(2)] g by auto
qed

text \<open>
  C21: when the future of the task that loads a model is dropped between the mark \<open>Loading\<close> and the end of the load, as
  happens when its client disconnects, the slot says \<open>Loading\<close> for ever after: no request ever gets an engine or a
  chance to load the model, and it cannot be unloaded either.
\<close>

theorem cancelled_load_sticks:
  assumes "p = run_ops engine_step (engines_new models now m b t) ops" and "gate p = Some l" and "loader_stage l = LoadingEngine n"
    and "q = run_ops engine_step (engine_step p Cancel) later"
  shows "(\<exists>sl since. slot_of q (loader_slot l) = Some sl \<and> slot_state sl = Loading since n)
    \<and> (\<forall>trigger time e. fst (look_and_lease (loader_slot l) trigger time q) \<notin> {Granted e, Proceed})
    \<and> (\<forall>time. fst (unload (loader_slot l) time q) \<noteq> Inr () \<and> snd (unload (loader_slot l) time q) = q)"
proof -
  let ?x = "loader_slot l"
  note i = reached [OF assms(1)]
  obtain sl since where o: "slot_of p ?x = Some sl" "slot_state sl = Loading since n"
    using gate_slot [OF i assms(2)] staged_loading assms(3) by metis
  have c: "engine_step p Cancel = leave_gate p" using assms(2,3) by (simp add: load_step_def)
  have "engines_inv False r \<Longrightarrow> \<not> at_gate r ?x \<Longrightarrow> slot_of r ?x = Some sl \<Longrightarrow> slot_state sl = Loading since n \<Longrightarrow>
      \<exists>sl. slot_of (run_ops engine_step r later) ?x = Some sl \<and> slot_state sl = Loading since n" for r sl
  proof (induction later arbitrary: r sl)
    case (Cons op later)
    then show ?case using stuck_step_pool [OF Cons.prems(1-4), of op] engine_step_inv [OF Cons.prems(1), of op] by auto
  qed simp
  moreover have "\<not> at_gate (leave_gate p) ?x" "slot_of (leave_gate p) ?x = Some sl" using o(1) by (simp_all add: at_gate_def leave_gate_def)
  ultimately obtain y where y: "slot_of q ?x = Some y" "slot_state y = Loading since n"
    unfolding assms(4) c using leave_inv [OF i] o(2) by blast
  then show ?thesis by (simp add: look_and_lease_def look_at_def unload_def)
qed

theorem cancelled_load_sticks_witness:
  "\<exists>sl t. slot_of (run_ops engine_step (engine_step (run_ops engine_step small_engines (loading ''a'')) Cancel)
        [Enter ''a'' Request 5, Unload ''a'' 6, Acquire ''a'' Control 7]) ''a'' = Some sl \<and> slot_state sl = Loading t 1"
proof -
  have "gate (run_ops engine_step small_engines (loading ''a'')) = Some \<lparr>loader_slot = ''a'', loader_trigger = Request, loader_stage = LoadingEngine 1\<rparr>"
    by (simp add: pool_evals)
  from cancelled_load_sticks [OF refl this _ refl, THEN conjunct1, unfolded loader.select_convs, OF refl] show ?thesis .
qed

section \<open>Eviction and age\<close>

text \<open>What an eviction does to the slots of a pool: the slot named, and no other, loses its engine.\<close>

definition emptied :: "string \<Rightarrow> unload_reason \<Rightarrow> engine_error option \<Rightarrow> nat \<Rightarrow> engine_pool \<Rightarrow> string \<Rightarrow> slot option" where
  "emptied i r e now p = (\<lambda>j. case slot_of p j of None \<Rightarrow> None
     | Some sl \<Rightarrow> Some (if j = i then sl\<lparr>slot_state := Unloaded r e now (load_attempts (slot_state sl))\<rparr> else sl))"

lemma slot_of_set_state: "slot_of (set_state i st p) j = (case slot_of p j of None \<Rightarrow> None | Some sl \<Rightarrow> Some (if j = i then sl\<lparr>slot_state := st\<rparr> else sl))"
  by (auto simp: set_state_def split: option.split)

text \<open>
  The engines that may be evicted for \<open>target\<close>: idle, held by nobody, neither pinned nor preloaded. A scan in which
  nobody comes in between finds exactly those, with the time of their last use.
\<close>

definition evictable :: "slot \<Rightarrow> engine_pool \<Rightarrow> nat option" where
  "evictable sl p = (if slot_policy sl = Preload \<or> slot_pinned sl then None else idle_engine sl p)"

definition candidate_at :: "string \<Rightarrow> engine_pool \<Rightarrow> string \<Rightarrow> (string \<times> nat) list" where
  "candidate_at target p i = (if i = target then [] else case slot_of p i of
     Some sl \<Rightarrow> (case evictable sl p of Some used \<Rightarrow> [(i, used)] | None \<Rightarrow> []) | None \<Rightarrow> [])"

definition eviction_candidates :: "string \<Rightarrow> engine_pool \<Rightarrow> (string \<times> nat) list" where
  "eviction_candidates target p = concat (map (candidate_at target p) (map fst (slots p)))"

definition evict_scan :: "string \<Rightarrow> engine_pool \<Rightarrow> string option" where
  "evict_scan target p = select_lru_eviction_candidate (eviction_candidates target p)"

lemma candidates_iff:
  "(i, used) \<in> set (eviction_candidates target p) \<longleftrightarrow> i \<noteq> target \<and> (\<exists>sl. slot_of p i = Some sl \<and> evictable sl p = Some used)"
proof -
  have "slot_of p i = Some sl \<Longrightarrow> i \<in> fst ` set (slots p)" for sl
    by (auto simp: slot_of_def dest!: map_of_SomeD intro: rev_image_eqI)
  moreover have "(i, used) \<in> set (candidate_at target p j) \<longleftrightarrow> j = i \<and> i \<noteq> target \<and> (\<exists>sl. slot_of p i = Some sl \<and> evictable sl p = Some used)" for j
  proof (cases "slot_of p j")
    case (Some sl)
    then show ?thesis by (cases "evictable sl p") (auto simp: candidate_at_def)
  qed (auto simp: candidate_at_def)
  ultimately show ?thesis by (auto simp: eviction_candidates_def)
qed

lemma scan_slot_twice:
  assumes "scan_todo sc = i # rest" and "\<not> scan_passed sc"
  shows "\<exists>j. j \<le> 2 \<and> (scan_slot p ^^ j) sc = sc\<lparr>scan_todo := rest, scan_seen := scan_seen sc @ candidate_at (scan_target sc) p i\<rparr>"
proof (cases "slot_of p i")
  case None
  then have "(scan_slot p ^^ 1) sc = sc\<lparr>scan_todo := rest, scan_seen := scan_seen sc @ candidate_at (scan_target sc) p i\<rparr>"
    using assms by (simp add: scan_slot_def candidate_at_def)
  then show ?thesis by (intro exI [of _ 1]) simp
next
  case (Some sl)
  show ?thesis
  proof (cases "scan_skips (scan_target sc) i sl")
    case True
    then have "(scan_slot p ^^ 1) sc = sc\<lparr>scan_todo := rest, scan_seen := scan_seen sc @ candidate_at (scan_target sc) p i\<rparr>"
      using assms Some by (auto simp: scan_slot_def candidate_at_def scan_skips_def evictable_def)
    then show ?thesis by (intro exI [of _ 1]) simp
  next
    case False
    then have "(scan_slot p ^^ 2) sc = sc\<lparr>scan_todo := rest, scan_seen := scan_seen sc @ candidate_at (scan_target sc) p i\<rparr>"
      using assms Some by (simp add: scan_slot_def candidate_at_def scan_skips_def evictable_def eval_nat_numeral)
    then show ?thesis by (intro exI [of _ 2]) simp
  qed
qed

lemma scan_to_end:
  assumes "\<not> scan_passed sc"
  shows "\<exists>j. j \<le> 2 * length (scan_todo sc) \<and>
    (scan_slot p ^^ j) sc = sc\<lparr>scan_todo := [], scan_seen := scan_seen sc @ concat (map (candidate_at (scan_target sc) p) (scan_todo sc))\<rparr>"
  using assms
proof (induction "scan_todo sc" arbitrary: sc)
  case Nil
  then show ?case by (intro exI [of _ 0]) simp
next
  case (Cons i rest)
  let ?next = "sc\<lparr>scan_todo := rest, scan_seen := scan_seen sc @ candidate_at (scan_target sc) p i\<rparr>"
  obtain j where j: "j \<le> 2" "(scan_slot p ^^ j) sc = ?next" using scan_slot_twice [OF Cons.hyps(2) [symmetric] Cons.prems] by blast
  obtain k where k: "k \<le> 2 * length rest" "(scan_slot p ^^ k) ?next =
      ?next\<lparr>scan_todo := [], scan_seen := scan_seen ?next @ concat (map (candidate_at (scan_target sc) p) rest)\<rparr>"
    using Cons.hyps(1) [of ?next] Cons.prems by auto
  have "(scan_slot p ^^ (k + j)) sc = (scan_slot p ^^ k) ?next" by (simp add: funpow_add j(2))
  then show ?case using j(1) k Cons.hyps(2) [symmetric] by (intro exI [of _ "k + j"]) simp
qed

lemma scan_ended: "scan_todo sc = [] \<Longrightarrow> (scan_slot p ^^ j) sc = sc"
  by (induction j) (simp_all add: scan_slot_def)

lemma scan_complete:
  assumes "2 * length (slots p) \<le> c"
  shows "scan_todo ((scan_slot p ^^ c) (scan_start target p)) = []"
    and "scan_pick ((scan_slot p ^^ c) (scan_start target p)) = evict_scan target p"
proof -
  obtain j where j: "j \<le> 2 * length (slots p)" "(scan_slot p ^^ j) (scan_start target p)
      = (scan_start target p)\<lparr>scan_todo := [], scan_seen := eviction_candidates target p\<rparr>"
    using scan_to_end [of "scan_start target p" p] by (auto simp: scan_start_def eviction_candidates_def)
  have "c = (c - j) + j" using j(1) assms by simp
  then have "(scan_slot p ^^ c) (scan_start target p) = (scan_slot p ^^ (c - j)) ((scan_slot p ^^ j) (scan_start target p))"
    by (metis comp_apply funpow_add)
  then have e: "(scan_slot p ^^ c) (scan_start target p) = (scan_start target p)\<lparr>scan_todo := [], scan_seen := eviction_candidates target p\<rparr>"
    by (simp add: j(2) scan_ended)
  show "scan_todo ((scan_slot p ^^ c) (scan_start target p)) = []"
    and "scan_pick ((scan_slot p ^^ c) (scan_start target p)) = evict_scan target p"
    unfolding e by (simp_all add: scan_pick_def evict_scan_def)
qed

text \<open>The steps of the task at the gate when nobody comes in between.\<close>

lemma scan_slot_gate [simp]: "scan_slot (p\<lparr>gate := g\<rparr>) sc = scan_slot p sc"
proof -
  have "idle_engine sl (p\<lparr>gate := g\<rparr>) = idle_engine sl p" for sl
    by (simp add: idle_engine_def strong_count_def split: slot_state.split)
  then show ?thesis unfolding scan_slot_def slot_of_fields by presburger
qed

lemma scan_run:
  "run_ops engine_step (advance_stage l (Evicting sc) p) (replicate c ScanStep) = advance_stage l (Evicting ((scan_slot p ^^ c) sc)) p"
proof (induction c arbitrary: sc)
  case (Suc c)
  have "engine_step (advance_stage l (Evicting sc) p) ScanStep = advance_stage l (Evicting (scan_slot p sc)) p"
    by (simp add: load_step_def advance_stage_def)
  then show ?case using Suc.IH [of "scan_slot p sc"] by (simp add: funpow_swap1)
qed simp

definition resident_at :: "engine_pool \<Rightarrow> string \<Rightarrow> bool" where
  "resident_at p i = (case slot_of p i of Some sl \<Rightarrow> resident (slot_state sl) | None \<Rightarrow> False)"

lemma count_run:
  "length todo \<le> a \<Longrightarrow> run_ops engine_step (advance_stage l (Counting todo n) p) (replicate a CountSlot)
     = advance_stage l (Counting [] (n + length (filter (resident_at p) todo))) p"
proof (induction a arbitrary: todo n)
  case (Suc a)
  have "engine_step (advance_stage l (Counting todo n) p) CountSlot
      = advance_stage l (Counting (tl todo) (n + (if todo \<noteq> [] \<and> resident_at p (hd todo) then 1 else 0))) p"
    by (cases todo) (simp_all add: load_step_def advance_stage_def count_slot_def resident_at_def)
  moreover have "length (tl todo) \<le> a" using Suc.prems by simp
  ultimately show ?case using Suc.IH [of "tl todo"] by (cases todo) simp_all
qed simp

lemma resident_count:
  assumes "keys_ok p"
  shows "length (filter (resident_at p) (map fst (slots p))) = loaded_count p"
proof -
  have "resident_at p i = resident (slot_state sl)" if "(i, sl) \<in> set (slots p)" for i sl
    using that assms by (simp add: resident_at_def slot_of_def keys_ok_def)
  then have "filter (resident_at p \<circ> fst) (slots p) = filter (\<lambda>(i, sl). resident (slot_state sl)) (slots p)"
    by (intro filter_cong) auto
  then show ?thesis by (simp add: loaded_count_def filter_map)
qed

lemma scan_least:
  shows "evict_scan target p = Some i \<Longrightarrow> \<exists>used. (i, used) \<in> set (eviction_candidates target p)
      \<and> (\<forall>(j, u) \<in> set (eviction_candidates target p). (used, i) \<le> (u, j))"
    and "evict_scan target p = None \<longleftrightarrow> eviction_candidates target p = []"
proof -
  let ?cs = "eviction_candidates target p" and ?f = "\<lambda>(i :: string, used :: nat). (used, i)"
  have s: "sorted (map ?f (sort_key ?f ?cs))" by simp
  show "\<exists>used. (i, used) \<in> set ?cs \<and> (\<forall>(j, u) \<in> set ?cs. (used, i) \<le> (u, j))" if found: "evict_scan target p = Some i"
  proof -
    obtain used rest where h: "sort_key ?f ?cs = (i, used) # rest"
      using found unfolding evict_scan_def select_lru_eviction_candidate_def by (auto split: list.splits)
    have "\<forall>x \<in> set rest. (used, i) \<le> ?f x" using s unfolding h by auto
    moreover have "set ?cs = insert (i, used) (set rest)" using arg_cong [OF h, of set] by simp
    ultimately show ?thesis by (intro exI [of _ used]) auto
  qed
  have "sort_key ?f ?cs = [] \<longleftrightarrow> ?cs = []" by (metis length_0_conv length_sort)
  then show "evict_scan target p = None \<longleftrightarrow> ?cs = []"
    unfolding evict_scan_def select_lru_eviction_candidate_def by (auto split: list.split)
qed

lemma evictable_gate [simp]: "evictable sl (p\<lparr>gate := g\<rparr>) = evictable sl p"
  by (simp add: evictable_def idle_engine_def strong_count_def split: slot_state.split)

lemma evict_picked:
  assumes "slot_of p i = Some sl" and "evictable sl p = Some used"
  shows "evict_commit (Some i) now p = (True, set_state i (Unloaded Evicted None now (load_attempts (slot_state sl))) p)"
  using assms by (auto simp: evictable_def idle_engine_def evict_commit_def split: if_splits slot_state.splits)

lemma undisturbed_run:
  assumes "keys_ok p" and "gate p = Some l" and "loader_stage l = Reserved" and "max_loaded p = Some k" and "capacity_policy p = EvictLruIdle"
    and "k \<le> loaded_count p" and "length (slots p) \<le> a" and "sc = (scan_slot p ^^ c) (scan_start (loader_slot l) p)"
  shows "run_ops engine_step p (Count # replicate a CountSlot @ Decide time # Scan # replicate c ScanStep @ [Evict time])
    = crowded_evict sc time (l\<lparr>loader_stage := Evicting sc\<rparr>) (advance_stage l (Evicting sc) p)"
proof -
  have q1: "engine_step p Count = advance_stage l (Counting (map fst (slots p)) 0) p"
    using assms(2-4) by (simp add: load_step_def count_start_def)
  have q2: "run_ops engine_step (advance_stage l (Counting (map fst (slots p)) 0) p) (replicate a CountSlot) = advance_stage l (Counting [] (loaded_count p)) p"
    using count_run [of "map fst (slots p)" a l 0 p] assms(7) resident_count [OF assms(1)] by simp
  have q3: "engine_step (advance_stage l (Counting [] (loaded_count p)) p) (Decide time) = advance_stage l Crowded p"
    using assms(4-6) by (simp add: load_step_def count_decide_def decide_engine_pool_capacity_def advance_stage_def)
  have q4: "engine_step (advance_stage l Crowded p) Scan = advance_stage l (Evicting (scan_start (loader_slot l) p)) p"
    by (simp add: load_step_def crowded_scan_def scan_start_def advance_stage_def)
  show ?thesis
    unfolding assms(8) run_ops_simps run_ops_append q1 q2 q3 q4 scan_run by (simp add: load_step_def advance_stage_def)
qed

text \<open>
  C22: a task that has its memory but finds the pool full, and that no other task disturbs from the count of the engines
  to the eviction, takes the engine that has gone unused for longest among those that are idle, neither pinned nor
  preloaded, held by nobody and not its own; on a tie the first by name. That slot and no other loses its engine and the
  task goes on. If there is none, the task fails, its own slot says so and the gate is free again.
\<close>

theorem full_pool_evicts_least_recent:
  assumes "p = run_ops engine_step (engines_new models now m b t) ops" and "gate p = Some l" and "loader_stage l = Reserved"
    and "m = Some k" and "k \<le> loaded_count p" and "length (slots p) \<le> a" and "2 * length (slots p) \<le> c"
    and "q = run_ops engine_step p (Count # replicate a CountSlot @ Decide time # Scan # replicate c ScanStep @ [Evict time])"
  shows "(\<exists>i sl used. slot_of p i = Some sl \<and> i \<noteq> loader_slot l \<and> evictable sl p = Some used
        \<and> (\<forall>j sl' u. slot_of p j = Some sl' \<longrightarrow> j \<noteq> loader_slot l \<longrightarrow> evictable sl' p = Some u \<longrightarrow> used < u \<or> used = u \<and> i \<le> j)
        \<and> slot_of q = emptied i Evicted None time p \<and> gate q = Some (l\<lparr>loader_stage := Admitted\<rparr>))
    \<or> ((\<forall>j sl. slot_of p j = Some sl \<longrightarrow> j \<noteq> loader_slot l \<longrightarrow> evictable sl p = None)
        \<and> slot_of q = emptied (loader_slot l) CapacityRejected (Some (NothingToEvict k)) time p \<and> gate q = None)"
proof -
  let ?x = "loader_slot l" and ?sc = "(scan_slot p ^^ c) (scan_start (loader_slot l) p)"
  let ?e = "l\<lparr>loader_stage := Evicting ?sc\<rparr>"
  note c = reached_config [OF assms(1)] and full = scan_complete [OF assms(7)]
  have q5: "q = crowded_evict ?sc time ?e (advance_stage l (Evicting ?sc) p)"
    unfolding assms(8) by (rule undisturbed_run [OF engines_invD(1) [OF reached [OF assms(1)]] assms(2,3)]) (use assms(4-6) c in simp_all)
  show ?thesis
  proof (cases "evict_scan ?x p")
    case None
    then have "eviction_candidates ?x p = []" using scan_least(2) by simp
    then have no: "\<forall>j sl. slot_of p j = Some sl \<longrightarrow> j \<noteq> ?x \<longrightarrow> evictable sl p = None"
      using candidates_iff [of _ _ ?x p] by (metis empty_iff empty_set not_Some_eq)
    have "slot_of q = emptied ?x CapacityRejected (Some (NothingToEvict k)) time p" "gate q = None"
      unfolding q5 using assms(4) c(2) full None
      by (auto simp: crowded_evict_def evict_commit_def capacity_rejected_def leave_gate_def advance_stage_def emptied_def attempts_at_def
          slot_of_set_state split: option.split)
    then show ?thesis using no by blast
  next
    case (Some y)
    obtain used where u: "(y, used) \<in> set (eviction_candidates ?x p)"
      "\<forall>(j, u) \<in> set (eviction_candidates ?x p). (used, y) \<le> (u, j)"
      using scan_least(1) [OF Some] by blast
    then obtain sl where sl: "slot_of p y = Some sl" "y \<noteq> ?x" "evictable sl p = Some used"
      using candidates_iff by blast
    have least: "used < u \<or> used = u \<and> y \<le> j" if "slot_of p j = Some sl'" "j \<noteq> ?x" "evictable sl' p = Some u" for j sl' u
    proof -
      have "(j, u) \<in> set (eviction_candidates ?x p)" using candidates_iff that by blast
      then show ?thesis using u(2) by (auto simp: less_eq_prod_def)
    qed
    have ev: "evictable sl (advance_stage l (Evicting ?sc) p) = Some used" and o: "slot_of (advance_stage l (Evicting ?sc) p) y = Some sl"
      using sl by (simp_all add: advance_stage_def)
    have "q = advance_stage ?e Admitted (set_state y (Unloaded Evicted None time (load_attempts (slot_state sl))) (advance_stage l (Evicting ?sc) p))"
      unfolding q5 by (simp add: crowded_evict_def full Some evict_picked [OF o ev])
    then have "slot_of q = emptied y Evicted None time p" "gate q = Some (l\<lparr>loader_stage := Admitted\<rparr>)"
      using sl(1) by (auto simp: advance_stage_def emptied_def slot_of_set_state split: option.split)
    then show ?thesis using sl least by blast
  qed
qed

theorem full_pool_evicts_least_recent_witness:
  "\<exists>stage. stage \<in> {Some \<lparr>loader_slot = ''b'', loader_trigger = Request, loader_stage = Admitted\<rparr>, None}
     \<and> gate (run_ops engine_step (run_ops engine_step small_engines (serving ''a'' @ [DropLease 0, DropLease 0, Acquire ''b'' Request 3, Reserve (Inr True) 3]))
         (Count # replicate 2 CountSlot @ Decide 4 # Scan # replicate 4 ScanStep @ [Evict 4])) = stage"
proof -
  let ?p = "run_ops engine_step small_engines (serving ''a'' @ [DropLease 0, DropLease 0, Acquire ''b'' Request 3, Reserve (Inr True) 3])"
  let ?l = "\<lparr>loader_slot = ''b'', loader_trigger = Request, loader_stage = Reserved\<rparr>"
  let ?q = "run_ops engine_step ?p (Count # replicate 2 CountSlot @ Decide 4 # Scan # replicate 4 ScanStep @ [Evict 4])"
  have g: "gate ?p = Some ?l" and c: "1 \<le> loaded_count ?p" and n: "length (slots ?p) \<le> 2" "2 * length (slots ?p) \<le> 4"
    by (simp_all add: pool_evals drop_lease_def)
  have "gate ?q = Some (?l\<lparr>loader_stage := Admitted\<rparr>) \<or> gate ?q = None"
    using full_pool_evicts_least_recent [OF refl g loader.select_convs(3) refl c n refl, of 4]
    by (elim disjE exE conjE) (rule disjI1, assumption, rule disjI2, assumption)
  then show ?thesis by (simp only: loader.update_convs) blast
qed

definition expired :: "nat \<Rightarrow> nat \<Rightarrow> slot \<Rightarrow> bool" where
  "expired now ttl sl = (slot_policy sl = Lazy \<and> \<not> slot_pinned sl \<and> slot_active sl = 0
     \<and> (\<exists>e t u n c. slot_state sl = Loaded e t u n c \<and> ttl \<le> now - u))"

lemma expired_unload:
  assumes "slot_of p i = Some sl" and "expired now ttl sl"
  shows "unload_if_ttl_expired i now ttl p = (True, set_state i (Unloaded Ttl None now (load_attempts (slot_state sl))) p)"
  using assms by (auto simp: unload_if_ttl_expired_def ttl_look_def ttl_unload_def expired_def)

lemma expire_all_expired:
  assumes "distinct is" and "\<And>i. i \<in> set is \<Longrightarrow> \<exists>sl. slot_of p i = Some sl \<and> expired now ttl sl"
  shows "fst (expire_all now ttl is p) = is \<and> (\<forall>j. slot_of (snd (expire_all now ttl is p)) j = (case slot_of p j of None \<Rightarrow> None
      | Some sl \<Rightarrow> Some (if j \<in> set is then sl\<lparr>slot_state := Unloaded Ttl None now (load_attempts (slot_state sl))\<rparr> else sl)))"
  using assms
proof (induction "is" arbitrary: p)
  case Nil
  then show ?case by (simp split: option.split)
next
  case (Cons i "is")
  obtain sl where sl: "slot_of p i = Some sl" "expired now ttl sl" using Cons.prems(2) [of i] by auto
  let ?p = "set_state i (Unloaded Ttl None now (load_attempts (slot_state sl))) p"
  have d: "i \<notin> set is" "distinct is" using Cons.prems(1) by simp_all
  have still: "\<exists>sl. slot_of ?p j = Some sl \<and> expired now ttl sl" if "j \<in> set is" for j
  proof -
    have "j \<noteq> i" using that d(1) by blast
    then show ?thesis using Cons.prems(2) [of j] that by (auto simp: slot_of_set_state)
  qed
  have r: "fst (expire_all now ttl is ?p) = is" "slot_of (snd (expire_all now ttl is ?p)) j = (case slot_of ?p j of None \<Rightarrow> None
      | Some sl \<Rightarrow> Some (if j \<in> set is then sl\<lparr>slot_state := Unloaded Ttl None now (load_attempts (slot_state sl))\<rparr> else sl))" for j
    using Cons.IH [of ?p] d(2) still by blast+
  have e: "expire_all now ttl (i # is) p = (i # fst (expire_all now ttl is ?p), snd (expire_all now ttl is ?p))"
    by (simp add: expired_unload [OF sl] split_beta)
  show ?case unfolding e fst_conv snd_conv r
    using sl(1) d(1) by (auto simp: slot_of_set_state split: option.split)
qed

lemma distinct_sort_key: "distinct (map fst xs) \<Longrightarrow> distinct (map fst (sort_key fst xs))"
  by (metis card_distinct distinct_card length_map length_sort set_map set_sort)

lemma candidate_expired: "slot_policy sl \<noteq> Preload \<and> ttl_candidate now ttl sl \<longleftrightarrow> expired now ttl sl"
  by (cases "slot_policy sl"; cases "slot_state sl") (auto simp: ttl_candidate_def expired_def)

text \<open>
  A sweep that nobody interrupts unloads exactly the engines that have gone unused for the time to live, are idle,
  not pinned and not preloaded; it reports their names in order and leaves every other slot alone.
\<close>

theorem sweep_unloads_expired:
  assumes "p = run_ops engine_step (engines_new models now0 m b t) ops" and "(gone, q) = unload_expired_model_ttl_once (Some ttl) now p"
  shows "sorted gone \<and> distinct gone \<and> (\<forall>i. i \<in> set gone \<longleftrightarrow> (\<exists>sl. slot_of p i = Some sl \<and> expired now ttl sl))
    \<and> (\<forall>i sl. slot_of p i = Some sl \<longrightarrow> slot_of q i = Some (if expired now ttl sl
         then sl\<lparr>slot_state := Unloaded Ttl None now (load_attempts (slot_state sl))\<rparr> else sl))"
proof -
  let ?cs = "sort_key fst (filter (\<lambda>(i, sl). slot_policy sl \<noteq> Preload) (slots p))"
  let ?is = "map fst (filter (\<lambda>(i, sl). ttl_candidate now ttl sl) ?cs)"
  have k: "distinct (map fst (slots p))" using engines_invD(1) [OF reached [OF assms(1)]] by (simp add: keys_ok_def)
  have sorted: "sorted ?is"
    using sorted_filter [of fst ?cs "\<lambda>(i, sl). ttl_candidate now ttl sl"] by simp
  have "distinct (map fst ?cs)" by (rule distinct_sort_key [OF distinct_map_filter [OF k]])
  then have distinct: "distinct ?is" by (rule distinct_map_filter)
  have mem: "i \<in> set ?is \<longleftrightarrow> (\<exists>sl. slot_of p i = Some sl \<and> expired now ttl sl)" for i
    using k candidate_expired [of _ now ttl] by (force simp: slot_of_def)
  have e: "gone = fst (expire_all now ttl ?is p)" "q = snd (expire_all now ttl ?is p)"
    using assms(2) by (simp_all add: unload_expired_model_ttl_once_def select_model_ttl_unload_candidates_def prod_eq_iff)
  have r: "fst (expire_all now ttl ?is p) = ?is" "slot_of (snd (expire_all now ttl ?is p)) j = (case slot_of p j of None \<Rightarrow> None
      | Some sl \<Rightarrow> Some (if j \<in> set ?is then sl\<lparr>slot_state := Unloaded Ttl None now (load_attempts (slot_state sl))\<rparr> else sl))" for j
    using expire_all_expired [OF distinct, of p now ttl] mem by blast+
  have "gone = ?is" using e(1) r(1) by simp
  moreover have "slot_of q i = Some (if expired now ttl sl then sl\<lparr>slot_state := Unloaded Ttl None now (load_attempts (slot_state sl))\<rparr> else sl)"
    if "slot_of p i = Some sl" for i sl
    using r(2) [of i] mem [of i] that unfolding e(2) by simp
  ultimately show ?thesis using sorted distinct mem by blast
qed

theorem sweep_unloads_expired_witness:
  "\<exists>gone q. unload_expired_model_ttl_once (Some 5) 9 (run_ops engine_step small_engines (serving ''a'' @ [DropLease 0, DropLease 0])) = (gone, q) \<and> ''a'' \<in> set gone"
proof -
  let ?p = "run_ops engine_step small_engines (serving ''a'' @ [DropLease 0, DropLease 0])"
  obtain gone q where u: "(gone, q) = unload_expired_model_ttl_once (Some 5) 9 ?p" by (metis surj_pair)
  have "\<exists>sl. slot_of ?p ''a'' = Some sl \<and> expired 9 5 sl" by (simp add: pool_evals drop_lease_def expired_def)
  then show ?thesis using sweep_unloads_expired [OF refl u] u by metis
qed

section \<open>Engines that drain\<close>

text \<open>
  C24: the limit on the memory for models leaves draining engines out: while a request still holds the engine of a model
  that is being unloaded, another model loads although the two engines together exceed the limit. The capacity in
  engines counts draining ones.
\<close>

theorem draining_escapes_limit:
  assumes "i \<noteq> j" and "w \<le> limit" and "w' \<le> limit" and "limit < u64_max"
    and "p = run_ops engine_step (engines_new [(i, Lazy, False), (j, Lazy, False)] 0 None (Some limit) None)
      (loading i @ [FinishLoading 1 (Inr w) 0, Unload i 2] @ loading j @ [FinishLoading 3 (Inr w') 0])"
  shows "map (\<lambda>l. (lease_slot l, engine_weight (lease_engine l))) (leases p) = [(i, w), (j, w')] \<and> loaded_count p = 2
    \<and> sum_list (map (\<lambda>(i, sl). loaded_weight (slot_state sl)) (slots p)) = w'"
  using assms unfolding assms(5) by (simp add: pool_evals unload_def add_task_def)

theorem draining_escapes_limit_witness:
  "loaded_count (run_ops engine_step (engines_new [(''a'', Lazy, False), (''b'', Lazy, False)] 0 None (Some 100) None)
      (loading ''a'' @ [FinishLoading 1 (Inr 80) 0, Unload ''a'' 2] @ loading ''b'' @ [FinishLoading 3 (Inr 90) 0])) = 2"
proof -
  have "(''a'' :: string) \<noteq> ''b''" "(80 :: nat) \<le> 100" "(90 :: nat) \<le> 100" "(100 :: nat) < u64_max" by (simp_all add: u64_max_def)
  from draining_escapes_limit [OF this refl] show ?thesis by blast
qed

end
