(* ===== verification/OutputEvents.thy ===== *)
theory OutputEvents
  imports Prelude
begin

text \<open>
  The protocol-neutral output events of \<open>ironmlx/src/core/generated_output.rs\<close>, shared by the channel
  splitter and the output decoder.

  A Rust string is the list of its UTF-8 bytes (\<open>char\<close> is eight bits wide), so \<open>length\<close> is \<open>len\<close>.
  \<open>json\<close> stands for \<open>serde_json::Value\<close>; only its shape is used.
\<close>

type_synonym str = "char list"

datatype json = JNull | JBool bool | JNumber int | JString str | JArray "json list"
  | JObject "(str \<times> json) list"

record tool_call =
  call_id :: str
  call_name :: str
  call_arguments :: json

record audio_chunk =
  audio_data :: "8 word list"
  audio_mime_type :: str
  sample_rate_hz :: "32 word option"
  channels :: "16 word option"

record image_artifact =
  image_data :: "8 word list"
  image_mime_type :: str
  image_width :: "32 word option"
  image_height :: "32 word option"

datatype generated_finish_reason = Stop | Length | ToolCalls

datatype generated_output_event =
    TextDelta str
  | ReasoningDelta str
  | ReasoningSummaryDelta str
  | RefusalDelta str
  | ToolCall tool_call
  | AudioDelta audio_chunk
  | ImageOutput image_artifact
  | Finished generated_finish_reason

definition from_generation :: "str \<Rightarrow> bool \<Rightarrow> generated_finish_reason option" where
  "from_generation reason saw_tool_call =
     (if saw_tool_call then Some ToolCalls
      else if reason = ''stop'' then Some Stop
      else if reason = ''length'' then Some Length
      else None)"

fun finish_as_str :: "generated_finish_reason \<Rightarrow> str" where
  "finish_as_str Stop = ''stop''"
| "finish_as_str Length = ''length''"
| "finish_as_str ToolCalls = ''tool_calls''"

fun event_kind :: "generated_output_event \<Rightarrow> str" where
  "event_kind (TextDelta _) = ''text''"
| "event_kind (ReasoningDelta _) = ''reasoning''"
| "event_kind (ReasoningSummaryDelta _) = ''reasoning_summary''"
| "event_kind (RefusalDelta _) = ''refusal''"
| "event_kind (ToolCall _) = ''tool_call''"
| "event_kind (AudioDelta _) = ''audio''"
| "event_kind (ImageOutput _) = ''image''"
| "event_kind (Finished _) = ''finished''"

lemma finish_as_str_inj: "finish_as_str a = finish_as_str b \<Longrightarrow> a = b"
  by (cases a; cases b) auto

lemma from_generation_as_str:
  "from_generation reason False = Some r \<Longrightarrow> finish_as_str r = reason"
  by (auto simp: from_generation_def split: if_splits)

end
