(* ===== verification/NativeOutput.thy ===== *)
theory NativeOutput
  imports OutputEvents "HOL-Library.Sublist"
begin

text \<open>
  \<open>ironmlx/src/core/native_output.rs\<close>: the incremental splitter that separates a model's native
  reasoning channel from the visible text.

  Text is a list of UTF-8 bytes, so a position may be inside a character; \<open>is_char_boundary\<close> says
  when it is not.
\<close>

definition THINK_OPEN :: str where "THINK_OPEN = ''<think>''"
definition THINK_CLOSE :: str where "THINK_CLOSE = ''</think>''"
definition GEMMA_THOUGHT_OPEN :: str where "GEMMA_THOUGHT_OPEN = ''<|channel>thought'' @ [CHR 0x0A]"
definition GEMMA_CHANNEL_CLOSE :: str where "GEMMA_CHANNEL_CLOSE = ''<channel|>''"
definition MAX_PENDING_BYTES :: nat where "MAX_PENDING_BYTES = 2 ^ 20"

section \<open>String primitives of the standard library\<close>

definition is_char_boundary :: "str \<Rightarrow> nat \<Rightarrow> bool" where
  "is_char_boundary s i \<longleftrightarrow> i = 0 \<or> i = length s
     \<or> i < length s \<and> (of_char (s ! i) < (128 :: nat) \<or> of_char (s ! i) \<ge> (192 :: nat))"

fun str_find :: "str \<Rightarrow> str \<Rightarrow> nat option" where
  "str_find [] m = (if m = [] then Some 0 else None)"
| "str_find (c # cs) m = (if prefix m (c # cs) then Some 0 else map_option Suc (str_find cs m))"

definition str_contains :: "str \<Rightarrow> str \<Rightarrow> bool" where
  "str_contains s m \<longleftrightarrow> str_find s m \<noteq> None"

fun str_remove :: "nat \<Rightarrow> str \<Rightarrow> str \<Rightarrow> str" where
  "str_remove 0 s m = s"
| "str_remove (Suc fuel) s m =
     (case str_find s m of
        None \<Rightarrow> s
      | Some k \<Rightarrow> take k s @ str_remove fuel (drop (k + length m) s) m)"

text \<open>
  \<open>replace(m, "")\<close> drops the non-overlapping occurrences from left to right; every round removes
  \<open>length m\<close> bytes, so \<open>length s\<close> rounds always reach the end.
\<close>

definition str_replace_empty :: "str \<Rightarrow> str \<Rightarrow> str" where
  "str_replace_empty s m = str_remove (length s) s m"

definition trim_newlines :: "str \<Rightarrow> str" where
  "trim_newlines s = dropWhile (\<lambda>c. c = CHR 0x0D \<or> c = CHR 0x0A) s"

section \<open>Dialects\<close>

datatype native_output_dialect = Qwen35 | Qwen36 | Qwen38 | Glm | MiniCpmV46 | MiniCpm5 | Gemma

definition nl_quote :: "str \<Rightarrow> str" where
  "nl_quote s = [CHR 0x27] @ s @ [CHR 0x5C, CHR ''n'', CHR 0x27]"

definition qwen38_needles :: "str list" where
  "qwen38_needles =
     [''message.reasoning_content is string'',
      ''reasoning_effort|default('' @ [CHR 0x27] @ ''xhigh'' @ [CHR 0x27] @ '')'',
      ''resolved_reasoning_effort not in ('' @ [CHR 0x27] @ ''xhigh'' @ [CHR 0x27] @ '', '' @ [CHR 0x27]
        @ ''medium'' @ [CHR 0x27] @ '', '' @ [CHR 0x27] @ ''low'' @ [CHR 0x27] @ '')'',
      ''preserve_thinking is undefined or preserve_thinking is true'',
      nl_quote ''<think>'',
      nl_quote (''<think>'' @ [CHR 0x5C, CHR ''n'', CHR 0x5C, CHR ''n''] @ ''</think>'' @ [CHR 0x5C, CHR ''n''])]"

definition split_think_needle :: str where
  "split_think_needle = ''content.split('' @ [CHR 0x27] @ ''</think>'' @ [CHR 0x27] @ '')''"

definition qwen_common_needles :: "str list" where
  "qwen_common_needles =
     [''message.reasoning_content is string'', split_think_needle, nl_quote ''<think>'',
      nl_quote (''<think>'' @ [CHR 0x5C, CHR ''n'', CHR 0x5C, CHR ''n''] @ ''</think>'' @ [CHR 0x5C, CHR ''n''])]"

definition glm_needles :: "str list" where
  "glm_needles =
     [''m.reasoning_content is string'', split_think_needle,
      [CHR 0x27] @ ''<think>'' @ [CHR 0x27] @ '' + reasoning_content.strip()'',
      ''enable_thinking is defined and not enable_thinking'']"

definition minicpmv_needles :: "str list" where
  "minicpmv_needles =
     [''set enable_thinking = false'', ''message.reasoning_content is string'', split_think_needle,
      nl_quote ''<think>'']"

definition minicpm5_needles :: "str list" where
  "minicpm5_needles =
     [''message.reasoning_content is string'', split_think_needle, ''if enable_thinking is defined'',
      nl_quote ''<think>'']"

definition gemma_needles :: "str list" where
  "gemma_needles =
     [''message.get('' @ [CHR 0x27] @ ''reasoning'' @ [CHR 0x27] @ '') or message.get('' @ [CHR 0x27]
        @ ''reasoning_content'' @ [CHR 0x27] @ '')'',
      nl_quote ''<|channel>thought'', nl_quote ''<|think|>'',
      ''enable_thinking is defined and enable_thinking'']"

definition detect :: "str \<Rightarrow> str \<Rightarrow> native_output_dialect option" where
  "detect model_type template =
     (if model_type \<in> {''qwen3_5'', ''qwen3_5_moe''} \<and> list_all (str_contains template) qwen38_needles
      then Some Qwen38
      else if model_type \<in> {''qwen3_5'', ''qwen3_5_moe''} \<and> list_all (str_contains template) qwen_common_needles
      then Some (if str_contains template ''preserve_thinking is defined'' then Qwen36 else Qwen35)
      else if model_type = ''glm4_moe_lite'' \<and> list_all (str_contains template) glm_needles then Some Glm
      else if model_type = ''minicpmv4_6'' \<and> list_all (str_contains template) minicpmv_needles
      then Some MiniCpmV46
      else if model_type = ''llama'' \<and> list_all (str_contains template) minicpm5_needles then Some MiniCpm5
      else if model_type \<in> {''gemma4'', ''gemma4_unified'', ''diffusion_gemma''}
          \<and> list_all (str_contains template) gemma_needles then Some Gemma
      else None)"

definition default_reasoning_enabled :: "native_output_dialect \<Rightarrow> bool" where
  "default_reasoning_enabled d \<longleftrightarrow> d \<in> {Qwen36, Qwen38, Glm}"

datatype native_output_error =
    KwargsNotObject | ThinkingNotBoolean | PendingTooLarge | UnterminatedReasoning

definition reasoning_enabled :: "native_output_dialect \<Rightarrow> json option \<Rightarrow> native_output_error + bool" where
  "reasoning_enabled d kwargs =
     (case kwargs of
        None \<Rightarrow> Inr (default_reasoning_enabled d)
      | Some (JObject obj) \<Rightarrow>
          (case map_of obj ''enable_thinking'' of
             None \<Rightarrow> Inr (default_reasoning_enabled d)
           | Some JNull \<Rightarrow> Inr (default_reasoning_enabled d)
           | Some (JBool b) \<Rightarrow> Inr b
           | Some _ \<Rightarrow> Inl ThinkingNotBoolean)
      | Some _ \<Rightarrow> Inl KwargsNotObject)"

definition skip_special_tokens :: "native_output_dialect \<Rightarrow> bool" where
  "skip_special_tokens d \<longleftrightarrow> d \<notin> {Gemma, Glm}"

section \<open>The parser\<close>

datatype channel_state = TextChannel | ReasoningChannel

record native_parser =
  np_dialect :: native_output_dialect
  np_state :: channel_state
  pending :: str
  trim_reasoning_prefix :: bool
  trim_text_prefix :: bool
  saw_reasoning :: bool

definition parser_new :: "native_output_dialect \<Rightarrow> bool \<Rightarrow> native_parser" where
  "parser_new d enabled =
     (let state = (if enabled \<and> d \<noteq> Gemma then ReasoningChannel else TextChannel)
      in \<lparr>np_dialect = d, np_state = state, pending = [], trim_reasoning_prefix = False,
          trim_text_prefix = False, saw_reasoning = (state = ReasoningChannel)\<rparr>)"

definition sanitize_glm_controls :: "str \<Rightarrow> str" where
  "sanitize_glm_controls v = foldl str_replace_empty v
     [''<|endoftext|>'', ''<|system|>'', ''<|user|>'', ''<|assistant|>'', ''<|observation|>'',
      ''<sop>'', ''<eop>'']"

definition sanitize_gemma_controls :: "str \<Rightarrow> str" where
  "sanitize_gemma_controls v = foldl str_replace_empty v
     [''<|turn>model'' @ [CHR 0x0A], ''<|turn>'', ''<turn|>'', ''<|think|>'', ''<eos>'', ''<bos>'']"

definition partial_marker_suffix_len :: "str \<Rightarrow> str \<Rightarrow> nat" where
  "partial_marker_suffix_len v m =
     (let limit = min (length v) (length m - 1) in
      case find (\<lambda>n. is_char_boundary v (length v - n) \<and> prefix (drop (length v - n) v) m)
             (rev [1..<limit + 1]) of
        Some n \<Rightarrow> n
      | None \<Rightarrow> 0)"

definition emit_current ::
  "native_parser \<Rightarrow> str \<Rightarrow> generated_output_event list \<times> native_parser" where
  "emit_current st value =
     (let value = (if np_dialect st = Glm then sanitize_glm_controls value else value) in
      case np_state st of
        TextChannel \<Rightarrow>
          (let value = (if np_dialect st = Gemma then sanitize_gemma_controls value else value);
               value = (if trim_text_prefix st then trim_newlines value else value);
               st = (if trim_text_prefix st \<and> value \<noteq> [] then st\<lparr>trim_text_prefix := False\<rparr> else st)
           in (if value \<noteq> [] then [TextDelta value] else [], st))
      | ReasoningChannel \<Rightarrow>
          (let value = (if trim_reasoning_prefix st then trim_newlines value else value);
               st = (if trim_reasoning_prefix st \<and> value \<noteq> []
                     then st\<lparr>trim_reasoning_prefix := False\<rparr> else st)
           in (if value \<noteq> [] then [ReasoningDelta value] else [], st)))"

text \<open>What happens at a marker: the channel flips. Only the tagged dialects trim reasoning.\<close>

definition flip_channel :: "bool \<Rightarrow> native_parser \<Rightarrow> native_parser" where
  "flip_channel tagged st =
     (case np_state st of
        TextChannel \<Rightarrow>
          (let st = st\<lparr>np_state := ReasoningChannel, saw_reasoning := True\<rparr>
           in if tagged then st\<lparr>trim_reasoning_prefix := True\<rparr> else st)
      | ReasoningChannel \<Rightarrow> st\<lparr>np_state := TextChannel, trim_text_prefix := True\<rparr>)"

definition current_marker :: "str \<Rightarrow> str \<Rightarrow> native_parser \<Rightarrow> str" where
  "current_marker op cl st = (case np_state st of TextChannel \<Rightarrow> op | ReasoningChannel \<Rightarrow> cl)"

lemma emit_pending [simp]: "pending (snd (emit_current st v)) = pending st"
  by (auto simp: emit_current_def Let_def split: channel_state.split)

lemma flip_pending [simp]: "pending (flip_channel tagged st) = pending st"
  by (simp add: flip_channel_def Let_def split: channel_state.split)

lemma str_find_bound: "str_find s m = Some k \<Longrightarrow> k + length m \<le> length s"
  by (induction s arbitrary: k) (auto split: if_splits dest: prefix_length_le)

text \<open>
  The loop \<open>advance_tagged\<close> and \<open>advance_gemma\<close> share, with the two markers as arguments. Every
  round but the last drains a marker, which is not empty.
\<close>

function advance_loop ::
  "str \<Rightarrow> str \<Rightarrow> bool \<Rightarrow> bool \<Rightarrow> native_parser
   \<Rightarrow> generated_output_event list \<times> native_parser" where
  "advance_loop op cl tagged eof st =
     (let marker = current_marker op cl st in
      case str_find (pending st) marker of
        Some k \<Rightarrow>
          (let (evs, st1) = emit_current st (take k (pending st));
               st2 = flip_channel tagged (st1\<lparr>pending := drop (k + length marker) (pending st)\<rparr>)
           in if marker = [] then (evs, st2)
              else let (evs', st3) = advance_loop op cl tagged eof st2 in (evs @ evs', st3))
      | None \<Rightarrow>
          if eof then emit_current (st\<lparr>pending := []\<rparr>) (pending st)
          else
            (let keep = partial_marker_suffix_len (pending st) marker;
                 n = length (pending st) - keep
             in if n > 0
                then emit_current (st\<lparr>pending := drop n (pending st)\<rparr>) (take n (pending st))
                else ([], st)))"
  by pat_completeness auto
termination
  by (relation "measure (\<lambda>(op, cl, tagged, eof, st). length (pending st))")
    (auto dest!: str_find_bound simp flip: length_greater_0_conv)

declare advance_loop.simps [simp del]

definition advance_tagged where
  "advance_tagged eof st = advance_loop THINK_OPEN THINK_CLOSE True eof st"

definition advance_gemma where
  "advance_gemma eof st = advance_loop GEMMA_THOUGHT_OPEN GEMMA_CHANNEL_CLOSE False eof st"

definition advance ::
  "bool \<Rightarrow> native_parser \<Rightarrow> generated_output_event list \<times> native_parser" where
  "advance eof st = (if np_dialect st = Gemma then advance_gemma eof st else advance_tagged eof st)"

definition native_push ::
  "native_parser \<Rightarrow> str
   \<Rightarrow> (native_output_error, native_parser, generated_output_event list) outcome" where
  "native_push st delta =
     (let st = st\<lparr>pending := pending st @ delta\<rparr> in
      if length (pending st) > MAX_PENDING_BYTES then (Inl PendingTooLarge, st)
      else case advance False st of (evs, st') \<Rightarrow> (Inr evs, st'))"

definition native_finish ::
  "native_parser \<Rightarrow> str \<Rightarrow> native_output_error + generated_output_event list" where
  "native_finish st reason =
     (case advance True st of (evs, st') \<Rightarrow>
        if np_state st' = ReasoningChannel \<and> reason \<noteq> ''length'' then Inl UnterminatedReasoning
        else Inr evs)"

section \<open>Searching for a marker\<close>

lemma str_find_Some:
  "str_find s m = Some k \<Longrightarrow> prefix m (drop k s) \<and> (\<forall>i < k. \<not> prefix m (drop i s)) \<and> k \<le> length s"
proof (induction s arbitrary: k)
  case (Cons c cs)
  show ?case
  proof (cases "prefix m (c # cs)")
    case False
    with Cons.prems obtain j where "str_find cs m = Some j" "k = Suc j" by auto
    with Cons.IH [of j] False show ?thesis by (auto simp: less_Suc_eq_0_disj)
  qed (use Cons.prems in auto)
qed (auto split: if_splits)

lemma str_find_None: "str_find s m = None \<Longrightarrow> m \<noteq> [] \<Longrightarrow> \<not> prefix m (drop i s)"
proof (induction s arbitrary: i)
  case (Cons c cs)
  then show ?case by (cases i) (auto split: if_splits)
qed auto

lemma str_find_SomeI:
  assumes "prefix m (drop k s)" and "\<And>i. i < k \<Longrightarrow> \<not> prefix m (drop i s)" and "k \<le> length s"
  shows "str_find s m = Some k"
proof (cases "m = []")
  case True
  then have "k = 0" using assms(2) [of 0] by auto
  with True show ?thesis by (cases s) auto
next
  case False
  show ?thesis
  proof (cases "str_find s m")
    case None
    then show ?thesis using str_find_None [OF None False] assms(1) by blast
  next
    case (Some j)
    then have "prefix m (drop j s)" "\<forall>i < j. \<not> prefix m (drop i s)" using str_find_Some by blast+
    with assms(1,2) have "j = k" by (metis linorder_neqE_nat)
    with Some show ?thesis by simp
  qed
qed

text \<open>An occurrence that is complete stays the first one when more text follows.\<close>

lemma str_find_append:
  assumes "str_find x m = Some k" and "m \<noteq> []"
  shows "str_find (x @ y) m = Some k"
proof (rule str_find_SomeI)
  have p: "prefix m (drop k x)" and first: "\<forall>i < k. \<not> prefix m (drop i x)" and k: "k \<le> length x"
    using str_find_Some [OF assms(1)] by auto
  have b: "k + length m \<le> length x" using str_find_bound [OF assms(1)] .
  show "prefix m (drop k (x @ y))" using p k by (simp add: prefix_prefix)
  show "k \<le> length (x @ y)" using k by simp
  fix i assume i: "i < k"
  show "\<not> prefix m (drop i (x @ y))"
  proof
    assume "prefix m (drop i (x @ y))"
    then have "prefix m (drop i x @ y)" using i k by simp
    moreover have "length m \<le> length (drop i x)" using b i by simp
    ultimately have "prefix m (drop i x)"
      by (metis prefix_def prefix_length_prefix prefix_prefix append_Nil2)
    with first i show False by blast
  qed
qed

text \<open>The markers are ASCII, so a suffix that starts one starts at a character boundary.\<close>

definition ascii_marker :: "str \<Rightarrow> bool" where
  "ascii_marker m \<longleftrightarrow> m \<noteq> [] \<and> of_char (hd m) < (128 :: nat)"

definition partial_at :: "str \<Rightarrow> str \<Rightarrow> nat \<Rightarrow> bool" where
  "partial_at v m n \<longleftrightarrow> 1 \<le> n \<and> n \<le> length v \<and> n \<le> length m - 1 \<and> prefix (drop (length v - n) v) m"

lemma partial_at_boundary:
  assumes "ascii_marker m" and "partial_at v m n"
  shows "is_char_boundary v (length v - n)"
proof -
  have lt: "length v - n < length v" and p: "prefix (drop (length v - n) v) m"
    using assms(2) by (auto simp: partial_at_def)
  then have "v ! (length v - n) = hd m"
    using lt by (auto simp: prefix_def hd_append hd_drop_conv_nth)
  then show ?thesis using lt assms(1) by (simp add: is_char_boundary_def ascii_marker_def)
qed

lemma find_rev_upt:
  "find P (rev [1..<Suc n]) = Some k \<Longrightarrow> P k \<and> 1 \<le> k \<and> k \<le> n \<and> (\<forall>l. P l \<and> l \<le> n \<longrightarrow> l \<le> k)"
  "find P (rev [1..<Suc n]) = None \<Longrightarrow> 1 \<le> l \<Longrightarrow> l \<le> n \<Longrightarrow> \<not> P l"
proof -
  show "find P (rev [1..<Suc n]) = Some k \<Longrightarrow> P k \<and> 1 \<le> k \<and> k \<le> n \<and> (\<forall>l. P l \<and> l \<le> n \<longrightarrow> l \<le> k)"
    by (induction n) (auto split: if_splits simp: le_Suc_eq)
  show "find P (rev [1..<Suc n]) = None \<Longrightarrow> 1 \<le> l \<Longrightarrow> l \<le> n \<Longrightarrow> \<not> P l"
    by (simp add: find_None_iff del: upt_Suc)
qed

lemma partial_suffix_spec:
  fixes v m :: str
  assumes "ascii_marker m"
  defines "n \<equiv> partial_marker_suffix_len v m"
  shows "(n = 0 \<and> (\<forall>l. \<not> partial_at v m l)) \<or> (partial_at v m n \<and> (\<forall>l. partial_at v m l \<longrightarrow> l \<le> n))"
proof -
  let ?lim = "min (length v) (length m - 1)"
  let ?P = "\<lambda>n. is_char_boundary v (length v - n) \<and> prefix (drop (length v - n) v) m"
  have iff: "partial_at v m l \<longleftrightarrow> ?P l \<and> 1 \<le> l \<and> l \<le> ?lim" for l
    using partial_at_boundary [OF assms(1)] by (auto simp: partial_at_def)
  show ?thesis
  proof (cases "find ?P (rev [1..<Suc ?lim])")
    case None
    then have "n = 0" by (simp add: n_def partial_marker_suffix_len_def Let_def)
    moreover have "\<not> partial_at v m l" for l
      using find_rev_upt(2) [OF None, of l] iff by blast
    ultimately show ?thesis by blast
  next
    case (Some k)
    then have "n = k" by (simp add: n_def partial_marker_suffix_len_def Let_def)
    with find_rev_upt(1) [OF Some] iff show ?thesis by blast
  qed
qed

lemma partial_suffix_eqI:
  assumes "ascii_marker m" and "\<And>l. partial_at v m l = partial_at w m l"
  shows "partial_marker_suffix_len v m = partial_marker_suffix_len w m"
  using partial_suffix_spec [OF assms(1), of v] partial_suffix_spec [OF assms(1), of w] assms(2)
  by (metis le_antisym)

lemma partial_suffix_le: "ascii_marker m \<Longrightarrow> partial_marker_suffix_len v m \<le> length v"
  "ascii_marker m \<Longrightarrow> partial_marker_suffix_len v m \<le> length m - 1"
  using partial_suffix_spec [of m v] by (auto simp: partial_at_def)

text \<open>
  When \<open>x\<close> holds no marker, nothing before its longest partial marker can become the start of one,
  whatever follows.
\<close>

lemma no_marker_start:
  assumes "ascii_marker m" and "str_find x m = None"
    and "i < length x - partial_marker_suffix_len x m"
  shows "\<not> prefix m (drop i (x @ y))" and "\<not> prefix (drop i (x @ y)) m"
proof -
  have ne: "m \<noteq> []" using assms(1) by (simp add: ascii_marker_def)
  have none: "\<not> prefix m (drop i x)" by (rule str_find_None [OF assms(2) ne])
  have i: "i < length x" using assms(3) by simp
  have short: "\<not> (prefix (drop i x) m \<and> length (drop i x) < length m)"
  proof
    assume a: "prefix (drop i x) m \<and> length (drop i x) < length m"
    then have "partial_at x m (length x - i)" using i by (auto simp: partial_at_def)
    then have "length x - i \<le> partial_marker_suffix_len x m"
      using partial_suffix_spec [OF assms(1), of x] by blast
    with assms(3) show False by linarith
  qed
  have eq: "\<not> (prefix (drop i x) m \<and> length m \<le> length (drop i x))"
    using none by (metis prefix_length_le prefix_length_prefix prefix_order.refl)
  show "\<not> prefix (drop i (x @ y)) m"
  proof
    assume "prefix (drop i (x @ y)) m"
    then have "prefix (drop i x @ y) m" using i by simp
    then have "prefix (drop i x) m" by (rule append_prefixD)
    with short eq show False by linarith
  qed
  show "\<not> prefix m (drop i (x @ y))"
  proof
    assume "prefix m (drop i (x @ y))"
    then have "prefix m (drop i x @ y)" using i by simp
    moreover have "prefix (drop i x) (drop i x @ y)" by simp
    ultimately have "prefix m (drop i x) \<or> prefix (drop i x) m"
      using prefix_same_cases by blast
    with none short eq show False by (meson not_le)
  qed
qed

lemma find_after_kept:
  assumes "ascii_marker m" and "str_find x m = None"
  defines "n \<equiv> length x - partial_marker_suffix_len x m"
  shows "str_find (x @ y) m = map_option (\<lambda>k. n + k) (str_find (drop n x @ y) m)"
    and "partial_marker_suffix_len (x @ y) m = partial_marker_suffix_len (drop n x @ y) m"
proof -
  have ne: "m \<noteq> []" using assms(1) by (simp add: ascii_marker_def)
  have n: "n \<le> length x" by (simp add: n_def)
  have shift: "drop (n + i) (x @ y) = drop i (drop n x @ y)" for i using n by (simp add: add.commute)
  note none = no_marker_start [OF assms(1,2), folded n_def]
  show "str_find (x @ y) m = map_option (\<lambda>k. n + k) (str_find (drop n x @ y) m)"
  proof (cases "str_find (drop n x @ y) m")
    case (Some k)
    from str_find_Some [OF this] have k: "prefix m (drop k (drop n x @ y))"
      "\<forall>i < k. \<not> prefix m (drop i (drop n x @ y))" "k \<le> length (drop n x @ y)" by auto
    have "str_find (x @ y) m = Some (n + k)"
    proof (rule str_find_SomeI)
      show "prefix m (drop (n + k) (x @ y))" using k(1) unfolding shift .
      show "n + k \<le> length (x @ y)" using k(3) n by simp
      fix i assume i: "i < n + k"
      show "\<not> prefix m (drop i (x @ y))"
      proof (cases "i < n")
        case False
        then obtain j where "i = n + j" using le_Suc_ex [of n i] by auto
        with k(2) i show ?thesis unfolding \<open>i = n + j\<close> shift by simp
      qed (rule none(1))
    qed
    with Some show ?thesis by simp
  next
    case None
    have "str_find (x @ y) m \<noteq> Some j" for j
    proof
      assume "str_find (x @ y) m = Some j"
      then have j: "prefix m (drop j (x @ y))" using str_find_Some by blast
      have "\<not> j < n" using none(1) j by blast
      then obtain i where "j = n + i" using le_Suc_ex [of n j] by auto
      then show False using j str_find_None [OF None ne] shift by metis
    qed
    then have "str_find (x @ y) m = None" by (cases "str_find (x @ y) m") blast+
    with None show ?thesis by simp
  qed
  show "partial_marker_suffix_len (x @ y) m = partial_marker_suffix_len (drop n x @ y) m"
  proof (rule partial_suffix_eqI [OF assms(1)])
    fix l
    have len: "length (x @ y) = n + length (drop n x @ y)" using n by simp
    have "l \<le> length (drop n x @ y)" if "partial_at (x @ y) m l"
    proof (rule ccontr)
      assume "\<not> l \<le> length (drop n x @ y)"
      moreover have "l \<le> length (x @ y)" using that by (simp add: partial_at_def)
      ultimately have "length (x @ y) - l < n" using len by arith
      then have "\<not> prefix (drop (length (x @ y) - l) (x @ y)) m" by (rule none(2))
      then show False using that unfolding partial_at_def by blast
    qed
    moreover have "drop (length (x @ y) - l) (x @ y) = drop (length (drop n x @ y) - l) (drop n x @ y)"
      if "l \<le> length (drop n x @ y)"
    proof -
      have "length (x @ y) - l = n + (length (drop n x @ y) - l)" using len that by simp
      then show ?thesis by (simp only: shift)
    qed
    ultimately show "partial_at (x @ y) m l = partial_at (drop n x @ y) m l"
      using len unfolding partial_at_def by (metis trans_le_add2)
  qed
qed

section \<open>The stream an event list carries\<close>

fun event_stream :: "generated_output_event \<Rightarrow> (channel_state \<times> char) list" where
  "event_stream (TextDelta s) = List.map (Pair TextChannel) s"
| "event_stream (ReasoningDelta s) = List.map (Pair ReasoningChannel) s"
| "event_stream _ = []"

definition stream :: "generated_output_event list \<Rightarrow> (channel_state \<times> char) list" where
  "stream evs = concat (List.map event_stream evs)"

lemma stream_simps [simp]:
  "stream [] = []" "stream (e # es) = event_stream e @ stream es" "stream (xs @ ys) = stream xs @ stream ys"
  by (simp_all add: stream_def)

definition carried :: "generated_output_event list \<times> 's \<Rightarrow> (channel_state \<times> char) list \<times> 's" where
  "carried r = (stream (fst r), snd r)"

definition thread :: "'o list \<times> 's \<Rightarrow> ('s \<Rightarrow> 'o list \<times> 's) \<Rightarrow> 'o list \<times> 's" where
  "thread r f = (fst r @ fst (f (snd r)), snd (f (snd r)))"

lemma thread_simps [simp]:
  "thread (a, s) f = (a @ fst (f s), snd (f s))"
  "thread (thread r f) g = thread r (\<lambda>s. thread (f s) g)"
  "thread r (\<lambda>s. ([], s)) = r"
  by (simp_all add: thread_def)

text \<open>The dialects whose deltas are passed on as they are, without removing control tokens.\<close>

definition verbatim :: "native_parser \<Rightarrow> bool" where
  "verbatim st \<longleftrightarrow> np_dialect st \<notin> {Glm, Gemma}"

lemma trim_append:
  "trim_newlines (u @ v) = (if trim_newlines u = [] then trim_newlines v else trim_newlines u @ v)"
  by (auto simp: trim_newlines_def dropWhile_append)

lemma emit_append:
  assumes "verbatim st"
  shows "carried (emit_current st (u @ v)) =
    thread (carried (emit_current st u)) (\<lambda>s. carried (emit_current s v))"
  using assms
  by (cases "np_state st")
    (auto simp: emit_current_def carried_def verbatim_def trim_append Let_def)

lemma emit_nil [simp]: "emit_current st [] = ([], st)" if "verbatim st"
  using that by (auto simp: emit_current_def verbatim_def trim_newlines_def Let_def split: channel_state.split)

lemma emit_keeps [simp]:
  "np_dialect (snd (emit_current st v)) = np_dialect st"
  "np_state (snd (emit_current st v)) = np_state st"
  "verbatim (snd (emit_current st v)) = verbatim st"
  by (auto simp: emit_current_def verbatim_def Let_def split: channel_state.split)

lemma emit_with_pending:
  "carried (emit_current (st\<lparr>pending := p\<rparr>) v) =
     thread (carried (emit_current st v)) (\<lambda>s. ([], s\<lparr>pending := p\<rparr>))"
  by (auto simp: emit_current_def carried_def Let_def split: channel_state.split)

lemma flip_keeps [simp]:
  "np_dialect (flip_channel tagged st) = np_dialect st"
  "verbatim (flip_channel tagged st) = verbatim st"
  "flip_channel tagged (st\<lparr>pending := p\<rparr>) = (flip_channel tagged st)\<lparr>pending := p\<rparr>"
  by (simp_all add: flip_channel_def verbatim_def Let_def split: channel_state.split)

section \<open>Feeding text in pieces\<close>

lemma carried_thread [simp]: "carried (thread r f) = thread (carried r) (\<lambda>s. carried (f s))"
  by (simp add: carried_def thread_def)

lemma snd_carried: "snd (carried r) = snd r"
  by (simp add: carried_def)

lemma verbatim_pending [simp]: "verbatim (st\<lparr>pending := p\<rparr>) = verbatim st"
  by (simp add: verbatim_def)

lemma current_marker_cong [simp]:
  "current_marker op cl (st\<lparr>pending := p\<rparr>) = current_marker op cl st"
  "current_marker op cl (snd (emit_current st v)) = current_marker op cl st"
  by (simp_all add: current_marker_def)

lemma take_drop_past:
  assumes "n \<le> length x"
  shows "take (n + k) (x @ y) = take n x @ take k (drop n x @ y)"
    and "drop (n + k) (x @ y) = drop k (drop n x @ y)"
proof -
  have xy: "x @ y = take n x @ (drop n x @ y)" by simp
  show "take (n + k) (x @ y) = take n x @ take k (drop n x @ y)"
    unfolding xy using assms by (simp del: append_take_drop_id)
  show "drop (n + k) (x @ y) = drop k (drop n x @ y)"
    using assms by (simp add: add.commute)
qed

lemma thread_cong: "r = r' \<Longrightarrow> f (snd r') = g (snd r') \<Longrightarrow> thread r f = thread r' g"
  by (simp add: thread_def)

text \<open>One round of the loop on the buffer \<open>p\<close>, for its three outcomes.\<close>

lemma round_marker:
  assumes "str_find p (current_marker op cl st) = Some k" and "current_marker op cl st \<noteq> []"
  shows "carried (advance_loop op cl tg eof (st\<lparr>pending := p\<rparr>)) =
    thread (carried (emit_current st (take k p)))
      (\<lambda>s. carried (advance_loop op cl tg eof (flip_channel tg
             (s\<lparr>pending := drop (k + length (current_marker op cl st)) p\<rparr>))))"
proof -
  have "advance_loop op cl tg eof (st\<lparr>pending := p\<rparr>) =
    thread (emit_current (st\<lparr>pending := p\<rparr>) (take k p))
      (\<lambda>s. advance_loop op cl tg eof (flip_channel tg
             (s\<lparr>pending := drop (k + length (current_marker op cl st)) p\<rparr>)))"
    using assms
    by (simp add: advance_loop.simps [of op cl tg eof "st\<lparr>pending := p\<rparr>"] thread_def Let_def
        split: prod.split)
  then show ?thesis by (simp add: emit_with_pending)
qed

lemma round_eof:
  assumes "str_find p (current_marker op cl st) = None"
  shows "carried (advance_loop op cl tg True (st\<lparr>pending := p\<rparr>)) =
    thread (carried (emit_current st p)) (\<lambda>s. ([], s\<lparr>pending := []\<rparr>))"
  using assms
  by (simp add: advance_loop.simps [of op cl tg True "st\<lparr>pending := p\<rparr>"] Let_def emit_with_pending)

lemma round_wait:
  assumes "str_find p (current_marker op cl st) = None" and "verbatim st"
  defines "n \<equiv> length p - partial_marker_suffix_len p (current_marker op cl st)"
  shows "carried (advance_loop op cl tg False (st\<lparr>pending := p\<rparr>)) =
    thread (carried (emit_current st (take n p))) (\<lambda>s. ([], s\<lparr>pending := drop n p\<rparr>))"
proof (cases "n > 0")
  case True
  with assms(1) show ?thesis
    by (simp add: advance_loop.simps [of op cl tg False "st\<lparr>pending := p\<rparr>"] Let_def n_def emit_with_pending)
next
  case False
  with assms(1,2) show ?thesis
    by (simp add: advance_loop.simps [of op cl tg False "st\<lparr>pending := p\<rparr>"] Let_def n_def carried_def)
qed

text \<open>
  The heart of the component: stopping after \<open>x\<close> and going on with \<open>y\<close> carries the same stream and
  ends in the same state as seeing \<open>x @ y\<close> at once.
\<close>

lemma advance_loop_append:
  assumes "ascii_marker op" and "ascii_marker cl" and "verbatim st"
  shows "carried (advance_loop op cl tg eof (st\<lparr>pending := x @ y\<rparr>))
    = thread (carried (advance_loop op cl tg False (st\<lparr>pending := x\<rparr>)))
        (\<lambda>s. carried (advance_loop op cl tg eof (s\<lparr>pending := pending s @ y\<rparr>)))"
  using assms(3)
proof (induction "length x" arbitrary: st x rule: less_induct)
  case less
  let ?m = "current_marker op cl st"
  let ?adv = "\<lambda>eof s. carried (advance_loop op cl tg eof s)"
  have m: "ascii_marker ?m" using assms(1,2) by (simp add: current_marker_def split: channel_state.split)
  then have ne: "?m \<noteq> []" by (simp add: ascii_marker_def)
  show ?case
  proof (cases "str_find x ?m")
    case (Some k)
    have b: "k + length ?m \<le> length x" using str_find_bound [OF Some] .
    then have shorter: "length (drop (k + length ?m) x) < length x" using ne by (cases ?m) auto
    let ?s = "snd (emit_current st (take k x))"
    have IH: "?adv eof ((flip_channel tg ?s)\<lparr>pending := drop (k + length ?m) x @ y\<rparr>)
        = thread (?adv False ((flip_channel tg ?s)\<lparr>pending := drop (k + length ?m) x\<rparr>))
            (\<lambda>s. ?adv eof (s\<lparr>pending := pending s @ y\<rparr>))"
      using less.prems by (intro less.hyps shorter) simp
    have "?adv eof (st\<lparr>pending := x @ y\<rparr>) = thread (carried (emit_current st (take k x)))
        (\<lambda>s. ?adv eof ((flip_channel tg s)\<lparr>pending := drop (k + length ?m) x @ y\<rparr>))"
      using round_marker [OF str_find_append [OF Some ne] ne] b by simp
    also have "\<dots> = thread (carried (emit_current st (take k x)))
        (\<lambda>s. thread (?adv False ((flip_channel tg s)\<lparr>pending := drop (k + length ?m) x\<rparr>))
            (\<lambda>s. ?adv eof (s\<lparr>pending := pending s @ y\<rparr>)))"
      by (rule thread_cong) (simp_all add: IH snd_carried)
    finally show ?thesis using round_marker [OF Some ne] by simp
  next
    case None
    let ?n = "length x - partial_marker_suffix_len x ?m"
    let ?rest = "drop ?n x @ y"
    have n: "?n \<le> length x" by simp
    have split: "carried (emit_current st (take ?n x @ v)) =
        thread (carried (emit_current st (take ?n x))) (\<lambda>s. carried (emit_current s v))" for v
      by (rule emit_append [OF less.prems])
    have "?adv eof (st\<lparr>pending := x @ y\<rparr>) = thread (carried (emit_current st (take ?n x)))
        (\<lambda>s. ?adv eof (s\<lparr>pending := ?rest\<rparr>))"
    proof (cases "str_find ?rest ?m")
      case (Some k)
      have t: "take (?n + k) (x @ y) = take ?n x @ take k ?rest"
        and d: "drop (?n + k + length ?m) (x @ y) = drop (k + length ?m) ?rest"
        using take_drop_past [OF n] by (simp_all only: add.assoc)
      have "str_find (x @ y) ?m = Some (?n + k)" using find_after_kept(1) [OF m None] Some by simp
      from round_marker [OF this ne] round_marker [of ?rest op cl "snd (emit_current st (take ?n x))" k]
      show ?thesis using Some ne unfolding t d split by (simp add: thread_def snd_carried)
    next
      case none: None
      then have l: "str_find (x @ y) ?m = None" using find_after_kept(1) [OF m None] by simp
      show ?thesis
      proof (cases eof)
        case True
        have t: "x @ y = take ?n x @ ?rest" by simp
        have e: "carried (emit_current st (x @ y)) =
            thread (carried (emit_current st (take ?n x))) (\<lambda>s. carried (emit_current s ?rest))"
          using split [of ?rest] unfolding t [symmetric] .
        show ?thesis
          using round_eof [OF l, of tg] round_eof [of ?rest op cl "snd (emit_current st (take ?n x))" tg] none
            True by (simp add: thread_def e snd_carried)
      next
        case False
        let ?k = "partial_marker_suffix_len ?rest ?m"
        have p: "partial_marker_suffix_len (x @ y) ?m = ?k"
          by (rule find_after_kept(2) [OF m None])
        have k: "?k \<le> length ?rest" by (rule partial_suffix_le(1) [OF m])
        have len: "length (x @ y) - ?k = ?n + (length ?rest - ?k)" using n k by simp
        have t: "take (length (x @ y) - ?k) (x @ y) = take ?n x @ take (length ?rest - ?k) ?rest"
          and d: "drop (length (x @ y) - ?k) (x @ y) = drop (length ?rest - ?k) ?rest"
          unfolding len by (rule take_drop_past [OF n])+
        show ?thesis
          using round_wait [OF l less.prems, of tg, unfolded p t d split] False
            round_wait [of ?rest op cl "snd (emit_current st (take ?n x))" tg] none less.prems
          by (simp add: thread_def snd_carried)
      qed
    qed
    then show ?thesis using round_wait [OF None less.prems, of tg] by (simp add: thread_def snd_carried)
  qed
qed

lemma think_markers [simp]: "ascii_marker THINK_OPEN" "ascii_marker THINK_CLOSE"
  by (simp_all add: ascii_marker_def THINK_OPEN_def THINK_CLOSE_def)

lemma advance_verbatim:
  "verbatim st \<Longrightarrow> advance eof st = advance_loop THINK_OPEN THINK_CLOSE True eof st"
  by (simp add: advance_def advance_tagged_def verbatim_def)

lemma advance_keeps_verbatim:
  "verbatim st \<Longrightarrow> verbatim (snd (advance_loop op cl tg eof st))"
proof (induction op cl tg eof st rule: advance_loop.induct)
  case (1 op cl tg eof st)
  then show ?case
    by (auto simp: advance_loop.simps [of op cl tg eof st] Let_def split: option.split prod.splits)
      (metis emit_keeps(3) flip_keeps(2) snd_conv verbatim_pending)+
qed

lemma advance_append:
  assumes "verbatim st"
  shows "carried (advance eof (st\<lparr>pending := x @ y\<rparr>))
    = thread (carried (advance False (st\<lparr>pending := x\<rparr>)))
        (\<lambda>s. carried (advance eof (s\<lparr>pending := pending s @ y\<rparr>)))"
proof -
  have "verbatim (snd (advance_loop THINK_OPEN THINK_CLOSE True False (st\<lparr>pending := x\<rparr>)))"
    using assms by (simp add: advance_keeps_verbatim)
  then show ?thesis
    using assms advance_loop_append [OF think_markers, of st True eof x y]
    by (simp add: advance_verbatim thread_def snd_carried)
qed

lemma loop_marker_state:
  assumes "str_find (pending st) (current_marker op cl st) = Some k" and "current_marker op cl st \<noteq> []"
  shows "snd (advance_loop op cl tg eof st) =
    snd (advance_loop op cl tg eof (flip_channel tg ((snd (emit_current st (take k (pending st))))
      \<lparr>pending := drop (k + length (current_marker op cl st)) (pending st)\<rparr>)))"
  using assms
  by (simp add: advance_loop.simps [of op cl tg eof st] Let_def split: prod.split)

text \<open>What waits in the buffer is never more than a marker without its last byte.\<close>

lemma advance_pending_short:
  assumes "ascii_marker op" and "ascii_marker cl"
  shows "length (pending (snd (advance_loop op cl tg False st))) < max (length op) (length cl)"
proof (induction "length (pending st)" arbitrary: st rule: less_induct)
  case less
  let ?m = "current_marker op cl st"
  have m: "ascii_marker ?m" using assms by (simp add: current_marker_def split: channel_state.split)
  then have ne: "?m \<noteq> []" by (simp add: ascii_marker_def)
  have l: "length ?m \<le> max (length op) (length cl)"
    by (simp add: current_marker_def split: channel_state.split)
  have keep: "partial_marker_suffix_len (pending st) ?m < max (length op) (length cl)"
    using partial_suffix_le(2) [OF m, of "pending st"] l ne by (cases ?m) auto
  have kl: "partial_marker_suffix_len (pending st) ?m \<le> length (pending st)"
    by (rule partial_suffix_le(1) [OF m])
  show ?case
  proof (cases "str_find (pending st) ?m")
    case None
    then show ?thesis
      using keep kl by (auto simp: advance_loop.simps [of op cl tg False st] Let_def)
  next
    case (Some k)
    have "length (drop (k + length ?m) (pending st)) < length (pending st)"
      using str_find_bound [OF Some] ne by (cases ?m) auto
    then show ?thesis unfolding loop_marker_state [OF Some ne] by (intro less) simp
  qed
qed

definition native_feed ::
  "native_parser \<times> (channel_state \<times> char) list \<Rightarrow> str \<Rightarrow> native_parser \<times> (channel_state \<times> char) list" where
  "native_feed s x =
     (let r = carried (advance False ((fst s)\<lparr>pending := pending (fst s) @ x\<rparr>))
      in (snd r, snd s @ fst r))"

interpretation splitter: chunked_feed native_feed "\<lambda>s. verbatim (fst s)"
proof
  fix s :: "native_parser \<times> (channel_state \<times> char) list" and x y :: str
  assume v: "verbatim (fst s)"
  let ?r = "advance False ((fst s)\<lparr>pending := pending (fst s) @ x\<rparr>)"
  have v': "verbatim (snd ?r)" using v by (simp add: advance_verbatim advance_keeps_verbatim)
  then show "verbatim (fst (native_feed s x))" by (simp add: native_feed_def Let_def snd_carried)
  show "native_feed s (x @ y) = native_feed (native_feed s x) y"
    using advance_append [OF v, of False "pending (fst s) @ x" y]
    by (simp add: native_feed_def Let_def thread_def snd_carried)
qed

section \<open>Decoding a whole answer\<close>

fun push_all ::
  "native_parser \<Rightarrow> str list
   \<Rightarrow> (native_output_error, native_parser, generated_output_event list) outcome" where
  "push_all st [] = (Inr [], st)"
| "push_all st (d # ds) =
     (case native_push st d of
        (Inl e, st1) \<Rightarrow> (Inl e, st1)
      | (Inr evs, st1) \<Rightarrow>
          (case push_all st1 ds of
             (Inl e, st2) \<Rightarrow> (Inl e, st2)
           | (Inr evs', st2) \<Rightarrow> (Inr (evs @ evs'), st2)))"

definition decode_chunks ::
  "native_output_dialect \<Rightarrow> bool \<Rightarrow> str list \<Rightarrow> str
   \<Rightarrow> native_output_error + generated_output_event list" where
  "decode_chunks d enabled chunks reason =
     (case push_all (parser_new d enabled) chunks of
        (Inl e, _) \<Rightarrow> Inl e
      | (Inr evs, st) \<Rightarrow>
          (case native_finish st reason of Inl e \<Rightarrow> Inl e | Inr evs' \<Rightarrow> Inr (evs @ evs')))"

lemma push_ok:
  assumes "length (pending st @ d) \<le> MAX_PENDING_BYTES"
  shows "\<exists>evs st'. native_push st d = (Inr evs, st')
    \<and> carried (advance False (st\<lparr>pending := pending st @ d\<rparr>)) = (stream evs, st')"
  using assms by (auto simp: native_push_def Let_def carried_def split: prod.split)

lemma push_all_ok:
  assumes "verbatim st" and "length (pending st) \<le> 7"
    and "\<forall>d \<in> set ds. length d + 7 \<le> MAX_PENDING_BYTES"
  shows "\<exists>evs st'. push_all st ds = (Inr evs, st') \<and> verbatim st' \<and> length (pending st') \<le> 7
    \<and> (\<forall>out. foldl native_feed (st, out) ds = (st', out @ stream evs))"
  using assms
proof (induction ds arbitrary: st)
  case (Cons d ds)
  have "length (pending st @ d) \<le> MAX_PENDING_BYTES" using Cons.prems by simp
  then obtain evs st1 where p: "native_push st d = (Inr evs, st1)"
    and c: "carried (advance False (st\<lparr>pending := pending st @ d\<rparr>)) = (stream evs, st1)"
    using push_ok by blast
  have st1: "st1 = snd (advance_loop THINK_OPEN THINK_CLOSE True False (st\<lparr>pending := pending st @ d\<rparr>))"
    using c Cons.prems(1) by (metis advance_verbatim snd_carried snd_conv verbatim_pending)
  have v1: "verbatim st1" unfolding st1 using Cons.prems(1) by (simp add: advance_keeps_verbatim)
  have "length (pending st1) < max (length THINK_OPEN) (length THINK_CLOSE)"
    unfolding st1 by (rule advance_pending_short) simp_all
  then have l1: "length (pending st1) \<le> 7" by (simp add: THINK_OPEN_def THINK_CLOSE_def)
  from Cons.IH [OF v1 l1] Cons.prems(3) obtain evs' st2 where r: "push_all st1 ds = (Inr evs', st2)"
    "verbatim st2" "length (pending st2) \<le> 7"
    "\<forall>out. foldl native_feed (st1, out) ds = (st2, out @ stream evs')" by auto
  have "native_feed (st, out) d = (st1, out @ stream evs)" for out
    by (simp add: native_feed_def c)
  with p r show ?case by auto
qed auto

lemma parser_new_simps [simp]:
  "verbatim (parser_new d en) = (d \<notin> {Glm, Gemma})"
  "pending (parser_new d en) = []"
  "(parser_new d en)\<lparr>pending := []\<rparr> = parser_new d en"
  by (simp_all add: parser_new_def verbatim_def Let_def)

lemma chunks_irrelevant:
  assumes "d \<notin> {Glm, Gemma}" and "\<forall>c \<in> set chunks. length c + 7 \<le> MAX_PENDING_BYTES"
  shows "map_sum id stream (decode_chunks d enabled chunks reason)
    = map_sum id stream (native_finish ((parser_new d enabled)\<lparr>pending := concat chunks\<rparr>) reason)"
proof -
  let ?st = "parser_new d enabled"
  have v: "verbatim ?st" using assms(1) by simp
  obtain evs st where p: "push_all ?st chunks = (Inr evs, st)" and vs: "verbatim st"
    and f: "\<forall>out. foldl native_feed (?st, out) chunks = (st, out @ stream evs)"
    using push_all_ok [OF v _ assms(2)] by auto
  have "carried (advance True (?st\<lparr>pending := concat chunks\<rparr>))
      = thread (stream evs, st) (\<lambda>s. carried (advance True s))"
  proof (cases chunks)
    case Nil
    with p show ?thesis by (auto simp: thread_def carried_def)
  next
    case (Cons c cs)
    have "native_feed (?st, []) (concat chunks) = (st, stream evs)"
      using f splitter.feed_chunks [of "(?st, [])" c cs] v by (simp add: Cons)
    then have c: "carried (advance False (?st\<lparr>pending := concat chunks\<rparr>)) = (stream evs, st)"
      by (simp add: native_feed_def Let_def prod_eq_iff)
    show ?thesis
      using advance_append [OF v, of True "concat chunks" "[]"] c vs
      by (simp add: thread_def advance_verbatim)
  qed
  then show ?thesis
    by (auto simp: decode_chunks_def native_finish_def p carried_def thread_def split: prod.splits)
qed

text \<open>
  C28: how the decoder's deltas cut the answer does not matter. For every dialect that passes text on
  verbatim (all but \<open>Glm\<close> and \<open>Gemma\<close>), as long as no delta comes near the one-megabyte buffer limit, pushing the deltas one by
  one and finishing gives the same channel-tagged stream of characters, or the same error, as one
  pass over the whole answer: no partial marker is ever shown, lost or attributed to the wrong
  channel.
\<close>

theorem native_chunks_irrelevant:
  assumes "d \<notin> {Glm, Gemma}" and "\<forall>c \<in> set chunks. length c + 7 \<le> MAX_PENDING_BYTES"
  shows "map_sum id stream (decode_chunks d enabled chunks reason)
    = map_sum id stream (native_finish ((parser_new d enabled)\<lparr>pending := concat chunks\<rparr>) reason)"
  using assms by (rule chunks_irrelevant)

definition demo_chunks :: "str list" where
  "demo_chunks = [''<thi'', ''nk>a<b</'', ''think>'', ''cd'']"

theorem native_chunks_irrelevant_witness:
  "map_sum id stream (decode_chunks Qwen35 False demo_chunks ''stop'')
     = Inr (List.map (Pair ReasoningChannel) ''a<b'' @ List.map (Pair TextChannel) ''cd'')"
proof -
  have "map_sum id stream (decode_chunks Qwen35 False demo_chunks ''stop'')
    = map_sum id stream (native_finish ((parser_new Qwen35 False)\<lparr>pending := concat demo_chunks\<rparr>) ''stop'')"
    by (rule native_chunks_irrelevant) (simp_all add: demo_chunks_def MAX_PENDING_BYTES_def)
  also have "\<dots> = Inr (List.map (Pair ReasoningChannel) ''a<b'' @ List.map (Pair TextChannel) ''cd'')"
    by (simp add: demo_chunks_def native_finish_def advance_def advance_tagged_def advance_loop.simps
        parser_new_def current_marker_def THINK_OPEN_def THINK_CLOSE_def emit_current_def flip_channel_def
        trim_newlines_def Let_def)
  finally show ?thesis .
qed

section \<open>What the channels hold\<close>

text \<open>No proper suffix of a marker is the start of one.\<close>

definition unbordered :: "str \<Rightarrow> bool" where
  "unbordered m \<longleftrightarrow> (\<forall>i. 0 < i \<longrightarrow> i < length m \<longrightarrow> m ! i \<noteq> hd m)"

lemma think_unbordered [simp]: "unbordered THINK_OPEN" "unbordered THINK_CLOSE"
  by (auto simp: unbordered_def THINK_OPEN_def THINK_CLOSE_def nth_Cons' split: if_splits)

lemma str_find_between:
  assumes "unbordered m" and "m \<noteq> []" and "str_find u m = None"
  shows "str_find (u @ m @ v) m = Some (length u)"
proof (rule str_find_SomeI)
  fix i assume i: "i < length u"
  show "\<not> prefix m (drop i (u @ m @ v))"
  proof
    assume p: "prefix m (drop i (u @ m @ v))"
    then have p: "prefix m (drop i u @ m @ v)" using i by simp
    show False
    proof (cases "length m \<le> length (drop i u)")
      case True
      have "prefix m (drop i u)" using prefix_length_prefix [OF p _ True] by simp
      then show False using str_find_None [OF assms(3,2)] by blast
    next
      case False
      let ?j = "length (drop i u)"
      have j: "0 < ?j" "?j < length m" using i False by auto
      from p obtain zs where "drop i u @ m @ v = m @ zs" by (auto simp: prefix_def)
      then have "(drop i u @ m @ v) ! ?j = (m @ zs) ! ?j" by simp
      then have "hd m = m ! ?j"
        using j assms(2) by (simp only: nth_append) (simp add: hd_conv_nth nth_append)
      with j assms(1) show False unfolding unbordered_def by metis
    qed
  qed
qed auto

text \<open>Each piece of an answer goes to the channel it was written in, without its leading newlines.\<close>

fun rendered :: "(str \<times> str) list \<Rightarrow> str" where
  "rendered [] = []"
| "rendered ((r, t) # segs) = THINK_OPEN @ r @ THINK_CLOSE @ t @ rendered segs"

fun split_stream :: "(str \<times> str) list \<Rightarrow> (channel_state \<times> char) list" where
  "split_stream [] = []"
| "split_stream ((r, t) # segs) =
     List.map (Pair ReasoningChannel) (trim_newlines r) @ List.map (Pair TextChannel) (trim_newlines t)
     @ split_stream segs"

definition marker_free :: "(str \<times> str) list \<Rightarrow> bool" where
  "marker_free segs \<longleftrightarrow>
     list_all (\<lambda>(r, t). \<not> str_contains r THINK_CLOSE \<and> \<not> str_contains t THINK_OPEN) segs"

lemma emit_channel:
  "verbatim st \<Longrightarrow> stream (fst (emit_current st v)) =
    List.map (Pair (np_state st))
      (if (case np_state st of TextChannel \<Rightarrow> trim_text_prefix st | ReasoningChannel \<Rightarrow> trim_reasoning_prefix st)
       then trim_newlines v else v)"
  by (cases "np_state st") (auto simp: emit_current_def verbatim_def Let_def)

lemma flip_fields:
  "np_state st = TextChannel \<Longrightarrow> np_state (flip_channel True st) = ReasoningChannel
     \<and> trim_reasoning_prefix (flip_channel True st)"
  "np_state st = ReasoningChannel \<Longrightarrow> np_state (flip_channel True st) = TextChannel
     \<and> trim_text_prefix (flip_channel True st)"
  by (simp_all add: flip_channel_def Let_def)

abbreviation (input) think_loop where
  "think_loop st \<equiv> advance_loop THINK_OPEN THINK_CLOSE True True st"

lemma think_round:
  assumes "\<not> str_contains u (current_marker THINK_OPEN THINK_CLOSE st)" and "verbatim st"
    and p: "p = u @ current_marker THINK_OPEN THINK_CLOSE st @ v"
  shows "carried (think_loop (st\<lparr>pending := p\<rparr>)) =
    thread (carried (emit_current st u))
      (\<lambda>s. carried (think_loop ((flip_channel True s)\<lparr>pending := v\<rparr>)))"
proof -
  let ?m = "current_marker THINK_OPEN THINK_CLOSE st"
  have m: "unbordered ?m" "?m \<noteq> []"
    by (simp_all add: current_marker_def THINK_OPEN_def THINK_CLOSE_def
        think_unbordered [unfolded THINK_OPEN_def THINK_CLOSE_def] split: channel_state.split)
  have "str_find p ?m = Some (length u)"
    unfolding p using assms(1) by (intro str_find_between m) (simp add: str_contains_def)
  from round_marker [OF this m(2)] show ?thesis by (simp add: p)
qed

lemma think_loop_renders:
  assumes "verbatim st" and "np_state st = TextChannel" and "\<not> str_contains t THINK_OPEN"
    and "marker_free segs"
  shows "fst (carried (think_loop (st\<lparr>pending := t @ rendered segs\<rparr>)))
      = List.map (Pair TextChannel) (if trim_text_prefix st then trim_newlines t else t) @ split_stream segs
    \<and> np_state (snd (think_loop (st\<lparr>pending := t @ rendered segs\<rparr>))) = TextChannel"
  using assms
proof (induction segs arbitrary: st t)
  case Nil
  have "str_find t (current_marker THINK_OPEN THINK_CLOSE st) = None"
    using Nil.prems by (simp add: current_marker_def str_contains_def)
  from round_eof [OF this, of True] have e:
    "carried (think_loop (st\<lparr>pending := t\<rparr>)) = thread (carried (emit_current st t)) (\<lambda>s. ([], s\<lparr>pending := []\<rparr>))" .
  then have "snd (think_loop (st\<lparr>pending := t\<rparr>)) = (snd (emit_current st t))\<lparr>pending := []\<rparr>"
    by (metis snd_carried snd_conv thread_def)
  with e Nil.prems show ?case
    by (simp add: thread_def emit_channel carried_def)
next
  case (Cons seg segs)
  obtain r t2 where seg: "seg = (r, t2)" by (cases seg)
  have free: "\<not> str_contains r THINK_CLOSE" "\<not> str_contains t2 THINK_OPEN" "marker_free segs"
    using Cons.prems(4) by (simp_all add: marker_free_def seg)
  let ?s1 = "flip_channel True (snd (emit_current st t))"
  let ?s2 = "flip_channel True (snd (emit_current ?s1 r))"
  have v: "verbatim ?s1" "verbatim ?s2" using Cons.prems(1) by simp_all
  have f1: "np_state ?s1 = ReasoningChannel" "trim_reasoning_prefix ?s1"
    using flip_fields(1) [of "snd (emit_current st t)"] Cons.prems(2) by simp_all
  have f2: "np_state ?s2 = TextChannel" "trim_text_prefix ?s2"
    using flip_fields(2) [of "snd (emit_current ?s1 r)"] f1 by simp_all
  have m: "current_marker THINK_OPEN THINK_CLOSE st = THINK_OPEN"
    "current_marker THINK_OPEN THINK_CLOSE ?s1 = THINK_CLOSE"
    using Cons.prems(2) f1 by (simp_all add: current_marker_def)
  have e1: "carried (think_loop (st\<lparr>pending := t @ rendered (seg # segs)\<rparr>))
      = thread (carried (emit_current st t)) (\<lambda>s. carried (think_loop
          ((flip_channel True s)\<lparr>pending := r @ THINK_CLOSE @ t2 @ rendered segs\<rparr>)))"
    by (rule think_round) (use Cons.prems m in \<open>simp_all add: seg\<close>)
  have e2: "carried (think_loop (?s1\<lparr>pending := r @ THINK_CLOSE @ t2 @ rendered segs\<rparr>))
      = thread (carried (emit_current ?s1 r)) (\<lambda>s. carried (think_loop
          ((flip_channel True s)\<lparr>pending := t2 @ rendered segs\<rparr>)))"
    by (rule think_round) (use v free m in simp_all)
  note IH = Cons.IH [OF v(2) f2(1) free(2,3)]
  have st: "snd (think_loop (st\<lparr>pending := t @ rendered (seg # segs)\<rparr>))
      = snd (think_loop (?s2\<lparr>pending := t2 @ rendered segs\<rparr>))"
    using arg_cong [OF e1, of snd] arg_cong [OF e2, of snd] by (simp add: thread_def snd_carried)
  show ?case
    using e1 e2 IH st emit_channel [OF Cons.prems(1), of t] emit_channel [OF v(1), of r] Cons.prems(2) f1 f2
    by (simp add: thread_def snd_carried seg) (simp add: carried_def)
qed

lemma split_exact:
  assumes "d \<notin> {Glm, Gemma}"
    and "\<not> str_contains t THINK_OPEN" and "\<not> str_contains r THINK_CLOSE" and "marker_free segs"
    and "text = (if enabled then r @ THINK_CLOSE @ t @ rendered segs else t @ rendered segs)"
  shows "map_sum id stream (native_finish ((parser_new d enabled)\<lparr>pending := text\<rparr>) reason) =
    Inr ((if enabled then List.map (Pair ReasoningChannel) r @ List.map (Pair TextChannel) (trim_newlines t)
          else List.map (Pair TextChannel) t) @ split_stream segs)"
proof -
  let ?st = "parser_new d enabled"
  have v: "verbatim ?st" using assms(1) by simp
  have fields: "np_state ?st = (if enabled then ReasoningChannel else TextChannel)"
      "\<not> trim_text_prefix ?st" "\<not> trim_reasoning_prefix ?st"
    using assms(1) by (simp_all add: parser_new_def Let_def)
  have "fst (carried (think_loop (?st\<lparr>pending := text\<rparr>))) =
      (if enabled then List.map (Pair ReasoningChannel) r @ List.map (Pair TextChannel) (trim_newlines t)
       else List.map (Pair TextChannel) t) @ split_stream segs
    \<and> np_state (snd (think_loop (?st\<lparr>pending := text\<rparr>))) = TextChannel"
  proof (cases enabled)
    case False
    with think_loop_renders [OF v _ assms(2,4)] fields assms(5) show ?thesis by simp
  next
    case True
    let ?s = "flip_channel True (snd (emit_current ?st r))"
    have f: "np_state ?s = TextChannel" "trim_text_prefix ?s" and vs: "verbatim ?s"
      using flip_fields(2) [of "snd (emit_current ?st r)"] fields True v by simp_all
    have e: "carried (think_loop (?st\<lparr>pending := text\<rparr>))
      = thread (carried (emit_current ?st r)) (\<lambda>s. carried (think_loop
          ((flip_channel True s)\<lparr>pending := t @ rendered segs\<rparr>)))"
      by (rule think_round) (use fields True v assms in \<open>simp_all add: current_marker_def\<close>)
    have "snd (think_loop (?st\<lparr>pending := text\<rparr>)) = snd (think_loop (?s\<lparr>pending := t @ rendered segs\<rparr>))"
      using arg_cong [OF e, of snd] by (simp add: thread_def snd_carried)
    with e think_loop_renders [OF vs f(1) assms(2,4)] f(2) emit_channel [OF v, of r] fields True
    show ?thesis by (simp add: thread_def snd_carried) (simp add: carried_def)
  qed
  then show ?thesis
    using v by (cases "think_loop (?st\<lparr>pending := text\<rparr>)")
      (simp add: native_finish_def advance_verbatim carried_def)
qed

text \<open>
  C31: the channels hold what the model wrote there, for every dialect but \<open>Glm\<close> and \<open>Gemma\<close>, whose text is sanitised, and
  for deltas that stay below the buffer limit. If an answer is text, then any number of
  \<open><think>\<close> ... \<open></think>\<close> sections each followed by text, however its deltas were cut, the
  visible channel carries exactly the text pieces and the reasoning channel exactly the sections,
  in order, each without its leading newlines but for the first piece of the answer, which is kept as it is; and
  when the template opened the reasoning channel itself, the answer starts inside it.
\<close>

theorem native_split_exact:
  assumes "d \<notin> {Glm, Gemma}" and "\<forall>c \<in> set chunks. length c + 7 \<le> MAX_PENDING_BYTES"
    and "\<not> str_contains t THINK_OPEN" and "\<not> str_contains r THINK_CLOSE" and "marker_free segs"
    and "concat chunks = (if enabled then r @ THINK_CLOSE @ t @ rendered segs else t @ rendered segs)"
  shows "map_sum id stream (decode_chunks d enabled chunks reason) =
    Inr ((if enabled then List.map (Pair ReasoningChannel) r @ List.map (Pair TextChannel) (trim_newlines t)
          else List.map (Pair TextChannel) t) @ split_stream segs)"
  unfolding chunks_irrelevant [OF assms(1,2)] by (rule split_exact [OF assms(1,3,4,5,6)])

theorem native_split_exact_witness:
  "map_sum id stream (decode_chunks MiniCpm5 False demo_chunks ''stop'')
     = Inr (split_stream [(''a<b'', ''cd'')])"
  using native_split_exact [of MiniCpm5 demo_chunks "[]" "[]" "[(''a<b'', ''cd'')]" False "''stop''"]
  by (simp add: demo_chunks_def MAX_PENDING_BYTES_def marker_free_def str_contains_def
      THINK_OPEN_def THINK_CLOSE_def)

text \<open>
  A reasoning channel that never closes is an error, unless the answer was cut by the token
  limit, in which case everything received is reasoning; it is never shown as visible text.
\<close>

theorem native_unterminated_reasoning:
  assumes "d \<notin> {Glm, Gemma}" and "\<forall>c \<in> set chunks. length c + 7 \<le> MAX_PENDING_BYTES"
    and "\<not> str_contains (concat chunks) THINK_CLOSE"
  shows "map_sum id stream (decode_chunks d True chunks reason) =
    (if reason = ''length'' then Inr (List.map (Pair ReasoningChannel) (concat chunks))
     else Inl UnterminatedReasoning)"
proof -
  let ?st = "parser_new d True"
  let ?x = "concat chunks"
  have v: "verbatim ?st" using assms(1) by simp
  have s: "np_state ?st = ReasoningChannel" "\<not> trim_reasoning_prefix ?st"
    using assms(1) by (simp_all add: parser_new_def Let_def)
  have "str_find ?x (current_marker THINK_OPEN THINK_CLOSE ?st) = None"
    using s assms(3) by (simp add: current_marker_def str_contains_def)
  from round_eof [OF this, of True]
  have e: "carried (think_loop (?st\<lparr>pending := ?x\<rparr>))
      = thread (carried (emit_current ?st ?x)) (\<lambda>s. ([], s\<lparr>pending := []\<rparr>))" .
  then have "stream (fst (think_loop (?st\<lparr>pending := ?x\<rparr>))) = List.map (Pair ReasoningChannel) ?x
    \<and> np_state (snd (think_loop (?st\<lparr>pending := ?x\<rparr>))) = ReasoningChannel"
    using s emit_channel [OF v, of ?x] by (simp add: thread_def carried_def)
  then show ?thesis
    unfolding chunks_irrelevant [OF assms(1,2)]
    using v by (cases "think_loop (?st\<lparr>pending := ?x\<rparr>)")
      (simp add: native_finish_def advance_verbatim)
qed

theorem native_unterminated_reasoning_witness:
  "map_sum id stream (decode_chunks Qwen36 True [''still '', ''thinking </thin''] ''stop'')
     = Inl UnterminatedReasoning"
  using native_unterminated_reasoning [of Qwen36 "[''still '', ''thinking </thin'']" "''stop''"]
  by (simp add: MAX_PENDING_BYTES_def str_contains_def THINK_CLOSE_def)

end
