(* ===== verification/GeneratedOutput.thy ===== *)
theory GeneratedOutput
  imports NativeOutput
begin

text \<open>
  \<open>ironmlx/src/core/generated_output.rs\<close>: the decoder between committed tokens and typed output
  events, and the collector that accumulates the events of a request.

  The native tool-call parser and the detokenizer are parameters, the fields of \<open>decoder_env\<close>: their
  states, the result of each step and the state a step leaves behind.
\<close>

section \<open>Capabilities\<close>

datatype capability_support = Unsupported | Native

definition is_supported :: "capability_support \<Rightarrow> bool" where
  "is_supported c \<longleftrightarrow> c = Native"

record input_capability_profile =
  input_text :: capability_support
  input_image :: capability_support
  input_audio :: capability_support

record output_capability_profile =
  output_text :: capability_support
  output_reasoning :: capability_support
  output_reasoning_summary :: capability_support
  output_refusal :: capability_support
  output_audio :: capability_support
  output_image :: capability_support

record model_capability_profile =
  cap_input :: input_capability_profile
  cap_output :: output_capability_profile
  function_tools :: capability_support
  structured_output :: capability_support

definition from_loaded_contract ::
  "bool \<Rightarrow> 'dialect option \<Rightarrow> bool \<Rightarrow> bool \<Rightarrow> model_capability_profile" where
  "from_loaded_contract supports_image tool_dialect supports_structured supports_reasoning =
     \<lparr>cap_input = \<lparr>input_text = Native,
        input_image = (if supports_image then Native else Unsupported), input_audio = Unsupported\<rparr>,
      cap_output = \<lparr>output_text = Native,
        output_reasoning = (if supports_reasoning then Native else Unsupported),
        output_reasoning_summary = Unsupported, output_refusal = Unsupported,
        output_audio = Unsupported, output_image = Unsupported\<rparr>,
      function_tools = (if tool_dialect \<noteq> None then Native else Unsupported),
      structured_output = (if supports_structured then Native else Unsupported)\<rparr>"

section \<open>The collector\<close>

record collected_output =
  col_text :: str
  col_reasoning :: str
  col_reasoning_summary :: str
  col_refusal :: str
  col_tool_calls :: "tool_call list"
  col_audio :: "audio_chunk list"
  col_images :: "image_artifact list"
  col_finish_reason :: "generated_finish_reason option"

definition collected_empty :: collected_output where
  "collected_empty = \<lparr>col_text = [], col_reasoning = [], col_reasoning_summary = [], col_refusal = [],
     col_tool_calls = [], col_audio = [], col_images = [], col_finish_reason = None\<rparr>"

datatype collect_error = MoreThanOneTerminalEvent
  | CannotRepresent str

fun collect_event ::
  "collected_output \<Rightarrow> generated_output_event \<Rightarrow> (collect_error, collected_output, unit) outcome" where
  "collect_event c (TextDelta d) = (Inr (), c\<lparr>col_text := col_text c @ d\<rparr>)"
| "collect_event c (ReasoningDelta d) = (Inr (), c\<lparr>col_reasoning := col_reasoning c @ d\<rparr>)"
| "collect_event c (ReasoningSummaryDelta d) =
     (Inr (), c\<lparr>col_reasoning_summary := col_reasoning_summary c @ d\<rparr>)"
| "collect_event c (RefusalDelta d) = (Inr (), c\<lparr>col_refusal := col_refusal c @ d\<rparr>)"
| "collect_event c (ToolCall t) = (Inr (), c\<lparr>col_tool_calls := col_tool_calls c @ [t]\<rparr>)"
| "collect_event c (AudioDelta a) = (Inr (), c\<lparr>col_audio := col_audio c @ [a]\<rparr>)"
| "collect_event c (ImageOutput i) = (Inr (), c\<lparr>col_images := col_images c @ [i]\<rparr>)"
| "collect_event c (Finished r) =
     (if col_finish_reason c = None then (Inr (), c\<lparr>col_finish_reason := Some r\<rparr>)
      else (Inl MoreThanOneTerminalEvent, c\<lparr>col_finish_reason := Some r\<rparr>))"

fun collected_push ::
  "collected_output \<Rightarrow> generated_output_event list \<Rightarrow> (collect_error, collected_output, unit) outcome" where
  "collected_push c [] = (Inr (), c)"
| "collected_push c (e # es) = andthen (collect_event c e) (\<lambda>_ c. collected_push c es)"

definition ensure_text_and_tools_only :: "collected_output \<Rightarrow> collect_error + unit" where
  "ensure_text_and_tools_only c =
     (if col_reasoning c \<noteq> [] then Inl (CannotRepresent ''reasoning output'')
      else if col_reasoning_summary c \<noteq> [] then Inl (CannotRepresent ''reasoning summary output'')
      else if col_refusal c \<noteq> [] then Inl (CannotRepresent ''refusal output'')
      else if col_audio c \<noteq> [] then Inl (CannotRepresent ''audio output'')
      else if col_images c \<noteq> [] then Inl (CannotRepresent ''image output'')
      else Inr ())"

text \<open>Collecting batches one after the other, stopping at the first error.\<close>

definition collect_feed ::
  "(collect_error, collected_output, unit) outcome \<Rightarrow> generated_output_event list
   \<Rightarrow> (collect_error, collected_output, unit) outcome" where
  "collect_feed m es = andthen m (\<lambda>_ c. collected_push c es)"

lemma collected_push_append:
  "collected_push c (xs @ ys) = andthen (collected_push c xs) (\<lambda>_ c. collected_push c ys)"
proof (induction xs arbitrary: c)
  case (Cons x xs)
  then show ?case by (cases "collect_event c x"; cases "fst (collect_event c x)") auto
qed simp

interpretation collector: chunked_feed collect_feed "\<lambda>_. True"
proof
  fix m :: "(collect_error, collected_output, unit) outcome" and xs ys
  show "collect_feed m (xs @ ys) = collect_feed (collect_feed m xs) ys"
    by (cases m; cases "fst m") (auto simp: collect_feed_def collected_push_append)
qed simp

section \<open>The decoder\<close>

datatype 'e generated_output_error = AlreadyFinished | DecodedTextInput | UnsupportedFinishReason
  | NativeFailed native_output_error | DependencyFailed 'e

record ('t, 'd, 'e) decoder_env =
  tool_push :: "'t \<Rightarrow> str \<Rightarrow> ('e, 't, generated_output_event list) outcome"
  tool_finish :: "'t \<Rightarrow> 'e + (generated_output_event list \<times> bool)"
  detok_step :: "'d \<Rightarrow> 32 word \<Rightarrow> ('e, 'd, str option) outcome"

record ('t, 'd) output_decoder =
  detok :: "'d option"
  native_parser_of :: "native_parser option"
  tool_parser_of :: "'t option"
  saw_tool_call :: bool
  last_token_was_reasoning :: bool
  finished :: bool

definition decoder_new ::
  "'d option \<Rightarrow> 't option \<Rightarrow> (native_output_dialect \<times> bool) option \<Rightarrow> ('t, 'd) output_decoder" where
  "decoder_new dk tool native =
     \<lparr>detok = dk, native_parser_of = map_option (\<lambda>(d, en). parser_new d en) native,
      tool_parser_of = tool, saw_tool_call = False, last_token_was_reasoning = False, finished = False\<rparr>"

definition record_tool_calls ::
  "generated_output_event list \<Rightarrow> ('t, 'd) output_decoder \<Rightarrow> ('t, 'd) output_decoder" where
  "record_tool_calls evs st =
     st\<lparr>saw_tool_call := saw_tool_call st \<or> list_ex (\<lambda>e. case e of ToolCall _ \<Rightarrow> True | _ \<Rightarrow> False) evs\<rparr>"

text \<open>One event on its way out: visible text passes through the tool parser, if there is one.\<close>

definition route_event ::
  "('t, 'd, 'e) decoder_env \<Rightarrow> generated_output_event \<Rightarrow> ('t, 'd) output_decoder
   \<Rightarrow> ('e generated_output_error, ('t, 'd) output_decoder, generated_output_event list) outcome" where
  "route_event env e st =
     (case (e, tool_parser_of st) of
        (TextDelta text, Some t) \<Rightarrow>
          (case tool_push env t text of
             (Inl err, t') \<Rightarrow> (Inl (DependencyFailed err), st\<lparr>tool_parser_of := Some t'\<rparr>)
           | (Inr evs, t') \<Rightarrow> (Inr evs, st\<lparr>tool_parser_of := Some t'\<rparr>))
      | _ \<Rightarrow> (Inr [e], st))"

fun route_native_events ::
  "('t, 'd, 'e) decoder_env \<Rightarrow> generated_output_event list \<Rightarrow> ('t, 'd) output_decoder
   \<Rightarrow> ('e generated_output_error, ('t, 'd) output_decoder, generated_output_event list) outcome" where
  "route_native_events env [] st = (Inr [], st)"
| "route_native_events env (e # es) st =
     andthen (route_event env e st)
       (\<lambda>out st. andthen (route_native_events env es st) (\<lambda>out' st. (Inr (out @ out'), st)))"

text \<open>The three places where the decoder hands its work to a parser.\<close>

definition push_native ::
  "str \<Rightarrow> ('t, 'd) output_decoder
   \<Rightarrow> ('e generated_output_error, ('t, 'd) output_decoder, generated_output_event list) outcome" where
  "push_native delta st =
     (case native_parser_of st of
        None \<Rightarrow> (Inr [TextDelta delta], st)
      | Some p \<Rightarrow>
          (case native_push p delta of
             (Inl err, p') \<Rightarrow> (Inl (NativeFailed err), st\<lparr>native_parser_of := Some p'\<rparr>)
           | (Inr evs, p') \<Rightarrow> (Inr evs, st\<lparr>native_parser_of := Some p'\<rparr>)))"

definition finish_native ::
  "str \<Rightarrow> ('t, 'd) output_decoder
   \<Rightarrow> ('e generated_output_error, ('t, 'd) output_decoder, generated_output_event list) outcome" where
  "finish_native reason st =
     (let parser = native_parser_of st; st = st\<lparr>native_parser_of := None\<rparr> in
      case parser of
        None \<Rightarrow> (Inr [], st)
      | Some p \<Rightarrow>
          (case native_finish p reason of
             Inl err \<Rightarrow> (Inl (NativeFailed err), st)
           | Inr evs \<Rightarrow> (Inr evs, st)))"

definition finish_tool ::
  "('t, 'd, 'e) decoder_env \<Rightarrow> ('t, 'd) output_decoder
   \<Rightarrow> ('e generated_output_error, ('t, 'd) output_decoder, generated_output_event list) outcome" where
  "finish_tool env st =
     (let tool = tool_parser_of st; st = st\<lparr>tool_parser_of := None\<rparr> in
      case tool of
        None \<Rightarrow> (Inr [], st)
      | Some t \<Rightarrow>
          (case tool_finish env t of
             Inl err \<Rightarrow> (Inl (DependencyFailed err), st)
           | Inr (evs, saw) \<Rightarrow> (Inr evs, st\<lparr>saw_tool_call := saw_tool_call st \<or> saw\<rparr>)))"

definition in_reasoning :: "('t, 'd) output_decoder \<Rightarrow> bool" where
  "in_reasoning st =
     (case native_parser_of st of None \<Rightarrow> False | Some p \<Rightarrow> np_state p = ReasoningChannel)"

definition settle_delta ::
  "generated_output_event list \<Rightarrow> ('t, 'd) output_decoder
   \<Rightarrow> ('e generated_output_error, ('t, 'd) output_decoder, generated_output_event list) outcome" where
  "settle_delta evs st =
     (Inr evs, record_tool_calls evs
        (st\<lparr>last_token_was_reasoning := last_token_was_reasoning st \<or> in_reasoning st
            \<or> list_ex (\<lambda>e. case e of ReasoningDelta _ \<Rightarrow> True | _ \<Rightarrow> False) evs\<rparr>))"

definition push_text_delta ::
  "('t, 'd, 'e) decoder_env \<Rightarrow> str \<Rightarrow> ('t, 'd) output_decoder
   \<Rightarrow> ('e generated_output_error, ('t, 'd) output_decoder, generated_output_event list) outcome" where
  "push_text_delta env delta st =
     (if finished st then (Inl AlreadyFinished, st)
      else if delta = [] then (Inr [], st\<lparr>last_token_was_reasoning := False\<rparr>)
      else andthen (andthen (push_native delta (st\<lparr>last_token_was_reasoning := False\<rparr>))
             (route_native_events env)) settle_delta)"

definition push_token ::
  "('t, 'd, 'e) decoder_env \<Rightarrow> 32 word \<Rightarrow> ('t, 'd) output_decoder
   \<Rightarrow> ('e generated_output_error, ('t, 'd) output_decoder, generated_output_event list) outcome" where
  "push_token env token st =
     (if finished st then (Inl AlreadyFinished, st)
      else case detok st of
        None \<Rightarrow> (Inl DecodedTextInput, st)
      | Some d \<Rightarrow>
          (let reasoning_before = in_reasoning st in
           case detok_step env d token of
             (Inl err, d') \<Rightarrow> (Inl (DependencyFailed err), st\<lparr>detok := Some d'\<rparr>)
           | (Inr None, d') \<Rightarrow>
               (Inr [], st\<lparr>detok := Some d', last_token_was_reasoning := reasoning_before\<rparr>)
           | (Inr (Some delta), d') \<Rightarrow>
               andthen (push_text_delta env delta (st\<lparr>detok := Some d'\<rparr>))
                 (\<lambda>evs st. (Inr evs, st\<lparr>last_token_was_reasoning :=
                     last_token_was_reasoning st \<or> reasoning_before\<rparr>))))"

definition terminal_event ::
  "str \<Rightarrow> generated_output_event list \<Rightarrow> ('t, 'd) output_decoder
   \<Rightarrow> ('e generated_output_error, ('t, 'd) output_decoder, generated_output_event list) outcome" where
  "terminal_event reason evs st =
     (let st = record_tool_calls evs st in
      case from_generation reason (saw_tool_call st) of
        None \<Rightarrow> (Inl UnsupportedFinishReason, st)
      | Some r \<Rightarrow> (Inr (evs @ [Finished r]), st))"

definition decoder_finish ::
  "('t, 'd, 'e) decoder_env \<Rightarrow> str \<Rightarrow> ('t, 'd) output_decoder
   \<Rightarrow> ('e generated_output_error, ('t, 'd) output_decoder, generated_output_event list) outcome" where
  "decoder_finish env reason st =
     (if finished st then (Inl AlreadyFinished, st)
      else andthen (andthen (andthen (finish_native reason (st\<lparr>finished := True\<rparr>))
             (route_native_events env))
             (\<lambda>evs st. andthen (finish_tool env st) (\<lambda>tevs st. (Inr (evs @ tevs), st))))
             (terminal_event reason))"

section \<open>Which events an operation can return\<close>

fun is_finished :: "generated_output_event \<Rightarrow> bool" where
  "is_finished (Finished _) = True"
| "is_finished _ = False"

fun is_tool_call :: "generated_output_event \<Rightarrow> bool" where
  "is_tool_call (ToolCall _) = True"
| "is_tool_call _ = False"

fun is_plain :: "generated_output_event \<Rightarrow> bool" where
  "is_plain (TextDelta _) = True"
| "is_plain (ReasoningDelta _) = True"
| "is_plain _ = False"

abbreviation (input) open_events :: "generated_output_event list \<Rightarrow> bool" where
  "open_events evs \<equiv> \<forall>e \<in> set evs. \<not> is_finished e"

lemma plain_not_finished: "is_plain e \<Longrightarrow> \<not> is_finished e"
  by (cases e) auto

lemma is_tool_call_case: "(case e of ToolCall _ \<Rightarrow> True | _ \<Rightarrow> False) = is_tool_call e"
  by (cases e) auto

lemma emit_plain: "e \<in> set (fst (emit_current st v)) \<Longrightarrow> is_plain e"
  by (auto simp: emit_current_def Let_def split: channel_state.splits if_splits)

lemma advance_loop_plain: "e \<in> set (fst (advance_loop op cl tg eof st)) \<Longrightarrow> is_plain e"
proof (induction op cl tg eof st rule: advance_loop.induct)
  case (1 op cl tg eof st)
  show ?case
  proof (cases "str_find (pending st) (current_marker op cl st)")
    case None
    with 1(2) emit_plain show ?thesis
      by (auto simp: advance_loop.simps [of op cl tg eof st] Let_def split: if_splits)
  next
    case (Some k)
    obtain evs st1 where e: "emit_current st (take k (pending st)) = (evs, st1)" by fastforce
    then have evs: "e \<in> set evs \<Longrightarrow> is_plain e" using emit_plain [of e st "take k (pending st)"] by simp
    let ?st2 = "flip_channel tg (st1\<lparr>pending := drop (k + length (current_marker op cl st)) (pending st)\<rparr>)"
    show ?thesis
      using 1(2) 1(1) [OF refl Some e [symmetric] refl refl] evs
      by (auto simp: advance_loop.simps [of op cl tg eof st] Let_def Some e split: if_splits prod.splits)
  qed
qed

lemma advance_plain: "e \<in> set (fst (advance eof st)) \<Longrightarrow> is_plain e"
  by (auto simp: advance_def advance_tagged_def advance_gemma_def split: if_splits dest: advance_loop_plain)

lemma native_push_plain: "native_push p d = (Inr evs, p') \<Longrightarrow> e \<in> set evs \<Longrightarrow> is_plain e"
  by (cases "advance False (p\<lparr>pending := pending p @ d\<rparr>)")
    (auto simp: native_push_def Let_def split: if_splits
      intro: advance_plain [of e False "p\<lparr>pending := pending p @ d\<rparr>"])

lemma native_finish_plain: "native_finish p r = Inr evs \<Longrightarrow> e \<in> set evs \<Longrightarrow> is_plain e"
  by (cases "advance True p") (auto simp: native_finish_def split: if_splits intro: advance_plain [of e True p])

lemma native_push_open: "native_push p d = (Inr evs, p') \<Longrightarrow> open_events evs"
  using native_push_plain plain_not_finished by blast

lemma native_finish_open: "native_finish p r = Inr evs \<Longrightarrow> open_events evs"
  using native_finish_plain plain_not_finished by blast

text \<open>The parameter's contract: a tool parser turns text into text and calls, it does not end the answer.\<close>

definition tool_env_ok :: "('t, 'd, 'e) decoder_env \<Rightarrow> bool" where
  "tool_env_ok env \<longleftrightarrow>
     (\<forall>t s evs t'. tool_push env t s = (Inr evs, t') \<longrightarrow> open_events evs)
     \<and> (\<forall>t evs saw. tool_finish env t = Inr (evs, saw) \<longrightarrow> open_events evs)"

lemma tool_push_open: "tool_env_ok env \<Longrightarrow> tool_push env t s = (Inr evs, t') \<Longrightarrow> open_events evs"
  unfolding tool_env_ok_def by blast

lemma tool_finish_open: "tool_env_ok env \<Longrightarrow> tool_finish env t = Inr (evs, saw) \<Longrightarrow> open_events evs"
  unfolding tool_env_ok_def by blast

text \<open>
  What a step of the decoder promises: it does not touch \<open>finished\<close>, it forgets no call it has seen,
  and what it returns does not end the answer.
\<close>

definition remembers :: "('t, 'd) output_decoder \<Rightarrow> ('t, 'd) output_decoder \<Rightarrow> bool" where
  "remembers st st' \<longleftrightarrow> finished st' = finished st \<and> (saw_tool_call st \<longrightarrow> saw_tool_call st')"

definition tame ::
  "('t, 'd) output_decoder \<Rightarrow> ('x, ('t, 'd) output_decoder, generated_output_event list) outcome \<Rightarrow> bool" where
  "tame st m \<longleftrightarrow> remembers st (snd m) \<and> (\<forall>evs. fst m = Inr evs \<longrightarrow> open_events evs)"

lemma tameI: "remembers st s \<Longrightarrow> (\<And>evs. r = Inr evs \<Longrightarrow> open_events evs) \<Longrightarrow> tame st (r, s)"
  by (simp add: tame_def)

lemma tame_andthen:
  assumes "tame st m" and "\<And>evs s. m = (Inr evs, s) \<Longrightarrow> open_events evs \<Longrightarrow> tame s (f evs s)"
  shows "tame st (andthen m f)"
proof (cases m)
  case (Pair r s)
  show ?thesis
  proof (cases r)
    case (Inr evs)
    have "tame s (f evs s)" using assms(1) by (intro assms(2)) (simp_all add: Pair Inr tame_def)
    then show ?thesis using assms(1) by (auto simp: tame_def Pair Inr remembers_def)
  qed (use assms(1) Pair in \<open>simp add: tame_def\<close>)
qed

lemma route_event_tame:
  "tool_env_ok env \<Longrightarrow> \<not> is_finished e \<Longrightarrow> tame st (route_event env e st)"
  by (auto simp: route_event_def remembers_def intro!: tameI dest: tool_push_open
      split: generated_output_event.split option.split prod.split sum.split)

lemma route_tame:
  "tool_env_ok env \<Longrightarrow> open_events es \<Longrightarrow> tame st (route_native_events env es st)"
proof (induction es arbitrary: st)
  case (Cons e es)
  have "tame s (andthen (route_native_events env es s) (\<lambda>out' s. (Inr (out @ out'), s)))"
    if "open_events out" for out s
    using Cons that by (intro tame_andthen) (auto intro!: tameI simp: remembers_def)
  with Cons.prems show ?case
    by (simp only: route_native_events.simps) (rule tame_andthen, rule route_event_tame, auto)
qed (simp add: tame_def remembers_def)

lemma push_native_tame: "tame st (push_native d st)"
  by (auto simp: push_native_def remembers_def intro!: tameI split: option.split prod.split sum.split
      dest: native_push_open)

lemma finish_native_tame: "tame st (finish_native r st)"
  by (auto simp: finish_native_def remembers_def Let_def intro!: tameI split: option.split sum.split
      dest: native_finish_open)

lemma finish_tool_tame: "tool_env_ok env \<Longrightarrow> tame st (finish_tool env st)"
  by (auto simp: finish_tool_def remembers_def Let_def intro!: tameI split: option.split sum.split
      dest: tool_finish_open)

lemma settle_tame: "open_events evs \<Longrightarrow> tame st (settle_delta evs st)"
  by (auto simp: settle_delta_def remembers_def record_tool_calls_def intro!: tameI)

lemma record_saw: "list_ex is_tool_call evs \<Longrightarrow> saw_tool_call (record_tool_calls evs st)"
  by (simp add: record_tool_calls_def is_tool_call_case)

lemma push_text_tame:
  assumes "tool_env_ok env" and "\<not> finished st"
  shows "tame st (push_text_delta env d st)"
    and "push_text_delta env d st = (Inr evs, st') \<Longrightarrow> list_ex is_tool_call evs \<longrightarrow> saw_tool_call st'"
proof -
  have r: "remembers st (st\<lparr>last_token_was_reasoning := False\<rparr>)" by (simp add: remembers_def)
  have "tame (st\<lparr>last_token_was_reasoning := False\<rparr>) (push_text_delta env d st)"
    using assms
    by (auto simp: push_text_delta_def remembers_def
        intro!: tameI tame_andthen push_native_tame route_tame settle_tame)
  then show "tame st (push_text_delta env d st)" by (simp add: tame_def remembers_def)
  show "push_text_delta env d st = (Inr evs, st') \<Longrightarrow> list_ex is_tool_call evs \<longrightarrow> saw_tool_call st'"
    using assms(2)
    by (auto simp: push_text_delta_def andthen_Inr_iff settle_delta_def record_saw split: if_splits)
qed

lemma push_token_tame:
  assumes "tool_env_ok env" and "\<not> finished st"
  shows "tame st (push_token env t st)"
    and "push_token env t st = (Inr evs, st') \<Longrightarrow> list_ex is_tool_call evs \<longrightarrow> saw_tool_call st'"
proof -
  have p: "tame st (push_text_delta env d (st\<lparr>detok := k\<rparr>))" for d k
    using push_text_tame(1) [OF assms(1), of "st\<lparr>detok := k\<rparr>" d] assms(2)
    by (simp add: tame_def remembers_def)
  show "tame st (push_token env t st)"
    using assms(2) p
    by (auto simp: push_token_def Let_def remembers_def intro!: tameI tame_andthen
        split: option.split prod.split sum.split)
  have q: "list_ex is_tool_call evs \<longrightarrow> saw_tool_call s" if "push_text_delta env d (st\<lparr>detok := k\<rparr>) = (Inr evs, s)"
    for d k s using push_text_tame(2) [OF assms(1) _ that] assms(2) by simp
  show "push_token env t st = (Inr evs, st') \<Longrightarrow> list_ex is_tool_call evs \<longrightarrow> saw_tool_call st'"
    using assms(2) by (auto simp: push_token_def Let_def andthen_Inr_iff dest!: q
        split: option.splits prod.splits sum.splits)
qed

lemma finish_terminal:
  fixes env :: "('t, 'd, 'e) decoder_env"
  assumes "tool_env_ok env" and "\<not> finished st"
  shows "finished (snd (decoder_finish env r st))"
    and "saw_tool_call st \<longrightarrow> saw_tool_call (snd (decoder_finish env r st))"
    and "decoder_finish env r st = (Inr evs, st') \<Longrightarrow>
      \<exists>ys f. evs = ys @ [Finished f] \<and> open_events ys \<and> from_generation r (saw_tool_call st') = Some f
           \<and> (list_ex is_tool_call ys \<longrightarrow> saw_tool_call st')"
proof -
  let ?st = "st\<lparr>finished := True\<rparr>"
  let ?m = "andthen (andthen (finish_native r ?st) (route_native_events env))
             (\<lambda>evs st. andthen (finish_tool env st) (\<lambda>tevs st. (Inr (evs @ tevs), st)))"
  have e: "decoder_finish env r st = andthen ?m (terminal_event r)"
    using assms(2) by (simp add: decoder_finish_def)
  have tail: "tame s (andthen (finish_tool env s) (\<lambda>tevs s. (Inr (evs @ tevs), s)))"
    if "open_events evs" for evs s
    using that by (intro tame_andthen finish_tool_tame assms(1)) (auto intro!: tameI simp: remembers_def)
  have m: "tame ?st ?m"
    by (rule tame_andthen [OF tame_andthen [OF finish_native_tame] tail]) (rule route_tame [OF assms(1)])
  have "remembers ?st (snd (andthen ?m (terminal_event r)))"
  proof (rule andthen_state [where P = "remembers ?st"])
    show rm: "remembers ?st (snd ?m)" using m by (simp add: tame_def)
    fix evs s assume "?m = (Inr evs, s)"
    with rm have "remembers ?st s" by simp
    then show "remembers ?st (snd (terminal_event r evs s))"
      by (auto simp: terminal_event_def record_tool_calls_def remembers_def Let_def split: option.split)
  qed
  then show "finished (snd (decoder_finish env r st))"
    and "saw_tool_call st \<longrightarrow> saw_tool_call (snd (decoder_finish env r st))"
    by (simp_all add: e remembers_def)
  assume "decoder_finish env r st = (Inr evs, st')"
  then have "andthen ?m (terminal_event r) = (Inr evs, st')" by (simp only: e)
  from iffD1 [OF andthen_Inr_iff this] obtain ys s
    where y: "?m = (Inr ys, s)" and t: "(terminal_event r ys s
      :: ('e generated_output_error, ('t, 'd) output_decoder, _) outcome) = (Inr evs, st')"
    by blast
  have "open_events ys" using m y by (simp add: tame_def)
  with t show "\<exists>ys f. evs = ys @ [Finished f] \<and> open_events ys \<and> from_generation r (saw_tool_call st') = Some f
           \<and> (list_ex is_tool_call ys \<longrightarrow> saw_tool_call st')"
    by (auto simp: terminal_event_def Let_def record_saw split: option.splits)
qed

section \<open>A caller's view\<close>

datatype decoder_op = Token "32 word" | Delta str | Finish str

fun decoder_step ::
  "('t, 'd, 'e) decoder_env \<Rightarrow> ('t, 'd) output_decoder \<Rightarrow> decoder_op
   \<Rightarrow> ('e generated_output_error, ('t, 'd) output_decoder, generated_output_event list) outcome" where
  "decoder_step env st (Token t) = push_token env t st"
| "decoder_step env st (Delta s) = push_text_delta env s st"
| "decoder_step env st (Finish r) = decoder_finish env r st"

text \<open>Everything a caller receives who keeps calling, whatever fails.\<close>

fun run_decoder ::
  "('t, 'd, 'e) decoder_env \<Rightarrow> ('t, 'd) output_decoder \<Rightarrow> decoder_op list
   \<Rightarrow> generated_output_event list \<times> ('t, 'd) output_decoder" where
  "run_decoder env st [] = ([], st)"
| "run_decoder env st (x # xs) =
     (case decoder_step env st x of
        (Inl _, st') \<Rightarrow> run_decoder env st' xs
      | (Inr evs, st') \<Rightarrow> (case run_decoder env st' xs of (evs', st'') \<Rightarrow> (evs @ evs', st'')))"

lemma finished_step: "finished st \<Longrightarrow> decoder_step env st x = (Inl AlreadyFinished, st)"
  by (cases x) (simp_all add: push_token_def push_text_delta_def decoder_finish_def)

lemma finished_run: "finished st \<Longrightarrow> run_decoder env st xs = ([], st)"
  by (induction xs) (simp_all add: finished_step)

lemma step_cases:
  assumes "tool_env_ok env" and "\<not> finished st" and "decoder_step env st x = (r, st')"
  shows "saw_tool_call st \<longrightarrow> saw_tool_call st'"
    and "finished st' = (\<exists>reason. x = Finish reason)"
    and "r = Inr evs \<Longrightarrow> \<not> finished st' \<Longrightarrow> open_events evs \<and> (list_ex is_tool_call evs \<longrightarrow> saw_tool_call st')"
    and "r = Inr evs \<Longrightarrow> finished st' \<Longrightarrow> \<exists>ys f. evs = ys @ [Finished f] \<and> open_events ys
      \<and> (f = ToolCalls \<longleftrightarrow> saw_tool_call st') \<and> (list_ex is_tool_call ys \<longrightarrow> saw_tool_call st')"
proof -
  have ft: "from_generation q b = Some f \<Longrightarrow> f = ToolCalls \<longleftrightarrow> b" for q b f
    by (auto simp: from_generation_def split: if_splits)
  have "(saw_tool_call st \<longrightarrow> saw_tool_call st')
    \<and> finished st' = (\<exists>reason. x = Finish reason)
    \<and> (r = Inr evs \<longrightarrow> \<not> finished st' \<longrightarrow> open_events evs \<and> (list_ex is_tool_call evs \<longrightarrow> saw_tool_call st'))
    \<and> (r = Inr evs \<longrightarrow> finished st' \<longrightarrow> (\<exists>ys f. evs = ys @ [Finished f] \<and> open_events ys
      \<and> (f = ToolCalls \<longleftrightarrow> saw_tool_call st') \<and> (list_ex is_tool_call ys \<longrightarrow> saw_tool_call st')))"
  proof (cases x)
    case (Token t)
    then show ?thesis
      using assms push_token_tame [OF assms(1,2), of t] by (auto simp: tame_def remembers_def)
  next
    case (Delta d)
    then show ?thesis
      using assms push_text_tame [OF assms(1,2), of d] by (auto simp: tame_def remembers_def)
  next
    case (Finish q)
    have "finished st'" "saw_tool_call st \<longrightarrow> saw_tool_call st'"
      using finish_terminal(1,2) [OF assms(1,2), of q] assms(3) Finish by simp_all
    moreover have "r = Inr evs \<longrightarrow> (\<exists>ys f. evs = ys @ [Finished f] \<and> open_events ys
      \<and> (f = ToolCalls \<longleftrightarrow> saw_tool_call st') \<and> (list_ex is_tool_call ys \<longrightarrow> saw_tool_call st'))"
      using finish_terminal(3) [OF assms(1,2), of q evs st'] assms(3) Finish ft by fastforce
    ultimately show ?thesis using Finish by simp
  qed
  then show "saw_tool_call st \<longrightarrow> saw_tool_call st'"
    and "finished st' = (\<exists>reason. x = Finish reason)"
    and "r = Inr evs \<Longrightarrow> \<not> finished st' \<Longrightarrow> open_events evs \<and> (list_ex is_tool_call evs \<longrightarrow> saw_tool_call st')"
    and "r = Inr evs \<Longrightarrow> finished st' \<Longrightarrow> \<exists>ys f. evs = ys @ [Finished f] \<and> open_events ys
      \<and> (f = ToolCalls \<longleftrightarrow> saw_tool_call st') \<and> (list_ex is_tool_call ys \<longrightarrow> saw_tool_call st')"
    by blast+
qed

lemma run_decoder_protocol:
  assumes "tool_env_ok env" and "\<not> finished st" and "run_decoder env st xs = (evs, st')"
  shows "(open_events evs
      \<or> (\<exists>ys f. evs = ys @ [Finished f] \<and> open_events ys \<and> finished st'
           \<and> (saw_tool_call st \<or> list_ex is_tool_call ys \<longrightarrow> f = ToolCalls)))
    \<and> (finished st' \<longleftrightarrow> (\<exists>r. Finish r \<in> set xs))"
  using assms(2,3)
proof (induction xs arbitrary: st evs st')
  case (Cons x xs)
  obtain r s where step: "decoder_step env st x = (r, s)" by fastforce
  note sc = step_cases [OF assms(1) Cons.prems(1) step]
  show ?case
  proof (cases "finished s")
    case True
    have run: "run_decoder env s xs = ([], s)" by (rule finished_run [OF True])
    show ?thesis
    proof (cases r)
      case (Inl e)
      then show ?thesis using Cons.prems(2) step run True sc(2) by auto
    next
      case (Inr es)
      from sc(4) [OF Inr True] obtain ys f where y: "es = ys @ [Finished f]" "open_events ys"
        "f = ToolCalls \<longleftrightarrow> saw_tool_call s" "list_ex is_tool_call ys \<longrightarrow> saw_tool_call s" by blast
      have ev: "evs = es" "st' = s" using Cons.prems(2) step run Inr by auto
      have "saw_tool_call st \<or> list_ex is_tool_call ys \<longrightarrow> f = ToolCalls" using y(3,4) sc(1) by blast
      then show ?thesis using y(1,2) ev True sc(2) by auto
    qed
  next
    case False
    obtain es' s' where run: "run_decoder env s xs = (es', s')" by fastforce
    note IH = Cons.IH [OF False run]
    show ?thesis
    proof (cases r)
      case (Inl e)
      then show ?thesis using Cons.prems(2) step run IH sc(1,2) False by auto
    next
      case (Inr es)
      have o: "open_events es" "list_ex is_tool_call es \<longrightarrow> saw_tool_call s" using sc(3) [OF Inr False] by auto
      have ev: "evs = es @ es'" "st' = s'" using Cons.prems(2) step run Inr by auto
      have fin: "finished st' \<longleftrightarrow> (\<exists>r. Finish r \<in> set (x # xs))" using IH sc(2) False ev by auto
      from IH consider "open_events es'" | ys f where "es' = ys @ [Finished f]" "open_events ys" "finished s'"
        "saw_tool_call s \<or> list_ex is_tool_call ys \<longrightarrow> f = ToolCalls" by blast
      then show ?thesis
      proof cases
        case 1
        then show ?thesis using o ev fin by auto
      next
        case 2
        then have "evs = (es @ ys) @ [Finished f]" "open_events (es @ ys)" "finished st'"
          "saw_tool_call st \<or> list_ex is_tool_call (es @ ys) \<longrightarrow> f = ToolCalls"
          using o ev sc(1) by auto
        with fin show ?thesis by blast
      qed
    qed
  qed
qed auto

text \<open>
  One terminal event, last. Whatever a caller does with a fresh decoder, in whatever order and
  whatever fails, the events it receives hold at most one \<open>Finished\<close>, nothing comes after it, it
  appears only when \<open>finish\<close> was called, it says "tool calls" whenever a call was delivered, and once
  \<open>finish\<close> has been called, successfully or not, every further operation is refused and changes
  nothing.
\<close>

theorem one_terminal_event:
  assumes "tool_env_ok env" and "run_decoder env (decoder_new dk tool native) xs = (evs, st)"
  shows "(open_events evs
      \<or> (\<exists>ys f. evs = ys @ [Finished f] \<and> open_events ys \<and> finished st
           \<and> (list_ex is_tool_call ys \<longrightarrow> f = ToolCalls)))
    \<and> (finished st \<longleftrightarrow> (\<exists>r. Finish r \<in> set xs))
    \<and> (finished st \<longrightarrow> (\<forall>x. decoder_step env st x = (Inl AlreadyFinished, st)))"
proof -
  have "\<not> finished (decoder_new dk tool native)" by (simp add: decoder_new_def)
  from run_decoder_protocol [OF assms(1) this assms(2)] finished_step show ?thesis by blast
qed

definition demo_decoder_env :: "(unit, unit, unit) decoder_env" where
  "demo_decoder_env = \<lparr>tool_push = (\<lambda>t s. (Inr [TextDelta s], t)),
     tool_finish = (\<lambda>t. Inr ([], False)), detok_step = (\<lambda>d w. (Inr None, d))\<rparr>"

theorem one_terminal_event_witness:
  "(\<exists>st. run_decoder demo_decoder_env (decoder_new None (Some ()) None)
        [Delta ''a'', Finish ''stop'', Delta ''b'', Finish ''stop''] = ([TextDelta ''a'', Finished Stop], st)
     \<and> finished st)"
proof -
  let ?xs = "[Delta ''a'', Finish ''stop'', Delta ''b'', Finish ''stop'']"
  obtain evs st where r: "run_decoder demo_decoder_env (decoder_new None (Some ()) None) ?xs = (evs, st)"
    by fastforce
  then have "evs = [TextDelta ''a'', Finished Stop]"
    by (simp add: decoder_new_def demo_decoder_env_def push_text_delta_def decoder_finish_def push_native_def
        route_event_def settle_delta_def finish_native_def finish_tool_def terminal_event_def
        record_tool_calls_def from_generation_def Let_def)
  moreover have "tool_env_ok demo_decoder_env"
    by (simp add: tool_env_ok_def demo_decoder_env_def)
  from one_terminal_event [OF this r] have "finished st" by auto
  ultimately show ?thesis using r by blast
qed

section \<open>From deltas to the collected answer\<close>

definition on_channel :: "channel_state \<Rightarrow> (channel_state \<times> char) list \<Rightarrow> str" where
  "on_channel c xs = List.map snd (filter (\<lambda>x. fst x = c) xs)"

lemma on_channel_simps [simp]:
  "on_channel c [] = []" "on_channel c (xs @ ys) = on_channel c xs @ on_channel c ys"
  "on_channel c (List.map (Pair d) s) = (if c = d then s else [])"
  by (auto simp: on_channel_def filter_map comp_def)

lemma collect_plain:
  "\<forall>e \<in> set evs. is_plain e \<Longrightarrow> collected_push c evs =
    (Inr (), c\<lparr>col_text := col_text c @ on_channel TextChannel (stream evs),
               col_reasoning := col_reasoning c @ on_channel ReasoningChannel (stream evs)\<rparr>)"
proof (induction evs arbitrary: c)
  case (Cons e evs)
  then show ?case by (cases e) simp_all
qed simp

lemma route_without_tool:
  "tool_parser_of st = None \<Longrightarrow> route_native_events env es st = (Inr es, st)"
  by (induction es) (simp_all add: route_event_def split: generated_output_event.split)

lemma plain_no_call: "\<forall>e \<in> set evs. is_plain e \<Longrightarrow> \<not> list_ex is_tool_call evs"
  by (auto simp: list_ex_iff) (metis is_plain.simps(5) is_tool_call.elims(2))

definition text_mode :: "native_parser \<Rightarrow> ('t, 'd) output_decoder \<Rightarrow> bool" where
  "text_mode p st \<longleftrightarrow> native_parser_of st = Some p \<and> tool_parser_of st = None \<and> \<not> finished st
     \<and> \<not> saw_tool_call st"

lemma push_text_mode:
  assumes "text_mode p st" and "d \<noteq> []" and "native_push p d = (Inr evs, p')"
  shows "\<exists>st'. push_text_delta env d st = (Inr evs, st') \<and> text_mode p' st'"
proof -
  have "\<not> list_ex is_tool_call evs" using native_push_plain [OF assms(3)] by (intro plain_no_call) blast
  with assms show ?thesis
    by (simp add: push_text_delta_def push_native_def route_without_tool settle_delta_def text_mode_def
        record_tool_calls_def is_tool_call_case)
qed

lemma run_text_mode:
  "text_mode p st \<Longrightarrow> [] \<notin> set chunks \<Longrightarrow> push_all p chunks = (Inr evs, p')
   \<Longrightarrow> \<exists>st'. run_decoder env st (List.map Delta chunks) = (evs, st') \<and> text_mode p' st'
       \<and> (\<forall>e \<in> set evs. is_plain e)"
proof (induction chunks arbitrary: p st evs)
  case (Cons d ds)
  from Cons.prems(3) obtain e1 p1 e2 where p: "native_push p d = (Inr e1, p1)"
    and r: "push_all p1 ds = (Inr e2, p')" and evs: "evs = e1 @ e2"
    by (auto split: prod.splits sum.splits)
  from push_text_mode [OF Cons.prems(1) _ p, of env] Cons.prems(2) obtain st1
    where s: "push_text_delta env d st = (Inr e1, st1)" "text_mode p1 st1" by auto
  from Cons.IH [OF s(2) _ r] Cons.prems(2) obtain st'
    where "run_decoder env st1 (List.map Delta ds) = (e2, st')" "text_mode p' st'" "\<forall>e \<in> set e2. is_plain e"
    by auto
  with s(1) evs native_push_plain [OF p] show ?case by auto
qed auto

lemma run_decoder_append:
  "run_decoder env st (xs @ ys) = (case run_decoder env st xs of (a, s) \<Rightarrow>
     (case run_decoder env s ys of (b, t) \<Rightarrow> (a @ b, t)))"
  by (induction xs arbitrary: st) (auto split: prod.split sum.split)

lemma finish_text_mode:
  assumes "text_mode p st" and "native_finish p r = Inr evs" and "from_generation r False = Some f"
  shows "\<exists>st'. decoder_finish env r st = (Inr (evs @ [Finished f]), st')"
proof -
  have "\<not> list_ex is_tool_call evs" using native_finish_plain [OF assms(2)] by (intro plain_no_call) blast
  with assms show ?thesis
    by (simp add: decoder_finish_def finish_native_def finish_tool_def route_without_tool text_mode_def
        terminal_event_def record_tool_calls_def is_tool_call_case Let_def)
qed

lemma decode_chunks_collected:
  assumes "decode_chunks d enabled chunks r = Inr evs" and "[] \<notin> set chunks"
    and "from_generation r False = Some f"
  shows "\<exists>st. run_decoder env (decoder_new None None (Some (d, enabled)))
      (List.map Delta chunks @ [Finish r]) = (evs @ [Finished f], st)
    \<and> collected_push collected_empty (evs @ [Finished f]) =
        (Inr (), collected_empty\<lparr>col_text := on_channel TextChannel (stream evs),
           col_reasoning := on_channel ReasoningChannel (stream evs), col_finish_reason := Some f\<rparr>)"
proof -
  let ?p = "parser_new d enabled"
  from assms(1) obtain e1 p' e2 where p: "push_all ?p chunks = (Inr e1, p')"
    and f: "native_finish p' r = Inr e2" and evs: "evs = e1 @ e2"
    by (auto simp: decode_chunks_def split: prod.splits sum.splits)
  have "text_mode ?p (decoder_new None None (Some (d, enabled)) :: ('a, 'b) output_decoder)"
    by (simp add: text_mode_def decoder_new_def)
  from run_text_mode [OF this assms(2) p, of env] obtain st1
    where r: "run_decoder env (decoder_new None None (Some (d, enabled))) (List.map Delta chunks) = (e1, st1)"
      "text_mode p' st1" "\<forall>e \<in> set e1. is_plain e" by blast
  from finish_text_mode [OF r(2) f assms(3), of env] obtain st
    where "decoder_finish env r st1 = (Inr (e2 @ [Finished f]), st)" by blast
  with r(1) have run: "run_decoder env (decoder_new None None (Some (d, enabled)))
      (List.map Delta chunks @ [Finish r]) = (evs @ [Finished f], st)"
    by (simp add: run_decoder_append evs)
  have "\<forall>e \<in> set evs. is_plain e" using r(3) native_finish_plain [OF f] evs by auto
  then have "collected_push collected_empty (evs @ [Finished f]) =
        (Inr (), collected_empty\<lparr>col_text := on_channel TextChannel (stream evs),
           col_reasoning := on_channel ReasoningChannel (stream evs), col_finish_reason := Some f\<rparr>)"
    by (simp add: collected_push_append collect_plain collected_empty_def)
  with run show ?thesis by blast
qed

text \<open>
  End to end. An answer made of text and \<open><think>\<close> sections, streamed through the decoder in any
  non-empty deltas and then collected, yields exactly the visible text, exactly the reasoning text
  and the finish reason of the generation, with no collector error; a protocol that can only carry
  text accepts it exactly when there was no reasoning.
\<close>

theorem collected_answer_exact:
  assumes "d \<notin> {Glm, Gemma}" and "\<forall>c \<in> set chunks. c \<noteq> [] \<and> length c + 7 \<le> MAX_PENDING_BYTES"
    and "\<not> str_contains t THINK_OPEN" and "marker_free segs" and "concat chunks = t @ rendered segs"
    and "from_generation reason False = Some f"
  shows "\<exists>evs st c. run_decoder env (decoder_new None None (Some (d, False)))
        (List.map Delta chunks @ [Finish reason]) = (evs, st)
    \<and> collected_push collected_empty evs = (Inr (), c)
    \<and> col_text c = t @ concat (List.map (\<lambda>(r, t). trim_newlines t) segs)
    \<and> col_reasoning c = concat (List.map (\<lambda>(r, t). trim_newlines r) segs)
    \<and> col_finish_reason c = Some f
    \<and> (ensure_text_and_tools_only c = Inr () \<longleftrightarrow> col_reasoning c = [])"
proof -
  have "map_sum id stream (decode_chunks d False chunks reason) =
      Inr (List.map (Pair TextChannel) t @ split_stream segs)"
    using chunks_irrelevant [OF assms(1), of chunks False reason]
      split_exact [OF assms(1,3) _ assms(4), of "[]" "concat chunks" False reason] assms(2,5)
    by (simp add: str_contains_def THINK_CLOSE_def)
  then obtain evs where d: "decode_chunks d False chunks reason = Inr evs"
    and s: "stream evs = List.map (Pair TextChannel) t @ split_stream segs"
    by (cases "decode_chunks d False chunks reason") auto
  have split: "on_channel TextChannel (split_stream segs) = concat (List.map (\<lambda>(r, t). trim_newlines t) segs)"
    "on_channel ReasoningChannel (split_stream segs) = concat (List.map (\<lambda>(r, t). trim_newlines r) segs)" for segs
    by (induction segs rule: split_stream.induct) auto
  have "[] \<notin> set chunks" using assms(2) by blast
  from decode_chunks_collected [OF d this assms(6), of env] obtain st
    where run: "run_decoder env (decoder_new None None (Some (d, False)))
        (List.map Delta chunks @ [Finish reason]) = (evs @ [Finished f], st)"
      and col: "collected_push collected_empty (evs @ [Finished f]) =
        (Inr (), collected_empty\<lparr>col_text := on_channel TextChannel (stream evs),
           col_reasoning := on_channel ReasoningChannel (stream evs), col_finish_reason := Some f\<rparr>)"
    by blast
  show ?thesis
    by (intro exI conjI, rule run, rule col)
      (simp_all add: s split ensure_text_and_tools_only_def collected_empty_def)
qed

theorem collected_answer_exact_witness:
  "(\<exists>evs st c. run_decoder demo_decoder_env (decoder_new None None (Some (Qwen35, False)))
        (List.map Delta demo_chunks @ [Finish ''stop'']) = (evs, st)
     \<and> collected_push collected_empty evs = (Inr (), c)
     \<and> col_text c = ''cd'' \<and> col_reasoning c = ''a<b'' \<and> col_finish_reason c = Some Stop)"
proof -
  have "\<exists>evs st c. run_decoder demo_decoder_env (decoder_new None None (Some (Qwen35, False)))
        (List.map Delta demo_chunks @ [Finish ''stop'']) = (evs, st)
    \<and> collected_push collected_empty evs = (Inr (), c)
    \<and> col_text c = [] @ concat (List.map (\<lambda>(r, t). trim_newlines t) [(''a<b'', ''cd'')])
    \<and> col_reasoning c = concat (List.map (\<lambda>(r, t). trim_newlines r) [(''a<b'', ''cd'')])
    \<and> col_finish_reason c = Some Stop
    \<and> (ensure_text_and_tools_only c = Inr () \<longleftrightarrow> col_reasoning c = [])"
    by (rule collected_answer_exact)
      (simp_all add: demo_chunks_def MAX_PENDING_BYTES_def marker_free_def str_contains_def
        THINK_OPEN_def THINK_CLOSE_def from_generation_def)
  then show ?thesis by (simp add: trim_newlines_def) blast
qed

end
