(* ===== verification/ToolPromptCache.thy ===== *)
theory ToolPromptCache
  imports Prelude "HOL-Library.Multiset" "HOL-Library.Sublist"
begin

text \<open>
  \<open>ironmlx/src/core/tool_prompt_cache.rs\<close>: the bounded cache of rendered and tokenized tool prompts.

  Byte strings are lists of octets, a prompt is the list of its UTF-8 bytes; SHA-256 is the
  parameter \<open>sha\<close>. The mutex is released inside \<open>lookup_after_render\<close>, so that operation is three
  pieces (\<open>lookup_begin\<close>, \<open>select_prefix\<close>, \<open>lookup_settle\<close>) between which others may run.
  \<open>None\<close> as a match is the panic of the slice \<open>token_ids[..token_count]\<close>.
\<close>

type_synonym bytes = "8 word list"

definition MAX_ENTRIES :: nat where "MAX_ENTRIES = 64"
definition MAX_BYTES :: nat where "MAX_BYTES = 16 * 1024 * 1024"

record tool_cache_stats =
  exact_hits :: nat
  prefix_hits :: nat
  misses :: nat
  evictions :: nat
  reused_tokens :: nat
  stat_entries :: nat
  stat_bytes :: nat

record safe_boundary =
  byte_offset :: nat
  token_count :: nat

record prefix_match =
  pm_byte_offset :: nat
  pm_token_ids :: "32 word list"
  pm_boundaries :: "safe_boundary list"

datatype cache_match = Exact "32 word list" | Prefix prefix_match | Miss

text \<open>The lookup key borrows and the insert key owns the same five fields.\<close>

record cache_key =
  key_namespace :: bytes
  key_messages :: bytes
  key_kwargs :: bytes
  key_message_digest :: bytes
  key_kwargs_digest :: bytes

definition key_new :: "(bytes \<Rightarrow> bytes) \<Rightarrow> bytes \<Rightarrow> bytes \<Rightarrow> bytes \<Rightarrow> cache_key" where
  "key_new sha ns messages kwargs =
     \<lparr>key_namespace = ns, key_messages = messages, key_kwargs = kwargs,
      key_message_digest = sha messages, key_kwargs_digest = sha kwargs\<rparr>"

record cache_entry =
  entry_id :: nat
  entry_key :: cache_key
  entry_prompt :: bytes
  entry_tokens :: "32 word list"
  entry_boundaries :: "safe_boundary list"
  last_used :: nat
  charge :: nat

definition exact_key_matches :: "cache_entry \<Rightarrow> cache_key \<Rightarrow> bool" where
  "exact_key_matches e k \<longleftrightarrow>
     key_namespace (entry_key e) = key_namespace k
     \<and> key_message_digest (entry_key e) = key_message_digest k
     \<and> key_kwargs_digest (entry_key e) = key_kwargs_digest k
     \<and> key_messages (entry_key e) = key_messages k
     \<and> key_kwargs (entry_key e) = key_kwargs k"

definition bucket_matches :: "cache_entry \<Rightarrow> cache_key \<Rightarrow> bool" where
  "bucket_matches e k \<longleftrightarrow>
     key_namespace (entry_key e) = key_namespace k
     \<and> key_kwargs_digest (entry_key e) = key_kwargs_digest k
     \<and> key_kwargs (entry_key e) = key_kwargs k"

record cache_state =
  entries :: "cache_entry list"
  clock :: nat
  next_id :: nat
  cache_bytes :: nat
  cache_stats :: tool_cache_stats

record cache_config =
  max_entries :: nat
  max_bytes :: nat

definition cache_empty :: cache_state where
  "cache_empty = \<lparr>entries = [], clock = 0, next_id = 0, cache_bytes = 0,
     cache_stats = \<lparr>exact_hits = 0, prefix_hits = 0, misses = 0, evictions = 0, reused_tokens = 0,
       stat_entries = 0, stat_bytes = 0\<rparr>\<rparr>"

definition cache_default :: cache_config where
  "cache_default = \<lparr>max_entries = MAX_ENTRIES, max_bytes = MAX_BYTES\<rparr>"

section \<open>Iterator helpers of the standard library\<close>

fun position :: "('a \<Rightarrow> bool) \<Rightarrow> 'a list \<Rightarrow> nat option" where
  "position P [] = None"
| "position P (x # xs) = (if P x then Some 0 else map_option Suc (position P xs))"

text \<open>\<open>min_by_key\<close> returns the first of several minima, \<open>max_by_key\<close> the last of several maxima.\<close>

fun first_min :: "nat list \<Rightarrow> nat option" where
  "first_min [] = None"
| "first_min (x # xs) =
     (case first_min xs of None \<Rightarrow> Some 0 | Some i \<Rightarrow> if xs ! i < x then Some (Suc i) else Some 0)"

fun last_max :: "('a \<Rightarrow> nat) \<Rightarrow> 'a list \<Rightarrow> 'a option" where
  "last_max f [] = None"
| "last_max f (x # xs) =
     (case last_max f xs of None \<Rightarrow> Some x | Some y \<Rightarrow> if f x \<le> f y then Some y else Some x)"

definition swap_remove :: "'a list \<Rightarrow> nat \<Rightarrow> 'a list" where
  "swap_remove xs i = butlast (xs[i := last xs])"

section \<open>The common prefix of two prompts\<close>

definition len_utf8 :: "8 word \<Rightarrow> nat" where
  "len_utf8 lead = (if lead < 0x80 then 1 else if lead < 0xE0 then 2 else if lead < 0xF0 then 3 else 4)"

fun utf8_chars :: "bytes \<Rightarrow> bytes list" where
  "utf8_chars [] = []"
| "utf8_chars (c # cs) = (c # take (len_utf8 c - 1) cs) # utf8_chars (drop (len_utf8 c - 1) cs)"

fun common_prefix_scan :: "nat \<Rightarrow> nat \<Rightarrow> nat \<Rightarrow> bytes list \<Rightarrow> bytes list \<Rightarrow> nat" where
  "common_prefix_scan limit offset n (l # ls) (r # rs) =
     (if offset \<ge> limit \<or> l \<noteq> r then n
      else common_prefix_scan limit (offset + length l) (offset + length l) ls rs)"
| "common_prefix_scan limit offset n _ _ = n"

definition common_prefix_len :: "bytes \<Rightarrow> bytes \<Rightarrow> nat" where
  "common_prefix_len left right =
     common_prefix_scan (min (length left) (length right)) 0 0 (utf8_chars left) (utf8_chars right)"

section \<open>Operations\<close>

definition touch :: "nat \<Rightarrow> cache_state \<Rightarrow> cache_state" where
  "touch i st =
     (let c = wrap_add (clock st) 1 in
      st\<lparr>clock := c, entries := (entries st)[i := (entries st ! i)\<lparr>last_used := c\<rparr>]\<rparr>)"

definition count_exact_hit :: "cache_state \<Rightarrow> cache_state" where
  "count_exact_hit st = st\<lparr>cache_stats := (cache_stats st)\<lparr>exact_hits := sat_add (exact_hits (cache_stats st)) 1\<rparr>\<rparr>"

definition lookup_exact :: "cache_key \<Rightarrow> cache_state \<Rightarrow> 32 word list option \<times> cache_state" where
  "lookup_exact k st =
     (case position (\<lambda>e. exact_key_matches e k) (entries st) of
        None \<Rightarrow> (None, st)
      | Some i \<Rightarrow> (Some (entry_tokens (entries st ! i)), count_exact_hit (touch i st)))"

text \<open>First critical section: an exact hit, or a snapshot of the bucket.\<close>

definition lookup_begin ::
  "cache_key \<Rightarrow> cache_state \<Rightarrow> (32 word list + cache_entry list) \<times> cache_state" where
  "lookup_begin k st =
     (case lookup_exact k st of
        (Some tokens, st') \<Rightarrow> (Inl tokens, st')
      | (None, st') \<Rightarrow> (Inr (filter (\<lambda>e. bucket_matches e k) (entries st')), st'))"

text \<open>Without the lock: the candidate whose last boundary inside the common prefix reaches furthest.\<close>

definition candidate_boundary :: "bytes \<Rightarrow> cache_entry \<Rightarrow> (cache_entry \<times> safe_boundary) option" where
  "candidate_boundary prompt e =
     (let common = common_prefix_len (entry_prompt e) prompt in
      map_option (\<lambda>b. (e, b)) (find (\<lambda>b. byte_offset b \<le> common) (rev (entry_boundaries e))))"

definition select_prefix :: "bytes \<Rightarrow> cache_entry list \<Rightarrow> (cache_entry \<times> safe_boundary) option" where
  "select_prefix prompt candidates =
     last_max (\<lambda>(e, b). byte_offset b) (List.map_filter (candidate_boundary prompt) candidates)"

text \<open>Last critical section.\<close>

definition lookup_settle ::
  "(cache_entry \<times> safe_boundary) option \<Rightarrow> cache_state \<Rightarrow> cache_match option \<times> cache_state" where
  "lookup_settle best st =
     (case best of
        None \<Rightarrow> (Some Miss, st\<lparr>cache_stats := (cache_stats st)\<lparr>misses := sat_add (misses (cache_stats st)) 1\<rparr>\<rparr>)
      | Some (e, b) \<Rightarrow>
          if token_count b > length (entry_tokens e) then (None, st)
          else
            (let c = wrap_add (clock st) 1;
                 st1 = (case position (\<lambda>x. entry_id x = entry_id e) (entries st) of
                          None \<Rightarrow> st\<lparr>clock := c\<rparr>
                        | Some i \<Rightarrow> touch i st)
             in (Some (Prefix \<lparr>pm_byte_offset = byte_offset b,
                   pm_token_ids = take (token_count b) (entry_tokens e),
                   pm_boundaries = takeWhile (\<lambda>x. byte_offset x \<le> byte_offset b) (entry_boundaries e)\<rparr>),
                 st1\<lparr>cache_stats := (cache_stats st1)\<lparr>
                   prefix_hits := sat_add (prefix_hits (cache_stats st1)) 1,
                   reused_tokens := sat_add (reused_tokens (cache_stats st1)) (token_count b)\<rparr>\<rparr>)))"

definition lookup_after_render ::
  "cache_key \<Rightarrow> bytes \<Rightarrow> cache_state \<Rightarrow> cache_match option \<times> cache_state" where
  "lookup_after_render k prompt st =
     (case lookup_begin k st of
        (Inl tokens, st') \<Rightarrow> (Some (Exact tokens), st')
      | (Inr candidates, st') \<Rightarrow> lookup_settle (select_prefix prompt candidates) st')"

definition entry_charge ::
  "cache_key \<Rightarrow> bytes \<Rightarrow> 32 word list \<Rightarrow> safe_boundary list \<Rightarrow> nat" where
  "entry_charge k prompt tokens boundaries =
     sat_add (sat_add (sat_add (sat_add (sat_add (length (key_namespace k)) (length (key_messages k)))
       (length (key_kwargs k))) (length prompt)) (sat_mul (length tokens) 4))
       (sat_mul (length boundaries) 16)"

definition evict_entry :: "nat \<Rightarrow> cache_state \<Rightarrow> cache_state" where
  "evict_entry i st =
     st\<lparr>entries := swap_remove (entries st) i, cache_bytes := cache_bytes st - charge (entries st ! i),
        cache_stats := (cache_stats st)\<lparr>evictions := sat_add (evictions (cache_stats st)) 1\<rparr>\<rparr>"

lemma evict_entry_entries [simp]: "entries (evict_entry i st) = swap_remove (entries st) i"
  by (simp add: evict_entry_def)

lemma first_min_bound: "first_min xs = Some i \<Longrightarrow> i < length xs"
  by (induction xs arbitrary: i) (auto split: option.splits if_splits)

lemma swap_remove_length [simp]: "length (swap_remove xs i) = length xs - 1"
  by (simp add: swap_remove_def)

function make_room :: "cache_config \<Rightarrow> nat \<Rightarrow> cache_state \<Rightarrow> cache_state" where
  "make_room cfg need st =
     (if length (entries st) \<ge> max_entries cfg \<or> sat_add (cache_bytes st) need > max_bytes cfg then
        (case first_min (List.map last_used (entries st)) of
           None \<Rightarrow> st
         | Some i \<Rightarrow> make_room cfg need (evict_entry i st))
      else st)"
  by pat_completeness auto
termination
  by (relation "measure (\<lambda>(cfg, need, st). length (entries st))")
    (auto simp: evict_entry_def dest: first_min_bound)

declare make_room.simps [simp del]

definition cache_insert ::
  "cache_config \<Rightarrow> cache_key \<Rightarrow> bytes \<Rightarrow> 32 word list \<Rightarrow> safe_boundary list \<Rightarrow> cache_state \<Rightarrow> cache_state" where
  "cache_insert cfg k prompt tokens boundaries st =
     (if list_ex (\<lambda>e. exact_key_matches e k) (entries st) then st
      else
        (let st = st\<lparr>clock := wrap_add (clock st) 1, next_id := wrap_add (next_id st) 1\<rparr>;
             e = \<lparr>entry_id = next_id st, entry_key = k, entry_prompt = prompt, entry_tokens = tokens,
                  entry_boundaries = boundaries, last_used = clock st,
                  charge = entry_charge k prompt tokens boundaries\<rparr>
         in if max_entries cfg = 0 \<or> charge e > max_bytes cfg then st
            else
              (let st = make_room cfg (charge e) st
               in st\<lparr>cache_bytes := sat_add (cache_bytes st) (charge e), entries := entries st @ [e]\<rparr>)))"

definition cache_stats_of :: "cache_state \<Rightarrow> tool_cache_stats" where
  "cache_stats_of st = (cache_stats st)\<lparr>stat_entries := length (entries st), stat_bytes := cache_bytes st\<rparr>"

section \<open>Helpers\<close>

lemma position_Some: "position P xs = Some i \<Longrightarrow> i < length xs \<and> P (xs ! i)"
  by (induction xs arbitrary: i) (auto split: if_splits)

lemma position_None: "position P xs = None \<longleftrightarrow> \<not> list_ex P xs"
  by (induction xs) auto

lemma first_min_None [simp]: "first_min xs = None \<longleftrightarrow> xs = []"
  by (cases xs) (auto split: option.split)

lemma last_max_None [simp]: "last_max f xs = None \<longleftrightarrow> xs = []"
  by (cases xs) (auto split: option.split)

lemma first_min_le: "first_min xs = Some i \<Longrightarrow> x \<in> set xs \<Longrightarrow> xs ! i \<le> x"
proof (induction xs arbitrary: i)
  case (Cons a xs)
  show ?case
  proof (cases "first_min xs")
    case None
    with Cons.prems show ?thesis by auto
  next
    case (Some j)
    with Cons.prems Cons.IH [OF Some] show ?thesis
      by (cases "x \<in> set xs") (auto split: if_splits)
  qed
qed simp

lemma last_max_in: "last_max f xs = Some x \<Longrightarrow> x \<in> set xs"
  by (induction xs arbitrary: x) (auto split: option.splits if_splits)

lemma last_max_le: "last_max f xs = Some x \<Longrightarrow> y \<in> set xs \<Longrightarrow> f y \<le> f x"
proof (induction xs arbitrary: x)
  case (Cons a xs)
  then show ?case by (cases "last_max f xs") (auto split: if_splits intro: le_trans)
qed simp

lemma mset_swap_remove:
  assumes "i < length xs"
  shows "mset (swap_remove xs i) = mset xs - {#xs ! i#}"
proof -
  let ?ys = "xs[i := last xs]"
  have ne: "xs \<noteq> []" "?ys \<noteq> []" using assms by auto
  have l: "last ?ys = last xs"
    using assms ne by (cases "i = length xs - 1") (auto simp: last_conv_nth nth_list_update)
  have "mset (butlast ?ys @ [last ?ys]) = mset ?ys" using ne by simp
  then have "add_mset (last xs) (mset (swap_remove xs i)) = mset ?ys"
    by (simp add: swap_remove_def l)
  moreover have "mset ?ys = add_mset (last xs) (mset xs - {#xs ! i#})"
    using assms by (simp add: mset_update)
  ultimately show ?thesis by simp
qed

section \<open>Common prefix\<close>

lemma concat_utf8 [simp]: "concat (utf8_chars s) = s"
  by (induction s rule: utf8_chars.induct) auto

lemma utf8_char_ne: "c \<in> set (utf8_chars s) \<Longrightarrow> c \<noteq> []"
  by (induction s rule: utf8_chars.induct) auto

lemma common_scan:
  assumes "\<forall>c \<in> set ls \<union> set rs. c \<noteq> []"
    and "limit = offset + min (length (concat ls)) (length (concat rs))"
  shows "common_prefix_scan limit offset offset ls rs
    = offset + length (concat (longest_common_prefix ls rs))"
  using assms
proof (induction ls rs arbitrary: offset rule: longest_common_prefix.induct)
  case (1 l ls r rs)
  show ?case
  proof (cases "l = r")
    case True
    have ne: "l \<noteq> []" using "1.prems"(1) by auto
    then have "\<not> offset \<ge> limit" using "1.prems"(2) True by auto
    moreover have "limit = offset + length l + min (length (concat ls)) (length (concat rs))"
      using "1.prems"(2) True by (simp add: min_def)
    moreover have "\<forall>c \<in> set ls \<union> set rs. c \<noteq> []" using "1.prems"(1) by auto
    ultimately show ?thesis using "1.IH" [OF True] True ne by simp
  qed simp
qed auto

lemma common_prefix_len_eq:
  "common_prefix_len l r = length (concat (longest_common_prefix (utf8_chars l) (utf8_chars r)))"
  unfolding common_prefix_len_def
  using common_scan [of "utf8_chars l" "utf8_chars r" "min (length l) (length r)" 0] utf8_char_ne by fastforce

lemma common_prefix_take:
  "common_prefix_len l r \<le> length l" "common_prefix_len l r \<le> length r"
  "n \<le> common_prefix_len l r \<Longrightarrow> take n l = take n r"
proof -
  let ?c = "longest_common_prefix (utf8_chars l) (utf8_chars r)"
  obtain a b where a: "utf8_chars l = ?c @ a" and b: "utf8_chars r = ?c @ b"
    using longest_common_prefix_prefix1 longest_common_prefix_prefix2 by (metis prefixE)
  have l: "l = concat ?c @ concat a" using arg_cong [OF a, of concat] by simp
  have r: "r = concat ?c @ concat b" using arg_cong [OF b, of concat] by simp
  have n: "common_prefix_len l r = length (concat ?c)" by (rule common_prefix_len_eq)
  show "common_prefix_len l r \<le> length l" using n l by (metis le_add1 length_append)
  show "common_prefix_len l r \<le> length r" using n r by (metis le_add1 length_append)
  show "n \<le> common_prefix_len l r \<Longrightarrow> take n l = take n r"
    using n l r by (metis take_append take_all_iff diff_is_0_eq take_0 append_Nil2)
qed

section \<open>Bounds\<close>

lemma exact_key_iff: "exact_key_matches e k \<longleftrightarrow> entry_key e = k"
  by (cases "entry_key e"; cases k) (auto simp: exact_key_matches_def)

definition cache_inv :: "cache_config \<Rightarrow> cache_state \<Rightarrow> bool" where
  "cache_inv cfg st \<longleftrightarrow>
     length (entries st) \<le> max_entries cfg
     \<and> cache_bytes st = sum_list (List.map charge (entries st))
     \<and> cache_bytes st \<le> max_bytes cfg
     \<and> distinct (List.map entry_key (entries st))"

datatype cache_op =
    OpLookup cache_key
  | OpBegin cache_key
  | OpSettle "(cache_entry \<times> safe_boundary) option"
  | OpInsert cache_key bytes "32 word list" "safe_boundary list"

fun cache_step :: "cache_config \<Rightarrow> cache_state \<Rightarrow> cache_op \<Rightarrow> cache_state" where
  "cache_step cfg st (OpLookup k) = snd (lookup_exact k st)"
| "cache_step cfg st (OpBegin k) = snd (lookup_begin k st)"
| "cache_step cfg st (OpSettle best) = snd (lookup_settle best st)"
| "cache_step cfg st (OpInsert k p t b) = cache_insert cfg k p t b st"

lemma cache_inv_stats [simp]:
  "cache_inv cfg (st\<lparr>cache_stats := s\<rparr>) = cache_inv cfg st"
  "cache_inv cfg (st\<lparr>clock := c\<rparr>) = cache_inv cfg st"
  "cache_inv cfg (st\<lparr>next_id := c\<rparr>) = cache_inv cfg st"
  by (simp_all add: cache_inv_def)

lemma map_touch:
  assumes "i < length xs" and "f ((xs ! i)\<lparr>last_used := c\<rparr>) = f (xs ! i)"
  shows "List.map f (xs[i := (xs ! i)\<lparr>last_used := c\<rparr>]) = List.map f xs"
  using assms by (metis list_update_id map_update nth_map)

lemma touch_inv [inv_intros]:
  "cache_inv cfg st \<Longrightarrow> i < length (entries st) \<Longrightarrow> cache_inv cfg (touch i st)"
  by (simp add: touch_def Let_def cache_inv_def map_touch)

lemma lookup_exact_inv [inv_intros]: "cache_inv cfg st \<Longrightarrow> cache_inv cfg (snd (lookup_exact k st))"
  by (auto simp: lookup_exact_def count_exact_hit_def split: option.split
      intro: touch_inv dest: position_Some)

lemma lookup_begin_inv [inv_intros]: "cache_inv cfg st \<Longrightarrow> cache_inv cfg (snd (lookup_begin k st))"
  using lookup_exact_inv [of cfg st k] by (auto simp: lookup_begin_def split: prod.split option.split)

lemma lookup_settle_inv [inv_intros]: "cache_inv cfg st \<Longrightarrow> cache_inv cfg (snd (lookup_settle b st))"
  by (auto simp: lookup_settle_def Let_def split: option.split prod.split
      intro: touch_inv dest: position_Some)

lemma distinct_submset:
  assumes "mset ys \<subseteq># mset xs" and "distinct xs"
  shows "distinct ys"
proof -
  obtain zs where "mset xs = mset ys + mset zs"
    using assms(1) ex_mset by (metis subset_mset.add_diff_inverse)
  then have "mset xs = mset (ys @ zs)" by simp
  with assms(2) have "distinct (ys @ zs)" using mset_eq_imp_distinct_iff by blast
  then show ?thesis by simp
qed

lemma evict_entry_inv:
  assumes "cache_inv cfg st" and "i < length (entries st)"
  shows "cache_inv cfg (evict_entry i st)"
proof -
  let ?es = "entries st"
  have m: "mset (swap_remove ?es i) = mset ?es - {#?es ! i#}" by (rule mset_swap_remove [OF assms(2)])
  have mem: "?es ! i \<in># mset ?es" using assms(2) by simp
  have sum: "sum_list (List.map charge (swap_remove ?es i)) + charge (?es ! i) = sum_list (List.map charge ?es)"
  proof -
    have "sum_mset (image_mset charge (mset ?es)) =
        sum_mset (image_mset charge (mset (swap_remove ?es i))) + charge (?es ! i)"
      unfolding m using mem by (metis add_mset_add_single image_mset_add_mset insert_DiffM sum_mset.add_mset add.commute)
    then show ?thesis by (simp only: mset_map [symmetric] sum_mset_sum_list)
  qed
  have "mset (List.map entry_key (swap_remove ?es i)) \<subseteq># mset (List.map entry_key ?es)"
    by (simp add: m image_mset_subseteq_mono)
  then have "distinct (List.map entry_key (swap_remove ?es i))"
    using distinct_submset assms(1) unfolding cache_inv_def by blast
  moreover have "sum_list (List.map charge ?es) - charge (?es ! i)
      = sum_list (List.map charge (swap_remove ?es i))"
    using sum by linarith
  ultimately show ?thesis
    using assms sum by (auto simp: cache_inv_def evict_entry_def intro: le_trans [OF diff_le_self])
qed

text \<open>
  Making room: the invariant survives, the loop ends with space for the new entry, and only the
  least recently used entries are gone.
\<close>

lemma make_room_spec:
  assumes "cache_inv cfg st" and "0 < max_entries cfg" and "need \<le> max_bytes cfg" and "max_bytes cfg < u64_max"
  shows "cache_inv cfg (make_room cfg need st)
    \<and> length (entries (make_room cfg need st)) < max_entries cfg
    \<and> cache_bytes (make_room cfg need st) + need \<le> max_bytes cfg"
  using assms
proof (induction cfg need st rule: make_room.induct)
  case (1 cfg need st)
  show ?case
  proof (cases "length (entries st) \<ge> max_entries cfg \<or> sat_add (cache_bytes st) need > max_bytes cfg")
    case True
    show ?thesis
    proof (cases "entries st")
      case Nil
      with 1(2-5) have "cache_bytes st = 0" by (simp add: cache_inv_def)
      with True Nil 1(2-5) show ?thesis by (simp add: sat_add_def)
    next
      case (Cons e es)
      then obtain i where i: "first_min (List.map last_used (entries st)) = Some i"
        by (metis first_min_None list.distinct(1) map_is_Nil_conv not_None_eq)
      have "cache_inv cfg (evict_entry i st)"
        using evict_entry_inv [OF 1(2)] first_min_bound [OF i] by simp
      from 1(1) [OF True i this 1(3-5)] show ?thesis
        using True i by (simp add: make_room.simps [of cfg need st])
    qed
  next
    case False
    then have "cache_bytes st + need \<le> max_bytes cfg" using 1(5) by (simp add: sat_add_def min_def split: if_splits)
    with False 1(2) show ?thesis by (simp add: make_room.simps [of cfg need st])
  qed
qed

lemma make_room_subset: "set (entries (make_room cfg need st)) \<subseteq> set (entries st)"
proof (induction cfg need st rule: make_room.induct)
  case (1 cfg need st)
  show ?case
  proof (cases "first_min (List.map last_used (entries st))")
    case (Some i)
    have "set (swap_remove (entries st) i) \<subseteq> set (entries st)"
      using mset_swap_remove first_min_bound [OF Some]
      by (metis in_diffD length_map set_mset_mset subsetI)
    with 1 Some show ?thesis
      by (subst make_room.simps) (auto simp: evict_entry_def)
  qed (auto simp: make_room.simps [of cfg need st])
qed

lemma cache_insert_inv [inv_intros]:
  assumes "cache_inv cfg st" and "max_bytes cfg < u64_max"
  shows "cache_inv cfg (cache_insert cfg k p t b st)"
proof -
  let ?c = "entry_charge k p t b"
  let ?st = "st\<lparr>clock := wrap_add (clock st) 1, next_id := wrap_add (next_id st) 1\<rparr>"
  show ?thesis
  proof (cases "list_ex (\<lambda>e. exact_key_matches e k) (entries st) \<or> max_entries cfg = 0 \<or> ?c > max_bytes cfg")
    case False
    then have spec: "cache_inv cfg (make_room cfg ?c ?st)"
        "length (entries (make_room cfg ?c ?st)) < max_entries cfg"
        "cache_bytes (make_room cfg ?c ?st) + ?c \<le> max_bytes cfg"
      using make_room_spec [of cfg ?st ?c] assms by auto
    moreover have "k \<notin> entry_key ` set (entries (make_room cfg ?c ?st))"
      using False make_room_subset [of cfg ?c ?st] by (auto simp: list_ex_iff exact_key_iff)
    ultimately show ?thesis
      using False assms(2)
      by (auto simp: cache_insert_def Let_def cache_inv_def sat_add_def)
  qed (use assms in \<open>auto simp: cache_insert_def Let_def\<close>)
qed

lemma cache_step_inv:
  "cache_inv cfg st \<Longrightarrow> max_bytes cfg < u64_max \<Longrightarrow> cache_inv cfg (cache_step cfg st x)"
  by (cases x) (auto intro: inv_intros)

interpretation prompt_cache: invariant_machine "cache_step cfg" "\<lambda>_ _. max_bytes cfg < u64_max" "cache_inv cfg"
  for cfg by unfold_locales (rule cache_step_inv)

text \<open>
  The cache stays within its limits. However lookups (in their separate critical sections) and
  insertions of any number of threads interleave, the cache holds at most \<open>max_entries\<close> entries
  and at most \<open>max_bytes\<close>, its byte counter is the exact sum of the charges, no key is stored
  twice, and the reported statistics are these numbers.
\<close>

theorem prompt_cache_bounded:
  assumes "max_bytes cfg < u64_max" and "st = run_ops (cache_step cfg) cache_empty xs"
  shows "length (entries st) \<le> max_entries cfg
    \<and> sum_list (List.map charge (entries st)) \<le> max_bytes cfg
    \<and> distinct (List.map entry_key (entries st))
    \<and> stat_entries (cache_stats_of st) = length (entries st)
    \<and> stat_bytes (cache_stats_of st) = sum_list (List.map charge (entries st))"
proof -
  have "run_ok (cache_step cfg) (\<lambda>_ _. max_bytes cfg < u64_max) s xs" for s
    using assms(1) by (induction xs arbitrary: s) auto
  then have "cache_inv cfg st"
    unfolding assms(2) by (intro prompt_cache.run_inv) (simp_all add: cache_inv_def cache_empty_def)
  then show ?thesis by (simp add: cache_inv_def cache_stats_of_def)
qed

definition demo_key :: "nat \<Rightarrow> cache_key" where
  "demo_key n = key_new id [1] [of_nat n] [2]"

definition demo_insert :: "nat \<Rightarrow> cache_op" where
  "demo_insert n = OpInsert (demo_key n) [97, 98, of_nat n] [7, 8]
     [\<lparr>byte_offset = 2, token_count = 1\<rparr>]"

theorem prompt_cache_bounded_witness:
  "(let st = run_ops (cache_step \<lparr>max_entries = 2, max_bytes = 100\<rparr>) cache_empty
        [demo_insert 1, demo_insert 2, OpLookup (demo_key 1), demo_insert 3]
    in List.map entry_key (entries st) = [demo_key 1, demo_key 3] \<and> length (entries st) \<le> 2)"
proof -
  let ?cfg = "\<lparr>max_entries = 2, max_bytes = 100\<rparr>"
  let ?st = "run_ops (cache_step ?cfg) cache_empty
        [demo_insert 1, demo_insert 2, OpLookup (demo_key 1), demo_insert 3]"
  have "List.map entry_key (entries ?st) = [demo_key 1, demo_key 3]"
    by (simp add: demo_insert_def demo_key_def key_new_def cache_insert_def lookup_exact_def
        count_exact_hit_def touch_def exact_key_matches_def entry_charge_def make_room.simps evict_entry_def
        swap_remove_def cache_empty_def wrap_add_def sat_add_def sat_mul_def u64_max_def Let_def)
  moreover have "length (entries ?st) \<le> 2"
    using prompt_cache_bounded [of ?cfg ?st, OF _ refl] by (simp add: u64_max_def)
  ultimately show ?thesis by (simp add: Let_def)
qed

section \<open>What a lookup returns\<close>

text \<open>An entry carries what some insertion of the history put under its key.\<close>

definition inserted :: "cache_op set \<Rightarrow> cache_entry \<Rightarrow> bool" where
  "inserted S e \<longleftrightarrow> OpInsert (entry_key e) (entry_prompt e) (entry_tokens e) (entry_boundaries e) \<in> S"

definition all_inserted :: "cache_op set \<Rightarrow> cache_state \<Rightarrow> bool" where
  "all_inserted S st \<longleftrightarrow> (\<forall>e \<in> set (entries st). inserted S e)"

lemma all_inserted_fields [simp]:
  "all_inserted S (st\<lparr>cache_stats := s\<rparr>) = all_inserted S st"
  "all_inserted S (st\<lparr>clock := c\<rparr>) = all_inserted S st"
  "all_inserted S (st\<lparr>next_id := n\<rparr>) = all_inserted S st"
  by (simp_all add: all_inserted_def)

lemma touch_inserted: "all_inserted S st \<Longrightarrow> i < length (entries st) \<Longrightarrow> all_inserted S (touch i st)"
  by (auto simp: touch_def Let_def all_inserted_def inserted_def dest!: set_update_subset_insert [THEN subsetD])

lemma lookup_exact_inserted: "all_inserted S st \<Longrightarrow> all_inserted S (snd (lookup_exact k st))"
  by (auto simp: lookup_exact_def count_exact_hit_def split: option.split
      intro: touch_inserted dest: position_Some)

lemma cache_insert_inserted:
  assumes "all_inserted S st" and "OpInsert k p t b \<in> S"
  shows "all_inserted S (cache_insert cfg k p t b st)"
proof -
  have "all_inserted S (make_room cfg n (st\<lparr>clock := c, next_id := d\<rparr>))" for n c d
    using make_room_subset [of cfg n "st\<lparr>clock := c, next_id := d\<rparr>"] assms(1)
    by (auto simp: all_inserted_def)
  with assms show ?thesis
    by (auto simp: cache_insert_def Let_def all_inserted_def inserted_def)
qed

lemma cache_step_inserted: "all_inserted S st \<Longrightarrow> x \<in> S \<Longrightarrow> all_inserted S (cache_step cfg st x)"
proof (cases x)
  case (OpBegin k)
  assume "all_inserted S st"
  then have "all_inserted S (snd (lookup_exact k st))" by (rule lookup_exact_inserted)
  then show "all_inserted S (cache_step cfg st x)"
    by (auto simp: OpBegin lookup_begin_def split: prod.split option.split)
next
  case (OpSettle best)
  assume "all_inserted S st"
  then show "all_inserted S (cache_step cfg st x)"
    by (auto simp: OpSettle lookup_settle_def Let_def split: option.split prod.split
        intro: touch_inserted dest: position_Some)
qed (auto intro: lookup_exact_inserted cache_insert_inserted)

lemma run_cache_inserted:
  "all_inserted S st \<Longrightarrow> set xs \<subseteq> S \<Longrightarrow> all_inserted S (run_ops (cache_step cfg) st xs)"
  by (induction xs arbitrary: st) (auto intro: cache_step_inserted)

lemma lookup_exact_result:
  "fst (lookup_exact k st) = Some t \<Longrightarrow> \<exists>e \<in> set (entries st). entry_key e = k \<and> entry_tokens e = t"
  by (auto simp: lookup_exact_def exact_key_iff split: option.splits dest!: position_Some)

lemma lookup_exact_none: "fst (lookup_exact k st) = None \<longleftrightarrow> k \<notin> entry_key ` set (entries st)"
  by (auto simp: lookup_exact_def exact_key_iff position_None list_ex_iff split: option.split
      dest: position_Some)

lemma insert_entries:
  "entries (cache_insert cfg k p t b st) =
     (if k \<in> entry_key ` set (entries st) \<or> max_entries cfg = 0 \<or> entry_charge k p t b > max_bytes cfg
      then entries st
      else entries (make_room cfg (entry_charge k p t b)
               (st\<lparr>clock := wrap_add (clock st) 1, next_id := wrap_add (next_id st) 1\<rparr>))
           @ [\<lparr>entry_id = wrap_add (next_id st) 1, entry_key = k, entry_prompt = p, entry_tokens = t,
               entry_boundaries = b, last_used = wrap_add (clock st) 1, charge = entry_charge k p t b\<rparr>])"
  by (auto simp: cache_insert_def Let_def list_ex_iff exact_key_iff)

text \<open>
  Lookups never confuse keys. Whatever the history, the token ids an exact lookup returns were
  inserted under exactly that namespace, message and argument triple (digest collisions included),
  and right after an insertion that fits the limits the key is found, with the inserted tokens if
  it was new.
\<close>

theorem prompt_cache_lookup_correct:
  assumes "st = run_ops (cache_step cfg) cache_empty xs"
  shows "(fst (lookup_exact k st) = Some t \<longrightarrow> (\<exists>p b. OpInsert k p t b \<in> set xs))
    \<and> (0 < max_entries cfg \<longrightarrow> entry_charge k' p t' b \<le> max_bytes cfg \<longrightarrow>
        (\<exists>u. fst (lookup_exact k' (cache_insert cfg k' p t' b st)) = Some u
           \<and> (fst (lookup_exact k' st) = None \<longrightarrow> u = t')))"
proof -
  have "all_inserted (set xs) st"
    unfolding assms by (rule run_cache_inserted) (simp_all add: all_inserted_def cache_empty_def)
  then have "fst (lookup_exact k st) = Some t \<longrightarrow> (\<exists>p b. OpInsert k p t b \<in> set xs)"
    by (auto simp: all_inserted_def inserted_def dest!: lookup_exact_result)
  moreover have "\<exists>u. fst (lookup_exact k' (cache_insert cfg k' p t' b st)) = Some u
           \<and> (fst (lookup_exact k' st) = None \<longrightarrow> u = t')"
    if c: "0 < max_entries cfg" "entry_charge k' p t' b \<le> max_bytes cfg"
  proof -
    let ?st' = "cache_insert cfg k' p t' b st"
    show ?thesis
    proof (cases "fst (lookup_exact k' st) = None")
      case False
      then have "?st' = st" by (auto simp: cache_insert_def list_ex_iff exact_key_iff lookup_exact_none)
      with False show ?thesis by auto
    next
      case True
      have old: "entry_key e \<noteq> k'"
        if "e \<in> set (entries (make_room cfg n (st\<lparr>clock := m, next_id := d\<rparr>)))" for e n m d
        using that make_room_subset [of cfg n "st\<lparr>clock := m, next_id := d\<rparr>"] True
        by (auto simp: lookup_exact_none)
      have keys: "k' \<in> entry_key ` set (entries ?st')"
        using True c by (simp add: insert_entries lookup_exact_none)
      have new: "entry_tokens e = t'" if e: "e \<in> set (entries ?st')" "entry_key e = k'" for e
      proof -
        let ?room = "make_room cfg (entry_charge k' p t' b)
            (st\<lparr>clock := wrap_add (clock st) 1, next_id := wrap_add (next_id st) 1\<rparr>)"
        have "e \<in> set (entries ?room) \<or> entry_tokens e = t'"
          using e(1) True c by (simp add: insert_entries lookup_exact_none) (metis cache_entry.select_convs(4))
        then show ?thesis using old e(2) by blast
      qed
      obtain u where u: "fst (lookup_exact k' ?st') = Some u" using keys lookup_exact_none by fastforce
      with new lookup_exact_result [OF u] show ?thesis by blast
    qed
  qed
  ultimately show ?thesis by blast
qed

theorem prompt_cache_lookup_correct_witness:
  "(\<exists>u. fst (lookup_exact (demo_key 4) (cache_insert cache_default (demo_key 4) [97] [5] []
       (run_ops (cache_step cache_default) cache_empty [demo_insert 1]))) = Some u)"
  using prompt_cache_lookup_correct [of "run_ops (cache_step cache_default) cache_empty [demo_insert 1]"
      cache_default "[demo_insert 1]" "demo_key 1" "[7, 8]" "demo_key 4" "[97]" "[5]" "[]"]
  by (auto simp: cache_default_def MAX_ENTRIES_def MAX_BYTES_def entry_charge_def demo_key_def key_new_def
      sat_add_def sat_mul_def u64_max_def)

section \<open>Eviction order\<close>

lemma make_room_lru:
  "e \<in> set (entries st) \<Longrightarrow> e \<notin> set (entries (make_room cfg need st))
   \<Longrightarrow> s \<in> set (entries (make_room cfg need st)) \<Longrightarrow> last_used e \<le> last_used s"
proof (induction cfg need st rule: make_room.induct)
  case (1 cfg need st)
  have c: "length (entries st) \<ge> max_entries cfg \<or> sat_add (cache_bytes st) need > max_bytes cfg"
    using 1(2,3) by (auto simp: make_room.simps [of cfg need st] split: if_splits)
  obtain i where i: "first_min (List.map last_used (entries st)) = Some i"
    using 1(2) by (metis empty_iff empty_set first_min_None map_is_Nil_conv not_None_eq)
  let ?v = "entries st ! i"
  have r: "make_room cfg need st = make_room cfg need (evict_entry i st)"
    using c i by (simp add: make_room.simps [of cfg need st])
  have il: "i < length (entries st)" using first_min_bound [OF i] by simp
  have min: "last_used ?v \<le> last_used x" if "x \<in> set (entries st)" for x
    using first_min_le [OF i, of "last_used x"] that il by simp
  show ?case
  proof (cases "e = ?v")
    case True
    have "s \<in> set (entries st)" using 1(4) make_room_subset by blast
    with True min show ?thesis by simp
  next
    case False
    have "e \<in># mset (entries st) - {#?v#}" using 1(2) False by (simp add: in_diff_count)
    then have "e \<in> set (entries (evict_entry i st))"
      using mset_swap_remove [OF il] by (metis evict_entry_entries set_mset_mset)
    from 1(1) [OF c i this] 1(3,4) r show ?thesis by simp
  qed
qed

text \<open>
  The cache evicts in least-recently-used order: every entry an insertion throws out was used no
  later than every entry it keeps.
\<close>

theorem prompt_cache_evicts_lru:
  assumes "e \<in> set (entries st)" and "e \<notin> set (entries (cache_insert cfg k p t b st))"
    and "s \<in> set (entries st)" and "s \<in> set (entries (cache_insert cfg k p t b st))"
  shows "last_used e \<le> last_used s"
proof -
  let ?room = "make_room cfg (entry_charge k p t b)
      (st\<lparr>clock := wrap_add (clock st) 1, next_id := wrap_add (next_id st) 1\<rparr>)"
  have k: "k \<notin> entry_key ` set (entries st)"
    using assms by (auto simp: insert_entries split: if_splits)
  then have "entry_key s \<noteq> k" using assms(3) by blast
  with k assms have "e \<notin> set (entries ?room)" "s \<in> set (entries ?room)"
    by (auto simp: insert_entries split: if_splits)
  then show ?thesis
    using make_room_lru [of e "st\<lparr>clock := wrap_add (clock st) 1, next_id := wrap_add (next_id st) 1\<rparr>"
        cfg "entry_charge k p t b" s] assms(1) by simp
qed

theorem prompt_cache_evicts_lru_witness:
  "(let st = run_ops (cache_step \<lparr>max_entries = 2, max_bytes = 100\<rparr>) cache_empty
        [demo_insert 1, demo_insert 2, OpLookup (demo_key 1)]
    in last_used (entries st ! 1) \<le> last_used (entries st ! 0))"
proof -
  let ?cfg = "\<lparr>max_entries = 2, max_bytes = 100\<rparr>"
  let ?st = "run_ops (cache_step ?cfg) cache_empty [demo_insert 1, demo_insert 2, OpLookup (demo_key 1)]"
  let ?st' = "cache_insert ?cfg (demo_key 3) [] [] [] ?st"
  note eval = demo_insert_def demo_key_def key_new_def cache_insert_def lookup_exact_def
        count_exact_hit_def touch_def exact_key_matches_def entry_charge_def make_room.simps evict_entry_def
        swap_remove_def cache_empty_def wrap_add_def sat_add_def sat_mul_def u64_max_def Let_def
  have "last_used (entries ?st ! 1) \<le> last_used (entries ?st ! 0)"
    by (rule prompt_cache_evicts_lru [where cfg = ?cfg and k = "demo_key 3" and p = "[]" and t = "[]"
          and b = "[]" and st = ?st]) (simp_all add: eval)
  then show ?thesis by (simp add: Let_def)
qed

section \<open>Prefix matches\<close>

text \<open>
  What a caller who inserts promises about its boundaries: they ascend and cutting the prompt at one
  of them cuts its tokens at the recorded count (\<open>enc\<close> is the tokenizer).
\<close>

definition safe_insert :: "(bytes \<Rightarrow> 32 word list) \<Rightarrow> cache_op \<Rightarrow> bool" where
  "safe_insert enc x \<longleftrightarrow> (case x of
     OpInsert k p t b \<Rightarrow> sorted (List.map byte_offset b)
       \<and> (\<forall>y \<in> set b. token_count y \<le> length t \<and> enc (take (byte_offset y) p) = take (token_count y) t)
   | _ \<Rightarrow> True)"

lemma candidate_boundary_Some:
  assumes "candidate_boundary prompt e = Some (e', b)"
  shows "e' = e" and "b \<in> set (entry_boundaries e)"
    and "byte_offset b \<le> common_prefix_len (entry_prompt e) prompt"
    and "sorted (List.map byte_offset (entry_boundaries e)) \<Longrightarrow> c \<in> set (entry_boundaries e)
      \<Longrightarrow> byte_offset c \<le> common_prefix_len (entry_prompt e) prompt \<Longrightarrow> byte_offset c \<le> byte_offset b"
proof -
  let ?P = "\<lambda>b. byte_offset b \<le> common_prefix_len (entry_prompt e) prompt"
  have f: "find ?P (rev (entry_boundaries e)) = Some b" and e: "e' = e"
    using assms by (auto simp: candidate_boundary_def Let_def)
  show "e' = e" by (rule e)
  obtain i where i: "i < length (rev (entry_boundaries e))" "?P (rev (entry_boundaries e) ! i)"
    "b = rev (entry_boundaries e) ! i" "\<forall>j < i. \<not> ?P (rev (entry_boundaries e) ! j)"
    using f by (auto simp: find_Some_iff)
  show "b \<in> set (entry_boundaries e)" using i by (metis nth_mem set_rev)
  show "?P b" using i by simp
  assume s: "sorted (List.map byte_offset (entry_boundaries e))" and c: "c \<in> set (entry_boundaries e)" "?P c"
  then obtain j where j: "j < length (rev (entry_boundaries e))" "c = rev (entry_boundaries e) ! j"
    by (metis in_set_conv_nth set_rev)
  have "i \<le> j" using i(4) j c(2) by (metis not_le)
  have "sorted_wrt (\<ge>) (List.map byte_offset (rev (entry_boundaries e)))"
    using s by (simp add: rev_map [symmetric] sorted_wrt_rev)
  then show "byte_offset c \<le> byte_offset b"
    using \<open>i \<le> j\<close> i(1,3) j by (cases "i = j") (auto simp: sorted_wrt_map sorted_wrt_iff_nth_less)
qed

lemma candidate_boundary_None:
  "candidate_boundary prompt e = None \<longleftrightarrow>
     (\<forall>b \<in> set (entry_boundaries e). \<not> byte_offset b \<le> common_prefix_len (entry_prompt e) prompt)"
  by (auto simp: candidate_boundary_def Let_def find_None_iff)

lemma map_filter_set: "y \<in> set (List.map_filter f xs) \<longleftrightarrow> (\<exists>x \<in> set xs. f x = Some y)"
  by (force simp: List.map_filter_def)

text \<open>
  C33: reusing a prefix is safe if insertions are (\<open>safe_insert\<close>: the boundaries of an inserted prompt are in order, none
  counts more tokens than there are, and the prompt cut there has exactly the tokens before the cut). Then a prefix
  match, whatever other threads did between taking the snapshot and reporting the match,
  never panics, comes from an entry of the same namespace and arguments, and returns exactly the
  tokens of the matched bytes of the \<^emph>\<open>new\<close> prompt; it is the longest such prefix any candidate
  offers, and a miss means that no candidate offers one.
\<close>

theorem prompt_cache_prefix_safe:
  assumes "\<forall>x \<in> set xs. safe_insert enc x"
    and "fst (lookup_begin k (run_ops (cache_step cfg) cache_empty xs)) = Inr candidates"
    and "fst (lookup_settle (select_prefix prompt candidates) st) = m"
  shows "(\<forall>e \<in> set candidates. bucket_matches e k)
    \<and> (case m of
        Some (Prefix pm) \<Rightarrow>
          pm_byte_offset pm \<le> length prompt
          \<and> enc (take (pm_byte_offset pm) prompt) = pm_token_ids pm
          \<and> (\<forall>e \<in> set candidates. \<forall>b \<in> set (entry_boundaries e).
               byte_offset b \<le> common_prefix_len (entry_prompt e) prompt \<longrightarrow> byte_offset b \<le> pm_byte_offset pm)
      | Some Miss \<Rightarrow> \<forall>e \<in> set candidates. \<forall>b \<in> set (entry_boundaries e).
          \<not> byte_offset b \<le> common_prefix_len (entry_prompt e) prompt
      | _ \<Rightarrow> False)"
proof -
  let ?st = "run_ops (cache_step cfg) cache_empty xs"
  let ?f = "candidate_boundary prompt"
  have cand: "candidates = filter (\<lambda>e. bucket_matches e k) (entries ?st)"
    using assms(2) by (auto simp: lookup_begin_def lookup_exact_def split: option.splits prod.splits)
  have "all_inserted (set xs) ?st"
    by (rule run_cache_inserted) (simp_all add: all_inserted_def cache_empty_def)
  then have safe: "sorted (List.map byte_offset (entry_boundaries e))"
      "b \<in> set (entry_boundaries e) \<Longrightarrow> token_count b \<le> length (entry_tokens e)
        \<and> enc (take (byte_offset b) (entry_prompt e)) = take (token_count b) (entry_tokens e)"
    if "e \<in> set candidates" for e b
    using that assms(1) by (fastforce simp: cand all_inserted_def inserted_def safe_insert_def)+
  have "case m of
        Some (Prefix pm) \<Rightarrow>
          pm_byte_offset pm \<le> length prompt
          \<and> enc (take (pm_byte_offset pm) prompt) = pm_token_ids pm
          \<and> (\<forall>e \<in> set candidates. \<forall>b \<in> set (entry_boundaries e).
               byte_offset b \<le> common_prefix_len (entry_prompt e) prompt \<longrightarrow> byte_offset b \<le> pm_byte_offset pm)
      | Some Miss \<Rightarrow> \<forall>e \<in> set candidates. \<forall>b \<in> set (entry_boundaries e).
          \<not> byte_offset b \<le> common_prefix_len (entry_prompt e) prompt
      | _ \<Rightarrow> False"
  proof (cases "select_prefix prompt candidates")
    case None
    then have "?f e = None" if "e \<in> set candidates" for e
      using that map_filter_set [of _ ?f candidates] unfolding select_prefix_def last_max_None
      by (cases "?f e") auto
    then show ?thesis using assms(3) None by (auto simp: lookup_settle_def candidate_boundary_None)
  next
    case (Some eb)
    obtain e b where eb: "eb = (e, b)" by (cases eb)
    from Some eb have best: "last_max (\<lambda>(e, b). byte_offset b) (List.map_filter ?f candidates) = Some (e, b)"
      by (simp add: select_prefix_def)
    then obtain e' where e': "e' \<in> set candidates" "?f e' = Some (e, b)"
      using last_max_in map_filter_set by metis
    note cb = candidate_boundary_Some [OF e'(2)]
    have e: "e \<in> set candidates" and b: "b \<in> set (entry_boundaries e)"
      and le: "byte_offset b \<le> common_prefix_len (entry_prompt e) prompt" using e' cb by auto
    note sb = safe(2) [OF e b]
    have t: "take (byte_offset b) (entry_prompt e) = take (byte_offset b) prompt"
      by (rule common_prefix_take(3) [OF le])
    have longest: "byte_offset c \<le> byte_offset b"
      if d: "d \<in> set candidates" "c \<in> set (entry_boundaries d)"
        "byte_offset c \<le> common_prefix_len (entry_prompt d) prompt" for d c
    proof -
      obtain d' c' where dc: "?f d = Some (d', c')"
        using d candidate_boundary_None [of prompt d] by (cases "?f d") auto
      then have "(d', c') \<in> set (List.map_filter ?f candidates)" using map_filter_set d(1) by metis
      from last_max_le [OF best this] have "byte_offset c' \<le> byte_offset b" by simp
      moreover have "byte_offset c \<le> byte_offset c'"
        using candidate_boundary_Some(4) [OF dc safe(1) [OF d(1)] d(2,3)] .
      ultimately show ?thesis by simp
    qed
    have len: "byte_offset b \<le> length prompt" using le common_prefix_take(2) le_trans by blast
    show ?thesis
      using assms(3) Some eb sb t longest len by (auto simp: lookup_settle_def Let_def)
  qed
  then show ?thesis by (auto simp: cand)
qed

definition demo_enc :: "bytes \<Rightarrow> 32 word list" where
  "demo_enc s = List.map ucast s"

theorem prompt_cache_prefix_safe_witness:
  "(let st = run_ops (cache_step cache_default) cache_empty
               [OpInsert (demo_key 1) [97, 98, 1] [97, 98, 1] [\<lparr>byte_offset = 2, token_count = 2\<rparr>]]
    in fst (lookup_after_render (key_new id [1] [9] [2]) [97, 98, 99] st) =
         Some (Prefix \<lparr>pm_byte_offset = 2, pm_token_ids = [97, 98],
           pm_boundaries = [\<lparr>byte_offset = 2, token_count = 2\<rparr>]\<rparr>)
       \<and> demo_enc (take 2 [97, 98, 99]) = [97, 98])"
proof -
  let ?x = "OpInsert (demo_key 1) [97, 98, 1] [97, 98, 1] [\<lparr>byte_offset = 2, token_count = 2\<rparr>]"
  let ?k = "key_new id [1] [9] [2]"
  let ?st = "run_ops (cache_step cache_default) cache_empty [?x]"
  let ?c = "filter (\<lambda>e. bucket_matches e ?k) (entries ?st)"
  note eval = demo_key_def key_new_def cache_insert_def lookup_exact_def exact_key_matches_def
        entry_charge_def make_room.simps cache_empty_def wrap_add_def sat_add_def sat_mul_def u64_max_def
        cache_default_def MAX_ENTRIES_def MAX_BYTES_def Let_def
  have b: "lookup_begin ?k ?st = (Inr ?c, ?st)"
    by (simp add: lookup_begin_def eval)
  have safe: "\<forall>x \<in> set [?x]. safe_insert demo_enc x"
    by (simp add: safe_insert_def demo_enc_def)
  have m: "fst (lookup_settle (select_prefix [97, 98, 99] ?c) ?st) =
      Some (Prefix \<lparr>pm_byte_offset = 2, pm_token_ids = [97, 98],
        pm_boundaries = [\<lparr>byte_offset = 2, token_count = 2\<rparr>]\<rparr>)"
    by (simp add: eval bucket_matches_def select_prefix_def candidate_boundary_def common_prefix_len_def
        len_utf8_def lookup_settle_def List.map_filter_def)
  from prompt_cache_prefix_safe [OF safe, of ?k cache_default ?c "[97, 98, 99]" ?st] b m
  have "demo_enc (take 2 [97, 98, 99]) = [97, 98]" by simp
  with m show ?thesis
    unfolding lookup_after_render_def Let_def b by simp
qed

end
