(* ===== verification/CostModel.thy ===== *)
theory CostModel
  imports Prelude "HOL-Library.Signed_Division"
begin

text \<open>
  \<open>ironmlx/src/core/prompt_lookup.rs\<close>, the arithmetic of the cost controller: when prompt lookup
  pays, how long a rejected configuration stays out, medians, context buckets and the counters a
  sample carries. Costs are \<open>u64\<close> nanoseconds combined with saturating arithmetic.
\<close>

definition QUALIFICATION_SCHEMA_VERSION :: nat where "QUALIFICATION_SCHEMA_VERSION = 6"
definition QUALIFICATION_BASELINE_SAMPLES :: nat where "QUALIFICATION_BASELINE_SAMPLES = 8"
definition QUALIFICATION_PROBE_SAMPLES :: nat where "QUALIFICATION_PROBE_SAMPLES = 8"
definition QUALIFICATION_MIN_GAIN_BPS :: nat where "QUALIFICATION_MIN_GAIN_BPS = 300"
definition QUALIFICATION_MAX_REPROBE_OVERHEAD_BPS :: nat where
  "QUALIFICATION_MAX_REPROBE_OVERHEAD_BPS = 300"
definition MULTI_BATCH_INITIAL_DELAY :: nat where "MULTI_BATCH_INITIAL_DELAY = 512"
definition INITIAL_COOLDOWN :: nat where "INITIAL_COOLDOWN = 512"
definition MAX_COOLDOWN :: nat where "MAX_COOLDOWN = 32 * 1024"
definition REVALIDATE_TOKENS :: nat where "REVALIDATE_TOKENS = 512"
definition PROFILE_TTL_MS :: nat where "PROFILE_TTL_MS = 7 * 24 * 60 * 60 * 1000"

lemmas cost_constants =
  QUALIFICATION_BASELINE_SAMPLES_def QUALIFICATION_PROBE_SAMPLES_def QUALIFICATION_MIN_GAIN_BPS_def
  QUALIFICATION_MAX_REPROBE_OVERHEAD_BPS_def MULTI_BATCH_INITIAL_DELAY_def INITIAL_COOLDOWN_def
  MAX_COOLDOWN_def REVALIDATE_TOKENS_def

section \<open>Decision\<close>

datatype qualification_decision = DecQualified | DecRejected | DecIneligible

definition decide :: "nat \<Rightarrow> nat \<Rightarrow> qualification_decision" where
  "decide baseline lookup =
     (if sat_mul lookup 10000 \<le> sat_mul baseline (10000 - QUALIFICATION_MIN_GAIN_BPS)
      then DecQualified else DecRejected)"

text \<open>The difference is taken in \<open>i128\<close>, divided towards zero and clamped to \<open>i64\<close>.\<close>

definition estimated_gain_bps :: "nat \<Rightarrow> nat \<Rightarrow> int" where
  "estimated_gain_bps baseline lookup =
     (if baseline = 0 then 0
      else max (- (2 ^ 63)) (min (2 ^ 63 - 1) (((int baseline - int lookup) * 10000) sdiv int baseline)))"

text \<open>\<open>median\<close> panics on an empty slice; every caller passes eight samples.\<close>

definition median :: "nat list \<Rightarrow> nat" where
  "median samples =
     (let s = sort samples; middle = length s div 2 in
      if even (length s) then sat_add (s ! (middle - 1)) (s ! middle) div 2 else s ! middle)"

section \<open>Cooldowns\<close>

definition next_rejected_cooldown :: "nat \<Rightarrow> nat" where
  "next_rejected_cooldown current = clamp (sat_mul current 4) INITIAL_COOLDOWN MAX_COOLDOWN"

lemma next_cooldown_grows: "c < MAX_COOLDOWN \<Longrightarrow> c < next_rejected_cooldown c"
  by (auto simp: next_rejected_cooldown_def clamp_def sat_mul_def u64_max_def cost_constants)

lemma next_cooldown_bounds:
  "INITIAL_COOLDOWN \<le> next_rejected_cooldown c" "next_rejected_cooldown c \<le> MAX_COOLDOWN"
  using clamp_bounds [of INITIAL_COOLDOWN MAX_COOLDOWN "sat_mul c 4"]
  by (simp_all add: next_rejected_cooldown_def cost_constants)

function grow_cooldown :: "nat \<Rightarrow> nat \<Rightarrow> nat" where
  "grow_cooldown required cooldown =
     (if cooldown < required \<and> cooldown < MAX_COOLDOWN
      then grow_cooldown required (next_rejected_cooldown cooldown) else cooldown)"
  by pat_completeness auto
termination
proof (relation "measure (\<lambda>(r, c). MAX_COOLDOWN - c)")
  fix required cooldown :: nat
  assume "cooldown < required \<and> cooldown < MAX_COOLDOWN"
  then show "((required, next_rejected_cooldown cooldown), required, cooldown)
      \<in> measure (\<lambda>(r, c). MAX_COOLDOWN - c)"
    using next_cooldown_grows [of cooldown] by simp linarith
qed simp

declare grow_cooldown.simps [simp del]

definition minimum_rejected_cooldown_tokens :: "nat \<Rightarrow> nat \<Rightarrow> nat \<Rightarrow> nat" where
  "minimum_rejected_cooldown_tokens batch_width baseline elapsed =
     (let token_cost = sat_mul baseline batch_width;
          allowed = sat_mul token_cost QUALIFICATION_MAX_REPROBE_OVERHEAD_BPS div 10000
      in if allowed = 0 then MAX_COOLDOWN
         else grow_cooldown (div_ceil elapsed allowed) INITIAL_COOLDOWN)"

text \<open>The loop of \<open>valid_rejected_cooldown\<close>; it ends because candidates grow to the maximum.\<close>

function cooldown_scan :: "nat \<Rightarrow> nat \<Rightarrow> bool" where
  "cooldown_scan c candidate =
     (if c = candidate then True
      else if candidate = MAX_COOLDOWN then False
      else cooldown_scan c (next_rejected_cooldown candidate))"
  by pat_completeness auto
termination
proof (relation "measure (\<lambda>(c, x). if x = MAX_COOLDOWN then 0
    else if MAX_COOLDOWN < x then 1 else Suc (MAX_COOLDOWN - x))")
  fix c candidate :: nat
  assume "c \<noteq> candidate" and n: "candidate \<noteq> MAX_COOLDOWN"
  show "((c, next_rejected_cooldown candidate), c, candidate)
      \<in> measure (\<lambda>(c, x). if x = MAX_COOLDOWN then 0
          else if MAX_COOLDOWN < x then 1 else Suc (MAX_COOLDOWN - x))"
  proof (cases "candidate < MAX_COOLDOWN")
    case True
    then show ?thesis using next_cooldown_grows [OF True] next_cooldown_bounds(2) [of candidate] by auto
  next
    case False
    then have "next_rejected_cooldown candidate = MAX_COOLDOWN"
      using n by (auto simp: next_rejected_cooldown_def clamp_def sat_mul_def u64_max_def cost_constants)
    with False n show ?thesis by simp
  qed
qed simp

declare cooldown_scan.simps [simp del]

definition valid_rejected_cooldown :: "nat \<Rightarrow> bool" where
  "valid_rejected_cooldown c = cooldown_scan c INITIAL_COOLDOWN"

definition cooldown_ladder :: "nat set" where
  "cooldown_ladder = {512, 2048, 8192, 32768}"

lemma ladder_steps:
  "next_rejected_cooldown 512 = 2048" "next_rejected_cooldown 2048 = 8192"
  "next_rejected_cooldown 8192 = 32768" "next_rejected_cooldown 32768 = 32768"
  by (simp_all add: next_rejected_cooldown_def clamp_def sat_mul_def u64_max_def cost_constants)

lemma next_in_ladder: "c \<in> cooldown_ladder \<Longrightarrow> next_rejected_cooldown c \<in> cooldown_ladder"
  by (auto simp: cooldown_ladder_def ladder_steps)

lemma initial_in_ladder [simp]: "INITIAL_COOLDOWN \<in> cooldown_ladder" "MAX_COOLDOWN \<in> cooldown_ladder"
  by (simp_all add: cooldown_ladder_def cost_constants)

lemma valid_cooldown_iff: "valid_rejected_cooldown c \<longleftrightarrow> c \<in> cooldown_ladder"
proof -
  have i: "INITIAL_COOLDOWN = 512" "MAX_COOLDOWN = 32768" by (simp_all add: cost_constants)
  show ?thesis
    unfolding valid_rejected_cooldown_def cooldown_ladder_def i(1)
    by (simp add: cooldown_scan.simps [of c 512] cooldown_scan.simps [of c 2048]
        cooldown_scan.simps [of c 8192] cooldown_scan.simps [of c 32768] ladder_steps i(2))
qed

lemma grow_cooldown_ladder:
  "grow_cooldown r 512 =
     (if r \<le> 512 then 512 else if r \<le> 2048 then 2048 else if r \<le> 8192 then 8192 else 32768)"
proof -
  have m: "MAX_COOLDOWN = 32768" by (simp add: cost_constants)
  show ?thesis
    by (simp add: grow_cooldown.simps [of r 512] grow_cooldown.simps [of r 2048]
        grow_cooldown.simps [of r 8192] grow_cooldown.simps [of r 32768] ladder_steps m)
qed

text \<open>
  C35: the back-off ladder. A cooldown is valid exactly when it is 512, 2048, 8192 or 32768 tokens,
  each step multiplies by four until the top, both loops that walk the ladder end, and the minimum
  cooldown after an expensive transition is a valid rung that spreads the transition over at least
  enough tokens to keep it below three percent of the baseline cost (or the top rung when no rung
  does), and no lower rung would.
\<close>

theorem cooldown_ladder_correct:
  "(valid_rejected_cooldown c \<longleftrightarrow> c \<in> {512, 2048, 8192, 32768})
   \<and> (valid_rejected_cooldown c \<longrightarrow> next_rejected_cooldown c = min (4 * c) 32768)
   \<and> (let m = minimum_rejected_cooldown_tokens width baseline elapsed;
          allowed = sat_mul (sat_mul baseline width) 300 div 10000
      in valid_rejected_cooldown m
         \<and> (m < 32768 \<longrightarrow> elapsed \<le> m * allowed)
         \<and> (\<forall>d. valid_rejected_cooldown d \<and> d < m \<longrightarrow> d * allowed < elapsed \<or> allowed = 0))"
proof -
  let ?a = "sat_mul (sat_mul baseline width) 300 div 10000"
  let ?r = "div_ceil elapsed ?a"
  let ?m = "minimum_rejected_cooldown_tokens width baseline elapsed"
  have m: "?m = (if ?a = 0 then 32768 else if ?r \<le> 512 then 512 else if ?r \<le> 2048 then 2048
      else if ?r \<le> 8192 then 8192 else 32768)"
    by (simp add: minimum_rejected_cooldown_tokens_def Let_def cost_constants grow_cooldown_ladder)
  have ok: "elapsed \<le> d * ?a" if "?a \<noteq> 0" "?r \<le> d" for d
    using div_ceil_mult(1) [of ?a elapsed] that mult_le_mono1 [OF that(2), of ?a] by linarith
  have low: "d * ?a < elapsed" if "?a \<noteq> 0" "d < ?r" for d
  proof -
    have "?r * ?a < elapsed + ?a" using div_ceil_mult(2) [of ?a elapsed] that(1) by simp
    moreover have "(d + 1) * ?a \<le> ?r * ?a" using that(2) by (intro mult_le_mono1) simp
    ultimately show ?thesis by simp
  qed
  have v: "valid_rejected_cooldown ?m" by (auto simp: m valid_cooldown_iff cooldown_ladder_def)
  have e: "?m < 32768 \<longrightarrow> elapsed \<le> ?m * ?a" using ok by (auto simp: m split: if_splits)
  have l: "d * ?a < elapsed \<or> ?a = 0" if "valid_rejected_cooldown d" "d < ?m" for d
    using that low [of d] by (auto simp: m valid_cooldown_iff cooldown_ladder_def split: if_splits)
  show ?thesis
    using v e l by (auto simp: Let_def valid_cooldown_iff cooldown_ladder_def ladder_steps)
qed

theorem cooldown_ladder_correct_witness:
  "minimum_rejected_cooldown_tokens 2 1000000 100000000 = 2048 \<and> valid_rejected_cooldown 2048
   \<and> next_rejected_cooldown 2048 = 8192"
proof -
  have m: "minimum_rejected_cooldown_tokens 2 1000000 100000000 = 2048"
    by (simp add: minimum_rejected_cooldown_tokens_def Let_def cost_constants sat_mul_def u64_max_def
        div_ceil_def grow_cooldown_ladder)
  show ?thesis
    using cooldown_ladder_correct [of 2048 2 1000000 100000000] m by (simp add: Let_def)
qed

section \<open>The decision and the median\<close>

lemma decide_qualified:
  "baseline * 10000 \<le> u64_max \<Longrightarrow> decide baseline lookup = DecQualified \<longleftrightarrow> lookup * 10000 \<le> baseline * 9700"
  by (auto simp: decide_def sat_mul_def cost_constants min_def u64_max_def)

lemma decide_never_ineligible [simp]: "decide b l \<noteq> DecIneligible"
  by (simp add: decide_def)

text \<open>Below half the counter range the sum does not saturate and the median lies among the samples.\<close>

lemma median_bounds:
  assumes "xs \<noteq> []" and "\<forall>x \<in> set xs. 2 * x \<le> u64_max"
  shows "\<exists>l \<in> set xs. \<exists>h \<in> set xs. l \<le> median xs \<and> median xs \<le> h"
proof -
  let ?s = "sort xs"
  let ?m = "length ?s div 2"
  have len: "0 < length xs" using assms(1) by simp
  have m: "?m < length ?s" using len by simp
  have hi: "?s ! ?m \<in> set xs" using nth_mem [OF m] by simp
  have lo: "?s ! (?m - 1) \<in> set xs" using nth_mem [of "?m - 1" ?s] m by simp
  show ?thesis
  proof (cases "even (length ?s)")
    case False
    then have "median xs = ?s ! ?m" by (simp add: median_def Let_def)
    with hi show ?thesis by (metis order_refl)
  next
    case True
    have le: "?s ! (?m - 1) \<le> ?s ! ?m" using m by (intro sorted_nth_mono) auto
    have "2 * ?s ! (?m - 1) \<le> u64_max" "2 * ?s ! ?m \<le> u64_max" using assms(2) lo hi by blast+
    then have "sat_add (?s ! (?m - 1)) (?s ! ?m) = ?s ! (?m - 1) + ?s ! ?m" by (intro sat_add_exact) simp
    then have "median xs = (?s ! (?m - 1) + ?s ! ?m) div 2" using True by (simp add: median_def Let_def)
    moreover have "a \<le> b \<Longrightarrow> a \<le> (a + b) div 2 \<and> (a + b) div 2 \<le> b" for a b :: nat by linarith
    ultimately have "?s ! (?m - 1) \<le> median xs" "median xs \<le> ?s ! ?m" using le by metis+
    with lo hi show ?thesis by blast
  qed
qed

section \<open>Context buckets\<close>

text \<open>\<open>checked_next_power_of_two\<close> fails when the power does not fit 64 bits.\<close>

function next_power_from :: "nat \<Rightarrow> nat \<Rightarrow> nat" where
  "next_power_from n p = (if 0 < p \<and> p < n then next_power_from n (2 * p) else p)"
  by pat_completeness auto
termination by (relation "measure (\<lambda>(n, p). n - p)") auto

declare next_power_from.simps [simp del]

definition context_bucket :: "nat \<Rightarrow> nat" where
  "context_bucket tokens =
     (let p = next_power_from (max tokens 1024) 1 in if p < 2 ^ 64 then p else u64_max)"

lemma next_power_from_spec:
  "0 < p \<Longrightarrow> \<exists>k. next_power_from n p = p * 2 ^ k \<and> n \<le> p * 2 ^ k \<and> (k = 0 \<or> p * 2 ^ (k - 1) < n)"
proof (induction n p rule: next_power_from.induct)
  case (1 n p)
  show ?case
  proof (cases "p < n")
    case True
    with 1 obtain k where k: "next_power_from n (2 * p) = 2 * p * 2 ^ k" "n \<le> 2 * p * 2 ^ k"
      "k = 0 \<or> 2 * p * 2 ^ (k - 1) < n" by auto
    have "next_power_from n p = p * 2 ^ Suc k"
      using True 1(2) k(1) by (simp add: next_power_from.simps [of n p])
    moreover have "p * 2 ^ (Suc k - 1) < n" using k(3) True by (cases k) auto
    ultimately show ?thesis using k(2) by (intro exI [of _ "Suc k"]) simp
  next
    case False
    then show ?thesis by (intro exI [of _ 0]) (simp add: next_power_from.simps [of n p])
  qed
qed

lemma context_bucket_ge: "tokens \<le> u64_max \<Longrightarrow> tokens \<le> context_bucket tokens \<and> 1024 \<le> context_bucket tokens"
  using next_power_from_spec [of 1 "max tokens 1024"]
  by (auto simp: context_bucket_def Let_def u64_max_def)

lemma context_bucket_power:
  assumes "tokens \<le> 2 ^ 63"
  shows "\<exists>k. context_bucket tokens = 2 ^ k \<and> (context_bucket tokens = 1024 \<or> context_bucket tokens < 2 * tokens)"
proof -
  obtain k where k: "next_power_from (max tokens 1024) 1 = 2 ^ k" "max tokens 1024 \<le> 2 ^ k"
    "k = 0 \<or> 2 ^ (k - 1) < max tokens 1024"
    using next_power_from_spec [of 1 "max tokens 1024"] by auto
  have k0: "k \<noteq> 0" using k(2) by (cases k) auto
  have half: "2 ^ (k - 1) < max tokens 1024" using k(3) k0 by simp
  have two: "(2 :: nat) ^ k = 2 * 2 ^ (k - 1)" using k0 by (simp flip: power_Suc)
  have "(2 :: nat) ^ (k - 1) < 2 ^ 63" using half assms by simp
  then have "(2 :: nat) ^ k < 2 ^ 64" using two by simp
  then have c: "context_bucket tokens = 2 ^ k" by (simp add: context_bucket_def Let_def k(1) [simplified])
  show ?thesis
  proof (cases "tokens \<le> 1024")
    case True
    then have "2 ^ (k - 1) < (1024 :: nat)" using half by simp
    then have "(2 :: nat) ^ (k - 1) < 2 ^ 10" by simp
    then have "k - 1 < 10" by (rule power_less_imp_less_exp [rotated]) simp
    then have "(2 :: nat) ^ k \<le> 2 ^ 10" by (intro power_increasing) auto
    with k(2) True have "(2 :: nat) ^ k = 1024" by simp
    with c show ?thesis by auto
  next
    case False
    then have "2 ^ (k - 1) < tokens" using half by simp
    then have "2 ^ k < 2 * tokens" using two by linarith
    with c have "context_bucket tokens = 2 ^ k \<and> context_bucket tokens < 2 * tokens" by simp
    then show ?thesis by blast
  qed
qed

section \<open>Sources and counters\<close>

datatype proposal_source = LocalSource | SharedSource | MixedSource

record source_stats =
  src_queries :: nat
  src_hits :: nat
  src_misses :: nat
  src_drafted_tokens :: nat
  src_accepted_tokens :: nat
  src_zero_accept_windows :: nat
  src_wasted_verify_tokens :: nat
  src_propose_us :: nat
  src_verify_us :: nat
  src_rollback_us :: nat

text \<open>The fields of \<open>PromptLookupStats\<close> that the cost controller reads.\<close>

record lookup_delta =
  d_queries :: nat
  d_hits :: nat
  d_misses :: nat
  d_drafted_tokens :: nat
  d_accepted_tokens :: nat
  d_rejected_tokens :: nat
  d_zero_accept_windows :: nat
  d_propose_us :: nat
  d_verify_round_us :: nat
  d_rollback_count :: nat
  d_rollback_us :: nat
  d_local_source :: source_stats
  d_shared_source :: source_stats

record qualification_counters =
  q_queries :: nat
  q_hits :: nat
  q_misses :: nat
  q_drafted_tokens :: nat
  q_accepted_tokens :: nat
  q_rollback_count :: nat

definition counters_zero :: qualification_counters where
  "counters_zero = \<lparr>q_queries = 0, q_hits = 0, q_misses = 0, q_drafted_tokens = 0,
     q_accepted_tokens = 0, q_rollback_count = 0\<rparr>"

definition source_delta :: "lookup_delta \<Rightarrow> proposal_source option \<Rightarrow> source_stats" where
  "source_delta d source =
     (case source of
        Some LocalSource \<Rightarrow> d_local_source d
      | Some SharedSource \<Rightarrow> d_shared_source d
      | _ \<Rightarrow> \<lparr>src_queries = d_queries d, src_hits = d_hits d, src_misses = d_misses d,
          src_drafted_tokens = d_drafted_tokens d, src_accepted_tokens = d_accepted_tokens d,
          src_zero_accept_windows = d_zero_accept_windows d,
          src_wasted_verify_tokens = d_rejected_tokens d, src_propose_us = d_propose_us d,
          src_verify_us = d_verify_round_us d, src_rollback_us = d_rollback_us d\<rparr>)"

definition counters_accumulate ::
  "lookup_delta \<Rightarrow> proposal_source option \<Rightarrow> qualification_counters \<Rightarrow> qualification_counters" where
  "counters_accumulate d source c =
     (let s = source_delta d source in
      \<lparr>q_queries = sat_add (q_queries c) (src_queries s),
       q_hits = sat_add (q_hits c) (src_hits s),
       q_misses = sat_add (q_misses c) (src_misses s),
       q_drafted_tokens = sat_add (q_drafted_tokens c) (src_drafted_tokens s),
       q_accepted_tokens = sat_add (q_accepted_tokens c) (src_accepted_tokens s),
       q_rollback_count = sat_add (q_rollback_count c) (d_rollback_count d)\<rparr>)"

definition accumulate_counters ::
  "qualification_counters \<Rightarrow> qualification_counters \<Rightarrow> qualification_counters" where
  "accumulate_counters c d =
     \<lparr>q_queries = sat_add (q_queries c) (q_queries d),
      q_hits = sat_add (q_hits c) (q_hits d),
      q_misses = sat_add (q_misses c) (q_misses d),
      q_drafted_tokens = sat_add (q_drafted_tokens c) (q_drafted_tokens d),
      q_accepted_tokens = sat_add (q_accepted_tokens c) (q_accepted_tokens d),
      q_rollback_count = sat_add (q_rollback_count c) (q_rollback_count d)\<rparr>"

end
