(* ===== verification/CostController.thy ===== *)
theory CostController
  imports CostModel "HOL-Library.AList"
begin

text \<open>
  \<open>ironmlx/src/core/prompt_lookup.rs\<close>, \<open>PromptLookupCostController\<close>: for every regime (batch width,
  context bucket, sampler, proposal source, verify width) it measures the ordinary decode cost,
  probes prompt lookup, keeps it while it pays and backs off when it does not; it narrows the draft
  width after rejections, and persists its evidence.

  The regimes are an association list with distinct keys (\<open>entry(..).or_insert_with\<close> is
  \<open>regime_entry\<close>); the order of its entries stands for the unspecified iteration order of the hash map.
  The wall clock is an argument, the writer thread is the step \<open>writer_take\<close>, and the file holds the
  profile that was written (serialization is the identity).
\<close>

record sampler_fingerprint =
  temperature_bits :: "32 word"
  top_k :: "int option"
  top_p_bits :: "32 word option"
  min_p_bits :: "32 word option"
  repetition_penalty_bits :: "32 word option"
  frequency_penalty_bits :: "32 word option"
  presence_penalty_bits :: "32 word option"

record regime =
  batch_width :: nat
  context_bucket_tokens :: nat
  sampler :: sampler_fingerprint
  proposal_source :: "proposal_source option"
  verify_width :: nat

definition regime_new :: "nat \<Rightarrow> nat \<Rightarrow> sampler_fingerprint \<Rightarrow> regime" where
  "regime_new width context_tokens s =
     \<lparr>batch_width = max width 1, context_bucket_tokens = context_bucket context_tokens, sampler = s,
      proposal_source = None, verify_width = 1\<rparr>"

definition with_proposal :: "regime \<Rightarrow> proposal_source \<Rightarrow> nat \<Rightarrow> regime" where
  "with_proposal r source width = r\<lparr>proposal_source := Some source, verify_width := max width 2\<rparr>"

datatype cost_action = Ordinary | Lookup

record draft_limits =
  limit_local :: nat
  limit_shared :: nat

definition limits_new :: "nat \<Rightarrow> nat \<Rightarrow> draft_limits" where
  "limits_new l s = \<lparr>limit_local = max l 1, limit_shared = max s 1\<rparr>"

definition limits_uniform :: "nat \<Rightarrow> draft_limits" where
  "limits_uniform n = limits_new n n"

definition limits_capped :: "draft_limits \<Rightarrow> nat \<Rightarrow> draft_limits" where
  "limits_capped d n = limits_new (min (limit_local d) n) (min (limit_shared d) n)"

datatype baseline_kind = BaseOrdinary | BaseQwenMtp | BaseGemma4Assistant

record runtime_config =
  context_fingerprint :: "char list"
  baseline_of :: baseline_kind

datatype qualification_phase =
    Delayed "nat list" nat
  | Baseline "nat list"
  | Probe nat "nat list" qualification_counters
  | Qualified nat "nat list" "qualification_counters list" nat
  | Rejected nat

record evidence =
  ev_regime :: regime
  ev_decision :: qualification_decision
  ev_baseline_cost :: nat
  ev_lookup_cost :: nat
  ev_transition_cost :: nat
  ev_gain_bps :: int
  ev_baseline_samples :: nat
  ev_lookup_samples :: nat
  ev_counters :: qualification_counters
  ev_cooldown :: nat

record regime_state =
  phase :: qualification_phase
  last_evidence :: "evidence option"
  next_cooldown :: nat
  transition_cost :: nat

record profile =
  schema_version :: nat
  prof_fingerprint :: "char list"
  prof_baseline :: baseline_kind
  updated_at :: nat
  prof_entries :: "evidence list"

record qualification_stats =
  ordinary_cost_samples :: nat
  lookup_cost_samples :: nat
  ordinary_cost_us :: nat
  lookup_cost_us :: nat
  qualified_regimes_current :: nat
  rejected_regimes_current :: nat
  qualification_changes :: nat
  profile_loads :: nat
  profile_writes :: nat
  profile_write_drops :: nat
  query_gate_skips :: nat
  miss_query_gate_skips :: nat
  miss_query_reprobes :: nat
  width_reductions :: nat
  width_increases :: nat
  profitability_width_reductions :: nat

definition stats_zero :: qualification_stats where
  "stats_zero = \<lparr>ordinary_cost_samples = 0, lookup_cost_samples = 0, ordinary_cost_us = 0,
     lookup_cost_us = 0, qualified_regimes_current = 0, rejected_regimes_current = 0,
     qualification_changes = 0, profile_loads = 0, profile_writes = 0, profile_write_drops = 0,
     query_gate_skips = 0, miss_query_gate_skips = 0, miss_query_reprobes = 0, width_reductions = 0,
     width_increases = 0, profitability_width_reductions = 0\<rparr>"

record width_regime =
  w_batch_width :: nat
  w_context_bucket :: nat
  w_sampler :: sampler_fingerprint
  w_source :: proposal_source

definition width_regime_new :: "regime \<Rightarrow> proposal_source \<Rightarrow> width_regime" where
  "width_regime_new base source =
     \<lparr>w_batch_width = batch_width base, w_context_bucket = context_bucket_tokens base,
      w_sampler = sampler base, w_source = source\<rparr>"

definition qualification_regime :: "width_regime \<Rightarrow> nat \<Rightarrow> regime" where
  "qualification_regime w draft_tokens =
     \<lparr>batch_width = w_batch_width w, context_bucket_tokens = w_context_bucket w, sampler = w_sampler w,
      proposal_source = Some (w_source w), verify_width = max (sat_add draft_tokens 1) 2\<rparr>"

record width_state =
  max_draft :: nat
  current_draft :: nat

record controller =
  runtime :: runtime_config
  regimes :: "(regime \<times> regime_state) list"
  draft_widths :: "(width_regime \<times> width_state) list"
  mailbox :: "profile option"
  qstats :: qualification_stats

definition initial_regime_state :: "regime \<Rightarrow> regime_state" where
  "initial_regime_state r =
     \<lparr>phase = (if batch_width r > 1 then Delayed [] MULTI_BATCH_INITIAL_DELAY else Baseline []),
      last_evidence = None, next_cooldown = INITIAL_COOLDOWN, transition_cost = 0\<rparr>"

definition normalized_progress :: "regime \<Rightarrow> nat \<Rightarrow> nat" where
  "normalized_progress r committed = div_ceil committed (batch_width r)"

definition is_qualified :: "regime_state \<Rightarrow> bool" where
  "is_qualified s = (case phase s of Qualified _ _ _ _ \<Rightarrow> True | _ \<Rightarrow> False)"

definition is_rejected :: "regime_state \<Rightarrow> bool" where
  "is_rejected s = (case phase s of Rejected _ \<Rightarrow> True | _ \<Rightarrow> False)"

definition regime_entry :: "regime \<Rightarrow> (regime \<times> regime_state) list \<Rightarrow> regime_state" where
  "regime_entry r al = (case map_of al r of Some s \<Rightarrow> s | None \<Rightarrow> initial_regime_state r)"

definition refresh_regime_gauges :: "controller \<Rightarrow> controller" where
  "refresh_regime_gauges c =
     c\<lparr>qstats := (qstats c)\<lparr>
         qualified_regimes_current := length (filter (\<lambda>(_, s). is_qualified s) (regimes c)),
         rejected_regimes_current := length (filter (\<lambda>(_, s). is_rejected s) (regimes c))\<rparr>\<rparr>"

definition queue_profile_write :: "nat \<Rightarrow> controller \<Rightarrow> controller" where
  "queue_profile_write now c =
     (let p = \<lparr>schema_version = QUALIFICATION_SCHEMA_VERSION,
               prof_fingerprint = context_fingerprint (runtime c), prof_baseline = baseline_of (runtime c),
               updated_at = now, prof_entries = List.map_filter (\<lambda>(_, s). last_evidence s) (regimes c)\<rparr>;
          replaced = (mailbox c \<noteq> None);
          st = (qstats c)\<lparr>profile_writes := sat_add (profile_writes (qstats c)) 1\<rparr>;
          st = (if replaced then st\<lparr>profile_write_drops := sat_add (profile_write_drops st) 1\<rparr> else st)
      in c\<lparr>mailbox := Some p, qstats := st\<rparr>)"

text \<open>The writer thread takes the latest profile.\<close>

definition writer_take :: "controller \<Rightarrow> profile option \<times> controller" where
  "writer_take c = (mailbox c, c\<lparr>mailbox := None\<rparr>)"

section \<open>Loading a profile\<close>

definition load_qualification_profile :: "nat \<Rightarrow> runtime_config \<Rightarrow> profile option \<Rightarrow> unit + profile option" where
  "load_qualification_profile now rt file =
     (case file of
        None \<Rightarrow> Inr None
      | Some p \<Rightarrow>
          if schema_version p \<noteq> QUALIFICATION_SCHEMA_VERSION then Inl ()
          else if prof_fingerprint p \<noteq> context_fingerprint rt then Inl ()
          else if prof_baseline p \<noteq> baseline_of rt then Inl ()
          else if now - updated_at p > PROFILE_TTL_MS then Inr None
          else if list_ex (\<lambda>e. case ev_decision e of
                DecQualified \<Rightarrow> ev_cooldown e \<noteq> 0
              | _ \<Rightarrow> \<not> valid_rejected_cooldown (ev_cooldown e)) (prof_entries p) then Inl ()
          else Inr (Some p))"

definition loaded_state :: "evidence \<Rightarrow> regime_state" where
  "loaded_state e =
     (case ev_decision e of
        DecQualified \<Rightarrow>
          \<lparr>phase = Qualified (ev_baseline_cost e) [] [] REVALIDATE_TOKENS, last_evidence = Some e,
           next_cooldown = INITIAL_COOLDOWN, transition_cost = ev_transition_cost e\<rparr>
      | _ \<Rightarrow>
          \<lparr>phase = Rejected (ev_cooldown e), last_evidence = Some e,
           next_cooldown = next_rejected_cooldown (ev_cooldown e), transition_cost = ev_transition_cost e\<rparr>)"

definition controller_new :: "nat \<Rightarrow> runtime_config \<Rightarrow> profile option \<Rightarrow> controller" where
  "controller_new now rt file =
     (let (rs, loads) = (case load_qualification_profile now rt file of
            Inr (Some p) \<Rightarrow>
              (foldl (\<lambda>al e. AList.update (ev_regime e) (loaded_state e) al) [] (prof_entries p), 1)
          | _ \<Rightarrow> ([], 0))
      in refresh_regime_gauges
           \<lparr>runtime = rt, regimes = rs, draft_widths = [], mailbox = None,
            qstats = stats_zero\<lparr>profile_loads := loads\<rparr>\<rparr>)"

section \<open>Choosing and sampling\<close>

definition next_action :: "regime \<Rightarrow> controller \<Rightarrow> cost_action \<times> controller" where
  "next_action r c =
     (let s = regime_entry r (regimes c); c = c\<lparr>regimes := AList.update r s (regimes c)\<rparr> in
      case phase s of
        Delayed _ _ \<Rightarrow> (Ordinary, c)
      | Baseline _ \<Rightarrow> (Ordinary, c)
      | Rejected _ \<Rightarrow> (Ordinary, c)
      | Probe _ _ _ \<Rightarrow> (Lookup, c)
      | Qualified _ _ _ _ \<Rightarrow> (Lookup, c))"

definition count_ordinary :: "nat \<Rightarrow> qualification_stats \<Rightarrow> qualification_stats" where
  "count_ordinary elapsed st =
     st\<lparr>ordinary_cost_samples := sat_add (ordinary_cost_samples st) 1,
        ordinary_cost_us := sat_add (ordinary_cost_us st) (elapsed div 1000)\<rparr>"

definition count_lookup :: "nat \<Rightarrow> qualification_stats \<Rightarrow> qualification_stats" where
  "count_lookup elapsed st =
     st\<lparr>lookup_cost_samples := sat_add (lookup_cost_samples st) 1,
        lookup_cost_us := sat_add (lookup_cost_us st) (elapsed div 1000)\<rparr>"

definition count_change :: "qualification_stats \<Rightarrow> qualification_stats" where
  "count_change st = st\<lparr>qualification_changes := sat_add (qualification_changes st) 1\<rparr>"

definition keep_last :: "nat \<Rightarrow> 'a list \<Rightarrow> 'a list" where
  "keep_last n xs = drop (length xs - n) xs"

text \<open>The verdict on a probe whose eighth sample has arrived.\<close>

definition conclude_probe ::
  "regime \<Rightarrow> nat \<Rightarrow> nat list \<Rightarrow> qualification_counters \<Rightarrow> regime_state \<Rightarrow> regime_state" where
  "conclude_probe r baseline samples counters s =
     (let lookup = median samples;
          d = decide baseline lookup;
          cooldown = (if d = DecQualified then 0 else next_cooldown s);
          e = \<lparr>ev_regime = r, ev_decision = d, ev_baseline_cost = baseline, ev_lookup_cost = lookup,
               ev_transition_cost = transition_cost s, ev_gain_bps = estimated_gain_bps baseline lookup,
               ev_baseline_samples = QUALIFICATION_BASELINE_SAMPLES,
               ev_lookup_samples = QUALIFICATION_PROBE_SAMPLES, ev_counters = counters,
               ev_cooldown = cooldown\<rparr>
      in if d = DecQualified
         then s\<lparr>last_evidence := Some e, next_cooldown := INITIAL_COOLDOWN,
                phase := Qualified baseline [] [] REVALIDATE_TOKENS\<rparr>
         else s\<lparr>last_evidence := Some e, next_cooldown := next_rejected_cooldown cooldown,
                phase := Rejected cooldown\<rparr>)"

text \<open>A qualified regime whose rolling median no longer pays.\<close>

definition drift_reject ::
  "regime \<Rightarrow> nat \<Rightarrow> nat list \<Rightarrow> qualification_counters list \<Rightarrow> regime_state \<Rightarrow> regime_state" where
  "drift_reject r baseline rolling counters s =
     (let lookup = median rolling;
          e = \<lparr>ev_regime = r, ev_decision = DecRejected, ev_baseline_cost = baseline,
               ev_lookup_cost = lookup, ev_transition_cost = transition_cost s,
               ev_gain_bps = estimated_gain_bps baseline lookup,
               ev_baseline_samples = QUALIFICATION_BASELINE_SAMPLES,
               ev_lookup_samples = QUALIFICATION_PROBE_SAMPLES,
               ev_counters = foldl accumulate_counters counters_zero counters,
               ev_cooldown = next_cooldown s\<rparr>
      in s\<lparr>last_evidence := Some e, phase := Rejected (next_cooldown s),
           next_cooldown := next_rejected_cooldown (next_cooldown s)\<rparr>)"

text \<open>
  One sample in one regime: the new state, the new statistics and whether to persist; \<open>None\<close> where
  the code returns early because the action does not belong to the phase.
\<close>

definition sample_step ::
  "regime \<Rightarrow> cost_action \<Rightarrow> nat \<Rightarrow> nat \<Rightarrow> nat \<Rightarrow> lookup_delta \<Rightarrow> regime_state \<Rightarrow> qualification_stats
   \<Rightarrow> (regime_state \<times> qualification_stats \<times> bool) option" where
  "sample_step r action cost elapsed progress delta s st =
     (case phase s of
        Delayed samples remaining \<Rightarrow>
          if action \<noteq> Ordinary then None
          else
            (let samples = keep_last QUALIFICATION_BASELINE_SAMPLES (samples @ [cost]);
                 remaining = remaining - progress;
                 ph = (if remaining = 0 then
                         (if length samples = QUALIFICATION_BASELINE_SAMPLES
                          then Probe (median samples) [] counters_zero else Baseline samples)
                       else Delayed samples remaining)
             in Some (s\<lparr>phase := ph\<rparr>, count_ordinary elapsed st, False))
      | Baseline samples \<Rightarrow>
          if action \<noteq> Ordinary then None
          else
            (let samples = samples @ [cost];
                 ph = (if length samples \<ge> QUALIFICATION_BASELINE_SAMPLES
                       then Probe (median samples) [] counters_zero else Baseline samples)
             in Some (s\<lparr>phase := ph\<rparr>, count_ordinary elapsed st, False))
      | Probe baseline samples counters \<Rightarrow>
          if action \<noteq> Lookup then None
          else
            (let samples = samples @ [cost];
                 counters = counters_accumulate delta (proposal_source r) counters
             in if length samples \<ge> QUALIFICATION_PROBE_SAMPLES
                then Some (conclude_probe r baseline samples counters s,
                           count_change (count_lookup elapsed st), True)
                else Some (s\<lparr>phase := Probe baseline samples counters\<rparr>, count_lookup elapsed st, False))
      | Qualified baseline rolling counters tokens \<Rightarrow>
          if action \<noteq> Lookup then None
          else
            (let rolling = keep_last QUALIFICATION_PROBE_SAMPLES (rolling @ [cost]);
                 counters = keep_last QUALIFICATION_PROBE_SAMPLES
                   (counters @ [counters_accumulate delta (proposal_source r) counters_zero]);
                 tokens = tokens - progress
             in if length rolling = QUALIFICATION_PROBE_SAMPLES
                   \<and> decide baseline (median rolling) = DecRejected
                then Some (drift_reject r baseline rolling counters s,
                           count_change (count_lookup elapsed st), True)
                else if tokens = 0
                then Some (s\<lparr>phase := Baseline [], last_evidence := None\<rparr>,
                           count_change (count_lookup elapsed st), True)
                else Some (s\<lparr>phase := Qualified baseline rolling counters tokens\<rparr>,
                           count_lookup elapsed st, False))
      | Rejected cooldown \<Rightarrow>
          if action \<noteq> Ordinary then None
          else
            (let cooldown = cooldown - progress in
             if cooldown = 0
             then Some (s\<lparr>phase := Baseline []\<rparr>, count_change (count_ordinary elapsed st), False)
             else Some (s\<lparr>phase := Rejected cooldown\<rparr>, count_ordinary elapsed st, False)))"

definition record_sample ::
  "nat \<Rightarrow> regime \<Rightarrow> cost_action \<Rightarrow> nat \<Rightarrow> nat \<Rightarrow> lookup_delta \<Rightarrow> controller \<Rightarrow> controller" where
  "record_sample now r action elapsed committed delta c =
     (if committed = 0 then c
      else
        (let s = regime_entry r (regimes c);
             cost = sat_add (elapsed div committed) (if action = Lookup then transition_cost s else 0)
         in case sample_step r action cost elapsed (normalized_progress r committed) delta s (qstats c) of
              None \<Rightarrow> c\<lparr>regimes := AList.update r s (regimes c)\<rparr>
            | Some (s', st', persist) \<Rightarrow>
                (let c = refresh_regime_gauges
                       (c\<lparr>regimes := AList.update r s' (regimes c), qstats := st'\<rparr>)
                 in if persist then queue_profile_write now c else c)))"

section \<open>Transitions and ineligible regimes\<close>

text \<open>What one regime of a finished lookup episode becomes: the state and whether its evidence changed.\<close>

definition transition_step :: "regime \<Rightarrow> nat \<Rightarrow> nat \<Rightarrow> regime_state \<Rightarrow> regime_state \<times> bool \<times> bool" where
  "transition_step r elapsed cost s =
     (let t = max (transition_cost s) cost; s = s\<lparr>transition_cost := t\<rparr> in
      case last_evidence s of
        None \<Rightarrow> (s, False, False)
      | Some e \<Rightarrow>
          (let execution = ev_lookup_cost e - ev_transition_cost e;
               lookup = sat_add execution t;
               d = decide (ev_baseline_cost e) lookup;
               e = e\<lparr>ev_transition_cost := t, ev_lookup_cost := lookup,
                     ev_gain_bps := estimated_gain_bps (ev_baseline_cost e) lookup, ev_decision := d\<rparr>;
               minimum = minimum_rejected_cooldown_tokens (batch_width r) (ev_baseline_cost e) elapsed
           in if d = DecQualified
              then (s\<lparr>last_evidence := Some (e\<lparr>ev_cooldown := 0\<rparr>)\<rparr>, True, False)
              else
                (let current = (case phase s of Rejected cooldown \<Rightarrow> cooldown | _ \<Rightarrow> next_cooldown s);
                     cooldown = max current minimum
                 in (s\<lparr>phase := Rejected cooldown,
                       next_cooldown := max (next_cooldown s) (next_rejected_cooldown cooldown),
                       last_evidence := Some (e\<lparr>ev_cooldown := cooldown\<rparr>)\<rparr>, True, True))))"

fun transition_regimes :: "nat \<Rightarrow> nat \<Rightarrow> regime list \<Rightarrow> controller \<Rightarrow> controller \<times> bool" where
  "transition_regimes elapsed cost [] c = (c, False)"
| "transition_regimes elapsed cost (r # rs) c =
     (let (s, persist, changed) = transition_step r elapsed cost (regime_entry r (regimes c));
          c = c\<lparr>regimes := AList.update r s (regimes c)\<rparr>;
          c = (if changed then c\<lparr>qstats := count_change (qstats c)\<rparr> else c);
          (c, rest) = transition_regimes elapsed cost rs c
      in (c, persist \<or> rest))"

definition record_lookup_transition :: "nat \<Rightarrow> regime list \<Rightarrow> nat \<Rightarrow> nat \<Rightarrow> controller \<Rightarrow> controller" where
  "record_lookup_transition now rs elapsed committed c =
     (if rs = [] \<or> elapsed = 0 \<or> committed = 0 then c
      else
        (let c = c\<lparr>qstats := (qstats c)\<lparr>lookup_cost_us := sat_add (lookup_cost_us (qstats c)) (elapsed div 1000)\<rparr>\<rparr>;
             (c, persist) = transition_regimes elapsed (elapsed div committed) rs c;
             c = refresh_regime_gauges c
         in if persist then queue_profile_write now c else c))"

definition ineligible_state :: "regime \<Rightarrow> regime_state \<Rightarrow> regime_state" where
  "ineligible_state r s =
     (let baseline = (case phase s of
            Probe b _ _ \<Rightarrow> b
          | Qualified b _ _ _ \<Rightarrow> b
          | _ \<Rightarrow> (case last_evidence s of Some e \<Rightarrow> ev_baseline_cost e | None \<Rightarrow> 0))
      in s\<lparr>last_evidence := Some
             \<lparr>ev_regime = r, ev_decision = DecIneligible, ev_baseline_cost = baseline, ev_lookup_cost = 0,
              ev_transition_cost = 0, ev_gain_bps = 0, ev_baseline_samples = QUALIFICATION_BASELINE_SAMPLES,
              ev_lookup_samples = 0, ev_counters = counters_zero, ev_cooldown = MAX_COOLDOWN\<rparr>,
           phase := Rejected MAX_COOLDOWN, next_cooldown := MAX_COOLDOWN\<rparr>)"

definition record_lookup_ineligible :: "nat \<Rightarrow> regime \<Rightarrow> controller \<Rightarrow> controller" where
  "record_lookup_ineligible now r c =
     (let s = regime_entry r (regimes c);
          c = c\<lparr>regimes := AList.update r (ineligible_state r s) (regimes c),
                qstats := count_change (qstats c)\<rparr>
      in queue_profile_write now (refresh_regime_gauges c))"

section \<open>Adaptive draft width\<close>

definition width_rejected :: "controller \<Rightarrow> width_regime \<Rightarrow> nat \<Rightarrow> bool" where
  "width_rejected c w n = (case map_of (regimes c) (qualification_regime w n) of
      Some s \<Rightarrow> is_rejected s | None \<Rightarrow> False)"

definition adaptive_draft_ceiling :: "width_regime \<Rightarrow> nat \<Rightarrow> controller \<Rightarrow> nat" where
  "adaptive_draft_ceiling w n c =
     (case find (width_rejected c w) [1..<Suc n] of Some k \<Rightarrow> max (k - 1) 1 | None \<Rightarrow> n)"

definition adaptive_draft_limit :: "regime \<Rightarrow> proposal_source \<Rightarrow> nat \<Rightarrow> controller \<Rightarrow> nat \<times> controller" where
  "adaptive_draft_limit base source n c =
     (let n = max n 1;
          w = width_regime_new base source;
          ceiling = adaptive_draft_ceiling w n c;
          s = (case map_of (draft_widths c) w of Some s \<Rightarrow> s | None \<Rightarrow> \<lparr>max_draft = n, current_draft = ceiling\<rparr>);
          current = clamp (current_draft s) 1 (min n ceiling)
      in (current, c\<lparr>draft_widths :=
            AList.update w \<lparr>max_draft = n, current_draft = current\<rparr> (draft_widths c)\<rparr>))"

definition adaptive_draft_limits :: "regime \<Rightarrow> nat \<Rightarrow> controller \<Rightarrow> draft_limits \<times> controller" where
  "adaptive_draft_limits base n c =
     (let (l, c) = adaptive_draft_limit base LocalSource n c;
          (s, c) = adaptive_draft_limit base SharedSource n c
      in (limits_new l s, c))"

definition transferable_baseline :: "regime \<Rightarrow> controller \<Rightarrow> (nat \<times> nat) option" where
  "transferable_baseline r c =
     (case map_of (regimes c) r of
        None \<Rightarrow> None
      | Some s \<Rightarrow>
          (let baseline = (case phase s of
                 Probe b _ _ \<Rightarrow> b
               | Qualified b _ _ _ \<Rightarrow> b
               | Rejected _ \<Rightarrow> (case last_evidence s of Some e \<Rightarrow> ev_baseline_cost e | None \<Rightarrow> 0)
               | _ \<Rightarrow> 0)
           in if baseline > 0 then Some (baseline, transition_cost s) else None))"

definition seeded_state :: "nat \<Rightarrow> nat \<Rightarrow> regime_state" where
  "seeded_state baseline transition =
     \<lparr>phase = Probe baseline [] counters_zero, last_evidence = None, next_cooldown = INITIAL_COOLDOWN,
      transition_cost = transition\<rparr>"

definition seed_adaptive_draft_regime :: "width_regime \<Rightarrow> nat \<Rightarrow> nat \<times> nat \<Rightarrow> controller \<Rightarrow> controller" where
  "seed_adaptive_draft_regime w n bt c =
     (let r = qualification_regime w n;
          s = (case map_of (regimes c) r of Some s \<Rightarrow> s | None \<Rightarrow> seeded_state (fst bt) (snd bt))
      in refresh_regime_gauges (c\<lparr>regimes := AList.update r s (regimes c)\<rparr>))"

definition observed_width :: "source_stats \<Rightarrow> nat \<Rightarrow> nat" where
  "observed_width st old =
     (let next = (if src_accepted_tokens st \<ge> src_drafted_tokens st then sat_add old 1
                  else max (sat_add (src_accepted_tokens st div max (src_hits st) 1) 1) (max (old - 1) 1))
      in if src_zero_accept_windows st > 0 then min next (max (old - 1) 1) else next)"

definition count_width_change :: "nat \<Rightarrow> nat \<Rightarrow> qualification_stats \<Rightarrow> qualification_stats" where
  "count_width_change old next st =
     (if next < old then st\<lparr>width_reductions := sat_add (width_reductions st) 1\<rparr>
      else if next > old then st\<lparr>width_increases := sat_add (width_increases st) 1\<rparr> else st)"

definition observe_adaptive_draft_width ::
  "regime \<Rightarrow> proposal_source \<Rightarrow> source_stats \<Rightarrow> controller \<Rightarrow> controller" where
  "observe_adaptive_draft_width base source st c =
     (if src_hits st = 0 \<or> src_drafted_tokens st = 0 then c
      else
        (let w = width_regime_new base source in
         case map_of (draft_widths c) w of
           None \<Rightarrow> c
         | Some s \<Rightarrow>
             (let ceiling = adaptive_draft_ceiling w (max_draft s) c in
              case transferable_baseline base c of
                None \<Rightarrow> c
              | Some bt \<Rightarrow>
                  (let old = clamp (current_draft s) 1 (max_draft s);
                       next = clamp (observed_width st old) 1 (min (max_draft s) ceiling);
                       c = c\<lparr>draft_widths := AList.update w (s\<lparr>current_draft := next\<rparr>) (draft_widths c),
                             qstats := count_width_change old next (qstats c)\<rparr>
                   in if next \<noteq> old then seed_adaptive_draft_regime w next bt c else c))))"

definition observe_adaptive_draft_widths :: "regime \<Rightarrow> lookup_delta \<Rightarrow> controller \<Rightarrow> controller" where
  "observe_adaptive_draft_widths r delta c =
     observe_adaptive_draft_width r SharedSource (d_shared_source delta)
       (observe_adaptive_draft_width r LocalSource (d_local_source delta) c)"

definition reduce_rejected_draft_width :: "regime \<Rightarrow> bool \<Rightarrow> controller \<Rightarrow> controller" where
  "reduce_rejected_draft_width r profitability c =
     (case proposal_source r of
        None \<Rightarrow> c
      | Some MixedSource \<Rightarrow> c
      | Some source \<Rightarrow>
          (let w = width_regime_new r source;
               bt = transferable_baseline r c;
               rejected = max (verify_width r - 1) 1
           in case map_of (draft_widths c) w of
                None \<Rightarrow> c
              | Some s \<Rightarrow>
                  (let old = clamp (current_draft s) 1 (max_draft s);
                       next = clamp (min old (max (rejected - 1) 1)) 1 (max_draft s);
                       c = c\<lparr>draft_widths := AList.update w (s\<lparr>current_draft := next\<rparr>) (draft_widths c)\<rparr>
                   in if next < old then
                        (let st = (qstats c)\<lparr>width_reductions := sat_add (width_reductions (qstats c)) 1\<rparr>;
                             st = (if profitability
                                   then st\<lparr>profitability_width_reductions :=
                                           sat_add (profitability_width_reductions st) 1\<rparr> else st);
                             c = c\<lparr>qstats := st\<rparr>
                         in case bt of Some x \<Rightarrow> seed_adaptive_draft_regime w next x c | None \<Rightarrow> c)
                      else c)))"

definition record_sample_with_adaptive_draft ::
  "nat \<Rightarrow> regime \<Rightarrow> cost_action \<Rightarrow> nat \<Rightarrow> nat \<Rightarrow> lookup_delta \<Rightarrow> controller \<Rightarrow> controller" where
  "record_sample_with_adaptive_draft now r action elapsed committed delta c =
     (let c = record_sample now r action elapsed committed delta c in
      if action \<noteq> Lookup then c
      else case map_of (regimes c) r of
             None \<Rightarrow> c
           | Some s \<Rightarrow>
               if is_rejected s then reduce_rejected_draft_width r True c
               else if is_qualified s then observe_adaptive_draft_widths r delta c
               else c)"

definition record_lookup_ineligible_with_adaptive_draft :: "nat \<Rightarrow> regime \<Rightarrow> controller \<Rightarrow> controller" where
  "record_lookup_ineligible_with_adaptive_draft now r c =
     reduce_rejected_draft_width r False (record_lookup_ineligible now r c)"

definition record_query_gate_skip :: "controller \<Rightarrow> controller" where
  "record_query_gate_skip c =
     c\<lparr>qstats := (qstats c)\<lparr>query_gate_skips := sat_add (query_gate_skips (qstats c)) 1\<rparr>\<rparr>"

definition record_miss_query_gate_skip :: "controller \<Rightarrow> controller" where
  "record_miss_query_gate_skip c =
     c\<lparr>qstats := (qstats c)\<lparr>miss_query_gate_skips := sat_add (miss_query_gate_skips (qstats c)) 1\<rparr>\<rparr>"

definition record_miss_query_reprobe :: "controller \<Rightarrow> controller" where
  "record_miss_query_reprobe c =
     c\<lparr>qstats := (qstats c)\<lparr>miss_query_reprobes := sat_add (miss_query_reprobes (qstats c)) 1\<rparr>\<rparr>"

section \<open>The operations as a machine\<close>

datatype cost_op =
    OpNext regime
  | OpSample nat regime cost_action nat nat lookup_delta
  | OpAdaptiveSample nat regime cost_action nat nat lookup_delta
  | OpTransition nat "regime list" nat nat
  | OpIneligible nat regime
  | OpAdaptiveIneligible nat regime
  | OpLimits regime nat
  | OpWriter
  | OpGateSkip
  | OpMissGateSkip
  | OpMissReprobe

fun cost_step :: "controller \<Rightarrow> cost_op \<Rightarrow> controller" where
  "cost_step c (OpNext r) = snd (next_action r c)"
| "cost_step c (OpSample now r a e k d) = record_sample now r a e k d c"
| "cost_step c (OpAdaptiveSample now r a e k d) = record_sample_with_adaptive_draft now r a e k d c"
| "cost_step c (OpTransition now rs e k) = record_lookup_transition now rs e k c"
| "cost_step c (OpIneligible now r) = record_lookup_ineligible now r c"
| "cost_step c (OpAdaptiveIneligible now r) = record_lookup_ineligible_with_adaptive_draft now r c"
| "cost_step c (OpLimits r n) = snd (adaptive_draft_limits r n c)"
| "cost_step c OpWriter = snd (writer_take c)"
| "cost_step c OpGateSkip = record_query_gate_skip c"
| "cost_step c OpMissGateSkip = record_miss_query_gate_skip c"
| "cost_step c OpMissReprobe = record_miss_query_reprobe c"

end
