(* ===== verification/CostInvariant.thy ===== *)
theory CostInvariant
  imports CostController
begin

text \<open>
  The invariant of the cost controller of \<open>ironmlx/src/core/prompt_lookup.rs\<close> over all of its
  operations. The flag \<open>strict\<close> adds what holds as long as no lookup episode reports its
  transition cost: cooldowns then stay on the ladder and the evidence agrees with the phase.
\<close>

section \<open>Association lists\<close>

lemmas update_facts = update_conv' distinct_update

section \<open>The invariant\<close>

definition rungs :: "bool \<Rightarrow> nat set" where
  "rungs strict = (if strict then cooldown_ladder else {512..32768})"

fun phase_ok :: "qualification_phase \<Rightarrow> bool" where
  "phase_ok (Delayed xs remaining) = (length xs \<le> 8 \<and> 0 < remaining \<and> remaining \<le> 512)"
| "phase_ok (Baseline xs) = (length xs < 8)"
| "phase_ok (Probe b xs cs) = (length xs < 8)"
| "phase_ok (Qualified b xs cs tokens) =
     (length xs \<le> 8 \<and> length cs = length xs \<and> 0 < tokens \<and> tokens \<le> 512
      \<and> (length xs = 8 \<longrightarrow> decide b (median xs) = DecQualified))"
| "phase_ok (Rejected c) = (0 < c \<and> c \<le> 32768)"

definition evidence_ok :: "bool \<Rightarrow> regime \<Rightarrow> evidence \<Rightarrow> bool" where
  "evidence_ok strict r e =
     (ev_regime e = r
      \<and> (if ev_decision e = DecQualified
         then ev_cooldown e = 0 \<and> decide (ev_baseline_cost e) (ev_lookup_cost e) = DecQualified
         else ev_cooldown e \<in> rungs strict))"

fun agrees :: "bool \<Rightarrow> qualification_phase \<Rightarrow> nat \<Rightarrow> evidence option \<Rightarrow> bool" where
  "agrees strict (Qualified b xs cs tokens) next oe =
     (case oe of None \<Rightarrow> False | Some e \<Rightarrow> ev_decision e = DecQualified \<and> ev_baseline_cost e = b
        \<and> (strict \<longrightarrow> next = INITIAL_COOLDOWN))"
| "agrees strict (Rejected c) next oe =
     (case oe of None \<Rightarrow> False | Some e \<Rightarrow> strict \<longrightarrow> ev_decision e \<noteq> DecQualified
        \<and> c \<le> ev_cooldown e \<and> next = next_rejected_cooldown (ev_cooldown e))"
| "agrees strict ph next oe =
     (case oe of None \<Rightarrow> True | Some e \<Rightarrow> strict \<longrightarrow> ev_decision e \<noteq> DecQualified
        \<and> next = next_rejected_cooldown (ev_cooldown e))"

definition state_ok :: "bool \<Rightarrow> regime \<Rightarrow> regime_state \<Rightarrow> bool" where
  "state_ok strict r s =
     (next_cooldown s \<in> rungs strict \<and> phase_ok (phase s)
      \<and> agrees strict (phase s) (next_cooldown s) (last_evidence s)
      \<and> (case last_evidence s of None \<Rightarrow> True | Some e \<Rightarrow> evidence_ok strict r e))"

definition gauges_exact :: "controller \<Rightarrow> bool" where
  "gauges_exact c =
     (qualified_regimes_current (qstats c) = length (filter (\<lambda>(_, s). is_qualified s) (regimes c))
      \<and> rejected_regimes_current (qstats c) = length (filter (\<lambda>(_, s). is_rejected s) (regimes c)))"

definition width_ok :: "width_state \<Rightarrow> bool" where
  "width_ok s = (1 \<le> current_draft s \<and> current_draft s \<le> max_draft s)"

definition cost_inv :: "bool \<Rightarrow> controller \<Rightarrow> bool" where
  "cost_inv strict c =
     (distinct (map fst (regimes c)) \<and> (\<forall>(r, s) \<in> set (regimes c). state_ok strict r s)
      \<and> distinct (map fst (draft_widths c)) \<and> (\<forall>(w, s) \<in> set (draft_widths c). width_ok s)
      \<and> gauges_exact c)"

section \<open>Rungs\<close>

lemma rungs_facts [simp]:
  "INITIAL_COOLDOWN \<in> rungs strict" "MAX_COOLDOWN \<in> rungs strict"
  "c \<in> rungs strict \<Longrightarrow> next_rejected_cooldown c \<in> rungs strict"
proof -
  show "INITIAL_COOLDOWN \<in> rungs strict" "MAX_COOLDOWN \<in> rungs strict"
    by (simp_all add: rungs_def cost_constants cooldown_ladder_def)
  show "c \<in> rungs strict \<Longrightarrow> next_rejected_cooldown c \<in> rungs strict"
    using next_cooldown_bounds [of c] next_in_ladder [of c]
    by (simp add: rungs_def cost_constants split: if_splits)
qed

lemma rungs_range: "c \<in> rungs strict \<Longrightarrow> 512 \<le> c \<and> c \<le> 32768"
  by (auto simp: rungs_def cooldown_ladder_def split: if_splits)

lemma minimum_rung: "minimum_rejected_cooldown_tokens w b e \<in> rungs False"
proof -
  have "minimum_rejected_cooldown_tokens w b e \<in> cooldown_ladder"
    by (simp add: minimum_rejected_cooldown_tokens_def Let_def cost_constants grow_cooldown_ladder
        cooldown_ladder_def)
  then show ?thesis by (auto simp: rungs_def cooldown_ladder_def)
qed

section \<open>Single states\<close>

lemma initial_ok: "state_ok strict r (initial_regime_state r)"
  by (simp add: state_ok_def initial_regime_state_def cost_constants)
    (simp add: rungs_def cooldown_ladder_def)

lemma seeded_ok: "state_ok strict r (seeded_state b t)"
  by (simp add: state_ok_def seeded_state_def)

lemma loaded_ok:
  assumes "evidence_ok strict (ev_regime e) e" and "ev_decision e \<noteq> DecQualified \<Longrightarrow> ev_cooldown e \<in> rungs strict"
  shows "state_ok strict (ev_regime e) (loaded_state e)"
proof (cases "ev_decision e = DecQualified")
  case True
  then show ?thesis using assms(1) by (simp add: state_ok_def loaded_state_def cost_constants)
      (simp add: rungs_def cooldown_ladder_def)
next
  case False
  then have l: "loaded_state e = \<lparr>phase = Rejected (ev_cooldown e), last_evidence = Some e,
      next_cooldown = next_rejected_cooldown (ev_cooldown e), transition_cost = ev_transition_cost e\<rparr>"
    by (auto simp: loaded_state_def split: qualification_decision.splits)
  have "0 < ev_cooldown e \<and> ev_cooldown e \<le> 32768"
    using rungs_range [OF assms(2) [OF False]] by simp
  then show ?thesis using False assms by (simp add: state_ok_def l)
qed

lemma decide_cases: "d = decide b l \<Longrightarrow> d = DecQualified \<or> d = DecRejected"
  by (simp add: decide_def)

lemma conclude_ok:
  assumes "state_ok strict r s"
  shows "state_ok strict r (conclude_probe r b xs cs s)"
proof -
  have n: "next_cooldown s \<in> rungs strict" using assms by (simp add: state_ok_def)
  note g = rungs_range [OF n]
  show ?thesis
    by (cases "decide b (median xs) = DecQualified")
      (use n g in \<open>simp_all add: conclude_probe_def Let_def state_ok_def evidence_ok_def REVALIDATE_TOKENS_def\<close>)
qed

lemma drift_ok:
  assumes "state_ok strict r s"
  shows "state_ok strict r (drift_reject r b xs cs s)"
proof -
  have n: "next_cooldown s \<in> rungs strict" using assms by (simp add: state_ok_def)
  note g = rungs_range [OF n]
  show ?thesis using n g by (simp add: drift_reject_def Let_def state_ok_def evidence_ok_def)
qed

lemma ineligible_ok: "state_ok strict r (ineligible_state r s)"
  by (simp add: ineligible_state_def Let_def state_ok_def evidence_ok_def)
    (simp add: next_rejected_cooldown_def clamp_def sat_mul_def u64_max_def cost_constants)

lemma keep_last_length: "length (keep_last n xs) = min n (length xs)"
  by (simp add: keep_last_def)

lemma sample_step_ok:
  assumes ok: "state_ok strict r s" and st: "sample_step r a cost e p d s st = Some (s', st', persist)"
  shows "state_ok strict r s'"
proof (cases "phase s")
  case (Delayed xs remaining)
  then show ?thesis using ok st
    by (auto simp: sample_step_def Let_def state_ok_def keep_last_length QUALIFICATION_BASELINE_SAMPLES_def
        split: if_splits)
next
  case (Baseline xs)
  then show ?thesis using ok st
    by (auto simp: sample_step_def Let_def state_ok_def QUALIFICATION_BASELINE_SAMPLES_def split: if_splits)
next
  case (Probe b xs cs)
  show ?thesis
  proof (cases "length xs + 1 \<ge> 8")
    case True
    then have "s' = conclude_probe r b (xs @ [cost]) (counters_accumulate d (proposal_source r) cs) s"
      using Probe st by (auto simp: sample_step_def Let_def QUALIFICATION_PROBE_SAMPLES_def split: if_splits)
    with conclude_ok [OF ok] show ?thesis by simp
  next
    case False
    then show ?thesis using Probe ok st
      by (auto simp: sample_step_def Let_def state_ok_def QUALIFICATION_PROBE_SAMPLES_def split: if_splits)
  qed
next
  case (Qualified b xs cs tokens)
  let ?xs = "keep_last QUALIFICATION_PROBE_SAMPLES (xs @ [cost])"
  let ?cs = "keep_last QUALIFICATION_PROBE_SAMPLES
      (cs @ [counters_accumulate d (proposal_source r) counters_zero])"
  have a: "a = Lookup" using st Qualified by (auto simp: sample_step_def split: if_splits)
  show ?thesis
  proof (cases "length ?xs = QUALIFICATION_PROBE_SAMPLES \<and> decide b (median ?xs) = DecRejected")
    case True
    then have "s' = drift_reject r b ?xs ?cs s"
      using Qualified st a by (simp add: sample_step_def Let_def)
    with drift_ok [OF ok] show ?thesis by simp
  next
    case drift: False
    show ?thesis
    proof (cases "tokens - p = 0")
      case True
      then have "s' = s\<lparr>phase := Baseline [], last_evidence := None\<rparr>"
        using Qualified st a drift by (auto simp: sample_step_def Let_def)
      with ok show ?thesis by (simp add: state_ok_def)
    next
      case False
      then have s': "s' = s\<lparr>phase := Qualified b ?xs ?cs (tokens - p)\<rparr>"
        using Qualified st a drift by (auto simp: sample_step_def Let_def)
      have "length ?xs = 8 \<longrightarrow> decide b (median ?xs) = DecQualified"
        using drift decide_cases [of "decide b (median ?xs)" b "median ?xs"]
        by (auto simp: QUALIFICATION_PROBE_SAMPLES_def)
      then show ?thesis using ok Qualified False
        by (auto simp: s' state_ok_def keep_last_length QUALIFICATION_PROBE_SAMPLES_def)
    qed
  qed
next
  case (Rejected c)
  then show ?thesis using ok st
    by (auto simp: sample_step_def Let_def state_ok_def split: if_splits option.splits)
qed

lemma transition_step_ok:
  assumes "state_ok False r s"
  shows "state_ok False r (fst (transition_step r e cost s))"
proof (cases "last_evidence s")
  case None
  then show ?thesis using assms by (simp add: transition_step_def Let_def state_ok_def)
next
  case (Some ev)
  let ?t = "max (transition_cost s) cost"
  let ?l = "sat_add (ev_lookup_cost ev - ev_transition_cost ev) ?t"
  let ?m = "minimum_rejected_cooldown_tokens (batch_width r) (ev_baseline_cost ev) e"
  show ?thesis
  proof (cases "decide (ev_baseline_cost ev) ?l = DecQualified")
    case True
    then show ?thesis using assms Some
      by (cases "phase s") (simp_all add: transition_step_def Let_def state_ok_def evidence_ok_def)
  next
    case False
    define cur where "cur = (case phase s of Rejected cooldown \<Rightarrow> cooldown | _ \<Rightarrow> next_cooldown s)"
    have n: "next_cooldown s \<in> {512..32768}" using assms by (simp add: state_ok_def rungs_def)
    have "cur \<le> 32768" using assms n
      by (cases "phase s") (simp_all add: cur_def state_ok_def)
    then have c: "max cur ?m \<in> {512..32768}" using minimum_rung [of "batch_width r" "ev_baseline_cost ev" e]
      by (auto simp: rungs_def)
    have x: "max (next_cooldown s) (next_rejected_cooldown (max cur ?m)) \<in> {512..32768}"
      using n next_cooldown_bounds [of "max cur ?m"] by (auto simp: cost_constants)
    have ev: "ev_regime ev = r" using assms Some by (simp add: state_ok_def evidence_ok_def)
    have step: "fst (transition_step r e cost s) = s\<lparr>transition_cost := ?t, phase := Rejected (max cur ?m),
        next_cooldown := max (next_cooldown s) (next_rejected_cooldown (max cur ?m)),
        last_evidence := Some (ev\<lparr>ev_transition_cost := ?t, ev_lookup_cost := ?l,
          ev_gain_bps := estimated_gain_bps (ev_baseline_cost ev) ?l,
          ev_decision := decide (ev_baseline_cost ev) ?l, ev_cooldown := max cur ?m\<rparr>)\<rparr>"
      using False Some by (cases "phase s") (simp_all add: transition_step_def Let_def cur_def)
    show ?thesis unfolding step using False c x ev
      by (simp add: state_ok_def evidence_ok_def rungs_def)
  qed
qed

section \<open>The controller\<close>

definition core_inv :: "bool \<Rightarrow> controller \<Rightarrow> bool" where
  "core_inv strict c =
     (distinct (map fst (regimes c)) \<and> (\<forall>(r, s) \<in> set (regimes c). state_ok strict r s)
      \<and> distinct (map fst (draft_widths c)) \<and> (\<forall>(w, s) \<in> set (draft_widths c). width_ok s))"

lemma cost_inv_core: "cost_inv strict c \<longleftrightarrow> core_inv strict c \<and> gauges_exact c"
  by (auto simp: cost_inv_def core_inv_def)

lemma set_update_subset: "set (AList.update k v al) \<subseteq> insert (k, v) (set al)"
  by (induction al) auto

lemma all_update:
  assumes "\<forall>(k, v) \<in> set al. P k v" and "P k v"
  shows "\<forall>(k, v) \<in> set (AList.update k v al). P k v"
  using assms set_update_subset [of k v al] by blast

lemma core_regimes:
  assumes "core_inv strict c" and "state_ok strict r s"
  shows "core_inv strict (c\<lparr>regimes := AList.update r s (regimes c)\<rparr>)"
  using assms all_update [of "regimes c" "state_ok strict" r s]
  by (simp add: core_inv_def distinct_update)

lemma core_widths:
  assumes "core_inv strict c" and "width_ok s"
  shows "core_inv strict (c\<lparr>draft_widths := AList.update w s (draft_widths c)\<rparr>)"
  using assms all_update [of "draft_widths c" "\<lambda>_. width_ok" w s]
  by (simp add: core_inv_def distinct_update)

lemma core_frame [frame_simps]:
  "core_inv strict (c\<lparr>qstats := st\<rparr>) = core_inv strict c"
  "core_inv strict (c\<lparr>mailbox := m\<rparr>) = core_inv strict c"
  "core_inv strict (refresh_regime_gauges c) = core_inv strict c"
  "core_inv strict (queue_profile_write now c) = core_inv strict c"
  by (simp_all add: core_inv_def refresh_regime_gauges_def queue_profile_write_def Let_def)

lemma refresh_inv: "cost_inv strict (refresh_regime_gauges c) = core_inv strict c"
  by (simp add: cost_inv_core frame_simps) (simp add: gauges_exact_def refresh_regime_gauges_def)

lemma queue_gauges: "gauges_exact (queue_profile_write now c) = gauges_exact c"
  by (simp add: gauges_exact_def queue_profile_write_def Let_def)

lemma queue_inv: "cost_inv strict (queue_profile_write now c) = cost_inv strict c"
  by (simp add: cost_inv_core frame_simps queue_gauges)

lemma entry_ok:
  assumes "core_inv strict c"
  shows "state_ok strict r (regime_entry r (regimes c))"
proof (cases "map_of (regimes c) r")
  case None
  then show ?thesis by (simp add: regime_entry_def initial_ok)
next
  case (Some s)
  then have "(r, s) \<in> set (regimes c)" by (rule map_of_SomeD)
  with assms Some show ?thesis by (auto simp: regime_entry_def core_inv_def)
qed

text \<open>Inserting a missing regime in its initial state, or rewriting an unchanged one, keeps the gauges.\<close>

lemma touch_gauges:
  assumes "\<And>s. map_of (regimes c) r = Some s \<Longrightarrow> s' = s"
    and "map_of (regimes c) r = None \<Longrightarrow> \<not> is_qualified s' \<and> \<not> is_rejected s'"
    and "gauges_exact c"
  shows "gauges_exact (c\<lparr>regimes := AList.update r s' (regimes c)\<rparr>)"
  using assms by (cases "map_of (regimes c) r") (simp_all add: update_same update_new gauges_exact_def)

lemma entry_inv:
  assumes "cost_inv strict c"
  shows "cost_inv strict (c\<lparr>regimes := AList.update r (regime_entry r (regimes c)) (regimes c)\<rparr>)"
proof -
  have "gauges_exact (c\<lparr>regimes := AList.update r (regime_entry r (regimes c)) (regimes c)\<rparr>)"
    using assms by (intro touch_gauges)
      (auto simp: regime_entry_def cost_inv_core initial_regime_state_def is_qualified_def is_rejected_def)
  then show ?thesis using assms by (simp add: cost_inv_core core_regimes entry_ok)
qed

lemma next_action_inv [inv_intros]: "cost_inv strict c \<Longrightarrow> cost_inv strict (snd (next_action r c))"
  using entry_inv [of strict c r]
  by (simp add: next_action_def Let_def split: qualification_phase.split)

lemma record_sample_inv [inv_intros]:
  assumes "cost_inv strict c"
  shows "cost_inv strict (record_sample now r a e k d c)"
proof (cases "k = 0")
  case True
  with assms show ?thesis by (simp add: record_sample_def)
next
  case False
  define s where "s = regime_entry r (regimes c)"
  define cost where "cost = sat_add (e div k) (if a = Lookup then transition_cost s else 0)"
  show ?thesis
  proof (cases "sample_step r a cost e (normalized_progress r k) d s (qstats c)")
    case None
    then have "record_sample now r a e k d c = c\<lparr>regimes := AList.update r s (regimes c)\<rparr>"
      using False by (simp add: record_sample_def Let_def flip: s_def cost_def)
    with entry_inv [OF assms] show ?thesis by (simp add: s_def)
  next
    case (Some x)
    obtain s' st' persist where x: "x = (s', st', persist)" by (cases x) auto
    let ?c = "refresh_regime_gauges (c\<lparr>regimes := AList.update r s' (regimes c), qstats := st'\<rparr>)"
    have eq: "record_sample now r a e k d c = (if persist then queue_profile_write now ?c else ?c)"
      using False Some by (simp add: record_sample_def Let_def x flip: s_def cost_def)
    have core: "core_inv strict c" using assms by (simp add: cost_inv_core)
    have "state_ok strict r s" using entry_ok [OF core] by (simp add: s_def)
    then have "state_ok strict r s'" using Some x by (simp add: sample_step_ok)
    then have "core_inv strict (c\<lparr>regimes := AList.update r s' (regimes c)\<rparr>)" by (rule core_regimes [OF core])
    then have "cost_inv strict ?c" by (simp add: refresh_inv core_inv_def)
    then show ?thesis by (simp add: eq queue_inv)
  qed
qed

lemma transition_regimes_core:
  "core_inv False c \<Longrightarrow> core_inv False (fst (transition_regimes e cost rs c))"
proof (induction rs arbitrary: c)
  case (Cons r rs)
  obtain s p ch where st: "transition_step r e cost (regime_entry r (regimes c)) = (s, p, ch)"
    by (metis prod_cases3)
  have "state_ok False r s"
    using transition_step_ok [OF entry_ok [OF Cons.prems], of r e cost] st by simp
  then have "core_inv False (c\<lparr>regimes := AList.update r s (regimes c)\<rparr>)" by (rule core_regimes [OF Cons.prems])
  then have "core_inv False (if ch then (c\<lparr>regimes := AList.update r s (regimes c)\<rparr>)\<lparr>qstats := count_change (qstats c)\<rparr>
      else c\<lparr>regimes := AList.update r s (regimes c)\<rparr>)" by (simp add: core_inv_def)
  from Cons.IH [OF this] show ?case
    by (cases ch) (auto simp: st Let_def split: prod.splits)
qed simp

lemma transition_inv [inv_intros]:
  assumes "cost_inv False c"
  shows "cost_inv False (record_lookup_transition now rs e k c)"
proof (cases "rs = [] \<or> e = 0 \<or> k = 0")
  case True
  with assms show ?thesis by (simp add: record_lookup_transition_def)
next
  case False
  let ?c = "c\<lparr>qstats := (qstats c)\<lparr>lookup_cost_us := sat_add (lookup_cost_us (qstats c)) (e div 1000)\<rparr>\<rparr>"
  obtain c' p where t: "transition_regimes e (e div k) rs ?c = (c', p)" by fastforce
  have "core_inv False c'"
    using transition_regimes_core [of ?c e "e div k" rs] assms t by (simp add: cost_inv_core frame_simps)
  then show ?thesis using False t
    by (simp add: record_lookup_transition_def Let_def refresh_inv queue_inv)
qed

lemma ineligible_inv [inv_intros]:
  assumes "cost_inv strict c"
  shows "cost_inv strict (record_lookup_ineligible now r c)"
proof -
  let ?s = "ineligible_state r (regime_entry r (regimes c))"
  have "core_inv strict (c\<lparr>regimes := AList.update r ?s (regimes c)\<rparr>)"
    using assms by (intro core_regimes ineligible_ok) (simp add: cost_inv_core)
  then show ?thesis by (simp add: record_lookup_ineligible_def Let_def queue_inv refresh_inv core_inv_def)
qed

lemma find_le:
  assumes "find P [1..<Suc n] = Some k"
  shows "1 \<le> k \<and> k \<le> n \<and> P k \<and> (\<forall>j. 1 \<le> j \<and> j < k \<longrightarrow> \<not> P j)"
proof -
  obtain i where i: "i < n" "P ([1..<Suc n] ! i)" "k = [1..<Suc n] ! i"
    "\<And>j. j < i \<Longrightarrow> \<not> P ([1..<Suc n] ! j)"
    using assms by (auto simp: find_Some_iff simp del: upt_Suc)
  then have k: "k = Suc i" by (simp del: upt_Suc)
  have "\<not> P j" if "1 \<le> j" "j < k" for j
    using i(4) [of "j - 1"] that k i(1) by (simp del: upt_Suc)
  then show ?thesis using i k by (auto simp del: upt_Suc)
qed

lemma ceiling_bounds: "1 \<le> n \<Longrightarrow> 1 \<le> adaptive_draft_ceiling w n c \<and> adaptive_draft_ceiling w n c \<le> n"
  using find_le [of "width_rejected c w" n]
  by (auto simp: adaptive_draft_ceiling_def simp del: upt_Suc split: option.split)

lemma limit_inv:
  assumes "cost_inv strict c"
  shows "cost_inv strict (snd (adaptive_draft_limit base source n c))"
proof -
  let ?n = "max n 1"
  let ?w = "width_regime_new base source"
  let ?ceil = "adaptive_draft_ceiling ?w ?n c"
  have b: "1 \<le> ?ceil" "?ceil \<le> ?n" using ceiling_bounds [of ?n ?w c] by auto
  have "width_ok \<lparr>max_draft = ?n, current_draft = clamp x 1 (min ?n ?ceil)\<rparr>" for x
    using clamp_bounds [of 1 "min ?n ?ceil" x] b by (simp add: width_ok_def)
  then show ?thesis using assms
    by (simp add: adaptive_draft_limit_def Let_def cost_inv_core core_widths gauges_exact_def)
qed

lemma limits_inv [inv_intros]:
  assumes "cost_inv strict c"
  shows "cost_inv strict (snd (adaptive_draft_limits base n c))"
  using limit_inv [OF limit_inv [OF assms]]
  by (simp add: adaptive_draft_limits_def split: prod.splits) (metis snd_conv)

lemma seed_inv:
  assumes "core_inv strict c"
  shows "cost_inv strict (seed_adaptive_draft_regime w n bt c)"
proof -
  let ?r = "qualification_regime w n"
  let ?s = "case map_of (regimes c) ?r of Some s \<Rightarrow> s | None \<Rightarrow> seeded_state (fst bt) (snd bt)"
  have "state_ok strict ?r ?s"
    using assms by (auto simp: core_inv_def seeded_ok split: option.split dest: map_of_SomeD)
  then show ?thesis using core_regimes [OF assms]
    by (simp add: seed_adaptive_draft_regime_def Let_def refresh_inv)
qed

lemma width_change_inv:
  assumes "cost_inv strict c" and "width_ok s"
    and "qualified_regimes_current st = qualified_regimes_current (qstats c)"
    and "rejected_regimes_current st = rejected_regimes_current (qstats c)"
  shows "cost_inv strict (c\<lparr>draft_widths := AList.update w s (draft_widths c), qstats := st\<rparr>)"
proof -
  have "core_inv strict (c\<lparr>draft_widths := AList.update w s (draft_widths c)\<rparr>)"
    using assms(1,2) by (intro core_widths) (simp_all add: cost_inv_core)
  with assms show ?thesis by (simp add: cost_inv_core core_inv_def gauges_exact_def)
qed

lemma count_width_gauges [simp]:
  "qualified_regimes_current (count_width_change old next st) = qualified_regimes_current st"
  "rejected_regimes_current (count_width_change old next st) = rejected_regimes_current st"
  by (simp_all add: count_width_change_def)

lemma width_entry:
  assumes "core_inv strict c" and "map_of (draft_widths c) w = Some s"
  shows "width_ok s"
  using assms by (auto simp: core_inv_def dest!: map_of_SomeD)

lemma observe_inv:
  assumes "cost_inv strict c"
  shows "cost_inv strict (observe_adaptive_draft_width base source st c)"
proof (cases "src_hits st = 0 \<or> src_drafted_tokens st = 0")
  case True
  with assms show ?thesis by (simp add: observe_adaptive_draft_width_def)
next
  case False
  let ?w = "width_regime_new base source"
  show ?thesis
  proof (cases "map_of (draft_widths c) ?w")
    case None
    with assms False show ?thesis by (simp add: observe_adaptive_draft_width_def Let_def)
  next
    case (Some s)
    define old where "old = clamp (current_draft s) 1 (max_draft s)"
    define hi where "hi = min (max_draft s) (adaptive_draft_ceiling ?w (max_draft s) c)"
    define nxt where "nxt = clamp (observed_width st old) 1 hi"
    show ?thesis
    proof (cases "transferable_baseline base c")
      case None
      with assms False Some show ?thesis by (simp add: observe_adaptive_draft_width_def Let_def)
    next
      case bt: (Some bt)
      have "width_ok s" using assms Some by (auto simp: cost_inv_core intro: width_entry)
      then have "1 \<le> hi" "hi \<le> max_draft s"
        using ceiling_bounds [of "max_draft s" ?w c] by (auto simp: hi_def width_ok_def)
      then have "width_ok (s\<lparr>current_draft := nxt\<rparr>)"
        using clamp_bounds [of 1 hi "observed_width st old"] by (simp add: width_ok_def nxt_def)
      then have i: "cost_inv strict (c\<lparr>draft_widths := AList.update ?w (s\<lparr>current_draft := nxt\<rparr>) (draft_widths c),
          qstats := count_width_change old nxt (qstats c)\<rparr>)"
        by (rule width_change_inv [OF assms]) simp_all
      then have "core_inv strict (c\<lparr>draft_widths := AList.update ?w (s\<lparr>current_draft := nxt\<rparr>) (draft_widths c),
          qstats := count_width_change old nxt (qstats c)\<rparr>)" by (simp add: cost_inv_core)
      from seed_inv [OF this] i show ?thesis using False Some bt
        by (cases "nxt = old") (simp_all add: observe_adaptive_draft_width_def Let_def del: One_nat_def flip: old_def hi_def nxt_def)
    qed
  qed
qed

lemma reduce_inv:
  assumes "cost_inv strict c"
  shows "cost_inv strict (reduce_rejected_draft_width r prof c)"
proof (cases "proposal_source r = None \<or> proposal_source r = Some MixedSource")
  case True
  with assms show ?thesis by (auto simp: reduce_rejected_draft_width_def)
next
  case False
  then obtain src where src: "proposal_source r = Some src" "src \<noteq> MixedSource" by auto
  let ?w = "width_regime_new r src"
  show ?thesis
  proof (cases "map_of (draft_widths c) ?w")
    case None
    with assms src show ?thesis
      by (cases src) (simp_all add: reduce_rejected_draft_width_def Let_def)
  next
    case (Some s)
    define old where "old = clamp (current_draft s) 1 (max_draft s)"
    define nxt where "nxt = clamp (min old (max (max (verify_width r - 1) 1 - 1) 1)) 1 (max_draft s)"
    define c1 where "c1 = c\<lparr>draft_widths := AList.update ?w (s\<lparr>current_draft := nxt\<rparr>) (draft_widths c)\<rparr>"
    define st0 where "st0 = (qstats c1)\<lparr>width_reductions := sat_add (width_reductions (qstats c1)) 1\<rparr>"
    define st where "st = (if prof then st0\<lparr>profitability_width_reductions :=
        sat_add (profitability_width_reductions st0) 1\<rparr> else st0)"
    let ?c = "c\<lparr>draft_widths := AList.update ?w (s\<lparr>current_draft := nxt\<rparr>) (draft_widths c)\<rparr>"
    have "width_ok s" using assms Some by (auto simp: cost_inv_core intro: width_entry)
    then have wok: "width_ok (s\<lparr>current_draft := nxt\<rparr>)"
      using clamp_bounds [of 1 "max_draft s"] by (simp add: width_ok_def nxt_def)
    have i: "cost_inv strict ?c"
      using width_change_inv [OF assms wok, of "qstats c" ?w] by simp
    have j: "cost_inv strict (?c\<lparr>qstats := st\<rparr>)"
      using width_change_inv [OF assms wok, of st ?w] by (simp add: st_def st0_def c1_def)
    then have "core_inv strict (?c\<lparr>qstats := st\<rparr>)" by (simp add: cost_inv_core)
    note k = seed_inv [OF this]
    have eq: "reduce_rejected_draft_width r prof c =
        (if nxt < old then (case transferable_baseline r c of
            Some x \<Rightarrow> seed_adaptive_draft_regime ?w nxt x (?c\<lparr>qstats := st\<rparr>) | None \<Rightarrow> ?c\<lparr>qstats := st\<rparr>) else ?c)"
      using src Some unfolding reduce_rejected_draft_width_def
      by (cases src) (simp_all only: option.case proposal_source.case proposal_source.distinct Let_def
          old_def nxt_def st0_def st_def c1_def simp_thms)
    show ?thesis using i j k by (simp add: eq split: option.split)
  qed
qed

lemma adaptive_sample_inv [inv_intros]:
  assumes "cost_inv strict c"
  shows "cost_inv strict (record_sample_with_adaptive_draft now r a e k d c)"
proof -
  let ?c = "record_sample now r a e k d c"
  have "cost_inv strict ?c" by (rule record_sample_inv [OF assms])
  then have "cost_inv strict (observe_adaptive_draft_widths r d ?c)"
    and "cost_inv strict (reduce_rejected_draft_width r True ?c)" and "cost_inv strict ?c"
    by (simp_all add: observe_adaptive_draft_widths_def observe_inv reduce_inv)
  then show ?thesis
    by (auto simp: record_sample_with_adaptive_draft_def Let_def split: option.split)
qed

lemma adaptive_ineligible_inv [inv_intros]:
  "cost_inv strict c \<Longrightarrow> cost_inv strict (record_lookup_ineligible_with_adaptive_draft now r c)"
  by (simp add: record_lookup_ineligible_with_adaptive_draft_def reduce_inv ineligible_inv)

lemma small_ops_inv [inv_intros]:
  "cost_inv strict c \<Longrightarrow> cost_inv strict (snd (writer_take c))"
  "cost_inv strict c \<Longrightarrow> cost_inv strict (record_query_gate_skip c)"
  "cost_inv strict c \<Longrightarrow> cost_inv strict (record_miss_query_gate_skip c)"
  "cost_inv strict c \<Longrightarrow> cost_inv strict (record_miss_query_reprobe c)"
  by (simp_all add: writer_take_def record_query_gate_skip_def record_miss_query_gate_skip_def
      record_miss_query_reprobe_def cost_inv_core core_inv_def gauges_exact_def)

text \<open>In strict mode no operation reports a transition cost.\<close>

fun is_transition :: "cost_op \<Rightarrow> bool" where
  "is_transition (OpTransition now rs e k) = True"
| "is_transition op = False"

definition cost_op_ok :: "bool \<Rightarrow> controller \<Rightarrow> cost_op \<Rightarrow> bool" where
  "cost_op_ok strict c op = (strict \<longrightarrow> \<not> is_transition op)"

lemma cost_step_inv:
  assumes "cost_inv strict c" and "cost_op_ok strict c op"
  shows "cost_inv strict (cost_step c op)"
proof (cases "is_transition op")
  case True
  then have "\<not> strict" using assms(2) by (simp add: cost_op_ok_def)
  with True assms(1) show ?thesis by (cases op) (simp_all add: transition_inv)
next
  case False
  with assms(1) show ?thesis by (cases op) (simp_all add: inv_intros)
qed

interpretation cost_machine: invariant_machine cost_step "cost_op_ok strict" "cost_inv strict" for strict
  by unfold_locales (rule cost_step_inv)

section \<open>Start from a profile\<close>

definition file_ok :: "bool \<Rightarrow> profile option \<Rightarrow> bool" where
  "file_ok strict file =
     (case file of None \<Rightarrow> True | Some p \<Rightarrow> \<forall>e \<in> set (prof_entries p). evidence_ok strict (ev_regime e) e)"

lemma foldl_loaded:
  assumes "distinct (map fst al)" and "\<forall>(r, s) \<in> set al. state_ok strict r s"
    and "\<forall>e \<in> set es. evidence_ok strict (ev_regime e) e"
  shows "distinct (map fst (foldl (\<lambda>al e. AList.update (ev_regime e) (loaded_state e) al) al es))
    \<and> (\<forall>(r, s) \<in> set (foldl (\<lambda>al e. AList.update (ev_regime e) (loaded_state e) al) al es). state_ok strict r s)"
  using assms
proof (induction es arbitrary: al)
  case (Cons e es)
  have "state_ok strict (ev_regime e) (loaded_state e)"
    using Cons.prems(3) by (intro loaded_ok) (auto simp: evidence_ok_def)
  then have "\<forall>(r, s) \<in> set (AList.update (ev_regime e) (loaded_state e) al). state_ok strict r s"
    by (intro all_update Cons.prems(2))
  with Cons.IH [of "AList.update (ev_regime e) (loaded_state e) al"] Cons.prems show ?case
    by (simp add: distinct_update)
qed simp

lemma controller_new_inv:
  assumes "file_ok strict file"
  shows "cost_inv strict (controller_new now rt file)"
proof (cases "load_qualification_profile now rt file")
  case (Inl u)
  then show ?thesis by (simp add: controller_new_def refresh_inv) (simp add: core_inv_def)
next
  case (Inr op)
  show ?thesis
  proof (cases op)
    case None
    with Inr show ?thesis by (simp add: controller_new_def refresh_inv) (simp add: core_inv_def)
  next
    case (Some p)
    then have "file = Some p" using Inr
      by (auto simp: load_qualification_profile_def split: option.splits if_splits)
    then have "\<forall>e \<in> set (prof_entries p). evidence_ok strict (ev_regime e) e"
      using assms by (simp add: file_ok_def)
    from foldl_loaded [of "[]", OF _ _ this] Some Inr show ?thesis
      by (simp add: controller_new_def refresh_inv) (simp add: core_inv_def)
  qed
qed

lemma cost_run_inv:
  assumes "file_ok strict file" and "run_ok cost_step (cost_op_ok strict) (controller_new now rt file) ops"
  shows "cost_inv strict (run_ops cost_step (controller_new now rt file) ops)"
  using cost_machine.run_inv [OF controller_new_inv [OF assms(1)] assms(2)] .

lemma run_ok_loose: "run_ok cost_step (cost_op_ok False) c ops"
  by (induction ops arbitrary: c) (simp_all add: cost_op_ok_def)

lemma run_ok_strict: "\<forall>op \<in> set ops. \<not> is_transition op \<Longrightarrow> run_ok cost_step (cost_op_ok True) c ops"
  by (induction ops arbitrary: c) (simp_all add: cost_op_ok_def)

end
