(* ===== verification/CostProperties.thy ===== *)
theory CostProperties
  imports CostInvariant
begin

text \<open>
  What the cost controller of \<open>ironmlx/src/core/prompt_lookup.rs\<close> promises the scheduler: lookup
  runs only while it is being measured or has paid, the phases move along a fixed graph, a losing
  configuration backs off, evidence survives a restart, and draft widths stay below rejected ones.
\<close>

section \<open>The phase graph\<close>

inductive phase_edge :: "qualification_phase \<Rightarrow> qualification_phase \<Rightarrow> bool" where
  wait: "length ys \<le> 8 \<Longrightarrow> n' < n \<or> n' = n \<Longrightarrow> phase_edge (Delayed xs n) (Delayed ys n')"
| wait_baseline: "length ys < 8 \<Longrightarrow> phase_edge (Delayed xs n) (Baseline ys)"
| wait_probe: "length ys = 8 \<Longrightarrow> phase_edge (Delayed xs n) (Probe (median ys) [] counters_zero)"
| measure: "phase_edge (Baseline xs) (Baseline (xs @ [y]))"
| measured: "length (xs @ [y]) = 8 \<Longrightarrow> phase_edge (Baseline xs) (Probe (median (xs @ [y])) [] counters_zero)"
| probe: "phase_edge (Probe b xs cs) (Probe b (xs @ [y]) cs')"
| qualify: "length (xs @ [y]) = 8 \<Longrightarrow> decide b (median (xs @ [y])) = DecQualified
    \<Longrightarrow> phase_edge (Probe b xs cs) (Qualified b [] [] REVALIDATE_TOKENS)"
| reject: "length (xs @ [y]) = 8 \<Longrightarrow> decide b (median (xs @ [y])) = DecRejected
    \<Longrightarrow> phase_edge (Probe b xs cs) (Rejected c)"
| stay: "t' \<le> t \<Longrightarrow> 0 < t' \<Longrightarrow> phase_edge (Qualified b xs cs t) (Qualified b ys ds t')"
| revalidate: "phase_edge (Qualified b xs cs t) (Baseline [])"
| drift: "length ys = 8 \<Longrightarrow> decide b (median ys) = DecRejected
    \<Longrightarrow> phase_edge (Qualified b xs cs t) (Rejected c)"
| cool: "c' \<le> c \<Longrightarrow> 0 < c' \<Longrightarrow> phase_edge (Rejected c) (Rejected c')"
| retry: "phase_edge (Rejected c) (Baseline [])"

inductive_cases to_qualified: "phase_edge p (Qualified b xs cs t)"
inductive_cases to_rejected: "phase_edge p (Rejected c)"
inductive_simps from_rejected: "phase_edge (Rejected c) q"

lemma sample_step_edge:
  assumes ok: "phase_ok (phase s)" and st: "sample_step r a cost e p d s st = Some (s', st', persist)"
  shows "phase_edge (phase s) (phase s')"
proof (cases "phase s")
  case (Delayed xs n)
  then show ?thesis using st
    by (auto simp: sample_step_def Let_def keep_last_length QUALIFICATION_BASELINE_SAMPLES_def
        intro!: wait wait_baseline wait_probe split: if_splits)
next
  case (Baseline xs)
  then show ?thesis using ok st
    by (auto simp: sample_step_def Let_def QUALIFICATION_BASELINE_SAMPLES_def
        intro: measure intro!: measured split: if_splits)
next
  case (Probe b xs cs)
  let ?cs = "counters_accumulate d (proposal_source r) cs"
  show ?thesis
  proof (cases "length xs + 1 \<ge> 8")
    case True
    then have s': "s' = conclude_probe r b (xs @ [cost]) ?cs s" and len: "length (xs @ [cost]) = 8"
      using Probe st ok by (auto simp: sample_step_def Let_def QUALIFICATION_PROBE_SAMPLES_def split: if_splits)
    show ?thesis
    proof (cases "decide b (median (xs @ [cost])) = DecQualified")
      case True
      then show ?thesis using Probe len
        by (auto simp: s' conclude_probe_def Let_def intro: qualify)
    next
      case False
      then have "decide b (median (xs @ [cost])) = DecRejected"
        using decide_cases [OF refl, of b "median (xs @ [cost])"] by simp
      then show ?thesis using Probe len
        by (auto simp: s' conclude_probe_def Let_def intro: reject)
    qed
  next
    case False
    then show ?thesis using Probe st
      by (auto simp: sample_step_def Let_def QUALIFICATION_PROBE_SAMPLES_def intro: probe split: if_splits)
  qed
next
  case (Qualified b xs cs tokens)
  then show ?thesis using st
    by (auto simp: sample_step_def Let_def drift_reject_def QUALIFICATION_PROBE_SAMPLES_def
        intro: drift revalidate intro!: stay split: if_splits)
next
  case (Rejected c)
  then show ?thesis using st
    by (auto simp: sample_step_def Let_def intro: retry intro!: cool split: if_splits)
qed

section \<open>Safety\<close>

definition pays :: "nat \<Rightarrow> nat \<Rightarrow> bool" where
  "pays baseline lookup \<longleftrightarrow> sat_mul lookup 10000 \<le> sat_mul baseline 9700"

lemma decide_pays: "decide b l = DecQualified \<longleftrightarrow> pays b l"
  by (simp add: decide_def pays_def cost_constants)

lemma state_of:
  assumes "core_inv strict c" and "map_of (regimes c) r = Some s"
  shows "state_ok strict r s"
  using assms by (auto simp: core_inv_def dest!: map_of_SomeD)

lemma lookup_state:
  assumes "cost_inv False c" and "fst (next_action r c) = Lookup"
  obtains s where "map_of (regimes c) r = Some s"
    and "(\<exists>b xs cs. phase s = Probe b xs cs \<and> length xs < 8)
      \<or> (\<exists>b xs cs t e. phase s = Qualified b xs cs t \<and> 0 < t \<and> t \<le> 512 \<and> last_evidence s = Some e
           \<and> ev_regime e = r \<and> ev_baseline_cost e = b \<and> pays b (ev_lookup_cost e)
           \<and> (length xs = 8 \<longrightarrow> pays b (median xs)))"
proof -
  have core: "core_inv False c" using assms(1) by (simp add: cost_inv_core)
  show thesis
  proof (cases "map_of (regimes c) r")
    case None
    then show thesis using assms(2)
      by (simp add: next_action_def Let_def regime_entry_def initial_regime_state_def split: if_splits)
  next
    case (Some s)
    have ok: "state_ok False r s" by (rule state_of [OF core Some])
    show thesis
    proof (rule that [OF Some], cases "phase s")
      case (Qualified b xs cs t)
      then show "(\<exists>b xs cs. phase s = Probe b xs cs \<and> length xs < 8)
        \<or> (\<exists>b xs cs t e. phase s = Qualified b xs cs t \<and> 0 < t \<and> t \<le> 512 \<and> last_evidence s = Some e
           \<and> ev_regime e = r \<and> ev_baseline_cost e = b \<and> pays b (ev_lookup_cost e)
           \<and> (length xs = 8 \<longrightarrow> pays b (median xs)))"
        using ok by (auto simp: state_ok_def evidence_ok_def decide_pays split: option.splits)
    qed (use assms(2) Some ok in
        \<open>simp_all add: next_action_def Let_def regime_entry_def state_ok_def\<close>)
  qed
qed

text \<open>
  C4: prompt lookup runs only while it is being measured or has paid. From any profile whose
  entries are consistent, after any sequence of the controller's operations, the regimes are
  distinct and the two gauges count the qualified and rejected ones exactly; and whenever
  \<open>next_action\<close> answers \<open>Lookup\<close>, the regime either has fewer than eight probe samples, or its
  evidence shows a median cost at least three percent below the baseline, its eight most recent
  samples (once there are eight) have such a median too, and at most 512 tokens remain until it is
  measured again.
\<close>

theorem lookup_runs_only_when_it_pays:
  fixes now :: nat and rt :: runtime_config and ops :: "cost_op list"
  assumes "file_ok False file"
  defines "c \<equiv> run_ops cost_step (controller_new now rt file) ops"
  shows "distinct (map fst (regimes c)) \<and> gauges_exact c
    \<and> (fst (next_action r c) = Lookup \<longrightarrow>
        (\<exists>s. map_of (regimes c) r = Some s
           \<and> ((\<exists>b xs cs. phase s = Probe b xs cs \<and> length xs < 8)
              \<or> (\<exists>b xs cs t e. phase s = Qualified b xs cs t \<and> 0 < t \<and> t \<le> 512 \<and> last_evidence s = Some e
                   \<and> ev_regime e = r \<and> ev_baseline_cost e = b \<and> pays b (ev_lookup_cost e)
                   \<and> (length xs = 8 \<longrightarrow> pays b (median xs))))))"
proof -
  have i: "cost_inv False c"
    unfolding c_def by (rule cost_run_inv [OF assms(1) run_ok_loose])
  then show ?thesis using lookup_state [OF i, of r] by (metis cost_inv_def)
qed

definition demo_regime :: regime where
  "demo_regime = with_proposal (regime_new 1 300 \<lparr>temperature_bits = 0, top_k = None, top_p_bits = None,
     min_p_bits = None, repetition_penalty_bits = None, frequency_penalty_bits = None,
     presence_penalty_bits = None\<rparr>) LocalSource 4"

definition demo_runtime :: runtime_config where
  "demo_runtime = \<lparr>context_fingerprint = ''model'', baseline_of = BaseOrdinary\<rparr>"

definition demo_source :: "nat \<Rightarrow> nat \<Rightarrow> source_stats" where
  "demo_source drafted accepted = \<lparr>src_queries = 1, src_hits = 1, src_misses = 0,
     src_drafted_tokens = drafted, src_accepted_tokens = accepted, src_zero_accept_windows = 0,
     src_wasted_verify_tokens = drafted - accepted, src_propose_us = 0, src_verify_us = 0, src_rollback_us = 0\<rparr>"

definition demo_delta :: lookup_delta where
  "demo_delta = \<lparr>d_queries = 1, d_hits = 1, d_misses = 0, d_drafted_tokens = 3, d_accepted_tokens = 3,
     d_rejected_tokens = 0, d_zero_accept_windows = 0, d_propose_us = 0, d_verify_round_us = 0,
     d_rollback_count = 0, d_rollback_us = 0, d_local_source = demo_source 3 3,
     d_shared_source = demo_source 0 0\<rparr>"

definition demo_evidence :: "qualification_decision \<Rightarrow> nat \<Rightarrow> nat \<Rightarrow> nat \<Rightarrow> evidence" where
  "demo_evidence d baseline lookup cooldown =
     \<lparr>ev_regime = demo_regime, ev_decision = d, ev_baseline_cost = baseline, ev_lookup_cost = lookup,
      ev_transition_cost = 0, ev_gain_bps = estimated_gain_bps baseline lookup, ev_baseline_samples = 8,
      ev_lookup_samples = 8, ev_counters = counters_zero, ev_cooldown = cooldown\<rparr>"

definition demo_file :: "evidence list \<Rightarrow> profile" where
  "demo_file es = \<lparr>schema_version = 6, prof_fingerprint = ''model'', prof_baseline = BaseOrdinary,
     updated_at = 1000, prof_entries = es\<rparr>"

theorem lookup_runs_only_when_it_pays_witness:
  defines "file \<equiv> Some (demo_file [demo_evidence DecQualified 1000000 500000 0])"
  defines "c \<equiv> run_ops cost_step (controller_new 2000 demo_runtime file)
      [OpSample 2000 demo_regime Lookup 1200000 3 demo_delta]"
  shows "gauges_exact c \<and> fst (next_action demo_regime c) = Lookup
    \<and> (\<exists>s. map_of (regimes c) demo_regime = Some s \<and> phase s = Qualified 1000000 [400000]
         [counters_accumulate demo_delta (Some LocalSource) counters_zero] 509)"
proof -
  have f: "file_ok False file"
    by (simp add: file_def file_ok_def demo_file_def demo_evidence_def evidence_ok_def decide_pays
        pays_def sat_mul_def u64_max_def)
  have src: "proposal_source demo_regime = Some LocalSource" by (simp add: demo_regime_def with_proposal_def)
  have w: "normalized_progress demo_regime 3 = 3"
    by (simp add: demo_regime_def with_proposal_def regime_new_def normalized_progress_def div_ceil_def)
  have n: "controller_new 2000 demo_runtime file = refresh_regime_gauges
      \<lparr>runtime = demo_runtime, regimes = [(demo_regime, loaded_state (demo_evidence DecQualified 1000000 500000 0))],
       draft_widths = [], mailbox = None, qstats = stats_zero\<lparr>profile_loads := 1\<rparr>\<rparr>"
    by (simp add: file_def controller_new_def load_qualification_profile_def demo_file_def demo_evidence_def
        demo_runtime_def QUALIFICATION_SCHEMA_VERSION_def PROFILE_TTL_MS_def)
  have c: "map_of (regimes c) demo_regime = Some
      ((loaded_state (demo_evidence DecQualified 1000000 500000 0))\<lparr>phase := Qualified 1000000 [400000]
         [counters_accumulate demo_delta (Some LocalSource) counters_zero] 509\<rparr>)"
    by (simp add: c_def n record_sample_def Let_def regime_entry_def refresh_regime_gauges_def loaded_state_def
        demo_evidence_def sample_step_def w src keep_last_def cost_constants sat_add_def u64_max_def)
  then have a: "fst (next_action demo_regime c) = Lookup"
    by (simp add: next_action_def Let_def regime_entry_def)
  show ?thesis
    using lookup_runs_only_when_it_pays [OF f, of 2000 demo_runtime
        "[OpSample 2000 demo_regime Lookup 1200000 3 demo_delta]" demo_regime] c a
    unfolding c_def by simp
qed

section \<open>One sample\<close>

definition fits :: "cost_action \<Rightarrow> qualification_phase \<Rightarrow> bool" where
  "fits a ph = (a = (case ph of Probe _ _ _ \<Rightarrow> Lookup | Qualified _ _ _ _ \<Rightarrow> Lookup | _ \<Rightarrow> Ordinary))"

lemma sample_step_fits: "(sample_step r a cost e p d s st = None) = (\<not> fits a (phase s))"
  by (cases "phase s"; cases a) (auto simp: sample_step_def fits_def Let_def)

lemma next_action_fits: "fits (fst (next_action r c)) (phase (regime_entry r (regimes c)))"
  by (simp add: next_action_def Let_def fits_def split: qualification_phase.split)

lemma record_sample_regimes:
  assumes "k \<noteq> 0"
  shows "map_of (regimes (record_sample now r a e k d c)) =
    (map_of (regimes c)) (r \<mapsto>
      (case sample_step r a (sat_add (e div k) (if a = Lookup then transition_cost (regime_entry r (regimes c)) else 0))
          e (normalized_progress r k) d (regime_entry r (regimes c)) (qstats c) of
         None \<Rightarrow> regime_entry r (regimes c) | Some (s', _, _) \<Rightarrow> s'))"
  using assms
  by (auto simp: record_sample_def Let_def update_conv' refresh_regime_gauges_def queue_profile_write_def
      simp del: fun_upd_apply split: option.split prod.split)

lemma record_sample_entry:
  assumes "k \<noteq> 0"
  shows "regime_entry r (regimes (record_sample now r a e k d c)) =
      (case sample_step r a (sat_add (e div k) (if a = Lookup then transition_cost (regime_entry r (regimes c)) else 0))
          e (normalized_progress r k) d (regime_entry r (regimes c)) (qstats c) of
         None \<Rightarrow> regime_entry r (regimes c) | Some (s', _, _) \<Rightarrow> s')"
  unfolding regime_entry_def [of r "regimes (record_sample now r a e k d c)"] record_sample_regimes [OF assms]
  by simp

text \<open>
  C7: the phase machine. In any reachable controller, one sample moves only the regime it was
  taken in, and that regime along one edge of the phase graph when the sampled action is the one
  \<open>next_action\<close> asks for, and not at all otherwise. In particular a rejected regime cools down before
  it is measured again, and is qualified again only through eight ordinary and eight lookup samples.
\<close>

theorem sample_follows_phase_graph:
  fixes now t e k :: nat and rt :: runtime_config and ops :: "cost_op list" and r :: regime
    and a :: cost_action and d :: lookup_delta
  assumes "file_ok False file" and "k \<noteq> 0"
  defines "c \<equiv> run_ops cost_step (controller_new now rt file) ops"
  defines "c' \<equiv> record_sample t r a e k d c"
  shows "(\<forall>q. q \<noteq> r \<longrightarrow> map_of (regimes c') q = map_of (regimes c) q)
    \<and> (let p = phase (regime_entry r (regimes c)); p' = phase (regime_entry r (regimes c'))
       in if a = fst (next_action r c) then phase_edge p p' else p' = p)"
proof -
  let ?s = "regime_entry r (regimes c)"
  let ?st = "sample_step r a (sat_add (e div k) (if a = Lookup then transition_cost ?s else 0))
          e (normalized_progress r k) d ?s (qstats c)"
  have "cost_inv False c" unfolding c_def by (rule cost_run_inv [OF assms(1) run_ok_loose])
  then have ok: "phase_ok (phase ?s)"
    using entry_ok [of False c r] by (simp add: cost_inv_core state_ok_def)
  note m = record_sample_regimes [OF assms(2), of t r a e d c]
  have f: "(a = fst (next_action r c)) = fits a (phase ?s)"
    using next_action_fits [of r c] by (simp add: fits_def)
  have o: "\<forall>q. q \<noteq> r \<longrightarrow> map_of (regimes c') q = map_of (regimes c) q"
    by (simp add: c'_def m)
  have p: "regime_entry r (regimes c') = (case ?st of None \<Rightarrow> ?s | Some (s', _, _) \<Rightarrow> s')"
    unfolding c'_def by (rule record_sample_entry [OF assms(2)])
  show ?thesis
  proof (cases ?st)
    case None
    then have "\<not> fits a (phase ?s)" by (rule iffD1 [OF sample_step_fits])
    moreover have "regime_entry r (regimes c') = ?s" unfolding p None by simp
    ultimately show ?thesis using o f by (simp add: Let_def)
  next
    case (Some x)
    obtain s' st' b where x: "x = (s', st', b)" by (cases x) auto
    have "phase_edge (phase ?s) (phase s')"
      using sample_step_edge [OF ok] Some x by blast
    moreover have "fits a (phase ?s)" using Some sample_step_fits by (metis option.distinct(1))
    moreover have "regime_entry r (regimes c') = s'" unfolding p Some x by simp
    ultimately show ?thesis using o f by (simp add: Let_def)
  qed
qed

lemma demo_loaded:
  assumes "ev_decision e = DecQualified \<Longrightarrow> ev_cooldown e = 0"
    and "ev_decision e \<noteq> DecQualified \<Longrightarrow> ev_cooldown e \<in> cooldown_ladder"
  shows "controller_new 2000 demo_runtime (Some (demo_file [e])) = refresh_regime_gauges
      \<lparr>runtime = demo_runtime, regimes = [(ev_regime e, loaded_state e)], draft_widths = [],
       mailbox = None, qstats = stats_zero\<lparr>profile_loads := 1\<rparr>\<rparr>"
  using assms
  by (cases "ev_decision e") (simp_all add: controller_new_def load_qualification_profile_def demo_file_def
      demo_runtime_def QUALIFICATION_SCHEMA_VERSION_def PROFILE_TTL_MS_def valid_cooldown_iff)

theorem sample_follows_phase_graph_witness:
  defines "c \<equiv> controller_new 2000 demo_runtime (Some (demo_file [demo_evidence DecRejected 1000000 990000 512]))"
  defines "c' \<equiv> record_sample 2000 demo_regime Ordinary 512000000 512 demo_delta c"
  shows "phase (regime_entry demo_regime (regimes c)) = Rejected 512
    \<and> phase (regime_entry demo_regime (regimes c')) = Baseline []
    \<and> phase_edge (Rejected 512) (Baseline [])"
proof -
  let ?e = "demo_evidence DecRejected 1000000 990000 512"
  have f: "file_ok False (Some (demo_file [?e]))"
    by (simp add: file_ok_def demo_file_def demo_evidence_def evidence_ok_def rungs_def)
  have w: "normalized_progress demo_regime 512 = 512"
    by (simp add: demo_regime_def with_proposal_def regime_new_def normalized_progress_def div_ceil_def)
  have c: "c = refresh_regime_gauges \<lparr>runtime = demo_runtime, regimes = [(demo_regime, loaded_state ?e)],
      draft_widths = [], mailbox = None, qstats = stats_zero\<lparr>profile_loads := 1\<rparr>\<rparr>"
    unfolding c_def by (subst demo_loaded) (simp_all add: demo_evidence_def cooldown_ladder_def)
  have p: "phase (regime_entry demo_regime (regimes c)) = Rejected 512"
    by (simp add: c regime_entry_def refresh_regime_gauges_def loaded_state_def demo_evidence_def)
  have p': "phase (regime_entry demo_regime (regimes c')) = Baseline []"
    by (simp add: c'_def c record_sample_def Let_def regime_entry_def refresh_regime_gauges_def loaded_state_def
        demo_evidence_def sample_step_def w)
  have a: "fst (next_action demo_regime c) = Ordinary"
    using p by (simp add: next_action_def Let_def)
  show ?thesis
    using sample_follows_phase_graph [OF f, of 512 demo_regime 2000 Ordinary 512000000 demo_delta 2000
        demo_runtime "[]"] p p' a
    unfolding c'_def c_def by (simp add: Let_def)
qed

end
