(* ===== verification/CostProfile.thy ===== *)
theory CostProfile
  imports CostProperties
begin

text \<open>
  The cost controller of \<open>ironmlx/src/core/prompt_lookup.rs\<close> across restarts, over time and for draft
  widths: the persisted profile, the back-off cycle of a losing configuration, and the adaptive
  draft limit.
\<close>

section \<open>Persistence\<close>

lemma map_filter_evidence:
  "List.map_filter (\<lambda>(_, s). last_evidence s) ((r, s) # rs) =
     (case last_evidence s of None \<Rightarrow> [] | Some e \<Rightarrow> [e]) @ List.map_filter (\<lambda>(_, s). last_evidence s) rs"
  by (simp add: List.map_filter_def split: option.split)

lemma foldl_reload:
  assumes "distinct (map fst rs)" and "\<forall>(r, s) \<in> set rs. \<forall>e. last_evidence s = Some e \<longrightarrow> ev_regime e = r"
  shows "map_of (foldl (\<lambda>al e. AList.update (ev_regime e) (loaded_state e) al) al
      (List.map_filter (\<lambda>(_, s). last_evidence s) rs)) q =
    (case map_of rs q of
       Some s \<Rightarrow> (case last_evidence s of Some e \<Rightarrow> Some (loaded_state e) | None \<Rightarrow> map_of al q)
     | None \<Rightarrow> map_of al q)"
  using assms
proof (induction rs arbitrary: al)
  case Nil
  then show ?case by (simp add: List.map_filter_def)
next
  case (Cons x rs)
  obtain r s where x: "x = (r, s)" by (cases x) auto
  have r: "map_of rs r = None" using Cons.prems(1) x by (simp add: map_of_eq_None_iff)
  show ?case
  proof (cases "last_evidence s")
    case None
    then show ?thesis using Cons.IH [of al] Cons.prems x r
      by (auto simp: map_filter_evidence split: option.splits)
  next
    case (Some e)
    then have e: "ev_regime e = r" using Cons.prems(2) x by simp
    show ?thesis using Cons.IH [of "AList.update r (loaded_state e) al"] Cons.prems x r Some e
      by (auto simp: map_filter_evidence update_conv' split: option.splits)
  qed
qed

lemma reload_agrees:
  assumes "state_ok True r s" and "last_evidence s = Some e"
  shows "is_qualified (loaded_state e) = is_qualified s \<and> next_cooldown (loaded_state e) = next_cooldown s
    \<and> (\<forall>c. phase s = Rejected c \<longrightarrow> (\<exists>c'. phase (loaded_state e) = Rejected c' \<and> c \<le> c'))"
proof (cases "ev_decision e = DecQualified")
  case True
  with assms show ?thesis
    by (cases "phase s") (simp_all add: state_ok_def loaded_state_def is_qualified_def)
next
  case False
  then have l: "loaded_state e = \<lparr>phase = Rejected (ev_cooldown e), last_evidence = Some e,
      next_cooldown = next_rejected_cooldown (ev_cooldown e), transition_cost = ev_transition_cost e\<rparr>"
    by (auto simp: loaded_state_def split: qualification_decision.splits)
  show ?thesis using False assms
    by (cases "phase s") (simp_all add: state_ok_def l is_qualified_def)
qed

definition written_profile :: "nat \<Rightarrow> controller \<Rightarrow> profile" where
  "written_profile now c = the (mailbox (queue_profile_write now c))"

lemma written_profile_eq:
  "written_profile now c = \<lparr>schema_version = QUALIFICATION_SCHEMA_VERSION,
     prof_fingerprint = context_fingerprint (runtime c), prof_baseline = baseline_of (runtime c),
     updated_at = now, prof_entries = List.map_filter (\<lambda>(_, s). last_evidence s) (regimes c)\<rparr>"
  by (simp add: written_profile_def queue_profile_write_def Let_def)

lemma written_valid:
  assumes "cost_inv True c" and "now' - now \<le> PROFILE_TTL_MS"
  shows "load_qualification_profile now' (runtime c) (Some (written_profile now c)) = Inr (Some (written_profile now c))"
proof -
  have "\<not> list_ex (\<lambda>e. case ev_decision e of DecQualified \<Rightarrow> ev_cooldown e \<noteq> 0
      | _ \<Rightarrow> \<not> valid_rejected_cooldown (ev_cooldown e)) (List.map_filter (\<lambda>(_, s). last_evidence s) (regimes c))"
  proof -
    have all: "case ev_decision e of DecQualified \<Rightarrow> ev_cooldown e = 0
      | _ \<Rightarrow> valid_rejected_cooldown (ev_cooldown e)"
      if m: "e \<in> set (List.map_filter (\<lambda>(_, s). last_evidence s) (regimes c))" for e
    proof -
      obtain r s where rs: "(r, s) \<in> set (regimes c)" "last_evidence s = Some e"
        using m by (force simp: List.map_filter_def)
      then have "state_ok True r s" using assms(1) by (auto simp: cost_inv_def)
      then have "evidence_ok True r e" using rs(2) by (simp add: state_ok_def)
      then show ?thesis
        by (cases "ev_decision e") (simp_all add: evidence_ok_def valid_cooldown_iff rungs_def)
    qed
    show ?thesis
    proof
      assume "list_ex (\<lambda>e. case ev_decision e of DecQualified \<Rightarrow> ev_cooldown e \<noteq> 0
        | _ \<Rightarrow> \<not> valid_rejected_cooldown (ev_cooldown e)) (List.map_filter (\<lambda>(_, s). last_evidence s) (regimes c))"
      then obtain e where m: "e \<in> set (List.map_filter (\<lambda>(_, s). last_evidence s) (regimes c))"
        and bad: "case ev_decision e of DecQualified \<Rightarrow> ev_cooldown e \<noteq> 0
          | _ \<Rightarrow> \<not> valid_rejected_cooldown (ev_cooldown e)" by (auto simp: list_ex_iff)
      from all [OF m] bad show False by (cases "ev_decision e") simp_all
    qed
  qed
  then show ?thesis using assms(2)
    by (simp add: written_profile_eq load_qualification_profile_def not_less)
qed

text \<open>
  C5: evidence survives a restart. After any sequence of operations that reports no transition
  cost, from any consistent profile, the profile the controller writes is accepted by the loader for
  a week, and the controller it starts has exactly the regimes with evidence, each with the same
  back-off rung; qualified regimes stay qualified and rejected ones stay rejected for at least the
  remaining cooldown.
\<close>

theorem profile_survives_restart:
  fixes now now' t :: nat and rt :: runtime_config and ops :: "cost_op list" and r :: regime
  assumes "file_ok True file" and "\<forall>op \<in> set ops. \<not> is_transition op" and "now' - now \<le> PROFILE_TTL_MS"
  defines "c \<equiv> run_ops cost_step (controller_new t rt file) ops"
  defines "c' \<equiv> controller_new now' (runtime c) (Some (written_profile now c))"
  shows "profile_loads (qstats c') = 1
    \<and> (case map_option last_evidence (map_of (regimes c) r) of
         Some (Some e) \<Rightarrow>
           (let s = regime_entry r (regimes c); s' = loaded_state e
            in map_of (regimes c') r = Some s' \<and> is_qualified s' = is_qualified s
               \<and> next_cooldown s' = next_cooldown s
               \<and> (\<forall>x. phase s = Rejected x \<longrightarrow> (\<exists>x'. phase s' = Rejected x' \<and> x \<le> x')))
       | _ \<Rightarrow> map_of (regimes c') r = None)"
proof -
  have i: "cost_inv True c"
    unfolding c_def by (rule cost_run_inv [OF assms(1) run_ok_strict [OF assms(2)]])
  have rs: "distinct (map fst (regimes c))" "\<forall>(r, s) \<in> set (regimes c). \<forall>e. last_evidence s = Some e \<longrightarrow> ev_regime e = r"
    using i by (auto simp: cost_inv_def state_ok_def evidence_ok_def)
  have c': "c' = refresh_regime_gauges \<lparr>runtime = runtime c,
      regimes = foldl (\<lambda>al e. AList.update (ev_regime e) (loaded_state e) al) []
        (List.map_filter (\<lambda>(_, s). last_evidence s) (regimes c)),
      draft_widths = [], mailbox = None, qstats = stats_zero\<lparr>profile_loads := 1\<rparr>\<rparr>"
    unfolding c'_def controller_new_def written_valid [OF i assms(3)] by (simp add: written_profile_eq)
  have m: "map_of (regimes c') r = (case map_of (regimes c) r of
       Some s \<Rightarrow> (case last_evidence s of Some e \<Rightarrow> Some (loaded_state e) | None \<Rightarrow> None) | None \<Rightarrow> None)"
    by (simp add: c' refresh_regime_gauges_def foldl_reload [OF rs] split: option.split)
  have l: "profile_loads (qstats c') = 1" by (simp add: c' refresh_regime_gauges_def)
  show ?thesis
  proof (cases "map_of (regimes c) r")
    case None
    then show ?thesis using l m by simp
  next
    case (Some s)
    then have ok: "state_ok True r s" using i by (auto simp: cost_inv_core intro: state_of)
    show ?thesis
    proof (cases "last_evidence s")
      case None
      then show ?thesis using l m Some by simp
    next
      case e: (Some e)
      show ?thesis using l m Some e reload_agrees [OF ok e] by (simp add: regime_entry_def Let_def)
    qed
  qed
qed

theorem profile_survives_restart_witness:
  defines "c \<equiv> run_ops cost_step (controller_new 2000 demo_runtime
      (Some (demo_file [demo_evidence DecRejected 1000000 990000 2048])))
      [OpSample 2000 demo_regime Ordinary 548000000 548 demo_delta]"
  shows "phase (regime_entry demo_regime (regimes c)) = Rejected 1500
    \<and> phase (regime_entry demo_regime
         (regimes (controller_new 4000 (runtime c) (Some (written_profile 3000 c))))) = Rejected 2048"
proof -
  let ?e = "demo_evidence DecRejected 1000000 990000 2048"
  have f: "file_ok True (Some (demo_file [?e]))"
    by (simp add: file_ok_def demo_file_def demo_evidence_def evidence_ok_def rungs_def cooldown_ladder_def)
  have w: "normalized_progress demo_regime 548 = 548"
    by (simp add: demo_regime_def with_proposal_def regime_new_def normalized_progress_def div_ceil_def)
  have n: "controller_new 2000 demo_runtime (Some (demo_file [?e])) = refresh_regime_gauges
      \<lparr>runtime = demo_runtime, regimes = [(demo_regime, loaded_state ?e)],
      draft_widths = [], mailbox = None, qstats = stats_zero\<lparr>profile_loads := 1\<rparr>\<rparr>"
    by (subst demo_loaded) (simp_all add: demo_evidence_def cooldown_ladder_def)
  have c: "map_of (regimes c) demo_regime = Some ((loaded_state ?e)\<lparr>phase := Rejected 1500\<rparr>)"
    unfolding c_def run_ops_simps cost_step.simps n
    by (simp add: record_sample_def Let_def regime_entry_def refresh_regime_gauges_def loaded_state_def
        demo_evidence_def sample_step_def w)
  have t: "(4000 :: nat) - 3000 \<le> PROFILE_TTL_MS" by (simp add: PROFILE_TTL_MS_def)
  have ops: "\<forall>op \<in> set [OpSample 2000 demo_regime Ordinary 548000000 548 demo_delta]. \<not> is_transition op"
    by simp
  have le: "last_evidence ((loaded_state ?e)\<lparr>phase := Rejected 1500\<rparr>) = Some ?e"
    and p: "phase (loaded_state ?e) = Rejected 2048"
    by (simp_all add: loaded_state_def demo_evidence_def)
  note h = profile_survives_restart [OF f ops t, of 2000 demo_runtime demo_regime]
  from h have "map_of (regimes (controller_new 4000 (runtime c) (Some (written_profile 3000 c)))) demo_regime =
      Some (loaded_state ?e)"
    unfolding c_def [symmetric] by (simp add: c le Let_def)
  then show ?thesis using c p by (simp add: regime_entry_def)
qed

section \<open>Transition costs break the profile\<close>

lemma one_transition:
  assumes "elapsed \<noteq> 0" and "committed \<noteq> 0"
    and "transition_step r elapsed (elapsed div committed) (regime_entry r (regimes c)) = (s', True, b)"
  shows "regimes (record_lookup_transition now [r] elapsed committed c) = AList.update r s' (regimes c)"
    and "runtime (record_lookup_transition now [r] elapsed committed c) = runtime c"
    and "mailbox (record_lookup_transition now [r] elapsed committed c) = Some
      \<lparr>schema_version = QUALIFICATION_SCHEMA_VERSION, prof_fingerprint = context_fingerprint (runtime c),
       prof_baseline = baseline_of (runtime c), updated_at = now,
       prof_entries = List.map_filter (\<lambda>(_, s). last_evidence s) (AList.update r s' (regimes c))\<rparr>"
  using assms by (simp_all add: record_lookup_transition_def Let_def queue_profile_write_def refresh_regime_gauges_def)

lemma in_map_filter: "x \<in> set (List.map_filter f xs) \<longleftrightarrow> (\<exists>y \<in> set xs. f y = Some x)"
  by (induction xs) (auto simp: List.map_filter_def split: option.splits)

lemma updated_in: "(r, s) \<in> set (AList.update r s al)"
  by (induction al) auto

lemma refused_regimes:
  "load_qualification_profile now rt file = Inl () \<Longrightarrow> regimes (controller_new now rt file) = []"
  by (simp add: controller_new_def refresh_regime_gauges_def)

text \<open>
  C27: while a rejected regime cools down, with a remaining cooldown off the ladder, a transition is reported that leaves
  the regime rejected and asks for no longer cooldown. Then the profile written at that moment carries the remaining
  cooldown as evidence, the loader refuses the whole profile for as long as it is fresh, whatever evidence it holds
  of other regimes, and a controller that starts from it knows no regime at all.
\<close>

theorem transition_poisons_profile:
  assumes "phase (regime_entry r (regimes c)) = Rejected x" and "\<not> valid_rejected_cooldown x"
    and "last_evidence (regime_entry r (regimes c)) = Some e" and "elapsed \<noteq> 0" and "committed \<noteq> 0"
    and "decide (ev_baseline_cost e) (sat_add (ev_lookup_cost e - ev_transition_cost e)
      (max (transition_cost (regime_entry r (regimes c))) (elapsed div committed))) = DecRejected"
    and "minimum_rejected_cooldown_tokens (batch_width r) (ev_baseline_cost e) elapsed \<le> x"
    and "c' = record_lookup_transition now [r] elapsed committed c" and "now' - now \<le> PROFILE_TTL_MS"
  shows "(\<exists>p e'. mailbox c' = Some p \<and> e' \<in> set (prof_entries p) \<and> ev_regime e' = ev_regime e \<and> ev_cooldown e' = x)
    \<and> load_qualification_profile now' (runtime c) (mailbox c') = Inl ()
    \<and> regimes (controller_new now' (runtime c) (mailbox c')) = []"
proof -
  let ?s = "regime_entry r (regimes c)"
  let ?t = "max (transition_cost ?s) (elapsed div committed)"
  let ?l = "sat_add (ev_lookup_cost e - ev_transition_cost e) ?t"
  let ?e = "e\<lparr>ev_transition_cost := ?t, ev_lookup_cost := ?l, ev_gain_bps := estimated_gain_bps (ev_baseline_cost e) ?l,
      ev_decision := DecRejected, ev_cooldown := x\<rparr>"
  let ?s' = "?s\<lparr>transition_cost := ?t, phase := Rejected x, next_cooldown := max (next_cooldown ?s) (next_rejected_cooldown x),
      last_evidence := Some ?e\<rparr>"
  have t: "transition_step r elapsed (elapsed div committed) ?s = (?s', True, True)"
    using assms(1,3,6,7) by (simp add: transition_step_def Let_def max_def)
  note o = one_transition [OF assms(4,5) t, of now, folded assms(8)]
  define p where "p = the (mailbox c')"
  have m: "mailbox c' = Some p" unfolding p_def o(3) by simp
  have e: "?e \<in> set (prof_entries p)" using updated_in [of r ?s' "regimes c"] unfolding p_def o(3) by (force simp: in_map_filter)
  have "list_ex (\<lambda>e. case ev_decision e of DecQualified \<Rightarrow> ev_cooldown e \<noteq> 0 | _ \<Rightarrow> \<not> valid_rejected_cooldown (ev_cooldown e)) (prof_entries p)"
    unfolding list_ex_iff using e assms(2) by (intro bexI [OF _ e]) simp
  moreover have "schema_version p = QUALIFICATION_SCHEMA_VERSION" "prof_fingerprint p = context_fingerprint (runtime c)"
    "prof_baseline p = baseline_of (runtime c)" "updated_at p = now" unfolding p_def o(3) by simp_all
  ultimately have l: "load_qualification_profile now' (runtime c) (mailbox c') = Inl ()"
    using assms(9) unfolding m by (simp add: load_qualification_profile_def not_less)
  have "ev_regime ?e = ev_regime e \<and> ev_cooldown ?e = x" by simp
  then show ?thesis using m e l refused_regimes [OF l] by blast
qed

theorem transition_poisons_profile_witness:
  "\<exists>c p. c = record_lookup_transition 3000 [demo_regime] 1000 1 (run_ops cost_step
       (controller_new 2000 demo_runtime (Some (demo_file [demo_evidence DecRejected 1000000 990000 2048])))
       [OpSample 2000 demo_regime Ordinary 548000000 548 demo_delta])
     \<and> mailbox c = Some p \<and> 1500 \<in> ev_cooldown ` set (prof_entries p)
     \<and> regimes (controller_new 4000 demo_runtime (mailbox c)) = []"
proof -
  let ?e = "demo_evidence DecRejected 1000000 990000 2048"
  let ?c = "run_ops cost_step (controller_new 2000 demo_runtime (Some (demo_file [?e])))
         [OpSample 2000 demo_regime Ordinary 548000000 548 demo_delta]"
  have w: "normalized_progress demo_regime 548 = 548"
    by (simp add: demo_regime_def with_proposal_def regime_new_def normalized_progress_def div_ceil_def)
  have n: "controller_new 2000 demo_runtime (Some (demo_file [?e])) = refresh_regime_gauges
      \<lparr>runtime = demo_runtime, regimes = [(demo_regime, loaded_state ?e)],
      draft_widths = [], mailbox = None, qstats = stats_zero\<lparr>profile_loads := 1\<rparr>\<rparr>"
    by (subst demo_loaded) (simp_all add: demo_evidence_def cooldown_ladder_def)
  have r: "regimes ?c = [(demo_regime, (loaded_state ?e)\<lparr>phase := Rejected 1500\<rparr>)]" and rt: "runtime ?c = demo_runtime"
    unfolding run_ops_simps cost_step.simps n
    by (simp_all add: record_sample_def Let_def regime_entry_def refresh_regime_gauges_def loaded_state_def
        demo_evidence_def sample_step_def w)
  have s: "regime_entry demo_regime (regimes ?c) = (loaded_state ?e)\<lparr>phase := Rejected 1500\<rparr>" unfolding r by (simp add: regime_entry_def)
  have b: "batch_width demo_regime = 1" by (simp add: demo_regime_def with_proposal_def regime_new_def)
  have m: "minimum_rejected_cooldown_tokens 1 1000000 1000 \<le> 1500"
    by (simp add: minimum_rejected_cooldown_tokens_def Let_def cost_constants sat_mul_def u64_max_def div_ceil_def grow_cooldown_ladder)
  have d: "decide 1000000 (sat_add 990000 1000) = DecRejected"
    by (simp add: decide_def sat_mul_def sat_add_def u64_max_def cost_constants)
  have ev: "last_evidence ((loaded_state ?e)\<lparr>phase := Rejected 1500\<rparr>) = Some ?e" "transition_cost ((loaded_state ?e)\<lparr>phase := Rejected 1500\<rparr>) = 0"
    "ev_baseline_cost ?e = 1000000" "ev_lookup_cost ?e = 990000" "ev_transition_cost ?e = 0"
    by (simp_all add: loaded_state_def demo_evidence_def)
  let ?c' = "record_lookup_transition 3000 [demo_regime] 1000 1 ?c"
  have "(\<exists>p e'. mailbox ?c' = Some p \<and> e' \<in> set (prof_entries p) \<and> ev_regime e' = ev_regime ?e \<and> ev_cooldown e' = 1500)
    \<and> load_qualification_profile 4000 (runtime ?c) (mailbox ?c') = Inl () \<and> regimes (controller_new 4000 (runtime ?c) (mailbox ?c')) = []"
  proof (rule transition_poisons_profile [OF _ _ _ _ _ _ _ refl])
    show "\<not> valid_rejected_cooldown 1500" by (simp add: valid_cooldown_iff cooldown_ladder_def)
    show "last_evidence (regime_entry demo_regime (regimes ?c)) = Some ?e" unfolding s by (rule ev(1))
    show "decide (ev_baseline_cost ?e) (sat_add (ev_lookup_cost ?e - ev_transition_cost ?e)
        (max (transition_cost (regime_entry demo_regime (regimes ?c))) (1000 div 1))) = DecRejected" unfolding s ev using d by simp
    show "minimum_rejected_cooldown_tokens (batch_width demo_regime) (ev_baseline_cost ?e) 1000 \<le> 1500" unfolding b ev by (rule m)
    show "phase (regime_entry demo_regime (regimes ?c)) = Rejected 1500" unfolding s by simp
  qed (simp_all add: PROFILE_TTL_MS_def)
  then show ?thesis unfolding rt by force
qed



end
