(* ===== verification/CostCycle.thy ===== *)
theory CostCycle
  imports CostProfile
begin

text \<open>
  The cost controller of \<open>ironmlx/src/core/prompt_lookup.rs\<close> over many windows: the scheduler's loop
  "ask for an action, run it, record its sample" under steady costs, refined to one regime's state;
  and the adaptive draft width.
\<close>

section \<open>The measuring loop and its abstraction to one regime\<close>

text \<open>\<open>eo\<close> and \<open>el\<close>: nanoseconds an ordinary and a lookup window take; \<open>k\<close>: tokens both commit.\<close>

definition cost_round ::
  "nat \<Rightarrow> regime \<Rightarrow> nat \<Rightarrow> nat \<Rightarrow> nat \<Rightarrow> lookup_delta \<Rightarrow> nat \<times> controller \<Rightarrow> nat \<times> controller" where
  "cost_round now r eo el k d x =
     (let (a, c) = next_action r (snd x) in
      (fst x + (if a = Lookup then 1 else 0),
       record_sample now r a (if a = Lookup then el else eo) k d c))"

definition wanted :: "qualification_phase \<Rightarrow> cost_action" where
  "wanted ph = (case ph of Probe _ _ _ \<Rightarrow> Lookup | Qualified _ _ _ _ \<Rightarrow> Lookup | _ \<Rightarrow> Ordinary)"

definition state_round ::
  "regime \<Rightarrow> nat \<Rightarrow> nat \<Rightarrow> nat \<Rightarrow> lookup_delta \<Rightarrow> nat \<times> regime_state \<Rightarrow> nat \<times> regime_state" where
  "state_round r eo el k d x =
     (let s = snd x; a = wanted (phase s); e = (if a = Lookup then el else eo) in
      (fst x + (if a = Lookup then 1 else 0),
       (case sample_step r a (sat_add (e div k) (if a = Lookup then transition_cost s else 0)) e
               (normalized_progress r k) d s stats_zero of
          None \<Rightarrow> s | Some (s', _, _) \<Rightarrow> s')))"

lemma sample_step_stats:
  "map_option fst (sample_step r a cost e p d s st) = map_option fst (sample_step r a cost e p d s st')"
  by (cases "phase s"; cases a) (auto simp: sample_step_def Let_def)

lemma next_action_wanted:
  "next_action r c = (wanted (phase (regime_entry r (regimes c))),
     c\<lparr>regimes := AList.update r (regime_entry r (regimes c)) (regimes c)\<rparr>)"
  by (simp add: next_action_def Let_def wanted_def split: qualification_phase.split)

lemma entry_after_touch:
  "regime_entry r (AList.update r s al) = s"
  by (simp add: regime_entry_def update_conv')

definition view :: "regime \<Rightarrow> nat \<times> controller \<Rightarrow> nat \<times> regime_state" where
  "view r x = (fst x, regime_entry r (regimes (snd x)))"

lemma round_refines:
  assumes "k \<noteq> 0"
  shows "view r (cost_round now r eo el k d x) = state_round r eo el k d (view r x)"
proof -
  let ?c = "snd x"
  let ?s = "regime_entry r (regimes ?c)"
  let ?a = "wanted (phase ?s)"
  let ?e = "if ?a = Lookup then el else eo"
  let ?cost = "sat_add (?e div k) (if ?a = Lookup then transition_cost ?s else 0)"
  let ?t = "?c\<lparr>regimes := AList.update r ?s (regimes ?c)\<rparr>"
  let ?step = "\<lambda>st. sample_step r ?a ?cost ?e (normalized_progress r k) d ?s st"
  have t: "regime_entry r (regimes ?t) = ?s" "qstats ?t = qstats ?c" by (simp_all add: entry_after_touch)
  have "regime_entry r (regimes (record_sample now r ?a ?e k d ?t)) =
      (case ?step (qstats ?c) of None \<Rightarrow> ?s | Some (s', _, _) \<Rightarrow> s')"
    using record_sample_entry [OF assms, of r now ?a ?e d ?t] unfolding t .
  also have "\<dots> = (case ?step stats_zero of None \<Rightarrow> ?s | Some (s', _, _) \<Rightarrow> s')"
    using sample_step_stats [of r ?a ?cost ?e "normalized_progress r k" d ?s "qstats ?c" stats_zero]
    by (cases "?step (qstats ?c)"; cases "?step stats_zero") (auto split: prod.splits)
  finally show ?thesis
    by (simp only: view_def cost_round_def state_round_def next_action_wanted Let_def prod.case fst_conv snd_conv)
qed

lemma rounds_refine:
  assumes "k \<noteq> 0"
  shows "view r ((cost_round now r eo el k d ^^ m) x) = (state_round r eo el k d ^^ m) (view r x)"
  by (induction m) (simp_all add: round_refines [OF assms])

section \<open>Steady costs\<close>

lemma sort_replicate [simp]: "sort (replicate n (x :: nat)) = replicate n x"
  by (rule sorted_sort_id) (simp add: sorted_replicate)

lemma median_steady: "2 * x \<le> u64_max \<Longrightarrow> median (replicate 8 x) = x"
  by (simp add: median_def Let_def sat_add_def)

lemma replicate_snoc: "replicate n x @ [x] = replicate (Suc n) x"
  by (simp add: replicate_append_same)

lemma baseline_rounds:
  assumes "phase s = Baseline []" and "b0 = min (eo div k) u64_max" and "m \<le> 7"
  shows "(state_round r eo el k d ^^ m) (n, s) = (n, s\<lparr>phase := Baseline (replicate m b0)\<rparr>)"
  using assms
  by (induction m) (simp_all add: state_round_def wanted_def sample_step_def Let_def
      QUALIFICATION_BASELINE_SAMPLES_def sat_add_def replicate_snoc del: replicate_Suc)

lemma probe_rounds:
  assumes "phase s = Probe b [] cs" and "l = sat_add (el div k) (transition_cost s)" and "m \<le> 7"
  shows "(state_round r eo el k d ^^ m) (n, s) = (n + m, s\<lparr>phase := Probe b (replicate m l)
      ((counters_accumulate d (proposal_source r) ^^ m) cs)\<rparr>)"
  using assms
  by (induction m) (simp_all add: state_round_def wanted_def sample_step_def Let_def
      QUALIFICATION_PROBE_SAMPLES_def replicate_snoc del: replicate_Suc)

lemma cooling_rounds:
  assumes "phase s = Rejected c" and "m * normalized_progress r k < c"
  shows "(state_round r eo el k d ^^ m) (n, s) = (n, s\<lparr>phase := Rejected (c - m * normalized_progress r k)\<rparr>)"
  using assms
  by (induction m) (simp_all add: state_round_def wanted_def sample_step_def Let_def algebra_simps)

lemma baseline_8:
  assumes "phase s = Baseline []" and "b0 = min (eo div k) u64_max" and "2 * b0 \<le> u64_max"
  shows "(state_round r eo el k d ^^ 8) (n, s) = (n, s\<lparr>phase := Probe b0 [] counters_zero\<rparr>)"
proof -
  have "(state_round r eo el k d ^^ Suc 7) (n, s) = state_round r eo el k d (n, s\<lparr>phase := Baseline (replicate 7 b0)\<rparr>)"
    by (simp only: funpow.simps comp_apply baseline_rounds [OF assms(1,2) order_refl])
  also have "\<dots> = (n, s\<lparr>phase := Probe (median (replicate (Suc 7) b0)) [] counters_zero\<rparr>)"
    using assms(2) by (simp add: state_round_def wanted_def sample_step_def Let_def
        QUALIFICATION_BASELINE_SAMPLES_def sat_add_def replicate_snoc del: replicate_Suc)
  finally show ?thesis using median_steady [OF assms(3)] by simp
qed

lemma probe_8:
  assumes "phase s = Probe b [] cs" and "l = sat_add (el div k) (transition_cost s)"
  shows "\<exists>cs'. (state_round r eo el k d ^^ 8) (n, s) = (n + 8, conclude_probe r b (replicate 8 l) cs' s)"
proof -
  have "(state_round r eo el k d ^^ Suc 7) (n, s) = state_round r eo el k d (n + 7, s\<lparr>phase := Probe b (replicate 7 l)
      ((counters_accumulate d (proposal_source r) ^^ 7) cs)\<rparr>)"
    by (simp only: funpow.simps comp_apply probe_rounds [OF assms(1,2) order_refl])
  also have "\<exists>cs'. \<dots> = (n + 8, conclude_probe r b (replicate (Suc 7) l) cs' s)"
    using assms(2) by (simp add: state_round_def wanted_def sample_step_def Let_def conclude_probe_def
        QUALIFICATION_PROBE_SAMPLES_def replicate_snoc del: replicate_Suc) blast
  finally show ?thesis by simp
qed

lemma cool_down:
  assumes "phase s = Rejected c" and "0 < c" and "0 < normalized_progress r k"
  shows "(state_round r eo el k d ^^ div_ceil c (normalized_progress r k)) (n, s) = (n, s\<lparr>phase := Baseline []\<rparr>)"
proof -
  let ?p = "normalized_progress r k"
  obtain m where m: "div_ceil c ?p = Suc m"
    using div_ceil_pos [OF assms(2,3)] by (cases "div_ceil c ?p") auto
  have lo: "c \<le> Suc m * ?p" and hi: "m * ?p < c"
    using div_ceil_mult [OF assms(3), of c] by (simp_all add: m)
  have "(state_round r eo el k d ^^ Suc m) (n, s) = state_round r eo el k d (n, s\<lparr>phase := Rejected (c - m * ?p)\<rparr>)"
    by (simp only: funpow.simps comp_apply cooling_rounds [OF assms(1) hi])
  also have "\<dots> = (n, s\<lparr>phase := Baseline []\<rparr>)"
    using lo hi by (simp add: state_round_def wanted_def sample_step_def Let_def)
  finally show ?thesis by (simp add: m)
qed

text \<open>
  C6: what the controller learns under steady costs. From a regime that starts measuring, eight
  ordinary and eight lookup windows later it is qualified when lookup (with its transition cost) is
  at least three percent cheaper per token. Otherwise it is rejected, spends exactly its whole
  cooldown on ordinary decode, and measures again with the next rung of the ladder: one losing cycle
  runs lookup in exactly eight windows.
\<close>

theorem steady_costs_are_learned:
  fixes c :: controller and r :: regime and now eo el k :: nat and d :: lookup_delta
  assumes "k \<noteq> 0" and "0 < batch_width r"
    and "phase (regime_entry r (regimes c)) = Baseline []"
    and "0 < next_cooldown (regime_entry r (regimes c))"
    and "2 * (eo div k) \<le> u64_max"
  defines "s \<equiv> regime_entry r (regimes c)"
  defines "lookup \<equiv> sat_add (el div k) (transition_cost s)"
  shows "if 2 * lookup \<le> u64_max \<and> pays (eo div k) lookup
    then (let (n, c') = (cost_round now r eo el k d ^^ 16) (0, c)
          in n = 8 \<and> phase (regime_entry r (regimes c')) = Qualified (eo div k) [] [] 512)
    else 2 * lookup \<le> u64_max \<longrightarrow>
         (let (n, c') = (cost_round now r eo el k d ^^ (16 + div_ceil (next_cooldown s) (normalized_progress r k))) (0, c)
          in n = 8 \<and> phase (regime_entry r (regimes c')) = Baseline []
             \<and> next_cooldown (regime_entry r (regimes c')) = next_rejected_cooldown (next_cooldown s))"
proof -
  let ?f = "state_round r eo el k d"
  let ?p = "normalized_progress r k"
  have b: "eo div k = min (eo div k) u64_max" and b2: "2 * (eo div k) \<le> u64_max"
    using assms(5) by simp_all
  have p: "0 < ?p" using div_ceil_pos [of k "batch_width r"] assms(1,2) by (simp add: normalized_progress_def)
  have ph: "phase s = Baseline []" and nc: "0 < next_cooldown s" using assms(3,4) by (simp_all add: s_def)
  define s1 where "s1 = s\<lparr>phase := Probe (eo div k) [] counters_zero\<rparr>"
  have one: "(?f ^^ 8) (0, s) = (0, s1)" using baseline_8 [OF ph b b2] by (simp add: s1_def)
  obtain cs where two: "(?f ^^ 8) (0, s1) = (8, conclude_probe r (eo div k) (replicate 8 lookup) cs s1)"
    using probe_8 [where s = s1 and b = "eo div k" and cs = counters_zero and l = lookup and el = el and k = k and r = r
        and eo = eo and d = d and n = 0] by (auto simp: s1_def lookup_def)
  define s2 where "s2 = conclude_probe r (eo div k) (replicate 8 lookup) cs s1"
  have sixteen: "(?f ^^ 16) (0, s) = (8, s2)"
  proof -
    have "(?f ^^ (8 + 8)) (0, s) = (?f ^^ 8) ((?f ^^ 8) (0, s))" by (simp only: funpow_add comp_apply)
    then show ?thesis using one two by (simp add: s2_def)
  qed
  have ref: "view r ((cost_round now r eo el k d ^^ m) (0, c)) = (?f ^^ m) (0, s)" for m
    using rounds_refine [OF assms(1), where r = r and x = "(0, c)" and now = now and eo = eo and el = el and d = d and m = m] by (simp add: s_def view_def)
  show ?thesis
  proof (cases "2 * lookup \<le> u64_max")
    case True
    note med = median_steady [OF True]
    show ?thesis
    proof (cases "pays (eo div k) lookup")
      case pay: True
      then have "phase s2 = Qualified (eo div k) [] [] 512"
        by (simp add: s2_def conclude_probe_def Let_def med decide_pays REVALIDATE_TOKENS_def)
      then show ?thesis using True pay ref [of 16] sixteen
        by (cases "(cost_round now r eo el k d ^^ 16) (0, c)") (simp add: view_def)
    next
      case lose: False
      let ?m = "div_ceil (next_cooldown s) ?p"
      have ph2: "phase s2 = Rejected (next_cooldown s)"
        and nc2: "next_cooldown s2 = next_rejected_cooldown (next_cooldown s)"
        using lose by (simp_all add: s2_def conclude_probe_def Let_def med decide_pays s1_def)
      have "(?f ^^ (?m + 16)) (0, s) = (?f ^^ ?m) (8, s2)" by (simp only: funpow_add comp_apply sixteen)
      also have "\<dots> = (8, s2\<lparr>phase := Baseline []\<rparr>)" by (rule cool_down [OF ph2 nc p])
      finally have "(?f ^^ (16 + ?m)) (0, s) = (8, s2\<lparr>phase := Baseline []\<rparr>)" by (simp only: add.commute)
      then show ?thesis using lose True ref [of "16 + ?m"] nc2
        by (cases "(cost_round now r eo el k d ^^ (16 + ?m)) (0, c)") (simp add: view_def)
    qed
  qed simp
qed

theorem steady_costs_are_learned_witness:
  "let c = controller_new 2000 demo_runtime None;
       (n, c') = (cost_round 3000 demo_regime 1000000 990000 1 demo_delta ^^ 528) (0, c)
   in n = 8 \<and> phase (regime_entry demo_regime (regimes c')) = Baseline []
      \<and> next_cooldown (regime_entry demo_regime (regimes c')) = 2048"
proof -
  let ?c = "controller_new 2000 demo_runtime None"
  have b: "batch_width demo_regime = 1" by (simp add: demo_regime_def with_proposal_def regime_new_def)
  have e: "regime_entry demo_regime (regimes ?c) = initial_regime_state demo_regime"
    by (simp add: controller_new_def load_qualification_profile_def refresh_regime_gauges_def regime_entry_def)
  have s: "phase (regime_entry demo_regime (regimes ?c)) = Baseline []"
    "next_cooldown (regime_entry demo_regime (regimes ?c)) = 512"
    "transition_cost (regime_entry demo_regime (regimes ?c)) = 0"
    by (simp_all add: e initial_regime_state_def b INITIAL_COOLDOWN_def)
  have l: "sat_add (990000 div 1) 0 = 990000" by (simp add: sat_add_def u64_max_def)
  have p: "normalized_progress demo_regime 1 = 1" by (simp add: normalized_progress_def b div_ceil_def)
  have np: "\<not> pays (1000000 div 1) 990000" by (simp add: pays_def sat_mul_def u64_max_def)
  have "(1 :: nat) \<noteq> 0" "0 < batch_width demo_regime" "0 < next_cooldown (regime_entry demo_regime (regimes ?c))"
    "2 * (1000000 div 1) \<le> u64_max" by (simp_all add: b s u64_max_def)
  note h = steady_costs_are_learned [OF this(1,2) s(1) this(3,4), of 990000 3000 demo_delta]
  have "16 + div_ceil 512 1 = (528 :: nat)" by (simp add: div_ceil_def)
  then show ?thesis using h np
    by (simp only: s l p ladder_steps Let_def if_False simp_thms) (simp add: u64_max_def)
qed

section \<open>Adaptive draft width\<close>

lemma ceiling_below_rejected:
  assumes "1 \<le> k" and "width_rejected c w k"
  shows "adaptive_draft_ceiling w n c \<le> max (k - 1) 1 \<or> n < k"
proof (cases "find (width_rejected c w) [1..<Suc n]")
  case None
  then have "\<not> (k \<in> set [1..<Suc n])" using assms(2) by (metis find_None_iff)
  then show ?thesis using assms(1) by auto
next
  case (Some j)
  from find_le [OF Some] have "j \<le> k" using assms by (metis not_le)
  then show ?thesis using Some by (simp add: adaptive_draft_ceiling_def del: upt_Suc) linarith
qed

lemma limit_facts:
  assumes "adaptive_draft_limit base source n c = (m, c')"
  shows "1 \<le> m \<and> m \<le> max n 1 \<and> regimes c' = regimes c"
    and "1 \<le> k \<Longrightarrow> width_rejected c (width_regime_new base source) k \<Longrightarrow> m \<le> max (k - 1) 1"
proof -
  let ?w = "width_regime_new base source"
  let ?n = "max n 1"
  let ?ceil = "adaptive_draft_ceiling ?w ?n c"
  have ceil: "1 \<le> ?ceil" "?ceil \<le> ?n" using ceiling_bounds [of ?n ?w c] by auto
  obtain x where m: "m = clamp x 1 (min ?n ?ceil)" and r: "regimes c' = regimes c"
    using assms by (auto simp: adaptive_draft_limit_def Let_def)
  have b: "1 \<le> m" "m \<le> ?n" "m \<le> ?ceil"
    using clamp_bounds [of 1 "min ?n ?ceil" x] ceil by (simp_all add: m)
  then show "1 \<le> m \<and> m \<le> max n 1 \<and> regimes c' = regimes c" using r by simp
  show "m \<le> max (k - 1) 1" if "1 \<le> k" "width_rejected c ?w k"
    using ceiling_below_rejected [OF that, of ?n] b by linarith
qed

text \<open>
  The adaptive draft width stays below every rejected width. The limits handed to the proposer
  lie between one and the configured maximum, and for either source, once the regime that verifies
  drafts of \<open>k\<close> tokens is rejected, the limit of that source is at most \<open>k - 1\<close> (or one).
\<close>

theorem adaptive_limits_avoid_rejected:
  "let (d, c') = adaptive_draft_limits base n c;
       rejected = (\<lambda>source k. \<exists>s. map_of (regimes c)
          (qualification_regime (width_regime_new base source) k) = Some s \<and> is_rejected s)
   in 1 \<le> limit_local d \<and> limit_local d \<le> max n 1 \<and> 1 \<le> limit_shared d \<and> limit_shared d \<le> max n 1
      \<and> regimes c' = regimes c
      \<and> (\<forall>k \<ge> 1. (rejected LocalSource k \<longrightarrow> limit_local d \<le> max (k - 1) 1)
           \<and> (rejected SharedSource k \<longrightarrow> limit_shared d \<le> max (k - 1) 1))"
proof -
  obtain l c1 where 1: "adaptive_draft_limit base LocalSource n c = (l, c1)" by fastforce
  obtain s c2 where 2: "adaptive_draft_limit base SharedSource n c1 = (s, c2)" by fastforce
  have eq: "adaptive_draft_limits base n c = (limits_new l s, c2)"
    by (simp add: adaptive_draft_limits_def 1 2)
  note f1 = limit_facts [OF 1] and f2 = limit_facts [OF 2]
  have lim: "limit_local (limits_new l s) = l" "limit_shared (limits_new l s) = s"
    using f1(1) f2(1) by (simp_all add: limits_new_def)
  have w: "(\<exists>x. map_of (regimes c') (qualification_regime w k) = Some x \<and> is_rejected x) = width_rejected c' w k"
    for c' w k by (auto simp: width_rejected_def split: option.split)
  have c1: "width_rejected c1 w k = width_rejected c w k" for w k
    using f1(1) by (simp add: width_rejected_def)
  show ?thesis using f1 f2 by (simp add: eq lim w c1)
qed

theorem adaptive_limits_avoid_rejected_witness:
  defines "base \<equiv> regime_new 1 300 (sampler demo_regime)"
  defines "c \<equiv> run_ops cost_step (controller_new 2000 demo_runtime None) [OpAdaptiveIneligible 2000 demo_regime]"
  shows "qualification_regime (width_regime_new base LocalSource) 3 = demo_regime
    \<and> is_rejected (regime_entry demo_regime (regimes c))
    \<and> limit_local (fst (adaptive_draft_limits base 8 c)) \<le> 2"
proof -
  have q: "qualification_regime (width_regime_new base LocalSource) 3 = demo_regime"
    by (simp add: base_def qualification_regime_def width_regime_new_def demo_regime_def with_proposal_def
        regime_new_def sat_add_def u64_max_def)
  have m: "map_of (regimes c) demo_regime = Some (ineligible_state demo_regime (initial_regime_state demo_regime))"
    unfolding c_def run_ops_simps cost_step.simps
    by (simp add: record_lookup_ineligible_with_adaptive_draft_def reduce_rejected_draft_width_def
        record_lookup_ineligible_def Let_def refresh_regime_gauges_def queue_profile_write_def controller_new_def
        load_qualification_profile_def regime_entry_def split: option.split proposal_source.split)
  have r: "is_rejected (ineligible_state demo_regime (initial_regime_state demo_regime))"
    by (simp add: ineligible_state_def Let_def is_rejected_def)
  obtain d c' where d: "adaptive_draft_limits base 8 c = (d, c')" by fastforce
  have "(\<exists>s. map_of (regimes c) (qualification_regime (width_regime_new base LocalSource) 3) = Some s \<and> is_rejected s)
      \<longrightarrow> limit_local d \<le> max (3 - 1) 1"
    using adaptive_limits_avoid_rejected [of base 8 c] unfolding d Let_def prod.case
    by (metis one_le_numeral)
  then have "limit_local d \<le> 2" using q m r by simp
  then show ?thesis using q m r d by (simp add: regime_entry_def)
qed

end
