(* ===== verification/NgramIndex.thy ===== *)
theory NgramIndex
  imports Prelude
begin

text \<open>
  \<open>ironmlx/src/core/prompt_lookup.rs\<close>, \<open>PromptLookupRowState\<close>: a request's own history, indexed by the n-grams
  that precede each position, from which drafts for the next tokens are read.

  Hash maps are association lists; where the code iterates over one, \<open>iter\<close> stands for the order of the
  iteration, any permutation. \<open>RecentPositions\<close>, an array of two with a length, is the list of its first
  \<open>len\<close> values. Token counts stay far below \<open>u64::MAX\<close>, so positions are \<open>nat\<close> without wrap-around. The byte
  estimates, which read the allocators' capacities, are left out.
\<close>

section \<open>Configuration\<close>

record lookup_config =
  min_ngram :: nat
  max_ngram :: nat
  max_draft_tokens :: nat
  history_window_tokens :: nat
  max_index_entries :: nat
  cross_request :: bool

datatype lookup_config_error = MinNgramZero | MaxBelowMin | NoDraftTokens | WindowTooShort | NoIndexEntries

definition config_default :: lookup_config where
  "config_default = \<lparr>min_ngram = 2, max_ngram = 4, max_draft_tokens = 4, history_window_tokens = 32 * 1024,
     max_index_entries = 64 * 1024, cross_request = False\<rparr>"

definition config_validate :: "lookup_config \<Rightarrow> lookup_config_error + lookup_config" where
  "config_validate c =
     (if min_ngram c = 0 then Inl MinNgramZero
      else if max_ngram c < min_ngram c then Inl MaxBelowMin
      else if max_draft_tokens c = 0 then Inl NoDraftTokens
      else if history_window_tokens c \<le> max_ngram c then Inl WindowTooShort
      else if max_index_entries c = 0 then Inl NoIndexEntries
      else Inr c)"

section \<open>Keys and fingerprints\<close>

type_synonym token = "32 word"
type_synonym u64 = "64 word"

definition LANE0_SEED :: u64 where "LANE0_SEED = 0xcbf29ce484222325"
definition LANE1_SEED :: u64 where "LANE1_SEED = 0x6c62272e07bb0142"
definition LANE0_PRIME :: u64 where "LANE0_PRIME = 0x00000100000001b3"
definition LANE1_PRIME :: u64 where "LANE1_PRIME = 0x9e3779b185ebca87"

record ngram_key =
  key_len :: nat
  lane0 :: u64
  lane1 :: u64

text \<open>The step that mixes one token into the two lanes; keys and fingerprints share it.\<close>

definition mix_token :: "nat \<Rightarrow> token \<Rightarrow> u64 \<times> u64 \<Rightarrow> u64 \<times> u64" where
  "mix_token i t lanes =
     (let position = word_of_nat i :: u64;
          value = ucast t OR push_bit 32 (word_rotl 17 position);
          l0 = (fst lanes XOR value) * LANE0_PRIME;
          l0 = l0 XOR drop_bit 32 l0;
          l1 = snd lanes XOR (word_rotl 29 value XOR position * LANE0_PRIME);
          l1 = word_rotl 23 l1 * LANE1_PRIME;
          l1 = l1 XOR drop_bit 29 l1
      in (l0, l1))"

definition ngram_key_of :: "token list \<Rightarrow> ngram_key" where
  "ngram_key_of tokens =
     (let (l0, l1) = foldl (\<lambda>lanes (i, t). mix_token i t lanes) (LANE0_SEED, LANE1_SEED) (List.enumerate 0 tokens)
      in \<lparr>key_len = length tokens, lane0 = l0, lane1 = l1\<rparr>)"

record fingerprint =
  fp_len :: nat
  fp_lane0 :: u64
  fp_lane1 :: u64

definition fingerprint_new :: fingerprint where
  "fingerprint_new = \<lparr>fp_len = 0, fp_lane0 = LANE0_SEED, fp_lane1 = LANE1_SEED\<rparr>"

definition fingerprint_push :: "fingerprint \<Rightarrow> token \<Rightarrow> fingerprint" where
  "fingerprint_push f t =
     (let (l0, l1) = mix_token (fp_len f) t (fp_lane0 f, fp_lane1 f)
      in \<lparr>fp_len = sat_add (fp_len f) 1, fp_lane0 = l0, fp_lane1 = l1\<rparr>)"

definition fingerprint_of :: "token list \<Rightarrow> fingerprint" where
  "fingerprint_of h = foldl fingerprint_push fingerprint_new h"

section \<open>The index\<close>

record ledger_entry =
  le_key :: ngram_key
  continuation :: nat

definition POSITIONS_PER_NGRAM :: nat where "POSITIONS_PER_NGRAM = 2"

definition recent_push :: "nat list \<Rightarrow> nat \<Rightarrow> nat list" where
  "recent_push ps c = (if length ps < POSITIONS_PER_NGRAM then ps @ [c] else tl ps @ [c])"

record row_state =
  config :: lookup_config
  history :: "token list"
  history_fingerprint :: fingerprint
  index :: "(ngram_key \<times> nat list) list"
  ledger :: "ledger_entry list"
  index_entries_peak :: nat
  ledger_entries_peak :: nat
  index_evictions :: nat

text \<open>\<open>history[c - n..c]\<close>.\<close>

definition gram :: "token list \<Rightarrow> nat \<Rightarrow> nat \<Rightarrow> token list" where
  "gram h c n = take n (drop (c - n) h)"

definition index_gram :: "nat \<Rightarrow> nat \<Rightarrow> row_state \<Rightarrow> nat \<Rightarrow> row_state" where
  "index_gram c window_start s n =
     (if c < n \<or> c - n < window_start then s
      else
        (let k = ngram_key_of (gram (history s) c n);
             ps = (case map_of (index s) k of Some ps \<Rightarrow> ps | None \<Rightarrow> [])
         in s\<lparr>index := AList.update k (recent_push ps c) (index s),
              ledger := ledger s @ [\<lparr>le_key = k, continuation = c\<rparr>]\<rparr>))"

definition index_continuation :: "nat \<Rightarrow> nat \<Rightarrow> row_state \<Rightarrow> row_state" where
  "index_continuation c window_start s =
     foldl (index_gram c window_start) s [min_ngram (config s)..<max_ngram (config s) + 1]"

definition evict_oldest_ledger_entry :: "row_state \<Rightarrow> row_state" where
  "evict_oldest_ledger_entry s =
     (case ledger s of
        [] \<Rightarrow> s
      | e # es \<Rightarrow>
          (let s = s\<lparr>ledger := es\<rparr> in
           case map_of (index s) (le_key e) of
             None \<Rightarrow> s
           | Some ps \<Rightarrow>
               (let ps = (if ps \<noteq> [] \<and> hd ps = continuation e then tl ps else ps) in
                if ps = []
                then s\<lparr>index := AList.delete (le_key e) (index s),
                       index_evictions := sat_add (index_evictions s) 1\<rparr>
                else s\<lparr>index := AList.update (le_key e) ps (index s)\<rparr>)))"

lemma evict_oldest_ledger [simp]:
  "ledger (evict_oldest_ledger_entry s) = tl (ledger s)"
  "history (evict_oldest_ledger_entry s) = history s"
  "config (evict_oldest_ledger_entry s) = config s"
  "history_fingerprint (evict_oldest_ledger_entry s) = history_fingerprint s"
  by (auto simp: evict_oldest_ledger_entry_def Let_def split: list.split option.split)

function evict_stale_before :: "nat \<Rightarrow> row_state \<Rightarrow> row_state" where
  "evict_stale_before m s =
     (if ledger s \<noteq> [] \<and> continuation (hd (ledger s)) < m
      then evict_stale_before m (evict_oldest_ledger_entry s) else s)"
  by pat_completeness auto
termination by (relation "measure (\<lambda>(m, s). length (ledger s))") auto

declare evict_stale_before.simps [simp del]

definition evict_stale :: "row_state \<Rightarrow> row_state" where
  "evict_stale s = evict_stale_before (length (history s) - history_window_tokens (config s)) s"

function evict_to_entry_cap :: "row_state \<Rightarrow> row_state" where
  "evict_to_entry_cap s =
     (if length (index s) > max_index_entries (config s) \<and> ledger s \<noteq> []
      then evict_to_entry_cap (evict_oldest_ledger_entry s) else s)"
  by pat_completeness auto
termination by (relation "measure (\<lambda>s. length (ledger s))") auto

declare evict_to_entry_cap.simps [simp del]

definition live_entries :: "(ngram_key \<times> nat list) list \<Rightarrow> ledger_entry list" where
  "live_entries ix = concat (map (\<lambda>(k, ps). map (\<lambda>c. \<lparr>le_key = k, continuation = c\<rparr>) ps) ix)"

definition compact_ledger_if_needed :: "(ledger_entry list \<Rightarrow> ledger_entry list) \<Rightarrow> row_state \<Rightarrow> row_state" where
  "compact_ledger_if_needed iter s =
     (if length (ledger s) \<le> sat_add (sat_mul (length (index s)) POSITIONS_PER_NGRAM) 1024 then s
      else s\<lparr>ledger := sort_key continuation (iter (live_entries (index s)))\<rparr>)"

definition refresh_peaks :: "row_state \<Rightarrow> row_state" where
  "refresh_peaks s = s\<lparr>index_entries_peak := max (index_entries_peak s) (length (index s)),
     ledger_entries_peak := max (ledger_entries_peak s) (length (ledger s))\<rparr>"

definition settle :: "(ledger_entry list \<Rightarrow> ledger_entry list) \<Rightarrow> row_state \<Rightarrow> row_state" where
  "settle iter s = refresh_peaks (compact_ledger_if_needed iter (evict_to_entry_cap s))"

section \<open>Building and extending\<close>

text \<open>One round of the loop that indexes a given history; the index is trimmed every 1024 rounds.\<close>

definition build_step :: "(ledger_entry list \<Rightarrow> ledger_entry list) \<Rightarrow> nat \<Rightarrow> row_state \<Rightarrow> nat \<Rightarrow> row_state" where
  "build_step iter window_start s c =
     (let s = index_continuation c window_start s
      in if (c - window_start) mod 1024 = 1023 then settle iter s else s)"

definition row_empty :: "token list \<Rightarrow> lookup_config \<Rightarrow> row_state" where
  "row_empty h c = \<lparr>config = c, history = h, history_fingerprint = fingerprint_of h, index = [], ledger = [],
     index_entries_peak = 0, ledger_entries_peak = 0, index_evictions = 0\<rparr>"

definition row_new :: "(ledger_entry list \<Rightarrow> ledger_entry list) \<Rightarrow> token list \<Rightarrow> lookup_config \<Rightarrow> lookup_config_error + row_state" where
  "row_new iter h c =
     (case config_validate c of
        Inl e \<Rightarrow> Inl e
      | Inr c \<Rightarrow>
          (let window_start = length h - history_window_tokens c
           in Inr (settle iter (foldl (build_step iter window_start) (row_empty h c) [window_start..<length h]))))"

definition row_commit :: "(ledger_entry list \<Rightarrow> ledger_entry list) \<Rightarrow> token \<Rightarrow> row_state \<Rightarrow> row_state" where
  "row_commit iter t s =
     (let s = s\<lparr>history := history s @ [t], history_fingerprint := fingerprint_push (history_fingerprint s) t\<rparr>;
          c = length (history s) - 1;
          window_start = length (history s) - history_window_tokens (config s)
      in settle iter (evict_stale (index_continuation c window_start s)))"

section \<open>Proposing\<close>

record local_proposal =
  prop_ngram :: nat
  prop_continuation :: nat
  prop_tokens :: "token list"

text \<open>The loop over the positions of a key, latest first; \<open>best\<close> is a draft length and its position.\<close>

fun best_position :: "token list \<Rightarrow> nat \<Rightarrow> nat \<Rightarrow> nat \<Rightarrow> nat list \<Rightarrow> (nat \<times> nat) option \<Rightarrow> (nat \<times> nat) option" where
  "best_position h n window_start max_draft [] best = best"
| "best_position h n window_start max_draft (c # cs) best =
     (if c < window_start \<or> c \<ge> length h - n then best_position h n window_start max_draft cs best
      else if c < n \<or> gram h c n \<noteq> drop (length h - n) h then best_position h n window_start max_draft cs best
      else let available = min (length h - c) max_draft in
        if available = 0 then best_position h n window_start max_draft cs best
        else best_position h n window_start max_draft cs
          (case best of
             Some (l, p) \<Rightarrow> if l > available \<or> (l = available \<and> p > c) then best else Some (available, c)
           | None \<Rightarrow> Some (available, c)))"

fun propose_ngrams :: "row_state \<Rightarrow> nat \<Rightarrow> nat \<Rightarrow> nat list \<Rightarrow> local_proposal option" where
  "propose_ngrams s window_start max_draft [] = None"
| "propose_ngrams s window_start max_draft (n # ns) =
     (case map_of (index s) (ngram_key_of (drop (length (history s) - n) (history s))) of
        None \<Rightarrow> propose_ngrams s window_start max_draft ns
      | Some ps \<Rightarrow>
          (case best_position (history s) n window_start max_draft (rev ps) None of
             Some (len, c) \<Rightarrow> Some \<lparr>prop_ngram = n, prop_continuation = c, prop_tokens = take len (drop c (history s))\<rparr>
           | None \<Rightarrow> propose_ngrams s window_start max_draft ns))"

definition row_propose :: "row_state \<Rightarrow> nat \<Rightarrow> local_proposal option" where
  "row_propose s limit =
     (let max_draft = min limit (max_draft_tokens (config s)) in
      if max_draft = 0 then None
      else propose_ngrams s (length (history s) - history_window_tokens (config s)) max_draft
        (rev [min_ngram (config s)..<min (max_ngram (config s)) (length (history s)) + 1]))"

definition validate_history :: "row_state \<Rightarrow> token list \<Rightarrow> bool" where
  "validate_history s expected = (history s = expected)"

definition validate_committed_tail :: "row_state \<Rightarrow> nat \<Rightarrow> token \<Rightarrow> bool" where
  "validate_committed_tail s n t = (length (history s) = n \<and> (history s \<noteq> [] \<and> last (history s) = t))"

end
