(* ===== verification/NgramInv.thy ===== *)
theory NgramInv
  imports NgramIndex "HOL-Library.Multiset"
begin

text \<open>
  The invariant of \<open>PromptLookupRowState\<close> (\<open>ironmlx/src/core/prompt_lookup.rs\<close>): the ledger lists the indexed
  positions in order, the index holds one or two of them per key, and each is still in the ledger; and what
  every operation does to the positions of a key.
\<close>

section \<open>The last two elements\<close>

definition last_two :: "'a list \<Rightarrow> 'a list" where
  "last_two xs = drop (length xs - 2) xs"

lemma last_two_length [simp]: "length (last_two xs) \<le> 2"
  by (simp add: last_two_def)

lemma last_two_Nil [simp]: "last_two [] = []"
  by (simp add: last_two_def)

lemma last_two_set: "set (last_two xs) \<subseteq> set xs"
  by (simp add: last_two_def set_drop_subset)

lemma last_two_Nil_iff [simp]: "last_two xs = [] \<longleftrightarrow> xs = []"
  by (cases xs) (auto simp: last_two_def)

lemma recent_push_last_two: "recent_push (last_two xs) c = last_two (xs @ [c])"
proof (cases "length xs < 2")
  case False
  then have "Suc (length xs - 2) = length xs - 1" by simp
  then have "tl (last_two xs) = drop (length xs - 1) xs" by (simp add: last_two_def tl_drop flip: drop_Suc)
  moreover have "length (last_two xs) = 2" using False by (simp add: last_two_def)
  ultimately show ?thesis using False by (simp add: recent_push_def POSITIONS_PER_NGRAM_def last_two_def)
qed (simp add: recent_push_def POSITIONS_PER_NGRAM_def last_two_def)

lemma filter_ge_last_two:
  assumes "sorted xs"
  shows "filter (\<lambda>x. a \<le> x) (last_two xs) = last_two (filter (\<lambda>x. (a :: nat) \<le> x) xs)"
  using assms
proof (induction xs)
  case (Cons x xs)
  have all: "filter (\<lambda>x. a \<le> x) (x # xs) = x # xs" if "a \<le> x" using Cons.prems that by (auto simp: filter_id_conv)
  have sub: "filter (\<lambda>y. a \<le> y) ys = ys" if "a \<le> x" "set ys \<subseteq> set (x # xs)" for ys
    using that Cons.prems by (fastforce simp: filter_id_conv)
  show ?case
  proof (cases "a \<le> x")
    case True
    then show ?thesis using sub [OF True last_two_set] all by simp
  next
    case False
    have "filter (\<lambda>y. a \<le> y) (last_two (x # xs)) = filter (\<lambda>y. a \<le> y) (last_two xs)"
    proof (cases "length xs < 2")
      case short: True
      then show ?thesis using False by (cases xs; cases "tl xs") (auto simp: last_two_def)
    next
      case long: False
      then have "length (x # xs) - 2 = Suc (length xs - 2)" by simp
      then show ?thesis unfolding last_two_def by (simp only: drop_Suc_Cons)
    qed
    then show ?thesis using False Cons by simp
  qed
qed (simp add: last_two_def)

lemma in_set_tlD: "x \<in> set (tl xs) \<Longrightarrow> x \<in> set xs"
  by (cases xs) auto

section \<open>Grams\<close>

lemma gram_length: "n \<le> c \<Longrightarrow> c \<le> length h \<Longrightarrow> length (gram h c n) = n"
  by (simp add: gram_def)

lemma gram_append: "n \<le> c \<Longrightarrow> c \<le> length h \<Longrightarrow> gram (h @ ts) c n = gram h c n"
  by (simp add: gram_def)

lemma gram_suffix: "n \<le> length h \<Longrightarrow> gram h (length h) n = drop (length h - n) h"
  by (simp add: gram_def)

lemma key_len_of [simp]: "key_len (ngram_key_of g) = length g"
  by (simp add: ngram_key_of_def Let_def split: prod.split)

section \<open>Positions of a key\<close>

definition positions :: "row_state \<Rightarrow> ngram_key \<Rightarrow> nat list" where
  "positions s k = (case map_of (index s) k of Some ps \<Rightarrow> ps | None \<Rightarrow> [])"

definition entry_ok :: "row_state \<Rightarrow> ledger_entry \<Rightarrow> bool" where
  "entry_ok s e = (min_ngram (config s) \<le> key_len (le_key e) \<and> key_len (le_key e) \<le> max_ngram (config s)
     \<and> key_len (le_key e) \<le> continuation e \<and> continuation e < length (history s)
     \<and> le_key e = ngram_key_of (gram (history s) (continuation e) (key_len (le_key e))))"

definition index_inv :: "row_state \<Rightarrow> bool" where
  "index_inv s =
     (sorted (map continuation (ledger s)) \<and> distinct (ledger s) \<and> (\<forall>e \<in> set (ledger s). entry_ok s e)
      \<and> distinct (map fst (index s))
      \<and> (\<forall>(k, ps) \<in> set (index s). ps \<noteq> [] \<and> length ps \<le> 2 \<and> sorted_wrt (<) ps
           \<and> (\<forall>c \<in> set ps. \<lparr>le_key = k, continuation = c\<rparr> \<in> set (ledger s))))"

lemma index_positions:
  assumes "index_inv s"
  shows "(k, ps) \<in> set (index s) \<longleftrightarrow> positions s k = ps \<and> ps \<noteq> []"
proof -
  have d: "distinct (map fst (index s))" and n: "\<And>ps. (k, ps) \<in> set (index s) \<Longrightarrow> ps \<noteq> []" using assms by (auto simp: index_inv_def)
  show ?thesis
  proof
    assume "(k, ps) \<in> set (index s)"
    then show "positions s k = ps \<and> ps \<noteq> []" using map_of_is_SomeI [OF d] n by (simp add: positions_def)
  next
    assume "positions s k = ps \<and> ps \<noteq> []"
    then show "(k, ps) \<in> set (index s)" by (auto simp: positions_def dest: map_of_SomeD split: option.splits)
  qed
qed

lemma positions_facts:
  assumes "index_inv s"
  shows "length (positions s k) \<le> 2" and "sorted_wrt (<) (positions s k)"
    and "c \<in> set (positions s k) \<Longrightarrow> \<lparr>le_key = k, continuation = c\<rparr> \<in> set (ledger s)"
proof -
  have "length (positions s k) \<le> 2 \<and> sorted_wrt (<) (positions s k) \<and> (\<forall>c \<in> set (positions s k). \<lparr>le_key = k, continuation = c\<rparr> \<in> set (ledger s))"
  proof (cases "positions s k = []")
    case False
    then have "(k, positions s k) \<in> set (index s)" using index_positions [OF assms] by simp
    then show ?thesis using assms by (auto simp: index_inv_def)
  qed simp
  then show "length (positions s k) \<le> 2" "sorted_wrt (<) (positions s k)"
    "c \<in> set (positions s k) \<Longrightarrow> \<lparr>le_key = k, continuation = c\<rparr> \<in> set (ledger s)" by blast+
qed

text \<open>The invariant from the positions of each key.\<close>

lemma index_invI:
  assumes "sorted (map continuation (ledger s))" and "distinct (ledger s)" and "\<And>e. e \<in> set (ledger s) \<Longrightarrow> entry_ok s e"
    and d: "distinct (map fst (index s))" and "\<And>k ps. (k, ps) \<in> set (index s) \<Longrightarrow> ps \<noteq> []"
    and "\<And>k. length (positions s k) \<le> 2" and "\<And>k. sorted_wrt (<) (positions s k)"
    and "\<And>k c. c \<in> set (positions s k) \<Longrightarrow> \<lparr>le_key = k, continuation = c\<rparr> \<in> set (ledger s)"
  shows "index_inv s"
proof -
  have "ps \<noteq> [] \<and> length ps \<le> 2 \<and> sorted_wrt (<) ps \<and> (\<forall>c \<in> set ps. \<lparr>le_key = k, continuation = c\<rparr> \<in> set (ledger s))"
    if m: "(k, ps) \<in> set (index s)" for k ps
  proof -
    have "positions s k = ps" using m d by (simp add: positions_def)
    then show ?thesis using assms(5) [OF m] assms(6,7) [of k] assms(8) [of _ k] by simp
  qed
  then show ?thesis using assms(1-4) unfolding index_inv_def by blast
qed

section \<open>Indexing one position\<close>

definition matches :: "row_state \<Rightarrow> nat \<Rightarrow> nat \<Rightarrow> ngram_key \<Rightarrow> bool" where
  "matches s c ws k = (key_len k \<le> c \<and> ws \<le> c - key_len k \<and> ngram_key_of (gram (history s) c (key_len k)) = k)"

lemma index_gram_frame [simp]:
  "history (index_gram c ws s n) = history s" "config (index_gram c ws s n) = config s"
  "history_fingerprint (index_gram c ws s n) = history_fingerprint s"
  by (simp_all add: index_gram_def Let_def)

lemma index_gram_positions:
  assumes "c \<le> length (history s)"
  shows "positions (index_gram c ws s n) k = (if key_len k = n \<and> matches s c ws k then recent_push (positions s k) c else positions s k)"
proof -
  have l: "n \<le> c \<Longrightarrow> length (gram (history s) c n) = n" using assms by (simp add: gram_length)
  then show ?thesis
    by (auto simp: index_gram_def positions_def Let_def matches_def update_conv')
qed

definition filled :: "nat \<Rightarrow> nat \<Rightarrow> row_state \<Rightarrow> bool" where
  "filled c n s = (index_inv s \<and> c < length (history s)
     \<and> (\<forall>e \<in> set (ledger s). continuation e < c \<or> continuation e = c \<and> key_len (le_key e) < n))"

lemma index_gram_filled:
  assumes f: "filled c n s" and n: "min_ngram (config s) \<le> n" "n \<le> max_ngram (config s)"
  shows "filled c (Suc n) (index_gram c ws s n)"
proof (cases "c < n \<or> c - n < ws")
  case True
  then show ?thesis using f by (auto simp: filled_def index_gram_def)
next
  case False
  let ?s = "index_gram c ws s n"
  let ?k = "ngram_key_of (gram (history s) c n)"
  let ?e = "\<lparr>le_key = ?k, continuation = c\<rparr>"
  have i: "index_inv s" and c: "c < length (history s)" using f by (simp_all add: filled_def)
  have kl: "key_len ?k = n" using False c by (simp add: gram_length)
  have led: "ledger ?s = ledger s @ [?e]" using False by (simp add: index_gram_def Let_def)
  have old: "continuation e < c \<or> continuation e = c \<and> key_len (le_key e) < n" if "e \<in> set (ledger s)" for e
    using f that by (simp add: filled_def)
  have eo: "entry_ok ?s e = entry_ok s e" for e by (simp add: entry_ok_def)
  have pos: "positions ?s k = (if k = ?k then recent_push (positions s k) c else positions s k)" for k
    using False kl c by (simp add: index_gram_positions matches_def) metis
  have ix: "index ?s = AList.update ?k (recent_push (positions s ?k) c) (index s)"
    using False by (simp add: index_gram_def Let_def positions_def)
  have pf: "x < c" if "x \<in> set (positions s k)" "k = ?k" for x k
    using old [OF positions_facts(3) [OF i that(1)]] kl that(2) by simp
  have "index_inv ?s"
  proof (rule index_invI)
    show "sorted (map continuation (ledger ?s))" using i old unfolding led index_inv_def by (fastforce simp: sorted_append)
    show "distinct (ledger ?s)" using i old kl unfolding led index_inv_def by fastforce
    show "entry_ok ?s e" if "e \<in> set (ledger ?s)" for e
      using that i n kl False c unfolding led eo by (auto simp: index_inv_def entry_ok_def)
    show "distinct (map fst (index ?s))" unfolding ix using i by (simp add: index_inv_def distinct_update)
    show "ps \<noteq> []" if "(k, ps) \<in> set (index ?s)" for k ps
    proof -
      have "(k, ps) \<in> set (index s) \<or> ps = recent_push (positions s ?k) c"
        using that set_update_subset_alist [of ?k "recent_push (positions s ?k) c" "index s"] unfolding ix by auto
      then show ?thesis using i by (auto simp: index_inv_def recent_push_def split: if_splits)
    qed
    show "length (positions ?s k) \<le> 2" for k
      using positions_facts(1) [OF i, of k] by (auto simp: pos recent_push_def POSITIONS_PER_NGRAM_def)
    show "sorted_wrt (<) (positions ?s k)" for k
    proof (cases "k = ?k")
      case True
      have "sorted_wrt (<) (tl (positions s k))" using positions_facts(2) [OF i, of k] by (cases "positions s k") auto
      then show ?thesis using True positions_facts(2) [OF i, of k] pf [of _ k] list.set_sel(2) [of "positions s k"]
        by (auto simp: pos recent_push_def sorted_wrt_append dest: list.set_sel(2) in_set_tlD)
    next
      case False
      then show ?thesis using positions_facts(2) [OF i, of k] by (simp add: pos)
    qed
    show "\<lparr>le_key = k, continuation = x\<rparr> \<in> set (ledger ?s)" if "x \<in> set (positions ?s k)" for k x
      using that positions_facts(3) [OF i, of x k] by (auto simp: pos led recent_push_def split: if_splits dest: in_set_tlD)
  qed
  moreover have "continuation e < c \<or> continuation e = c \<and> key_len (le_key e) < Suc n" if "e \<in> set (ledger ?s)" for e
    using that old kl unfolding led by force
  ultimately show ?thesis using c by (simp add: filled_def)
qed

text \<open>All n-gram lengths of one position.\<close>

lemma index_grams_filled:
  assumes f: "filled c n s" and n: "min_ngram (config s) \<le> n" "m \<le> Suc (max_ngram (config s))" "n \<le> m"
  shows "filled c m (foldl (index_gram c ws) s [n..<m])"
    and "positions (foldl (index_gram c ws) s [n..<m]) k =
      (if n \<le> key_len k \<and> key_len k < m \<and> matches s c ws k then recent_push (positions s k) c else positions s k)"
    and "history (foldl (index_gram c ws) s [n..<m]) = history s" and "config (foldl (index_gram c ws) s [n..<m]) = config s"
    and "history_fingerprint (foldl (index_gram c ws) s [n..<m]) = history_fingerprint s"
proof -
  have "filled c m (foldl (index_gram c ws) s [n..<m])
    \<and> (\<forall>k. positions (foldl (index_gram c ws) s [n..<m]) k =
        (if n \<le> key_len k \<and> key_len k < m \<and> matches s c ws k then recent_push (positions s k) c else positions s k))
    \<and> history (foldl (index_gram c ws) s [n..<m]) = history s \<and> config (foldl (index_gram c ws) s [n..<m]) = config s
    \<and> history_fingerprint (foldl (index_gram c ws) s [n..<m]) = history_fingerprint s"
    using n(3,2)
  proof (induction m rule: dec_induct)
    case base
    have "\<not> (n \<le> key_len k \<and> key_len k < n)" for k by simp
    then show ?case using f by auto
  next
    case (step m)
    let ?s = "foldl (index_gram c ws) s [n..<m]"
    have ih: "filled c m ?s" "\<And>k. positions ?s k =
        (if n \<le> key_len k \<and> key_len k < m \<and> matches s c ws k then recent_push (positions s k) c else positions s k)"
      "history ?s = history s" "config ?s = config s" "history_fingerprint ?s = history_fingerprint s" using step by auto
    have e: "foldl (index_gram c ws) s [n..<Suc m] = index_gram c ws ?s m" using step(1) by simp
    have "filled c (Suc m) (index_gram c ws ?s m)"
      by (rule index_gram_filled [OF ih(1)]) (use ih step n in simp_all)
    moreover have "positions (index_gram c ws ?s m) k =
        (if n \<le> key_len k \<and> key_len k < Suc m \<and> matches s c ws k then recent_push (positions s k) c else positions s k)" for k
      using index_gram_positions [of c ?s ws m k] ih f step(1) by (auto simp: filled_def matches_def)
    ultimately show ?case unfolding e using ih by simp
  qed
  then show "filled c m (foldl (index_gram c ws) s [n..<m])"
    "positions (foldl (index_gram c ws) s [n..<m]) k =
      (if n \<le> key_len k \<and> key_len k < m \<and> matches s c ws k then recent_push (positions s k) c else positions s k)"
    "history (foldl (index_gram c ws) s [n..<m]) = history s" "config (foldl (index_gram c ws) s [n..<m]) = config s"
    "history_fingerprint (foldl (index_gram c ws) s [n..<m]) = history_fingerprint s" by blast+
qed

lemma index_continuation_facts:
  assumes i: "index_inv s" and c: "c < length (history s)" "\<forall>e \<in> set (ledger s). continuation e < c"
    and n: "min_ngram (config s) \<le> max_ngram (config s)"
  shows "index_inv (index_continuation c ws s)" and "\<forall>e \<in> set (ledger (index_continuation c ws s)). continuation e \<le> c"
    and "positions (index_continuation c ws s) k =
      (if min_ngram (config s) \<le> key_len k \<and> key_len k \<le> max_ngram (config s) \<and> matches s c ws k
       then recent_push (positions s k) c else positions s k)"
    and "history (index_continuation c ws s) = history s" and "config (index_continuation c ws s) = config s"
    and "history_fingerprint (index_continuation c ws s) = history_fingerprint s"
proof -
  have f: "filled c (min_ngram (config s)) s" using assms by (simp add: filled_def)
  note g = index_grams_filled [OF f order.refl, of "Suc (max_ngram (config s))" ws]
  have m: "min_ngram (config s) \<le> Suc (max_ngram (config s))" using n by simp
  have ic: "index_continuation c ws s = foldl (index_gram c ws) s [min_ngram (config s)..<Suc (max_ngram (config s))]"
    by (simp add: index_continuation_def)
  note g1 = g(1) [OF order.refl m, folded ic, unfolded filled_def]
  show "index_inv (index_continuation c ws s)" using g1 by blast
  show "\<forall>e \<in> set (ledger (index_continuation c ws s)). continuation e \<le> c" using g1 by fastforce
  show "history (index_continuation c ws s) = history s" "config (index_continuation c ws s) = config s"
    "history_fingerprint (index_continuation c ws s) = history_fingerprint s"
    unfolding ic by (rule g(3-5) [OF order.refl m])+
  show "positions (index_continuation c ws s) k =
      (if min_ngram (config s) \<le> key_len k \<and> key_len k \<le> max_ngram (config s) \<and> matches s c ws k
       then recent_push (positions s k) c else positions s k)"
    unfolding ic g(2) [OF order.refl m] less_Suc_eq_le ..
qed

section \<open>Evicting\<close>

lemma evict_oldest_facts:
  assumes i: "index_inv s" and l: "ledger s = e # es"
  shows "index_inv (evict_oldest_ledger_entry s)"
    and "positions (evict_oldest_ledger_entry s) k =
      (if k = le_key e \<and> positions s k \<noteq> [] \<and> hd (positions s k) = continuation e then tl (positions s k) else positions s k)"
proof -
  let ?s = "evict_oldest_ledger_entry s" and ?k = "le_key e"
  have d: "distinct (map fst (index s))" using i by (simp add: index_inv_def)
  have ne: "(k, []) \<notin> set (index s)" for k using i by (auto simp: index_inv_def)
  have pos: "positions ?s k = (if k = ?k \<and> positions s k \<noteq> [] \<and> hd (positions s k) = continuation e then tl (positions s k) else positions s k)" for k
    using ne [of ?k] by (auto simp: evict_oldest_ledger_entry_def positions_def l Let_def update_conv' delete_conv' dest!: map_of_SomeD split: option.splits)
  then show "positions ?s k = (if k = ?k \<and> positions s k \<noteq> [] \<and> hd (positions s k) = continuation e then tl (positions s k) else positions s k)" .
  have eo: "entry_ok ?s x = entry_ok s x" for x by (simp add: entry_ok_def)
  have gone: "c \<notin> set (positions ?s ?k)" if c: "c = continuation e" for c
  proof
    assume m: "c \<in> set (positions ?s ?k)"
    then have "c \<in> set (positions s ?k)" by (auto simp: pos split: if_splits dest: in_set_tlD)
    then obtain p ps where p: "positions s ?k = p # ps" by (cases "positions s ?k") auto
    have pc: "p \<le> c" using positions_facts(2) [OF i, of ?k] \<open>c \<in> set (positions s ?k)\<close> by (auto simp: p)
    have "\<lparr>le_key = ?k, continuation = p\<rparr> \<in> set (ledger s)" by (rule positions_facts(3) [OF i]) (simp add: p)
    moreover have "\<forall>x \<in> set (ledger s). continuation e \<le> continuation x" using i by (auto simp: l index_inv_def)
    ultimately have "continuation e \<le> p" by fastforce
    then have "p = c" using c pc by simp
    then show False using m c positions_facts(2) [OF i, of ?k] by (auto simp: pos p)
  qed
  show "index_inv ?s"
  proof (rule index_invI)
    show "sorted (map continuation (ledger ?s))" "distinct (ledger ?s)" using i by (simp_all add: l index_inv_def)
    show "entry_ok ?s x" if "x \<in> set (ledger ?s)" for x using that i unfolding eo by (simp add: l index_inv_def)
    show "distinct (map fst (index ?s))"
      using d by (auto simp: evict_oldest_ledger_entry_def l Let_def distinct_update distinct_delete split: option.split)
    show "ps \<noteq> []" if "(k, ps) \<in> set (index ?s)" for k ps
    proof
      assume "ps = []"
      then have "(k, []) \<in> set (index ?s)" using that by simp
      then show False using ne [of k] set_update_subset_alist [of ?k _ "index s"]
        by (auto simp: evict_oldest_ledger_entry_def l Let_def AList.delete_eq split: option.splits if_splits dest!: subsetD [OF set_update_subset_alist])
    qed
    have sub: "set (positions ?s k) \<subseteq> set (positions s k)" for k by (auto simp: pos dest: in_set_tlD)
    show "length (positions ?s k) \<le> 2" for k using positions_facts(1) [OF i, of k] by (auto simp: pos)
    show "sorted_wrt (<) (positions ?s k)" for k
      using positions_facts(2) [OF i, of k] by (cases "positions s k") (auto simp: pos)
    show "\<lparr>le_key = k, continuation = c\<rparr> \<in> set (ledger ?s)" if c: "c \<in> set (positions ?s k)" for k c
    proof -
      have "\<lparr>le_key = k, continuation = c\<rparr> \<in> set (ledger s)" using positions_facts(3) [OF i] c sub by blast
      moreover have "\<lparr>le_key = k, continuation = c\<rparr> \<noteq> e"
      proof
        assume "\<lparr>le_key = k, continuation = c\<rparr> = e"
        then have "k = ?k" "c = continuation e" by auto
        then show False using gone c by simp
      qed
      ultimately show ?thesis by (simp add: l)
    qed
  qed
qed

lemma evict_stale_before_facts:
  assumes "index_inv s"
  shows "index_inv (evict_stale_before m s)" and "positions (evict_stale_before m s) k = filter (\<lambda>c. m \<le> c) (positions s k)"
    and "\<forall>e \<in> set (ledger (evict_stale_before m s)). m \<le> continuation e \<and> e \<in> set (ledger s)"
    and "history (evict_stale_before m s) = history s" and "config (evict_stale_before m s) = config s"
    and "history_fingerprint (evict_stale_before m s) = history_fingerprint s"
proof -
  have "index_inv (evict_stale_before m s) \<and> (\<forall>k. positions (evict_stale_before m s) k = filter (\<lambda>c. m \<le> c) (positions s k))
    \<and> (\<forall>e \<in> set (ledger (evict_stale_before m s)). m \<le> continuation e \<and> e \<in> set (ledger s))
    \<and> history (evict_stale_before m s) = history s \<and> config (evict_stale_before m s) = config s
    \<and> history_fingerprint (evict_stale_before m s) = history_fingerprint s"
    using assms
  proof (induction m s rule: evict_stale_before.induct)
    case (1 m s)
    show ?case
    proof (cases "ledger s \<noteq> [] \<and> continuation (hd (ledger s)) < m")
      case True
      then obtain e es where l: "ledger s = e # es" and e: "continuation e < m" by (cases "ledger s") auto
      note ev = evict_oldest_facts [OF 1(2) l]
      have "filter (\<lambda>c. m \<le> c) (positions (evict_oldest_ledger_entry s) k) = filter (\<lambda>c. m \<le> c) (positions s k)" for k
        using e by (cases "positions s k") (auto simp: ev(2))
      moreover have "evict_stale_before m s = evict_stale_before m (evict_oldest_ledger_entry s)"
        using True by (simp add: evict_stale_before.simps [of m s])
      ultimately show ?thesis using 1(1) [OF True ev(1)] by (auto dest: in_set_tlD)
    next
      case False
      have all: "m \<le> continuation e" if "e \<in> set (ledger s)" for e
        using False 1(2) that by (cases "ledger s") (auto simp: index_inv_def)
      have "filter (\<lambda>c. m \<le> c) (positions s k) = positions s k" for k
        using all positions_facts(3) [OF 1(2)] by (fastforce simp: filter_id_conv)
      moreover have "evict_stale_before m s = s" by (simp only: evict_stale_before.simps [of m s] False if_False)
      ultimately show ?thesis using 1(2) all by simp
    qed
  qed
  then show "index_inv (evict_stale_before m s)" "positions (evict_stale_before m s) k = filter (\<lambda>c. m \<le> c) (positions s k)"
    "\<forall>e \<in> set (ledger (evict_stale_before m s)). m \<le> continuation e \<and> e \<in> set (ledger s)"
    "history (evict_stale_before m s) = history s" "config (evict_stale_before m s) = config s"
    "history_fingerprint (evict_stale_before m s) = history_fingerprint s" by blast+
qed

lemma evict_to_entry_cap_facts:
  assumes "index_inv s"
  shows "index_inv (evict_to_entry_cap s)" and "length (index (evict_to_entry_cap s)) \<le> max_index_entries (config s)"
    and "length (index s) \<le> max_index_entries (config s) \<Longrightarrow> evict_to_entry_cap s = s"
    and "set (ledger (evict_to_entry_cap s)) \<subseteq> set (ledger s)"
    and "history (evict_to_entry_cap s) = history s" and "config (evict_to_entry_cap s) = config s"
    and "history_fingerprint (evict_to_entry_cap s) = history_fingerprint s"
proof -
  have "index_inv (evict_to_entry_cap s) \<and> length (index (evict_to_entry_cap s)) \<le> max_index_entries (config s)
    \<and> set (ledger (evict_to_entry_cap s)) \<subseteq> set (ledger s)
    \<and> history (evict_to_entry_cap s) = history s \<and> config (evict_to_entry_cap s) = config s
    \<and> history_fingerprint (evict_to_entry_cap s) = history_fingerprint s"
    using assms
  proof (induction s rule: evict_to_entry_cap.induct)
    case (1 s)
    show ?case
    proof (cases "length (index s) > max_index_entries (config s) \<and> ledger s \<noteq> []")
      case True
      then obtain e es where l: "ledger s = e # es" by (cases "ledger s") auto
      have "evict_to_entry_cap s = evict_to_entry_cap (evict_oldest_ledger_entry s)"
        using True by (simp add: evict_to_entry_cap.simps [of s])
      then show ?thesis using 1(1) [OF True evict_oldest_facts(1) [OF 1(2) l]] by (auto simp: l)
    next
      case False
      have "length (index s) \<le> max_index_entries (config s)"
      proof (cases "ledger s = []")
        case True
        have "index s = []"
        proof (rule ccontr)
          assume "index s \<noteq> []"
          then obtain k ps where "(k, ps) \<in> set (index s)" by (cases "index s") auto
          then show False using 1(2) True by (cases ps) (auto simp: index_inv_def)
        qed
        then show ?thesis by simp
      next
        case nonempty: False
        then show ?thesis using False by simp
      qed
      then show ?thesis using False 1(2) by (simp add: evict_to_entry_cap.simps [of s])
    qed
  qed
  then show "index_inv (evict_to_entry_cap s)" "length (index (evict_to_entry_cap s)) \<le> max_index_entries (config s)"
    "set (ledger (evict_to_entry_cap s)) \<subseteq> set (ledger s)"
    "history (evict_to_entry_cap s) = history s" "config (evict_to_entry_cap s) = config s"
    "history_fingerprint (evict_to_entry_cap s) = history_fingerprint s" by blast+
  show "evict_to_entry_cap s = s" if "length (index s) \<le> max_index_entries (config s)"
    using that by (simp add: evict_to_entry_cap.simps [of s])
qed

section \<open>Compacting the ledger\<close>

lemma live_entries_set:
  assumes "index_inv s"
  shows "e \<in> set (live_entries (index s)) \<longleftrightarrow> continuation e \<in> set (positions s (le_key e))"
proof -
  have "e \<in> set (live_entries (index s)) \<longleftrightarrow> (\<exists>ps. (le_key e, ps) \<in> set (index s) \<and> continuation e \<in> set ps)"
    by (cases e) (force simp: live_entries_def)
  then show ?thesis using index_positions [OF assms] by (metis empty_iff empty_set)
qed

lemma live_entries_distinct:
  assumes "distinct (map fst ix)" and "\<And>k ps. (k, ps) \<in> set ix \<Longrightarrow> distinct ps"
  shows "distinct (live_entries ix)"
  using assms
proof (induction ix)
  case (Cons x ix)
  obtain k ps where x: "x = (k, ps)" by (cases x)
  have "distinct (map (\<lambda>c. \<lparr>le_key = k, continuation = c\<rparr>) ps)"
    using Cons.prems(2) [of k ps] by (auto simp: x distinct_map inj_on_def)
  moreover have "set (map (\<lambda>c. \<lparr>le_key = k, continuation = c\<rparr>) ps) \<inter> set (live_entries ix) = {}"
    using Cons.prems(1) by (force simp: x live_entries_def)
  moreover have "distinct (live_entries ix)"
    by (rule Cons.IH) (use Cons.prems in \<open>simp, meson list.set_intros(2)\<close>)
  moreover have "live_entries (x # ix) = map (\<lambda>c. \<lparr>le_key = k, continuation = c\<rparr>) ps @ live_entries ix"
    by (simp add: x live_entries_def)
  ultimately show ?case by (simp only: distinct_append)
qed (simp add: live_entries_def)

lemma live_entries_length: "(\<And>k ps. (k, ps) \<in> set ix \<Longrightarrow> length ps \<le> 2) \<Longrightarrow> length (live_entries ix) \<le> 2 * length ix"
proof (induction ix)
  case (Cons x ix)
  have "length (live_entries ix) \<le> 2 * length ix" by (rule Cons.IH) (use Cons.prems in \<open>meson list.set_intros(2)\<close>)
  then show ?case using Cons.prems [of "fst x" "snd x"] by (cases x) (simp add: live_entries_def)
qed (simp add: live_entries_def)

definition permutes_all :: "('a list \<Rightarrow> 'a list) \<Rightarrow> bool" where
  "permutes_all iter = (\<forall>xs. mset (iter xs) = mset xs)"

lemma compact_facts:
  assumes i: "index_inv s" and it: "permutes_all iter"
  defines "s' \<equiv> compact_ledger_if_needed iter s"
  shows "index_inv s'" and "index s' = index s" and "set (ledger s') \<subseteq> set (ledger s)"
    and "length (ledger s') \<le> 2 * length (index s') + 1024" and "history s' = history s" and "config s' = config s"
    and "history_fingerprint s' = history_fingerprint s"
proof -
  let ?l = "sort_key continuation (iter (live_entries (index s)))"
  have m: "mset (iter xs) = mset xs" for xs :: "ledger_entry list" using it by (simp add: permutes_all_def)
  have ls: "set ?l = set (live_entries (index s))" using mset_eq_setD [OF m] by simp
  have ll: "length ?l = length (live_entries (index s))" using mset_eq_length [OF m] by simp
  have f: "index s' = index s" "history s' = history s" "config s' = config s" "history_fingerprint s' = history_fingerprint s"
    by (simp_all add: s'_def compact_ledger_if_needed_def)
  then show "index s' = index s" "history s' = history s" "config s' = config s" "history_fingerprint s' = history_fingerprint s" .
  have sub: "set ?l \<subseteq> set (ledger s)"
  proof
    fix e assume "e \<in> set ?l"
    then have "continuation e \<in> set (positions s (le_key e))" using live_entries_set [OF i] ls by simp
    then show "e \<in> set (ledger s)" using positions_facts(3) [OF i] by (cases e) fastforce
  qed
  have "length (live_entries (index s)) \<le> 2 * length (index s)" using i by (intro live_entries_length) (auto simp: index_inv_def)
  moreover have "sat_add (sat_mul (length (index s)) POSITIONS_PER_NGRAM) 1024 \<le> 2 * length (index s) + 1024"
    by (simp add: sat_add_def sat_mul_def POSITIONS_PER_NGRAM_def)
  ultimately show "length (ledger s') \<le> 2 * length (index s') + 1024"
    using ll by (auto simp: s'_def compact_ledger_if_needed_def)
  have led: "ledger s' = ledger s \<or> ledger s' = ?l" by (auto simp: s'_def compact_ledger_if_needed_def)
  then show "set (ledger s') \<subseteq> set (ledger s)" using sub by auto
  show "index_inv s'"
  proof (cases "ledger s' = ledger s")
    case True
    then show ?thesis using i f by (simp add: index_inv_def entry_ok_def)
  next
    case False
    then have l: "ledger s' = ?l" using led by simp
    have pos: "positions s' = positions s" by (intro ext) (simp add: positions_def f)
    have "distinct (live_entries (index s))"
      using i by (intro live_entries_distinct) (auto simp: index_inv_def strict_sorted_iff)
    then have d: "distinct ?l" using mset_eq_imp_distinct_iff [OF m [of "live_entries (index s)"]] by simp
    show ?thesis
    proof (rule index_invI)
      show "sorted (map continuation (ledger s'))" "distinct (ledger s')" using d by (simp_all add: l)
      show "entry_ok s' e" if "e \<in> set (ledger s')" for e
        using that sub i unfolding l by (auto simp: index_inv_def entry_ok_def f)
      show "distinct (map fst (index s'))" "\<And>k ps. (k, ps) \<in> set (index s') \<Longrightarrow> ps \<noteq> []" using i by (auto simp: f index_inv_def)
      show "\<And>k. length (positions s' k) \<le> 2" "\<And>k. sorted_wrt (<) (positions s' k)" using positions_facts [OF i] by (simp_all add: pos)
      show "\<lparr>le_key = k, continuation = c\<rparr> \<in> set (ledger s')" if "c \<in> set (positions s' k)" for k c
        using that ls live_entries_set [OF i, of "\<lparr>le_key = k, continuation = c\<rparr>"] by (simp add: l pos)
    qed
  qed
qed

section \<open>Settling\<close>

definition settled :: "row_state \<Rightarrow> bool" where
  "settled s = (index_inv s \<and> length (index s) \<le> max_index_entries (config s) \<and> length (ledger s) \<le> 2 * length (index s) + 1024)"

lemma settle_facts:
  assumes i: "index_inv s" and it: "permutes_all iter"
  shows "settled (settle iter s)" and "length (index s) \<le> max_index_entries (config s) \<Longrightarrow> positions (settle iter s) = positions s"
    and "set (ledger (settle iter s)) \<subseteq> set (ledger s)" and "history (settle iter s) = history s" and "config (settle iter s) = config s"
    and "history_fingerprint (settle iter s) = history_fingerprint s"
proof -
  note e = evict_to_entry_cap_facts [OF i]
  note c = compact_facts [OF e(1) it]
  let ?c = "compact_ledger_if_needed iter (evict_to_entry_cap s)"
  have r: "index_inv (refresh_peaks ?c) = index_inv ?c" by (simp add: index_inv_def refresh_peaks_def entry_ok_def)
  show "settled (settle iter s)" using c e r by (simp add: settled_def settle_def) (simp add: refresh_peaks_def c e)
  show "positions (settle iter s) = positions s" if "length (index s) \<le> max_index_entries (config s)"
    using e(3) [OF that] c(2) by (intro ext) (simp add: positions_def settle_def refresh_peaks_def)
  show "set (ledger (settle iter s)) \<subseteq> set (ledger s)" "history (settle iter s) = history s" "config (settle iter s) = config s"
    "history_fingerprint (settle iter s) = history_fingerprint s"
    using c(3,5,6,7) e(4-7) by (auto simp: settle_def refresh_peaks_def)
qed

end
