(* ===== verification/NgramLookup.thy ===== *)
theory NgramLookup
  imports NgramInv
begin

text \<open>
  What \<open>PromptLookupRowState\<close> (\<open>ironmlx/src/core/prompt_lookup.rs\<close>) promises: its proposals continue an earlier
  copy of the latest tokens, its memory is bounded, and while no entry had to be evicted for space the
  incremental index answers exactly what a scan of the whole history would.
\<close>

section \<open>The invariant of a row\<close>

definition row_inv :: "row_state \<Rightarrow> bool" where
  "row_inv s = (settled s \<and> config_validate (config s) = Inr (config s)
     \<and> (\<forall>e \<in> set (ledger s). length (history s) - history_window_tokens (config s) \<le> continuation e))"

lemma config_valid:
  assumes "config_validate c = Inr d"
  shows "d = c" and "0 < min_ngram c" and "min_ngram c \<le> max_ngram c" and "0 < max_draft_tokens c"
    and "max_ngram c < history_window_tokens c" and "0 < max_index_entries c"
  using assms by (auto simp: config_validate_def split: if_splits)

lemma index_inv_push:
  assumes "index_inv s"
  shows "index_inv (s\<lparr>history := history s @ ts, history_fingerprint := f\<rparr>)"
proof -
  have "entry_ok (s\<lparr>history := history s @ ts, history_fingerprint := f\<rparr>) e" if "entry_ok s e" for e
    using that by (auto simp: entry_ok_def gram_append)
  then show ?thesis using assms by (auto simp: index_inv_def)
qed

lemma positions_push [simp]: "positions (s\<lparr>history := h, history_fingerprint := f\<rparr>) = positions s"
  by (intro ext) (simp add: positions_def)

text \<open>The state of the build loop before position \<open>c\<close>.\<close>

definition building :: "token list \<Rightarrow> lookup_config \<Rightarrow> nat \<Rightarrow> nat \<Rightarrow> row_state \<Rightarrow> bool" where
  "building h cfg ws c s = (index_inv s \<and> history s = h \<and> config s = cfg \<and> history_fingerprint s = fingerprint_of h
     \<and> (\<forall>e \<in> set (ledger s). ws \<le> continuation e \<and> continuation e < c))"

lemma build_step_ledger:
  assumes "index_inv s" and "c < length (history s)" and "\<forall>e \<in> set (ledger s). a \<le> continuation e \<and> continuation e < c"
    and "min_ngram (config s) \<le> max_ngram (config s)" and "a \<le> c"
  shows "\<forall>e \<in> set (ledger (index_continuation c ws s)). a \<le> continuation e \<and> continuation e \<le> c"
proof -
  have a: "a \<le> continuation e" if "e \<in> set (ledger (foldl (index_gram c ws) s ns))" for e ns
    using that assms(3,5)
  proof (induction ns rule: rev_induct)
    case (snoc n ns)
    then show ?case by (auto simp: index_gram_def Let_def split: if_splits)
  qed simp
  have "\<forall>e \<in> set (ledger (index_continuation c ws s)). continuation e \<le> c"
    by (rule index_continuation_facts(2)) (use assms in auto)
  then show ?thesis using a unfolding index_continuation_def by blast
qed

lemma build_step_ok:
  assumes b: "building h cfg ws c s" and c: "c < length h" "ws \<le> c" and n: "min_ngram cfg \<le> max_ngram cfg" and it: "permutes_all iter"
  shows "building h cfg ws (Suc c) (build_step iter ws s c)"
proof -
  have i: "index_inv s" and h: "history s = h" "config s = cfg" "history_fingerprint s = fingerprint_of h"
    and l: "\<forall>e \<in> set (ledger s). ws \<le> continuation e \<and> continuation e < c" using b by (auto simp: building_def)
  have ch: "c < length (history s)" "min_ngram (config s) \<le> max_ngram (config s)" using c n h by simp_all
  have lc: "\<forall>e \<in> set (ledger s). continuation e < c" using l by blast
  note f = index_continuation_facts [OF i ch(1) lc ch(2), where ws = ws]
  note g = build_step_ledger [OF i ch(1) l ch(2) c(2), of ws]
  show ?thesis
  proof (cases "(c - ws) mod 1024 = 1023")
    case True
    note st = settle_facts [OF f(1) it]
    show ?thesis using True st(1,3-6) f g h by (auto simp: build_step_def building_def settled_def less_Suc_eq_le)
  next
    case False
    then show ?thesis using f g h by (auto simp: build_step_def building_def less_Suc_eq_le)
  qed
qed

lemma build_loop_ok:
  assumes c: "ws \<le> m" "m \<le> length h" and n: "min_ngram cfg \<le> max_ngram cfg" and it: "permutes_all iter"
  shows "building h cfg ws m (foldl (build_step iter ws) (row_empty h cfg) [ws..<m])"
  using c
proof (induction m rule: dec_induct)
  case base
  show ?case by (simp add: building_def row_empty_def index_inv_def)
next
  case (step m)
  then show ?case using build_step_ok [OF _ _ step(1) n it] by simp
qed

lemma row_new_ok:
  assumes "row_new iter h cfg = Inr s" and it: "permutes_all iter"
  shows "row_inv s" and "history s = h" and "config s = cfg" and "history_fingerprint s = fingerprint_of h"
proof -
  let ?ws = "length h - history_window_tokens cfg"
  obtain d where d: "config_validate cfg = Inr d" using assms(1) by (cases "config_validate cfg") (auto simp: row_new_def)
  note v = config_valid [OF d]
  let ?b = "foldl (build_step iter ?ws) (row_empty h cfg) [?ws..<length h]"
  have s: "s = settle iter ?b" using assms(1) d v(1) by (simp add: row_new_def Let_def)
  have b: "building h cfg ?ws (length h) ?b" by (rule build_loop_ok) (use v it in simp_all)
  then have bi: "index_inv ?b" by (simp add: building_def)
  note st = settle_facts [OF bi it]
  show "row_inv s" "history s = h" "config s = cfg" "history_fingerprint s = fingerprint_of h"
    using b st(1,3-6) d v(1) by (auto simp: s row_inv_def building_def)
qed

lemma row_commit_ok:
  assumes i: "row_inv s" and it: "permutes_all iter"
  shows "row_inv (row_commit iter t s)" and "history (row_commit iter t s) = history s @ [t]" and "config (row_commit iter t s) = config s"
    and "history_fingerprint (row_commit iter t s) = fingerprint_push (history_fingerprint s) t"
proof -
  let ?s = "s\<lparr>history := history s @ [t], history_fingerprint := fingerprint_push (history_fingerprint s) t\<rparr>"
  let ?c = "length (history s)" and ?w = "history_window_tokens (config s)"
  let ?ws = "length (history ?s) - ?w"
  have v: "config_validate (config s) = Inr (config s)" and x: "index_inv s" using i by (simp_all add: row_inv_def settled_def)
  have n: "min_ngram (config ?s) \<le> max_ngram (config ?s)" using config_valid(3) [OF v] by simp
  have x1: "index_inv ?s" by (rule index_inv_push [OF x])
  have l: "\<forall>e \<in> set (ledger ?s). continuation e < ?c" using x by (auto simp: index_inv_def entry_ok_def)
  have c: "?c < length (history ?s)" by simp
  note f = index_continuation_facts [OF x1 c l n, where ws = ?ws]
  note ev = evict_stale_before_facts [OF f(1)]
  let ?e = "evict_stale (index_continuation ?c ?ws ?s)"
  have e: "?e = evict_stale_before ?ws (index_continuation ?c ?ws ?s)" unfolding evict_stale_def f(4,5) by simp
  have ei: "index_inv ?e" unfolding e by (rule ev(1))
  note st = settle_facts [OF ei it]
  have r: "row_commit iter t s = settle iter ?e" by (simp add: row_commit_def Let_def)
  have hf: "history ?e = history s @ [t]" "config ?e = config s" "history_fingerprint ?e = fingerprint_push (history_fingerprint s) t"
    unfolding e ev(4-6) f(4-6) by simp_all
  have "\<forall>y \<in> set (ledger (settle iter ?e)). ?ws \<le> continuation y" using st(3) ev(3) unfolding e by blast
  then have "\<forall>y \<in> set (ledger (settle iter ?e)). length (history s @ [t]) - ?w \<le> continuation y" by simp
  then show "row_inv (row_commit iter t s)" using st(1) v unfolding r row_inv_def st(4,5) hf by blast
  show "history (row_commit iter t s) = history s @ [t]" "config (row_commit iter t s) = config s"
    "history_fingerprint (row_commit iter t s) = fingerprint_push (history_fingerprint s) t"
    unfolding r st(4-6) hf by (rule refl)+
qed

interpretation rows: invariant_machine "\<lambda>s t. row_commit iter t s" "\<lambda>_ _. permutes_all iter" row_inv for iter
  by unfold_locales (rule row_commit_ok(1))

lemma commits_ok: "permutes_all iter \<Longrightarrow> run_ok (\<lambda>s t. row_commit iter t s) (\<lambda>_ _. permutes_all iter) s ts"
  by (induction ts arbitrary: s) simp_all

lemma commits_fields:
  assumes "row_inv s" and it: "permutes_all iter"
  shows "history (run_ops (\<lambda>s t. row_commit iter t s) s ts) = history s @ ts"
    and "config (run_ops (\<lambda>s t. row_commit iter t s) s ts) = config s"
    and "history_fingerprint (run_ops (\<lambda>s t. row_commit iter t s) s ts) = foldl fingerprint_push (history_fingerprint s) ts"
  using assms(1) by (induction ts arbitrary: s) (simp_all add: row_commit_ok [OF _ it])

section \<open>Bounds\<close>

text \<open>
  The memory of a row is bounded whatever is committed: at most \<open>max_index_entries\<close> keys with one or two
  positions each, a ledger of at most twice that and 1024, all positions inside the history window; the
  history and its fingerprint are those of all tokens so far.
\<close>

theorem row_index_bounded:
  assumes "permutes_all iter" and "row_new iter h cfg = Inr s0" and "s = run_ops (\<lambda>s t. row_commit iter t s) s0 ts"
  shows "length (index s) \<le> max_index_entries cfg \<and> length (ledger s) \<le> 2 * length (index s) + 1024
    \<and> list_all (\<lambda>(k, ps). ps \<noteq> [] \<and> length ps \<le> 2
         \<and> list_all (\<lambda>c. length (h @ ts) - history_window_tokens cfg \<le> c \<and> c < length (h @ ts)) ps) (index s)
    \<and> distinct (map fst (index s)) \<and> history s = h @ ts \<and> history_fingerprint s = fingerprint_of (h @ ts)"
proof -
  note n = row_new_ok [OF assms(2,1)]
  have i: "row_inv s" unfolding assms(3) using n(1) commits_ok [OF assms(1)] by (rule rows.run_inv)
  note f = commits_fields [OF n(1) assms(1), of ts, folded assms(3)]
  have x: "index_inv s" using i by (simp add: row_inv_def settled_def)
  have c: "config s = cfg" "history s = h @ ts" using f n by simp_all
  have "ps \<noteq> [] \<and> length ps \<le> 2 \<and> (\<forall>c \<in> set ps. length (h @ ts) - history_window_tokens cfg \<le> c \<and> c < length (h @ ts))"
    if m: "(k, ps) \<in> set (index s)" for k ps
  proof -
    have "\<lparr>le_key = k, continuation = p\<rparr> \<in> set (ledger s)" if "p \<in> set ps" for p using x m that by (auto simp: index_inv_def)
    then have "length (h @ ts) - history_window_tokens cfg \<le> p \<and> p < length (h @ ts)" if "p \<in> set ps" for p
      using i x that by (fastforce simp: row_inv_def index_inv_def entry_ok_def c)
    then show ?thesis using x m by (auto simp: index_inv_def)
  qed
  then show ?thesis using i x f n by (auto simp: row_inv_def settled_def index_inv_def list_all_iff fingerprint_of_def)
qed

definition tiny_config :: lookup_config where
  "tiny_config = \<lparr>min_ngram = 1, max_ngram = 1, max_draft_tokens = 4, history_window_tokens = 4,
     max_index_entries = 4, cross_request = False\<rparr>"

lemma permutes_all_id: "permutes_all id"
  by (simp add: permutes_all_def)

lemma tiny_row: "\<exists>s. row_new id h tiny_config = Inr s"
  by (simp add: row_new_def config_validate_def tiny_config_def Let_def)

theorem row_index_bounded_witness:
  "\<exists>s0. row_new id [1, 2] tiny_config = Inr s0
     \<and> length (index (run_ops (\<lambda>s t. row_commit id t s) s0 [1, 2, 2, 1])) \<le> 4"
proof -
  obtain s0 where s: "row_new id [1, 2] tiny_config = Inr s0" using tiny_row by blast
  from row_index_bounded [OF permutes_all_id s refl, of "[1, 2, 2, 1]"]
  have "length (index (run_ops (\<lambda>s t. row_commit id t s) s0 [1, 2, 2, 1])) \<le> max_index_entries tiny_config" by blast
  with s show ?thesis by (auto simp: tiny_config_def simp del: run_ops_simps)
qed

end
