(* ===== verification/NgramExact.thy ===== *)
theory NgramExact
  imports NgramLookup
begin

text \<open>
  The incremental index of \<open>PromptLookupRowState\<close> (\<open>ironmlx/src/core/prompt_lookup.rs\<close>) against a scan of the
  history: while the entry cap has room for every n-gram of the window, the positions of a key are the last
  two places where its n-gram ends, so proposals are those of the scan.
\<close>

section \<open>The scan\<close>

text \<open>The places in the window where the last \<open>n\<close> tokens have occurred before; \<open>start\<close> is where indexing began.\<close>

definition earlier_copies :: "token list \<Rightarrow> nat \<Rightarrow> nat \<Rightarrow> nat \<Rightarrow> nat list" where
  "earlier_copies h start window n = filter (\<lambda>c. n \<le> c \<and> start \<le> c - n \<and> length h - window \<le> c
     \<and> gram h c n = gram h (length h) n) [0..<length h]"

text \<open>
  Of the last two of them, those that do not overlap the last \<open>n\<close> tokens; the later one, unless it is so
  close to the end that the earlier one gives a longer draft.
\<close>

definition scan_draft :: "token list \<Rightarrow> nat \<Rightarrow> nat \<Rightarrow> nat \<Rightarrow> nat \<Rightarrow> nat option" where
  "scan_draft h start window max_draft n =
     (case filter (\<lambda>c. c < length h - n) (last_two (earlier_copies h start window n)) of
        [] \<Rightarrow> None
      | [c] \<Rightarrow> Some c
      | a # b # _ \<Rightarrow> Some (if max_draft \<le> length h - b then b else a))"

fun scan_ngrams :: "token list \<Rightarrow> nat \<Rightarrow> nat \<Rightarrow> nat \<Rightarrow> nat list \<Rightarrow> local_proposal option" where
  "scan_ngrams h start window max_draft [] = None"
| "scan_ngrams h start window max_draft (n # ns) =
     (case scan_draft h start window max_draft n of
        Some c \<Rightarrow> Some \<lparr>prop_ngram = n, prop_continuation = c, prop_tokens = take max_draft (drop c h)\<rparr>
      | None \<Rightarrow> scan_ngrams h start window max_draft ns)"

text \<open>Longest n-grams first.\<close>

definition scan_propose :: "lookup_config \<Rightarrow> token list \<Rightarrow> nat \<Rightarrow> nat \<Rightarrow> local_proposal option" where
  "scan_propose cfg h start limit =
     (let max_draft = min limit (max_draft_tokens cfg) in
      if max_draft = 0 then None
      else scan_ngrams h start (history_window_tokens cfg) max_draft (rev [min_ngram cfg..<min (max_ngram cfg) (length h) + 1]))"

text \<open>The 128-bit keys of the n-grams in play do not collide.\<close>

definition no_collision :: "lookup_config \<Rightarrow> token list \<Rightarrow> bool" where
  "no_collision cfg h = list_all (\<lambda>n. list_all (\<lambda>c. n \<le> c \<longrightarrow>
       ngram_key_of (gram h c n) = ngram_key_of (gram h (length h) n) \<longrightarrow> gram h c n = gram h (length h) n)
     [0..<length h]) [min_ngram cfg..<max_ngram cfg + 1]"

section \<open>Occurrences of a key\<close>

definition indexable :: "lookup_config \<Rightarrow> token list \<Rightarrow> nat \<Rightarrow> ngram_key \<Rightarrow> nat \<Rightarrow> bool" where
  "indexable cfg h start k c = (min_ngram cfg \<le> key_len k \<and> key_len k \<le> max_ngram cfg \<and> key_len k \<le> c
     \<and> start \<le> c - key_len k \<and> ngram_key_of (gram h c (key_len k)) = k)"

definition occurrences :: "lookup_config \<Rightarrow> token list \<Rightarrow> nat \<Rightarrow> nat \<Rightarrow> ngram_key \<Rightarrow> nat list" where
  "occurrences cfg h start m k = filter (indexable cfg h start k) [0..<m]"

lemma occurrences_Suc:
  "occurrences cfg h start (Suc m) k = occurrences cfg h start m k @ (if indexable cfg h start k m then [m] else [])"
  by (simp add: occurrences_def)

lemma occurrences_sorted: "sorted (occurrences cfg h start m k)"
  by (simp add: occurrences_def sorted_filter [of "\<lambda>x. x", simplified])

lemma occurrences_push: "m \<le> length h \<Longrightarrow> occurrences cfg (h @ ts) start m k = occurrences cfg h start m k"
  unfolding occurrences_def by (rule filter_cong [OF refl]) (auto simp: indexable_def gram_append)

definition exact :: "nat \<Rightarrow> row_state \<Rightarrow> bool" where
  "exact start s = (\<forall>k. positions s k = last_two (filter (\<lambda>c. length (history s) - history_window_tokens (config s) \<le> c)
     (occurrences (config s) (history s) start (length (history s)) k)))"

section \<open>Counting keys\<close>

definition roomy :: "lookup_config \<Rightarrow> bool" where
  "roomy cfg = ((max_ngram cfg + 1 - min_ngram cfg) * history_window_tokens cfg \<le> max_index_entries cfg)"

lemma index_fits:
  assumes i: "index_inv s" and w: "\<forall>e \<in> set (ledger s). length (history s) - history_window_tokens (config s) \<le> continuation e"
    and r: "roomy (config s)"
  shows "length (index s) \<le> max_index_entries (config s)"
proof -
  let ?h = "history s" and ?c = "config s"
  let ?ns = "{min_ngram ?c..<max_ngram ?c + 1}" and ?cs = "{length ?h - history_window_tokens ?c..<length ?h}"
  have "fst ` set (index s) \<subseteq> (\<lambda>(n, c). ngram_key_of (gram ?h c n)) ` (?ns \<times> ?cs)"
  proof
    fix k assume "k \<in> fst ` set (index s)"
    then obtain ps where m: "(k, ps) \<in> set (index s)" by auto
    then obtain c where c: "c \<in> set ps" using i by (cases ps) (auto simp: index_inv_def)
    then have e: "\<lparr>le_key = k, continuation = c\<rparr> \<in> set (ledger s)" using i m by (auto simp: index_inv_def)
    then have "entry_ok s \<lparr>le_key = k, continuation = c\<rparr>" using i by (simp add: index_inv_def)
    moreover have "length ?h - history_window_tokens ?c \<le> c" using w e by fastforce
    ultimately have "(key_len k, c) \<in> ?ns \<times> ?cs" "k = ngram_key_of (gram ?h c (key_len k))" by (auto simp: entry_ok_def)
    then show "k \<in> (\<lambda>(n, c). ngram_key_of (gram ?h c n)) ` (?ns \<times> ?cs)" by force
  qed
  then have "card (fst ` set (index s)) \<le> card ((\<lambda>(n, c). ngram_key_of (gram ?h c n)) ` (?ns \<times> ?cs))" by (intro card_mono) auto
  also have "\<dots> \<le> card (?ns \<times> ?cs)" by (rule card_image_le) simp
  also have "\<dots> \<le> (max_ngram ?c + 1 - min_ngram ?c) * history_window_tokens ?c"
    unfolding card_cartesian_product by (intro mult_le_mono) simp_all
  also have "\<dots> \<le> max_index_entries ?c" using r by (simp add: roomy_def)
  finally have "card (fst ` set (index s)) \<le> max_index_entries ?c" .
  moreover have "card (fst ` set (index s)) = length (index s)"
    using i distinct_card [of "map fst (index s)"] by (simp add: index_inv_def)
  ultimately show ?thesis by simp
qed

section \<open>Exactness is kept\<close>

lemma build_step_exact:
  assumes b: "building h cfg ws c s" and c: "c < length h" "ws \<le> c" and n: "min_ngram cfg \<le> max_ngram cfg" and it: "permutes_all iter"
    and r: "roomy cfg" and ws: "ws = length h - history_window_tokens cfg"
    and p: "\<And>k. positions s k = last_two (occurrences cfg h ws c k)"
  shows "positions (build_step iter ws s c) k = last_two (occurrences cfg h ws (Suc c) k)"
proof -
  have i: "index_inv s" and h: "history s = h" "config s = cfg"
    and l: "\<forall>e \<in> set (ledger s). ws \<le> continuation e \<and> continuation e < c" using b by (auto simp: building_def)
  have ch: "c < length (history s)" "min_ngram (config s) \<le> max_ngram (config s)" using c n h by simp_all
  have lc: "\<forall>e \<in> set (ledger s). continuation e < c" using l by blast
  note f = index_continuation_facts [OF i ch(1) lc ch(2), where ws = ws]
  note g = build_step_ledger [OF i ch(1) l ch(2) c(2), of ws]
  have "(min_ngram cfg \<le> key_len k \<and> key_len k \<le> max_ngram cfg \<and> matches s c ws k) = indexable cfg h ws k c"
    by (auto simp: matches_def indexable_def h)
  then have pc: "positions (index_continuation c ws s) k = last_two (occurrences cfg h ws (Suc c) k)"
    unfolding f(3) h p occurrences_Suc by (simp add: recent_push_last_two)
  have fit: "length (index (index_continuation c ws s)) \<le> max_index_entries (config (index_continuation c ws s))"
  proof (rule index_fits [OF f(1)])
    show "roomy (config (index_continuation c ws s))" using r unfolding f(5) h .
    show "\<forall>e \<in> set (ledger (index_continuation c ws s)). length (history (index_continuation c ws s))
        - history_window_tokens (config (index_continuation c ws s)) \<le> continuation e"
      unfolding f(4,5) h ws [symmetric] using g by blast
  qed
  show ?thesis using settle_facts(2) [OF f(1) it fit] pc by (simp add: build_step_def Let_def)
qed

lemma row_new_exact:
  assumes "row_new iter h cfg = Inr s" and it: "permutes_all iter" and r: "roomy cfg"
  shows "exact (length h - history_window_tokens cfg) s"
proof -
  let ?ws = "length h - history_window_tokens cfg"
  obtain d where d: "config_validate cfg = Inr d" using assms(1) by (cases "config_validate cfg") (auto simp: row_new_def)
  note v = config_valid [OF d]
  let ?b = "\<lambda>m. foldl (build_step iter ?ws) (row_empty h cfg) [?ws..<m]"
  have s: "s = settle iter (?b (length h))" using assms(1) d v(1) by (simp add: row_new_def Let_def)
  have "positions (?b m) k = last_two (occurrences cfg h ?ws m k)" if "?ws \<le> m" "m \<le> length h" for m k
    using that
  proof (induction m arbitrary: k rule: dec_induct)
    case base
    have "occurrences cfg h ?ws ?ws k = []" by (auto simp: occurrences_def indexable_def filter_empty_conv)
    then show ?case by (simp add: positions_def row_empty_def)
  next
    case (step m)
    have b: "building h cfg ?ws m (?b m)" by (rule build_loop_ok) (use step v it in simp_all)
    show ?case using build_step_exact [OF b _ step(1) v(3) it r refl] step by simp
  qed
  then have p: "positions (?b (length h)) k = last_two (occurrences cfg h ?ws (length h) k)" for k by simp
  have b: "building h cfg ?ws (length h) (?b (length h))" by (rule build_loop_ok) (use v it in simp_all)
  then have i: "index_inv (?b (length h))" and f: "history (?b (length h)) = h" "config (?b (length h)) = cfg"
    and l: "\<forall>e \<in> set (ledger (?b (length h))). ?ws \<le> continuation e" by (auto simp: building_def)
  have fit: "length (index (?b (length h))) \<le> max_index_entries (config (?b (length h)))"
    by (rule index_fits [OF i]) (use l r f in simp_all)
  have "filter (\<lambda>c. ?ws \<le> c) (occurrences cfg h ?ws (length h) k) = occurrences cfg h ?ws (length h) k" for k
    unfolding filter_id_conv by (auto simp: occurrences_def indexable_def)
  then show ?thesis using settle_facts(2) [OF i it fit] settle_facts(4,5) [OF i it] p f by (simp add: exact_def s)
qed

lemma row_commit_exact:
  assumes i: "row_inv s" and it: "permutes_all iter" and r: "roomy (config s)" and x: "exact start s"
    and st: "start \<le> length (history s) - history_window_tokens (config s)"
  shows "exact start (row_commit iter t s)"
proof -
  let ?s = "s\<lparr>history := history s @ [t], history_fingerprint := fingerprint_push (history_fingerprint s) t\<rparr>"
  let ?h = "history s" and ?cfg = "config s" and ?c = "length (history s)" and ?w = "history_window_tokens (config s)"
  let ?ws = "length (history s @ [t]) - ?w"
  have v: "config_validate ?cfg = Inr ?cfg" and y: "index_inv s" using i by (simp_all add: row_inv_def settled_def)
  have n: "min_ngram (config ?s) \<le> max_ngram (config ?s)" using config_valid(3) [OF v] by simp
  have wn: "max_ngram ?cfg < ?w" using config_valid(5) [OF v] .
  have x1: "index_inv ?s" by (rule index_inv_push [OF y])
  have l: "\<forall>e \<in> set (ledger ?s). continuation e < ?c" using y by (auto simp: index_inv_def entry_ok_def)
  have c: "?c < length (history ?s)" by simp
  note f = index_continuation_facts [OF x1 c l n, where ws = ?ws]
  note ev = evict_stale_before_facts [OF f(1), of ?ws]
  let ?occ = "\<lambda>k. occurrences ?cfg (?h @ [t]) start (Suc ?c) k"
  have "(min_ngram ?cfg \<le> key_len k \<and> key_len k \<le> max_ngram ?cfg \<and> matches ?s ?c ?ws k) = indexable ?cfg (?h @ [t]) start k ?c" for k
    using wn st by (auto simp: matches_def indexable_def)
  then have pc: "positions (index_continuation ?c ?ws ?s) k =
      last_two (filter (\<lambda>c. length ?h - ?w \<le> c) (?occ k))" for k
    using f(3) [of k] x
    by (simp add: exact_def occurrences_Suc occurrences_push recent_push_last_two)
  have "positions (evict_stale_before ?ws (index_continuation ?c ?ws ?s)) k = last_two (filter (\<lambda>c. ?ws \<le> c) (?occ k))" for k
  proof -
    have "filter (\<lambda>c. ?ws \<le> c) (filter (\<lambda>c. length ?h - ?w \<le> c) (?occ k)) = filter (\<lambda>c. ?ws \<le> c) (?occ k)"
      by (auto intro: filter_cong)
    moreover have "sorted (filter (\<lambda>c. length ?h - ?w \<le> c) (?occ k))"
      using occurrences_sorted sorted_filter [of "\<lambda>x. x", simplified] by blast
    ultimately show ?thesis unfolding ev(2) pc using filter_ge_last_two by metis
  qed
  moreover have e: "evict_stale (index_continuation ?c ?ws ?s) = evict_stale_before ?ws (index_continuation ?c ?ws ?s)"
    unfolding evict_stale_def f(4,5) by simp
  moreover have hf: "history (evict_stale (index_continuation ?c ?ws ?s)) = ?h @ [t]" "config (evict_stale (index_continuation ?c ?ws ?s)) = ?cfg"
    unfolding e ev(4,5) f(4,5) by simp_all
  have ei: "index_inv (evict_stale (index_continuation ?c ?ws ?s))" unfolding e by (rule ev(1))
  have fit: "length (index (evict_stale (index_continuation ?c ?ws ?s))) \<le> max_index_entries (config (evict_stale (index_continuation ?c ?ws ?s)))"
  proof (rule index_fits [OF ei])
    show "roomy (config (evict_stale (index_continuation ?c ?ws ?s)))" using r unfolding hf .
    show "\<forall>ea \<in> set (ledger (evict_stale (index_continuation ?c ?ws ?s))). length (history (evict_stale (index_continuation ?c ?ws ?s)))
        - history_window_tokens (config (evict_stale (index_continuation ?c ?ws ?s))) \<le> continuation ea"
      unfolding hf using ev(3) unfolding e by blast
  qed
  have rc: "row_commit iter t s = settle iter (evict_stale (index_continuation ?c ?ws ?s))" by (simp add: row_commit_def Let_def)
  show ?thesis unfolding exact_def rc settle_facts(2) [OF ei it fit] settle_facts(4,5) [OF ei it] hf
    using calculation by simp
qed

lemma commits_exact:
  assumes "row_inv s" and it: "permutes_all iter" and r: "roomy (config s)" and "exact start s"
    and "start \<le> length (history s) - history_window_tokens (config s)"
  shows "exact start (run_ops (\<lambda>s t. row_commit iter t s) s ts)"
  using assms(1,3,4,5)
proof (induction ts arbitrary: s)
  case (Cons t ts)
  note o' = row_commit_ok [OF Cons.prems(1) it]
  have "start \<le> length (history (row_commit iter t s)) - history_window_tokens (config (row_commit iter t s))"
    using Cons.prems(4) o' by simp
  then show ?case using Cons.IH [of "row_commit iter t s"] row_commit_exact [OF Cons.prems(1) it Cons.prems(2,3,4)] o' Cons.prems(2)
    by simp
qed simp

section \<open>Proposals\<close>

text \<open>The loop over at most two positions, latest first.\<close>

definition acceptable :: "token list \<Rightarrow> nat \<Rightarrow> nat \<Rightarrow> nat \<Rightarrow> bool" where
  "acceptable h n window_start c = (window_start \<le> c \<and> c < length h - n \<and> n \<le> c \<and> gram h c n = drop (length h - n) h)"

lemma best_position_skip:
  "0 < m \<Longrightarrow> best_position h n ws m cs best = best_position h n ws m (filter (acceptable h n ws) cs) best"
proof (induction cs arbitrary: best)
  case (Cons c cs)
  show ?case
  proof (cases "acceptable h n ws c")
    case True
    then have "\<not> (c < ws \<or> c \<ge> length h - n)" "\<not> (c < n \<or> gram h c n \<noteq> drop (length h - n) h)" "min (length h - c) m \<noteq> 0"
      using Cons.prems by (auto simp: acceptable_def)
    then show ?thesis using True Cons by (simp only: best_position.simps filter.simps if_False if_True Let_def)
  next
    case False
    then have "best_position h n ws m (c # cs) best = best_position h n ws m cs best" by (auto simp: acceptable_def)
    then show ?thesis using False Cons by (simp only: filter.simps if_False)
  qed
qed simp

lemma best_position_two:
  assumes "0 < m" and "sorted_wrt (<) ps" and "length ps \<le> 2" and "\<forall>c \<in> set ps. acceptable h n ws c"
  shows "best_position h n ws m (rev ps) None =
    (case ps of [] \<Rightarrow> None | [c] \<Rightarrow> Some (min (length h - c) m, c)
     | a # b # _ \<Rightarrow> (let c = (if m \<le> length h - b then b else a) in Some (min (length h - c) m, c)))"
proof -
  consider "ps = []" | c where "ps = [c]" | a b where "ps = [a, b]"
    using assms(3) by (cases ps; cases "tl ps"; cases "tl (tl ps)") auto
  then show ?thesis
  proof cases
    case (3 a b)
    then have "a < b" "b < length h" using assms(2,4) by (auto simp: acceptable_def)
    then show ?thesis using assms(1,4) 3 by (auto simp: acceptable_def Let_def min_def)
  qed (use assms(1,4) in \<open>auto simp: acceptable_def Let_def\<close>)
qed

lemma propose_ngrams_exact:
  assumes i: "index_inv s" and x: "exact start s" and m: "0 < m" and nc: "no_collision (config s) (history s)"
    and ns: "\<forall>n \<in> set ns. min_ngram (config s) \<le> n \<and> n \<le> max_ngram (config s) \<and> n \<le> length (history s)"
  shows "propose_ngrams s (length (history s) - history_window_tokens (config s)) m ns
    = scan_ngrams (history s) start (history_window_tokens (config s)) m ns"
  using ns
proof (induction ns)
  have coll: "n \<le> c \<Longrightarrow> ngram_key_of (gram (history s) c n) = ngram_key_of (gram (history s) (length (history s)) n)
      \<Longrightarrow> gram (history s) c n = gram (history s) (length (history s)) n"
    if "min_ngram (config s) \<le> n" "n \<le> max_ngram (config s)" "c < length (history s)" for n c
    using nc that by (simp add: no_collision_def list_all_iff del: upt_Suc)
  case (Cons n ns)
  let ?h = "history s" and ?cfg = "config s" and ?w = "history_window_tokens (config s)"
  let ?suffix = "drop (length ?h - n) ?h" and ?ws = "length ?h - ?w"
  let ?k = "ngram_key_of ?suffix" and ?ps = "positions s (ngram_key_of (drop (length (history s) - n) (history s)))"
  let ?cs = "filter (\<lambda>c. c < length ?h - n) (last_two (earlier_copies ?h start ?w n))"
  have n: "min_ngram ?cfg \<le> n" "n \<le> max_ngram ?cfg" "n \<le> length ?h" using Cons.prems by auto
  have g: "gram ?h (length ?h) n = ?suffix" by (rule gram_suffix [OF n(3)])
  have kl: "key_len ?k = n" using n(3) by simp
  have "(length ?h - ?w \<le> c \<and> indexable ?cfg ?h start ?k c) = (n \<le> c \<and> start \<le> c - n \<and> ?ws \<le> c \<and> gram ?h c n = gram ?h (length ?h) n)"
    if "c < length ?h" for c
    using coll [OF n(1,2) that] g n unfolding indexable_def kl by auto
  then have "filter (\<lambda>c. ?ws \<le> c) (occurrences ?cfg ?h start (length ?h) ?k) = earlier_copies ?h start ?w n"
    unfolding occurrences_def earlier_copies_def filter_filter by (intro filter_cong [OF refl]) auto
  moreover have "?ps = last_two (filter (\<lambda>c. ?ws \<le> c) (occurrences ?cfg ?h start (length ?h) ?k))"
    using x unfolding exact_def by blast
  ultimately have ps: "?ps = last_two (earlier_copies ?h start ?w n)" by (simp only:)
  have acc: "acceptable ?h n ?ws c \<longleftrightarrow> c < length ?h - n" if "c \<in> set ?ps" for c
    using that last_two_set [of "earlier_copies ?h start ?w n"] unfolding ps
    by (auto simp: acceptable_def earlier_copies_def g)
  have sw: "sorted_wrt (<) ?ps" "length ?ps \<le> 2" by (rule positions_facts [OF i])+
  have fl: "filter (acceptable ?h n ?ws) ?ps = ?cs" unfolding ps [symmetric] by (rule filter_cong [OF refl acc])
  have sc: "sorted_wrt (<) ?cs" "length ?cs \<le> 2"
    using sw by (simp_all flip: ps add: sorted_wrt_filter le_trans [OF length_filter_le])
  have ac: "\<forall>c \<in> set ?cs. acceptable ?h n ?ws c" unfolding fl [symmetric] by simp
  have best: "best_position ?h n ?ws m (rev ?ps) None = (case ?cs of [] \<Rightarrow> None | [c] \<Rightarrow> Some (min (length ?h - c) m, c)
     | a # b # _ \<Rightarrow> (let c = (if m \<le> length ?h - b then b else a) in Some (min (length ?h - c) m, c)))"
    by (rule trans [OF best_position_skip [OF m]]) (unfold rev_filter [symmetric] fl, rule best_position_two [OF m sc ac])
  have tk: "take (min (length ?h - c) m) (drop c ?h) = take m (drop c ?h)" for c by (simp add: min_def)
  have b': "best_position ?h n ?ws m (rev ?ps) None = map_option (\<lambda>c. (min (length ?h - c) m, c)) (scan_draft ?h start ?w m n)"
    unfolding best scan_draft_def by (auto simp: Let_def split: list.split)
  have "propose_ngrams s ?ws m (n # ns) = (case best_position ?h n ?ws m (rev ?ps) None of
      Some (len, c) \<Rightarrow> Some \<lparr>prop_ngram = n, prop_continuation = c, prop_tokens = take len (drop c ?h)\<rparr>
    | None \<Rightarrow> propose_ngrams s ?ws m ns)"
    by (simp add: positions_def split: option.split)
  then show ?case using Cons.IH Cons.prems unfolding b' by (simp add: tk split: option.split)
qed simp

lemma best_position_sound:
  assumes "best_position h n ws m cs best = Some (l, c)" and "\<And>l' c'. best = Some (l', c') \<Longrightarrow> acceptable h n ws c' \<and> l' = min (length h - c') m"
  shows "acceptable h n ws c \<and> l = min (length h - c) m"
  using assms
proof (induction cs arbitrary: best)
  case (Cons x cs)
  show ?case
  proof (cases "x < ws \<or> x \<ge> length h - n \<or> x < n \<or> gram h x n \<noteq> drop (length h - n) h \<or> min (length h - x) m = 0")
    case True
    then have "best_position h n ws m (x # cs) best = best_position h n ws m cs best" by (auto simp: Let_def)
    then show ?thesis using Cons.IH Cons.prems by metis
  next
    case False
    then have a: "acceptable h n ws x" by (simp add: acceptable_def)
    let ?x = "Some (min (length h - x) m, x)"
    let ?b = "case best of Some (l, p) \<Rightarrow> if l > min (length h - x) m \<or> (l = min (length h - x) m \<and> p > x) then best else ?x | None \<Rightarrow> ?x"
    have "best_position h n ws m (x # cs) best = best_position h n ws m cs ?b" using False by (simp only: best_position.simps de_Morgan_disj if_False Let_def simp_thms)
    moreover have "?b = best \<or> ?b = ?x" by (simp split: option.split prod.split)
    ultimately obtain b where b: "best_position h n ws m (x # cs) best = best_position h n ws m cs b" "b = best \<or> b = ?x" by blast
    then show ?thesis using Cons.IH [of b] Cons.prems a by auto
  qed
qed auto

lemma propose_ngrams_sound:
  assumes "0 < m" and "propose_ngrams s ws m ns = Some p"
  shows "prop_ngram p \<in> set ns \<and> acceptable (history s) (prop_ngram p) ws (prop_continuation p)
    \<and> prop_tokens p = take (min (length (history s) - prop_continuation p) m) (drop (prop_continuation p) (history s))"
  using assms(2)
proof (induction ns)
  case (Cons n ns)
  show ?case
  proof (cases "propose_ngrams s ws m ns = Some p")
    case True
    then show ?thesis using Cons.IH by simp
  next
    case False
    then obtain ps l c where b: "best_position (history s) n ws m (rev ps) None = Some (l, c)"
      and p: "p = \<lparr>prop_ngram = n, prop_continuation = c, prop_tokens = take l (drop c (history s))\<rparr>"
      using Cons.prems by (auto split: option.splits)
    show ?thesis using best_position_sound [OF b] p by simp
  qed
qed simp

text \<open>
  C12: as long as the entry cap has room for every n-gram of the window and keys do not collide, a row that
  was built from any history and extended by any tokens proposes exactly what scanning the whole history
  proposes: the longest n-gram with an earlier copy that does not overlap it, of its last two copies the
  later one unless the earlier one gives a longer draft.
\<close>

theorem incremental_lookup_is_scan:
  assumes "permutes_all iter" and "row_new iter h cfg = Inr s0" and "roomy cfg" and "no_collision cfg (h @ ts)"
  shows "row_propose (run_ops (\<lambda>s t. row_commit iter t s) s0 ts) limit
    = scan_propose cfg (h @ ts) (length h - history_window_tokens cfg) limit"
proof -
  let ?s = "run_ops (\<lambda>s t. row_commit iter t s) s0 ts"
  let ?start = "length h - history_window_tokens cfg"
  note n = row_new_ok [OF assms(2,1)]
  have i: "row_inv ?s" using n(1) commits_ok [OF assms(1)] by (rule rows.run_inv)
  have f: "history ?s = h @ ts" "config ?s = cfg" using commits_fields [OF n(1) assms(1)] n by simp_all
  have x: "exact ?start ?s"
    by (rule commits_exact [OF n(1) assms(1)]) (use assms(3) n row_new_exact [OF assms(2,1,3)] in simp_all)
  have y: "index_inv ?s" using i by (simp add: row_inv_def settled_def)
  have nc: "no_collision (config ?s) (history ?s)" using assms(4) by (simp add: f)
  let ?ns = "rev [min_ngram cfg..<min (max_ngram cfg) (length (h @ ts)) + 1]"
  have ns: "\<forall>n \<in> set ?ns. min_ngram (config ?s) \<le> n \<and> n \<le> max_ngram (config ?s) \<and> n \<le> length (history ?s)" by (auto simp: f)
  show ?thesis
  proof (cases "min limit (max_draft_tokens cfg) = 0")
    case True
    then show ?thesis by (simp add: row_propose_def scan_propose_def f Let_def)
  next
    case False
    then have m: "0 < min limit (max_draft_tokens cfg)" by simp
    show ?thesis using propose_ngrams_exact [OF y x m nc ns]
      unfolding row_propose_def scan_propose_def f Let_def by (simp only: False if_False)
  qed
qed

text \<open>
  Whatever has been evicted and whatever keys collide, a proposal is a copy of the history: it
  continues an earlier place in the window that ends with the same \<open>n\<close> tokens as the history, \<open>n\<close> within
  the configured bounds, without overlapping them; it is not empty and within the limit.
\<close>

theorem proposals_continue_copies:
  assumes "permutes_all iter" and "row_new iter h cfg = Inr s0"
    and "row_propose (run_ops (\<lambda>s t. row_commit iter t s) s0 ts) limit = Some p"
  shows "min_ngram cfg \<le> prop_ngram p \<and> prop_ngram p \<le> max_ngram cfg
    \<and> prop_ngram p \<le> prop_continuation p \<and> prop_continuation p < length (h @ ts) - prop_ngram p
    \<and> length (h @ ts) - history_window_tokens cfg \<le> prop_continuation p
    \<and> gram (h @ ts) (prop_continuation p) (prop_ngram p) = gram (h @ ts) (length (h @ ts)) (prop_ngram p)
    \<and> prop_tokens p = take (min limit (max_draft_tokens cfg)) (drop (prop_continuation p) (h @ ts)) \<and> prop_tokens p \<noteq> []"
proof -
  let ?s = "run_ops (\<lambda>s t. row_commit iter t s) s0 ts" and ?h = "h @ ts"
  note n = row_new_ok [OF assms(2,1)]
  have f: "history ?s = ?h" "config ?s = cfg" using commits_fields [OF n(1) assms(1)] n by simp_all
  have i: "row_inv ?s" using n(1) commits_ok [OF assms(1)] by (rule rows.run_inv)
  then have x: "index_inv ?s" by (simp add: row_inv_def settled_def)
  let ?m = "min limit (max_draft_tokens cfg)" and ?ws = "length ?h - history_window_tokens cfg"
  have *: "propose_ngrams ?s ?ws ?m (rev [min_ngram cfg..<min (max_ngram cfg) (length ?h) + 1]) = Some p" and m: "0 < ?m"
    using assms(3) by (auto simp: row_propose_def f Let_def split: if_splits)
  have "\<forall>n \<in> set (rev [min_ngram cfg..<min (max_ngram cfg) (length ?h) + 1]). min_ngram cfg \<le> n \<and> n \<le> max_ngram cfg \<and> n \<le> length ?h" by auto
  from propose_ngrams_sound [OF m *, unfolded f] this have q: "min_ngram cfg \<le> prop_ngram p" "prop_ngram p \<le> max_ngram cfg" "prop_ngram p \<le> length ?h"
    "acceptable ?h (prop_ngram p) ?ws (prop_continuation p)"
    "prop_tokens p = take (min (length ?h - prop_continuation p) ?m) (drop (prop_continuation p) ?h)" by blast+
  have "take (min (length ?h - c) ?m) (drop c ?h) = take ?m (drop c ?h)" for c by (simp add: min_def)
  moreover have "take ?m (drop (prop_continuation p) ?h) \<noteq> []" using q(4) m by (auto simp: acceptable_def)
  ultimately show ?thesis using q gram_suffix [OF q(3)] by (simp add: acceptable_def)
qed

section \<open>Witnesses\<close>

lemma tiny_proposal:
  "(case row_new id [1, 2] tiny_config of Inr s0 \<Rightarrow> row_propose (row_commit id 1 s0) 3 | Inl _ \<Rightarrow> None)
   = Some \<lparr>prop_ngram = 1, prop_continuation = 1, prop_tokens = [2, 1]\<rparr>"
  by code_simp

theorem incremental_lookup_is_scan_witness:
  "\<exists>s0. row_new id [1, 2] tiny_config = Inr s0
     \<and> row_propose (run_ops (\<lambda>s t. row_commit id t s) s0 [1]) 3 = scan_propose tiny_config [1, 2, 1] 0 3"
proof -
  have r: "roomy tiny_config" "no_collision tiny_config ([1, 2] @ [1])" by code_simp+
  obtain s0 where s: "row_new id [1, 2] tiny_config = Inr s0" using tiny_row by blast
  have "length [1 :: token, 2] - history_window_tokens tiny_config = 0" by (simp add: tiny_config_def)
  with incremental_lookup_is_scan [OF permutes_all_id s r, of 3] s show ?thesis by (auto simp del: run_ops_simps)
qed

theorem proposals_continue_copies_witness:
  "\<exists>s0 p. row_new id [1, 2] tiny_config = Inr s0
     \<and> row_propose (run_ops (\<lambda>s t. row_commit id t s) s0 [1]) 3 = Some p
     \<and> gram [1, 2, 1] (prop_continuation p) (prop_ngram p) = gram [1, 2, 1] (length [1 :: token, 2, 1]) (prop_ngram p)"
proof -
  obtain s0 where s: "row_new id [1, 2] tiny_config = Inr s0" using tiny_row by blast
  obtain p where p: "row_propose (run_ops (\<lambda>s t. row_commit id t s) s0 [1]) 3 = Some p"
    using tiny_proposal unfolding s sum.case by simp
  have "[1 :: token, 2] @ [1] = [1, 2, 1]" by simp
  with proposals_continue_copies [OF permutes_all_id s p] s p show ?thesis by (auto simp del: run_ops_simps list.size)
qed

end
