(* ===== verification/SharedPool.thy ===== *)
theory SharedPool
  imports NgramIndex
begin

text \<open>
  \<open>ironmlx/src/core/prompt_lookup.rs\<close>, \<open>SharedPromptLookupPool\<close>: what finished requests leave behind for others.
  Every n-gram of a published history is a key; its candidate holds the tokens that followed.

  The clock \<open>now\<close> is an argument. The hash map is an association list, \<open>iter\<close> any order of iteration over it.
  The snapshots of the draft policy that candidates carry are a type parameter. The byte estimates that read
  the capacity of containers are left out; the payload bytes, which are counted, are not.
\<close>

section \<open>Data\<close>

definition SHARED_PROMPT_LOOKUP_TTL_MS :: nat where
  "SHARED_PROMPT_LOOKUP_TTL_MS = 60 * 60 * 1000"

record 'p candidate =
  cand_id :: nat
  key_tokens :: "token list"
  draft :: "token list"
  certified_draft_len :: nat
  certified_history :: "fingerprint option"
  policy_snapshot :: "'p option"
  expires_at_ms :: nat
  last_access :: nat

record 'p payload =
  pay_key_tokens :: "token list"
  pay_draft :: "token list"
  pay_certified_draft_len :: nat
  pay_certified_history :: "fingerprint option"
  pay_policy_snapshot :: "'p option"
  pay_now_ms :: nat

record pool_ledger_entry =
  pl_id :: nat
  pl_key :: ngram_key

record publish_result =
  indexed_tokens :: nat
  evicted_entries :: nat

record 'p certification =
  cert_continuation :: nat
  cert_draft_len :: nat
  cert_policy :: 'p

record 'p shared_proposal =
  sp_ngram :: nat
  sp_tokens :: "token list"
  sp_certified_draft_len :: nat
  sp_certified_bonus :: "token option"
  sp_policy :: "'p option"

record 'p pool =
  pool_config :: lookup_config
  pool_entries :: "(ngram_key \<times> 'p candidate) list"
  pool_ledger :: "pool_ledger_entry list"
  payload_bytes :: nat
  next_id :: nat
  access_clock :: nat
  entries_peak :: nat
  collision_rejections :: nat
  availability_epoch :: nat

datatype pool_error = InvalidConfig lookup_config_error | CrossRequestOff

definition pool_new :: "lookup_config \<Rightarrow> pool_error + 'p pool" where
  "pool_new c =
     (case config_validate c of
        Inl e \<Rightarrow> Inl (InvalidConfig e)
      | Inr c \<Rightarrow>
          if \<not> cross_request c then Inl CrossRequestOff
          else Inr \<lparr>pool_config = c, pool_entries = [], pool_ledger = [], payload_bytes = 0, next_id = 1,
            access_clock = 0, entries_peak = 0, collision_rejections = 0, availability_epoch = 0\<rparr>)"

section \<open>Small steps\<close>

definition candidate_payload_bytes :: "'p candidate \<Rightarrow> nat" where
  "candidate_payload_bytes c = sat_mul (sat_add (length (key_tokens c)) (length (draft c))) 4"

definition bump_availability_epoch :: "'p pool \<Rightarrow> 'p pool" where
  "bump_availability_epoch s = s\<lparr>availability_epoch := sat_add (availability_epoch s) 1\<rparr>"

definition refresh_entries_peak :: "'p pool \<Rightarrow> 'p pool" where
  "refresh_entries_peak s = s\<lparr>entries_peak := max (entries_peak s) (length (pool_entries s))\<rparr>"

definition remove_entry :: "ngram_key \<Rightarrow> 'p candidate \<Rightarrow> 'p pool \<Rightarrow> 'p pool" where
  "remove_entry k c s = s\<lparr>pool_entries := AList.delete k (pool_entries s),
     payload_bytes := sat_sub (payload_bytes s) (candidate_payload_bytes c)\<rparr>"

type_synonym 'p entry_order = "(ngram_key \<times> 'p candidate) list \<Rightarrow> (ngram_key \<times> 'p candidate) list"

definition compact_pool_ledger :: "'p entry_order \<Rightarrow> 'p pool \<Rightarrow> 'p pool" where
  "compact_pool_ledger iter s =
     (if length (pool_ledger s) \<le> sat_add (sat_mul (length (pool_entries s)) 2) 1024 then s
      else s\<lparr>pool_ledger := map (\<lambda>(k, c). \<lparr>pl_id = cand_id c, pl_key = k\<rparr>)
               (sort_key (\<lambda>(k, c). last_access c) (iter (pool_entries s)))\<rparr>)"

section \<open>Forgetting\<close>

definition prune_expired :: "nat \<Rightarrow> 'p pool \<Rightarrow> nat \<times> 'p pool" where
  "prune_expired now s =
     (let kept = filter (\<lambda>(k, c). now < expires_at_ms c) (pool_entries s);
          gone = filter (\<lambda>(k, c). \<not> now < expires_at_ms c) (pool_entries s);
          removed = foldl (\<lambda>b (k, c). sat_add b (candidate_payload_bytes c)) 0 gone
      in (length (pool_entries s) - length kept,
          s\<lparr>pool_entries := kept, payload_bytes := sat_sub (payload_bytes s) removed\<rparr>))"

text \<open>One round of the loop of \<open>reclaim_lru_to\<close>: whether the oldest ledger entry was still the last use of its key.\<close>

definition pop_oldest :: "'p pool \<Rightarrow> bool \<times> 'p pool" where
  "pop_oldest s =
     (case pool_ledger s of
        [] \<Rightarrow> (False, s)
      | e # es \<Rightarrow>
          (let s = s\<lparr>pool_ledger := es\<rparr> in
           case map_of (pool_entries s) (pl_key e) of
             Some c \<Rightarrow> if cand_id c = pl_id e then (True, remove_entry (pl_key e) c s) else (False, s)
           | None \<Rightarrow> (False, s)))"

lemma pop_oldest_ledger [simp]: "pool_ledger (snd (pop_oldest s)) = tl (pool_ledger s)"
  by (auto simp: pop_oldest_def remove_entry_def Let_def split: list.split option.split)

function reclaim_loop :: "nat \<Rightarrow> nat \<Rightarrow> 'p pool \<Rightarrow> nat \<times> 'p pool" where
  "reclaim_loop target evicted s =
     (if length (pool_entries s) > target \<and> pool_ledger s \<noteq> []
      then reclaim_loop target (if fst (pop_oldest s) then sat_add evicted 1 else evicted) (snd (pop_oldest s))
      else (evicted, s))"
  by pat_completeness auto
termination by (relation "measure (\<lambda>(t, n, s). length (pool_ledger s))") auto

declare reclaim_loop.simps [simp del]

definition reclaim_lru_to :: "'p entry_order \<Rightarrow> nat \<Rightarrow> 'p pool \<Rightarrow> nat \<times> 'p pool" where
  "reclaim_lru_to iter target s =
     (let (evicted, s) = reclaim_loop target 0 s in (evicted, compact_pool_ledger iter s))"

definition reclaim_to :: "'p entry_order \<Rightarrow> nat \<Rightarrow> nat \<Rightarrow> 'p pool \<Rightarrow> nat \<times> 'p pool" where
  "reclaim_to iter target now s =
     (let (pruned, s) = prune_expired now s; (evicted, s) = reclaim_lru_to iter target s
      in (sat_add pruned evicted, s))"

definition reclaim_fraction :: "'p entry_order \<Rightarrow> nat \<Rightarrow> nat \<Rightarrow> nat \<Rightarrow> 'p pool \<Rightarrow> nat \<times> 'p pool" where
  "reclaim_fraction iter now numerator denominator s =
     (let target = div_ceil (sat_mul (length (pool_entries s)) numerator) (max denominator 1);
          (evicted, s) = reclaim_to iter target now s
      in (evicted, if evicted > 0 then bump_availability_epoch s else s))"

definition pool_clear :: "'p pool \<Rightarrow> nat \<times> 'p pool" where
  "pool_clear s =
     (let cleared = length (pool_entries s);
          s = s\<lparr>pool_entries := [], pool_ledger := [], payload_bytes := 0\<rparr>
      in (cleared, if cleared > 0 then bump_availability_epoch s else s))"

section \<open>Publishing a history\<close>

definition candidate_of :: "nat \<Rightarrow> nat \<Rightarrow> 'p payload \<Rightarrow> 'p candidate" where
  "candidate_of i clock p = \<lparr>cand_id = i, key_tokens = pay_key_tokens p, draft = pay_draft p,
     certified_draft_len = pay_certified_draft_len p, certified_history = pay_certified_history p,
     policy_snapshot = pay_policy_snapshot p,
     expires_at_ms = sat_add (pay_now_ms p) SHARED_PROMPT_LOOKUP_TTL_MS, last_access = clock\<rparr>"

definition pool_insert :: "ngram_key \<Rightarrow> 'p payload \<Rightarrow> 'p pool \<Rightarrow> 'p pool" where
  "pool_insert k p s =
     (let s = s\<lparr>access_clock := sat_add (access_clock s) 1, next_id := sat_add (next_id s) 1\<rparr>;
          c = candidate_of (next_id s) (access_clock s) p;
          note_use = (\<lambda>s. s\<lparr>pool_ledger := pool_ledger s @ [\<lparr>pl_id = cand_id c, pl_key = k\<rparr>]\<rparr>)
      in case map_of (pool_entries s) k of
           Some old \<Rightarrow>
             if key_tokens old \<noteq> key_tokens c
             then s\<lparr>collision_rejections := sat_add (collision_rejections s) 1\<rparr>
             else if length (draft old) > length (draft c)
             then note_use (s\<lparr>pool_entries := AList.update k
                    (old\<lparr>cand_id := cand_id c, expires_at_ms := expires_at_ms c, last_access := last_access c\<rparr>)
                    (pool_entries s)\<rparr>)
             else note_use (s\<lparr>pool_entries := AList.update k c (pool_entries s),
                    payload_bytes := sat_add (sat_sub (payload_bytes s) (candidate_payload_bytes old)) (candidate_payload_bytes c)\<rparr>)
         | None \<Rightarrow> note_use (s\<lparr>pool_entries := AList.update k c (pool_entries s),
                    payload_bytes := sat_add (payload_bytes s) (candidate_payload_bytes c)\<rparr>))"

definition prefix_fingerprints :: "token list \<Rightarrow> fingerprint list" where
  "prefix_fingerprints h = snd (foldl (\<lambda>(f, fs) t. let f = fingerprint_push f t in (f, fs @ [f]))
     (fingerprint_new, [fingerprint_new]) h)"

text \<open>Of several certifications of one continuation the first with the longest draft counts.\<close>

definition certifications_by_continuation :: "'p certification list \<Rightarrow> nat \<Rightarrow> 'p certification option" where
  "certifications_by_continuation certs =
     foldl (\<lambda>m c. case m (cert_continuation c) of
              Some old \<Rightarrow> if cert_draft_len old < cert_draft_len c then m(cert_continuation c \<mapsto> c) else m
            | None \<Rightarrow> m(cert_continuation c \<mapsto> c)) Map.empty certs"

text \<open>What is stored for a continuation; only the key differs between its n-grams.\<close>

definition payload_at :: "lookup_config \<Rightarrow> nat \<Rightarrow> token list \<Rightarrow> 'p certification list \<Rightarrow> nat \<Rightarrow> nat \<Rightarrow> 'p payload" where
  "payload_at cfg now h certs c n =
     (let draft_end = min (length h) (sat_add c (max_draft_tokens cfg));
          cert = certifications_by_continuation certs c;
          certified = min (case cert of Some x \<Rightarrow> cert_draft_len x | None \<Rightarrow> 0) (draft_end - c)
      in \<lparr>pay_key_tokens = gram h c n, pay_draft = take (draft_end - c) (drop c h),
          pay_certified_draft_len = certified,
          pay_certified_history =
            (if certified > 0 \<and> certs \<noteq> [] \<and> c < length (prefix_fingerprints h) then Some (prefix_fingerprints h ! c) else None),
          pay_policy_snapshot = map_option cert_policy cert, pay_now_ms = now\<rparr>)"

definition insert_gram :: "nat \<Rightarrow> token list \<Rightarrow> 'p certification list \<Rightarrow> nat \<Rightarrow> nat \<Rightarrow> 'p pool \<Rightarrow> nat \<Rightarrow> 'p pool" where
  "insert_gram now h certs window_start c s n =
     (if c < n \<or> c - n < window_start then s
      else pool_insert (ngram_key_of (gram h c n)) (payload_at (pool_config s) now h certs c n) s)"

definition publish_step :: "'p entry_order \<Rightarrow> nat \<Rightarrow> token list \<Rightarrow> 'p certification list \<Rightarrow> nat
    \<Rightarrow> nat \<times> 'p pool \<Rightarrow> nat \<Rightarrow> nat \<times> 'p pool" where
  "publish_step iter now h certs window_start es c =
     (let (evicted, s) = es in
      if c = min (length h) (sat_add c (max_draft_tokens (pool_config s))) then (evicted, s)
      else
        let s = foldl (insert_gram now h certs window_start c) s [min_ngram (pool_config s)..<max_ngram (pool_config s) + 1] in
        if (c - window_start) mod 1024 = 1023 then
          let (evicted, s) =
            (if length (pool_entries s) > max_index_entries (pool_config s)
             then let (n, s) = reclaim_lru_to iter (max_index_entries (pool_config s)) s in (sat_add evicted n, s)
             else (evicted, s))
          in (evicted, refresh_entries_peak (compact_pool_ledger iter s))
        else (evicted, s))"

definition publish_history_with_mtp_certifications :: "'p entry_order \<Rightarrow> nat \<Rightarrow> token list \<Rightarrow> 'p certification list
    \<Rightarrow> 'p pool \<Rightarrow> publish_result \<times> 'p pool" where
  "publish_history_with_mtp_certifications iter now h certs s =
     (let (evicted, s) = prune_expired now s;
          window_start = length h - history_window_tokens (pool_config s);
          (evicted, s) = foldl (publish_step iter now h certs window_start) (evicted, s) [window_start..<length h];
          (n, s) = reclaim_to iter (max_index_entries (pool_config s)) now s;
          evicted = sat_add evicted n;
          s = compact_pool_ledger iter (refresh_entries_peak s)
      in (\<lparr>indexed_tokens = length h - window_start, evicted_entries = evicted\<rparr>,
          if length h > min_ngram (pool_config s) \<or> evicted > 0 then bump_availability_epoch s else s))"

section \<open>Asking for a draft\<close>

text \<open>A candidate is used: it becomes the most recent one, and its draft is the proposal.\<close>

definition use_candidate :: "'p entry_order \<Rightarrow> fingerprint \<Rightarrow> nat \<Rightarrow> ngram_key \<Rightarrow> nat \<Rightarrow> 'p candidate \<Rightarrow> 'p pool
    \<Rightarrow> 'p shared_proposal option \<times> 'p pool" where
  "use_candidate iter fp max_draft k n c s =
     (let s = s\<lparr>access_clock := sat_add (access_clock s) 1, next_id := sat_add (next_id s) 1\<rparr>;
          c = c\<lparr>cand_id := next_id s, last_access := access_clock s\<rparr>;
          s = s\<lparr>pool_entries := AList.update k c (pool_entries s),
                pool_ledger := pool_ledger s @ [\<lparr>pl_id = cand_id c, pl_key = k\<rparr>]\<rparr>;
          d = take max_draft (draft c);
          certified = (if certified_history c = Some fp then min (certified_draft_len c) (length d) else 0);
          s = compact_pool_ledger iter s
      in (if d \<noteq> [] then Some \<lparr>sp_ngram = n, sp_tokens = d, sp_certified_draft_len = certified,
            sp_certified_bonus = (if certified > 0 \<and> certified < length d then Some (d ! certified) else None),
            sp_policy = (if certified > 0 then policy_snapshot c else None)\<rparr> else None, s))"

fun pool_propose_ngrams :: "'p entry_order \<Rightarrow> nat \<Rightarrow> token list \<Rightarrow> fingerprint \<Rightarrow> nat \<Rightarrow> nat list \<Rightarrow> 'p pool
    \<Rightarrow> 'p shared_proposal option \<times> 'p pool" where
  "pool_propose_ngrams iter now h fp max_draft [] s = (None, compact_pool_ledger iter s)"
| "pool_propose_ngrams iter now h fp max_draft (n # ns) s =
     (let suffix = drop (length h - n) h; k = ngram_key_of suffix in
      case map_of (pool_entries s) k of
        None \<Rightarrow> pool_propose_ngrams iter now h fp max_draft ns s
      | Some c \<Rightarrow>
          if expires_at_ms c \<le> now
          then pool_propose_ngrams iter now h fp max_draft ns (bump_availability_epoch (remove_entry k c s))
          else if key_tokens c \<noteq> suffix
          then pool_propose_ngrams iter now h fp max_draft ns (s\<lparr>collision_rejections := sat_add (collision_rejections s) 1\<rparr>)
          else use_candidate iter fp max_draft k n c s)"

definition pool_propose :: "'p entry_order \<Rightarrow> nat \<Rightarrow> token list \<Rightarrow> fingerprint \<Rightarrow> nat \<Rightarrow> 'p pool
    \<Rightarrow> 'p shared_proposal option \<times> 'p pool" where
  "pool_propose iter now h fp limit s =
     (let max_draft = min limit (max_draft_tokens (pool_config s)) in
      if max_draft = 0 then (None, s)
      else pool_propose_ngrams iter now h fp max_draft
        (rev [min_ngram (pool_config s)..<min (max_ngram (pool_config s)) (length h) + 1]) s)"

section \<open>All operations\<close>

datatype 'p pool_op =
  Publish nat "token list" "'p certification list"
| Propose nat "token list" fingerprint nat
| ReclaimFraction nat nat nat
| PoolClear

fun pool_step :: "'p entry_order \<Rightarrow> 'p pool \<Rightarrow> 'p pool_op \<Rightarrow> 'p pool" where
  "pool_step iter s (Publish now h certs) = snd (publish_history_with_mtp_certifications iter now h certs s)"
| "pool_step iter s (Propose now h fp limit) = snd (pool_propose iter now h fp limit s)"
| "pool_step iter s (ReclaimFraction now a b) = snd (reclaim_fraction iter now a b s)"
| "pool_step iter s PoolClear = snd (pool_clear s)"

end
