(* ===== verification/SharedPoolInv.thy ===== *)
theory SharedPoolInv
  imports SharedPool NgramInv "HOL-Library.Sublist"
begin

text \<open>
  The invariant of \<open>SharedPromptLookupPool\<close> (\<open>ironmlx/src/core/prompt_lookup.rs\<close>). Candidates come from
  published histories; every candidate has a ledger entry for its last use; while the clock has not
  saturated the ledger is sorted by use. Payload bytes are followed separately, since they are exact only
  while sums fit into 64 bits.
\<close>

section \<open>Where candidates come from\<close>

type_synonym 'p publication = "nat \<times> token list \<times> 'p certification list"

text \<open>A candidate of \<open>k\<close>: an n-gram of a published history, what followed it there, and a certification of that place.\<close>

text \<open>The longest certificate for a place of a history, zero if there is none.\<close>

definition longest_certificate :: "'p certification list \<Rightarrow> nat \<Rightarrow> nat" where
  "longest_certificate certs m = Max (insert 0 (cert_draft_len ` set (filter (\<lambda>x. cert_continuation x = m) certs)))"

definition stored_at :: "lookup_config \<Rightarrow> token list \<Rightarrow> 'p certification list \<Rightarrow> nat \<Rightarrow> nat \<Rightarrow> 'p candidate \<Rightarrow> bool" where
  "stored_at cfg h certs m n c = (min_ngram cfg \<le> n \<and> n \<le> max_ngram cfg \<and> n \<le> m \<and> length h - history_window_tokens cfg \<le> m - n
     \<and> m < length h \<and> key_tokens c = gram h m n \<and> draft c = take (max_draft_tokens cfg) (drop m h)
     \<and> certified_draft_len c = min (longest_certificate certs m) (length (draft c))
     \<and> (0 < certified_draft_len c \<longrightarrow> certified_history c = Some (fingerprint_of (take m h))
         \<and> (\<exists>x \<in> set certs. cert_continuation x = m \<and> cert_draft_len x = longest_certificate certs m \<and> policy_snapshot c = Some (cert_policy x))))"

definition stored :: "'p publication set \<Rightarrow> lookup_config \<Rightarrow> 'p candidate \<Rightarrow> bool" where
  "stored H cfg c = (\<exists>(now, h, certs) \<in> H. \<exists>m n. stored_at cfg h certs m n c)"

definition renewed :: "'p publication set \<Rightarrow> 'p candidate \<Rightarrow> bool" where
  "renewed H c = (\<exists>(now, h, certs) \<in> H. expires_at_ms c = sat_add now SHARED_PROMPT_LOOKUP_TTL_MS
     \<and> (\<exists>m < length h. length (key_tokens c) \<le> m \<and> gram h m (length (key_tokens c)) = key_tokens c))"

definition clock_ok :: "'p pool \<Rightarrow> bool" where
  "clock_ok s = (access_clock s + 1 < u64_max)"

definition lru_order :: "'p pool \<Rightarrow> bool" where
  "lru_order s = (next_id s = access_clock s + 1 \<and> sorted_wrt (<) (map pl_id (pool_ledger s))
     \<and> (\<forall>e \<in> set (pool_ledger s). pl_id e \<le> next_id s)
     \<and> (\<forall>k c. map_of (pool_entries s) k = Some c \<longrightarrow> cand_id c = last_access c + 1))"

definition pool_core :: "'p publication set \<Rightarrow> lookup_config \<Rightarrow> 'p pool \<Rightarrow> bool" where
  "pool_core H cfg s = (config_validate cfg = Inr cfg \<and> pool_config s = cfg \<and> distinct (map fst (pool_entries s))
     \<and> (\<forall>k c. map_of (pool_entries s) k = Some c \<longrightarrow> stored H cfg c \<and> renewed H c \<and> k = ngram_key_of (key_tokens c)
          \<and> \<lparr>pl_id = cand_id c, pl_key = k\<rparr> \<in> set (pool_ledger s))
     \<and> (clock_ok s \<longrightarrow> lru_order s))"

lemma pool_coreD:
  assumes "pool_core H cfg s"
  shows "config_validate cfg = Inr cfg" and "pool_config s = cfg" and "distinct (map fst (pool_entries s))"
    and "map_of (pool_entries s) k = Some c \<Longrightarrow> stored H cfg c"
    and "map_of (pool_entries s) k = Some c \<Longrightarrow> renewed H c"
    and "map_of (pool_entries s) k = Some c \<Longrightarrow> k = ngram_key_of (key_tokens c)"
    and "map_of (pool_entries s) k = Some c \<Longrightarrow> \<lparr>pl_id = cand_id c, pl_key = k\<rparr> \<in> set (pool_ledger s)"
    and "clock_ok s \<Longrightarrow> lru_order s"
  using assms unfolding pool_core_def by blast+

section \<open>Three kinds of change\<close>

text \<open>Time passes, or one use is counted.\<close>

definition use_ticked :: "'p pool \<Rightarrow> 'p pool \<Rightarrow> bool" where
  "use_ticked s t = (access_clock t = access_clock s \<and> next_id t = next_id s
     \<or> access_clock t = sat_add (access_clock s) 1 \<and> next_id t = sat_add (next_id s) 1)"

lemma use_ticked_refl [simp]: "access_clock t = access_clock s \<Longrightarrow> next_id t = next_id s \<Longrightarrow> use_ticked s t"
  by (simp add: use_ticked_def)

lemma use_ticked_ok: "use_ticked s t \<Longrightarrow> clock_ok t \<Longrightarrow> clock_ok s"
  by (auto simp: use_ticked_def clock_ok_def sat_add_def min_def split: if_splits)

lemma use_ticked_ids:
  "use_ticked s t \<Longrightarrow> clock_ok t \<Longrightarrow> next_id s = access_clock s + 1 \<Longrightarrow> next_id t = access_clock t + 1 \<and> next_id s \<le> next_id t"
  by (auto simp: use_ticked_def clock_ok_def sat_add_def min_def split: if_splits)

lemma subseq_set: "subseq xs ys \<Longrightarrow> set xs \<subseteq> set ys"
  by (auto elim: list_emb_set)

lemma subseq_sorted_wrt: "subseq xs ys \<Longrightarrow> sorted_wrt P ys \<Longrightarrow> sorted_wrt P xs"
  by (induction rule: list_emb.induct) (auto dest!: subseq_set)

lemma core_shrink:
  assumes i: "pool_core H cfg s" and c: "pool_config t = pool_config s" "use_ticked s t"
    and d: "distinct (map fst (pool_entries t))" and l: "subseq (pool_ledger t) (pool_ledger s)"
    and sub: "\<And>k c. map_of (pool_entries t) k = Some c \<Longrightarrow> map_of (pool_entries s) k = Some c"
    and cov: "\<And>k c. map_of (pool_entries t) k = Some c \<Longrightarrow> \<lparr>pl_id = cand_id c, pl_key = k\<rparr> \<in> set (pool_ledger s)
       \<Longrightarrow> \<lparr>pl_id = cand_id c, pl_key = k\<rparr> \<in> set (pool_ledger t)"
  shows "pool_core H cfg t"
proof -
  note p = pool_coreD [OF i]
  have "lru_order t" if ok: "clock_ok t"
  proof -
    have o': "lru_order s" by (rule p(8) [OF use_ticked_ok [OF c(2) ok]])
    have lm: "subseq (map pl_id (pool_ledger t)) (map pl_id (pool_ledger s))" using l by (rule subseq_map)
    have "sorted_wrt (<) (map pl_id (pool_ledger t))" using o' lm unfolding lru_order_def by (blast intro: subseq_sorted_wrt)
    moreover have "pl_id e \<le> next_id t" if "e \<in> set (pool_ledger t)" for e
    proof -
      have "e \<in> set (pool_ledger s)" using l that by (blast dest: subseq_set)
      then show ?thesis using o' use_ticked_ids [OF c(2) ok] unfolding lru_order_def by fastforce
    qed
    ultimately show ?thesis using o' use_ticked_ids [OF c(2) ok] sub unfolding lru_order_def by blast
  qed
  moreover have "stored H cfg c \<and> renewed H c \<and> k = ngram_key_of (key_tokens c) \<and> \<lparr>pl_id = cand_id c, pl_key = k\<rparr> \<in> set (pool_ledger t)"
    if "map_of (pool_entries t) k = Some c" for k c
    using p(4-7) [OF sub [OF that]] cov [OF that] by blast
  ultimately show ?thesis using p(1,2) c(1) d unfolding pool_core_def by simp
qed

lemma core_put:
  assumes i: "pool_core H cfg s" and "pool_config t = pool_config s"
    and n: "next_id t = sat_add (next_id s) 1" and a: "access_clock t = sat_add (access_clock s) 1"
    and e: "pool_entries t = AList.update k c (pool_entries s)"
    and l: "pool_ledger t = pool_ledger s @ [\<lparr>pl_id = cand_id c, pl_key = k\<rparr>]"
    and new: "stored H cfg c" "renewed H c" "k = ngram_key_of (key_tokens c)" "cand_id c = next_id t" "last_access c = access_clock t"
  shows "pool_core H cfg t"
proof -
  note p = pool_coreD [OF i]
  have m: "map_of (pool_entries t) = (map_of (pool_entries s))(k \<mapsto> c)" unfolding e by (rule update_conv')
  have tk: "use_ticked s t" using n a by (simp add: use_ticked_def)
  have "lru_order t" if ok: "clock_ok t"
  proof -
    have o': "lru_order s" by (rule p(8) [OF use_ticked_ok [OF tk ok]])
    have nx: "next_id t = next_id s + 1" "next_id t = access_clock t + 1"
      using ok o' n a by (auto simp: clock_ok_def lru_order_def sat_add_def min_def split: if_splits)
    then show ?thesis using o' new(4,5) unfolding lru_order_def m l
      by (auto simp: sorted_wrt_append less_Suc_eq_le split: if_splits intro: le_SucI)
  qed
  then show ?thesis using p new(1-3) assms(2) unfolding pool_core_def m l
    by (auto simp: e distinct_update)
qed

lemma core_compact:
  assumes i: "pool_core H cfg s" and it: "permutes_all iter"
  shows "pool_core H cfg (compact_pool_ledger iter s)"
proof (cases "length (pool_ledger s) \<le> sat_add (sat_mul (length (pool_entries s)) 2) 1024")
  case True
  then show ?thesis using i by (simp add: compact_pool_ledger_def)
next
  case False
  note p = pool_coreD [OF i]
  let ?es = "sort_key (\<lambda>(k, c). last_access c) (iter (pool_entries s))"
  let ?t = "compact_pool_ledger iter s"
  have mm: "mset (iter (pool_entries s)) = mset (pool_entries s)" using it by (simp add: permutes_all_def)
  have l: "pool_ledger ?t = map (\<lambda>(k, c). \<lparr>pl_id = cand_id c, pl_key = k\<rparr>) ?es" and f: "pool_entries ?t = pool_entries s"
    "pool_config ?t = pool_config s" "next_id ?t = next_id s" "access_clock ?t = access_clock s"
    using False by (simp_all add: compact_pool_ledger_def)
  have es: "set ?es = set (pool_entries s)" using mset_eq_setD [OF mm] by simp
  have mo: "(k, c) \<in> set ?es \<longleftrightarrow> map_of (pool_entries s) k = Some c" for k c
    unfolding es using p(3) by simp
  have cov: "\<lparr>pl_id = cand_id c, pl_key = k\<rparr> \<in> set (pool_ledger ?t)" if "map_of (pool_entries s) k = Some c" for k c
    using that unfolding l mo [symmetric] by force
  have sub: "set (pool_ledger ?t) \<subseteq> set (pool_ledger s)" unfolding l using p(7) mo by (auto simp del: set_sort)
  have "lru_order ?t" if "clock_ok ?t"
  proof -
    have ok: "clock_ok s" using that by (simp add: clock_ok_def f)
    have o': "lru_order s" by (rule p(8) [OF ok])
    have id': "cand_id c = last_access c + 1" if "(k, c) \<in> set ?es" for k c
      using o' that unfolding mo lru_order_def by blast
    have ids: "map pl_id (pool_ledger ?t) = map (\<lambda>(k, c). last_access c + 1) ?es"
      unfolding l map_map by (rule map_cong [OF refl]) (use id' in \<open>auto simp del: set_sort\<close>)
    have "distinct (pool_ledger s)" using o' unfolding lru_order_def
      by (metis distinct_map strict_sorted_iff)
    have inj: "inj_on pl_id (set (pool_ledger s))"
      using o' unfolding lru_order_def by (metis distinct_map strict_sorted_iff)
    have "distinct (map fst ?es)"
    proof -
      have "mset (map fst ?es) = mset (map fst (pool_entries s))" by (simp add: mm)
      then show ?thesis using p(3) mset_eq_imp_distinct_iff by blast
    qed
    then have "distinct (map pl_key (pool_ledger ?t))" unfolding l by (simp add: comp_def case_prod_unfold del: set_sort)
    then have dl: "distinct (pool_ledger ?t)" unfolding distinct_map by blast
    have "distinct (map pl_id (pool_ledger ?t))" unfolding distinct_map using dl inj_on_subset [OF inj sub] by blast
    moreover have "sorted (map pl_id (pool_ledger ?t))"
    proof -
      have "sorted (map (\<lambda>(k, c). last_access c) ?es)" by (rule sorted_sort_key)
      then show ?thesis unfolding ids sorted_map by (simp add: case_prod_unfold)
    qed
    ultimately have "sorted_wrt (<) (map pl_id (pool_ledger ?t))" using strict_sorted_iff by blast
    then show ?thesis using o' sub unfolding lru_order_def f by blast
  qed
  then show ?thesis using p cov unfolding pool_core_def f by blast
qed

end
