(* ===== verification/SharedPoolSteps.thy ===== *)
theory SharedPoolSteps
  imports SharedPoolInv
begin

text \<open>
  Every operation of \<open>SharedPromptLookupPool\<close> (\<open>ironmlx/src/core/prompt_lookup.rs\<close>) keeps the invariant.
\<close>

section \<open>Fields that small steps leave alone\<close>

lemma neutral_updates [simp]:
  "pool_core H cfg (s\<lparr>entries_peak := a\<rparr>) = pool_core H cfg s"
  "pool_core H cfg (s\<lparr>collision_rejections := a\<rparr>) = pool_core H cfg s"
  "pool_core H cfg (s\<lparr>availability_epoch := a\<rparr>) = pool_core H cfg s"
  by (simp_all add: pool_core_def lru_order_def clock_ok_def)

lemma bump_frame [simp]:
  "pool_core H cfg (bump_availability_epoch s) = pool_core H cfg s"
  "pool_entries (bump_availability_epoch s) = pool_entries s"
  "pool_ledger (bump_availability_epoch s) = pool_ledger s"
  "pool_config (bump_availability_epoch s) = pool_config s"
  "payload_bytes (bump_availability_epoch s) = payload_bytes s"
  "collision_rejections (bump_availability_epoch s) = collision_rejections s"
  "access_clock (bump_availability_epoch s) = access_clock s"
  by (simp_all add: bump_availability_epoch_def)

lemma peak_frame [simp]:
  "pool_core H cfg (refresh_entries_peak s) = pool_core H cfg s"
  "pool_entries (refresh_entries_peak s) = pool_entries s"
  "pool_ledger (refresh_entries_peak s) = pool_ledger s"
  "pool_config (refresh_entries_peak s) = pool_config s"
  "payload_bytes (refresh_entries_peak s) = payload_bytes s"
  "collision_rejections (refresh_entries_peak s) = collision_rejections s"
  "access_clock (refresh_entries_peak s) = access_clock s"
  "availability_epoch (refresh_entries_peak s) = availability_epoch s"
  by (simp_all add: refresh_entries_peak_def)

lemma compact_frame [simp]:
  "pool_entries (compact_pool_ledger iter s) = pool_entries s"
  "pool_config (compact_pool_ledger iter s) = pool_config s"
  "payload_bytes (compact_pool_ledger iter s) = payload_bytes s"
  "collision_rejections (compact_pool_ledger iter s) = collision_rejections s"
  "access_clock (compact_pool_ledger iter s) = access_clock s"
  "availability_epoch (compact_pool_ledger iter s) = availability_epoch s"
  by (simp_all add: compact_pool_ledger_def)

lemma compact_ledger_short:
  assumes "permutes_all iter"
  shows "length (pool_ledger (compact_pool_ledger iter s)) \<le> 2 * length (pool_entries s) + 1024"
proof -
  have "length (iter (pool_entries s)) = length (pool_entries s)" using assms by (metis permutes_all_def size_mset)
  then show ?thesis by (auto simp: compact_pool_ledger_def sat_add_def sat_mul_def)
qed

section \<open>Forgetting\<close>

lemma map_of_filter_keys:
  assumes "distinct (map fst al)"
  shows "map_of (filter P al) k = Some c \<longleftrightarrow> map_of al k = Some c \<and> P (k, c)"
proof -
  have "distinct (map fst (filter P al))" using assms by (induction al) (auto simp: image_iff)
  then show ?thesis using assms by simp
qed

lemma prune_facts:
  assumes i: "pool_core H cfg s"
  shows "pool_core H cfg (snd (prune_expired now s))"
    and "map_of (pool_entries (snd (prune_expired now s))) k = Some c \<longleftrightarrow> map_of (pool_entries s) k = Some c \<and> now < expires_at_ms c"
    and "pool_entries (snd (prune_expired now s)) = filter (\<lambda>(k, c). now < expires_at_ms c) (pool_entries s)"
    and "pool_ledger (snd (prune_expired now s)) = pool_ledger s"
proof -
  let ?t = "snd (prune_expired now s)"
  have e: "pool_entries ?t = filter (\<lambda>(k, c). now < expires_at_ms c) (pool_entries s)" and l: "pool_ledger ?t = pool_ledger s"
    and f: "pool_config ?t = pool_config s" "access_clock ?t = access_clock s" "next_id ?t = next_id s"
    by (simp_all add: prune_expired_def Let_def)
  have d: "distinct (map fst (pool_entries s))" by (rule pool_coreD(3) [OF i])
  have m: "map_of (pool_entries ?t) k = Some c \<longleftrightarrow> map_of (pool_entries s) k = Some c \<and> now < expires_at_ms c" for k c
    unfolding e map_of_filter_keys [OF d] by simp
  have d': "distinct (map fst (pool_entries ?t))" unfolding e using d by (induction "pool_entries s") (auto simp: distinct_map_filter)
  show "pool_core H cfg ?t" by (rule core_shrink [OF i f(1) _ d']) (use f m l in auto)
  show "map_of (pool_entries ?t) k = Some c \<longleftrightarrow> map_of (pool_entries s) k = Some c \<and> now < expires_at_ms c" by (rule m)
  show "pool_entries ?t = filter (\<lambda>(k, c). now < expires_at_ms c) (pool_entries s)" "pool_ledger ?t = pool_ledger s" by (rule e l)+
qed

lemma prune_none: "fst (prune_expired now s) = 0 \<Longrightarrow> pool_entries (snd (prune_expired now s)) = pool_entries s"
  by (auto simp: prune_expired_def Let_def filter_id_conv split: prod.splits)
    (metis (mono_tags, lifting) case_prodE filter_id_conv length_filter_less less_le_not_le case_prod_conv)

lemma remove_frame [simp]:
  "map_of (pool_entries (remove_entry k c s)) = (map_of (pool_entries s))(k := None)"
  "pool_ledger (remove_entry k c s) = pool_ledger s"
  "pool_config (remove_entry k c s) = pool_config s"
  "collision_rejections (remove_entry k c s) = collision_rejections s"
  "availability_epoch (remove_entry k c s) = availability_epoch s"
  "access_clock (remove_entry k c s) = access_clock s"
  "next_id (remove_entry k c s) = next_id s"
  by (simp_all add: remove_entry_def delete_conv')

lemma remove_core: "pool_core H cfg s \<Longrightarrow> pool_core H cfg (remove_entry k c s)"
  by (rule core_shrink, assumption)
    (auto simp: remove_entry_def delete_conv' dest: pool_coreD(3) intro: distinct_delete split: if_splits)

lemma length_delete: "map_of al k = Some c \<Longrightarrow> distinct (map fst al) \<Longrightarrow> length (AList.delete k al) + 1 = length al"
  by (induction al) (auto simp: delete_absent split: if_splits)

lemma length_delete_le: "length (AList.delete k al) \<le> length al"
  by (simp add: AList.delete_eq)

lemma remove_length:
  "map_of (pool_entries s) k = Some c \<Longrightarrow> pool_core H cfg s \<Longrightarrow> length (pool_entries (remove_entry k c s)) + 1 = length (pool_entries s)"
  unfolding remove_entry_def by (simp add: length_delete [simplified] pool_coreD(3))

lemma pop_oldest_facts:
  assumes i: "pool_core H cfg s" and ne: "pool_ledger s \<noteq> []"
  defines "t \<equiv> snd (pop_oldest s)"
  shows "pool_core H cfg t" and "pool_config t = pool_config s" and "access_clock t = access_clock s"
    and "collision_rejections t = collision_rejections s" and "availability_epoch t = availability_epoch s"
    and "if fst (pop_oldest s) then (\<exists>c. map_of (pool_entries s) (pl_key (hd (pool_ledger s))) = Some c
            \<and> cand_id c = pl_id (hd (pool_ledger s)) \<and> pool_entries t = AList.delete (pl_key (hd (pool_ledger s))) (pool_entries s))
         else pool_entries t = pool_entries s"
proof -
  note p = pool_coreD [OF i]
  obtain e es where l: "pool_ledger s = e # es" using ne by (cases "pool_ledger s") auto
  show f: "pool_config t = pool_config s" "access_clock t = access_clock s"
    "collision_rejections t = collision_rejections s" "availability_epoch t = availability_epoch s"
    by (auto simp: t_def pop_oldest_def l Let_def split: option.split)
  have n: "next_id t = next_id s" by (auto simp: t_def pop_oldest_def l Let_def split: option.split)
  have lt: "pool_ledger t = es" by (simp add: t_def l)
  show r: "if fst (pop_oldest s) then (\<exists>c. map_of (pool_entries s) (pl_key (hd (pool_ledger s))) = Some c
            \<and> cand_id c = pl_id (hd (pool_ledger s)) \<and> pool_entries t = AList.delete (pl_key (hd (pool_ledger s))) (pool_entries s))
         else pool_entries t = pool_entries s"
    by (auto simp: t_def pop_oldest_def l remove_entry_def Let_def split: option.split)
  have fst: "fst (pop_oldest s) \<longleftrightarrow> (\<exists>c. map_of (pool_entries s) (pl_key e) = Some c \<and> cand_id c = pl_id e)"
    by (auto simp: pop_oldest_def l Let_def split: option.split)
  show "pool_core H cfg t"
  proof (rule core_shrink [OF i f(1)])
    show "use_ticked s t" using f n by simp
    show "subseq (pool_ledger t) (pool_ledger s)" unfolding lt l by (rule list_emb_Cons) simp
    show "distinct (map fst (pool_entries t))" using r p(3) distinct_delete by (auto split: if_splits)
    show sub: "map_of (pool_entries s) k = Some c" if "map_of (pool_entries t) k = Some c" for k c
      using that r by (auto simp: delete_conv' split: if_splits)
    show "\<lparr>pl_id = cand_id c, pl_key = k\<rparr> \<in> set (pool_ledger t)"
      if m: "map_of (pool_entries t) k = Some c" and "\<lparr>pl_id = cand_id c, pl_key = k\<rparr> \<in> set (pool_ledger s)" for k c
    proof (cases "\<lparr>pl_id = cand_id c, pl_key = k\<rparr> = e")
      case True
      then have "fst (pop_oldest s)" using sub [OF m] fst by auto
      then show ?thesis using r m True l by (auto simp: delete_conv')
    next
      case False
      then show ?thesis using that by (simp add: l lt)
    qed
  qed
qed

text \<open>
  The loop of \<open>reclaim_lru_to\<close>: every candidate has a ledger entry, so the target is reached; what is removed was
  used before everything that stays.
\<close>

definition lru_cut :: "'p pool \<Rightarrow> 'p pool \<Rightarrow> bool" where
  "lru_cut s t = (\<forall>k c k' c'. map_of (pool_entries s) k = Some c \<longrightarrow> map_of (pool_entries t) k = None \<longrightarrow>
     map_of (pool_entries t) k' = Some c' \<longrightarrow> cand_id c < cand_id c')"

definition sub_pool :: "'p pool \<Rightarrow> 'p pool \<Rightarrow> bool" where
  "sub_pool t s = (\<forall>k c. map_of (pool_entries t) k = Some c \<longrightarrow> map_of (pool_entries s) k = Some c)"

definition same_fields :: "'p pool \<Rightarrow> 'p pool \<Rightarrow> bool" where
  "same_fields s t = (pool_config t = pool_config s \<and> access_clock t = access_clock s
     \<and> collision_rejections t = collision_rejections s \<and> availability_epoch t = availability_epoch s)"

lemma pop_oldest_lru:
  assumes i: "pool_core H cfg s" and ne: "pool_ledger s \<noteq> []" and ok: "clock_ok s"
  shows "lru_cut s (snd (pop_oldest s))"
  unfolding lru_cut_def
proof (intro allI impI)
  fix k c k' c'
  let ?t = "snd (pop_oldest s)" and ?e = "hd (pool_ledger s)"
  assume a: "map_of (pool_entries s) k = Some c" "map_of (pool_entries ?t) k = None" "map_of (pool_entries ?t) k' = Some c'"
  note f = pop_oldest_facts [OF i ne]
  have run: "fst (pop_oldest s)" using a f(6) by (auto split: if_splits)
  then have e: "pool_entries ?t = AList.delete (pl_key ?e) (pool_entries s)" using f(6) by auto
  have k: "k = pl_key ?e" "cand_id c = pl_id ?e" using run a f(6) by (auto simp: delete_conv' split: if_splits)
  have "\<lparr>pl_id = cand_id c', pl_key = k'\<rparr> \<in> set (tl (pool_ledger s))"
    using pool_coreD(7) [OF f(1) a(3)] by simp
  moreover have "sorted_wrt (<) (map pl_id (pool_ledger s))"
    using pool_coreD(8) [OF i ok] by (simp add: lru_order_def)
  ultimately show "cand_id c < cand_id c'" using ne k(2) by (cases "pool_ledger s") fastforce+
qed

lemma reclaim_loop_facts:
  assumes "pool_core H cfg s" and "evicted \<le> u64_max" and "reclaim_loop target evicted s = (n, t)"
  shows "pool_core H cfg t \<and> same_fields s t \<and> length (pool_entries t) \<le> target \<and> length (pool_entries t) \<le> length (pool_entries s)
    \<and> sub_pool t s \<and> (clock_ok s \<longrightarrow> lru_cut s t) \<and> evicted \<le> n \<and> (n = 0 \<longrightarrow> pool_entries t = pool_entries s)"
  using assms
proof (induction target evicted s rule: reclaim_loop.induct)
  case (1 target evicted s)
  note i = "1.prems"(1)
  show ?case
  proof (cases "target < length (pool_entries s) \<and> pool_ledger s \<noteq> []")
    case True
    let ?m = "if fst (pop_oldest s) then sat_add evicted 1 else evicted" and ?u = "snd (pop_oldest s)"
    have m: "?m \<le> u64_max" "evicted \<le> ?m" using "1.prems"(2) sat_add_ge by simp_all
    note f = pop_oldest_facts [OF i conjunct2 [OF True]]
    have eq: "reclaim_loop target ?m ?u = (n, t)" using "1.prems"(3) True by (simp add: reclaim_loop.simps [of target evicted s])
    note ih = "1.IH" [OF True f(1) m(1) eq]
    have fr: "same_fields s ?u" using f by (simp add: same_fields_def)
    have us: "sub_pool ?u s" using f(6) by (auto simp: sub_pool_def delete_conv' split: if_splits)
    have len: "length (pool_entries ?u) \<le> length (pool_entries s)"
      using f(6) by (auto split: if_splits simp: length_delete_le)
    have cut: "lru_cut s t" if ok: "clock_ok s"
    proof -
      have u: "lru_cut s ?u" by (rule pop_oldest_lru [OF i conjunct2 [OF True] ok])
      have "clock_ok ?u" using ok fr by (simp add: same_fields_def clock_ok_def)
      then have ut: "lru_cut ?u t" using ih by blast
      show ?thesis unfolding lru_cut_def
      proof (intro allI impI)
        fix k c k' c'
        assume a: "map_of (pool_entries s) k = Some c" "map_of (pool_entries t) k = None" "map_of (pool_entries t) k' = Some c'"
        have k': "map_of (pool_entries ?u) k' = Some c'" using ih a(3) by (auto simp: sub_pool_def)
        show "cand_id c < cand_id c'"
        proof (cases "map_of (pool_entries ?u) k")
          case None
          then show ?thesis using u a(1) k' unfolding lru_cut_def by blast
        next
          case (Some d)
          then have "d = c" using us a(1) by (auto simp: sub_pool_def)
          then show ?thesis using ut Some a unfolding lru_cut_def by blast
        qed
      qed
    qed
    have "n = 0 \<longrightarrow> pool_entries t = pool_entries s"
    proof
      assume n: "n = 0"
      have "\<not> fst (pop_oldest s)" using ih n by (auto simp: sat_add_def u64_max_def split: if_splits)
      then show "pool_entries t = pool_entries s" using ih n f(6) by simp
    qed
    moreover have "same_fields s t" using fr ih by (simp add: same_fields_def)
    moreover have "sub_pool t s" using us ih by (auto simp: sub_pool_def)
    ultimately show ?thesis using ih cut m(2) len by auto
  next
    case False
    then have e: "t = s" "n = evicted" using "1.prems"(3) unfolding reclaim_loop.simps [of target evicted s] if_not_P [OF False] by simp_all
    have "length (pool_entries s) \<le> target"
    proof (cases "pool_ledger s")
      case Nil
      then have "map_of (pool_entries s) k \<noteq> Some c" for k c using pool_coreD(7) [OF i] by auto
      then have "map_of (pool_entries s) = Map.empty" by (intro ext) (meson not_None_eq)
      then have "pool_entries s = []" by simp
      then show ?thesis by simp
    qed (use False in auto)
    then show ?thesis using i unfolding e by (simp add: same_fields_def sub_pool_def lru_cut_def)
  qed
qed

lemma reclaim_lru_to_facts:
  assumes i: "pool_core H cfg s" and it: "permutes_all iter" and "reclaim_lru_to iter target s = (n, t)"
  shows "pool_core H cfg t \<and> same_fields s t \<and> length (pool_entries t) \<le> target \<and> length (pool_entries t) \<le> length (pool_entries s)
    \<and> sub_pool t s \<and> (clock_ok s \<longrightarrow> lru_cut s t) \<and> (n = 0 \<longrightarrow> pool_entries t = pool_entries s)
    \<and> length (pool_ledger t) \<le> 2 * length (pool_entries t) + 1024"
proof -
  obtain u where u: "reclaim_loop target 0 s = (n, u)" "t = compact_pool_ledger iter u"
    using assms(3) by (auto simp: reclaim_lru_to_def split: prod.splits)
  note f = reclaim_loop_facts [OF i _ u(1)]
  show ?thesis using f core_compact [OF _ it, of H cfg u] compact_ledger_short [OF it, of u]
    unfolding u(2) by (simp add: same_fields_def sub_pool_def lru_cut_def)
qed

section \<open>Inserting\<close>

lemma prefix_fingerprints_take:
  "c \<le> length h \<Longrightarrow> prefix_fingerprints h ! c = fingerprint_of (take c h)"
  "length (prefix_fingerprints h) = Suc (length h)"
proof -
  let ?step = "\<lambda>(f, fs) t. let f = fingerprint_push f t in (f, fs @ [f])"
  have "foldl ?step (fingerprint_new, [fingerprint_new]) h = (fingerprint_of h, map (\<lambda>c. fingerprint_of (take c h)) [0..<Suc (length h)])"
  proof (induction h rule: rev_induct)
    case (snoc t h)
    have "map (\<lambda>c. fingerprint_of (take c (h @ [t]))) [0..<Suc (length h)] = map (\<lambda>c. fingerprint_of (take c h)) [0..<Suc (length h)]"
      by (rule map_cong) auto
    then show ?case using snoc by (simp add: fingerprint_of_def Let_def)
  qed (simp add: fingerprint_of_def)
  then have e: "prefix_fingerprints h = map (\<lambda>c. fingerprint_of (take c h)) [0..<Suc (length h)]"
    by (simp add: prefix_fingerprints_def)
  show "length (prefix_fingerprints h) = Suc (length h)" unfolding e by simp
  show "prefix_fingerprints h ! c = fingerprint_of (take c h)" if "c \<le> length h" unfolding e using that by (simp del: upt_Suc)
qed

lemma longest_certificate_snoc:
  "longest_certificate (certs @ [c]) m = (if cert_continuation c = m then max (longest_certificate certs m) (cert_draft_len c) else longest_certificate certs m)"
  by (simp add: longest_certificate_def insert_commute [of 0] max.commute)

lemma certification_found:
  "(case certifications_by_continuation certs m of
      Some x \<Rightarrow> x \<in> set certs \<and> cert_continuation x = m \<and> cert_draft_len x = longest_certificate certs m
    | None \<Rightarrow> longest_certificate certs m = 0)"
proof (induction certs rule: rev_induct)
  case (snoc c certs)
  have e: "certifications_by_continuation (certs @ [c]) m = (case certifications_by_continuation certs (cert_continuation c) of
      Some old \<Rightarrow> if cert_draft_len old < cert_draft_len c then (certifications_by_continuation certs)(cert_continuation c \<mapsto> c)
        else certifications_by_continuation certs
    | None \<Rightarrow> (certifications_by_continuation certs)(cert_continuation c \<mapsto> c)) m"
    unfolding certifications_by_continuation_def foldl_append foldl.simps by (rule refl)
  show ?case
  proof (cases "cert_continuation c = m")
    case True
    then show ?thesis using snoc unfolding e
      by (cases "certifications_by_continuation certs m") (auto simp: longest_certificate_snoc)
  next
    case False
    then have "certifications_by_continuation (certs @ [c]) m = certifications_by_continuation certs m"
      unfolding e by (simp split: option.split)
    then show ?thesis using snoc False by (simp add: longest_certificate_snoc split: option.splits)
  qed
qed (simp add: certifications_by_continuation_def longest_certificate_def)

text \<open>What \<open>publish_history_with_mtp_certifications\<close> may be given: histories are in memory.\<close>

definition published_ok :: "token list \<Rightarrow> bool" where
  "published_ok h = (length h \<le> u64_max)"

lemma payload_stored:
  fixes i clock m n now cfg h and certs :: "'p certification list"
  assumes pub: "(now, h, certs) \<in> H" and h: "published_ok h" and m: "m < length h" "length h - history_window_tokens cfg \<le> m - n" "n \<le> m"
    and n: "min_ngram cfg \<le> n" "n \<le> max_ngram cfg"
  defines "c \<equiv> candidate_of i clock (payload_at cfg now h certs m n)"
  shows "stored H cfg c" and "renewed H c" and "key_tokens c = gram h m n" and "expires_at_ms c = sat_add now SHARED_PROMPT_LOOKUP_TTL_MS"
proof -
  let ?e = "min (length h) (sat_add m (max_draft_tokens cfg))"
  have e: "?e - m = min (length h - m) (max_draft_tokens cfg)"
    using h m by (auto simp: sat_add_def published_ok_def min_def)
  have d': "draft c = take (?e - m) (drop m h)" and k: "key_tokens c = gram h m n"
    and ex: "expires_at_ms c = sat_add now SHARED_PROMPT_LOOKUP_TTL_MS"
    and l: "certified_draft_len c = min (case certifications_by_continuation certs m of Some x \<Rightarrow> cert_draft_len x | None \<Rightarrow> 0) (?e - m)"
    and ch: "certified_history c = (if 0 < certified_draft_len c \<and> certs \<noteq> [] \<and> m < length (prefix_fingerprints h) then Some (prefix_fingerprints h ! m) else None)"
    and ps: "policy_snapshot c = map_option cert_policy (certifications_by_continuation certs m)"
    unfolding c_def candidate_of_def payload_at_def Let_def by simp_all
  have d: "draft c = take (max_draft_tokens cfg) (drop m h)" unfolding d' e by (simp add: min_def)
  have lc: "(case certifications_by_continuation certs m of Some x \<Rightarrow> cert_draft_len x | None \<Rightarrow> 0) = longest_certificate certs m"
    using certification_found [of certs m] by (auto split: option.splits)
  have len: "certified_draft_len c = min (longest_certificate certs m) (length (draft c))" unfolding l lc d e by simp
  have cert: "certified_history c = Some (fingerprint_of (take m h))
      \<and> (\<exists>x \<in> set certs. cert_continuation x = m \<and> cert_draft_len x = longest_certificate certs m \<and> policy_snapshot c = Some (cert_policy x))"
    if pos: "0 < certified_draft_len c"
  proof -
    obtain x where x: "certifications_by_continuation certs m = Some x"
      using pos l by (auto split: option.splits)
    have f: "x \<in> set certs" "cert_continuation x = m" "cert_draft_len x = longest_certificate certs m"
      using certification_found [of certs m] x by simp_all
    have "certified_history c = Some (fingerprint_of (take m h))"
      using f pos m(1) unfolding ch by (cases certs) (simp_all add: prefix_fingerprints_take)
    then show ?thesis using f x ps by auto
  qed
  then have "stored_at cfg h certs m n c" unfolding stored_at_def using m n d k len cert by blast
  then show "stored H cfg c" unfolding stored_def using pub by blast
  have "length (key_tokens c) = n" unfolding k using m by (simp add: gram_length)
  then have "gram h m (length (key_tokens c)) = key_tokens c" "length (key_tokens c) \<le> m" using m(3) k by simp_all
  then show "renewed H c" unfolding renewed_def using pub m(1) ex by blast
  show "key_tokens c = gram h m n" "expires_at_ms c = sat_add now SHARED_PROMPT_LOOKUP_TTL_MS" by (rule k ex)+
qed

text \<open>A stored n-gram that can still be found at time \<open>now\<close> and was renewed then.\<close>

definition holds_gram :: "nat \<Rightarrow> token list \<Rightarrow> 'p pool \<Rightarrow> bool" where
  "holds_gram now g s = (\<exists>c. map_of (pool_entries s) (ngram_key_of g) = Some c \<and> key_tokens c = g
     \<and> expires_at_ms c = sat_add now SHARED_PROMPT_LOOKUP_TTL_MS)"

lemma stored_renewed_update [simp]:
  "stored H cfg (c\<lparr>cand_id := a, expires_at_ms := x, last_access := y\<rparr>) = stored H cfg c"
  "stored H cfg (c\<lparr>cand_id := a, last_access := y\<rparr>) = stored H cfg c"
  "renewed H (c\<lparr>cand_id := a, last_access := y\<rparr>) = renewed H c"
  by (simp_all add: stored_def stored_at_def renewed_def)

lemma pool_insert_core:
  assumes i: "pool_core H cfg s" and c: "\<And>a b. stored H cfg (candidate_of a b p)" "\<And>a b. renewed H (candidate_of a b p)"
    and k: "k = ngram_key_of (pay_key_tokens p)"
  shows "pool_core H cfg (pool_insert k p s)"
proof -
  let ?n = "sat_add (next_id s) 1" and ?a = "sat_add (access_clock s) 1"
  let ?c = "candidate_of ?n ?a p"
  have kc: "k = ngram_key_of (key_tokens ?c)" "cand_id ?c = ?n" "last_access ?c = ?a" by (simp_all add: candidate_of_def k)
  have tick: "pool_core H cfg (s\<lparr>access_clock := ?a, next_id := ?n\<rparr>)"
    using pool_coreD [OF i] by (intro core_shrink [OF i]) (simp_all add: use_ticked_def)
  show ?thesis
  proof (cases "map_of (pool_entries s) k")
    case None
    show ?thesis by (rule core_put [OF i, where k = k and c = ?c]) (use None c kc in \<open>simp_all add: pool_insert_def Let_def\<close>)
  next
    case (Some old)
    let ?o = "old\<lparr>cand_id := ?n, expires_at_ms := expires_at_ms ?c, last_access := ?a\<rparr>"
    consider "key_tokens old \<noteq> key_tokens ?c" | "key_tokens old = key_tokens ?c" "length (draft ?c) < length (draft old)"
      | "key_tokens old = key_tokens ?c" "\<not> length (draft ?c) < length (draft old)" by blast
    then show ?thesis
    proof cases
      case 1
      then show ?thesis using Some tick by (simp add: pool_insert_def Let_def)
    next
      case 2
      have "stored H cfg ?o" using pool_coreD(4) [OF i Some] by simp
      moreover have "renewed H ?o" using c(2) [of ?n ?a] 2(1) by (simp add: renewed_def)
      ultimately show ?thesis
        by (intro core_put [OF i, where k = k and c = ?o]) (use Some 2 kc in \<open>simp_all add: pool_insert_def Let_def\<close>)
    next
      case 3
      show ?thesis by (rule core_put [OF i, where k = k and c = ?c]) (use Some 3 c kc in \<open>simp_all add: pool_insert_def Let_def\<close>)
    qed
  qed
qed

lemma pool_insert_frame:
  "pool_config (pool_insert k p s) = pool_config s" "availability_epoch (pool_insert k p s) = availability_epoch s"
  "collision_rejections s \<le> u64_max \<Longrightarrow> collision_rejections s \<le> collision_rejections (pool_insert k p s)"
  "access_clock s \<le> u64_max \<Longrightarrow> access_clock s \<le> access_clock (pool_insert k p s)"
  by (auto simp: pool_insert_def Let_def sat_add_ge split: option.split)

lemma length_update: "map_of al k = Some c \<Longrightarrow> length (AList.update k v al) = length al"
  by (induction al) (auto split: if_splits)

lemma pool_insert_length:
  "length (pool_entries (pool_insert k p s)) \<le> length (pool_entries s) + (if map_of (pool_entries s) k = None then 1 else 0)"
  by (auto simp: pool_insert_def Let_def update_new length_update split: option.split)

end
