(* ===== verification/SharedPoolPublish.thy ===== *)
theory SharedPoolPublish
  imports SharedPoolSteps
begin

text \<open>
  The loops of \<open>publish_history_with_mtp_certifications\<close> (\<open>ironmlx/src/core/prompt_lookup.rs\<close>): the invariant, the number
  of entries while a history is being indexed, the payload bytes, and what has been indexed so far.
\<close>

section \<open>Payload bytes\<close>

definition candidate_size :: "'p candidate \<Rightarrow> nat" where
  "candidate_size c = 4 * (length (key_tokens c) + length (draft c))"

definition bytes_exact :: "'p pool \<Rightarrow> bool" where
  "bytes_exact s = (payload_bytes s = sum_list (map (\<lambda>(k, c). candidate_size c) (pool_entries s)))"

text \<open>The largest candidate, and the most entries there are at any time.\<close>

definition candidate_limit :: "lookup_config \<Rightarrow> nat" where
  "candidate_limit cfg = 4 * (max_ngram cfg + max_draft_tokens cfg)"

definition grams_per_token :: "lookup_config \<Rightarrow> nat" where
  "grams_per_token cfg = max_ngram cfg + 1 - min_ngram cfg"

definition entries_limit :: "lookup_config \<Rightarrow> nat" where
  "entries_limit cfg = max_index_entries cfg + 1024 * grams_per_token cfg"

definition limits_fit :: "lookup_config \<Rightarrow> bool" where
  "limits_fit cfg = (entries_limit cfg * candidate_limit cfg \<le> u64_max)"

definition pool_ok :: "'p publication set \<Rightarrow> lookup_config \<Rightarrow> 'p pool \<Rightarrow> bool" where
  "pool_ok H cfg s = (pool_core H cfg s \<and> length (pool_entries s) \<le> entries_limit cfg \<and> (limits_fit cfg \<longrightarrow> bytes_exact s))"

lemma stored_size: "stored H cfg c \<Longrightarrow> candidate_size c \<le> candidate_limit cfg"
  by (auto simp: stored_def stored_at_def candidate_size_def candidate_limit_def gram_length intro!: add_mono)

lemma payload_size:
  assumes "pool_core H cfg s" and "stored H cfg c" and "limits_fit cfg"
  shows "candidate_payload_bytes c = candidate_size c"
proof -
  have "0 < max_index_entries cfg" using pool_coreD(1) [OF assms(1)] by (auto simp: config_validate_def split: if_splits)
  then have "candidate_limit cfg \<le> entries_limit cfg * candidate_limit cfg" by (simp add: entries_limit_def)
  then have "candidate_size c \<le> u64_max" using stored_size [OF assms(2)] assms(3) unfolding limits_fit_def by linarith
  then show ?thesis by (simp add: candidate_payload_bytes_def candidate_size_def sat_add_def sat_mul_def min_def)
qed

lemma sum_list_bounded: "(\<And>x. x \<in> set xs \<Longrightarrow> f x \<le> b) \<Longrightarrow> sum_list (map f xs) \<le> length xs * (b :: nat)"
proof (induction xs)
  case (Cons x xs)
  then show ?case using Cons.prems [of x] by (auto intro: add_mono)
qed simp

lemma entries_stored: "pool_core H cfg s \<Longrightarrow> (k, c) \<in> set (pool_entries s) \<Longrightarrow> stored H cfg c"
  using pool_coreD(3,4) by (metis map_of_eq_Some_iff)

lemma payload_small:
  assumes "pool_core H cfg s" and "limits_fit cfg" and "length (pool_entries s) \<le> entries_limit cfg"
  shows "sum_list (map (\<lambda>(k, c). candidate_size c) (pool_entries s)) \<le> u64_max"
proof -
  have "sum_list (map (\<lambda>(k, c). candidate_size c) (pool_entries s)) \<le> length (pool_entries s) * candidate_limit cfg"
    by (rule sum_list_bounded) (use stored_size [OF entries_stored [OF assms(1)]] in auto)
  also have "\<dots> \<le> entries_limit cfg * candidate_limit cfg" using assms(3) by simp
  finally show ?thesis using assms(2) by (simp add: limits_fit_def)
qed

lemma sum_delete:
  "map_of al k = Some c \<Longrightarrow> distinct (map fst al) \<Longrightarrow> sum_list (map f al) = f (k, c) + sum_list (map f (AList.delete k al))" for f :: "_ \<Rightarrow> nat"
  by (induction al) (auto simp: delete_absent split: if_splits)

lemma sum_update:
  "map_of al k = Some c \<Longrightarrow> distinct (map fst al) \<Longrightarrow> sum_list (map f (AList.update k v al)) + f (k, c) = sum_list (map f al) + f (k, v)" for f :: "_ \<Rightarrow> nat"
  by (induction al) (auto split: if_splits)

lemma remove_ok:
  assumes i: "pool_ok H cfg s" and m: "map_of (pool_entries s) k = Some c"
  shows "pool_ok H cfg (remove_entry k c s)"
proof -
  have x: "pool_core H cfg s" using i by (simp add: pool_ok_def)
  have "bytes_exact (remove_entry k c s)" if "limits_fit cfg"
    using i that payload_size [OF x pool_coreD(4) [OF x m] that] sum_delete [OF m pool_coreD(3) [OF x], of "\<lambda>(k, c). candidate_size c"]
    by (simp add: pool_ok_def bytes_exact_def remove_entry_def)
  then show ?thesis using remove_core [OF x] remove_length [OF m x] i by (simp add: pool_ok_def)
qed

lemma prune_ok:
  assumes i: "pool_ok H cfg s"
  shows "pool_ok H cfg (snd (prune_expired now s))"
proof -
  have x: "pool_core H cfg s" using i by (simp add: pool_ok_def)
  note f = prune_facts [OF x, where now = now]
  let ?es = "pool_entries s"
  let ?gone = "filter (\<lambda>(k, c). \<not> now < expires_at_ms c) ?es"
  have "bytes_exact (snd (prune_expired now s))" if ft: "limits_fit cfg"
  proof -
    have split: "sum_list (map g (filter (\<lambda>(k, c). now < expires_at_ms c) al)) + sum_list (map g (filter (\<lambda>(k, c). \<not> now < expires_at_ms c) al))
        = sum_list (map g al)" for g :: "_ \<Rightarrow> nat" and al :: "(ngram_key \<times> 'a candidate) list"
      by (induction al) auto
    have sat: "foldl (\<lambda>b (k, c). sat_add b (candidate_payload_bytes c)) b al = b + sum_list (map (\<lambda>(k, c). candidate_size c) al)"
      if "\<And>k c. (k, c) \<in> set al \<Longrightarrow> stored H cfg c" "b + sum_list (map (\<lambda>(k, c). candidate_size c) al) \<le> u64_max" for b al
      using that
    proof (induction al arbitrary: b)
      case (Cons a al)
      obtain k c where a: "a = (k, c)" by (cases a)
      have "candidate_payload_bytes c = candidate_size c" using payload_size [OF x _ ft] Cons.prems(1) [of k c] a by simp
      moreover have "foldl (\<lambda>b (k, c). sat_add b (candidate_payload_bytes c)) (b + candidate_size c) al
          = b + candidate_size c + sum_list (map (\<lambda>(k, c). candidate_size c) al)"
        by (rule Cons.IH) (use Cons.prems a in auto)
      ultimately show ?case using Cons.prems(2) a by (simp add: sat_add_exact)
    qed simp
    have "sum_list (map (\<lambda>(k, c). candidate_size c) ?es) \<le> u64_max" using payload_small [OF x ft] i by (simp add: pool_ok_def)
    then have "foldl (\<lambda>b (k, c). sat_add b (candidate_payload_bytes c)) 0 ?gone = sum_list (map (\<lambda>(k, c). candidate_size c) ?gone)"
      using sat [of ?gone 0] entries_stored [OF x] split [of "\<lambda>(k, c). candidate_size c" ?es] by fastforce
    then show ?thesis using i ft split [of "\<lambda>(k, c). candidate_size c" ?es]
      by (simp add: pool_ok_def bytes_exact_def prune_expired_def Let_def)
  qed
  then show ?thesis using f(1) i by (simp add: pool_ok_def f(3) le_trans [OF length_filter_le])
qed

lemma pop_oldest_ok:
  assumes i: "pool_ok H cfg s" and ne: "pool_ledger s \<noteq> []"
  shows "pool_ok H cfg (snd (pop_oldest s))"
proof -
  have x: "pool_core H cfg s" using i by (simp add: pool_ok_def)
  let ?t = "snd (pop_oldest s)"
  have "\<exists>u. pool_ok H cfg u \<and> pool_entries ?t = pool_entries u \<and> payload_bytes ?t = payload_bytes u"
  proof (cases "fst (pop_oldest s)")
    case True
    then obtain e es c where l: "pool_ledger s = e # es" "map_of (pool_entries s) (pl_key e) = Some c"
      "?t = remove_entry (pl_key e) c (s\<lparr>pool_ledger := es\<rparr>)"
      by (auto simp: pop_oldest_def Let_def split: list.splits option.splits if_splits)
    show ?thesis by (rule exI [of _ "remove_entry (pl_key e) c s"]) (use remove_ok [OF i l(2)] l(3) in \<open>simp add: remove_entry_def\<close>)
  next
    case False
    then have "pool_entries ?t = pool_entries s \<and> payload_bytes ?t = payload_bytes s"
      by (auto simp: pop_oldest_def Let_def split: list.split option.split)
    then show ?thesis using i by blast
  qed
  then show ?thesis using pop_oldest_facts(1) [OF x ne] by (auto simp: pool_ok_def bytes_exact_def)
qed

lemma reclaim_loop_ok: "pool_ok H cfg s \<Longrightarrow> reclaim_loop target evicted s = (n, t) \<Longrightarrow> pool_ok H cfg t"
proof (induction target evicted s rule: reclaim_loop.induct)
  case (1 target evicted s)
  show ?case
  proof (cases "target < length (pool_entries s) \<and> pool_ledger s \<noteq> []")
    case True
    have eq: "reclaim_loop target (if fst (pop_oldest s) then sat_add evicted 1 else evicted) (snd (pop_oldest s)) = (n, t)"
      using "1.prems"(2) unfolding reclaim_loop.simps [of target evicted s] if_P [OF True] .
    show ?thesis by (rule "1.IH" [OF True pop_oldest_ok [OF "1.prems"(1) conjunct2 [OF True]] eq])
  next
    case False
    then show ?thesis using "1.prems" unfolding reclaim_loop.simps [of target evicted s] if_not_P [OF False] by simp
  qed
qed

lemma compact_ok: "pool_ok H cfg s \<Longrightarrow> permutes_all iter \<Longrightarrow> pool_ok H cfg (compact_pool_ledger iter s)"
  by (auto simp: pool_ok_def bytes_exact_def core_compact)

lemma bump_ok [simp]: "pool_ok H cfg (bump_availability_epoch s) = pool_ok H cfg s"
  by (simp add: pool_ok_def bytes_exact_def)

lemma peak_ok [simp]: "pool_ok H cfg (refresh_entries_peak s) = pool_ok H cfg s"
  by (simp add: pool_ok_def bytes_exact_def)

lemma reclaim_lru_to_ok:
  assumes i: "pool_ok H cfg s" and it: "permutes_all iter" and r: "reclaim_lru_to iter target s = (n, t)"
  shows "pool_ok H cfg t"
proof -
  obtain u where "reclaim_loop target 0 s = (n, u)" "t = compact_pool_ledger iter u"
    using r by (auto simp: reclaim_lru_to_def split: prod.splits)
  then show ?thesis using compact_ok [OF reclaim_loop_ok [OF i] it] by blast
qed

lemma insert_ok:
  assumes i: "pool_ok H cfg s" and room: "length (pool_entries s) < entries_limit cfg"
    and c: "\<And>a b. stored H cfg (candidate_of a b p)" "\<And>a b. renewed H (candidate_of a b p)" and k: "k = ngram_key_of (pay_key_tokens p)"
  shows "pool_ok H cfg (pool_insert k p s)"
proof -
  have x: "pool_core H cfg s" using i by (simp add: pool_ok_def)
  have d: "distinct (map fst (pool_entries s))" by (rule pool_coreD(3) [OF x])
  have core: "pool_core H cfg (pool_insert k p s)" by (rule pool_insert_core [OF x c k])
  have len: "length (pool_entries (pool_insert k p s)) \<le> entries_limit cfg"
    using pool_insert_length [of k p s] room by (simp split: if_splits)
  let ?f = "\<lambda>(k, c). candidate_size c"
  have "bytes_exact (pool_insert k p s)" if ft: "limits_fit cfg"
  proof -
    have b: "payload_bytes s = sum_list (map ?f (pool_entries s))" using i ft by (simp add: pool_ok_def bytes_exact_def)
    let ?c = "candidate_of (sat_add (next_id s) 1) (sat_add (access_clock s) 1) p"
    have sz: "candidate_payload_bytes ?c = candidate_size ?c" by (rule payload_size [OF x c(1) ft])
    have small: "sum_list (map ?f (pool_entries (pool_insert k p s))) \<le> u64_max" by (rule payload_small [OF core ft len])
    show ?thesis
    proof (cases "map_of (pool_entries s) k")
      case None
      then show ?thesis using b small sz
        by (simp add: pool_insert_def Let_def bytes_exact_def update_new sat_add_exact)
    next
      case (Some old)
      have so: "candidate_payload_bytes old = candidate_size old" by (rule payload_size [OF x pool_coreD(4) [OF x Some] ft])
      note up = sum_update [OF Some d, of ?f]
      have le: "candidate_size old \<le> payload_bytes s" using sum_delete [OF Some d, of ?f] b by simp
      show ?thesis
        using small Some b so sz up [of ?c] le
          up [of "old\<lparr>cand_id := sat_add (next_id s) 1, expires_at_ms := expires_at_ms ?c, last_access := sat_add (access_clock s) 1\<rparr>"]
        by (simp add: pool_insert_def Let_def bytes_exact_def candidate_of_def candidate_size_def sat_add_exact split: if_splits)
    qed
  qed
  then show ?thesis using core len by (simp add: pool_ok_def)
qed

section \<open>Indexing a history\<close>

text \<open>No key collision has been counted between two states.\<close>

definition calm :: "'p pool \<Rightarrow> 'p pool \<Rightarrow> bool" where
  "calm s t = (collision_rejections s \<le> u64_max \<longrightarrow> collision_rejections s \<le> collision_rejections t \<and> collision_rejections t \<le> u64_max)"

lemma calm_refl [simp]: "collision_rejections t = collision_rejections s \<Longrightarrow> calm s t"
  by (simp add: calm_def)

lemma calm_trans: "calm s t \<Longrightarrow> calm t u \<Longrightarrow> calm s u"
  by (auto simp: calm_def)

lemma calm_insert [simp]: "calm s (pool_insert k p s)"
  by (auto simp: calm_def pool_insert_def Let_def sat_add_ge split: option.split)

text \<open>What an insertion leaves under its key.\<close>

lemma insert_lookup:
  defines "c s p \<equiv> candidate_of (sat_add (next_id s) 1) (sat_add (access_clock s) 1) p"
  shows "map_of (pool_entries (pool_insert k p s)) k' =
    (if k' \<noteq> k then map_of (pool_entries s) k'
     else case map_of (pool_entries s) k of
       None \<Rightarrow> Some (c s p)
     | Some old \<Rightarrow> Some (if key_tokens old \<noteq> pay_key_tokens p then old
         else if length (draft old) > length (pay_draft p)
         then old\<lparr>cand_id := cand_id (c s p), expires_at_ms := expires_at_ms (c s p), last_access := last_access (c s p)\<rparr>
         else c s p))"
    and "collision_rejections (pool_insert k p s) =
     (case map_of (pool_entries s) k of
        Some old \<Rightarrow> if key_tokens old \<noteq> pay_key_tokens p then sat_add (collision_rejections s) 1 else collision_rejections s
      | None \<Rightarrow> collision_rejections s)"
proof -
  have f: "key_tokens (c s p) = pay_key_tokens p" "draft (c s p) = pay_draft p" by (simp_all add: c_def candidate_of_def)
  show "map_of (pool_entries (pool_insert k p s)) k' =
    (if k' \<noteq> k then map_of (pool_entries s) k'
     else case map_of (pool_entries s) k of
       None \<Rightarrow> Some (c s p)
     | Some old \<Rightarrow> Some (if key_tokens old \<noteq> pay_key_tokens p then old
         else if length (draft old) > length (pay_draft p)
         then old\<lparr>cand_id := cand_id (c s p), expires_at_ms := expires_at_ms (c s p), last_access := last_access (c s p)\<rparr>
         else c s p))"
    using f unfolding c_def by (cases "map_of (pool_entries s) k") (simp_all add: pool_insert_def Let_def update_conv')
  show "collision_rejections (pool_insert k p s) =
     (case map_of (pool_entries s) k of
        Some old \<Rightarrow> if key_tokens old \<noteq> pay_key_tokens p then sat_add (collision_rejections s) 1 else collision_rejections s
      | None \<Rightarrow> collision_rejections s)"
    using f unfolding c_def by (cases "map_of (pool_entries s) k") (simp_all add: pool_insert_def Let_def)
qed

lemma insert_holds:
  assumes now: "pay_now_ms p = now"
  shows "holds_gram now g s \<Longrightarrow> holds_gram now g (pool_insert k p s)"
    and "k = ngram_key_of (pay_key_tokens p) \<Longrightarrow> collision_rejections (pool_insert k p s) = collision_rejections s \<Longrightarrow>
      collision_rejections s < u64_max \<Longrightarrow> holds_gram now (pay_key_tokens p) (pool_insert k p s)"
proof -
  let ?c = "candidate_of (sat_add (next_id s) 1) (sat_add (access_clock s) 1) p"
  have c: "key_tokens ?c = pay_key_tokens p" "expires_at_ms ?c = sat_add now SHARED_PROMPT_LOOKUP_TTL_MS"
    by (simp_all add: candidate_of_def now)
  show "holds_gram now g (pool_insert k p s)" if g: "holds_gram now g s"
  proof (cases "ngram_key_of g = k")
    case True
    then obtain old where "map_of (pool_entries s) k = Some old" "key_tokens old = g"
      "expires_at_ms old = sat_add now SHARED_PROMPT_LOOKUP_TTL_MS"
      using g by (auto simp: holds_gram_def)
    then show ?thesis unfolding holds_gram_def insert_lookup(1) True using c by simp
  next
    case False
    then show ?thesis using g unfolding holds_gram_def insert_lookup(1) by simp
  qed
  show "holds_gram now (pay_key_tokens p) (pool_insert k p s)" if k: "k = ngram_key_of (pay_key_tokens p)"
    and q: "collision_rejections (pool_insert k p s) = collision_rejections s" "collision_rejections s < u64_max"
  proof (cases "map_of (pool_entries s) k")
    case None
    then show ?thesis unfolding holds_gram_def insert_lookup(1) k using c by simp
  next
    case (Some old)
    then have "key_tokens old = pay_key_tokens p"
      using q unfolding insert_lookup(2) by (auto simp: sat_add_def split: if_splits)
    then show ?thesis using Some unfolding holds_gram_def insert_lookup(1) k using c by simp
  qed
qed

text \<open>What one round of the loop over n-gram lengths, or several, do to the pool.\<close>

definition indexed :: "nat \<Rightarrow> 'p pool \<Rightarrow> 'p pool \<Rightarrow> bool" where
  "indexed now s t = (pool_config t = pool_config s \<and> availability_epoch t = availability_epoch s \<and> calm s t
     \<and> (\<forall>g. holds_gram now g s \<longrightarrow> holds_gram now g t))"

lemma indexed_refl [simp]: "indexed now s s"
  by (simp add: indexed_def)

lemma indexed_trans: "indexed now s t \<Longrightarrow> indexed now t u \<Longrightarrow> indexed now s u"
  by (auto simp: indexed_def intro: calm_trans)

definition quiet :: "'p pool \<Rightarrow> 'p pool \<Rightarrow> bool" where
  "quiet s t = (collision_rejections s < u64_max \<and> collision_rejections t = collision_rejections s)"

lemma quiet_between: "quiet s u \<Longrightarrow> calm s t \<Longrightarrow> calm t u \<Longrightarrow> quiet s t \<and> quiet t u"
  by (auto simp: quiet_def calm_def)

lemma insert_gram_facts:
  assumes i: "pool_ok H cfg s" and room: "length (pool_entries s) < entries_limit cfg"
    and pub: "(now, h, certs) \<in> H" "published_ok h" and m: "m < length h" and ws: "ws = length h - history_window_tokens cfg"
    and n: "min_ngram cfg \<le> n" "n \<le> max_ngram cfg"
  defines "t \<equiv> insert_gram now h certs ws m s n"
  shows "pool_ok H cfg t" and "length (pool_entries t) \<le> length (pool_entries s) + 1" and "indexed now s t"
    and "n \<le> m \<Longrightarrow> ws \<le> m - n \<Longrightarrow> quiet s t \<Longrightarrow> holds_gram now (gram h m n) t"
proof -
  have x: "pool_core H cfg s" and c: "pool_config s = cfg" using i by (auto simp: pool_ok_def dest: pool_coreD(2))
  let ?p = "payload_at cfg now h certs m n"
  have p: "pay_key_tokens ?p = gram h m n" "pay_now_ms ?p = now" by (simp_all add: payload_at_def Let_def)
  have t: "t = (if m < n \<or> m - n < ws then s else pool_insert (ngram_key_of (gram h m n)) ?p s)"
    by (simp add: t_def insert_gram_def c)
  show "pool_ok H cfg t"
  proof (cases "m < n \<or> m - n < ws")
    case True
    then show ?thesis using i t by simp
  next
    case False
    then have "n \<le> m" "length h - history_window_tokens cfg \<le> m - n" using ws by simp_all
    note ps = payload_stored [OF pub m this(2,1) n]
    show ?thesis using insert_ok [OF i room, of ?p "ngram_key_of (gram h m n)"] ps(1,2) False t by (simp add: p)
  qed
  show "length (pool_entries t) \<le> length (pool_entries s) + 1"
    using pool_insert_length [of "ngram_key_of (gram h m n)" ?p s] unfolding t by (simp split: if_splits)
  show "indexed now s t"
    using pool_insert_frame(1,2) [of "ngram_key_of (gram h m n)" ?p s] insert_holds(1) [OF p(2)]
    unfolding t indexed_def by simp
  show "holds_gram now (gram h m n) t" if "n \<le> m" "ws \<le> m - n" "quiet s t"
    using insert_holds(2) [OF p(2), of "ngram_key_of (gram h m n)" s] that unfolding t p(1) by (simp add: quiet_def)
qed

lemma insert_grams_facts:
  assumes "pool_ok H cfg s" and "length (pool_entries s) + length ns \<le> entries_limit cfg"
    and pub: "(now, h, certs) \<in> H" "published_ok h" and m: "m < length h" and ws: "ws = length h - history_window_tokens cfg"
    and "\<forall>n \<in> set ns. min_ngram cfg \<le> n \<and> n \<le> max_ngram cfg"
  defines "t \<equiv> foldl (insert_gram now h certs ws m) s ns"
  shows "pool_ok H cfg t \<and> length (pool_entries t) \<le> length (pool_entries s) + length ns \<and> indexed now s t
    \<and> (\<forall>n \<in> set ns. n \<le> m \<longrightarrow> ws \<le> m - n \<longrightarrow> quiet s t \<longrightarrow> holds_gram now (gram h m n) t)"
  using assms(1,2,7) unfolding t_def
proof (induction ns arbitrary: s)
  case (Cons n ns)
  let ?u = "insert_gram now h certs ws m s n"
  let ?t = "foldl (insert_gram now h certs ws m) ?u ns"
  have n: "min_ngram cfg \<le> n" "n \<le> max_ngram cfg" and room: "length (pool_entries s) < entries_limit cfg" using Cons.prems by simp_all
  note f = insert_gram_facts [OF Cons.prems(1) room pub m ws n]
  have ih: "pool_ok H cfg ?t \<and> length (pool_entries ?t) \<le> length (pool_entries ?u) + length ns \<and> indexed now ?u ?t
    \<and> (\<forall>n \<in> set ns. n \<le> m \<longrightarrow> ws \<le> m - n \<longrightarrow> quiet ?u ?t \<longrightarrow> holds_gram now (gram h m n) ?t)"
    using Cons.prems f(2) by (intro Cons.IH f(1)) simp_all
  have st: "indexed now s ?t" using f(3) ih indexed_trans by blast
  have q: "quiet s ?u \<and> quiet ?u ?t" if "quiet s ?t"
    using quiet_between [OF that] f(3) ih by (simp add: indexed_def)
  have "holds_gram now (gram h m k) ?t" if k: "k \<in> set (n # ns)" "k \<le> m" "ws \<le> m - k" and qt: "quiet s ?t" for k
  proof (cases "k \<in> set ns")
    case True
    then show ?thesis using ih k q [OF qt] by blast
  next
    case False
    then have "holds_gram now (gram h m k) ?u" using f(4) k q [OF qt] by simp
    then show ?thesis using ih by (simp add: indexed_def)
  qed
  then show ?case using ih st f(2) by (auto simp del: list.set)
qed simp

end
