(* ===== verification/SharedPoolMachine.thy ===== *)
theory SharedPoolMachine
  imports SharedPoolPublish
begin

text \<open>
  \<open>SharedPromptLookupPool\<close> (\<open>ironmlx/src/core/prompt_lookup.rs\<close>) as a machine: publishing, asking, reclaiming and
  clearing keep the invariant, end within the configured bounds, and change what can be found only together
  with the availability epoch.
\<close>

section \<open>Publishing\<close>

definition bounded_pool :: "lookup_config \<Rightarrow> 'p pool \<Rightarrow> bool" where
  "bounded_pool cfg s = (length (pool_entries s) \<le> max_index_entries cfg
     \<and> length (pool_ledger s) \<le> 2 * length (pool_entries s) + 1024)"

definition progressed :: "nat \<Rightarrow> nat \<times> 'p pool \<Rightarrow> nat \<times> 'p pool \<Rightarrow> bool" where
  "progressed now es et = (pool_config (snd et) = pool_config (snd es)
     \<and> availability_epoch (snd et) = availability_epoch (snd es) \<and> calm (snd es) (snd et)
     \<and> (fst et = 0 \<longrightarrow> fst es = 0 \<and> indexed now (snd es) (snd et)))"

lemma sat_add_zero [simp]: "sat_add a b = 0 \<longleftrightarrow> a = 0 \<and> b = 0"
  by (auto simp: sat_add_def u64_max_def)

lemma progressed_trans: "progressed now a b \<Longrightarrow> progressed now b c \<Longrightarrow> progressed now a c"
  unfolding progressed_def by (auto intro: calm_trans indexed_trans)

definition loop_ok :: "'p publication set \<Rightarrow> lookup_config \<Rightarrow> nat \<Rightarrow> nat \<Rightarrow> 'p pool \<Rightarrow> bool" where
  "loop_ok H cfg ws m s = (pool_ok H cfg s
     \<and> length (pool_entries s) \<le> max_index_entries cfg + ((m - ws) mod 1024) * grams_per_token cfg)"

lemma same_entries_indexed:
  "pool_entries t = pool_entries s \<Longrightarrow> pool_config t = pool_config s \<Longrightarrow> availability_epoch t = availability_epoch s \<Longrightarrow>
    collision_rejections t = collision_rejections s \<Longrightarrow> indexed now s t"
  by (simp add: indexed_def holds_gram_def)

text \<open>The trimming of the index after every 1024 tokens.\<close>

definition trim :: "'p entry_order \<Rightarrow> nat \<times> 'p pool \<Rightarrow> nat \<times> 'p pool" where
  "trim iter es = (let (evicted, s) = es;
     (evicted, s) =
       (if length (pool_entries s) > max_index_entries (pool_config s)
        then let (n, s) = reclaim_lru_to iter (max_index_entries (pool_config s)) s in (sat_add evicted n, s)
        else (evicted, s))
     in (evicted, refresh_entries_peak (compact_pool_ledger iter s)))"

lemma trim_facts:
  assumes i: "pool_ok H cfg s" and it: "permutes_all iter"
  shows "pool_ok H cfg (snd (trim iter (evicted, s))) \<and> length (pool_entries (snd (trim iter (evicted, s)))) \<le> max_index_entries cfg
    \<and> progressed now (evicted, s) (trim iter (evicted, s))"
proof -
  have x: "pool_core H cfg s" and c: "pool_config s = cfg" using i by (auto simp: pool_ok_def dest: pool_coreD(2))
  show ?thesis
  proof (cases "length (pool_entries s) > max_index_entries cfg")
    case True
    obtain n t where r: "reclaim_lru_to iter (max_index_entries cfg) s = (n, t)" by fastforce
    note f = reclaim_lru_to_facts [OF x it r]
    have t: "trim iter (evicted, s) = (sat_add evicted n, refresh_entries_peak (compact_pool_ledger iter t))"
      using True r by (simp add: trim_def c)
    have "indexed now s (refresh_entries_peak (compact_pool_ledger iter t))" if "sat_add evicted n = 0"
      using that f by (intro same_entries_indexed) (auto simp: same_fields_def)
    then show ?thesis using f compact_ok [OF reclaim_lru_to_ok [OF i it r] it] unfolding t
      by (auto simp: progressed_def same_fields_def)
  next
    case False
    then have t: "trim iter (evicted, s) = (evicted, refresh_entries_peak (compact_pool_ledger iter s))" by (simp add: trim_def c)
    show ?thesis using False compact_ok [OF i it] unfolding t by (simp add: progressed_def same_entries_indexed)
  qed
qed

lemma publish_step_split:
  assumes "m < length h" and "published_ok h" and "0 < max_draft_tokens (pool_config s)"
  shows "publish_step iter now h certs ws (evicted, s) m =
    (let t = foldl (insert_gram now h certs ws m) s [min_ngram (pool_config s)..<max_ngram (pool_config s) + 1]
     in if (m - ws) mod 1024 = 1023 then trim iter (evicted, t) else (evicted, t))"
proof -
  have "m \<noteq> min (length h) (sat_add m (max_draft_tokens (pool_config s)))"
    using assms by (auto simp: sat_add_def published_ok_def min_def)
  then show ?thesis by (simp add: publish_step_def trim_def Let_def split: prod.split del: upt_Suc)
qed

lemma publish_step_facts:
  fixes evicted now m ws and h :: "token list" and certs :: "'p certification list"
  assumes i: "loop_ok H cfg ws m s" and it: "permutes_all iter"
    and pub: "(now, h, certs) \<in> H" "published_ok h" and m: "ws \<le> m" "m < length h" and ws: "ws = length h - history_window_tokens cfg"
  defines "r \<equiv> publish_step iter now h certs ws (evicted, s) m"
  shows "loop_ok H cfg ws (Suc m) (snd r) \<and> progressed now (evicted, s) r
    \<and> (\<forall>n. min_ngram cfg \<le> n \<longrightarrow> n \<le> max_ngram cfg \<longrightarrow> n \<le> m \<longrightarrow> ws \<le> m - n \<longrightarrow> fst r = 0 \<longrightarrow> quiet s (snd r)
         \<longrightarrow> holds_gram now (gram h m n) (snd r))"
proof -
  have ok: "pool_ok H cfg s" and c: "pool_config s = cfg" and v: "config_validate cfg = Inr cfg"
    using i by (auto simp: loop_ok_def pool_ok_def dest: pool_coreD(1,2))
  have pos: "0 < max_draft_tokens cfg" and mn: "min_ngram cfg \<le> max_ngram cfg"
    using v by (auto simp: config_validate_def split: if_splits)
  let ?ns = "[min_ngram cfg..<max_ngram cfg + 1]"
  let ?t = "foldl (insert_gram now h certs ws m) s ?ns"
  let ?x = "(m - ws) mod 1024"
  have g: "length ?ns = grams_per_token cfg" by (simp add: grams_per_token_def del: upt_Suc)
  have x: "?x < 1024" by simp
  have le: "?x * grams_per_token cfg + grams_per_token cfg \<le> 1024 * grams_per_token cfg"
  proof -
    have "(?x + 1) * grams_per_token cfg \<le> 1024 * grams_per_token cfg" using x by (intro mult_le_mono1) simp
    then show ?thesis by (simp only: add_mult_distrib mult_1)
  qed
  have room: "length (pool_entries s) + length ?ns \<le> entries_limit cfg"
  proof -
    have "length (pool_entries s) \<le> max_index_entries cfg + ?x * grams_per_token cfg" using i by (simp add: loop_ok_def)
    then show ?thesis using le unfolding g entries_limit_def by linarith
  qed
  note f = insert_grams_facts [OF ok room pub m(2) ws, unfolded g]
  have ft: "pool_ok H cfg ?t" "length (pool_entries ?t) \<le> length (pool_entries s) + grams_per_token cfg" "indexed now s ?t"
    "\<And>n. min_ngram cfg \<le> n \<Longrightarrow> n \<le> max_ngram cfg \<Longrightarrow> n \<le> m \<Longrightarrow> ws \<le> m - n \<Longrightarrow> quiet s ?t \<Longrightarrow> holds_gram now (gram h m n) ?t"
    using f by (auto simp del: upt_Suc)
  have r: "r = (if ?x = 1023 then trim iter (evicted, ?t) else (evicted, ?t))"
    unfolding r_def by (subst publish_step_split) (use m(2) pub(2) pos c in \<open>simp_all add: Let_def del: upt_Suc\<close>)
  have pt: "progressed now (evicted, s) (evicted, ?t)" using ft(3) by (simp add: progressed_def indexed_def)
  have ms: "(Suc m - ws) mod 1024 = (if ?x = 1023 then 0 else Suc ?x)" using m(1) by (simp add: Suc_diff_le mod_Suc)
  show ?thesis
  proof (cases "?x = 1023")
    case True
    note tr = trim_facts [OF ft(1) it, of evicted now]
    have p: "progressed now (evicted, s) r" using progressed_trans [OF pt] tr True r by simp
    have rt: "progressed now (evicted, ?t) r" using tr True r by simp
    have "holds_gram now (gram h m n) (snd r)"
      if "min_ngram cfg \<le> n" "n \<le> max_ngram cfg" "n \<le> m" "ws \<le> m - n" "fst r = 0" "quiet s (snd r)" for n
    proof -
      have "quiet s ?t" using quiet_between [OF that(6)] ft(3) rt by (auto simp: indexed_def progressed_def)
      then show ?thesis using ft(4) [OF that(1-4)] rt that(5) by (auto simp: progressed_def indexed_def)
    qed
    moreover have "loop_ok H cfg ws (Suc m) (snd r)" using tr True r unfolding loop_ok_def ms by simp
    ultimately show ?thesis using p by blast
  next
    case False
    then have "loop_ok H cfg ws (Suc m) (snd r)" using ft(1,2) i r unfolding loop_ok_def ms by simp
    then show ?thesis using pt ft(4) False r by simp
  qed
qed

lemma publish_loop_facts:
  assumes i: "loop_ok H cfg ws ws s" and it: "permutes_all iter"
    and pub: "(now, h, certs) \<in> H" "published_ok h" and ws: "ws = length h - history_window_tokens cfg"
  shows "ws \<le> m \<Longrightarrow> m \<le> length h \<Longrightarrow> (let r = foldl (publish_step iter now h certs ws) (evicted, s) [ws..<m] in
    loop_ok H cfg ws m (snd r) \<and> progressed now (evicted, s) r
    \<and> (\<forall>n l. min_ngram cfg \<le> n \<longrightarrow> n \<le> max_ngram cfg \<longrightarrow> n \<le> l \<longrightarrow> l < m \<longrightarrow> ws \<le> l - n \<longrightarrow> fst r = 0 \<longrightarrow> quiet s (snd r)
         \<longrightarrow> holds_gram now (gram h l n) (snd r)))"
proof (induction m rule: dec_induct)
  case base
  have "\<not> (n \<le> l \<and> l < ws \<and> ws \<le> l - n)" for n l by auto
  then show ?case using i by (auto simp: progressed_def Let_def)
next
  case (step m)
  let ?r = "foldl (publish_step iter now h certs ws) (evicted, s) [ws..<m]"
  let ?u = "publish_step iter now h certs ws ?r m"
  have e: "foldl (publish_step iter now h certs ws) (evicted, s) [ws..<Suc m] = ?u" using step(1) by simp
  have ih: "loop_ok H cfg ws m (snd ?r)" "progressed now (evicted, s) ?r"
    "\<And>n l. min_ngram cfg \<le> n \<Longrightarrow> n \<le> max_ngram cfg \<Longrightarrow> n \<le> l \<Longrightarrow> l < m \<Longrightarrow> ws \<le> l - n \<Longrightarrow> fst ?r = 0 \<Longrightarrow> quiet s (snd ?r)
       \<Longrightarrow> holds_gram now (gram h l n) (snd ?r)"
    using step.IH step.prems by (simp_all add: Let_def)
  note f = publish_step_facts [where evicted = "fst ?r", OF ih(1) it pub step(1) _ ws, unfolded prod.collapse]
  have f': "loop_ok H cfg ws (Suc m) (snd ?u)" "progressed now ?r ?u"
    "\<And>n. min_ngram cfg \<le> n \<Longrightarrow> n \<le> max_ngram cfg \<Longrightarrow> n \<le> m \<Longrightarrow> ws \<le> m - n \<Longrightarrow> fst ?u = 0 \<Longrightarrow> quiet (snd ?r) (snd ?u)
         \<Longrightarrow> holds_gram now (gram h m n) (snd ?u)"
    using f step.prems by simp_all
  have "holds_gram now (gram h l n) (snd ?u)"
    if "min_ngram cfg \<le> n" "n \<le> max_ngram cfg" "n \<le> l" "l < Suc m" "ws \<le> l - n" "fst ?u = 0" "quiet s (snd ?u)" for n l
  proof -
    have z: "fst ?r = 0" and q: "quiet s (snd ?r) \<and> quiet (snd ?r) (snd ?u)"
      using that(6) f'(2) ih(2) quiet_between [OF that(7)] by (auto simp: progressed_def)
    show ?thesis
    proof (cases "l = m")
      case True
      then show ?thesis using f'(3) that q by blast
    next
      case False
      then have "holds_gram now (gram h l n) (snd ?r)" using ih(3) that z q by simp
      then show ?thesis using f'(2) that(6) by (auto simp: progressed_def indexed_def)
    qed
  qed
  then show ?case using f'(1) progressed_trans [OF ih(2) f'(2)] unfolding e Let_def by blast
qed

lemma prune_frame:
  "pool_config (snd (prune_expired now s)) = pool_config s" "availability_epoch (snd (prune_expired now s)) = availability_epoch s"
  "collision_rejections (snd (prune_expired now s)) = collision_rejections s" "access_clock (snd (prune_expired now s)) = access_clock s"
  "length (pool_entries (snd (prune_expired now s))) \<le> length (pool_entries s)"
  by (simp_all add: prune_expired_def Let_def)

lemma reclaim_to_facts:
  assumes i: "pool_ok H cfg s" and it: "permutes_all iter" and r: "reclaim_to iter target now s = (n, t)"
  shows "pool_ok H cfg t \<and> same_fields s t \<and> length (pool_entries t) \<le> target \<and> length (pool_ledger t) \<le> 2 * length (pool_entries t) + 1024
    \<and> length (pool_entries t) \<le> length (pool_entries s) \<and> (n = 0 \<longrightarrow> pool_entries t = pool_entries s)
    \<and> (clock_ok s \<longrightarrow> (\<forall>k c k' c'. map_of (pool_entries s) k = Some c \<longrightarrow> now < expires_at_ms c \<longrightarrow> map_of (pool_entries t) k = None \<longrightarrow>
          map_of (pool_entries t) k' = Some c' \<longrightarrow> cand_id c < cand_id c'))
    \<and> (\<forall>k c. map_of (pool_entries t) k = Some c \<longrightarrow> map_of (pool_entries s) k = Some c \<and> now < expires_at_ms c)"
proof -
  let ?u = "snd (prune_expired now s)"
  have x: "pool_core H cfg s" using i by (simp add: pool_ok_def)
  have u: "pool_ok H cfg ?u" by (rule prune_ok [OF i])
  then have ux: "pool_core H cfg ?u" by (simp add: pool_ok_def)
  obtain e where l: "reclaim_lru_to iter target ?u = (e, t)" and n: "n = sat_add (fst (prune_expired now s)) e"
    using r by (auto simp: reclaim_to_def split: prod.splits)
  note f = reclaim_lru_to_facts [OF ux it l]
  have "n = 0 \<longrightarrow> pool_entries t = pool_entries s"
    using f prune_none [of now s] unfolding n by simp
  moreover have "\<forall>k c k' c'. map_of (pool_entries s) k = Some c \<longrightarrow> now < expires_at_ms c \<longrightarrow> map_of (pool_entries t) k = None \<longrightarrow>
      map_of (pool_entries t) k' = Some c' \<longrightarrow> cand_id c < cand_id c'" if "clock_ok s"
    using f that prune_facts(2) [OF x, of now] unfolding lru_cut_def clock_ok_def prune_frame(4) by metis
  moreover have "map_of (pool_entries s) k = Some c \<and> now < expires_at_ms c" if "map_of (pool_entries t) k = Some c" for k c
    using f that prune_facts(2) [OF x, of now] by (auto simp: sub_pool_def)
  moreover have "same_fields s t" using f prune_frame [of now s] by (simp add: same_fields_def)
  ultimately show ?thesis using f reclaim_lru_to_ok [OF u it l] prune_frame(5) [of now s] by auto
qed

text \<open>A history too short for an n-gram adds nothing.\<close>

lemma trim_entries:
  assumes i: "pool_ok H cfg s" and it: "permutes_all iter" and z: "fst (trim iter (evicted, s)) = 0"
  shows "evicted = 0 \<and> pool_entries (snd (trim iter (evicted, s))) = pool_entries s"
proof -
  have x: "pool_core H cfg s" and c: "pool_config s = cfg" using i by (auto simp: pool_ok_def dest: pool_coreD(2))
  obtain n t where r: "reclaim_lru_to iter (max_index_entries cfg) s = (n, t)" by fastforce
  show ?thesis using z reclaim_lru_to_facts [OF x it r] by (simp add: trim_def c r split: if_splits)
qed

lemma insert_grams_short: "\<forall>n \<in> set ns. m < n \<Longrightarrow> foldl (insert_gram now h certs ws m) s ns = s"
  by (induction ns) (simp_all add: insert_gram_def)

lemma publish_loop_short:
  assumes i: "loop_ok H cfg ws ws s" and it: "permutes_all iter" and pub: "(now, h, certs) \<in> H" "published_ok h"
    and ws: "ws = length h - history_window_tokens cfg" and short: "length h \<le> min_ngram cfg"
  shows "ws \<le> m \<Longrightarrow> m \<le> length h \<Longrightarrow> fst (foldl (publish_step iter now h certs ws) (evicted, s) [ws..<m]) = 0 \<Longrightarrow>
    evicted = 0 \<and> pool_entries (snd (foldl (publish_step iter now h certs ws) (evicted, s) [ws..<m])) = pool_entries s"
proof (induction m rule: dec_induct)
  case (step m)
  let ?r = "foldl (publish_step iter now h certs ws) (evicted, s) [ws..<m]"
  have ok: "pool_ok H cfg (snd ?r)"
    using publish_loop_facts [OF i it pub ws step(1), of evicted] step by (simp add: Let_def loop_ok_def)
  have c: "pool_config (snd ?r) = cfg" and v: "0 < max_draft_tokens cfg"
    using ok by (auto simp: pool_ok_def config_validate_def dest: pool_coreD(1,2) split: if_splits)
  have "publish_step iter now h certs ws (fst ?r, snd ?r) m = (if (m - ws) mod 1024 = 1023 then trim iter (fst ?r, snd ?r) else (fst ?r, snd ?r))"
    using step short v by (subst publish_step_split) (simp_all add: c pub insert_grams_short del: upt_Suc prod.collapse)
  moreover have "fst (publish_step iter now h certs ws ?r m) = 0" using step(1,4,5) by simp
  ultimately have e: "fst ?r = 0" "pool_entries (snd (publish_step iter now h certs ws ?r m)) = pool_entries (snd ?r)"
    using trim_entries [OF ok it, of "fst ?r"] by (simp_all split: if_splits)
  have "evicted = 0 \<and> pool_entries (snd ?r) = pool_entries s" by (rule step.IH) (use step.prems e(1) in simp_all)
  then have ih: "evicted = 0" "pool_entries (snd ?r) = pool_entries s" by blast+
  have eq: "foldl (publish_step iter now h certs ws) (evicted, s) [ws..<Suc m] = publish_step iter now h certs ws ?r m"
    using step(1) by simp
  show ?case unfolding eq using ih(1) trans [OF e(2) ih(2)] by (rule conjI)
qed simp

lemma publish_facts:
  assumes i: "pool_ok H cfg s" and b: "bounded_pool cfg s" and it: "permutes_all iter"
    and pub: "(now, h, certs) \<in> H" "published_ok h"
    and r: "publish_history_with_mtp_certifications iter now h certs s = (res, t)"
  shows "pool_ok H cfg t \<and> bounded_pool cfg t \<and> indexed_tokens res = min (length h) (history_window_tokens cfg)
    \<and> (evicted_entries res = 0 \<longrightarrow> quiet s t \<longrightarrow>
        (\<forall>n m. min_ngram cfg \<le> n \<longrightarrow> n \<le> max_ngram cfg \<longrightarrow> n \<le> m \<longrightarrow> m < length h \<longrightarrow> length h - history_window_tokens cfg \<le> m - n
           \<longrightarrow> holds_gram now (gram h m n) t))
    \<and> availability_epoch t = (if length h > min_ngram cfg \<or> evicted_entries res > 0 then sat_add (availability_epoch s) 1 else availability_epoch s)
    \<and> (length h \<le> min_ngram cfg \<longrightarrow> evicted_entries res = 0 \<longrightarrow> pool_entries t = pool_entries s)"
proof -
  have c: "pool_config s = cfg" using i by (auto simp: pool_ok_def dest: pool_coreD(2))
  let ?ws = "length h - history_window_tokens cfg"
  let ?p = "fst (prune_expired now s)" and ?u = "snd (prune_expired now s)"
  let ?l = "foldl (publish_step iter now h certs ?ws) (prune_expired now s) [?ws..<length h]"
  obtain n v where rt: "reclaim_to iter (max_index_entries cfg) now (snd ?l) = (n, v)" by fastforce
  have u: "pool_ok H cfg ?u" by (rule prune_ok [OF i])
  have cu: "pool_config ?u = cfg" using c prune_frame(1) [of now s] by simp
  have l0: "loop_ok H cfg ?ws ?ws ?u" using u b prune_frame(5) [of now s] by (simp add: loop_ok_def bounded_pool_def)
  have f: "loop_ok H cfg ?ws (length h) (snd ?l)" "progressed now (prune_expired now s) ?l"
    "\<And>n l. min_ngram cfg \<le> n \<Longrightarrow> n \<le> max_ngram cfg \<Longrightarrow> n \<le> l \<Longrightarrow> l < length h \<Longrightarrow> ?ws \<le> l - n \<Longrightarrow> fst ?l = 0 \<Longrightarrow> quiet ?u (snd ?l)
       \<Longrightarrow> holds_gram now (gram h l n) (snd ?l)"
    using publish_loop_facts [OF l0 it pub refl, of "length h" ?p, unfolded prod.collapse] by (simp_all add: Let_def)
  have lo: "pool_ok H cfg (snd ?l)" using f(1) by (simp add: loop_ok_def)
  note g = reclaim_to_facts [OF lo it rt]
  let ?w = "compact_pool_ledger iter (refresh_entries_peak v)"
  have cw: "pool_config v = cfg" using g lo by (auto simp: same_fields_def pool_ok_def dest: pool_coreD(2))
  have t: "t = (if length h > min_ngram cfg \<or> sat_add (fst ?l) n > 0 then bump_availability_epoch ?w else ?w)"
    and res: "indexed_tokens res = length h - ?ws" "evicted_entries res = sat_add (fst ?l) n"
  proof -
    have cl: "pool_config (snd ?l) = cfg" using lo by (auto simp: pool_ok_def dest: pool_coreD(2))
    have "(\<lparr>indexed_tokens = length h - ?ws, evicted_entries = sat_add (fst ?l) n\<rparr>,
        if length h > min_ngram cfg \<or> sat_add (fst ?l) n > 0 then bump_availability_epoch ?w else ?w) = (res, t)"
      using r unfolding publish_history_with_mtp_certifications_def Let_def case_prod_unfold prod.collapse cu cl rt fst_conv snd_conv
        peak_frame compact_frame cw .
    then show "t = (if length h > min_ngram cfg \<or> sat_add (fst ?l) n > 0 then bump_availability_epoch ?w else ?w)"
      and "indexed_tokens res = length h - ?ws" "evicted_entries res = sat_add (fst ?l) n" by auto
  qed
  have w: "pool_ok H cfg ?w" using g by (simp add: compact_ok [OF _ it])
  have tw: "pool_entries t = pool_entries v" "pool_ledger t = pool_ledger ?w" "collision_rejections t = collision_rejections v"
    by (simp_all add: t)
  have "pool_ok H cfg t" using w by (simp add: t)
  moreover have "bounded_pool cfg t"
    using g compact_ledger_short [OF it, of "refresh_entries_peak v"] unfolding bounded_pool_def tw by simp
  moreover have "holds_gram now (gram h m n') t" if z: "evicted_entries res = 0" and q: "quiet s t"
    and n: "min_ngram cfg \<le> n'" "n' \<le> max_ngram cfg" "n' \<le> m" "m < length h" "?ws \<le> m - n'" for n' m
  proof -
    have z': "fst ?l = 0" "n = 0" using z unfolding res(2) sat_add_zero by (rule conjunct1, rule conjunct2)
    have "same_fields (snd ?l) v" by (rule g [THEN conjunct2, THEN conjunct1])
    then have cl: "collision_rejections v = collision_rejections (snd ?l)" unfolding same_fields_def by blast
    have "quiet ?u (snd ?l)" using q unfolding quiet_def tw(3) cl prune_frame(3) .
    then have "holds_gram now (gram h m n') (snd ?l)" using f(3) n z'(1) by blast
    moreover have "n = 0 \<longrightarrow> pool_entries v = pool_entries (snd ?l)" using g by (elim conjE) assumption
    ultimately show ?thesis using z'(2) unfolding holds_gram_def tw by metis
  qed
  moreover have "indexed_tokens res = min (length h) (history_window_tokens cfg)" unfolding res(1) by (simp add: min_def)
  moreover have "availability_epoch v = availability_epoch s"
    using g f(2) prune_frame(2) [of now s] by (simp add: same_fields_def progressed_def)
  then have "availability_epoch t = (if length h > min_ngram cfg \<or> evicted_entries res > 0 then sat_add (availability_epoch s) 1 else availability_epoch s)"
    unfolding res(2) t by (simp add: bump_availability_epoch_def del: sat_add_zero)
  moreover have "pool_entries t = pool_entries s" if short: "length h \<le> min_ngram cfg" and z: "evicted_entries res = 0"
  proof -
    have z': "fst ?l = 0" "n = 0" using z unfolding res(2) sat_add_zero by (rule conjunct1, rule conjunct2)
    have "n = 0 \<longrightarrow> pool_entries v = pool_entries (snd ?l)" using g by (elim conjE) assumption
    moreover have "?p = 0 \<and> pool_entries (snd ?l) = pool_entries ?u"
      using publish_loop_short [OF l0 it pub refl short, of "length h" ?p, unfolded prod.collapse] z'(1) by simp
    ultimately show ?thesis using z'(2) prune_none [of now s] unfolding tw by metis
  qed
  ultimately show ?thesis by blast
qed

end
