(* ===== verification/SharedPoolUse.thy ===== *)
theory SharedPoolUse
  imports SharedPoolMachine
begin

text \<open>
  Asking \<open>SharedPromptLookupPool\<close> (\<open>ironmlx/src/core/prompt_lookup.rs\<close>) for a draft, and the pool as a machine over
  all its operations.
\<close>

section \<open>Asking\<close>

text \<open>What a query can see of a candidate.\<close>

definition visible :: "'p candidate \<Rightarrow> token list \<times> token list \<times> nat \<times> fingerprint option \<times> 'p option" where
  "visible c = (key_tokens c, draft c, certified_draft_len c, certified_history c, policy_snapshot c)"

definition same_view :: "'p pool \<Rightarrow> 'p pool \<Rightarrow> bool" where
  "same_view s t = (\<forall>k. map_option visible (map_of (pool_entries t) k) = map_option visible (map_of (pool_entries s) k))"

definition epoch_tells :: "'p pool \<Rightarrow> 'p pool \<Rightarrow> bool" where
  "epoch_tells s t = (availability_epoch s \<le> u64_max \<longrightarrow> availability_epoch s \<le> availability_epoch t \<and> availability_epoch t \<le> u64_max
     \<and> (availability_epoch t = availability_epoch s \<longrightarrow> availability_epoch s < u64_max \<longrightarrow> same_view s t))"

lemma epoch_tells_trans: "epoch_tells s t \<Longrightarrow> epoch_tells t u \<Longrightarrow> epoch_tells s u"
  by (auto simp: epoch_tells_def same_view_def)

lemma epoch_tells_same: "pool_entries t = pool_entries s \<Longrightarrow> availability_epoch t = availability_epoch s \<Longrightarrow> epoch_tells s t"
  by (simp add: epoch_tells_def same_view_def)

lemma epoch_tells_bump: "availability_epoch t = sat_add (availability_epoch s) 1 \<Longrightarrow> epoch_tells s t"
  by (auto simp: epoch_tells_def sat_add_def)

text \<open>The proposal a candidate gives.\<close>

definition proposal_of :: "fingerprint \<Rightarrow> nat \<Rightarrow> nat \<Rightarrow> 'p candidate \<Rightarrow> 'p shared_proposal" where
  "proposal_of fp max_draft n c =
     (let d = take max_draft (draft c);
          certified = (if certified_history c = Some fp then min (certified_draft_len c) (length d) else 0)
      in \<lparr>sp_ngram = n, sp_tokens = d, sp_certified_draft_len = certified,
          sp_certified_bonus = (if certified > 0 \<and> certified < length d then Some (d ! certified) else None),
          sp_policy = (if certified > 0 then policy_snapshot c else None)\<rparr>)"

lemma use_candidate_facts:
  fixes fp :: fingerprint and n max_draft :: nat
  assumes i: "pool_ok H cfg s" and it: "permutes_all iter" and m: "map_of (pool_entries s) k = Some c" and d: "0 < max_draft"
  defines "r \<equiv> use_candidate iter fp max_draft k n c s"
  shows "pool_ok H cfg (snd r)" and "length (pool_entries (snd r)) = length (pool_entries s)"
    and "length (pool_ledger (snd r)) \<le> 2 * length (pool_entries (snd r)) + 1024"
    and "fst r = Some (proposal_of fp max_draft n c)" and "same_view s (snd r)" and "availability_epoch (snd r) = availability_epoch s"
proof -
  let ?c = "c\<lparr>cand_id := sat_add (next_id s) 1, last_access := sat_add (access_clock s) 1\<rparr>"
  let ?t = "s\<lparr>access_clock := sat_add (access_clock s) 1, next_id := sat_add (next_id s) 1,
     pool_entries := AList.update k ?c (pool_entries s), pool_ledger := pool_ledger s @ [\<lparr>pl_id = cand_id ?c, pl_key = k\<rparr>]\<rparr>"
  have r: "snd r = compact_pool_ledger iter ?t" by (simp add: r_def use_candidate_def Let_def)
  have x: "pool_core H cfg s" using i by (simp add: pool_ok_def)
  note p = pool_coreD [OF x]
  have core: "pool_core H cfg ?t"
    by (rule core_put [OF x, where k = k and c = ?c]) (use p(4-6) [OF m] in simp_all)
  have len: "length (AList.update k ?c (pool_entries s)) = length (pool_entries s)" by (rule length_update [OF m])
  have "sum_list (map (\<lambda>(k, c). candidate_size c) (AList.update k ?c (pool_entries s))) = sum_list (map (\<lambda>(k, c). candidate_size c) (pool_entries s))"
    using sum_update [OF m p(3), of "\<lambda>(k, c). candidate_size c" ?c] by (simp add: candidate_size_def)
  then have "pool_ok H cfg ?t" using i core len by (simp add: pool_ok_def bytes_exact_def)
  then show "pool_ok H cfg (snd r)" unfolding r by (rule compact_ok [OF _ it])
  show "length (pool_entries (snd r)) = length (pool_entries s)" unfolding r compact_frame using len by simp
  show "length (pool_ledger (snd r)) \<le> 2 * length (pool_entries (snd r)) + 1024"
    unfolding r using compact_ledger_short [OF it, of ?t] by simp
  show "same_view s (snd r)" unfolding r same_view_def by (simp add: update_conv' visible_def m)
  show "availability_epoch (snd r) = availability_epoch s" unfolding r by simp
  have "0 < max_draft_tokens cfg" using p(1) by (auto simp: config_validate_def split: if_splits)
  then have "draft c \<noteq> []" using p(4) [OF m] by (auto simp: stored_def stored_at_def)
  then have "take max_draft (draft c) \<noteq> []" using d by simp
  then show "fst r = Some (proposal_of fp max_draft n c)"
    unfolding r_def use_candidate_def Let_def proposal_of_def by simp
qed

lemma propose_ngrams_facts:
  assumes "pool_ok H cfg s" and it: "permutes_all iter" and d: "0 < max_draft"
    and "pool_propose_ngrams iter now h fp max_draft ns s = (p, t)"
  shows "pool_ok H cfg t \<and> length (pool_entries t) \<le> length (pool_entries s) \<and> length (pool_ledger t) \<le> 2 * length (pool_entries t) + 1024
    \<and> epoch_tells s t
    \<and> (\<forall>x. p = Some x \<longrightarrow> (\<exists>n c. n \<in> set ns \<and> map_of (pool_entries s) (ngram_key_of (drop (length h - n) h)) = Some c
          \<and> key_tokens c = drop (length h - n) h \<and> now < expires_at_ms c \<and> x = proposal_of fp max_draft n c))
    \<and> (p = None \<longrightarrow> sub_pool t s \<and> (\<forall>n c. n \<in> set ns \<longrightarrow> map_of (pool_entries t) (ngram_key_of (drop (length h - n) h)) = Some c
          \<longrightarrow> key_tokens c \<noteq> drop (length h - n) h))"
  using assms(1,4)
proof (induction ns arbitrary: s)
  case Nil
  then have "t = compact_pool_ledger iter s" "p = None" by simp_all
  then show ?case using compact_ok [OF Nil.prems(1) it] compact_ledger_short [OF it, of s] by (simp add: epoch_tells_same sub_pool_def)
next
  case (Cons n ns)
  let ?g = "drop (length h - n) h"
  let ?k = "ngram_key_of ?g"
  have x: "pool_core H cfg s" using Cons.prems(1) by (simp add: pool_ok_def)
  have skip: ?case if u: "pool_ok H cfg u" "length (pool_entries u) \<le> length (pool_entries s)" "epoch_tells s u" "sub_pool u s"
      and e: "pool_propose_ngrams iter now h fp max_draft ns u = (p, t)"
      and k: "\<And>c. map_of (pool_entries u) ?k = Some c \<Longrightarrow> key_tokens c \<noteq> ?g" for u
  proof -
    note ih = Cons.IH [OF u(1) e]
    have "epoch_tells s t" using epoch_tells_trans [OF u(3)] ih by blast
    moreover have "\<exists>n' c. n' \<in> set (n # ns) \<and> map_of (pool_entries s) (ngram_key_of (drop (length h - n') h)) = Some c
          \<and> key_tokens c = drop (length h - n') h \<and> now < expires_at_ms c \<and> x = proposal_of fp max_draft n' c" if px: "p = Some x" for x
    proof -
      obtain n' c where "n' \<in> set ns" "map_of (pool_entries u) (ngram_key_of (drop (length h - n') h)) = Some c"
        "key_tokens c = drop (length h - n') h" "now < expires_at_ms c" "x = proposal_of fp max_draft n' c" using ih px by blast
      then show ?thesis using u(4) unfolding sub_pool_def by (intro exI [of _ n'] exI [of _ c]) simp
    qed
    moreover have "sub_pool t s \<and> (\<forall>n' c. n' \<in> set (n # ns) \<longrightarrow> map_of (pool_entries t) (ngram_key_of (drop (length h - n') h)) = Some c
          \<longrightarrow> key_tokens c \<noteq> drop (length h - n') h)" if pn: "p = None"
    proof -
      have tu: "sub_pool t u" and o': "\<And>n' c. n' \<in> set ns \<Longrightarrow> map_of (pool_entries t) (ngram_key_of (drop (length h - n') h)) = Some c
          \<Longrightarrow> key_tokens c \<noteq> drop (length h - n') h" using ih pn by blast+
      have "key_tokens c \<noteq> ?g" if "map_of (pool_entries t) ?k = Some c" for c
        using tu that k unfolding sub_pool_def by blast
      then show ?thesis using tu u(4) o' unfolding sub_pool_def by auto
    qed
    ultimately show ?thesis using ih le_trans [OF _ u(2)] by blast
  qed
  consider "map_of (pool_entries s) ?k = None"
    | c where "map_of (pool_entries s) ?k = Some c" "expires_at_ms c \<le> now"
    | c where "map_of (pool_entries s) ?k = Some c" "now < expires_at_ms c" "key_tokens c \<noteq> ?g"
    | c where "map_of (pool_entries s) ?k = Some c" "now < expires_at_ms c" "key_tokens c = ?g"
    by (metis not_None_eq not_le)
  then show ?case
  proof cases
    case 1
    then show ?thesis using Cons.prems by (intro skip [of s]) (simp_all add: epoch_tells_same sub_pool_def Let_def)
  next
    case (2 c)
    let ?u = "bump_availability_epoch (remove_entry ?k c s)"
    have "length (pool_entries ?u) \<le> length (pool_entries s)" using remove_length [OF 2(1) x] by simp
    moreover have "epoch_tells s ?u" by (rule epoch_tells_bump) (simp add: bump_availability_epoch_def)
    ultimately show ?thesis using Cons.prems(2) 2
      by (intro skip [of ?u]) (simp_all add: remove_ok [OF Cons.prems(1) 2(1)] sub_pool_def Let_def split: if_splits)
  next
    case (3 c)
    let ?u = "s\<lparr>collision_rejections := sat_add (collision_rejections s) 1\<rparr>"
    have "pool_ok H cfg ?u" using Cons.prems(1) by (simp add: pool_ok_def bytes_exact_def)
    then show ?thesis using Cons.prems(2) 3
      by (intro skip [of ?u]) (simp_all add: epoch_tells_same sub_pool_def Let_def)
  next
    case (4 c)
    then have e: "use_candidate iter fp max_draft ?k n c s = (p, t)" using Cons.prems(2) by (simp add: Let_def)
    note f = use_candidate_facts [OF Cons.prems(1) it 4(1) d, of fp n, unfolded e fst_conv snd_conv]
    have "epoch_tells s t" using f(5,6) by (simp add: epoch_tells_def)
    then show ?thesis using f 4 by auto
  qed
qed

lemma propose_none:
  "\<forall>n \<in> set ns. \<forall>c. map_of (pool_entries s) (ngram_key_of (drop (length h - n) h)) = Some c \<longrightarrow> key_tokens c \<noteq> drop (length h - n) h \<Longrightarrow>
    fst (pool_propose_ngrams iter now h fp max_draft ns s) = None"
proof (induction ns arbitrary: s)
  case (Cons n ns)
  let ?g = "drop (length h - n) h"
  show ?case
  proof (cases "map_of (pool_entries s) (ngram_key_of ?g)")
    case None
    then show ?thesis using Cons by (simp add: Let_def)
  next
    case (Some c)
    then show ?thesis using Cons.prems Cons.IH [of "bump_availability_epoch (remove_entry (ngram_key_of ?g) c s)"]
        Cons.IH [of "s\<lparr>collision_rejections := sat_add (collision_rejections s) 1\<rparr>"]
      by (simp add: Let_def)
  qed
qed simp

lemma propose_finds:
  assumes "pool_ok H cfg s" and it: "permutes_all iter" and d: "0 < max_draft" and "sorted_wrt (>) ns"
    and "\<forall>n \<in> set ns. n \<le> length h" and "n \<in> set ns" and "holds_gram now0 (drop (length h - n) h) s"
    and t: "now < sat_add now0 SHARED_PROMPT_LOOKUP_TTL_MS"
  shows "\<exists>x. fst (pool_propose_ngrams iter now h fp max_draft ns s) = Some x \<and> n \<le> sp_ngram x"
  using assms(1,4-7)
proof (induction ns arbitrary: s)
  case (Cons n' ns)
  let ?g = "drop (length h - n) h" and ?g' = "drop (length h - n') h"
  have len: "length ?g = n" "length ?g' = n'" using Cons.prems(3,4) by auto
  have le: "n \<le> n'" using Cons.prems(2,4) by auto
  have same: "n = n'" if "ngram_key_of ?g = ngram_key_of ?g'" using arg_cong [OF that, of key_len] len by simp
  have held: "\<exists>c. map_of (pool_entries s) (ngram_key_of ?g) = Some c \<and> key_tokens c = ?g \<and> now < expires_at_ms c"
    using Cons.prems(5) t by (auto simp: holds_gram_def)
  show ?case
  proof (cases "map_of (pool_entries s) (ngram_key_of ?g')")
    case None
    then have "n \<in> set ns" using Cons.prems(4) held by auto
    then show ?thesis using Cons None by (simp add: Let_def)
  next
    case (Some c)
    consider "expires_at_ms c \<le> now" | "now < expires_at_ms c" "key_tokens c \<noteq> ?g'" | "now < expires_at_ms c" "key_tokens c = ?g'"
      by (metis not_le)
    then show ?thesis
    proof cases
      case 1
      then have ne: "ngram_key_of ?g \<noteq> ngram_key_of ?g'" using Some held by auto
      let ?u = "bump_availability_epoch (remove_entry (ngram_key_of ?g') c s)"
      have "holds_gram now0 ?g ?u" using Cons.prems(5) ne by (simp add: holds_gram_def)
      moreover have "n \<in> set ns" using Cons.prems(4) ne by auto
      moreover have "pool_ok H cfg ?u" using remove_ok [OF Cons.prems(1) Some] by simp
      ultimately show ?thesis using Cons.IH [of ?u] Cons.prems(2,3) Some 1 by (simp add: Let_def)
    next
      case 2
      let ?u = "s\<lparr>collision_rejections := sat_add (collision_rejections s) 1\<rparr>"
      have "n \<in> set ns" using Cons.prems(4) held Some 2 by auto
      moreover have "pool_ok H cfg ?u" using Cons.prems(1) by (simp add: pool_ok_def bytes_exact_def)
      moreover have "holds_gram now0 ?g ?u" using Cons.prems(5) by (simp add: holds_gram_def)
      ultimately show ?thesis using Cons.IH [of ?u] Cons.prems(2,3) Some 2 by (simp add: Let_def)
    next
      case 3
      then show ?thesis using Some use_candidate_facts(4) [OF Cons.prems(1) it Some d, of fp n'] le
        by (simp add: Let_def proposal_of_def)
    qed
  qed
qed simp

section \<open>The machine\<close>

definition publications :: "'p pool_op list \<Rightarrow> 'p publication set" where
  "publications ops = {(now, h, certs). Publish now h certs \<in> set ops}"

text \<open>Histories are in memory.\<close>

fun pool_op_ok :: "'p pool_op \<Rightarrow> bool" where
  "pool_op_ok (Publish now h certs) = published_ok h"
| "pool_op_ok _ = True"

definition pool_inv :: "'p publication set \<Rightarrow> lookup_config \<Rightarrow> 'p pool \<Rightarrow> bool" where
  "pool_inv H cfg s = (pool_ok H cfg s \<and> bounded_pool cfg s \<and> availability_epoch s \<le> u64_max)"

lemma pool_new_inv: "pool_new cfg = Inr s \<Longrightarrow> pool_inv H cfg s"
  by (auto simp: pool_new_def config_validate_def pool_inv_def pool_ok_def pool_core_def lru_order_def bounded_pool_def bytes_exact_def
      split: if_splits)

lemma pool_step_facts:
  assumes i: "pool_inv H cfg s" and it: "permutes_all iter" and op: "pool_op_ok op" "publications [op] \<subseteq> H"
  shows "pool_inv H cfg (pool_step iter s op) \<and> epoch_tells s (pool_step iter s op)"
proof -
  have ok: "pool_ok H cfg s" and b: "bounded_pool cfg s" and e: "availability_epoch s \<le> u64_max" using i by (simp_all add: pool_inv_def)
  have c: "pool_config s = cfg" using ok by (auto simp: pool_ok_def dest: pool_coreD(2))
  have "pool_ok H cfg t \<and> bounded_pool cfg t \<and> epoch_tells s t" if t: "t = pool_step iter s op" for t
  proof (cases op)
    case (Publish now h certs)
    then have pub: "(now, h, certs) \<in> H" "published_ok h" using op by (auto simp: publications_def)
    obtain res where r: "publish_history_with_mtp_certifications iter now h certs s = (res, t)"
      using t Publish by (metis pool_step.simps(1) prod.collapse)
    note f = publish_facts [OF ok b it pub r]
    have "epoch_tells s t"
    proof (cases "length h > min_ngram cfg \<or> evicted_entries res > 0")
      case True
      then show ?thesis using f by (intro epoch_tells_bump) simp
    next
      case False
      then show ?thesis using f by (intro epoch_tells_same) simp_all
    qed
    then show ?thesis using f by blast
  next
    case (Propose now h fp limit)
    show ?thesis
    proof (cases "min limit (max_draft_tokens cfg) = 0")
      case True
      then have "t = s" using t Propose by (simp add: pool_propose_def c Let_def)
      then show ?thesis using ok b by (simp add: epoch_tells_same)
    next
      case False
      obtain p t' where e: "pool_propose_ngrams iter now h fp (min limit (max_draft_tokens cfg))
          (rev [min_ngram cfg..<min (max_ngram cfg) (length h) + 1]) s = (p, t')" by fastforce
      have "t' = t" unfolding t Propose pool_step.simps pool_propose_def c Let_def if_not_P [OF False] e by simp
      note e = e [unfolded this]
      from propose_ngrams_facts [OF ok it _ e] show ?thesis using False b by (auto simp: bounded_pool_def)
    qed
  next
    case (ReclaimFraction now x y)
    let ?target = "div_ceil (sat_mul (length (pool_entries s)) x) (max y 1)"
    obtain n u where r: "reclaim_to iter ?target now s = (n, u)" by fastforce
    note f = reclaim_to_facts [OF ok it r]
    have tu: "t = (if n > 0 then bump_availability_epoch u else u)" using t ReclaimFraction r by (simp add: reclaim_fraction_def Let_def)
    have "epoch_tells s t"
    proof (cases "n > 0")
      case True
      then show ?thesis using f tu by (intro epoch_tells_bump) (simp add: bump_availability_epoch_def same_fields_def)
    next
      case False
      then show ?thesis using f tu by (intro epoch_tells_same) (simp_all add: same_fields_def)
    qed
    then show ?thesis using f b tu by (auto simp: bounded_pool_def)
  next
    case PoolClear
    let ?u = "s\<lparr>pool_entries := [], pool_ledger := [], payload_bytes := 0\<rparr>"
    have tu: "t = (if length (pool_entries s) > 0 then bump_availability_epoch ?u else ?u)"
      using t PoolClear by (simp add: pool_clear_def Let_def)
    have x: "pool_core H cfg s" using ok by (simp add: pool_ok_def)
    have "pool_core H cfg ?u" by (rule core_shrink [OF x]) simp_all
    then have "pool_ok H cfg ?u \<and> bounded_pool cfg ?u" by (simp add: pool_ok_def bytes_exact_def bounded_pool_def)
    moreover have "epoch_tells s t"
    proof (cases "pool_entries s = []")
      case True
      then show ?thesis using tu by (intro epoch_tells_same) simp_all
    next
      case False
      then show ?thesis using tu by (intro epoch_tells_bump) (simp add: bump_availability_epoch_def)
    qed
    ultimately show ?thesis unfolding tu by (auto simp: bounded_pool_def)
  qed
  then show ?thesis using e by (simp add: pool_inv_def epoch_tells_def)
qed

interpretation shared: invariant_machine "pool_step iter" "\<lambda>_ op. permutes_all iter \<and> pool_op_ok op \<and> publications [op] \<subseteq> H" "pool_inv H cfg" for iter H cfg
  by unfold_locales (use pool_step_facts in blast)

lemma pool_run_ok:
  assumes "permutes_all iter" and "list_all pool_op_ok ops" and "publications ops \<subseteq> H"
  shows "run_ok (pool_step iter) (\<lambda>_ op. permutes_all iter \<and> pool_op_ok op \<and> publications [op] \<subseteq> H) s ops"
  using assms(2,3) by (induction ops arbitrary: s) (auto simp: assms(1) publications_def)

lemma pool_run:
  assumes "permutes_all iter" and "pool_new cfg = Inr s0" and "list_all pool_op_ok ops"
  shows "pool_inv (publications ops) cfg (run_ops (pool_step iter) s0 ops)"
  using pool_new_inv [OF assms(2)] pool_run_ok [OF assms(1,3) subset_refl] by (rule shared.run_inv)

lemma run_epoch_tells:
  assumes "pool_inv H cfg s" and it: "permutes_all iter" and "list_all pool_op_ok ops" and "publications ops \<subseteq> H"
  shows "epoch_tells s (run_ops (pool_step iter) s ops)"
  using assms(1,3,4)
proof (induction ops arbitrary: s)
  case Nil
  then show ?case by (simp add: epoch_tells_same)
next
  case (Cons op ops)
  have "publications [op] \<subseteq> H" "publications ops \<subseteq> H" "pool_op_ok op" "list_all pool_op_ok ops"
    using Cons.prems by (auto simp: publications_def)
  note f = pool_step_facts [OF Cons.prems(1) it this(3,1)]
  show ?case using epoch_tells_trans [OF conjunct2 [OF f] Cons.IH [OF conjunct1 [OF f]]] Cons.prems \<open>publications ops \<subseteq> H\<close> by simp
qed

end
