(* ===== verification/SharedPoolProperties.thy ===== *)
theory SharedPoolProperties
  imports SharedPoolUse
begin

text \<open>
  What \<open>SharedPromptLookupPool\<close> (\<open>ironmlx/src/core/prompt_lookup.rs\<close>) promises the scheduler, for every sequence of
  publications, queries, reclaims and clears, at any clock readings.
\<close>

section \<open>Bounds\<close>

text \<open>
  Between operations the pool holds at most \<open>max_index_entries\<close> candidates and a ledger of at most twice as many
  plus 1024 entries; keys are distinct and belong to their tokens; n-grams and drafts have lengths within the
  configuration; and the payload counter is exact, provided the configured limits fit into 64 bits.
\<close>

theorem shared_pool_bounded:
  assumes "permutes_all iter" and "pool_new cfg = Inr s0" and "list_all pool_op_ok ops" and "s = run_ops (pool_step iter) s0 ops"
  shows "length (pool_entries s) \<le> max_index_entries cfg \<and> length (pool_ledger s) \<le> 2 * length (pool_entries s) + 1024
    \<and> distinct (map fst (pool_entries s))
    \<and> list_all (\<lambda>(k, c). k = ngram_key_of (key_tokens c) \<and> min_ngram cfg \<le> length (key_tokens c) \<and> length (key_tokens c) \<le> max_ngram cfg
         \<and> draft c \<noteq> [] \<and> length (draft c) \<le> max_draft_tokens cfg) (pool_entries s)
    \<and> ((max_index_entries cfg + 1024 * (max_ngram cfg + 1 - min_ngram cfg)) * (4 * (max_ngram cfg + max_draft_tokens cfg)) \<le> u64_max
         \<longrightarrow> payload_bytes s = sum_list (map (\<lambda>(k, c). 4 * (length (key_tokens c) + length (draft c))) (pool_entries s)))"
proof -
  have i: "pool_inv (publications ops) cfg s" unfolding assms(4) by (rule pool_run [OF assms(1-3)])
  then have x: "pool_core (publications ops) cfg s" by (simp add: pool_inv_def pool_ok_def)
  have d: "0 < max_draft_tokens cfg" using pool_coreD(1) [OF x] by (auto simp: config_validate_def split: if_splits)
  have "k = ngram_key_of (key_tokens c) \<and> min_ngram cfg \<le> length (key_tokens c) \<and> length (key_tokens c) \<le> max_ngram cfg
         \<and> draft c \<noteq> [] \<and> length (draft c) \<le> max_draft_tokens cfg" if "(k, c) \<in> set (pool_entries s)" for k c
  proof -
    have m: "map_of (pool_entries s) k = Some c" using that pool_coreD(3) [OF x] by simp
    show ?thesis using pool_coreD(4,6) [OF x m] d by (auto simp: stored_def stored_at_def gram_length)
  qed
  then show ?thesis using i pool_coreD(3) [OF x]
    by (auto simp: pool_inv_def bounded_pool_def list_all_iff pool_ok_def limits_fit_def entries_limit_def grams_per_token_def candidate_limit_def
        bytes_exact_def candidate_size_def)
qed

section \<open>Proposals\<close>

text \<open>
  C16: a proposal made from the history \<open>h\<close> repeats what followed the last \<open>n\<close> tokens of \<open>h\<close> at some place of a published
  history, is not empty and within the limits, and that n-gram was published within the last hour. If the
  fingerprint of the query is that of the published history up to that place, exactly the longest certificate for
  the place says how much of the proposal is certified, cut at the end of the proposal, and the policy is that
  certificate's; otherwise nothing is certified.
\<close>

theorem shared_proposals_sound:
  assumes "permutes_all iter" and "pool_new cfg = Inr s0" and "list_all pool_op_ok ops"
    and "fst (pool_propose iter now h fp limit (run_ops (pool_step iter) s0 ops)) = Some x"
  shows "min_ngram cfg \<le> sp_ngram x \<and> sp_ngram x \<le> max_ngram cfg \<and> sp_ngram x \<le> length h \<and> sp_tokens x \<noteq> []
    \<and> (\<exists>(t0, h0, certs) \<in> publications ops. \<exists>m < length h0. sp_ngram x \<le> m \<and> gram h0 m (sp_ngram x) = gram h (length h) (sp_ngram x)
         \<and> sp_tokens x = take (min limit (max_draft_tokens cfg)) (drop m h0)
         \<and> sp_certified_draft_len x = (if fp = fingerprint_of (take m h0) then min (longest_certificate certs m) (length (sp_tokens x)) else 0)
         \<and> (0 < sp_certified_draft_len x \<longrightarrow> (\<exists>cert \<in> set certs. cert_continuation cert = m
              \<and> cert_draft_len cert = longest_certificate certs m \<and> sp_policy x = Some (cert_policy cert))))
    \<and> (\<exists>(t1, h1, certs) \<in> publications ops. now < sat_add t1 SHARED_PROMPT_LOOKUP_TTL_MS
         \<and> (\<exists>m < length h1. sp_ngram x \<le> m \<and> gram h1 m (sp_ngram x) = gram h (length h) (sp_ngram x)))"
proof -
  let ?s = "run_ops (pool_step iter) s0 ops" and ?H = "publications ops"
  let ?d = "min limit (max_draft_tokens cfg)" and ?ns = "rev [min_ngram cfg..<min (max_ngram cfg) (length h) + 1]"
  have ok: "pool_ok ?H cfg ?s" using pool_run [OF assms(1-3)] by (simp add: pool_inv_def)
  then have y: "pool_core ?H cfg ?s" by (simp add: pool_ok_def)
  note c = pool_coreD(2) [OF y]
  have d: "0 < ?d" and e: "fst (pool_propose_ngrams iter now h fp ?d ?ns ?s) = Some x"
    using assms(4) by (auto simp: pool_propose_def c Let_def split: if_splits)
  obtain t where "pool_propose_ngrams iter now h fp ?d ?ns ?s = (Some x, t)" using e by (cases "pool_propose_ngrams iter now h fp ?d ?ns ?s") simp
  from propose_ngrams_facts [OF ok assms(1) d this] obtain n k
    where n: "n \<in> set ?ns" and m: "map_of (pool_entries ?s) (ngram_key_of (drop (length h - n) h)) = Some k"
      and k: "key_tokens k = drop (length h - n) h" "now < expires_at_ms k" and xp: "x = proposal_of fp ?d n k" by auto
  have n': "min_ngram cfg \<le> n" "n \<le> max_ngram cfg" "n \<le> length h" using n by auto
  have g: "gram h (length h) n = key_tokens k" using gram_suffix [OF n'(3)] k(1) by simp
  have lk: "length (key_tokens k) = n" using k(1) n'(3) by simp
  obtain t0 h0 certs l n0 where p: "(t0, h0, certs) \<in> ?H" and st: "stored_at cfg h0 certs l n0 k"
    using pool_coreD(4) [OF y m] by (auto simp: stored_def)
  have "n0 = n" using st lk by (auto simp: stored_at_def gram_length)
  note st = st [unfolded this stored_at_def]
  obtain t1 h1 certs1 where r: "(t1, h1, certs1) \<in> ?H" "expires_at_ms k = sat_add t1 SHARED_PROMPT_LOOKUP_TTL_MS"
    "\<exists>m < length h1. n \<le> m \<and> gram h1 m n = key_tokens k" using pool_coreD(5) [OF y m] by (auto simp: renewed_def lk)
  have xs: "sp_ngram x = n" "sp_tokens x = take ?d (draft k)"
    "sp_certified_draft_len x = (if certified_history k = Some fp then min (certified_draft_len k) (length (take ?d (draft k))) else 0)"
    "0 < sp_certified_draft_len x \<Longrightarrow> sp_policy x = policy_snapshot k"
    unfolding xp proposal_of_def Let_def by simp_all
  have tk: "take ?d (draft k) = take ?d (drop l h0)" using st by (simp add: min.commute)
  have ne: "sp_tokens x \<noteq> []" using xs(2) tk st d by auto
  have certified: "sp_certified_draft_len x = (if fp = fingerprint_of (take l h0) then min (longest_certificate certs l) (length (sp_tokens x)) else 0)"
  proof (cases "certified_draft_len k = 0")
    case True
    moreover have "certified_draft_len k = min (longest_certificate certs l) (length (draft k))" using st by blast
    moreover have "0 < length (draft k)" using ne xs(2) by auto
    ultimately have "longest_certificate certs l = 0" by linarith
    then show ?thesis using xs(3) True by simp
  next
    case False
    then have "certified_history k = Some (fingerprint_of (take l h0))" using st by blast
    moreover have "certified_draft_len k = min (longest_certificate certs l) (length (draft k))" using st by blast
    ultimately show ?thesis unfolding xs(2,3) by (simp add: min.left_commute min.commute)
  qed
  have policy: "\<exists>cert \<in> set certs. cert_continuation cert = l \<and> cert_draft_len cert = longest_certificate certs l \<and> sp_policy x = Some (cert_policy cert)"
    if "0 < sp_certified_draft_len x"
  proof -
    have "0 < certified_draft_len k" using that xs(3) by (auto split: if_splits)
    then obtain cert where "cert \<in> set certs" "cert_continuation cert = l" "cert_draft_len cert = longest_certificate certs l"
      "policy_snapshot k = Some (cert_policy cert)" using st by blast
    then show ?thesis using xs(4) [OF that] by (intro bexI [of _ cert]) simp_all
  qed
  have A: "\<exists>m < length h0. n \<le> m \<and> gram h0 m n = key_tokens k \<and> sp_tokens x = take ?d (drop m h0)
      \<and> sp_certified_draft_len x = (if fp = fingerprint_of (take m h0) then min (longest_certificate certs m) (length (sp_tokens x)) else 0)
      \<and> (0 < sp_certified_draft_len x \<longrightarrow> (\<exists>cert \<in> set certs. cert_continuation cert = m
          \<and> cert_draft_len cert = longest_certificate certs m \<and> sp_policy x = Some (cert_policy cert)))"
    using st xs(2) tk certified policy by (intro exI [of _ l]) simp
  have B: "now < sat_add t1 SHARED_PROMPT_LOOKUP_TTL_MS \<and> (\<exists>m < length h1. n \<le> m \<and> gram h1 m n = key_tokens k)" using r k(2) by simp
  show ?thesis unfolding xs(1) g
    by (intro conjI n' ne bexI [OF _ p] bexI [OF _ r(1)]) (use A B in simp_all)
qed


section \<open>Reclaiming\<close>

text \<open>
  C22: \<open>reclaim_fraction\<close> leaves at most the requested share of the entries, invents none, keeps nothing that has expired, and
  drops an entry that has not expired only if it was used before every entry it keeps.
\<close>

theorem reclaim_keeps_recent:
  assumes "permutes_all iter" and "pool_new cfg = Inr s0" and "list_all pool_op_ok ops" and "s = run_ops (pool_step iter) s0 ops"
    and "access_clock s + 1 < u64_max" and "reclaim_fraction iter now numerator denominator s = (n, t)"
  shows "length (pool_entries t) \<le> div_ceil (sat_mul (length (pool_entries s)) numerator) (max denominator 1)
    \<and> (\<forall>k c. map_of (pool_entries t) k = Some c \<longrightarrow> map_of (pool_entries s) k = Some c \<and> now < expires_at_ms c)
    \<and> (\<forall>k c k' c'. map_of (pool_entries s) k = Some c \<longrightarrow> now < expires_at_ms c \<longrightarrow> map_of (pool_entries t) k = None \<longrightarrow>
         map_of (pool_entries t) k' = Some c' \<longrightarrow> last_access c < last_access c')"
proof -
  let ?H = "publications ops"
  have ok: "pool_ok ?H cfg s" using pool_run [OF assms(1-3)] unfolding assms(4) by (simp add: pool_inv_def)
  then have x: "pool_core ?H cfg s" by (simp add: pool_ok_def)
  let ?target = "div_ceil (sat_mul (length (pool_entries s)) numerator) (max denominator 1)"
  obtain e u where r: "reclaim_to iter ?target now s = (e, u)" by fastforce
  note f = reclaim_to_facts [OF ok assms(1) r]
  have t: "pool_entries t = pool_entries u" using assms(6) r by (auto simp: reclaim_fraction_def Let_def split: if_splits)
  have clk: "clock_ok s" using assms(5) by (simp add: clock_ok_def)
  then have id': "cand_id c = last_access c + 1" if "map_of (pool_entries s) k = Some c" for k c
    using pool_coreD(8) [OF x] that by (auto simp: lru_order_def)
  have sub: "map_of (pool_entries s) k = Some c \<and> now < expires_at_ms c" if "map_of (pool_entries u) k = Some c" for k c
    using f that by blast
  have "last_access c < last_access c'" if "map_of (pool_entries s) k = Some c" "now < expires_at_ms c" "map_of (pool_entries u) k = None"
    "map_of (pool_entries u) k' = Some c'" for k c k' c'
  proof -
    have "cand_id c < cand_id c'" using f clk that by blast
    then show ?thesis using id' [OF that(1)] id' [of k' c'] sub [OF that(4)] by simp
  qed
  then show ?thesis using f sub unfolding t by blast
qed

section \<open>The availability epoch\<close>

text \<open>
  The epoch that callers compare before they ask again is sound: while it has not moved (and not saturated), a
  query that found nothing still finds nothing, at any time and with any limit.
\<close>

theorem epoch_gates_queries:
  assumes "permutes_all iter" and "pool_new cfg = Inr s0" and "list_all pool_op_ok (ops @ ops')"
    and "pool_propose iter now h fp limit (run_ops (pool_step iter) s0 ops) = (None, s)" and "0 < limit"
    and "t = run_ops (pool_step iter) s ops'" and "availability_epoch t = availability_epoch s" and "availability_epoch s < u64_max"
  shows "fst (pool_propose iter now' h fp' limit' t) = None"
proof -
  let ?all = "ops @ [Propose now h fp limit] @ ops'"
  let ?H = "publications ?all"
  have oks: "list_all pool_op_ok (ops @ [Propose now h fp limit])" "list_all pool_op_ok ops'" using assms(3) by simp_all
  have s: "s = run_ops (pool_step iter) s0 (ops @ [Propose now h fp limit])" using assms(4) by (simp add: run_ops_append)
  have i0: "pool_inv ?H cfg (run_ops (pool_step iter) s0 ops)"
    by (rule shared.run_inv [OF pool_new_inv [OF assms(2)] pool_run_ok [OF assms(1)]]) (use oks in \<open>auto simp: publications_def\<close>)
  have i: "pool_inv ?H cfg s" unfolding s
    by (rule shared.run_inv [OF pool_new_inv [OF assms(2)] pool_run_ok [OF assms(1) oks(1)]]) (auto simp: publications_def)
  have sub: "publications ops' \<subseteq> ?H" by (auto simp: publications_def)
  have it: "pool_inv ?H cfg t" unfolding assms(6)
    by (rule shared.run_inv [OF i pool_run_ok [OF assms(1) oks(2) sub]])
  have c: "pool_config (run_ops (pool_step iter) s0 ops) = cfg" "pool_config t = cfg"
    using i0 it by (auto simp: pool_inv_def pool_ok_def dest: pool_coreD(2))
  have dpos: "0 < max_draft_tokens cfg" using it by (auto simp: pool_inv_def pool_ok_def config_validate_def dest: pool_coreD(1) split: if_splits)
  have view: "same_view s t"
    using run_epoch_tells [OF i assms(1) oks(2) sub] assms(7,8) unfolding assms(6) [symmetric] by (simp add: epoch_tells_def)
  let ?ns = "rev [min_ngram cfg..<min (max_ngram cfg) (length h) + 1]" and ?d = "min limit (max_draft_tokens cfg)"
  have d: "0 < ?d" using assms(5) dpos by simp
  have "pool_propose_ngrams iter now h fp ?d ?ns (run_ops (pool_step iter) s0 ops) = (None, s)"
    using assms(4) d by (simp add: pool_propose_def c Let_def)
  from propose_ngrams_facts [OF _ assms(1) d this] i0
  have none: "key_tokens k \<noteq> drop (length h - n) h" if "n \<in> set ?ns" "map_of (pool_entries s) (ngram_key_of (drop (length h - n) h)) = Some k" for n k
    using that unfolding pool_inv_def by blast
  have "\<forall>n \<in> set ?ns. \<forall>k. map_of (pool_entries t) (ngram_key_of (drop (length h - n) h)) = Some k \<longrightarrow> key_tokens k \<noteq> drop (length h - n) h"
  proof (intro ballI allI impI)
    fix n k assume n: "n \<in> set ?ns" and k: "map_of (pool_entries t) (ngram_key_of (drop (length h - n) h)) = Some k"
    have "map_option visible (map_of (pool_entries s) (ngram_key_of (drop (length h - n) h))) = Some (visible k)"
      using view [unfolded same_view_def, THEN spec, of "ngram_key_of (drop (length h - n) h)"] unfolding k by simp
    then obtain k' where "map_of (pool_entries s) (ngram_key_of (drop (length h - n) h)) = Some k'" "visible k' = visible k" by auto
    then show "key_tokens k \<noteq> drop (length h - n) h" using none [OF n, of k'] by (simp add: visible_def)
  qed
  from propose_none [OF this] show ?thesis by (simp add: pool_propose_def c Let_def)
qed

section \<open>Witnesses\<close>

definition small_config :: lookup_config where
  "small_config = \<lparr>min_ngram = 1, max_ngram = 1, max_draft_tokens = 4, history_window_tokens = 4,
     max_index_entries = 4, cross_request = True\<rparr>"

definition small_pool :: "nat pool" where
  "small_pool = \<lparr>pool_config = small_config, pool_entries = [], pool_ledger = [], payload_bytes = 0, next_id = 1,
     access_clock = 0, entries_peak = 0, collision_rejections = 0, availability_epoch = 0\<rparr>"

lemma small_pool_new: "pool_new small_config = Inr small_pool"
  by (simp add: pool_new_def config_validate_def small_config_def small_pool_def)

lemma iter_id: "permutes_all id"
  by (simp add: permutes_all_def)

lemma reclaim_loop_stop: "length (pool_entries s) \<le> target \<Longrightarrow> reclaim_loop target e s = (e, s)"
  by (subst reclaim_loop.simps) simp

lemma small_publication:
  "(let (res, t) = publish_history_with_mtp_certifications id 0 [1, 2] [] small_pool
    in (evicted_entries res, collision_rejections t, access_clock t, map_option sp_tokens (fst (pool_propose id 5 [3, 1] fingerprint_new 2 t))))
   = (0, 0, 1, Some [2])"
proof -
  have r: "[0..<2] = [0, Suc 0]" "[Suc 0..<2] = [Suc 0]" "[0..<Suc (Suc 0)] = [0, Suc 0]" by code_simp+
  have g: "gram [1, 2] (Suc 0) (Suc 0) = [1 :: token]" by (simp add: gram_def)
  show ?thesis
    by (simp add: publish_history_with_mtp_certifications_def prune_expired_def small_pool_def small_config_def publish_step_def
        insert_gram_def pool_insert_def candidate_of_def payload_at_def g r sat_add_def u64_max_def certifications_by_continuation_def
        reclaim_to_def reclaim_lru_to_def reclaim_loop_stop compact_pool_ledger_def refresh_entries_peak_def bump_availability_epoch_def
        sat_mul_def pool_propose_def use_candidate_def Let_def SHARED_PROMPT_LOOKUP_TTL_MS_def)
qed

lemma small_steps: "list_all pool_op_ok [Publish 0 [1, 2] []]"
  by (simp add: published_ok_def u64_max_def)

theorem shared_pool_bounded_witness:
  "length (pool_entries (run_ops (pool_step id) small_pool [Publish 0 [1, 2] []])) \<le> 4"
proof -
  have "length (pool_entries (run_ops (pool_step id) small_pool [Publish 0 [1, 2] []])) \<le> max_index_entries small_config"
    using shared_pool_bounded [OF iter_id small_pool_new small_steps refl] by blast
  then show ?thesis by (simp add: small_config_def del: run_ops_simps)
qed

theorem shared_proposals_sound_witness:
  "\<exists>x. fst (pool_propose id 5 [3, 1] fingerprint_new 2 (run_ops (pool_step id) small_pool [Publish 0 [1, 2] []])) = Some x
     \<and> 5 < sat_add 0 SHARED_PROMPT_LOOKUP_TTL_MS \<and> sp_tokens x \<noteq> []"
proof -
  let ?s = "run_ops (pool_step id) small_pool [Publish 0 [1, 2] []]"
  obtain x where x: "fst (pool_propose id 5 [3, 1] fingerprint_new 2 ?s) = Some x"
    using small_publication by (auto simp: Let_def case_prod_unfold)
  from shared_proposals_sound [OF iter_id small_pool_new small_steps x] x show ?thesis
    by (auto simp: publications_def simp del: run_ops_simps)
qed


theorem reclaim_keeps_recent_witness:
  "length (pool_entries (snd (reclaim_fraction id 5 1 2 (run_ops (pool_step id) small_pool [Publish 0 [1, 2] []])))) \<le> 2"
proof -
  let ?s = "run_ops (pool_step id) small_pool [Publish 0 [1, 2] []]"
  have a: "access_clock ?s + 1 < u64_max" using small_publication by (auto simp: Let_def case_prod_unfold u64_max_def)
  have "length (pool_entries ?s) \<le> max_index_entries small_config"
    using pool_run [OF iter_id small_pool_new small_steps] by (simp add: pool_inv_def bounded_pool_def del: run_ops_simps)
  then have l: "length (pool_entries ?s) \<le> 4" by (simp add: small_config_def del: run_ops_simps)
  have "div_ceil (sat_mul n 1) (max 2 1) \<le> 2" if "n \<le> 4" for n
    using that by (cases n rule: nat.exhaust) (auto simp: sat_mul_def u64_max_def div_ceil_def, presburger+)
  from order_trans [OF conjunct1 [OF reclaim_keeps_recent [OF iter_id small_pool_new small_steps refl a prod.collapse [symmetric]]] this [OF l]]
  show ?thesis .
qed

theorem epoch_gates_queries_witness:
  "fst (pool_propose id 9 [1] fingerprint_new 1 (run_ops (pool_step id) small_pool [ReclaimFraction 3 1 2])) = None"
proof -
  have p: "pool_propose id 1 [1] fingerprint_new 2 (run_ops (pool_step id) small_pool []) = (None, small_pool)"
    by (simp add: pool_propose_def small_pool_def small_config_def Let_def compact_pool_ledger_def)
  have e: "availability_epoch (run_ops (pool_step id) small_pool [ReclaimFraction 3 1 2]) = availability_epoch small_pool"
    by code_simp
  show ?thesis
    by (rule epoch_gates_queries [OF iter_id small_pool_new _ p _ refl e]) (simp_all add: small_pool_def u64_max_def)
qed

end
