(* ===== verification/PagedKv.thy ===== *)
theory PagedKv
  imports Prelude "HOL-Library.AList"
begin

text \<open>
  \<open>ironmlx/src/core/cache/paged_kv.rs\<close>, \<open>PagedKVCache\<close> without the hot/cold tier: fixed-size pages of
  keys and values shared between owners by reference counts.

  A page is the list of its \<open>block_size\<close> token cells; a cell \<open>'c\<close> stands for the column of one token
  across heads and dimensions. \<open>i32\<close> quantities are \<open>int\<close> (page \<open>-1\<close> is "no page"); they stay below
  \<open>max_pages\<close> and \<open>cap + block_size\<close>, which is where the code's arithmetic does not wrap.
  \<open>row_offsets\<close> is the \<open>offsets\<close> vector that \<open>KVCache\<close> owns and passes to every call. The \<open>mlx\<close> tensor
  library is a parameter: \<open>dev_ok n\<close> says whether the \<open>n\<close>-th tensor operation succeeds (\<open>ticks\<close>
  counts them), \<open>zero_cell\<close> is the cell of a zeroed tensor. Hash maps are association lists.
\<close>

section \<open>Data\<close>

datatype block_owner = Request nat | Immutable nat | Transient nat

record block_handle =
  block_index :: int
  handle_page :: int
  generation :: nat

record owned_table =
  blocks :: "int list"
  offset :: int

record kv_layout =
  n_kv_heads :: int
  head_dim :: int
  v_head_dim :: int
  dtype :: nat

record kv_observability =
  cow_page_copies :: nat
  adopt_page_copies :: nat
  owner_forks :: nat
  forked_page_references :: nat
  owner_releases :: nat

definition observability_zero :: kv_observability where
  "observability_zero = \<lparr>cow_page_copies = 0, adopt_page_copies = 0, owner_forks = 0,
     forked_page_references = 0, owner_releases = 0\<rparr>"

record 'c paged_kv =
  k_pages :: "'c list list option"
  v_pages :: "'c list list option"
  block_tables :: "int list list"
  execution_owners :: "block_owner list"
  owned_tables :: "(block_owner \<times> owned_table) list"
  immutable_pins :: "(nat \<times> block_handle) list"
  next_transient_owner :: nat
  free_pages :: "int list"
  page_ref_counts :: "int list"
  page_generations :: "nat list"
  allocated_pages :: int
  page_capacity :: int
  max_pages :: int
  max_blocks_per_row :: int
  batch :: int
  layout :: kv_layout
  cap :: int
  block_size :: int
  page_grow_step :: int
  observability :: kv_observability
  row_offsets :: "int list"
  ticks :: nat

record 'c kv_device =
  dev_ok :: "nat \<Rightarrow> bool"
  zero_cell :: 'c

datatype kv_error =
    BadArgument | BadOffsets | CapExceeded | DuplicateOwner | OwnerAbsent | OwnerNotEmpty | SameOwner
  | WrongOwnerKind | BadBlockIndex | PinExists | PinAbsent | PinMismatch | NotSealed | NoLivePage
  | RefcountOverflow | HandlePageRange | HandleFree | HandleGeneration | LayoutMismatch | ShapeMismatch
  | PagesExhausted | CapacityExceeded | MissingPage | ReleasedPage | TableTooNarrow | DeviceError
  | InvariantBroken | DivisionByZero

type_synonym ('c, 'a) kv_result = "(kv_error, 'c paged_kv, 'a) outcome"

section \<open>Arithmetic and vectors\<close>

definition ceil_div :: "int \<Rightarrow> int \<Rightarrow> int" where
  "ceil_div n d = (if n \<le> 0 then 0 else (n + d - 1) div d)"

definition round_up :: "int \<Rightarrow> int \<Rightarrow> int" where
  "round_up n step = (if n \<le> 0 then 0 else (n + step - 1) div step * step)"

definition resize :: "'a list \<Rightarrow> nat \<Rightarrow> 'a \<Rightarrow> 'a list" where
  "resize xs n v = (if length xs < n then xs @ replicate (n - length xs) v else take n xs)"

definition empty_table :: "'c paged_kv \<Rightarrow> owned_table" where
  "empty_table s = \<lparr>blocks = replicate (nat (max_blocks_per_row s)) (- 1), offset = 0\<rparr>"

section \<open>Construction\<close>

definition kv_new ::
  "int \<Rightarrow> int \<Rightarrow> int \<Rightarrow> int \<Rightarrow> nat \<Rightarrow> int \<Rightarrow> int \<Rightarrow> int \<Rightarrow> kv_error + 'c paged_kv" where
  "kv_new bat heads kd vd dt c bs mp =
     (if bat \<le> 0 then Inl BadArgument
      else if heads \<le> 0 then Inl BadArgument
      else if kd \<le> 0 \<or> vd \<le> 0 then Inl BadArgument
      else if kd \<noteq> vd then Inl BadArgument
      else if c < 0 then Inl BadArgument
      else if bs \<le> 0 then Inl BadArgument
      else if mp \<le> 0 then Inl BadArgument
      else
        (let width = max (ceil_div c bs) 1;
             row = replicate (nat width) (- 1);
             owners = map (\<lambda>i. Transient i) [0..<nat bat]
         in Inr \<lparr>k_pages = None, v_pages = None, block_tables = replicate (nat bat) row,
              execution_owners = owners, owned_tables = map (\<lambda>o'. (o', \<lparr>blocks = row, offset = 0\<rparr>)) owners,
              immutable_pins = [], next_transient_owner = nat bat, free_pages = [], page_ref_counts = [],
              page_generations = [], allocated_pages = 0, page_capacity = 0, max_pages = mp,
              max_blocks_per_row = width, batch = bat,
              layout = \<lparr>n_kv_heads = heads, head_dim = kd, v_head_dim = vd, dtype = dt\<rparr>,
              cap = c, block_size = bs, page_grow_step = 64, observability = observability_zero,
              row_offsets = replicate (nat bat) 0, ticks = 0\<rparr>))"

section \<open>Reference counts and allocation\<close>

definition page_ref_count :: "'c paged_kv \<Rightarrow> int \<Rightarrow> int" where
  "page_ref_count s p =
     (if 0 \<le> p \<and> nat p < length (page_ref_counts s) then page_ref_counts s ! nat p else 0)"

definition page_generation :: "'c paged_kv \<Rightarrow> int \<Rightarrow> nat" where
  "page_generation s p =
     (if 0 \<le> p \<and> nat p < length (page_generations s) then page_generations s ! nat p else 0)"

definition has_live_pages :: "'c paged_kv \<Rightarrow> bool" where
  "has_live_pages s = list_ex (\<lambda>c. c > 0) (take (nat (allocated_pages s)) (page_ref_counts s))"

definition set_page_ref_count :: "int \<Rightarrow> int \<Rightarrow> 'c paged_kv \<Rightarrow> 'c paged_kv" where
  "set_page_ref_count p n s =
     (let counts = (if length (page_ref_counts s) < nat p + 1
                    then resize (page_ref_counts s) (nat p + 1) 0 else page_ref_counts s)
      in s\<lparr>page_ref_counts := counts[nat p := n]\<rparr>)"

definition release_page_ref :: "int \<Rightarrow> 'c paged_kv \<Rightarrow> 'c paged_kv" where
  "release_page_ref p s =
     (if \<not> (0 \<le> p \<and> nat p < length (page_ref_counts s)) then s
      else if page_ref_counts s ! nat p \<le> 0 then s
      else
        (let n = page_ref_counts s ! nat p - 1;
             s = s\<lparr>page_ref_counts := (page_ref_counts s)[nat p := n]\<rparr>
         in if n = 0 then s\<lparr>free_pages := free_pages s @ [p]\<rparr> else s))"

definition add_page_ref :: "int \<Rightarrow> 'c paged_kv \<Rightarrow> 'c paged_kv" where
  "add_page_ref p s = s\<lparr>page_ref_counts := (page_ref_counts s)[nat p := page_ref_counts s ! nat p + 1]\<rparr>"

text \<open>One fallible operation of the tensor library.\<close>

definition tensor_op :: "'c kv_device \<Rightarrow> 'c paged_kv \<Rightarrow> ('c, unit) kv_result" where
  "tensor_op dev s = (if dev_ok dev (ticks s) then Inr () else Inl DeviceError, s\<lparr>ticks := ticks s + 1\<rparr>)"

definition grow_page_tensor :: "'c kv_device \<Rightarrow> int \<Rightarrow> int \<Rightarrow> int \<Rightarrow> 'c list list option \<Rightarrow> 'c list list" where
  "grow_page_tensor dev bs keep new_capacity old =
     (let zeros = (\<lambda>n. replicate (nat n) (replicate (nat bs) (zero_cell dev))) in
      case old of
        None \<Rightarrow> zeros new_capacity
      | Some ps \<Rightarrow> if keep = 0 then zeros new_capacity else take (nat keep) ps @ zeros (new_capacity - keep))"

text \<open>Both tensors and both vectors grow together, once both tensors have been built.\<close>

definition grow_storage :: "'c kv_device \<Rightarrow> int \<Rightarrow> 'c paged_kv \<Rightarrow> 'c paged_kv" where
  "grow_storage dev target s =
     (let keep = min (allocated_pages s) (page_capacity s) in
      s\<lparr>k_pages := Some (grow_page_tensor dev (block_size s) keep target (k_pages s)),
        v_pages := Some (grow_page_tensor dev (block_size s) keep target (v_pages s)),
        page_capacity := target,
        page_ref_counts := (if length (page_ref_counts s) < nat target
                            then resize (page_ref_counts s) (nat target) 0 else page_ref_counts s),
        page_generations := (if length (page_generations s) < nat target
                             then resize (page_generations s) (nat target) 0 else page_generations s)\<rparr>)"

definition ensure_page_capacity :: "'c kv_device \<Rightarrow> int \<Rightarrow> 'c paged_kv \<Rightarrow> ('c, unit) kv_result" where
  "ensure_page_capacity dev needed s =
     (if needed \<le> page_capacity s then (Inr (), s)
      else if needed > max_pages s then (Inl CapacityExceeded, s)
      else andthen (tensor_op dev s) (\<lambda>_ s. andthen (tensor_op dev s) (\<lambda>_ s.
        (Inr (), grow_storage dev (min (round_up needed (page_grow_step s)) (max_pages s)) s))))"

definition take_page :: "'c paged_kv \<Rightarrow> ('c, int) kv_result" where
  "take_page s =
     (if free_pages s \<noteq> [] then (Inr (last (free_pages s)), s\<lparr>free_pages := butlast (free_pages s)\<rparr>)
      else if allocated_pages s \<ge> max_pages s then (Inl PagesExhausted, s)
      else (Inr (allocated_pages s), s\<lparr>allocated_pages := allocated_pages s + 1\<rparr>))"

definition bump_generation :: "int \<Rightarrow> 'c paged_kv \<Rightarrow> 'c paged_kv" where
  "bump_generation p s =
     (let gens = (if length (page_generations s) < nat p + 1
                  then resize (page_generations s) (nat p + 1) 0 else page_generations s)
      in s\<lparr>page_generations := gens[nat p := max (sat_add (gens ! nat p) 1) 1]\<rparr>)"

definition allocate_page :: "'c kv_device \<Rightarrow> 'c paged_kv \<Rightarrow> ('c, int) kv_result" where
  "allocate_page dev s =
     andthen (take_page s) (\<lambda>p s.
     andthen (ensure_page_capacity dev (p + 1) s) (\<lambda>_ s.
       (Inr p, bump_generation p (set_page_ref_count p 1 s))))"

definition available_unique_pages :: "'c paged_kv \<Rightarrow> nat" where
  "available_unique_pages s = sat_add (nat (max_pages s - allocated_pages s)) (length (free_pages s))"

definition release_row_pages_from :: "nat \<Rightarrow> nat \<Rightarrow> 'c paged_kv \<Rightarrow> 'c paged_kv" where
  "release_row_pages_from row start s =
     foldl (\<lambda>s b. let p = block_tables s ! row ! b in
              if p \<ge> 0 then (release_page_ref p s)\<lparr>block_tables := (block_tables s)[row := (block_tables s ! row)[b := - 1]]\<rparr>
              else s)
       s (rev [start..<length (block_tables s ! row)])"

section \<open>Validation\<close>

definition validate_live_handle :: "'c paged_kv \<Rightarrow> block_handle \<Rightarrow> kv_error + unit" where
  "validate_live_handle s h =
     (if \<not> (handle_page h \<ge> 0 \<and> handle_page h < allocated_pages s) then Inl HandlePageRange
      else if \<not> page_ref_count s (handle_page h) > 0 then Inl HandleFree
      else if page_generation s (handle_page h) \<noteq> generation h then Inl HandleGeneration
      else Inr ())"

fun count_blocks :: "int list \<Rightarrow> int list \<Rightarrow> kv_error + int list" where
  "count_blocks [] counts = Inr counts"
| "count_blocks (p # ps) counts =
     (if p < 0 then count_blocks ps counts
      else if \<not> nat p < length counts then Inl InvariantBroken
      else count_blocks ps (counts[nat p := counts ! nat p + 1]))"

fun count_tables :: "'c paged_kv \<Rightarrow> (block_owner \<times> owned_table) list \<Rightarrow> int list \<Rightarrow> kv_error + int list" where
  "count_tables s [] counts = Inr counts"
| "count_tables s ((w, t) # ts) counts =
     (if (case w of Immutable _ \<Rightarrow> True | _ \<Rightarrow> False) then Inl InvariantBroken
      else if length (blocks t) \<noteq> nat (max_blocks_per_row s) then Inl InvariantBroken
      else if \<not> (offset t \<ge> 0 \<and> offset t \<le> cap s) then Inl InvariantBroken
      else case count_blocks (blocks t) counts of
             Inl e \<Rightarrow> Inl e
           | Inr counts \<Rightarrow> count_tables s ts counts)"

fun count_pins :: "'c paged_kv \<Rightarrow> (nat \<times> block_handle) list \<Rightarrow> int list \<Rightarrow> kv_error + int list" where
  "count_pins s [] counts = Inr counts"
| "count_pins s ((i, h) # hs) counts =
     (case validate_live_handle s h of
        Inl e \<Rightarrow> Inl e
      | Inr _ \<Rightarrow>
          if \<not> (block_index h \<ge> 0 \<and> block_index h < max_blocks_per_row s) then Inl InvariantBroken
          else count_pins s hs (counts[nat (handle_page h) := counts ! nat (handle_page h) + 1]))"

definition rows_match :: "'c paged_kv \<Rightarrow> bool" where
  "rows_match s = list_all (\<lambda>(row, w). case map_of (owned_tables s) w of
       None \<Rightarrow> False | Some t \<Rightarrow> block_tables s ! row = blocks t) (List.enumerate 0 (execution_owners s))"

definition validate_owner_invariants :: "'c paged_kv \<Rightarrow> kv_error + unit" where
  "validate_owner_invariants s =
     (if int (length (execution_owners s)) \<noteq> batch s then Inl InvariantBroken
      else if int (length (block_tables s)) \<noteq> batch s then Inl InvariantBroken
      else case count_tables s (owned_tables s) (replicate (nat (allocated_pages s)) 0) of
        Inl e \<Rightarrow> Inl e
      | Inr counts \<Rightarrow>
      (case count_pins s (immutable_pins s) counts of
        Inl e \<Rightarrow> Inl e
      | Inr counts \<Rightarrow>
          if \<not> list_all (\<lambda>(counted, stored). counted = stored) (zip counts (page_ref_counts s))
          then Inl InvariantBroken
          else if \<not> distinct (free_pages s) then Inl InvariantBroken
          else if \<not> list_all (\<lambda>p. p \<ge> 0 \<and> p < allocated_pages s \<and> page_ref_count s p = 0) (free_pages s)
          then Inl InvariantBroken
          else if length (filter (\<lambda>c. c = 0) counts) \<noteq> length (free_pages s) then Inl InvariantBroken
          else if \<not> length (page_generations s) \<ge> nat (allocated_pages s) then Inl InvariantBroken
          else if \<not> rows_match s then Inl InvariantBroken
          else Inr ()))"

definition validate_offsets_shape_and_cap :: "'c paged_kv \<Rightarrow> int list \<Rightarrow> kv_error + unit" where
  "validate_offsets_shape_and_cap s offs =
     (if int (length offs) \<noteq> batch s then Inl BadOffsets
      else if list_ex (\<lambda>x. x < 0 \<or> x > cap s) offs then Inl BadOffsets
      else Inr ())"

fun check_row_blocks :: "'c paged_kv \<Rightarrow> int list \<Rightarrow> kv_error + unit" where
  "check_row_blocks s [] = Inr ()"
| "check_row_blocks s (p # ps) =
     (if p < 0 \<or> p \<ge> allocated_pages s then Inl MissingPage
      else if page_ref_count s p \<le> 0 then Inl ReleasedPage
      else check_row_blocks s ps)"

fun check_rows :: "'c paged_kv \<Rightarrow> (int list \<times> int) list \<Rightarrow> kv_error + unit" where
  "check_rows s [] = Inr ()"
| "check_rows s ((row, x) # rs) =
     (let n = ceil_div x (block_size s) in
      if n > max_blocks_per_row s then Inl TableTooNarrow
      else case check_row_blocks s (take (nat n) row) of
             Inl e \<Rightarrow> Inl e
           | Inr _ \<Rightarrow> check_rows s rs)"

definition validate_offsets_allocated :: "'c paged_kv \<Rightarrow> int list \<Rightarrow> kv_error + unit" where
  "validate_offsets_allocated s offs =
     (case validate_offsets_shape_and_cap s offs of
        Inl e \<Rightarrow> Inl e
      | Inr _ \<Rightarrow> check_rows s (zip (block_tables s) offs))"

end
