(* ===== verification/PagedKvOps.thy ===== *)
theory PagedKvOps
  imports PagedKv
begin

text \<open>
  \<open>ironmlx/src/core/cache/paged_kv.rs\<close>, the operations on owners: binding execution rows, forking,
  pinning immutable blocks, installing a pinned prefix, releasing, rewinding and clearing.
\<close>

section \<open>Committing and binding execution rows\<close>

fun commit_rows :: "(block_owner \<times> int list \<times> int) list \<Rightarrow> (block_owner \<times> owned_table) list
    \<Rightarrow> (kv_error + unit) \<times> (block_owner \<times> owned_table) list" where
  "commit_rows [] al = (Inr (), al)"
| "commit_rows ((w, bs, x) # rs) al =
     (if map_of al w = None then (Inl OwnerAbsent, al)
      else commit_rows rs (AList.update w \<lparr>blocks = bs, offset = x\<rparr> al))"

definition commit_execution_rows :: "'c paged_kv \<Rightarrow> ('c, unit) kv_result" where
  "commit_execution_rows s =
     (if int (length (row_offsets s)) \<noteq> batch s then (Inl BadOffsets, s)
      else
        (let (r, al) = commit_rows (zip (execution_owners s) (zip (block_tables s) (row_offsets s))) (owned_tables s)
         in (r, s\<lparr>owned_tables := al\<rparr>)))"

definition remove_unbound_empty_transient_owners :: "'c paged_kv \<Rightarrow> 'c paged_kv" where
  "remove_unbound_empty_transient_owners s =
     s\<lparr>owned_tables := filter (\<lambda>(w, t).
          (case w of Transient _ \<Rightarrow> False | _ \<Rightarrow> True) \<or> w \<in> set (execution_owners s)
          \<or> offset t \<noteq> 0 \<or> list_ex (\<lambda>p. p \<ge> 0) (blocks t)) (owned_tables s)\<rparr>"

text \<open>One iteration of the binding loop.\<close>

definition bind_row :: "'c paged_kv \<Rightarrow> block_owner \<Rightarrow> 'c paged_kv" where
  "bind_row s w =
     (let t = (case map_of (owned_tables s) w of Some t \<Rightarrow> t | None \<Rightarrow> empty_table s)
      in s\<lparr>owned_tables := AList.update w t (owned_tables s),
           block_tables := block_tables s @ [blocks t],
           row_offsets := row_offsets s @ [offset t]\<rparr>)"

definition checked :: "'c paged_kv \<Rightarrow> ('c, unit) kv_result" where
  "checked s = (validate_owner_invariants s, s)"

definition bind_execution_rows :: "block_owner list \<Rightarrow> 'c paged_kv \<Rightarrow> ('c, unit) kv_result" where
  "bind_execution_rows owners s =
     (if owners = [] then (Inl BadArgument, s)
      else if \<not> distinct owners then (Inl DuplicateOwner, s)
      else andthen (commit_execution_rows s) (\<lambda>_ s.
        (let s = s\<lparr>batch := int (length owners), execution_owners := owners, block_tables := [], row_offsets := []\<rparr>;
             s = foldl bind_row s owners
         in checked (remove_unbound_empty_transient_owners s))))"

definition owner_offset :: "block_owner \<Rightarrow> 'c paged_kv \<Rightarrow> int option" where
  "owner_offset w s = map_option offset (map_of (owned_tables s) w)"

definition grow_cap :: "int \<Rightarrow> 'c paged_kv \<Rightarrow> 'c paged_kv" where
  "grow_cap new_cap s =
     (if new_cap \<le> cap s then s
      else
        (let s = s\<lparr>cap := new_cap\<rparr>; n = max (ceil_div new_cap (block_size s)) 1 in
         if n > max_blocks_per_row s
         then s\<lparr>block_tables := map (\<lambda>row. resize row (nat n) (- 1)) (block_tables s),
                owned_tables := map (\<lambda>(w, t). (w, t\<lparr>blocks := resize (blocks t) (nat n) (- 1)\<rparr>)) (owned_tables s),
                max_blocks_per_row := n\<rparr>
         else s))"

section \<open>Pinning and installing immutable blocks\<close>

definition pin_id :: "block_owner \<Rightarrow> nat option" where
  "pin_id w = (case w of Immutable i \<Rightarrow> Some i | _ \<Rightarrow> None)"

definition validate_immutable_block_pin ::
  "block_owner \<Rightarrow> int \<Rightarrow> block_owner \<Rightarrow> 'c paged_kv \<Rightarrow> kv_error + block_handle" where
  "validate_immutable_block_pin source i pin s =
     (case pin_id pin of
        None \<Rightarrow> Inl WrongOwnerKind
      | Some k \<Rightarrow>
          if \<not> (i \<ge> 0 \<and> i < max_blocks_per_row s) then Inl BadBlockIndex
          else if map_of (immutable_pins s) k \<noteq> None then Inl PinExists
          else case map_of (owned_tables s) source of
            None \<Rightarrow> Inl OwnerAbsent
          | Some t \<Rightarrow>
              (let p = blocks t ! nat i in
               if offset t < (i + 1) * block_size s then Inl NotSealed
               else if \<not> (p \<ge> 0 \<and> page_ref_count s p > 0) then Inl NoLivePage
               else if \<not> page_ref_count s p < 2 ^ 31 - 1 then Inl RefcountOverflow
               else Inr \<lparr>block_index = i, handle_page = p, generation = page_generation s p\<rparr>))"

definition pin_immutable_block_prevalidated :: "nat \<Rightarrow> block_handle \<Rightarrow> 'c paged_kv \<Rightarrow> 'c paged_kv" where
  "pin_immutable_block_prevalidated k h s =
     (let s = add_page_ref (handle_page h) s
      in s\<lparr>immutable_pins := AList.update k h (immutable_pins s)\<rparr>)"

text \<open>\<open>pin_immutable_block\<close>: the validated pair, as \<open>KVCache\<close> and the prefix store call it.\<close>

definition pin_immutable_block ::
  "block_owner \<Rightarrow> int \<Rightarrow> nat \<Rightarrow> 'c paged_kv \<Rightarrow> ('c, block_handle) kv_result" where
  "pin_immutable_block source i k s =
     (case validate_immutable_block_pin source i (Immutable k) s of
        Inl e \<Rightarrow> (Inl e, s)
      | Inr h \<Rightarrow> (Inr h, pin_immutable_block_prevalidated k h s))"

definition validate_immutable_pin_handle :: "block_owner \<Rightarrow> block_handle \<Rightarrow> 'c paged_kv \<Rightarrow> kv_error + unit" where
  "validate_immutable_pin_handle pin h s =
     (case pin_id pin of
        None \<Rightarrow> Inl WrongOwnerKind
      | Some k \<Rightarrow>
          (case validate_live_handle s h of
             Inl e \<Rightarrow> Inl e
           | Inr _ \<Rightarrow>
               (case map_of (immutable_pins s) k of
                  None \<Rightarrow> Inl PinAbsent
                | Some h' \<Rightarrow> if h' \<noteq> h then Inl PinMismatch else Inr ())))"

definition immutable_handle_has_request_refs :: "block_handle \<Rightarrow> 'c paged_kv \<Rightarrow> kv_error + bool" where
  "immutable_handle_has_request_refs h s =
     (case validate_live_handle s h of
        Inl e \<Rightarrow> Inl e
      | Inr _ \<Rightarrow> Inr (page_ref_count s (handle_page h) > 1))"

definition table_is_empty :: "owned_table \<Rightarrow> bool" where
  "table_is_empty t = (offset t = 0 \<and> list_all (\<lambda>p. p < 0) (blocks t))"

fun check_prefix_handles :: "'c paged_kv \<Rightarrow> int \<Rightarrow> block_handle list \<Rightarrow> kv_error + unit" where
  "check_prefix_handles s i [] = Inr ()"
| "check_prefix_handles s i (h # hs) =
     (if block_index h \<noteq> i then Inl BadBlockIndex
      else case validate_live_handle s h of
             Inl e \<Rightarrow> Inl e
           | Inr _ \<Rightarrow>
               if \<not> page_ref_count s (handle_page h) < 2 ^ 31 - 1 then Inl RefcountOverflow
               else check_prefix_handles s (i + 1) hs)"

definition validate_immutable_prefix_install ::
  "block_owner \<Rightarrow> block_handle list \<Rightarrow> 'c paged_kv \<Rightarrow> ('c, unit) kv_result" where
  "validate_immutable_prefix_install dest hs s =
     (if (case dest of Request _ \<Rightarrow> False | _ \<Rightarrow> True) then (Inl WrongOwnerKind, s)
      else if \<not> (hs \<noteq> [] \<and> length hs \<le> nat (max_blocks_per_row s)) then (Inl BadArgument, s)
      else if int (length (row_offsets s)) \<noteq> batch s then (Inl BadOffsets, s)
      else andthen (commit_execution_rows s) (\<lambda>_ s.
        (if (case map_of (owned_tables s) dest of Some t \<Rightarrow> \<not> table_is_empty t | None \<Rightarrow> False)
         then (Inl OwnerNotEmpty, s)
         else (check_prefix_handles s 0 hs, s))))"

text \<open>Bind a table to an owner and refresh the rows the owner executes in.\<close>

definition install_table :: "block_owner \<Rightarrow> owned_table \<Rightarrow> 'c paged_kv \<Rightarrow> 'c paged_kv" where
  "install_table dest t s =
     s\<lparr>owned_tables := AList.update dest t (owned_tables s),
       block_tables := map (\<lambda>(w, row). if w = dest then blocks t else row)
         (zip (execution_owners s) (block_tables s)),
       row_offsets := map (\<lambda>(w, x). if w = dest then offset t else x)
         (zip (execution_owners s) (row_offsets s))\<rparr>"

definition install_immutable_prefix_prevalidated ::
  "block_owner \<Rightarrow> block_handle list \<Rightarrow> 'c paged_kv \<Rightarrow> 'c paged_kv" where
  "install_immutable_prefix_prevalidated dest hs s =
     (let t = \<lparr>blocks = foldl (\<lambda>bs h. bs[nat (block_index h) := handle_page h])
                 (replicate (nat (max_blocks_per_row s)) (- 1)) hs,
               offset = int (length hs) * block_size s\<rparr>;
          s = foldl (\<lambda>s h. add_page_ref (handle_page h) s) s hs
      in install_table dest t s)"

definition install_immutable_prefix ::
  "block_owner \<Rightarrow> block_handle list \<Rightarrow> 'c paged_kv \<Rightarrow> ('c, unit) kv_result" where
  "install_immutable_prefix dest hs s =
     andthen (validate_immutable_prefix_install dest hs s) (\<lambda>_ s.
       (Inr (), install_immutable_prefix_prevalidated dest hs s))"

section \<open>Forking and releasing owners\<close>

fun check_fork_pages :: "'c paged_kv \<Rightarrow> int list \<Rightarrow> kv_error + unit" where
  "check_fork_pages s [] = Inr ()"
| "check_fork_pages s (p # ps) =
     (if \<not> page_ref_count s p > 0 then Inl NoLivePage
      else if \<not> page_ref_count s p < 2 ^ 31 - 1 then Inl RefcountOverflow
      else check_fork_pages s ps)"

definition live_blocks :: "owned_table \<Rightarrow> int list" where
  "live_blocks t = filter (\<lambda>p. p \<ge> 0) (blocks t)"

definition validate_owner_fork :: "block_owner \<Rightarrow> block_owner \<Rightarrow> 'c paged_kv \<Rightarrow> ('c, unit) kv_result" where
  "validate_owner_fork source dest s =
     (if source = dest then (Inl SameOwner, s)
      else if int (length (row_offsets s)) \<noteq> batch s then (Inl BadOffsets, s)
      else andthen (commit_execution_rows s) (\<lambda>_ s.
        (case map_of (owned_tables s) source of
           None \<Rightarrow> (Inl OwnerAbsent, s)
         | Some t \<Rightarrow>
             if (case map_of (owned_tables s) dest of Some d \<Rightarrow> \<not> table_is_empty d | None \<Rightarrow> False)
             then (Inl OwnerNotEmpty, s)
             else (check_fork_pages s (live_blocks t), s))))"

text \<open>The code panics when the source is absent; a validated call never is.\<close>

definition fork_owner_prevalidated :: "block_owner \<Rightarrow> block_owner \<Rightarrow> 'c paged_kv \<Rightarrow> 'c paged_kv" where
  "fork_owner_prevalidated source dest s =
     (case map_of (owned_tables s) source of
        None \<Rightarrow> s
      | Some t \<Rightarrow>
          (let n = length (live_blocks t);
               s = foldl (\<lambda>s p. add_page_ref p s) s (live_blocks t);
               s = install_table dest t s
           in s\<lparr>observability := (observability s)
                 \<lparr>owner_forks := sat_add (owner_forks (observability s)) 1,
                  forked_page_references := sat_add (forked_page_references (observability s)) n\<rparr>\<rparr>))"

definition fork_owner :: "block_owner \<Rightarrow> block_owner \<Rightarrow> 'c paged_kv \<Rightarrow> ('c, unit) kv_result" where
  "fork_owner source dest s =
     andthen (validate_owner_fork source dest s) (\<lambda>_ s. checked (fork_owner_prevalidated source dest s))"

definition count_release :: "'c paged_kv \<Rightarrow> 'c paged_kv" where
  "count_release s = s\<lparr>observability := (observability s)\<lparr>owner_releases := sat_add (owner_releases (observability s)) 1\<rparr>\<rparr>"

text \<open>A released row gets a fresh transient owner.\<close>

definition rebind_released_row :: "block_owner \<Rightarrow> 'c paged_kv \<Rightarrow> nat \<Rightarrow> 'c paged_kv" where
  "rebind_released_row w s row =
     (if execution_owners s ! row = w
      then (let fresh = Transient (next_transient_owner s)
            in s\<lparr>next_transient_owner := sat_add (next_transient_owner s) 1,
                 execution_owners := (execution_owners s)[row := fresh],
                 owned_tables := AList.update fresh (empty_table s) (owned_tables s)\<rparr>)
      else s)"

definition drop_owner_table :: "block_owner \<Rightarrow> owned_table \<Rightarrow> 'c paged_kv \<Rightarrow> 'c paged_kv" where
  "drop_owner_table w t s =
     (let s = s\<lparr>owned_tables := AList.delete w (owned_tables s)\<rparr>;
          s = foldl (\<lambda>s p. release_page_ref p s) s (filter (\<lambda>p. p \<ge> 0) (rev (blocks t)));
          s = s\<lparr>block_tables := map (\<lambda>(w', row). if w' = w then replicate (length row) (- 1) else row)
                   (zip (execution_owners s) (block_tables s)),
                row_offsets := map (\<lambda>(w', x). if w' = w then 0 else x)
                   (zip (execution_owners s) (row_offsets s))\<rparr>
      in foldl (rebind_released_row w) s [0..<length (execution_owners s)])"

definition release_owner :: "block_owner \<Rightarrow> 'c paged_kv \<Rightarrow> ('c, bool) kv_result" where
  "release_owner w s =
     (if int (length (row_offsets s)) \<noteq> batch s then (Inl BadOffsets, s)
      else andthen (commit_execution_rows s) (\<lambda>_ s.
        (case w of
           Immutable i \<Rightarrow>
             (case map_of (immutable_pins s) i of
                None \<Rightarrow> (Inr False, s)
              | Some h \<Rightarrow>
                  andthen (checked (count_release (release_page_ref (handle_page h)
                      (s\<lparr>immutable_pins := AList.delete i (immutable_pins s)\<rparr>)))) (\<lambda>_ s. (Inr True, s)))
         | _ \<Rightarrow>
             (case map_of (owned_tables s) w of
                None \<Rightarrow> (Inr False, s)
              | Some t \<Rightarrow>
                  andthen (checked (count_release (drop_owner_table w t s))) (\<lambda>_ s. (Inr True, s))))))"

section \<open>Clearing and rewinding\<close>

definition clear_cache :: "'c paged_kv \<Rightarrow> 'c paged_kv" where
  "clear_cache s =
     s\<lparr>block_tables := map (\<lambda>row. replicate (length row) (- 1)) (block_tables s), free_pages := [],
       page_ref_counts := replicate (length (page_ref_counts s)) 0, page_generations := [],
       immutable_pins := [], allocated_pages := 0,
       owned_tables := map (\<lambda>(w, t). (w, \<lparr>blocks = replicate (length (blocks t)) (- 1), offset = 0\<rparr>)) (owned_tables s)\<rparr>"

text \<open>The caller passes its own offsets as \<open>current_offsets\<close>.\<close>

definition rewind_rows :: "int list \<Rightarrow> 'c paged_kv \<Rightarrow> 'c paged_kv" where
  "rewind_rows new_offsets s =
     foldl (\<lambda>s (row, old, new). if new < old
         then release_row_pages_from row (nat (ceil_div new (block_size s))) s else s)
       s (List.enumerate 0 (zip (row_offsets s) new_offsets))"

definition restore_offsets :: "int list \<Rightarrow> 'c paged_kv \<Rightarrow> ('c, unit) kv_result" where
  "restore_offsets new_offsets s =
     (case validate_offsets_shape_and_cap s new_offsets of
        Inl e \<Rightarrow> (Inl e, s)
      | Inr _ \<Rightarrow>
          (case validate_offsets_allocated s new_offsets of
             Inl e \<Rightarrow> (Inl e, s)
           | Inr _ \<Rightarrow> commit_execution_rows ((rewind_rows new_offsets s)\<lparr>row_offsets := new_offsets\<rparr>)))"

end
