(* ===== verification/PagedKvData.thy ===== *)
theory PagedKvData
  imports PagedKvOps
begin

text \<open>
  \<open>ironmlx/src/core/cache/paged_kv.rs\<close>, the operations that move token cells: appending to execution
  rows with copy-on-write, reading rows back, installing a restored immutable block, and adopting a row
  of another cache.
\<close>

section \<open>Inputs\<close>

text \<open>A rank-4 tensor \<open>[rows, heads, seq, dim]\<close>, as its dtype, its shape and its cells per row.\<close>

record 'c kv_tensor =
  t_dtype :: nat
  t_dims :: "int list"
  t_rows :: "'c list list"

definition check_lengths :: "'c paged_kv \<Rightarrow> int \<Rightarrow> (int \<times> int) list \<Rightarrow> kv_error + unit" where
  "check_lengths s k_seq xs =
     (case find (\<lambda>(x, n). n < 0 \<or> n > k_seq \<or> x + n > cap s) xs of
        None \<Rightarrow> Inr ()
      | Some (x, n) \<Rightarrow> if n < 0 \<or> n > k_seq then Inl BadArgument else Inl CapExceeded)"

definition validate_update_inputs ::
  "'c kv_tensor \<Rightarrow> 'c kv_tensor \<Rightarrow> int list \<Rightarrow> 'c paged_kv \<Rightarrow> kv_error + unit" where
  "validate_update_inputs k v lens s =
     (case validate_offsets_shape_and_cap s (row_offsets s) of
        Inl e \<Rightarrow> Inl e
      | Inr _ \<Rightarrow>
          if int (length lens) \<noteq> batch s then Inl BadArgument
          else if t_dtype k \<noteq> dtype (layout s) \<or> t_dtype v \<noteq> dtype (layout s) then Inl ShapeMismatch
          else if length (t_dims k) \<noteq> 4 \<or> length (t_dims v) \<noteq> 4 then Inl ShapeMismatch
          else if t_dims k ! 0 \<noteq> batch s \<or> t_dims k ! 1 \<noteq> n_kv_heads (layout s)
               \<or> t_dims k ! 3 \<noteq> head_dim (layout s) \<or> t_dims v ! 0 \<noteq> batch s
               \<or> t_dims v ! 1 \<noteq> n_kv_heads (layout s) \<or> t_dims v ! 2 \<noteq> t_dims k ! 2
               \<or> t_dims v ! 3 \<noteq> v_head_dim (layout s)
          then Inl ShapeMismatch
          else check_lengths s (t_dims k ! 2) (zip (row_offsets s) lens))"

section \<open>Pages\<close>

definition slice_cells :: "nat \<Rightarrow> int \<Rightarrow> int \<Rightarrow> 'c kv_tensor \<Rightarrow> 'c list" where
  "slice_cells row start n t = take (nat n) (drop (nat start) (t_rows t ! row))"

definition store_cells :: "int \<Rightarrow> int \<Rightarrow> 'c list \<Rightarrow> 'c list list option \<Rightarrow> 'c list list option" where
  "store_cells p i part pages =
     map_option (\<lambda>ps. ps[nat p := take (nat i) (ps ! nat p) @ part @ drop (nat i + length part) (ps ! nat p)]) pages"

text \<open>Write a K part, then a V part, into a page: two fallible updates.\<close>

definition write_page :: "'c kv_device \<Rightarrow> int \<Rightarrow> int \<Rightarrow> 'c list \<Rightarrow> 'c list \<Rightarrow> 'c paged_kv \<Rightarrow> ('c, unit) kv_result" where
  "write_page dev p i kc vc s =
     andthen (tensor_op dev s) (\<lambda>_ s.
       (let s = s\<lparr>k_pages := store_cells p i kc (k_pages s)\<rparr> in
        andthen (tensor_op dev s) (\<lambda>_ s. (Inr (), s\<lparr>v_pages := store_cells p i vc (v_pages s)\<rparr>))))"

definition two_ops :: "'c kv_device \<Rightarrow> 'c paged_kv \<Rightarrow> ('c, unit) kv_result" where
  "two_ops dev s = andthen (tensor_op dev s) (\<lambda>_ s. tensor_op dev s)"

definition page_slice :: "'c kv_device \<Rightarrow> int \<Rightarrow> int \<Rightarrow> 'c paged_kv \<Rightarrow> ('c, 'c list \<times> 'c list) kv_result" where
  "page_slice dev p n s =
     (if \<not> (n \<ge> 0 \<and> n \<le> block_size s) then (Inl BadArgument, s)
      else if n = 0 then andthen (two_ops dev s) (\<lambda>_ s. (Inr ([], []), s))
      else if p < 0 \<or> p \<ge> page_capacity s then (Inl MissingPage, s)
      else case (k_pages s, v_pages s) of
             (Some ks, Some vs) \<Rightarrow>
               andthen (two_ops dev s) (\<lambda>_ s. (Inr (take (nat n) (ks ! nat p), take (nat n) (vs ! nat p)), s))
           | _ \<Rightarrow> (Inl MissingPage, s))"

definition clone_page_for_write :: "'c kv_device \<Rightarrow> int \<Rightarrow> 'c paged_kv \<Rightarrow> ('c, int) kv_result" where
  "clone_page_for_write dev p s =
     andthen (allocate_page dev s) (\<lambda>q s.
     andthen (page_slice dev p (block_size s) s) (\<lambda>(kc, vc) s.
     andthen (ensure_page_capacity dev (q + 1) s) (\<lambda>_ s.
     andthen (write_page dev q 0 kc vc s) (\<lambda>_ s.
       (Inr q, s\<lparr>observability := (observability s)
          \<lparr>cow_page_copies := sat_add (cow_page_copies (observability s)) 1\<rparr>\<rparr>)))))"

section \<open>Appending\<close>

definition set_block :: "nat \<Rightarrow> nat \<Rightarrow> int \<Rightarrow> 'c paged_kv \<Rightarrow> 'c paged_kv" where
  "set_block row col p s = s\<lparr>block_tables := (block_tables s)[row := (block_tables s ! row)[col := p]]\<rparr>"

text \<open>The page of a block, allocated when the row has none.\<close>

definition block_for_append :: "'c kv_device \<Rightarrow> nat \<Rightarrow> nat \<Rightarrow> 'c paged_kv \<Rightarrow> ('c, int) kv_result" where
  "block_for_append dev row col s =
     (if block_tables s ! row ! col < 0
      then andthen (allocate_page dev s) (\<lambda>p s. (Inr p, set_block row col p s))
      else (Inr (block_tables s ! row ! col), s))"

text \<open>A private page for the block: a shared page is cloned and its reference given back.\<close>

definition private_for_append :: "'c kv_device \<Rightarrow> nat \<Rightarrow> nat \<Rightarrow> int \<Rightarrow> 'c paged_kv \<Rightarrow> ('c, int) kv_result" where
  "private_for_append dev row col p s =
     (if page_ref_count s p > 1
      then andthen (clone_page_for_write dev p s) (\<lambda>q s. (Inr q, set_block row col q (release_page_ref p s)))
      else (Inr p, s))"

definition append_chunk ::
  "'c kv_device \<Rightarrow> nat \<Rightarrow> 'c kv_tensor \<Rightarrow> 'c kv_tensor \<Rightarrow> int \<Rightarrow> int \<Rightarrow> int \<Rightarrow> int \<Rightarrow> 'c paged_kv \<Rightarrow> ('c, unit) kv_result" where
  "append_chunk dev row k v col in_block src n s =
     (if col \<ge> max_blocks_per_row s then (Inl TableTooNarrow, s)
      else andthen (block_for_append dev row (nat col) s) (\<lambda>p s.
        andthen (private_for_append dev row (nat col) p s) (\<lambda>p s.
        andthen (ensure_page_capacity dev (p + 1) s) (\<lambda>_ s.
        andthen (two_ops dev s) (\<lambda>_ s.
          write_page dev p in_block (slice_cells row src n k) (slice_cells row src n v) s)))))"

function append_row ::
  "'c kv_device \<Rightarrow> nat \<Rightarrow> 'c kv_tensor \<Rightarrow> 'c kv_tensor \<Rightarrow> int \<Rightarrow> int \<Rightarrow> int \<Rightarrow> 'c paged_kv \<Rightarrow> ('c, unit) kv_result" where
  "append_row dev row k v logical src n s =
     (if \<not> src < n then (Inr (), s)
      else if block_size s \<le> 0 then (Inl DivisionByZero, s)
      else
        (let in_block = logical mod block_size s;
             took = min (n - src) (block_size s - in_block)
         in case append_chunk dev row k v (logical div block_size s) in_block src took s of
              (Inl e, s) \<Rightarrow> (Inl e, s)
            | (Inr _, s) \<Rightarrow> append_row dev row k v (logical + took) (src + took) n s))"
  by pat_completeness auto
termination
proof (relation "measure (\<lambda>(dev, row, k, v, logical, src, n, s). nat (n - src))", goal_cases)
  case (2 dev row k v logical src n s in_block took)
  then have "in_block < block_size s" by simp
  with 2 show ?case by simp
qed simp

declare append_row.simps [simp del]

fun append_rows ::
  "'c kv_device \<Rightarrow> 'c kv_tensor \<Rightarrow> 'c kv_tensor \<Rightarrow> nat \<Rightarrow> int list \<Rightarrow> 'c paged_kv \<Rightarrow> ('c, unit) kv_result" where
  "append_rows dev k v row [] s = (Inr (), s)"
| "append_rows dev k v row (n # ns) s =
     (if n = 0 then append_rows dev k v (row + 1) ns s
      else andthen (append_row dev row k v (row_offsets s ! row) 0 n s) (\<lambda>_ s.
        append_rows dev k v (row + 1) ns
          (s\<lparr>row_offsets := (row_offsets s)[row := row_offsets s ! row + n]\<rparr>)))"

definition append :: "'c kv_device \<Rightarrow> 'c kv_tensor \<Rightarrow> 'c kv_tensor \<Rightarrow> int list \<Rightarrow> 'c paged_kv \<Rightarrow> ('c, unit) kv_result" where
  "append dev k v lens s =
     (case validate_update_inputs k v lens s of
        Inl e \<Rightarrow> (Inl e, s)
      | Inr _ \<Rightarrow> andthen (append_rows dev k v 0 lens s) (\<lambda>_ s. commit_execution_rows s))"

section \<open>Reading back\<close>

definition put_cells :: "nat \<Rightarrow> nat \<Rightarrow> 'c list \<Rightarrow> 'c list list \<Rightarrow> 'c list list" where
  "put_cells row i part dense =
     dense[row := take i (dense ! row) @ part @ drop (i + length part) (dense ! row)]"

fun materialize_blocks ::
  "'c kv_device \<Rightarrow> nat \<Rightarrow> int \<Rightarrow> int list \<Rightarrow> int \<Rightarrow> 'c list list \<times> 'c list list \<Rightarrow> 'c paged_kv
   \<Rightarrow> ('c, 'c list list \<times> 'c list list) kv_result" where
  "materialize_blocks dev row len [] col dense s = (Inr dense, s)"
| "materialize_blocks dev row len (p # ps) col dense s =
     (let start = col * block_size s; n = min (len - start) (block_size s) in
      if p < 0 then (Inl MissingPage, s)
      else andthen (page_slice dev p n s) (\<lambda>(kc, vc) s.
        andthen (two_ops dev s) (\<lambda>_ s.
          materialize_blocks dev row len ps (col + 1)
            (put_cells row (nat start) kc (fst dense), put_cells row (nat start) vc (snd dense)) s)))"

fun materialize_rows ::
  "'c kv_device \<Rightarrow> nat \<Rightarrow> (int list \<times> int) list \<Rightarrow> 'c list list \<times> 'c list list \<Rightarrow> 'c paged_kv
   \<Rightarrow> ('c, 'c list list \<times> 'c list list) kv_result" where
  "materialize_rows dev row [] dense s = (Inr dense, s)"
| "materialize_rows dev row ((table, len) # rs) dense s =
     andthen (materialize_blocks dev row len (take (nat (ceil_div len (block_size s))) table) 0 dense s) (\<lambda>dense s.
       materialize_rows dev (row + 1) rs dense s)"

definition materialize_prefix ::
  "'c kv_device \<Rightarrow> int list \<Rightarrow> int \<Rightarrow> 'c paged_kv \<Rightarrow> ('c, 'c list list \<times> 'c list list) kv_result" where
  "materialize_prefix dev offs max_len s =
     (case validate_offsets_shape_and_cap s offs of
        Inl e \<Rightarrow> (Inl e, s)
      | Inr _ \<Rightarrow>
          if max_len < 0 \<or> max_len > cap s then (Inl BadArgument, s)
          else if list_ex (\<lambda>x. x > max_len) offs then (Inl BadArgument, s)
          else if max_len = 0
          then andthen (two_ops dev s) (\<lambda>_ s.
            (Inr (replicate (nat (batch s)) [], replicate (nat (batch s)) []), s))
          else case validate_offsets_allocated s offs of
                 Inl e \<Rightarrow> (Inl e, s)
               | Inr _ \<Rightarrow>
                   (let zeros = replicate (nat (batch s)) (replicate (nat max_len) (zero_cell dev)) in
                    andthen (two_ops dev s) (\<lambda>_ s.
                      materialize_rows dev 0 (zip (block_tables s) offs) (zeros, zeros) s)))"

definition update_and_fetch ::
  "'c kv_device \<Rightarrow> 'c kv_tensor \<Rightarrow> 'c kv_tensor \<Rightarrow> int list \<Rightarrow> 'c paged_kv
   \<Rightarrow> ('c, 'c list list \<times> 'c list list) kv_result" where
  "update_and_fetch dev k v lens s =
     (if list_all (\<lambda>n. n = 0) lens
      then (case validate_update_inputs k v lens s of
              Inl e \<Rightarrow> (Inl e, s)
            | Inr _ \<Rightarrow> andthen (two_ops dev s) (\<lambda>_ s.
                (Inr (replicate (nat (batch s)) [], replicate (nat (batch s)) []), s)))
      else andthen (append dev k v lens s) (\<lambda>_ s.
        materialize_prefix dev (row_offsets s) (fold max (row_offsets s) 0) s))"

section \<open>Restored blocks and adopted rows\<close>

definition validate_prefix_pages :: "'c kv_tensor \<Rightarrow> int \<Rightarrow> 'c paged_kv \<Rightarrow> kv_error + unit" where
  "validate_prefix_pages t dim s =
     (if t_dtype t \<noteq> dtype (layout s) then Inl ShapeMismatch
      else if length (t_dims t) \<noteq> 4 \<or> t_dims t ! 1 \<noteq> n_kv_heads (layout s)
           \<or> t_dims t ! 2 \<noteq> block_size s \<or> t_dims t ! 3 \<noteq> dim
      then Inl ShapeMismatch else Inr ())"

definition copy_single_prefix_page ::
  "'c kv_device \<Rightarrow> 'c kv_tensor \<Rightarrow> 'c kv_tensor \<Rightarrow> nat \<Rightarrow> int \<Rightarrow> 'c paged_kv \<Rightarrow> ('c, unit) kv_result" where
  "copy_single_prefix_page dev k v src dst s =
     andthen (two_ops dev s) (\<lambda>_ s.
     andthen (ensure_page_capacity dev (dst + 1) s) (\<lambda>_ s.
       write_page dev dst 0 (t_rows k ! src) (t_rows v ! src) s))"

definition install_immutable_block_from_prefix ::
  "'c kv_device \<Rightarrow> block_owner \<Rightarrow> int \<Rightarrow> 'c kv_tensor \<Rightarrow> 'c kv_tensor \<Rightarrow> 'c paged_kv \<Rightarrow> ('c, block_handle) kv_result" where
  "install_immutable_block_from_prefix dev pin i k v s =
     (case pin_id pin of
        None \<Rightarrow> (Inl WrongOwnerKind, s)
      | Some j \<Rightarrow>
          if \<not> (i \<ge> 0 \<and> i < max_blocks_per_row s) then (Inl BadBlockIndex, s)
          else if map_of (immutable_pins s) j \<noteq> None then (Inl PinExists, s)
          else case validate_prefix_pages k (head_dim (layout s)) s of
            Inl e \<Rightarrow> (Inl e, s)
          | Inr _ \<Rightarrow>
          (case validate_prefix_pages v (v_head_dim (layout s)) s of
            Inl e \<Rightarrow> (Inl e, s)
          | Inr _ \<Rightarrow>
              if \<not> (t_dims k ! 0 = 1 \<and> t_dims v ! 0 = 1) then (Inl ShapeMismatch, s)
              else andthen (allocate_page dev s) (\<lambda>p s.
                (case copy_single_prefix_page dev k v 0 p s of
                   (Inl e, s) \<Rightarrow> (Inl e, release_page_ref p s)
                 | (Inr _, s) \<Rightarrow>
                     (let h = \<lparr>block_index = i, handle_page = p, generation = page_generation s p\<rparr>
                      in (Inr h, s\<lparr>immutable_pins := AList.update j h (immutable_pins s)\<rparr>))))))"

end
