(* ===== verification/PagedKvBook.thy ===== *)
theory PagedKvBook
  imports PagedKvData "HOL-Library.Multiset"
begin

text \<open>
  Book-keeping of page references in \<open>ironmlx/src/core/cache/paged_kv.rs\<close>. A reference is held by a
  block of an owner's table, by a pin, or by the operation in progress; the third kind is a multiset
  of tokens \<open>E\<close> that an operation receives from \<open>allocate_page\<close> or \<open>add_page_ref\<close> and spends on tables, pins
  or \<open>release_page_ref\<close>. The ledger \<open>book T E s\<close> says that the stored counts are exactly these
  references for owner tables \<open>T\<close>.
\<close>

section \<open>Holders of references\<close>

definition tables :: "'c paged_kv \<Rightarrow> block_owner \<Rightarrow> owned_table option" where
  "tables s w =
     (case map_of (zip (execution_owners s) (zip (block_tables s) (row_offsets s))) w of
        Some (b, x) \<Rightarrow> Some \<lparr>blocks = b, offset = x\<rparr>
      | None \<Rightarrow> map_of (owned_tables s) w)"

definition table_refs :: "(block_owner \<Rightarrow> owned_table option) \<Rightarrow> int \<Rightarrow> nat" where
  "table_refs T p = (\<Sum>w \<in> dom T. count_list (blocks (the (T w))) p)"

definition pin_refs :: "(nat \<times> block_handle) list \<Rightarrow> int \<Rightarrow> nat" where
  "pin_refs pins p = length (filter (\<lambda>(_, h). handle_page h = p) pins)"

definition holders :: "(block_owner \<Rightarrow> owned_table option) \<Rightarrow> int multiset \<Rightarrow> (nat \<times> block_handle) list \<Rightarrow> int \<Rightarrow> nat" where
  "holders T E pins p = table_refs T p + pin_refs pins p + count E p"

definition pin_ok :: "'c paged_kv \<Rightarrow> block_handle \<Rightarrow> bool" where
  "pin_ok s h = (0 \<le> handle_page h \<and> generation h = page_generation s (handle_page h)
     \<and> 0 \<le> block_index h \<and> block_index h < max_blocks_per_row s)"

definition book :: "(block_owner \<Rightarrow> owned_table option) \<Rightarrow> int multiset \<Rightarrow> 'c paged_kv \<Rightarrow> bool" where
  "book T E s =
     (finite (dom T)
      \<and> (\<forall>p \<ge> 0. page_ref_count s p = int (holders T E (immutable_pins s) p))
      \<and> (\<forall>p. page_ref_count s p > 0 \<longrightarrow> p < allocated_pages s)
      \<and> 0 \<le> allocated_pages s \<and> allocated_pages s \<le> max_pages s
      \<and> distinct (free_pages s)
      \<and> (\<forall>p \<in> set (free_pages s). 0 \<le> p \<and> p < allocated_pages s \<and> page_ref_count s p = 0)
      \<and> distinct (map fst (immutable_pins s))
      \<and> (\<forall>(k, h) \<in> set (immutable_pins s). pin_ok s h))"

text \<open>No page is lost: every allocated page without references is on the free list.\<close>

definition no_leak :: "'c paged_kv \<Rightarrow> bool" where
  "no_leak s =
     (nat (allocated_pages s) \<le> length (page_ref_counts s)
      \<and> nat (allocated_pages s) \<le> length (page_generations s)
      \<and> (\<forall>p. 0 \<le> p \<and> p < allocated_pages s \<and> page_ref_count s p = 0 \<longrightarrow> p \<in> set (free_pages s)))"

section \<open>Tables as multisets\<close>

lemma table_refs_update:
  assumes "finite (dom T)"
  shows "table_refs (T(w \<mapsto> t)) p + (case T w of None \<Rightarrow> 0 | Some t' \<Rightarrow> count_list (blocks t') p)
    = table_refs T p + count_list (blocks t) p"
proof -
  let ?D = "dom T - {w}"
  have f: "finite ?D" using assms by simp
  have new: "table_refs (T(w \<mapsto> t)) p = count_list (blocks t) p + (\<Sum>v \<in> ?D. count_list (blocks (the (T v))) p)"
  proof -
    have d: "dom (T(w \<mapsto> t)) = insert w ?D" by auto
    have e: "(\<Sum>v \<in> ?D. count_list (blocks (the ((T(w \<mapsto> t)) v))) p) = (\<Sum>v \<in> ?D. count_list (blocks (the (T v))) p)"
      by (intro sum.cong) auto
    show ?thesis unfolding table_refs_def d using f by (subst sum.insert) (simp_all only: e, simp_all)
  qed
  have old: "table_refs T p = (case T w of None \<Rightarrow> 0 | Some t' \<Rightarrow> count_list (blocks t') p)
      + (\<Sum>v \<in> ?D. count_list (blocks (the (T v))) p)"
  proof (cases "T w")
    case None
    then have "dom T = ?D" by auto
    with None show ?thesis by (simp add: table_refs_def)
  next
    case (Some t')
    then have "w \<in> dom T" by auto
    then show ?thesis using Some assms by (simp add: table_refs_def sum.remove)
  qed
  show ?thesis using new old by simp
qed

lemma table_refs_remove:
  assumes "finite (dom T)" and "T w = Some t"
  shows "table_refs (T(w := None)) p + count_list (blocks t) p = table_refs T p"
proof -
  have "dom (T(w := None)) = dom T - {w}" by auto
  moreover have "(\<Sum>v \<in> dom T - {w}. count_list (blocks (the ((T(w := None)) v))) p)
      = (\<Sum>v \<in> dom T - {w}. count_list (blocks (the (T v))) p)"
    by (intro sum.cong) auto
  moreover have "w \<in> dom T" using assms(2) by auto
  ultimately show ?thesis using assms by (simp add: table_refs_def sum.remove)
qed

lemma table_refs_in: "finite (dom T) \<Longrightarrow> T w = Some t \<Longrightarrow> count_list (blocks t) p \<le> table_refs T p"
  using table_refs_remove [of T w t p] by simp

lemma count_filter: "P p \<Longrightarrow> count_list (filter P xs) p = count_list xs p"
  by (induction xs) auto

lemma count_live: "0 \<le> p \<Longrightarrow> count_list (live_blocks t) p = count_list (blocks t) p"
  by (simp add: live_blocks_def count_filter)

section \<open>Frames\<close>

text \<open>An operation on the pool that leaves tables, rows, pins and parameters alone.\<close>

definition pool_frame :: "'c paged_kv \<Rightarrow> 'c paged_kv \<Rightarrow> bool" where
  "pool_frame s s' =
     (block_tables s' = block_tables s \<and> execution_owners s' = execution_owners s
      \<and> owned_tables s' = owned_tables s \<and> row_offsets s' = row_offsets s \<and> batch s' = batch s
      \<and> immutable_pins s' = immutable_pins s \<and> next_transient_owner s' = next_transient_owner s
      \<and> max_pages s' = max_pages s \<and> max_blocks_per_row s' = max_blocks_per_row s \<and> layout s' = layout s
      \<and> cap s' = cap s \<and> block_size s' = block_size s \<and> page_grow_step s' = page_grow_step s)"

lemma pool_frame_refl [simp]: "pool_frame s s"
  by (simp add: pool_frame_def)

lemma pool_frame_trans: "pool_frame s t \<Longrightarrow> pool_frame t u \<Longrightarrow> pool_frame s u"
  by (simp add: pool_frame_def)

lemma pool_frame_tables: "pool_frame s s' \<Longrightarrow> tables s' = tables s"
  unfolding pool_frame_def by (intro ext) (simp only: tables_def)

section \<open>Spending and receiving references\<close>

lemma nth_list_update_int: "0 \<le> p \<Longrightarrow> 0 \<le> q \<Longrightarrow> xs[nat p := x] ! nat q = (if nat p < length xs \<and> p = q then x else xs ! nat q)"
  by (cases "nat p < length xs") (auto simp: nth_list_update list_update_beyond eq_nat_nat_iff)

lemma ref_count_in_range: "page_ref_count s p > 0 \<Longrightarrow> 0 \<le> p \<and> nat p < length (page_ref_counts s)"
  by (simp add: page_ref_count_def split: if_splits)

lemma add_page_ref_count:
  assumes "page_ref_count s p > 0"
  shows "page_ref_count (add_page_ref p s) q = page_ref_count s q + (if q = p then 1 else 0)"
  using ref_count_in_range [OF assms] by (auto simp: page_ref_count_def add_page_ref_def nth_list_update_int)

lemma release_page_ref_count:
  assumes "page_ref_count s p > 0"
  shows "page_ref_count (release_page_ref p s) q = page_ref_count s q - (if q = p then 1 else 0)"
  using ref_count_in_range [OF assms] assms
  by (auto simp: page_ref_count_def release_page_ref_def Let_def nth_list_update_int)

lemma add_frame: "pool_frame s (add_page_ref p s)" "page_generations (add_page_ref p s) = page_generations s"
  "allocated_pages (add_page_ref p s) = allocated_pages s" "free_pages (add_page_ref p s) = free_pages s"
  by (simp_all add: pool_frame_def add_page_ref_def)

lemma release_frame: "pool_frame s (release_page_ref p s)"
  "page_generations (release_page_ref p s) = page_generations s"
  "allocated_pages (release_page_ref p s) = allocated_pages s"
  by (simp_all add: pool_frame_def release_page_ref_def Let_def)

lemma release_free:
  assumes "page_ref_count s p > 0"
  shows "free_pages (release_page_ref p s) = (if page_ref_count s p = 1 then free_pages s @ [p] else free_pages s)"
proof -
  have r: "0 \<le> p \<and> nat p < length (page_ref_counts s)" by (rule ref_count_in_range [OF assms])
  then have e: "page_ref_count s p = page_ref_counts s ! nat p" by (simp add: page_ref_count_def)
  show ?thesis using r assms unfolding release_page_ref_def e Let_def by simp
qed

lemma page_ref_count_cong: "page_ref_counts s' = page_ref_counts s \<Longrightarrow> page_ref_count s' p = page_ref_count s p"
  by (simp only: page_ref_count_def)

lemma page_generation_cong: "page_generations s' = page_generations s \<Longrightarrow> page_generation s' p = page_generation s p"
  by (simp only: page_generation_def)

lemma pin_ok_cong:
  "page_generations s' = page_generations s \<Longrightarrow> max_blocks_per_row s' = max_blocks_per_row s \<Longrightarrow> pin_ok s' h = pin_ok s h"
  by (simp add: pin_ok_def page_generation_def)

lemma book_count: "book T E s \<Longrightarrow> 0 \<le> p \<Longrightarrow> page_ref_count s p = int (holders T E (immutable_pins s) p)"
  by (simp add: book_def)

lemma book_free:
  "book T E s \<Longrightarrow> p \<in> set (free_pages s) \<Longrightarrow> 0 \<le> p \<and> p < allocated_pages s \<and> page_ref_count s p = 0"
  unfolding book_def by blast

lemma book_live: "book T E s \<Longrightarrow> page_ref_count s p > 0 \<Longrightarrow> 0 \<le> p \<and> p < allocated_pages s"
  using ref_count_in_range [of s p] by (simp add: book_def)

lemma book_nonneg: "book T E s \<Longrightarrow> 0 \<le> page_ref_count s p"
  using book_count [of T E s p] by (cases "0 \<le> p") (simp, simp add: page_ref_count_def)

lemma book_unallocated: "book T E s \<Longrightarrow> allocated_pages s \<le> p \<Longrightarrow> page_ref_count s p = 0"
  using book_live [of T E s p] book_nonneg [of T E s p] by linarith

lemma book_pin: "book T E s \<Longrightarrow> (k, h) \<in> set (immutable_pins s) \<Longrightarrow> pin_ok s h"
  by (auto simp: book_def)

lemma add_page_ref_book:
  assumes b: "book T E s" and p: "page_ref_count s p > 0"
  shows "book T (add_mset p E) (add_page_ref p s)"
proof -
  let ?s = "add_page_ref p s"
  note c = add_page_ref_count [OF p]
  have f: "immutable_pins ?s = immutable_pins s" "max_pages ?s = max_pages s" "max_blocks_per_row ?s = max_blocks_per_row s"
    using add_frame(1) [of s p] by (simp_all add: pool_frame_def)
  have 1: "page_ref_count ?s q = int (holders T (add_mset p E) (immutable_pins ?s) q)" if "0 \<le> q" for q
    using book_count [OF b that] by (simp add: c holders_def f)
  have 2: "q < allocated_pages ?s" if "page_ref_count ?s q > 0" for q
    using that book_live [OF b, of q] p by (simp add: c add_frame split: if_splits)
  have 3: "0 \<le> q \<and> q < allocated_pages ?s \<and> page_ref_count ?s q = 0" if "q \<in> set (free_pages ?s)" for q
  proof -
    have "0 \<le> q \<and> q < allocated_pages s \<and> page_ref_count s q = 0"
      using that book_free [OF b, of q] by (simp add: add_frame)
    moreover then have "q \<noteq> p" using p by auto
    ultimately show ?thesis by (simp add: c add_frame)
  qed
  have 4: "pin_ok ?s h = pin_ok s h" for h by (rule pin_ok_cong) (simp_all add: add_frame f)
  show ?thesis using b 1 2 3 unfolding book_def 4 f(1,2) add_frame(3,4) by blast
qed

lemma release_page_ref_book:
  assumes b: "book T (add_mset p E) s" and p0: "0 \<le> p"
  shows "book T E (release_page_ref p s)"
proof -
  let ?s = "release_page_ref p s"
  have p: "page_ref_count s p > 0" using book_count [OF b p0] by (simp add: holders_def)
  note c = release_page_ref_count [OF p] and fr = release_free [OF p]
  have f: "immutable_pins ?s = immutable_pins s" "max_pages ?s = max_pages s" "max_blocks_per_row ?s = max_blocks_per_row s"
    using release_frame(1) [of s p] by (simp_all add: pool_frame_def)
  have 1: "page_ref_count ?s q = int (holders T E (immutable_pins ?s) q)" if "0 \<le> q" for q
    using book_count [OF b that] by (simp add: c holders_def f)
  have 2: "q < allocated_pages ?s" if "page_ref_count ?s q > 0" for q
    using that book_live [OF b, of q] by (simp add: c release_frame split: if_splits)
  have pf: "p \<notin> set (free_pages s)" using book_free [OF b, of p] p by auto
  have pa: "p < allocated_pages s" using book_live [OF b p] by simp
  have 3: "distinct (free_pages ?s)" using b pf by (simp add: fr book_def)
  have 4: "0 \<le> q \<and> q < allocated_pages ?s \<and> page_ref_count ?s q = 0" if "q \<in> set (free_pages ?s)" for q
  proof (cases "q = p")
    case True
    then have "page_ref_count s p = 1" using that pf by (simp add: fr split: if_splits)
    with True p0 pa show ?thesis by (simp add: c release_frame)
  next
    case False
    then have "q \<in> set (free_pages s)" using that by (simp add: fr split: if_splits)
    with book_free [OF b, of q] False show ?thesis by (simp add: c release_frame)
  qed
  have 5: "pin_ok ?s h = pin_ok s h" for h by (rule pin_ok_cong) (simp_all add: release_frame f)
  show ?thesis using b 1 2 3 4 unfolding book_def 5 f(1,2) release_frame(3) by blast
qed

section \<open>Moving references between tables, pins and tokens\<close>

definition blocks_mset :: "owned_table \<Rightarrow> int multiset" where
  "blocks_mset t = mset (live_blocks t)"

lemma count_blocks_mset: "0 \<le> p \<Longrightarrow> count (blocks_mset t) p = count_list (blocks t) p"
  by (simp add: blocks_mset_def count_mset count_live)

lemma book_retable:
  assumes b: "book T E s" and f: "finite (dom T')"
    and eq: "\<And>p. 0 \<le> p \<Longrightarrow> table_refs T' p + count E' p = table_refs T p + count E p"
  shows "book T' E' s"
proof -
  have h: "holders T' E' (immutable_pins s) p = holders T E (immutable_pins s) p" if "0 \<le> p" for p
    using eq [OF that] by (simp add: holders_def)
  have "\<forall>p \<ge> 0. page_ref_count s p = int (holders T' E' (immutable_pins s) p)"
    using book_count [OF b] h by auto
  then show ?thesis using b f unfolding book_def by blast
qed

lemma book_finite: "book T E s \<Longrightarrow> finite (dom T)"
  by (simp add: book_def)

text \<open>Give tokens to an owner whose table (if any) holds no pages.\<close>

lemma book_install:
  assumes b: "book T (blocks_mset t + E) s" and e: "\<And>t0. T w = Some t0 \<Longrightarrow> live_blocks t0 = []"
  shows "book (T(w \<mapsto> t)) E s"
proof (rule book_retable [OF b])
  show "finite (dom (T(w \<mapsto> t)))" using book_finite [OF b] by simp
  fix p :: int
  assume p: "0 \<le> p"
  have "(case T w of None \<Rightarrow> 0 | Some t' \<Rightarrow> count_list (blocks t') p) = 0"
  proof (cases "T w")
    case (Some t0)
    then show ?thesis using e [OF Some] count_live [OF p, of t0] by simp
  qed simp
  then show "table_refs (T(w \<mapsto> t)) p + count E p = table_refs T p + count (blocks_mset t + E) p"
    using table_refs_update [OF book_finite [OF b], of w t p] count_blocks_mset [OF p, of t] by simp
qed

text \<open>Take a table away from its owner.\<close>

lemma book_uninstall:
  assumes b: "book T E s" and t: "T w = Some t"
  shows "book (T(w := None)) (blocks_mset t + E) s"
proof (rule book_retable [OF b])
  show "finite (dom (T(w := None)))" using book_finite [OF b] by simp
  fix p :: int
  assume p: "0 \<le> p"
  show "table_refs (T(w := None)) p + count (blocks_mset t + E) p = table_refs T p + count E p"
    using table_refs_remove [OF book_finite [OF b] t, of p] count_blocks_mset [OF p, of t] by simp
qed

lemma count_list_update:
  assumes "j < length xs"
  shows "count_list (xs[j := q]) p + (if xs ! j = p then 1 else 0) = count_list xs p + (if q = p then 1 else 0)"
  using assms
proof (induction xs arbitrary: j)
  case (Cons x xs)
  show ?case
  proof (cases j)
    case (Suc i)
    then show ?thesis using Cons.IH [of i] Cons.prems by (simp split: if_splits)
  qed (use Cons in simp)
qed simp

text \<open>Put a page into an empty block, or exchange the page of a block.\<close>

lemma book_set_block:
  assumes b: "book T (add_mset q E) s" and t: "T w = Some t" and j: "j < length (blocks t)" and q: "0 \<le> q"
  shows "book (T(w \<mapsto> t\<lparr>blocks := (blocks t)[j := q]\<rparr>)) (if blocks t ! j < 0 then E else add_mset (blocks t ! j) E) s"
proof (rule book_retable [OF b])
  show "finite (dom (T(w \<mapsto> t\<lparr>blocks := (blocks t)[j := q]\<rparr>)))" using book_finite [OF b] by simp
  fix p :: int
  assume p: "0 \<le> p"
  show "table_refs (T(w \<mapsto> t\<lparr>blocks := (blocks t)[j := q]\<rparr>)) p
      + count (if blocks t ! j < 0 then E else add_mset (blocks t ! j) E) p = table_refs T p + count (add_mset q E) p"
    using table_refs_update [OF book_finite [OF b], of w "t\<lparr>blocks := (blocks t)[j := q]\<rparr>" p]
      count_list_update [OF j, of q p] t p by auto
qed

text \<open>Drop the page of a block.\<close>

lemma book_drop_block:
  assumes b: "book T E s" and t: "T w = Some t" and j: "j < length (blocks t)" and q: "0 \<le> blocks t ! j"
  shows "book (T(w \<mapsto> t\<lparr>blocks := (blocks t)[j := - 1]\<rparr>)) (add_mset (blocks t ! j) E) s"
proof (rule book_retable [OF b])
  show "finite (dom (T(w \<mapsto> t\<lparr>blocks := (blocks t)[j := - 1]\<rparr>)))" using book_finite [OF b] by simp
  fix p :: int
  assume p: "0 \<le> p"
  show "table_refs (T(w \<mapsto> t\<lparr>blocks := (blocks t)[j := - 1]\<rparr>)) p + count (add_mset (blocks t ! j) E) p
      = table_refs T p + count E p"
    using table_refs_update [OF book_finite [OF b], of w "t\<lparr>blocks := (blocks t)[j := - 1]\<rparr>" p]
      count_list_update [OF j, of "- 1" p] t p by auto
qed

text \<open>Offsets hold no references.\<close>

lemma table_refs_blocks:
  assumes "dom T' = dom T" and "\<And>w t t'. T w = Some t \<Longrightarrow> T' w = Some t' \<Longrightarrow> blocks t' = blocks t"
  shows "table_refs T' p = table_refs T p"
  unfolding table_refs_def assms(1)
proof (intro sum.cong refl)
  fix w assume "w \<in> dom T"
  then obtain t where t: "T w = Some t" by auto
  from \<open>w \<in> dom T\<close> have "w \<in> dom T'" by (simp only: assms(1))
  then obtain t' where t': "T' w = Some t'" by auto
  have "blocks t' = blocks t" by (rule assms(2) [OF t t'])
  then show "count_list (blocks (the (T' w))) p = count_list (blocks (the (T w))) p" by (simp add: t t')
qed

lemma pin_refs_update:
  assumes "map_of pins k = None"
  shows "pin_refs (AList.update k h pins) p = pin_refs pins p + (if handle_page h = p then 1 else 0)"
  unfolding update_new [OF assms] by (simp add: pin_refs_def)

lemma pin_refs_Cons: "pin_refs ((k, h) # pins) p = pin_refs pins p + (if handle_page h = p then 1 else 0)"
  by (simp add: pin_refs_def)

lemma pin_refs_delete:
  assumes "map_of pins k = Some h" and "distinct (map fst pins)"
  shows "pin_refs (AList.delete k pins) p + (if handle_page h = p then 1 else 0) = pin_refs pins p"
  using assms
proof (induction pins)
  case (Cons x pins)
  obtain k' h' where x: "x = (k', h')" by (cases x)
  show ?case
  proof (cases "k' = k")
    case True
    then have d: "AList.delete k (x # pins) = pins"
      using Cons.prems(2) x delete_absent [of k pins] by simp
    have "h' = h" using True Cons.prems(1) x by simp
    then show ?thesis unfolding d unfolding x pin_refs_Cons by simp
  next
    case False
    then have d: "AList.delete k (x # pins) = (k', h') # AList.delete k pins" by (simp add: x)
    show ?thesis using Cons.IH Cons.prems False by (simp add: x pin_refs_Cons)
  qed
qed simp

lemma book_pin_insert:
  assumes b: "book T (add_mset (handle_page h) E) s" and n: "map_of (immutable_pins s) k = None" and ok: "pin_ok s h"
  shows "book T E (s\<lparr>immutable_pins := AList.update k h (immutable_pins s)\<rparr>)"
proof -
  let ?s = "s\<lparr>immutable_pins := AList.update k h (immutable_pins s)\<rparr>"
  have c: "page_ref_count ?s p = page_ref_count s p" for p by (simp add: page_ref_count_def)
  have po: "pin_ok ?s h' = pin_ok s h'" for h' by (rule pin_ok_cong) simp_all
  have 1: "page_ref_count ?s p = int (holders T E (immutable_pins ?s) p)" if "0 \<le> p" for p
    using book_count [OF b that] pin_refs_update [OF n, of h p] by (simp add: c holders_def)
  have 2: "distinct (map fst (immutable_pins ?s))" using b by (simp add: book_def distinct_update)
  have 3: "pin_ok s h'" if "(k', h') \<in> set (immutable_pins ?s)" for k' h'
    using that ok book_pin [OF b] by (auto simp: update_new [OF n])
  have "\<forall>(k, h) \<in> set (immutable_pins ?s). pin_ok ?s h" using 3 po by auto
  moreover have "\<forall>p \<ge> 0. page_ref_count ?s p = int (holders T E (immutable_pins ?s) p)" using 1 by blast
  moreover have "\<forall>p. page_ref_count ?s p > 0 \<longrightarrow> p < allocated_pages ?s" using b by (simp add: book_def c)
  moreover have "\<forall>p \<in> set (free_pages ?s). 0 \<le> p \<and> p < allocated_pages ?s \<and> page_ref_count ?s p = 0"
    using book_free [OF b] by (simp add: c)
  moreover have "finite (dom T)" "0 \<le> allocated_pages ?s" "allocated_pages ?s \<le> max_pages ?s" "distinct (free_pages ?s)"
    using b by (simp_all add: book_def)
  ultimately show ?thesis using 2 unfolding book_def by blast
qed

end
