(* ===== verification/PagedKvPool.thy ===== *)
theory PagedKvPool
  imports PagedKvBook
begin

text \<open>
  The physical pool of \<open>ironmlx/src/core/cache/paged_kv.rs\<close>: its tensors always have \<open>page_capacity\<close>
  pages of \<open>block_size\<close> cells and cover every live page; allocation hands out a page nobody
  refers to and leaves the cells of live pages alone, also when the tensor library fails.
\<close>

section \<open>Arithmetic\<close>

lemma int_div_less: "(x div d < k) = (x < k * d)" if "0 < d" for x d k :: int
proof -
  have e: "x = x div d * d + x mod d" by simp
  have m: "0 \<le> x mod d" "x mod d < d" using that by simp_all
  have s: "(x div d + 1) * d = x div d * d + d" by (simp add: distrib_right)
  show ?thesis
  proof
    assume "x div d < k"
    then have "(x div d + 1) * d \<le> k * d" using that by (intro mult_right_mono) auto
    with s m e show "x < k * d" by linarith
  next
    assume l: "x < k * d"
    show "x div d < k"
    proof (rule ccontr)
      assume "\<not> x div d < k"
      then have "k * d \<le> x div d * d" using that by (intro mult_right_mono) auto
      with l m e show False by linarith
    qed
  qed
qed

lemma ceil_div_le_iff:
  assumes "0 < d" and "0 \<le> n"
  shows "ceil_div n d \<le> k \<longleftrightarrow> n \<le> k * d"
proof (cases "n = 0")
  case True
  then show ?thesis using assms by (simp add: ceil_div_def zero_le_mult_iff)
next
  case False
  then have "ceil_div n d = (n + d - 1) div d" using assms by (simp add: ceil_div_def)
  moreover have "((n + d - 1) div d < k + 1) = (n + d - 1 < (k + 1) * d)" by (rule int_div_less [OF assms(1)])
  moreover have "(k + 1) * d = k * d + d" by (simp add: distrib_right)
  ultimately show ?thesis by linarith
qed

lemma ceil_div_nonneg: "0 < d \<Longrightarrow> 0 \<le> ceil_div n d"
  by (simp add: ceil_div_def pos_imp_zdiv_nonneg_iff)

lemma ceil_div_mono: "0 < d \<Longrightarrow> 0 \<le> m \<Longrightarrow> m \<le> n \<Longrightarrow> ceil_div m d \<le> ceil_div n d"
  using ceil_div_le_iff [of d m "ceil_div n d"] ceil_div_le_iff [of d n "ceil_div n d"] by simp

lemma less_ceil_div_iff: "0 < d \<Longrightarrow> 0 \<le> n \<Longrightarrow> k < ceil_div n d \<longleftrightarrow> k * d < n"
  using ceil_div_le_iff [of d n k] by linarith

lemma round_up_ge:
  assumes "0 < n" and "0 < d"
  shows "n \<le> round_up n d"
  using ceil_div_le_iff [OF assms(2), of n "ceil_div n d"] assms by (simp add: round_up_def ceil_div_def)

lemma length_resize [simp]: "length (resize xs n v) = n"
  by (simp add: resize_def)

lemma nth_resize: "i < n \<Longrightarrow> resize xs n v ! i = (if i < length xs then xs ! i else v)"
  by (simp add: resize_def nth_append)

section \<open>Storage\<close>

definition store_dims :: "'c paged_kv \<Rightarrow> 'c list list option \<Rightarrow> bool" where
  "store_dims s pages =
     (case pages of
        None \<Rightarrow> page_capacity s = 0
      | Some ps \<Rightarrow> int (length ps) = page_capacity s \<and> (\<forall>pg \<in> set ps. length pg = nat (block_size s)))"

definition store_ok :: "'c paged_kv \<Rightarrow> bool" where
  "store_ok s =
     (0 \<le> page_capacity s \<and> page_capacity s \<le> max_pages s \<and> 0 < block_size s \<and> 0 < page_grow_step s
      \<and> store_dims s (k_pages s) \<and> store_dims s (v_pages s)
      \<and> (\<forall>p. page_ref_count s p > 0 \<longrightarrow> p < page_capacity s))"

definition cells :: "'c list list option \<Rightarrow> int \<Rightarrow> 'c list" where
  "cells pages p = (case pages of None \<Rightarrow> [] | Some ps \<Rightarrow> ps ! nat p)"

text \<open>The cells of live pages are the same.\<close>

definition same_cells :: "'c paged_kv \<Rightarrow> 'c paged_kv \<Rightarrow> bool" where
  "same_cells s s' = (\<forall>p. page_ref_count s p > 0 \<longrightarrow>
     cells (k_pages s') p = cells (k_pages s) p \<and> cells (v_pages s') p = cells (v_pages s) p)"

lemma same_cells_refl [simp]: "same_cells s s"
  by (simp add: same_cells_def)

lemma store_live:
  assumes "store_ok s" and "page_ref_count s p > 0"
  shows "0 \<le> p \<and> p < page_capacity s" and "length (cells (k_pages s) p) = nat (block_size s)"
    and "length (cells (v_pages s) p) = nat (block_size s)"
proof -
  show c: "0 \<le> p \<and> p < page_capacity s"
    using assms ref_count_in_range [OF assms(2)] by (simp add: store_ok_def)
  have len: "length (cells ps p) = nat (block_size s)" if "store_dims s ps" for ps
    using that c by (cases ps) (auto simp: store_dims_def cells_def nat_less_iff)
  show "length (cells (k_pages s) p) = nat (block_size s)" "length (cells (v_pages s) p) = nat (block_size s)"
    using assms(1) len by (simp_all add: store_ok_def)
qed

lemma resize_ref_count:
  "page_ref_count (s\<lparr>page_ref_counts := (if length (page_ref_counts s) < n then resize (page_ref_counts s) n 0
     else page_ref_counts s)\<rparr>) p = page_ref_count s p"
  by (auto simp: page_ref_count_def nth_resize)

lemma grow_dims:
  assumes "store_dims s ps" and "0 \<le> keep" and "keep \<le> page_capacity s" and "keep \<le> t" and "0 \<le> page_capacity s"
  shows "int (length (grow_page_tensor dev (block_size s) keep t ps)) = max 0 t"
    and "\<forall>pg \<in> set (grow_page_tensor dev (block_size s) keep t ps). length pg = nat (block_size s)"
    and "0 \<le> p \<Longrightarrow> p < keep \<Longrightarrow> grow_page_tensor dev (block_size s) keep t ps ! nat p = cells ps p"
  using assms by (auto simp: store_dims_def grow_page_tensor_def Let_def cells_def nth_append nat_less_iff
      dest: in_set_takeD split: option.splits)

lemma tensor_op_frame [simp]:
  "snd (tensor_op dev s) = s\<lparr>ticks := ticks s + 1\<rparr>"
  by (simp add: tensor_op_def)

lemma ticks_irrelevant [simp]:
  "page_ref_count (s\<lparr>ticks := n\<rparr>) p = page_ref_count s p"
  "page_generation (s\<lparr>ticks := n\<rparr>) p = page_generation s p"
  "store_dims (s\<lparr>ticks := n\<rparr>) ps = store_dims s ps"
  "store_ok (s\<lparr>ticks := n\<rparr>) = store_ok s"
  "same_cells s (s\<lparr>ticks := n\<rparr>)"
  "pool_frame s (s\<lparr>ticks := n\<rparr>)"
  by (simp_all add: page_ref_count_def page_generation_def store_dims_def store_ok_def same_cells_def pool_frame_def
      split: option.split)

definition works :: "'c kv_device \<Rightarrow> bool" where
  "works dev = (\<forall>n. dev_ok dev n)"

lemma ensure_cases:
  assumes "ensure_page_capacity dev needed s = (r, s')"
  obtains (kept) n where "s' = s\<lparr>ticks := n\<rparr>" and "r = Inr () \<Longrightarrow> needed \<le> page_capacity s"
      and "works dev \<Longrightarrow> needed \<le> max_pages s \<Longrightarrow> r = Inr ()"
  | (grown) n where "s' = grow_storage dev (min (round_up needed (page_grow_step s)) (max_pages s)) (s\<lparr>ticks := n\<rparr>)"
      and "r = Inr ()" and "page_capacity s < needed" and "needed \<le> max_pages s"
proof -
  consider "needed \<le> page_capacity s" | "page_capacity s < needed" "max_pages s < needed"
    | "page_capacity s < needed" "needed \<le> max_pages s" by linarith
  then show thesis
  proof cases
    case 1
    then have "s' = s\<lparr>ticks := ticks s\<rparr>" "r = Inr ()" using assms by (auto simp: ensure_page_capacity_def)
    with 1 show thesis by (intro kept [of "ticks s"]) auto
  next
    case 2
    then have "s' = s\<lparr>ticks := ticks s\<rparr>" "r \<noteq> Inr ()" using assms by (auto simp: ensure_page_capacity_def)
    with 2 show thesis by (intro kept [of "ticks s"]) auto
  next
    case 3
    show thesis
    proof (cases "dev_ok dev (ticks s) \<and> dev_ok dev (ticks s + 1)")
      case True
      then have "s' = grow_storage dev (min (round_up needed (page_grow_step s)) (max_pages s)) (s\<lparr>ticks := ticks s + 2\<rparr>)"
        "r = Inr ()" using assms 3 by (simp_all add: ensure_page_capacity_def tensor_op_def)
      with 3 show thesis by (intro grown)
    next
      case False
      then obtain n where "s' = s\<lparr>ticks := n\<rparr>" "r = Inl DeviceError"
        using assms 3 by (cases "dev_ok dev (ticks s)") (auto simp: ensure_page_capacity_def tensor_op_def)
      with False show thesis by (intro kept [of n]) (auto simp: works_def)
    qed
  qed
qed

lemma grow_storage_pool: "pool_frame s (grow_storage dev t s)"
  by (simp add: grow_storage_def pool_frame_def Let_def)

lemma grow_storage_frame [simp]:
  "allocated_pages (grow_storage dev t s) = allocated_pages s"
  "free_pages (grow_storage dev t s) = free_pages s" "observability (grow_storage dev t s) = observability s"
  "page_capacity (grow_storage dev t s) = t"
  "length (page_ref_counts (grow_storage dev t s)) = max (length (page_ref_counts s)) (nat t)"
  "length (page_generations (grow_storage dev t s)) = max (length (page_generations s)) (nat t)"
  by (simp_all add: grow_storage_def Let_def)

lemma grow_storage_counts [simp]:
  "page_ref_count (grow_storage dev t s) p = page_ref_count s p"
  "page_generation (grow_storage dev t s) p = page_generation s p"
  by (auto simp: grow_storage_def Let_def page_ref_count_def page_generation_def nth_resize)

lemma grow_storage_store:
  assumes ok: "store_ok s" and live: "\<And>p. page_ref_count s p > 0 \<Longrightarrow> p < allocated_pages s"
    and al: "0 \<le> allocated_pages s" and t: "page_capacity s \<le> t" "t \<le> max_pages s"
  shows "store_ok (grow_storage dev t s)" and "same_cells s (grow_storage dev t s)"
proof -
  let ?keep = "min (allocated_pages s) (page_capacity s)"
  let ?s = "grow_storage dev t s"
  have c: "0 \<le> page_capacity s" and d: "store_dims s (k_pages s)" "store_dims s (v_pages s)"
    using ok by (simp_all add: store_ok_def)
  have k: "0 \<le> ?keep" "?keep \<le> page_capacity s" "?keep \<le> t" using c al t by auto
  note gk = grow_dims [OF d(1) k c, where dev = dev] and gv = grow_dims [OF d(2) k c, where dev = dev]
  have b: "block_size ?s = block_size s" using grow_storage_pool [of s dev t] by (simp add: pool_frame_def)
  have p: "k_pages ?s = Some (grow_page_tensor dev (block_size s) ?keep t (k_pages s))"
    "v_pages ?s = Some (grow_page_tensor dev (block_size s) ?keep t (v_pages s))"
    by (simp_all add: grow_storage_def Let_def)
  have pc: "page_capacity ?s = t" by simp
  have dims: "store_dims ?s (k_pages ?s)" "store_dims ?s (v_pages ?s)"
    using gk(1,2) gv(1,2) c t unfolding store_dims_def p option.case b pc by auto
  have lv: "q < t" if "page_ref_count ?s q > 0" for q
    using that ok t(1) by (auto simp: grow_storage_counts store_ok_def)
  show "store_ok ?s"
    using ok dims lv c t grow_storage_pool [of s dev t] unfolding store_ok_def pc by (simp add: pool_frame_def)
  show "same_cells s ?s"
  proof -
    have "cells (k_pages ?s) q = cells (k_pages s) q \<and> cells (v_pages ?s) q = cells (v_pages s) q"
      if "page_ref_count s q > 0" for q
    proof -
      have "0 \<le> q" "q < ?keep" using store_live(1) [OF ok that] live [OF that] by auto
      then show ?thesis using gk(3) gv(3) by (simp add: p cells_def)
    qed
    then show ?thesis by (simp add: same_cells_def)
  qed
qed

text \<open>Growing the tensors changes no count, no generation and no live cell.\<close>

lemma ensure_page_capacity_facts:
  assumes e: "ensure_page_capacity dev needed s = (r, s')" and ok: "store_ok s"
    and live: "\<And>p. page_ref_count s p > 0 \<Longrightarrow> p < allocated_pages s" and al: "0 \<le> allocated_pages s"
    and n: "0 < needed"
  shows "pool_frame s s' \<and> store_ok s' \<and> same_cells s s' \<and> allocated_pages s' = allocated_pages s
      \<and> free_pages s' = free_pages s \<and> observability s' = observability s"
    and "page_ref_count s' p = page_ref_count s p" and "page_generation s' p = page_generation s p"
    and "r = Inr () \<Longrightarrow> needed \<le> page_capacity s'"
    and "works dev \<Longrightarrow> needed \<le> max_pages s \<Longrightarrow> r = Inr ()"
    and "length (page_ref_counts s) \<le> length (page_ref_counts s') \<and> length (page_generations s) \<le> length (page_generations s')"
proof -
  have g: "0 < page_grow_step s" using ok by (simp add: store_ok_def)
  have "(pool_frame s s' \<and> store_ok s' \<and> same_cells s s' \<and> allocated_pages s' = allocated_pages s
      \<and> free_pages s' = free_pages s \<and> observability s' = observability s)
    \<and> page_ref_count s' p = page_ref_count s p \<and> page_generation s' p = page_generation s p
    \<and> (r = Inr () \<longrightarrow> needed \<le> page_capacity s') \<and> (works dev \<longrightarrow> needed \<le> max_pages s \<longrightarrow> r = Inr ())
    \<and> length (page_ref_counts s) \<le> length (page_ref_counts s') \<and> length (page_generations s) \<le> length (page_generations s')"
    using e
  proof (cases rule: ensure_cases)
    case (kept n)
    then show ?thesis using ok by simp
  next
    case (grown m)
    let ?t = "min (round_up needed (page_grow_step s)) (max_pages s)"
    let ?s = "s\<lparr>ticks := m\<rparr>"
    have t: "needed \<le> ?t" using round_up_ge [OF n g] grown by simp
    have "store_ok ?s" using ok by simp
    note st = grow_storage_store [OF this, of ?t dev]
    have "same_cells s s'" "store_ok s'"
      using st t grown live al by (simp_all add: same_cells_def)
    then show ?thesis using t grown grow_storage_pool [of ?s dev ?t] by (simp add: pool_frame_def)
  qed
  then show "pool_frame s s' \<and> store_ok s' \<and> same_cells s s' \<and> allocated_pages s' = allocated_pages s
      \<and> free_pages s' = free_pages s \<and> observability s' = observability s"
    and "page_ref_count s' p = page_ref_count s p" and "page_generation s' p = page_generation s p"
    and "r = Inr () \<Longrightarrow> needed \<le> page_capacity s'"
    and "works dev \<Longrightarrow> needed \<le> max_pages s \<Longrightarrow> r = Inr ()"
    and "length (page_ref_counts s) \<le> length (page_ref_counts s') \<and> length (page_generations s) \<le> length (page_generations s')"
    by blast+
qed

section \<open>Allocation\<close>

lemma book_transfer:
  assumes "book T E s" and "pool_frame s s'" and "\<And>p. page_ref_count s' p = page_ref_count s p"
    and "\<And>p. page_generation s' p = page_generation s p" and "allocated_pages s' = allocated_pages s"
    and "free_pages s' = free_pages s"
  shows "book T E s'"
proof -
  have f: "immutable_pins s' = immutable_pins s" "max_pages s' = max_pages s"
    "max_blocks_per_row s' = max_blocks_per_row s" using assms(2) by (simp_all add: pool_frame_def)
  have "pin_ok s' h = pin_ok s h" for h by (simp add: pin_ok_def assms f)
  then have "\<forall>(k, h) \<in> set (immutable_pins s). pin_ok s' h" using book_pin [OF assms(1)] by auto
  then show ?thesis using assms(1) unfolding book_def assms(3,5,6) f by blast
qed

lemma take_page_facts:
  assumes b: "book T E s" and t: "take_page s = (Inr p, s1)"
  shows "pool_frame s s1 \<and> store_ok s1 = store_ok s \<and> same_cells s s1 \<and> observability s1 = observability s"
    and "page_ref_count s1 q = page_ref_count s q" and "page_generation s1 q = page_generation s q"
    and "book T E s1" and "0 \<le> p \<and> p < allocated_pages s1 \<and> allocated_pages s1 \<le> max_pages s1"
    and "page_ref_count s p = 0" and "p \<notin> set (free_pages s1)"
    and "q \<in> set (free_pages s) \<Longrightarrow> q \<noteq> p \<Longrightarrow> q \<in> set (free_pages s1)"
    and "allocated_pages s1 = (if free_pages s = [] then allocated_pages s + 1 else allocated_pages s)"
    and "free_pages s = [] \<Longrightarrow> p = allocated_pages s"
proof -
  have rc: "page_ref_count s (allocated_pages s) = 0" by (rule book_unallocated [OF b]) simp
  have s1: "s1 = (if free_pages s = [] then s\<lparr>allocated_pages := allocated_pages s + 1\<rparr>
      else s\<lparr>free_pages := butlast (free_pages s)\<rparr>)"
    using t by (auto simp: take_page_def split: if_splits)
  show *: "pool_frame s s1 \<and> store_ok s1 = store_ok s \<and> same_cells s s1 \<and> observability s1 = observability s"
    by (simp add: s1 pool_frame_def store_ok_def store_dims_def same_cells_def page_ref_count_def split: option.split)
  show **: "page_ref_count s1 q = page_ref_count s q" "page_generation s1 q = page_generation s q" for q
    by (rule page_ref_count_cong page_generation_cong, simp add: s1)+
  show al: "allocated_pages s1 = (if free_pages s = [] then allocated_pages s + 1 else allocated_pages s)"
    using t by (auto simp: take_page_def split: if_splits)
  have fr: "free_pages s1 = butlast (free_pages s)" using t by (auto simp: take_page_def split: if_splits)
  have p: "p = (if free_pages s = [] then allocated_pages s else last (free_pages s))"
    using t by (auto simp: take_page_def split: if_splits)
  then show "free_pages s = [] \<Longrightarrow> p = allocated_pages s" by simp
  have mx: "allocated_pages s1 \<le> max_pages s1"
    using t b by (auto simp: take_page_def book_def split: if_splits)
  have a0: "0 \<le> allocated_pages s" using b by (simp add: book_def)
  have inf: "0 \<le> p \<and> p < allocated_pages s \<and> page_ref_count s p = 0" if "free_pages s \<noteq> []"
    using book_free [OF b, of p] that by (simp add: p)
  then show "page_ref_count s p = 0" using rc p by (cases "free_pages s = []") auto
  show "0 \<le> p \<and> p < allocated_pages s1 \<and> allocated_pages s1 \<le> max_pages s1"
    using inf a0 mx p al by (cases "free_pages s = []") auto
  have d: "distinct (free_pages s)" using b by (simp add: book_def)
  show "p \<notin> set (free_pages s1)"
  proof (cases "free_pages s = []")
    case False
    then have "distinct (butlast (free_pages s) @ [p])" using d p by simp
    then show ?thesis by (simp add: fr)
  qed (simp add: fr)
  show "q \<in> set (free_pages s) \<Longrightarrow> q \<noteq> p \<Longrightarrow> q \<in> set (free_pages s1)" for q
  proof -
    assume q: "q \<in> set (free_pages s)" "q \<noteq> p"
    then have ne: "free_pages s \<noteq> []" by auto
    then have "free_pages s = free_pages s1 @ [p]" using p fr by simp
    then have "set (free_pages s) = insert p (set (free_pages s1))" by (metis Un_insert_right list.simps(15) set_append append_Nil2 list.set(1))
    with q show ?thesis by simp
  qed
  have po: "pin_ok s1 h = pin_ok s h" for h
    using * by (simp add: pin_ok_def ** pool_frame_def)
  have f: "immutable_pins s1 = immutable_pins s" using * by (simp add: pool_frame_def)
  have 1: "\<forall>q. page_ref_count s1 q > 0 \<longrightarrow> q < allocated_pages s1"
    using book_live [OF b] by (fastforce simp: ** al)
  have 2: "\<forall>q \<in> set (free_pages s1). 0 \<le> q \<and> q < allocated_pages s1 \<and> page_ref_count s1 q = 0"
    using book_free [OF b] by (auto simp: ** al fr dest: in_set_butlastD)
  have 3: "distinct (free_pages s1)" using d by (simp add: fr distinct_butlast)
  have 4: "\<forall>q \<ge> 0. page_ref_count s1 q = int (holders T E (immutable_pins s1) q)"
    using book_count [OF b] by (simp add: ** f)
  have 5: "\<forall>(k, h) \<in> set (immutable_pins s1). pin_ok s1 h" "distinct (map fst (immutable_pins s1))" "finite (dom T)"
    using b by (auto simp: po f book_def)
  have 6: "0 \<le> allocated_pages s1" using a0 by (simp add: al)
  show "book T E s1" unfolding book_def using 1 2 3 4 5 6 mx by blast
qed

definition claim_page :: "int \<Rightarrow> 'c paged_kv \<Rightarrow> 'c paged_kv" where
  "claim_page p s = bump_generation p (set_page_ref_count p 1 s)"

lemma claim_page_frame [simp]:
  "pool_frame s (claim_page p s)" "allocated_pages (claim_page p s) = allocated_pages s"
  "free_pages (claim_page p s) = free_pages s" "observability (claim_page p s) = observability s"
  "k_pages (claim_page p s) = k_pages s" "v_pages (claim_page p s) = v_pages s"
  "page_capacity (claim_page p s) = page_capacity s"
  "length (page_ref_counts (claim_page p s)) = max (length (page_ref_counts s)) (nat p + 1)"
  "length (page_generations (claim_page p s)) = max (length (page_generations s)) (nat p + 1)"
  by (simp_all add: claim_page_def bump_generation_def set_page_ref_count_def Let_def pool_frame_def)

lemma claim_page_counts:
  assumes "0 \<le> p"
  shows "page_ref_count (claim_page p s) q = (if q = p then 1 else page_ref_count s q)"
    and "page_generation (claim_page p s) q =
      (if q = p then max (sat_add (page_generation s p) 1) 1 else page_generation s q)"
  using assms by (auto simp: claim_page_def bump_generation_def set_page_ref_count_def Let_def page_ref_count_def
      page_generation_def nth_list_update nth_resize eq_nat_nat_iff)

lemma claim_page_book:
  assumes b: "book T E s" and p: "0 \<le> p" "p < allocated_pages s" "page_ref_count s p = 0" "p \<notin> set (free_pages s)"
  shows "book T (add_mset p E) (claim_page p s)"
proof -
  let ?s = "claim_page p s"
  note c = claim_page_counts [OF p(1), of s]
  have f: "immutable_pins ?s = immutable_pins s" "max_pages ?s = max_pages s" "max_blocks_per_row ?s = max_blocks_per_row s"
    using claim_page_frame(1) [of s p] by (simp_all add: pool_frame_def)
  have h: "holders T E (immutable_pins s) p = 0" using book_count [OF b p(1)] p(3) by simp
  have 1: "\<forall>q \<ge> 0. page_ref_count ?s q = int (holders T (add_mset p E) (immutable_pins ?s) q)"
    using book_count [OF b] h by (auto simp: c f holders_def)
  have 2: "\<forall>q. page_ref_count ?s q > 0 \<longrightarrow> q < allocated_pages ?s"
    using book_live [OF b] p(2) by (auto simp: c)
  have 3: "\<forall>q \<in> set (free_pages ?s). 0 \<le> q \<and> q < allocated_pages ?s \<and> page_ref_count ?s q = 0"
    using book_free [OF b] p(4) by (auto simp: c)
  have 4: "pin_ok ?s h" if "(k, h) \<in> set (immutable_pins s)" for k h
  proof -
    have "handle_page h \<noteq> p"
    proof
      assume e: "handle_page h = p"
      have "0 < pin_refs (immutable_pins s) p" using that e by (auto simp: pin_refs_def filter_empty_conv)
      then show False using h by (simp add: holders_def pin_refs_def)
    qed
    then show ?thesis using book_pin [OF b that] by (simp add: pin_ok_def c f)
  qed
  show ?thesis using b 1 2 3 4 unfolding book_def f by auto
qed

lemma allocate_page_facts:
  assumes b: "book T E s" and ok: "store_ok s" and a: "allocate_page dev s = (r, s')"
  shows "pool_frame s s' \<and> store_ok s' \<and> same_cells s s' \<and> observability s' = observability s"
    and "r = Inl e \<Longrightarrow> book T E s'"
    and "r = Inr p \<Longrightarrow> book T (add_mset p E) s' \<and> 0 \<le> p \<and> page_ref_count s p = 0
      \<and> page_ref_count s' p = 1 \<and> page_generation s' p = max (sat_add (page_generation s p) 1) 1"
    and "r = Inr p \<Longrightarrow> q \<noteq> p \<Longrightarrow> page_ref_count s' q = page_ref_count s q \<and> page_generation s' q = page_generation s q"
    and "works dev \<Longrightarrow> no_leak s \<Longrightarrow> no_leak s'"
    and "works dev \<Longrightarrow> (\<exists>p. r = Inr p) \<longleftrightarrow> free_pages s \<noteq> [] \<or> allocated_pages s < max_pages s"
proof -
  have "(pool_frame s s' \<and> store_ok s' \<and> same_cells s s' \<and> observability s' = observability s)
    \<and> (\<forall>e. r = Inl e \<longrightarrow> book T E s')
    \<and> (\<forall>p. r = Inr p \<longrightarrow> (book T (add_mset p E) s' \<and> 0 \<le> p \<and> page_ref_count s p = 0
          \<and> page_ref_count s' p = 1 \<and> page_generation s' p = max (sat_add (page_generation s p) 1) 1)
        \<and> (\<forall>q. q \<noteq> p \<longrightarrow> page_ref_count s' q = page_ref_count s q \<and> page_generation s' q = page_generation s q))
    \<and> (works dev \<longrightarrow> no_leak s \<longrightarrow> no_leak s')
    \<and> (works dev \<longrightarrow> (\<exists>p. r = Inr p) \<longleftrightarrow> free_pages s \<noteq> [] \<or> allocated_pages s < max_pages s)"
  proof (cases "fst (take_page s)")
    case (Inl e0)
    then have n: "free_pages s = []" "max_pages s \<le> allocated_pages s" "take_page s = (Inl PagesExhausted, s)"
      by (simp_all add: take_page_def split: if_splits)
    then have "r = Inl PagesExhausted" "s' = s" using a by (simp_all add: allocate_page_def)
    then show ?thesis using b ok n by simp
  next
    case (Inr p)
    then obtain s1 where t: "take_page s = (Inr p, s1)" by (cases "take_page s") auto
    note tp = take_page_facts [OF b t]
    obtain r2 s2 where e: "ensure_page_capacity dev (p + 1) s1 = (r2, s2)" by fastforce
    have ok1: "store_ok s1" using tp(1) ok by simp
    have live1: "\<And>q. page_ref_count s1 q > 0 \<Longrightarrow> q < allocated_pages s1" using book_live [OF tp(4)] by simp
    have al1: "0 \<le> allocated_pages s1" using tp(5) by simp
    have p1: "0 < p + 1" using tp(5) by simp
    note ec = ensure_page_capacity_facts [OF e ok1 live1 al1 p1]
    have b2: "book T E s2" by (rule book_transfer [OF tp(4)]) (use ec in auto)
    have fr: "pool_frame s s2" using tp(1) ec(1) pool_frame_trans by blast
    have sc: "same_cells s s2" using tp(1,2) ec(1) by (simp add: same_cells_def)
    have need: "p + 1 \<le> max_pages s1" using tp(5) by simp
    show ?thesis
    proof (cases r2)
      case (Inl e1)
      then have r: "r = Inl e1" "s' = s2" using a t e by (simp_all add: allocate_page_def)
      have "\<not> works dev" using ec(5) need Inl by auto
      then show ?thesis using r b2 fr sc ec(1) tp(1) by simp
    next
      case ok2: (Inr u)
      then have r: "r = Inr p" "s' = claim_page p s2"
        using a t e by (simp_all add: allocate_page_def claim_page_def)
      have cap: "p + 1 \<le> page_capacity s2" using ec(4) ok2 by simp
      note c = claim_page_counts [of p s2]
      have p0: "0 \<le> p" using tp(5) by simp
      have z: "page_ref_count s2 p = 0" "page_generation s2 q = page_generation s q"
        "page_ref_count s2 q = page_ref_count s q" for q
        using ec(2,3) tp(2,3,6) by simp_all
      have bk: "book T (add_mset p E) (claim_page p s2)"
        by (rule claim_page_book [OF b2]) (use tp(5,7) ec(1) z in auto)
      have st: "store_ok (claim_page p s2)"
        using ec(1) cap claim_page_frame(1) [of s2 p] unfolding store_ok_def
        by (auto simp: c [OF p0] pool_frame_def store_dims_def split: option.splits)
      have sc': "same_cells s (claim_page p s2)" using sc by (simp add: same_cells_def)
      have av: "free_pages s \<noteq> [] \<or> allocated_pages s < max_pages s"
        using t by (auto simp: take_page_def split: if_splits)
      have nl: "no_leak (claim_page p s2)" if "no_leak s"
      proof -
        have al: "allocated_pages s2 = (if free_pages s = [] then p + 1 else allocated_pages s)"
          using ec(1) tp(9,10) by simp
        have len: "nat (allocated_pages s2) \<le> max (length (page_ref_counts s2)) (nat p + 1)"
          "nat (allocated_pages s2) \<le> max (length (page_generations s2)) (nat p + 1)"
        proof -
          have "length (page_ref_counts s) \<le> length (page_ref_counts s2)"
            "length (page_generations s) \<le> length (page_generations s2)"
            using ec(6) t by (auto simp: take_page_def split: if_splits)
          then show "nat (allocated_pages s2) \<le> max (length (page_ref_counts s2)) (nat p + 1)"
            "nat (allocated_pages s2) \<le> max (length (page_generations s2)) (nat p + 1)"
            using that p0 by (auto simp: al no_leak_def nat_add_distrib)
        qed
        have "q \<in> set (free_pages s2)" if q: "0 \<le> q" "q < allocated_pages s2" "q \<noteq> p" "page_ref_count s q = 0" for q
        proof -
          have "q < allocated_pages s" using q tp(10) by (auto simp: al split: if_splits)
          then have "q \<in> set (free_pages s)" using \<open>no_leak s\<close> q by (simp add: no_leak_def)
          then show ?thesis using tp(8) q(3) ec(1) by simp
        qed
        then show ?thesis using len unfolding no_leak_def by (auto simp: c [OF p0] z)
      qed
      have fr': "pool_frame s (claim_page p s2)" by (rule pool_frame_trans [OF fr]) simp
      show ?thesis using r bk st sc' fr' av nl p0 z tp(1,6) ec(1) by (auto simp: c [OF p0])
    qed
  qed
  then show "pool_frame s s' \<and> store_ok s' \<and> same_cells s s' \<and> observability s' = observability s"
    and "r = Inl e \<Longrightarrow> book T E s'"
    and "r = Inr p \<Longrightarrow> book T (add_mset p E) s' \<and> 0 \<le> p \<and> page_ref_count s p = 0
      \<and> page_ref_count s' p = 1 \<and> page_generation s' p = max (sat_add (page_generation s p) 1) 1"
    and "r = Inr p \<Longrightarrow> q \<noteq> p \<Longrightarrow> page_ref_count s' q = page_ref_count s q \<and> page_generation s' q = page_generation s q"
    and "works dev \<Longrightarrow> no_leak s \<Longrightarrow> no_leak s'"
    and "works dev \<Longrightarrow> (\<exists>p. r = Inr p) \<longleftrightarrow> free_pages s \<noteq> [] \<or> allocated_pages s < max_pages s"
    by blast+
qed

end
