(* ===== verification/PagedKvRows.thy ===== *)
theory PagedKvRows
  imports PagedKvPool
begin

text \<open>
  Rows and owners of \<open>ironmlx/src/core/cache/paged_kv.rs\<close>: the shape invariant, the table an owner
  currently has (its execution row when it is bound, its stored table otherwise), and
  \<open>commit_execution_rows\<close>, which stores the rows without changing that table.
\<close>

definition is_immutable :: "block_owner \<Rightarrow> bool" where
  "is_immutable w = (case w of Immutable _ \<Rightarrow> True | _ \<Rightarrow> False)"

definition rows_ok :: "'c paged_kv \<Rightarrow> bool" where
  "rows_ok s =
     (batch s = int (length (execution_owners s))
      \<and> length (block_tables s) = length (execution_owners s)
      \<and> length (row_offsets s) = length (execution_owners s)
      \<and> distinct (execution_owners s) \<and> distinct (map fst (owned_tables s))
      \<and> set (execution_owners s) \<subseteq> fst ` set (owned_tables s)
      \<and> (\<forall>(w, t) \<in> set (owned_tables s). \<not> is_immutable w \<and> length (blocks t) = nat (max_blocks_per_row s))
      \<and> (\<forall>row \<in> set (block_tables s). length row = nat (max_blocks_per_row s))
      \<and> 0 < max_blocks_per_row s \<and> 0 \<le> cap s \<and> cap s \<le> max_blocks_per_row s * block_size s)"

definition fresh_ok :: "'c paged_kv \<Rightarrow> bool" where
  "fresh_ok s = (\<forall>n. Transient n \<in> fst ` set (owned_tables s) \<longrightarrow> n < next_transient_owner s)"

text \<open>An offset never runs past the blocks that have pages.\<close>

definition table_ok :: "'c paged_kv \<Rightarrow> owned_table \<Rightarrow> bool" where
  "table_ok s t = (0 \<le> offset t \<and> offset t \<le> cap s \<and> length (blocks t) = nat (max_blocks_per_row s)
     \<and> (\<forall>j < length (blocks t). int j * block_size s < offset t \<longrightarrow> 0 \<le> blocks t ! j))"

definition cover_ok :: "'c paged_kv \<Rightarrow> bool" where
  "cover_ok s = (\<forall>w t. tables s w = Some t \<longrightarrow> table_ok s t)"

definition synced :: "'c paged_kv \<Rightarrow> bool" where
  "synced s = (map_of (owned_tables s) = tables s)"

section \<open>The table of an owner\<close>

lemma tables_row:
  assumes "rows_ok s" and "row < length (execution_owners s)"
  shows "tables s (execution_owners s ! row) = Some \<lparr>blocks = block_tables s ! row, offset = row_offsets s ! row\<rparr>"
proof -
  let ?ys = "zip (block_tables s) (row_offsets s)"
  have "map_of (zip (execution_owners s) ?ys) (execution_owners s ! row) = Some (?ys ! row)"
    using assms by (intro map_of_zip_nth) (simp_all add: rows_ok_def)
  then show ?thesis using assms by (simp add: tables_def rows_ok_def)
qed

lemma row_of:
  assumes "w \<in> set (execution_owners s)"
  obtains row where "row < length (execution_owners s)" and "execution_owners s ! row = w"
  using assms by (auto simp: in_set_conv_nth)

lemma row_unique:
  "rows_ok s \<Longrightarrow> i < length (execution_owners s) \<Longrightarrow> j < length (execution_owners s) \<Longrightarrow>
     execution_owners s ! i = execution_owners s ! j \<Longrightarrow> i = j"
  by (simp add: rows_ok_def nth_eq_iff_index_eq)

lemma tables_unbound:
  assumes "w \<notin> set (execution_owners s)"
  shows "tables s w = map_of (owned_tables s) w"
proof -
  have "map_of (zip (execution_owners s) (zip (block_tables s) (row_offsets s))) w = None"
    using assms by (auto simp: map_of_eq_None_iff dest: set_zip_leftD)
  then show ?thesis by (simp add: tables_def)
qed

lemma tables_dom:
  assumes "rows_ok s"
  shows "dom (tables s) = fst ` set (owned_tables s)"
proof (rule set_eqI)
  fix w
  show "w \<in> dom (tables s) \<longleftrightarrow> w \<in> fst ` set (owned_tables s)"
  proof (cases "w \<in> set (execution_owners s)")
    case True
    then obtain row where "row < length (execution_owners s)" "execution_owners s ! row = w" by (rule row_of)
    then have "w \<in> dom (tables s)" using tables_row [OF assms] by auto
    then show ?thesis using True assms by (auto simp: rows_ok_def)
  next
    case False
    then show ?thesis by (simp add: dom_def tables_unbound dom_map_of_conv_image_fst [unfolded dom_def])
        (simp add: dom_map_of_conv_image_fst [unfolded dom_def, symmetric])
  qed
qed

lemma tables_finite: "rows_ok s \<Longrightarrow> finite (dom (tables s))"
  by (simp add: tables_dom)

text \<open>Two states with the same owners have the same tables off their rows.\<close>

lemma tables_eqI:
  assumes ok: "rows_ok s" "rows_ok s'" and e: "execution_owners s' = execution_owners s"
    and u: "\<And>w. w \<notin> set (execution_owners s) \<Longrightarrow> map_of (owned_tables s') w = T w"
    and r: "\<And>row. row < length (execution_owners s) \<Longrightarrow>
      T (execution_owners s ! row) = Some \<lparr>blocks = block_tables s' ! row, offset = row_offsets s' ! row\<rparr>"
  shows "tables s' = T"
proof (rule ext)
  fix w
  show "tables s' w = T w"
  proof (cases "w \<in> set (execution_owners s)")
    case True
    then obtain row where "row < length (execution_owners s)" "execution_owners s ! row = w" by (rule row_of)
    then show ?thesis using r tables_row [OF ok(2), of row] e by auto
  next
    case False
    then show ?thesis using u tables_unbound [of w s'] e by simp
  qed
qed

lemma tables_length:
  assumes "rows_ok s" and "tables s w = Some t"
  shows "length (blocks t) = nat (max_blocks_per_row s)"
proof (cases "w \<in> set (execution_owners s)")
  case True
  then obtain row where "row < length (execution_owners s)" "execution_owners s ! row = w" by (rule row_of)
  then show ?thesis using tables_row [OF assms(1)] assms by (auto simp: rows_ok_def)
next
  case False
  then have "(w, t) \<in> set (owned_tables s)" using assms(2) by (simp add: tables_unbound map_of_SomeD)
  then show ?thesis using assms(1) by (auto simp: rows_ok_def)
qed

section \<open>Writing one row\<close>

definition write_row :: "nat \<Rightarrow> int list \<Rightarrow> int \<Rightarrow> 'c paged_kv \<Rightarrow> 'c paged_kv" where
  "write_row row b x s = s\<lparr>block_tables := (block_tables s)[row := b], row_offsets := (row_offsets s)[row := x]\<rparr>"

lemma write_row_rows_ok:
  assumes "rows_ok s" and "length b = nat (max_blocks_per_row s)"
  shows "rows_ok (write_row row b x s)"
  using assms set_update_subset_insert [of "block_tables s" row b]
  by (auto simp: rows_ok_def write_row_def)

lemma write_row_tables:
  assumes "rows_ok s" and "length b = nat (max_blocks_per_row s)" and "row < length (execution_owners s)"
  shows "tables (write_row row b x s) = (tables s)(execution_owners s ! row \<mapsto> \<lparr>blocks = b, offset = x\<rparr>)"
proof (rule tables_eqI [OF assms(1) write_row_rows_ok [OF assms(1,2)]])
  show "execution_owners (write_row row b x s) = execution_owners s" by (simp add: write_row_def)
  show "map_of (owned_tables (write_row row b x s)) w = ((tables s)(execution_owners s ! row \<mapsto> \<lparr>blocks = b, offset = x\<rparr>)) w"
    if "w \<notin> set (execution_owners s)" for w
  proof -
    have "w \<noteq> execution_owners s ! row" using that assms(3) by auto
    then show ?thesis using that by (simp add: write_row_def tables_unbound)
  qed
  show "((tables s)(execution_owners s ! row \<mapsto> \<lparr>blocks = b, offset = x\<rparr>)) (execution_owners s ! j) =
      Some \<lparr>blocks = block_tables (write_row row b x s) ! j, offset = row_offsets (write_row row b x s) ! j\<rparr>"
    if "j < length (execution_owners s)" for j
  proof (cases "j = row")
    case True
    then show ?thesis using assms(1,3) by (simp add: write_row_def rows_ok_def)
  next
    case False
    then have "execution_owners s ! j \<noteq> execution_owners s ! row"
      using row_unique [OF assms(1) that assms(3)] by blast
    then show ?thesis using tables_row [OF assms(1) that] False by (simp add: write_row_def)
  qed
qed

section \<open>Committing\<close>

lemma commit_rows_ok:
  assumes "\<forall>x \<in> set rs. map_of al (fst x) \<noteq> None" and "distinct (map fst rs)"
  shows "\<exists>al'. commit_rows rs al = (Inr (), al') \<and> map fst al' = map fst al
    \<and> (\<forall>w. map_of al' w = (case map_of rs w of Some (b, x) \<Rightarrow> Some \<lparr>blocks = b, offset = x\<rparr> | None \<Rightarrow> map_of al w))"
  using assms
proof (induction rs arbitrary: al)
  case (Cons r rs)
  obtain w b x where r: "r = (w, b, x)" by (cases r) auto
  let ?al = "AList.update w \<lparr>blocks = b, offset = x\<rparr> al"
  have k: "map fst ?al = map fst al"
  proof -
    have "w \<in> fst ` set al" using Cons.prems(1) r by (auto simp: map_of_eq_None_iff)
    then show ?thesis by (simp add: update_keys)
  qed
  have "\<forall>x \<in> set rs. map_of ?al (fst x) \<noteq> None" using Cons.prems by (auto simp: update_conv')
  from Cons.IH [OF this] Cons.prems(2) r obtain al' where al': "commit_rows rs ?al = (Inr (), al')"
    "map fst al' = map fst ?al"
    "\<And>v. map_of al' v = (case map_of rs v of Some (b, x) \<Rightarrow> Some \<lparr>blocks = b, offset = x\<rparr> | None \<Rightarrow> map_of ?al v)"
    by auto
  have n: "map_of rs w = None" using Cons.prems(2) r by (simp add: map_of_eq_None_iff)
  have "commit_rows (r # rs) al = (Inr (), al')" using Cons.prems(1) r al'(1) by auto
  moreover have "map_of al' v = (case map_of (r # rs) v of Some (b, x) \<Rightarrow> Some \<lparr>blocks = b, offset = x\<rparr>
      | None \<Rightarrow> map_of al v)" for v
    using al'(3) [of v] n r by (auto simp: update_conv' split: option.splits)
  ultimately show ?case using al'(2) k by auto
qed simp

text \<open>Committing always succeeds on a well-shaped cache and stores what the rows say.\<close>

lemma commit_ok:
  assumes ok: "rows_ok s"
  obtains al where "commit_execution_rows s = (Inr (), s\<lparr>owned_tables := al\<rparr>)"
    and "map_of al = tables s" and "map fst al = map fst (owned_tables s)"
proof -
  let ?rs = "zip (execution_owners s) (zip (block_tables s) (row_offsets s))"
  have l: "length (execution_owners s) = length (zip (block_tables s) (row_offsets s))" using ok by (simp add: rows_ok_def)
  have d: "distinct (map fst ?rs)" using ok l by (simp add: rows_ok_def)
  have k: "\<forall>x \<in> set ?rs. map_of (owned_tables s) (fst x) \<noteq> None"
  proof
    fix x assume "x \<in> set ?rs"
    then have "(fst x, snd x) \<in> set ?rs" by simp
    then have "fst x \<in> set (execution_owners s)" by (rule set_zip_leftD)
    then show "map_of (owned_tables s) (fst x) \<noteq> None" using ok by (auto simp: rows_ok_def map_of_eq_None_iff)
  qed
  from commit_rows_ok [OF k d] obtain al where al: "commit_rows ?rs (owned_tables s) = (Inr (), al)"
    "map fst al = map fst (owned_tables s)"
    "\<And>w. map_of al w = (case map_of ?rs w of Some (b, x) \<Rightarrow> Some \<lparr>blocks = b, offset = x\<rparr> | None \<Rightarrow> map_of (owned_tables s) w)"
    by auto
  have "commit_execution_rows s = (Inr (), s\<lparr>owned_tables := al\<rparr>)"
    using ok al(1) by (simp add: commit_execution_rows_def rows_ok_def)
  moreover have "map_of al = tables s" by (rule ext) (simp add: al(3) tables_def)
  ultimately show thesis using al(2) that by blast
qed

lemma committed_rows_ok:
  assumes ok: "rows_ok s" and al: "map_of al = tables s" "map fst al = map fst (owned_tables s)"
  shows "rows_ok (s\<lparr>owned_tables := al\<rparr>)" and "tables (s\<lparr>owned_tables := al\<rparr>) = tables s"
    and "synced (s\<lparr>owned_tables := al\<rparr>)"
proof -
  have d: "distinct (map fst al)" using ok al(2) by (simp add: rows_ok_def)
  have "\<not> is_immutable w \<and> length (blocks t) = nat (max_blocks_per_row s)" if "(w, t) \<in> set al" for w t
  proof -
    have "tables s w = Some t" using that d al(1) by (metis map_of_is_SomeI)
    moreover have "w \<in> fst ` set (owned_tables s)" using that al(2) by (metis fst_conv image_eqI list.set_map)
    ultimately show ?thesis using tables_length [OF ok] ok by (auto simp: rows_ok_def)
  qed
  moreover have "fst ` set al = fst ` set (owned_tables s)" using al(2) by (metis list.set_map)
  ultimately show ok': "rows_ok (s\<lparr>owned_tables := al\<rparr>)" using ok d by (auto simp: rows_ok_def)
  show t: "tables (s\<lparr>owned_tables := al\<rparr>) = tables s"
    by (rule tables_eqI [OF ok ok']) (simp_all add: al(1) tables_row [OF ok])
  show "synced (s\<lparr>owned_tables := al\<rparr>)" by (simp add: synced_def t al(1))
qed

end
