(* ===== verification/PagedKvCheck.thy ===== *)
theory PagedKvCheck
  imports PagedKvRows
begin

text \<open>
  \<open>validate_owner_invariants\<close> of \<open>ironmlx/src/core/cache/paged_kv.rs\<close>: the checker that every owner
  operation runs, and the declarative statement it decides.
\<close>

section \<open>What the counting loops compute\<close>

definition add_counts :: "int list \<Rightarrow> (int \<Rightarrow> nat) \<Rightarrow> int list" where
  "add_counts cs f = map (\<lambda>i. cs ! i + int (f (int i))) [0..<length cs]"

lemma add_counts_length [simp]: "length (add_counts cs f) = length cs"
  by (simp add: add_counts_def)

lemma add_counts_nth [simp]: "i < length cs \<Longrightarrow> add_counts cs f ! i = cs ! i + int (f (int i))"
  by (simp add: add_counts_def)

lemma add_counts_twice: "add_counts (add_counts cs f) g = add_counts cs (\<lambda>p. f p + g p)"
  by (rule nth_equalityI) simp_all

lemma add_counts_bump:
  assumes "0 \<le> p" and "nat p < length cs"
  shows "add_counts (cs[nat p := cs ! nat p + 1]) f = add_counts cs (\<lambda>q. f q + (if q = p then 1 else 0))"
  using assms by (intro nth_equalityI) (auto simp: nth_list_update)

lemma add_counts_zero [simp]: "add_counts cs (\<lambda>p. 0) = cs"
  by (rule nth_equalityI) simp_all

lemma add_counts_cong: "(\<And>p. 0 \<le> p \<Longrightarrow> f p = g p) \<Longrightarrow> add_counts cs f = add_counts cs g"
  by (rule nth_equalityI) simp_all

lemma count_blocks_spec:
  "count_blocks ps cs = (if \<forall>p \<in> set ps. p < int (length cs) then Inr (add_counts cs (count_list ps)) else Inl InvariantBroken)"
proof (induction ps arbitrary: cs)
  case Nil
  have "add_counts cs (count_list []) = cs" by (rule nth_equalityI) simp_all
  then show ?case by simp
next
  case (Cons p ps)
  show ?case
  proof (cases "p < 0")
    case True
    have "add_counts cs (count_list ps) = add_counts cs (count_list (p # ps))"
      using True by (intro add_counts_cong) auto
    moreover have "(\<forall>q \<in> set (p # ps). q < int (length cs)) = (\<forall>q \<in> set ps. q < int (length cs))"
      using True by auto
    moreover have "count_blocks (p # ps) cs = count_blocks ps cs" using True by simp
    ultimately show ?thesis by (simp only: Cons.IH)
  next
    case False
    then have e: "nat p < length cs \<longleftrightarrow> p < int (length cs)" by (simp add: nat_less_iff)
    have "add_counts (cs[nat p := cs ! nat p + 1]) (count_list ps) = add_counts cs (count_list (p # ps))"
      if "p < int (length cs)"
      using add_counts_bump [of p cs "count_list ps"] False that e
      by (simp add: add_counts_cong [of "\<lambda>q. count_list ps q + (if q = p then 1 else 0)" "count_list (p # ps)"])
    moreover have "(\<forall>q \<in> set (p # ps). q < int (length cs)) \<longleftrightarrow> p < int (length cs) \<and> (\<forall>q \<in> set ps. q < int (length cs))"
      by simp
    moreover have "count_blocks (p # ps) cs = (if p < int (length cs)
        then count_blocks ps (cs[nat p := cs ! nat p + 1]) else Inl InvariantBroken)"
      using False e by simp
    ultimately show ?thesis
      by (cases "p < int (length cs)") (simp_all only: Cons.IH length_list_update simp_thms if_True if_False)
  qed
qed

definition list_refs :: "(block_owner \<times> owned_table) list \<Rightarrow> int \<Rightarrow> nat" where
  "list_refs ts p = sum_list (map (\<lambda>(w, t). count_list (blocks t) p) ts)"

lemma list_refs_tables: "distinct (map fst ts) \<Longrightarrow> list_refs ts p = table_refs (map_of ts) p"
proof (induction ts)
  case Nil
  then show ?case by (simp add: list_refs_def table_refs_def)
next
  case (Cons x ts)
  obtain w t where x: "x = (w, t)" by (cases x) auto
  have "map_of ts w = None" using Cons.prems x by (simp add: map_of_eq_None_iff)
  then have "table_refs ((map_of ts)(w \<mapsto> t)) p = table_refs (map_of ts) p + count_list (blocks t) p"
    using table_refs_update [of "map_of ts" w t p] by (simp add: finite_dom_map_of)
  moreover have "map_of (x # ts) = (map_of ts)(w \<mapsto> t)" by (simp add: x)
  moreover have "list_refs (x # ts) p = count_list (blocks t) p + list_refs ts p" by (simp add: x list_refs_def)
  moreover have "list_refs ts p = table_refs (map_of ts) p" using Cons by simp
  ultimately show ?case by (simp only: add.commute)
qed

definition stored_table_ok :: "'c paged_kv \<Rightarrow> nat \<Rightarrow> block_owner \<Rightarrow> owned_table \<Rightarrow> bool" where
  "stored_table_ok s n w t =
     (\<not> is_immutable w \<and> length (blocks t) = nat (max_blocks_per_row s) \<and> 0 \<le> offset t \<and> offset t \<le> cap s
      \<and> (\<forall>p \<in> set (blocks t). p < int n))"

lemma count_tables_spec:
  "count_tables s ts cs = Inr cs' \<longleftrightarrow>
     (\<forall>(w, t) \<in> set ts. stored_table_ok s (length cs) w t) \<and> cs' = add_counts cs (list_refs ts)"
proof (induction ts arbitrary: cs)
  case Nil
  have "add_counts cs (list_refs []) = cs" by (rule nth_equalityI) (simp_all add: list_refs_def)
  then show ?case by auto
next
  case (Cons x ts)
  obtain w t where x: "x = (w, t)" by (cases x) auto
  have e: "add_counts (add_counts cs (count_list (blocks t))) (list_refs ts) = add_counts cs (list_refs (x # ts))"
    unfolding add_counts_twice by (rule add_counts_cong) (simp add: x list_refs_def)
  show ?case
    using Cons.IH [of "add_counts cs (count_list (blocks t))"] e
    by (auto simp: x count_blocks_spec stored_table_ok_def is_immutable_def split: block_owner.splits)
qed

definition pin_valid :: "'c paged_kv \<Rightarrow> block_handle \<Rightarrow> bool" where
  "pin_valid s h = (validate_live_handle s h = Inr () \<and> 0 \<le> block_index h \<and> block_index h < max_blocks_per_row s)"

lemma live_handle_iff:
  "validate_live_handle s h = Inr () \<longleftrightarrow>
     0 \<le> handle_page h \<and> handle_page h < allocated_pages s \<and> page_ref_count s (handle_page h) > 0
     \<and> page_generation s (handle_page h) = generation h"
  by (auto simp: validate_live_handle_def)

lemma count_pins_spec:
  assumes "int (length cs) = allocated_pages s"
  shows "count_pins s hs cs = Inr cs' \<longleftrightarrow>
     (\<forall>(k, h) \<in> set hs. pin_valid s h) \<and> cs' = add_counts cs (pin_refs hs)"
  using assms
proof (induction hs arbitrary: cs)
  case Nil
  have "add_counts cs (pin_refs []) = cs" by (rule nth_equalityI) (simp_all add: pin_refs_def)
  then show ?case by auto
next
  case (Cons x hs)
  obtain k h where x: "x = (k, h)" by (cases x) auto
  show ?case
  proof (cases "pin_valid s h")
    case False
    then show ?thesis by (auto simp: x pin_valid_def split: sum.splits)
  next
    case True
    then have p: "0 \<le> handle_page h" "nat (handle_page h) < length cs"
      using Cons.prems by (auto simp: pin_valid_def live_handle_iff)
    have "add_counts (cs[nat (handle_page h) := cs ! nat (handle_page h) + 1]) (pin_refs hs) = add_counts cs (pin_refs (x # hs))"
      unfolding add_counts_bump [OF p] x by (rule add_counts_cong) (auto simp: pin_refs_Cons)
    then show ?thesis using True Cons.IH [of "cs[nat (handle_page h) := cs ! nat (handle_page h) + 1]"] Cons.prems
      by (auto simp: x pin_valid_def)
  qed
qed

section \<open>The declarative statement\<close>

definition stored_refs :: "'c paged_kv \<Rightarrow> int \<Rightarrow> nat" where
  "stored_refs s p = list_refs (owned_tables s) p + pin_refs (immutable_pins s) p"

definition owner_invariants :: "'c paged_kv \<Rightarrow> bool" where
  "owner_invariants s =
     (int (length (execution_owners s)) = batch s \<and> int (length (block_tables s)) = batch s
      \<and> (\<forall>(w, t) \<in> set (owned_tables s). stored_table_ok s (nat (allocated_pages s)) w t)
      \<and> (\<forall>(k, h) \<in> set (immutable_pins s). pin_valid s h)
      \<and> (\<forall>i < min (nat (allocated_pages s)) (length (page_ref_counts s)).
           page_ref_counts s ! i = int (stored_refs s (int i)))
      \<and> distinct (free_pages s)
      \<and> (\<forall>p \<in> set (free_pages s). 0 \<le> p \<and> p < allocated_pages s \<and> page_ref_count s p = 0)
      \<and> card {i. i < nat (allocated_pages s) \<and> stored_refs s (int i) = 0} = length (free_pages s)
      \<and> nat (allocated_pages s) \<le> length (page_generations s)
      \<and> (\<forall>row < length (execution_owners s). map_option blocks (map_of (owned_tables s) (execution_owners s ! row))
           = Some (block_tables s ! row)))"

lemma rows_match_iff:
  "rows_match s \<longleftrightarrow> (\<forall>row < length (execution_owners s).
     map_option blocks (map_of (owned_tables s) (execution_owners s ! row)) = Some (block_tables s ! row))"
  unfolding rows_match_def list_all_length
  by (intro iff_allI) (auto simp: nth_enumerate_eq split: option.split)

lemma zip_counts_iff:
  "list_all (\<lambda>(counted, stored). counted = stored) (zip cs ds) \<longleftrightarrow> (\<forall>i < min (length cs) (length ds). ds ! i = cs ! i)"
  by (auto simp: list_all_length)

lemma validate_exact:
  assumes "0 \<le> allocated_pages s"
  shows "validate_owner_invariants s = Inr () \<longleftrightarrow> owner_invariants s"
proof -
  let ?z = "replicate (nat (allocated_pages s)) (0 :: int)"
  let ?c1 = "add_counts ?z (list_refs (owned_tables s))"
  let ?c2 = "add_counts ?c1 (pin_refs (immutable_pins s))"
  have c2: "?c2 = map (\<lambda>i. int (stored_refs s (int i))) [0..<nat (allocated_pages s)]"
    by (rule nth_equalityI) (simp_all add: stored_refs_def)
  have z: "length (filter (\<lambda>c. c = 0) ?c2) = card {i. i < nat (allocated_pages s) \<and> stored_refs s (int i) = 0}"
    unfolding c2 by (simp add: length_filter_conv_card cong: conj_cong)
  have t: "(\<exists>cs. count_tables s (owned_tables s) ?z = Inr cs) \<longleftrightarrow>
      (\<forall>(w, t) \<in> set (owned_tables s). stored_table_ok s (nat (allocated_pages s)) w t)"
    by (simp add: count_tables_spec)
  have p: "(\<exists>cs. count_pins s (immutable_pins s) ?c1 = Inr cs) \<longleftrightarrow> (\<forall>(k, h) \<in> set (immutable_pins s). pin_valid s h)"
    using assms by (subst count_pins_spec) simp_all
  show ?thesis
  proof (cases "(\<forall>(w, t) \<in> set (owned_tables s). stored_table_ok s (nat (allocated_pages s)) w t)
      \<and> (\<forall>(k, h) \<in> set (immutable_pins s). pin_valid s h)")
    case True
    have ct: "count_tables s (owned_tables s) ?z = Inr ?c1" using True by (simp add: count_tables_spec)
    have cp: "count_pins s (immutable_pins s) ?c1 = Inr ?c2" using True assms by (subst count_pins_spec) auto
    have l: "length ?c2 = nat (allocated_pages s)" by simp
    have zc: "list_all (\<lambda>(counted, stored). counted = stored) (zip ?c2 (page_ref_counts s)) \<longleftrightarrow>
        (\<forall>i < min (nat (allocated_pages s)) (length (page_ref_counts s)). page_ref_counts s ! i = int (stored_refs s (int i)))"
      unfolding zip_counts_iff l by (simp add: c2)
    show ?thesis unfolding validate_owner_invariants_def ct cp sum.case zc z rows_match_iff owner_invariants_def
      using True by (auto simp: list_all_iff not_le)
  next
    case False
    then have "validate_owner_invariants s \<noteq> Inr ()"
      using t p unfolding validate_owner_invariants_def
      by (auto simp: count_tables_spec split: sum.splits)
    then show ?thesis using False by (auto simp: owner_invariants_def)
  qed
qed

end
