(* ===== verification/PagedKvInv.thy ===== *)
theory PagedKvInv
  imports PagedKvCheck
begin

text \<open>
  The invariant of \<open>PagedKVCache\<close> (\<open>ironmlx/src/core/cache/paged_kv.rs\<close>) and the owner operations that
  keep it: committing, binding, forking, pinning, installing a pinned prefix and releasing.
\<close>

text \<open>
  \<open>E\<close> are the references that no table and no pin holds: none between the calls of a cache whose tensor
  operations succeed, the leaked ones after a failed copy (\<open>clone_page_for_write_on\<close> does not give its
  new page back).
\<close>

definition kv_inv :: "int multiset \<Rightarrow> 'c paged_kv \<Rightarrow> bool" where
  "kv_inv E s = (rows_ok s \<and> fresh_ok s \<and> book (tables s) E s \<and> store_ok s \<and> cover_ok s)"

section \<open>What the pool invariants depend on\<close>

definition same_pool :: "'c paged_kv \<Rightarrow> 'c paged_kv \<Rightarrow> bool" where
  "same_pool s s' =
     (k_pages s' = k_pages s \<and> v_pages s' = v_pages s \<and> page_ref_counts s' = page_ref_counts s
      \<and> page_generations s' = page_generations s \<and> allocated_pages s' = allocated_pages s
      \<and> page_capacity s' = page_capacity s \<and> max_pages s' = max_pages s \<and> free_pages s' = free_pages s
      \<and> immutable_pins s' = immutable_pins s \<and> max_blocks_per_row s' = max_blocks_per_row s
      \<and> block_size s' = block_size s \<and> page_grow_step s' = page_grow_step s \<and> cap s' = cap s
      \<and> layout s' = layout s)"

lemma same_pool_refl [simp]: "same_pool s s"
  by (simp add: same_pool_def)

lemma same_pool_counts:
  assumes "same_pool s s'"
  shows "page_ref_count s' p = page_ref_count s p" and "page_generation s' p = page_generation s p"
    and "pin_ok s' h = pin_ok s h"
  using assms by (simp_all only: same_pool_def page_ref_count_def page_generation_def pin_ok_def)

lemma same_pool_book:
  assumes p: "same_pool s s'"
  shows "book T E s' = book T E s" and "store_ok s' = store_ok s" and "no_leak s' = no_leak s"
    and "same_cells s s'" and "table_ok s' t = table_ok s t"
proof -
  note c = same_pool_counts [OF p]
  have f: "immutable_pins s' = immutable_pins s" "allocated_pages s' = allocated_pages s"
    "max_pages s' = max_pages s" "free_pages s' = free_pages s" "k_pages s' = k_pages s" "v_pages s' = v_pages s"
    "page_capacity s' = page_capacity s" "block_size s' = block_size s" "page_grow_step s' = page_grow_step s"
    "page_ref_counts s' = page_ref_counts s" "page_generations s' = page_generations s" "cap s' = cap s"
    "max_blocks_per_row s' = max_blocks_per_row s"
    using p by (simp_all add: same_pool_def)
  show "book T E s' = book T E s" by (simp only: book_def c f)
  show "store_ok s' = store_ok s" by (simp only: store_ok_def store_dims_def c f)
  show "no_leak s' = no_leak s" by (simp only: no_leak_def c f)
  show "same_cells s s'" by (simp only: same_cells_def f simp_thms)
  show "table_ok s' t = table_ok s t" by (simp only: table_ok_def f)
qed

lemma same_pool_inv:
  assumes p: "same_pool s s'" and i: "kv_inv E s" and r: "rows_ok s'" "fresh_ok s'" and t: "tables s' = tables s"
  shows "kv_inv E s'"
  using i r same_pool_book [OF p] unfolding kv_inv_def cover_ok_def t by simp

lemma table_live:
  assumes "book T E s" and "T w = Some t" and "p \<in> set (blocks t)" and "0 \<le> p"
  shows "page_ref_count s p > 0" and "p < allocated_pages s"
proof -
  have "0 < count_list (blocks t) p" using assms(3) by (metis count_list_0_iff neq0_conv)
  then have "0 < holders T E (immutable_pins s) p"
    using table_refs_in [OF book_finite [OF assms(1)] assms(2), of p] by (simp add: holders_def)
  then show c: "page_ref_count s p > 0" using book_count [OF assms(1,4)] by simp
  then show "p < allocated_pages s" using book_live [OF assms(1)] by blast
qed

lemma pin_live:
  assumes "book T E s" and "(k, h) \<in> set (immutable_pins s)"
  shows "page_ref_count s (handle_page h) > 0" and "0 \<le> handle_page h" and "pin_valid s h"
proof -
  have ok: "pin_ok s h" by (rule book_pin [OF assms])
  then show p: "0 \<le> handle_page h" by (simp add: pin_ok_def)
  have "0 < pin_refs (immutable_pins s) (handle_page h)" using assms(2) by (auto simp: pin_refs_def filter_empty_conv)
  then show c: "page_ref_count s (handle_page h) > 0" using book_count [OF assms(1) p] by (simp add: holders_def)
  show "pin_valid s h" using ok c book_live [OF assms(1) c] by (simp add: pin_valid_def live_handle_iff pin_ok_def)
qed

section \<open>The checker accepts a healthy cache\<close>

theorem healthy_checks:
  assumes i: "kv_inv {#} s" and l: "no_leak s" and y: "synced s"
  shows "validate_owner_invariants s = Inr ()"
proof -
  have b: "book (tables s) {#} s" and r: "rows_ok s" and c: "cover_ok s" using i by (simp_all add: kv_inv_def)
  have d: "distinct (map fst (owned_tables s))" using r by (simp add: rows_ok_def)
  have al: "0 \<le> allocated_pages s" using b by (simp add: book_def)
  have ow: "tables s w = Some t" if "(w, t) \<in> set (owned_tables s)" for w t
    using that d y by (metis map_of_is_SomeI synced_def)
  have st: "stored_table_ok s (nat (allocated_pages s)) w t" if "(w, t) \<in> set (owned_tables s)" for w t
  proof -
    have t: "tables s w = Some t" by (rule ow [OF that])
    then have "table_ok s t" using c by (simp add: cover_ok_def)
    moreover have "\<not> is_immutable w" using that r by (auto simp: rows_ok_def)
    moreover have "p < allocated_pages s" if "p \<in> set (blocks t)" for p
      using table_live [OF b t that] al by (cases "0 \<le> p") auto
    ultimately show ?thesis using al by (simp add: stored_table_ok_def table_ok_def)
  qed
  have refs: "stored_refs s p = holders (tables s) {#} (immutable_pins s) p" for p
    using list_refs_tables [OF d, of p] y by (simp add: stored_refs_def holders_def synced_def)
  have cnt: "page_ref_count s p = int (stored_refs s p)" if "0 \<le> p" for p
    using book_count [OF b that] by (simp add: refs)
  have "card {i. i < nat (allocated_pages s) \<and> stored_refs s (int i) = 0} = length (free_pages s)"
  proof -
    have "{i. i < nat (allocated_pages s) \<and> stored_refs s (int i) = 0} = nat ` set (free_pages s)"
    proof (rule set_eqI)
      fix i
      show "i \<in> {i. i < nat (allocated_pages s) \<and> stored_refs s (int i) = 0} \<longleftrightarrow> i \<in> nat ` set (free_pages s)"
      proof
        assume "i \<in> {i. i < nat (allocated_pages s) \<and> stored_refs s (int i) = 0}"
        then have "int i < allocated_pages s" "page_ref_count s (int i) = 0" using cnt [of "int i"] by auto
        then have "int i \<in> set (free_pages s)" using l by (simp add: no_leak_def)
        then show "i \<in> nat ` set (free_pages s)" by (metis image_eqI nat_int)
      next
        assume "i \<in> nat ` set (free_pages s)"
        then obtain p where p: "p \<in> set (free_pages s)" "i = nat p" by auto
        then have "0 \<le> p" "p < allocated_pages s" "page_ref_count s p = 0" using book_free [OF b] by auto
        with p cnt [of p] show "i \<in> {i. i < nat (allocated_pages s) \<and> stored_refs s (int i) = 0}" by simp
      qed
    qed
    moreover have "inj_on nat (set (free_pages s))" using book_free [OF b] by (intro inj_onI) (metis eq_nat_nat_iff)
    moreover have "distinct (free_pages s)" using b by (simp add: book_def)
    ultimately show ?thesis by (simp add: card_image distinct_card)
  qed
  moreover have "\<forall>i < min (nat (allocated_pages s)) (length (page_ref_counts s)). page_ref_counts s ! i = int (stored_refs s (int i))"
  proof (intro allI impI)
    fix i assume "i < min (nat (allocated_pages s)) (length (page_ref_counts s))"
    then show "page_ref_counts s ! i = int (stored_refs s (int i))" using cnt [of "int i"] by (simp add: page_ref_count_def)
  qed
  moreover have "\<forall>row < length (execution_owners s).
      map_option blocks (map_of (owned_tables s) (execution_owners s ! row)) = Some (block_tables s ! row)"
    using tables_row [OF r] y by (simp add: synced_def)
  moreover have "\<forall>p \<in> set (free_pages s). 0 \<le> p \<and> p < allocated_pages s \<and> page_ref_count s p = 0"
    using book_free [OF b] by blast
  moreover have "int (length (execution_owners s)) = batch s" "int (length (block_tables s)) = batch s"
    using r by (simp_all add: rows_ok_def)
  moreover have "\<forall>(w, t) \<in> set (owned_tables s). stored_table_ok s (nat (allocated_pages s)) w t" using st by blast
  moreover have "\<forall>(k, h) \<in> set (immutable_pins s). pin_valid s h" using pin_live(3) [OF b] by blast
  moreover have "distinct (free_pages s)" using b by (simp add: book_def)
  moreover have "nat (allocated_pages s) \<le> length (page_generations s)" using l by (simp add: no_leak_def)
  ultimately have "owner_invariants s" unfolding owner_invariants_def by blast
  then show ?thesis using validate_exact [OF al] by simp
qed

section \<open>Committing\<close>

lemma commit_inv:
  assumes i: "kv_inv E s"
  obtains s' where "commit_execution_rows s = (Inr (), s')" and "kv_inv E s'" and "tables s' = tables s"
    and "synced s'" and "same_pool s s'" and "execution_owners s' = execution_owners s"
    and "fst ` set (owned_tables s') = fst ` set (owned_tables s)" and "row_offsets s' = row_offsets s"
    and "next_transient_owner s' = next_transient_owner s" and "block_tables s' = block_tables s"
    and "batch s' = batch s" and "observability s' = observability s"
proof -
  have r: "rows_ok s" using i by (simp add: kv_inv_def)
  obtain al where c: "commit_execution_rows s = (Inr (), s\<lparr>owned_tables := al\<rparr>)"
    and al: "map_of al = tables s" "map fst al = map fst (owned_tables s)" by (rule commit_ok [OF r])
  let ?s = "s\<lparr>owned_tables := al\<rparr>"
  note k = committed_rows_ok [OF r al]
  have keys: "fst ` set al = fst ` set (owned_tables s)" using al(2) by (metis list.set_map)
  have p: "same_pool s ?s" by (simp add: same_pool_def)
  have "fresh_ok ?s" using i keys by (simp add: kv_inv_def fresh_ok_def)
  then have "kv_inv E ?s" by (rule same_pool_inv [OF p i k(1) _ k(2)])
  with c k p keys show thesis by (intro that [of ?s]) simp_all
qed

section \<open>Installing a table\<close>

lemma map_zip_nth: "i < length xs \<Longrightarrow> length ys = length xs \<Longrightarrow> map f (zip xs ys) ! i = f (xs ! i, ys ! i)"
  by simp

lemma install_table_rows_ok:
  assumes r: "rows_ok s" and t: "length (blocks t) = nat (max_blocks_per_row s)" and w: "\<not> is_immutable w"
  shows "rows_ok (install_table w t s)"
proof -
  have "\<not> is_immutable v \<and> length (blocks u) = nat (max_blocks_per_row s)"
    if "(v, u) \<in> set (AList.update w t (owned_tables s))" for v u
    using that set_update_subset_alist [of w t "owned_tables s"] r t w by (auto simp: rows_ok_def)
  moreover have "length row = nat (max_blocks_per_row s)"
    if "row \<in> set (map (\<lambda>(v, row). if v = w then blocks t else row) (zip (execution_owners s) (block_tables s)))" for row
    using that r t by (auto simp: rows_ok_def dest: set_zip_rightD split: if_splits)
  moreover have "fst ` set (AList.update w t (owned_tables s)) = insert w (fst ` set (owned_tables s))"
    by (metis dom_map_of_conv_image_fst dom_fun_upd option.distinct(1) update_conv')
  ultimately show ?thesis using r by (auto simp: rows_ok_def install_table_def distinct_update)
qed

lemma install_table_tables:
  assumes r: "rows_ok s" and t: "length (blocks t) = nat (max_blocks_per_row s)" and w: "\<not> is_immutable w"
  shows "tables (install_table w t s) = (tables s)(w \<mapsto> t)"
proof (rule tables_eqI [OF r install_table_rows_ok [OF r t w]])
  show "execution_owners (install_table w t s) = execution_owners s" by (simp add: install_table_def)
  show "map_of (owned_tables (install_table w t s)) v = ((tables s)(w \<mapsto> t)) v" if "v \<notin> set (execution_owners s)" for v
    using that by (simp add: install_table_def update_conv' tables_unbound)
  show "((tables s)(w \<mapsto> t)) (execution_owners s ! row) =
      Some \<lparr>blocks = block_tables (install_table w t s) ! row, offset = row_offsets (install_table w t s) ! row\<rparr>"
    if "row < length (execution_owners s)" for row
    using that r tables_row [OF r that] by (simp add: install_table_def rows_ok_def)
qed

lemma install_table_same_pool [simp]: "same_pool s (install_table w t s)"
  by (simp add: install_table_def same_pool_def)

lemma install_table_synced:
  assumes r: "rows_ok s" and t: "length (blocks t) = nat (max_blocks_per_row s)" and w: "\<not> is_immutable w" and y: "synced s"
  shows "synced (install_table w t s)"
  using install_table_tables [OF r t w] y by (simp add: synced_def) (simp add: install_table_def update_conv')

end
