(* ===== verification/PagedKvBind.thy ===== *)
theory PagedKvBind
  imports PagedKvInv
begin

text \<open>
  \<open>bind_execution_rows\<close> of \<open>ironmlx/src/core/cache/paged_kv.rs\<close>: binding owners to execution rows keeps
  the invariant, and gives every bound owner the table it had.
\<close>

section \<open>Tables without pages hold no references\<close>

lemma table_refs_eqI:
  assumes f: "finite (dom T)" "finite (dom T')"
    and e: "\<And>w. (case T' w of None \<Rightarrow> 0 | Some t \<Rightarrow> count_list (blocks t) p) = (case T w of None \<Rightarrow> 0 | Some t \<Rightarrow> count_list (blocks t) p)"
  shows "table_refs T' p = table_refs T p"
proof -
  let ?r = "\<lambda>T w. case T w of None \<Rightarrow> 0 | Some t \<Rightarrow> count_list (blocks t) p"
  have ext: "table_refs X p = (\<Sum>w \<in> dom T \<union> dom T'. ?r X w)" if "dom X \<subseteq> dom T \<union> dom T'" for X
  proof -
    have "(\<Sum>w \<in> dom X. ?r X w) = (\<Sum>w \<in> dom T \<union> dom T'. ?r X w)"
      by (rule sum.mono_neutral_left) (use f that in \<open>auto split: option.split\<close>)
    moreover have "table_refs X p = (\<Sum>w \<in> dom X. ?r X w)"
      unfolding table_refs_def by (rule sum.cong) auto
    ultimately show ?thesis by simp
  qed
  show ?thesis using ext [of T] ext [of T'] e by simp
qed

lemma count_list_empty: "list_all (\<lambda>p. p < 0) bs \<Longrightarrow> 0 \<le> (p :: int) \<Longrightarrow> count_list bs p = 0"
  by (auto simp: list_all_iff count_list_0_iff)

lemma list_ex_page: "list_ex (\<lambda>p. p \<ge> 0) bs = (\<not> list_all (\<lambda>p. p < (0 :: int)) bs)"
  by (induction bs) auto

lemma empty_table_empty [simp]: "table_is_empty (empty_table s)" "length (blocks (empty_table s)) = nat (max_blocks_per_row s)"
  "offset (empty_table s) = 0"
  by (simp_all add: table_is_empty_def empty_table_def list_all_iff)

lemma empty_table_ok: "rows_ok s \<Longrightarrow> table_ok s (empty_table s)"
proof -
  assume r: "rows_ok s"
  then have "0 \<le> max_blocks_per_row s * block_size s" "0 < max_blocks_per_row s" by (auto simp: rows_ok_def)
  then have "0 \<le> block_size s" by (simp add: zero_le_mult_iff)
  then have "\<not> int j * block_size s < 0" for j by (simp add: mult_less_0_iff)
  then show "table_ok s (empty_table s)" using r by (simp add: table_ok_def rows_ok_def)
qed

section \<open>The binding loop\<close>

definition stored_or_empty :: "'c paged_kv \<Rightarrow> block_owner \<Rightarrow> owned_table" where
  "stored_or_empty s w = (case map_of (owned_tables s) w of Some t \<Rightarrow> t | None \<Rightarrow> empty_table s)"

lemma bind_rows_loop:
  assumes "distinct ws" and "distinct (map fst (owned_tables s))"
  shows "\<exists>al. foldl bind_row s ws = s\<lparr>owned_tables := al, block_tables := block_tables s @ map (\<lambda>w. blocks (stored_or_empty s w)) ws,
      row_offsets := row_offsets s @ map (\<lambda>w. offset (stored_or_empty s w)) ws\<rparr>
    \<and> distinct (map fst al) \<and> map_of al = (\<lambda>w. if w \<in> set ws then Some (stored_or_empty s w) else map_of (owned_tables s) w)
    \<and> set al \<subseteq> set (owned_tables s) \<union> (\<lambda>w. (w, empty_table s)) ` set ws"
  using assms
proof (induction ws rule: rev_induct)
  case Nil
  then show ?case by (intro exI [of _ "owned_tables s"]) simp
next
  case (snoc w ws)
  from snoc.IH snoc.prems obtain al where al: "foldl bind_row s ws = s\<lparr>owned_tables := al,
      block_tables := block_tables s @ map (\<lambda>w. blocks (stored_or_empty s w)) ws,
      row_offsets := row_offsets s @ map (\<lambda>w. offset (stored_or_empty s w)) ws\<rparr>"
    "distinct (map fst al)" "map_of al = (\<lambda>w. if w \<in> set ws then Some (stored_or_empty s w) else map_of (owned_tables s) w)"
    "set al \<subseteq> set (owned_tables s) \<union> (\<lambda>w. (w, empty_table s)) ` set ws" by auto
  have w: "map_of al w = map_of (owned_tables s) w" using al(3) snoc.prems by simp
  let ?t = "stored_or_empty s w"
  let ?al = "AList.update w ?t al"
  have e: "empty_table (s\<lparr>owned_tables := al, block_tables := bt, row_offsets := ro\<rparr>) = empty_table s" for bt ro
    by (simp add: empty_table_def)
  have b: "foldl bind_row s (ws @ [w]) = s\<lparr>owned_tables := ?al,
      block_tables := block_tables s @ map (\<lambda>w. blocks (stored_or_empty s w)) (ws @ [w]),
      row_offsets := row_offsets s @ map (\<lambda>w. offset (stored_or_empty s w)) (ws @ [w])\<rparr>"
  proof -
    let ?s = "s\<lparr>owned_tables := al, block_tables := block_tables s @ map (\<lambda>w. blocks (stored_or_empty s w)) ws,
      row_offsets := row_offsets s @ map (\<lambda>w. offset (stored_or_empty s w)) ws\<rparr>"
    have "stored_or_empty ?s w = ?t" by (simp add: stored_or_empty_def e w split: option.split)
    moreover have "bind_row ?s w = ?s\<lparr>owned_tables := AList.update w (stored_or_empty ?s w) al,
      block_tables := block_tables ?s @ [blocks (stored_or_empty ?s w)], row_offsets := row_offsets ?s @ [offset (stored_or_empty ?s w)]\<rparr>"
      by (simp add: bind_row_def stored_or_empty_def Let_def)
    ultimately show ?thesis unfolding foldl_append al(1) by simp
  qed
  have m: "map_of ?al = (\<lambda>v. if v \<in> set (ws @ [w]) then Some (stored_or_empty s v) else map_of (owned_tables s) v)"
    using al(3) by (auto simp: update_conv')
  have sub: "set ?al \<subseteq> set (owned_tables s) \<union> (\<lambda>w. (w, empty_table s)) ` set (ws @ [w])"
  proof -
    have "(w, ?t) \<in> set (owned_tables s) \<union> {(w, empty_table s)}"
      by (cases "map_of (owned_tables s) w") (auto simp: stored_or_empty_def dest: map_of_SomeD)
    then show ?thesis using set_update_subset_alist [of w ?t al] al(4) by auto
  qed
  have "distinct (map fst ?al)" using al(2) by (rule distinct_update)
  with b m sub show ?case by (intro exI [of _ ?al] conjI)
qed

lemma map_of_filter_distinct:
  assumes "distinct (map fst al)"
  shows "map_of (filter P al) w = (case map_of al w of None \<Rightarrow> None | Some t \<Rightarrow> if P (w, t) then Some t else None)"
  using assms
proof (induction al)
  case (Cons x al)
  have "map_of al (fst x) = None" using Cons.prems by (simp add: map_of_eq_None_iff)
  then show ?case using Cons by (cases x) (auto split: option.split)
qed simp

section \<open>Binding\<close>

definition droppable :: "block_owner \<Rightarrow> owned_table \<Rightarrow> bool" where
  "droppable w t = ((case w of Transient _ \<Rightarrow> True | _ \<Rightarrow> False) \<and> table_is_empty t)"

definition bound_tables :: "block_owner list \<Rightarrow> 'c paged_kv \<Rightarrow> block_owner \<Rightarrow> owned_table option" where
  "bound_tables ws s w =
     (case tables s w of
        None \<Rightarrow> if w \<in> set ws then Some (empty_table s) else None
      | Some t \<Rightarrow> if w \<notin> set ws \<and> droppable w t then None else Some t)"

definition bindable :: "'c paged_kv \<Rightarrow> block_owner \<Rightarrow> bool" where
  "bindable s w = (case w of Request _ \<Rightarrow> True | Immutable _ \<Rightarrow> False | Transient n \<Rightarrow> n < next_transient_owner s)"

lemma bound_tables_finite: "finite (dom (tables s)) \<Longrightarrow> finite (dom (bound_tables ws s))"
  by (rule finite_subset [of _ "dom (tables s) \<union> set ws"]) (auto simp: bound_tables_def split: option.splits if_splits)

lemma bound_tables_refs:
  assumes "finite (dom (tables s))" and "0 \<le> p"
  shows "table_refs (bound_tables ws s) p = table_refs (tables s) p"
proof (rule table_refs_eqI [OF assms(1) bound_tables_finite [OF assms(1)]])
  have z: "table_is_empty t \<Longrightarrow> count_list (blocks t) p = 0" for t
    using count_list_empty [OF _ assms(2)] by (simp add: table_is_empty_def)
  fix w
  show "(case bound_tables ws s w of None \<Rightarrow> 0 | Some t \<Rightarrow> count_list (blocks t) p)
      = (case tables s w of None \<Rightarrow> 0 | Some t \<Rightarrow> count_list (blocks t) p)"
    using z by (auto simp: bound_tables_def droppable_def split: option.splits)
qed

lemma bind_ok:
  assumes i: "kv_inv E s" and ws: "ws \<noteq> []" "distinct ws" "list_all (bindable s) ws"
  obtains s' where "bind_execution_rows ws s = (validate_owner_invariants s', s')" and "kv_inv E s'" and "synced s'"
    and "same_pool s s'" and "execution_owners s' = ws" and "tables s' = bound_tables ws s"
    and "observability s' = observability s" and "next_transient_owner s' = next_transient_owner s"
proof -
  obtain s1 where c: "commit_execution_rows s = (Inr (), s1)" "kv_inv E s1" "tables s1 = tables s" "synced s1" "same_pool s s1"
    "execution_owners s1 = execution_owners s" "fst ` set (owned_tables s1) = fst ` set (owned_tables s)"
    "next_transient_owner s1 = next_transient_owner s" "observability s1 = observability s"
    using commit_inv [OF i] by metis
  have r1: "rows_ok s1" and b1: "book (tables s1) E s1" and cv: "cover_ok s1" and fr: "fresh_ok s1"
    using c(2) by (simp_all add: kv_inv_def)
  have d1: "distinct (map fst (owned_tables s1))" using r1 by (simp add: rows_ok_def)
  have m1: "map_of (owned_tables s1) = tables s" using c(3,4) by (simp add: synced_def)
  let ?s2 = "s1\<lparr>batch := int (length ws), execution_owners := ws, block_tables := [], row_offsets := []\<rparr>"
  have so: "stored_or_empty ?s2 w = (case tables s w of Some t \<Rightarrow> t | None \<Rightarrow> empty_table s)" for w
    using c(5) m1 by (simp add: stored_or_empty_def empty_table_def same_pool_def split: option.split)
  define f where "f w = (case tables s w of Some t \<Rightarrow> t | None \<Rightarrow> empty_table s)" for w
  obtain al where al: "foldl bind_row ?s2 ws = ?s2\<lparr>owned_tables := al, block_tables := map (\<lambda>w. blocks (f w)) ws,
      row_offsets := map (\<lambda>w. offset (f w)) ws\<rparr>" "distinct (map fst al)"
    "map_of al = (\<lambda>w. if w \<in> set ws then Some (f w) else tables s w)"
    "set al \<subseteq> set (owned_tables s1) \<union> (\<lambda>w. (w, empty_table s)) ` set ws"
  proof -
    have d2: "distinct (map fst (owned_tables ?s2))" using d1 by simp
    have e2: "empty_table ?s2 = empty_table s" using c(5) by (simp add: empty_table_def same_pool_def)
    have m2: "map_of (owned_tables ?s2) = tables s" and o2: "owned_tables ?s2 = owned_tables s1"
      "block_tables ?s2 = []" "row_offsets ?s2 = []" using m1 by simp_all
    show thesis using bind_rows_loop [OF ws(2) d2] that
      unfolding so f_def [symmetric] e2 m2 unfolding o2 append_Nil by blast
  qed
  define P where "P = (\<lambda>(w, t :: owned_table). (case w of Transient _ \<Rightarrow> False | _ \<Rightarrow> True) \<or> w \<in> set ws \<or> offset t \<noteq> 0 \<or> list_ex (\<lambda>p. p \<ge> (0 :: int)) (blocks t))"
  have P: "P (w, t) = (w \<in> set ws \<or> \<not> droppable w t)" for w t
    unfolding P_def droppable_def table_is_empty_def list_ex_page prod.case by (auto split: block_owner.split)
  let ?s4 = "?s2\<lparr>owned_tables := filter P al, block_tables := map (\<lambda>w. blocks (f w)) ws, row_offsets := map (\<lambda>w. offset (f w)) ws\<rparr>"
  have e4: "remove_unbound_empty_transient_owners (foldl bind_row ?s2 ws) = ?s4"
    unfolding al(1) by (simp add: remove_unbound_empty_transient_owners_def P_def)
  have bt: "map_of (filter P al) = bound_tables ws s"
    unfolding map_of_filter_distinct [OF al(2)] al(3)
    by (rule ext) (auto simp: P bound_tables_def f_def split: option.split)
  have len: "length (blocks t) = nat (max_blocks_per_row s)" if "(w, t) \<in> set al" for w t
    using that al(4) r1 c(5) by (auto simp: rows_ok_def same_pool_def)
  have ni: "\<not> is_immutable w" if "(w, t) \<in> set al" for w t
  proof -
    have "(w, t) \<in> set (owned_tables s1) \<or> w \<in> set ws" using that al(4) by auto
    then show ?thesis using r1 ws(3) unfolding rows_ok_def list_all_iff
      by (auto simp: bindable_def is_immutable_def split: block_owner.splits)
  qed
  have fin: "(w, f w) \<in> set al" if "w \<in> set ws" for w
  proof -
    have "map_of al w = Some (f w)" using that al(3) by simp
    then show ?thesis by (rule map_of_SomeD)
  qed
  have sub: "set ws \<subseteq> fst ` set (filter P al)" using fin P by force
  have d4: "distinct (map fst (filter P al))" using al(2) distinct_map_filter by blast
  have sp: "same_pool s ?s4" using c(5) by (simp add: same_pool_def)
  have r4: "rows_ok ?s4"
  proof -
    have "\<forall>(w, t) \<in> set (filter P al). \<not> is_immutable w \<and> length (blocks t) = nat (max_blocks_per_row s1)"
      using len ni c(5) by (auto simp: same_pool_def)
    moreover have "\<forall>row \<in> set (map (\<lambda>w. blocks (f w)) ws). length row = nat (max_blocks_per_row s1)"
      using len fin c(5) by (auto simp: same_pool_def)
    ultimately show ?thesis using r1 sub d4 ws(2) unfolding rows_ok_def by (simp add: case_prod_beta)
  qed
  have t4: "tables ?s4 = bound_tables ws s"
  proof (rule tables_eqI [OF r4 r4 refl])
    show "map_of (owned_tables ?s4) w = bound_tables ws s w" for w by (simp add: bt)
    show "bound_tables ws s (execution_owners ?s4 ! row) = Some \<lparr>blocks = block_tables ?s4 ! row, offset = row_offsets ?s4 ! row\<rparr>"
      if "row < length (execution_owners ?s4)" for row
      using that by (auto simp: bound_tables_def f_def split: option.split)
  qed
  have b4: "book (tables ?s4) E ?s4"
  proof -
    have "book (tables s) E s1" using b1 c(3) by simp
    then have "book (bound_tables ws s) E s1"
      by (rule book_retable) (use book_finite [OF b1] c(3) bound_tables_finite bound_tables_refs in auto)
    moreover have sp1: "same_pool s1 ?s4" by (simp add: same_pool_def)
    ultimately show ?thesis by (simp only: same_pool_book(1) [OF sp1] t4)
  qed
  have f4: "fresh_ok ?s4"
  proof -
    have "n < next_transient_owner s" if "Transient n \<in> fst ` set (filter P al)" for n
    proof -
      have "Transient n \<in> fst ` set (owned_tables s1) \<or> Transient n \<in> set ws" using that al(4) by force
      then show ?thesis using fr ws(3) c(8) by (auto simp: fresh_ok_def list_all_iff bindable_def)
    qed
    then show ?thesis using c(8) by (simp add: fresh_ok_def)
  qed
  have c4: "cover_ok ?s4"
  proof -
    have "table_ok s t" if "bound_tables ws s w = Some t" for w t
      using that cv c(3) same_pool_book(5) [OF c(5)] empty_table_ok [of s] i
      by (auto simp: bound_tables_def cover_ok_def kv_inv_def split: option.splits if_splits)
    then show ?thesis unfolding cover_ok_def t4 same_pool_book(5) [OF sp] by blast
  qed
  have "store_ok ?s4" unfolding same_pool_book(2) [OF sp] using i by (simp add: kv_inv_def)
  then have i4: "kv_inv E ?s4" using r4 b4 f4 c4 by (simp add: kv_inv_def)
  have y4: "synced ?s4" unfolding synced_def t4 by (simp add: bt)
  have "bind_execution_rows ws s = (validate_owner_invariants ?s4, ?s4)"
    using ws(1,2) c(1) e4 by (simp add: bind_execution_rows_def checked_def Let_def)
  then show thesis using i4 y4 sp t4 c(8,9) by (intro that [of ?s4]) simp_all
qed

end
