(* ===== verification/PagedKvShare.thy ===== *)
theory PagedKvShare
  imports PagedKvBind
begin

text \<open>
  Sharing of pages in \<open>ironmlx/src/core/cache/paged_kv.rs\<close>: forking an owner and installing a pinned prefix
  add references and bind a table, pinning adds a reference for a pin. All of them keep the invariant.
\<close>

section \<open>Adding and releasing many references\<close>

definition counts_frame :: "'c paged_kv \<Rightarrow> 'c paged_kv \<Rightarrow> bool" where
  "counts_frame s s' =
     (s' = s\<lparr>page_ref_counts := page_ref_counts s', free_pages := free_pages s'\<rparr>
      \<and> length (page_ref_counts s') = length (page_ref_counts s))"

lemma counts_frame_refl [simp]: "counts_frame s s"
  by (simp add: counts_frame_def)

lemma counts_frame_fields:
  assumes "counts_frame s s'"
  shows "pool_frame s s'" and "k_pages s' = k_pages s" and "v_pages s' = v_pages s"
    and "page_generations s' = page_generations s" and "allocated_pages s' = allocated_pages s"
    and "page_capacity s' = page_capacity s" and "observability s' = observability s"
    and "length (page_ref_counts s') = length (page_ref_counts s)" and "ticks s' = ticks s"
proof -
  have e: "s' = s\<lparr>page_ref_counts := page_ref_counts s', free_pages := free_pages s'\<rparr>"
    and l: "length (page_ref_counts s') = length (page_ref_counts s)"
    using assms by (simp_all add: counts_frame_def)
  show "pool_frame s s'" and "k_pages s' = k_pages s" and "v_pages s' = v_pages s"
    and "page_generations s' = page_generations s" and "allocated_pages s' = allocated_pages s"
    and "page_capacity s' = page_capacity s" and "observability s' = observability s" and "ticks s' = ticks s"
    by (subst e, simp add: pool_frame_def)+
  show "length (page_ref_counts s') = length (page_ref_counts s)" by (rule l)
qed

lemma counts_frame_trans:
  assumes a: "counts_frame s t" and b: "counts_frame t u"
  shows "counts_frame s u"
proof -
  have "u = t\<lparr>page_ref_counts := page_ref_counts u, free_pages := free_pages u\<rparr>" using b by (simp add: counts_frame_def)
  also have "t = s\<lparr>page_ref_counts := page_ref_counts t, free_pages := free_pages t\<rparr>" using a by (simp add: counts_frame_def)
  finally show ?thesis using a b by (simp add: counts_frame_def)
qed

lemma add_counts_frame: "counts_frame s (add_page_ref p s)"
  by (simp add: counts_frame_def add_page_ref_def)

lemma release_counts_frame: "counts_frame s (release_page_ref p s)"
  by (simp add: counts_frame_def release_page_ref_def Let_def)

definition add_refs :: "int list \<Rightarrow> 'c paged_kv \<Rightarrow> 'c paged_kv" where
  "add_refs ps s = foldl (\<lambda>s p. add_page_ref p s) s ps"

definition release_refs :: "int list \<Rightarrow> 'c paged_kv \<Rightarrow> 'c paged_kv" where
  "release_refs ps s = foldl (\<lambda>s p. release_page_ref p s) s ps"

lemma add_refs_facts:
  assumes "book T E s" and "\<forall>p \<in> set ps. page_ref_count s p > 0"
  shows "counts_frame s (add_refs ps s) \<and> free_pages (add_refs ps s) = free_pages s
    \<and> book T (mset ps + E) (add_refs ps s)
    \<and> (\<forall>q. (page_ref_count (add_refs ps s) q > 0) = (page_ref_count s q > 0))"
  using assms
proof (induction ps arbitrary: s E)
  case Nil
  then show ?case by (simp add: add_refs_def)
next
  case (Cons p ps)
  let ?s = "add_page_ref p s"
  have p: "page_ref_count s p > 0" using Cons.prems by simp
  note c = add_page_ref_count [OF p]
  have l: "(page_ref_count ?s q > 0) = (page_ref_count s q > 0)" for q
    using p book_nonneg [OF Cons.prems(1), of q] by (auto simp: c)
  have "\<forall>p \<in> set ps. page_ref_count ?s p > 0" using Cons.prems(2) by (simp add: l)
  from Cons.IH [OF add_page_ref_book [OF Cons.prems(1) p] this]
  have ih: "counts_frame ?s (add_refs ps ?s)" "free_pages (add_refs ps ?s) = free_pages ?s"
    "book T (mset ps + add_mset p E) (add_refs ps ?s)"
    "\<forall>q. (page_ref_count (add_refs ps ?s) q > 0) = (page_ref_count ?s q > 0)" by blast+
  have e: "add_refs (p # ps) s = add_refs ps ?s" by (simp add: add_refs_def)
  show ?case unfolding e
    using counts_frame_trans [OF add_counts_frame ih(1)] ih(2-4) l by (simp add: add_frame)
qed

lemma release_no_leak:
  assumes b: "book T (add_mset p E) s" and p0: "0 \<le> p" and l: "no_leak s"
  shows "no_leak (release_page_ref p s)"
proof -
  have p: "page_ref_count s p > 0" using book_count [OF b p0] by (simp add: holders_def)
  note c = release_page_ref_count [OF p] and f = release_free [OF p]
  have "length (page_ref_counts (release_page_ref p s)) = length (page_ref_counts s)"
    by (rule counts_frame_fields [OF release_counts_frame])
  moreover have "q \<in> set (free_pages (release_page_ref p s))"
    if "0 \<le> q" "q < allocated_pages s" "page_ref_count (release_page_ref p s) q = 0" for q
    using that l by (cases "q = p") (simp_all add: c f no_leak_def)
  ultimately show ?thesis using l by (simp add: no_leak_def release_frame)
qed

lemma release_refs_facts:
  assumes "book T (mset ps + E) s" and "\<forall>p \<in> set ps. 0 \<le> p"
  shows "counts_frame s (release_refs ps s) \<and> book T E (release_refs ps s)
    \<and> (\<forall>q. page_ref_count (release_refs ps s) q \<le> page_ref_count s q)
    \<and> (no_leak s \<longrightarrow> no_leak (release_refs ps s))"
  using assms
proof (induction ps arbitrary: s)
  case Nil
  then show ?case by (simp add: release_refs_def)
next
  case (Cons p ps)
  let ?s = "release_page_ref p s"
  have b: "book T (add_mset p (mset ps + E)) s" using Cons.prems(1) by simp
  have p0: "0 \<le> p" using Cons.prems by simp
  have p: "page_ref_count s p > 0" using book_count [OF b p0] by (simp add: holders_def)
  note c = release_page_ref_count [OF p]
  have "\<forall>p \<in> set ps. 0 \<le> p" using Cons.prems(2) by simp
  from Cons.IH [OF release_page_ref_book [OF b p0] this]
  have ih: "counts_frame ?s (release_refs ps ?s)" "book T E (release_refs ps ?s)"
    "\<forall>q. page_ref_count (release_refs ps ?s) q \<le> page_ref_count ?s q"
    "no_leak ?s \<longrightarrow> no_leak (release_refs ps ?s)" by blast+
  have e: "release_refs (p # ps) s = release_refs ps ?s" by (simp add: release_refs_def)
  have "page_ref_count (release_refs ps ?s) q \<le> page_ref_count s q" for q
    using ih(3) [rule_format, of q] by (simp add: c split: if_splits)
  then show ?case unfolding e
    using counts_frame_trans [OF release_counts_frame ih(1)] ih(2,4) release_no_leak [OF b p0] by blast
qed

lemma frame_tables: "counts_frame s s' \<Longrightarrow> tables s' = tables s"
  using counts_frame_fields(1) pool_frame_tables by blast

lemma frame_shape:
  assumes "pool_frame s s'"
  shows "rows_ok s' = rows_ok s" and "fresh_ok s' = fresh_ok s" and "table_ok s' = table_ok s" and "cover_ok s' = cover_ok s"
    and "synced s' = synced s" and "bindable s' = bindable s" and "empty_table s' = empty_table s"
proof -
  have t: "tables s' = tables s" by (rule pool_frame_tables [OF assms])
  show tk: "table_ok s' = table_ok s" using assms by (intro ext) (simp add: table_ok_def pool_frame_def)
  show "rows_ok s' = rows_ok s" "fresh_ok s' = fresh_ok s" "synced s' = synced s"
    using assms by (simp_all add: rows_ok_def fresh_ok_def pool_frame_def synced_def t)
  show "cover_ok s' = cover_ok s" by (simp add: cover_ok_def t tk)
  show "bindable s' = bindable s" using assms by (intro ext) (simp add: bindable_def pool_frame_def split: block_owner.split)
  show "empty_table s' = empty_table s" using assms by (simp add: empty_table_def pool_frame_def)
qed

text \<open>Reference counts may fall, or rise on live pages, without touching storage.\<close>

lemma counts_frame_store:
  assumes "counts_frame s s'" and "store_ok s" and "\<And>q. page_ref_count s' q > 0 \<Longrightarrow> page_ref_count s q > 0"
  shows "store_ok s'" and "same_cells s s'"
proof -
  note f = counts_frame_fields [OF assms(1)]
  have g: "max_pages s' = max_pages s" "block_size s' = block_size s" "page_grow_step s' = page_grow_step s"
    using f(1) by (simp_all add: pool_frame_def)
  have d: "store_dims s' ps = store_dims s ps" for ps by (simp add: store_dims_def f g split: option.split)
  show "store_ok s'" using assms(2,3) unfolding store_ok_def d f g by blast
  show "same_cells s s'" by (simp add: same_cells_def f)
qed

section \<open>Installing a table with references in hand\<close>

lemma install_table_inv:
  assumes r: "rows_ok s" and f: "fresh_ok s" and c: "cover_ok s" and st: "store_ok s"
    and b: "book (tables s) (blocks_mset t + E) s" and t: "table_ok s t" and w: "bindable s w"
    and e: "\<And>t0. tables s w = Some t0 \<Longrightarrow> live_blocks t0 = []"
  shows "kv_inv E (install_table w t s)" and "tables (install_table w t s) = (tables s)(w \<mapsto> t)"
proof -
  let ?s = "install_table w t s"
  have len: "length (blocks t) = nat (max_blocks_per_row s)" using t by (simp add: table_ok_def)
  have ni: "\<not> is_immutable w" using w by (auto simp: bindable_def is_immutable_def split: block_owner.splits)
  show T: "tables ?s = (tables s)(w \<mapsto> t)" by (rule install_table_tables [OF r len ni])
  have r': "rows_ok ?s" by (rule install_table_rows_ok [OF r len ni])
  note sp = same_pool_book [OF install_table_same_pool [of s w t]]
  have "book (tables s) (blocks_mset t + E) s" using b by simp
  from book_install [OF this e] have "book (tables ?s) E ?s" unfolding T sp(1) by blast
  moreover have "fresh_ok ?s"
  proof -
    have "fst ` set (owned_tables ?s) \<subseteq> insert w (fst ` set (owned_tables s))"
      using set_update_subset_alist [of w t "owned_tables s"] by (force simp: install_table_def)
    moreover have "next_transient_owner ?s = next_transient_owner s" by (simp add: install_table_def)
    moreover have "n < next_transient_owner s" if "Transient n \<in> insert w (fst ` set (owned_tables s))" for n
      using that f w by (auto simp: fresh_ok_def bindable_def)
    ultimately show ?thesis unfolding fresh_ok_def by (metis subsetD)
  qed
  moreover have "cover_ok ?s" using c t unfolding cover_ok_def T sp(5) by simp
  moreover have "store_ok ?s" using st unfolding sp(2) .
  ultimately show "kv_inv E ?s" using r' by (simp add: kv_inv_def)
qed

lemma empty_live: "table_is_empty t \<Longrightarrow> live_blocks t = []"
  by (auto simp: table_is_empty_def live_blocks_def filter_empty_conv list_all_iff)

lemma live_blocks_nonneg: "p \<in> set (live_blocks t) \<Longrightarrow> 0 \<le> p \<and> p \<in> set (blocks t)"
  by (simp add: live_blocks_def)

text \<open>The observability counters are not part of the invariant.\<close>

lemma observability_irrelevant:
  "tables (s\<lparr>observability := x\<rparr>) = tables s" "kv_inv E (s\<lparr>observability := x\<rparr>) = kv_inv E s"
  "same_pool s (s\<lparr>observability := x\<rparr>)" "synced (s\<lparr>observability := x\<rparr>) = synced s"
  "no_leak (s\<lparr>observability := x\<rparr>) = no_leak s"
proof -
  let ?s = "s\<lparr>observability := x\<rparr>"
  show sp: "same_pool s ?s" by (simp add: same_pool_def)
  show t: "tables ?s = tables s" by (rule pool_frame_tables) (simp add: pool_frame_def)
  note q = same_pool_book [OF sp]
  have "rows_ok ?s = rows_ok s" "fresh_ok ?s = fresh_ok s" by (simp_all add: rows_ok_def fresh_ok_def)
  then show "kv_inv E ?s = kv_inv E s" unfolding kv_inv_def cover_ok_def t q(1,2,5) by (simp only:)
  show "synced ?s = synced s" by (simp add: synced_def t)
  show "no_leak ?s = no_leak s" by (rule q(3))
qed

end
