(* ===== verification/PagedKvOwners.thy ===== *)
theory PagedKvOwners
  imports PagedKvShare
begin

text \<open>
  What forking, pinning, installing and releasing do to the owners' tables in
  \<open>ironmlx/src/core/cache/paged_kv.rs\<close>; each keeps the invariant and loses no page.
\<close>

section \<open>Forking\<close>

lemma check_fork_pages_ok:
  "check_fork_pages s ps = Inr () \<longleftrightarrow> (\<forall>p \<in> set ps. 0 < page_ref_count s p \<and> page_ref_count s p < 2 ^ 31 - 1)"
  by (induction ps) auto

lemma fork_owner_prevalidated_ok:
  assumes i: "kv_inv E s" and y: "synced s" and t: "tables s w = Some t"
    and e: "\<And>t0. tables s d = Some t0 \<Longrightarrow> table_is_empty t0"
    and pg: "\<forall>p \<in> set (live_blocks t). page_ref_count s p > 0" and d: "bindable s d"
  defines "s' \<equiv> fork_owner_prevalidated w d s"
  shows "kv_inv E s'" and "tables s' = (tables s)(d \<mapsto> t)" and "synced s'" and "same_cells s s'"
    and "no_leak s \<Longrightarrow> no_leak s'" and "page_generations s' = page_generations s"
    and "immutable_pins s' = immutable_pins s" and "block_size s' = block_size s"
proof -
  have r: "rows_ok s" and f: "fresh_ok s" and b: "book (tables s) E s" and st: "store_ok s" and c: "cover_ok s"
    using i by (simp_all add: kv_inv_def)
  let ?a = "add_refs (live_blocks t) s"
  have af: "counts_frame s ?a" "free_pages ?a = free_pages s" "book (tables s) (mset (live_blocks t) + E) ?a"
    "\<forall>q. (page_ref_count ?a q > 0) = (page_ref_count s q > 0)"
    using add_refs_facts [OF b pg] by blast+
  note fl = counts_frame_fields [OF af(1)]
  note fs = frame_shape [OF fl(1)]
  have T: "tables ?a = tables s" by (rule frame_tables [OF af(1)])
  have sc: "store_ok ?a" "same_cells s ?a" using counts_frame_store [OF af(1) st] af(4) by blast+
  have tk: "table_ok s t" using c t by (simp add: cover_ok_def)
  have bk: "book (tables ?a) (blocks_mset t + E) ?a" using af(3) by (simp add: T blocks_mset_def)
  let ?i = "install_table d t ?a"
  have ii: "kv_inv E ?i" "tables ?i = (tables ?a)(d \<mapsto> t)"
    using install_table_inv [OF _ _ _ sc(1) bk] r f c tk d e empty_live by (simp_all add: fs T)
  have yi: "synced ?i" using fs(5) y ii(2) unfolding synced_def
    by (simp add: install_table_def update_conv' T)
  have k: "map_of (owned_tables s) w = Some t" using y t by (simp add: synced_def)
  define x where "x = (observability s)\<lparr>owner_forks := sat_add (owner_forks (observability s)) 1,
      forked_page_references := sat_add (forked_page_references (observability s)) (length (live_blocks t))\<rparr>"
  have "observability ?i = observability s" using fl(7) by (simp add: install_table_def)
  then have s': "s' = ?i\<lparr>observability := x\<rparr>"
    unfolding s'_def fork_owner_prevalidated_def k by (simp add: Let_def add_refs_def [symmetric] x_def)
  note ob = observability_irrelevant [where s = ?i and x = x]
  show "kv_inv E s'" "synced s'" using ii(1) yi ob unfolding s' by simp_all
  show "tables s' = (tables s)(d \<mapsto> t)" unfolding s' ob(1) ii(2) T ..
  show "same_cells s s'" using sc(2) unfolding s' same_cells_def by (simp add: install_table_def)
  show "page_generations s' = page_generations s" "immutable_pins s' = immutable_pins s" "block_size s' = block_size s"
    unfolding s' using fl by (simp_all add: install_table_def pool_frame_def)
  have nla: "no_leak ?a" if "no_leak s"
  proof -
    have "page_ref_count s q = 0" if "page_ref_count ?a q = 0" for q
      using af(4) [rule_format, of q] that book_nonneg [OF b, of q] by simp
    then show ?thesis using that fl(4,5,8) af(2) by (simp add: no_leak_def)
  qed
  show "no_leak s'" if "no_leak s"
    unfolding s' ob(5) same_pool_book(3) [OF install_table_same_pool] by (rule nla [OF that])
qed

text \<open>
  A fork either stops before touching anything but the committed rows, or shares the source's table
  with the destination.
\<close>

lemma fork_owner_ok:
  assumes i: "kv_inv E s" and d: "bindable s d" and f: "fork_owner w d s = (r, s')"
  obtains (rejected) e where "r = Inl e" and "kv_inv E s'" and "tables s' = tables s" and "same_cells s s'"
      and "no_leak s' = no_leak s" and "immutable_pins s' = immutable_pins s" and "block_size s' = block_size s"
      and "page_generations s' = page_generations s"
  | (forked) t where "r = validate_owner_invariants s'" and "kv_inv E s'" and "synced s'" and "w \<noteq> d"
      and "tables s w = Some t" and "\<And>t0. tables s d = Some t0 \<Longrightarrow> table_is_empty t0"
      and "tables s' = (tables s)(d \<mapsto> t)" and "same_cells s s'" and "no_leak s \<Longrightarrow> no_leak s'"
      and "immutable_pins s' = immutable_pins s" and "block_size s' = block_size s"
      and "page_generations s' = page_generations s"
proof -
  obtain s1 where c: "commit_execution_rows s = (Inr (), s1)" "kv_inv E s1" "tables s1 = tables s" "synced s1" "same_pool s s1"
    "next_transient_owner s1 = next_transient_owner s"
    using commit_inv [OF i] by metis
  have m: "map_of (owned_tables s1) = tables s" using c(3,4) by (simp add: synced_def)
  note sp = same_pool_book [OF c(5)]
  have g: "immutable_pins s1 = immutable_pins s" "block_size s1 = block_size s" "page_generations s1 = page_generations s"
    using c(5) by (simp_all add: same_pool_def)
  have l: "int (length (row_offsets s)) = batch s" using i by (simp add: kv_inv_def rows_ok_def)
  have d1: "bindable s1 d" using d c(6) by (simp add: bindable_def split: block_owner.splits)
  have rej: thesis if "r = Inl e" "s' = s \<or> s' = s1" for e
    using that rejected [OF that(1)] i c(2,3) sp(3,4) g by auto
  show thesis
  proof (cases "w = d")
    case True
    then show thesis using f by (intro rej [of SameOwner]) (auto simp: fork_owner_def validate_owner_fork_def)
  next
    case ne: False
    have vf: "validate_owner_fork w d s = (case tables s w of None \<Rightarrow> (Inl OwnerAbsent, s1)
        | Some t \<Rightarrow> if (case tables s d of Some t' \<Rightarrow> \<not> table_is_empty t' | None \<Rightarrow> False) then (Inl OwnerNotEmpty, s1)
            else (check_fork_pages s1 (live_blocks t), s1))"
      unfolding m [symmetric] using ne l c(1) by (simp add: validate_owner_fork_def)
    show thesis
    proof (cases "tables s w")
      case None
      then show thesis using f vf by (intro rej [of OwnerAbsent]) (auto simp: fork_owner_def)
    next
      case (Some t)
      show thesis
      proof (cases "\<exists>t'. tables s d = Some t' \<and> \<not> table_is_empty t'")
        case True
        then show thesis using f vf Some by (intro rej [of OwnerNotEmpty]) (auto simp: fork_owner_def)
      next
        case False
        then have em: "\<And>t0. tables s d = Some t0 \<Longrightarrow> table_is_empty t0" by blast
        have v: "validate_owner_fork w d s = (check_fork_pages s1 (live_blocks t), s1)"
          using vf Some em by (auto split: option.split)
        show thesis
        proof (cases "check_fork_pages s1 (live_blocks t)")
          case (Inl e)
          then show thesis using f v by (intro rej [of e]) (auto simp: fork_owner_def)
        next
          case (Inr u)
          then have pg: "\<forall>p \<in> set (live_blocks t). page_ref_count s1 p > 0"
            using check_fork_pages_ok [of s1 "live_blocks t"] by simp
          have e: "r = validate_owner_invariants s'" "s' = fork_owner_prevalidated w d s1"
            using f v Inr by (auto simp: fork_owner_def checked_def)
          have t1: "tables s1 w = Some t" "\<And>t0. tables s1 d = Some t0 \<Longrightarrow> table_is_empty t0"
            using Some em c(3) by simp_all
          note pv = fork_owner_prevalidated_ok [OF c(2) c(4) t1 pg d1, folded e(2)]
          have "same_cells s s'" using pv(4) same_pool_counts(1) [OF c(5)] sp(4) by (simp add: same_cells_def)
          then show thesis using forked [OF e(1) pv(1) pv(3) ne Some em] pv sp(3) c(3) g by simp
        qed
      qed
    qed
  qed
qed

end
