(* ===== verification/PagedKvPins.thy ===== *)
theory PagedKvPins
  imports PagedKvOwners
begin

text \<open>
  Immutable blocks of \<open>ironmlx/src/core/cache/paged_kv.rs\<close>: pinning a sealed block of an owner, unpinning,
  and starting an owner from pinned blocks.
\<close>

section \<open>Changing the pins\<close>

lemma book_pin_delete:
  assumes b: "book T E s" and k: "map_of (immutable_pins s) k = Some h"
  shows "book T (add_mset (handle_page h) E) (s\<lparr>immutable_pins := AList.delete k (immutable_pins s)\<rparr>)"
proof -
  let ?s = "s\<lparr>immutable_pins := AList.delete k (immutable_pins s)\<rparr>"
  have d: "distinct (map fst (immutable_pins s))" using b by (simp add: book_def)
  have c: "page_ref_count ?s p = page_ref_count s p" for p by (rule page_ref_count_cong) simp
  have po: "pin_ok ?s h' = pin_ok s h'" for h' by (rule pin_ok_cong) simp_all
  have "page_ref_count ?s p = int (holders T (add_mset (handle_page h) E) (immutable_pins ?s) p)" if "0 \<le> p" for p
    using book_count [OF b that] pin_refs_delete [OF k d, of p] by (auto simp: c holders_def)
  then have "\<forall>p \<ge> 0. page_ref_count ?s p = int (holders T (add_mset (handle_page h) E) (immutable_pins ?s) p)" by blast
  moreover have "distinct (map fst (immutable_pins ?s))" using d by (simp add: distinct_delete)
  moreover have "\<forall>(k, h) \<in> set (immutable_pins ?s). pin_ok ?s h"
    unfolding po using book_pin [OF b] by (auto simp: AList.delete_eq)
  moreover have "\<forall>p. page_ref_count ?s p > 0 \<longrightarrow> p < allocated_pages ?s" using b by (simp add: book_def c)
  moreover have "\<forall>p \<in> set (free_pages ?s). 0 \<le> p \<and> p < allocated_pages ?s \<and> page_ref_count ?s p = 0"
    using book_free [OF b] by (simp add: c)
  moreover have "finite (dom T)" "0 \<le> allocated_pages ?s" "allocated_pages ?s \<le> max_pages ?s" "distinct (free_pages ?s)"
    using b by (simp_all add: book_def)
  ultimately show ?thesis unfolding book_def by blast
qed

definition pins_frame :: "'c paged_kv \<Rightarrow> 'c paged_kv \<Rightarrow> bool" where
  "pins_frame s s' = (s' = s\<lparr>immutable_pins := immutable_pins s'\<rparr>)"

lemma pins_frame_facts:
  assumes "pins_frame s s'"
  shows "tables s' = tables s" and "rows_ok s' = rows_ok s" and "fresh_ok s' = fresh_ok s" and "cover_ok s' = cover_ok s"
    and "store_ok s' = store_ok s" and "no_leak s' = no_leak s" and "same_cells t s' = same_cells t s"
    and "block_size s' = block_size s" and "page_generations s' = page_generations s" and "synced s' = synced s"
    and "page_ref_counts s' = page_ref_counts s"
proof -
  obtain x where s': "s' = s\<lparr>immutable_pins := x\<rparr>" using assms unfolding pins_frame_def by blast
  have c: "page_ref_count s' = page_ref_count s" by (intro ext page_ref_count_cong) (simp add: s')
  show t: "tables s' = tables s" unfolding s' by (intro ext) (simp add: tables_def split: option.split)
  show "rows_ok s' = rows_ok s" "fresh_ok s' = fresh_ok s" "cover_ok s' = cover_ok s" "synced s' = synced s"
    unfolding cover_ok_def synced_def t by (simp_all add: s' rows_ok_def fresh_ok_def table_ok_def)
  show "store_ok s' = store_ok s" "no_leak s' = no_leak s"
    unfolding store_ok_def no_leak_def c by (simp_all add: s' store_dims_def split: option.split)
  show "same_cells t s' = same_cells t s" by (simp add: same_cells_def s')
  show "block_size s' = block_size s" "page_generations s' = page_generations s" "page_ref_counts s' = page_ref_counts s"
    by (simp_all add: s')
qed

section \<open>Pinning\<close>

lemma pin_prevalidated_ok:
  assumes i: "kv_inv E s" and p: "page_ref_count s (handle_page h) > 0" and g: "generation h = page_generation s (handle_page h)"
    and ix: "0 \<le> block_index h" "block_index h < max_blocks_per_row s" and n: "map_of (immutable_pins s) k = None"
  defines "s' \<equiv> pin_immutable_block_prevalidated k h s"
  shows "kv_inv E s'" and "tables s' = tables s" and "same_cells s s'" and "no_leak s \<Longrightarrow> no_leak s'"
    and "immutable_pins s' = immutable_pins s @ [(k, h)]" and "synced s' = synced s" and "block_size s' = block_size s"
    and "page_generations s' = page_generations s"
proof -
  have b: "book (tables s) E s" and st: "store_ok s" using i by (simp_all add: kv_inv_def)
  let ?a = "add_page_ref (handle_page h) s"
  have fr: "counts_frame s ?a" by (rule add_counts_frame)
  note fl = counts_frame_fields [OF fr]
  note fs = frame_shape [OF fl(1)]
  have ba: "book (tables s) (add_mset (handle_page h) E) ?a" by (rule add_page_ref_book [OF b p])
  have live: "page_ref_count s q > 0" if "page_ref_count ?a q > 0" for q
    using that p by (auto simp: add_page_ref_count [OF p] split: if_splits)
  have sa: "store_ok ?a" "same_cells s ?a" using counts_frame_store [OF fr st live] by blast+
  have pins: "immutable_pins ?a = immutable_pins s" using fl(1) by (simp add: pool_frame_def)
  have s': "s' = ?a\<lparr>immutable_pins := AList.update k h (immutable_pins ?a)\<rparr>"
    by (simp add: s'_def pin_immutable_block_prevalidated_def Let_def)
  have pf: "pins_frame ?a s'" by (simp add: pins_frame_def s')
  note pff = pins_frame_facts [OF pf]
  have T: "tables ?a = tables s" by (rule frame_tables [OF fr])
  have pk: "pin_ok ?a h"
    using ref_count_in_range [OF p] g ix fl(1) page_generation_cong [OF fl(4)] by (simp add: pin_ok_def pool_frame_def)
  have "book (tables s) E s'" unfolding s' by (rule book_pin_insert [OF ba _ pk]) (simp add: pins n)
  then show "kv_inv E s'" using i sa(1) unfolding kv_inv_def pff fs T by simp
  show "tables s' = tables s" by (simp add: pff T)
  show "same_cells s s'" by (simp add: pff sa)
  show "immutable_pins s' = immutable_pins s @ [(k, h)]" by (simp add: s' pins update_new n)
  show "synced s' = synced s" by (simp add: pff fs)
  show "block_size s' = block_size s" "page_generations s' = page_generations s"
    using fl(1,4) by (simp_all add: pff pool_frame_def)
  show "no_leak s'" if "no_leak s"
  proof -
    have "page_ref_count s q = 0" if "page_ref_count ?a q = 0" for q
      using that book_nonneg [OF b, of q] by (simp add: add_page_ref_count [OF p] split: if_splits)
    then have "no_leak ?a" using that fl(4,5,8) by (simp add: no_leak_def add_frame)
    then show ?thesis by (simp add: pff)
  qed
qed

lemma validate_pin_iff:
  "validate_immutable_block_pin w i (Immutable k) s = Inr h \<longleftrightarrow>
     0 \<le> i \<and> i < max_blocks_per_row s \<and> map_of (immutable_pins s) k = None
     \<and> (\<exists>t. map_of (owned_tables s) w = Some t \<and> (i + 1) * block_size s \<le> offset t \<and> 0 \<le> blocks t ! nat i
          \<and> 0 < page_ref_count s (blocks t ! nat i) \<and> page_ref_count s (blocks t ! nat i) < 2 ^ 31 - 1
          \<and> h = \<lparr>block_index = i, handle_page = blocks t ! nat i, generation = page_generation s (blocks t ! nat i)\<rparr>)"
  by (auto simp: validate_immutable_block_pin_def pin_id_def Let_def split: option.splits)

lemma pin_block_ok:
  assumes i: "kv_inv E s" and p: "pin_immutable_block w j k s = (r, s')"
  shows "kv_inv E s'" and "tables s' = tables s" and "same_cells s s'" and "no_leak s \<Longrightarrow> no_leak s'"
    and "synced s' = synced s" and "block_size s' = block_size s" and "page_generations s' = page_generations s"
    and "immutable_pins s' = immutable_pins s @ (case r of Inr h \<Rightarrow> [(k, h)] | Inl _ \<Rightarrow> [])"
    and "r = Inr h \<Longrightarrow> validate_immutable_block_pin w j (Immutable k) s = Inr h"
proof -
  consider (err) e where "r = Inl e" "s' = s"
    | (ok) h where "r = Inr h" "s' = pin_immutable_block_prevalidated k h s"
        "validate_immutable_block_pin w j (Immutable k) s = Inr h"
  proof (cases "validate_immutable_block_pin w j (Immutable k) s")
    case (Inl e)
    then have "r = Inl e" "s' = s" using p by (simp_all add: pin_immutable_block_def)
    then show thesis by (rule err)
  next
    case (Inr h)
    then have "r = Inr h" "s' = pin_immutable_block_prevalidated k h s" using p by (simp_all add: pin_immutable_block_def)
    then show thesis using Inr by (rule ok)
  qed
  then have "kv_inv E s' \<and> tables s' = tables s \<and> same_cells s s' \<and> (no_leak s \<longrightarrow> no_leak s')
    \<and> synced s' = synced s \<and> block_size s' = block_size s \<and> page_generations s' = page_generations s
    \<and> immutable_pins s' = immutable_pins s @ (case r of Inr h \<Rightarrow> [(k, h)] | Inl _ \<Rightarrow> [])
    \<and> (\<forall>h. r = Inr h \<longrightarrow> validate_immutable_block_pin w j (Immutable k) s = Inr h)"
  proof cases
    case err
    then show ?thesis using i by simp
  next
    case (ok h)
    have v: "page_ref_count s (handle_page h) > 0" "generation h = page_generation s (handle_page h)"
      "0 \<le> block_index h" "block_index h < max_blocks_per_row s" "map_of (immutable_pins s) k = None"
      using ok(3) by (auto simp: validate_pin_iff)
    show ?thesis using pin_prevalidated_ok [OF i v] ok by simp
  qed
  then show "kv_inv E s'" and "tables s' = tables s" and "same_cells s s'" and "no_leak s \<Longrightarrow> no_leak s'"
    and "synced s' = synced s" and "block_size s' = block_size s" and "page_generations s' = page_generations s"
    and "immutable_pins s' = immutable_pins s @ (case r of Inr h \<Rightarrow> [(k, h)] | Inl _ \<Rightarrow> [])"
    and "r = Inr h \<Longrightarrow> validate_immutable_block_pin w j (Immutable k) s = Inr h"
    by blast+
qed

section \<open>Starting an owner from pinned blocks\<close>

definition prefix_table :: "block_handle list \<Rightarrow> 'c paged_kv \<Rightarrow> owned_table" where
  "prefix_table hs s = \<lparr>blocks = map handle_page hs @ replicate (nat (max_blocks_per_row s) - length hs) (- 1),
     offset = int (length hs) * block_size s\<rparr>"

lemma check_prefix_iff:
  "0 \<le> i \<Longrightarrow> check_prefix_handles s i hs = Inr () \<longleftrightarrow> (\<forall>j < length hs. block_index (hs ! j) = i + int j
     \<and> validate_live_handle s (hs ! j) = Inr () \<and> page_ref_count s (handle_page (hs ! j)) < 2 ^ 31 - 1)"
proof (induction hs arbitrary: i)
  case (Cons h hs)
  have "check_prefix_handles s i (h # hs) = Inr () \<longleftrightarrow> block_index h = i \<and> validate_live_handle s h = Inr ()
      \<and> page_ref_count s (handle_page h) < 2 ^ 31 - 1 \<and> check_prefix_handles s (i + 1) hs = Inr ()"
    by (auto split: sum.split)
  also have "check_prefix_handles s (i + 1) hs = Inr () \<longleftrightarrow> (\<forall>j < length hs. block_index (hs ! j) = i + 1 + int j
     \<and> validate_live_handle s (hs ! j) = Inr () \<and> page_ref_count s (handle_page (hs ! j)) < 2 ^ 31 - 1)"
    using Cons by simp
  finally show ?case by (auto simp: less_Suc_eq_0_disj)
qed simp

lemma prefix_blocks:
  assumes "\<forall>j < length hs. block_index (hs ! j) = int j" and "length hs \<le> n"
  shows "foldl (\<lambda>bs h. bs[nat (block_index h) := handle_page h]) (replicate n (- 1)) hs
    = map handle_page hs @ replicate (n - length hs) (- 1)"
  using assms
proof (induction hs rule: rev_induct)
  case (snoc h hs)
  have ix: "block_index h = int (length hs)" using snoc.prems(1) by (metis length_append_singleton lessI nth_append_length)
  have "\<forall>j < length hs. block_index (hs ! j) = int j" using snoc.prems(1) by (metis less_SucI length_append_singleton nth_append)
  then have "foldl (\<lambda>bs h. bs[nat (block_index h) := handle_page h]) (replicate n (- 1)) hs
      = map handle_page hs @ replicate (n - length hs) (- 1)" using snoc by simp
  moreover have "replicate (n - length hs) (- 1 :: int) = - 1 # replicate (n - length (hs @ [h])) (- 1)"
    using snoc.prems(2) by (cases "n - length hs") auto
  ultimately show ?case by (simp add: ix list_update_append)
qed simp

lemma install_prefix_ok:
  assumes i: "kv_inv E s" and f: "install_immutable_prefix d hs s = (r, s')" and cp: "int (length hs) * block_size s \<le> cap s"
  obtains (rejected) e where "r = Inl e" and "kv_inv E s'" and "tables s' = tables s" and "same_cells s s'"
      and "no_leak s' = no_leak s" and "immutable_pins s' = immutable_pins s" and "block_size s' = block_size s"
  | (installed) "r = Inr ()" and "kv_inv E s'" and "tables s' = (tables s)(d \<mapsto> prefix_table hs s)" and "same_cells s s'"
      and "no_leak s \<Longrightarrow> no_leak s'" and "immutable_pins s' = immutable_pins s" and "block_size s' = block_size s"
      and "\<forall>h \<in> set hs. validate_live_handle s h = Inr ()" and "length hs \<le> nat (max_blocks_per_row s)"
      and "\<And>t0. tables s d = Some t0 \<Longrightarrow> table_is_empty t0"
proof -
  obtain s1 where c: "commit_execution_rows s = (Inr (), s1)" "kv_inv E s1" "tables s1 = tables s" "synced s1" "same_pool s s1"
    "next_transient_owner s1 = next_transient_owner s"
    using commit_inv [OF i] by metis
  have m: "map_of (owned_tables s1) = tables s" using c(3,4) by (simp add: synced_def)
  note sp = same_pool_book [OF c(5)]
  have g: "immutable_pins s1 = immutable_pins s" "block_size s1 = block_size s" "max_blocks_per_row s1 = max_blocks_per_row s"
    "cap s1 = cap s" "allocated_pages s1 = allocated_pages s"
    using c(5) by (simp_all add: same_pool_def)
  have vl: "validate_live_handle s1 h = validate_live_handle s h" for h
    using same_pool_counts [OF c(5)] g by (simp add: validate_live_handle_def)
  have rej: thesis if "r = Inl e" "s' = s \<or> s' = s1" for e
    using that rejected [OF that(1)] i c(2,3) sp(3,4) g by auto
  show thesis
  proof (cases "fst (validate_immutable_prefix_install d hs s)")
    case (Inl e)
    then show thesis using f c(1) by (intro rej [of e])
        (auto simp: install_immutable_prefix_def validate_immutable_prefix_install_def split: if_splits)
  next
    case (Inr u)
    then have v: "validate_immutable_prefix_install d hs s = (Inr (), s1)" and req: "\<exists>n. d = Request n"
      and len: "length hs \<le> nat (max_blocks_per_row s)"
      and em: "\<And>t0. tables s d = Some t0 \<Longrightarrow> table_is_empty t0" and chk: "check_prefix_handles s1 0 hs = Inr ()"
      using c(1) unfolding m [symmetric]
      by (auto simp: validate_immutable_prefix_install_def split: if_splits block_owner.splits option.splits)
    have r: "rows_ok s1" "fresh_ok s1" "cover_ok s1" and b: "book (tables s1) E s1" and st: "store_ok s1"
      using c(2) by (simp_all add: kv_inv_def)
    have hs: "\<forall>j < length hs. block_index (hs ! j) = int j \<and> validate_live_handle s1 (hs ! j) = Inr ()"
      using chk check_prefix_iff [of 0 s1 hs] by simp
    then have lv: "\<forall>h \<in> set hs. validate_live_handle s1 h = Inr ()" by (metis in_set_conv_nth)
    have pg: "\<forall>p \<in> set (map handle_page hs). page_ref_count s1 p > 0" and nn: "\<forall>p \<in> set (map handle_page hs). 0 \<le> p"
      using lv by (auto simp: live_handle_iff)
    let ?t = "prefix_table hs s1"
    have bl: "foldl (\<lambda>bs h. bs[nat (block_index h) := handle_page h]) (replicate (nat (max_blocks_per_row s1)) (- 1)) hs = blocks ?t"
      using prefix_blocks [of hs "nat (max_blocks_per_row s1)"] hs len g by (simp add: prefix_table_def)
    let ?a = "add_refs (map handle_page hs) s1"
    have af: "counts_frame s1 ?a" "free_pages ?a = free_pages s1" "book (tables s1) (mset (map handle_page hs) + E) ?a"
      "\<forall>q. (page_ref_count ?a q > 0) = (page_ref_count s1 q > 0)"
      using add_refs_facts [OF b pg] by blast+
    note fl = counts_frame_fields [OF af(1)]
    note fs = frame_shape [OF fl(1)]
    have T: "tables ?a = tables s1" by (rule frame_tables [OF af(1)])
    have sc: "store_ok ?a" "same_cells s1 ?a" using counts_frame_store [OF af(1) st] af(4) by blast+
    have bs0: "0 < block_size s" using i by (simp add: kv_inv_def store_ok_def)
    have lb: "live_blocks ?t = map handle_page hs"
      using nn by (simp add: live_blocks_def prefix_table_def filter_id_conv)
    have tk: "table_ok s1 ?t"
    proof -
      have "0 \<le> blocks ?t ! j" if "int j * block_size s < int (length hs) * block_size s" for j
      proof -
        have "j < length hs" using that bs0 by (simp add: mult_less_cancel_right)
        then show ?thesis using nn by (simp add: prefix_table_def nth_append)
      qed
      then show ?thesis using cp bs0 len g by (simp add: table_ok_def) (simp add: prefix_table_def g)
    qed
    have e: "r = Inr ()" "s' = install_table d ?t ?a"
      using f v bl by (simp_all add: install_immutable_prefix_def install_immutable_prefix_prevalidated_def Let_def
          add_refs_def foldl_map prefix_table_def)
    have ii: "kv_inv E s'" "tables s' = (tables ?a)(d \<mapsto> ?t)"
      unfolding e(2) using install_table_inv [OF _ _ _ sc(1), where t = ?t and w = d] r af(3) tk req em empty_live c(3) lb
      by (auto simp: fs T blocks_mset_def bindable_def)
    have scs: "same_cells s s'" using sc(2) same_pool_counts(1) [OF c(5)] sp(4) unfolding e(2) same_cells_def
      by (simp add: install_table_def)
    have nl: "no_leak s'" if "no_leak s"
    proof -
      have "page_ref_count s1 q = 0" if "page_ref_count ?a q = 0" for q
        using af(4) [rule_format, of q] that book_nonneg [OF b, of q] by simp
      then have "no_leak ?a" using that sp(3) fl(4,5,8) af(2) by (simp add: no_leak_def)
      then show ?thesis unfolding e(2) same_pool_book(3) [OF install_table_same_pool] .
    qed
    have pt: "?t = prefix_table hs s" by (simp add: prefix_table_def g)
    show thesis
    proof (rule installed [OF e(1) ii(1) _ scs nl _ _ _ len em])
      show "tables s' = (tables s)(d \<mapsto> prefix_table hs s)" unfolding ii(2) T pt c(3) ..
      show "immutable_pins s' = immutable_pins s" "block_size s' = block_size s"
        unfolding e(2) using fl(1) g by (simp_all add: install_table_def pool_frame_def)
      show "\<forall>h \<in> set hs. validate_live_handle s h = Inr ()" using lv vl by simp
    qed
  qed
qed

end
