(* ===== verification/PagedKvRelease.thy ===== *)
theory PagedKvRelease
  imports PagedKvPins
begin

text \<open>
  Releasing in \<open>ironmlx/src/core/cache/paged_kv.rs\<close>: a released owner's references go back to the pool and
  its execution row, if it has one, continues under a fresh transient owner; a released pin gives its
  reference back.
\<close>

section \<open>Rebinding the row of a released owner\<close>

lemma rebind_other: "execution_owners s ! row \<noteq> w \<Longrightarrow> rebind_released_row w s row = s"
  by (simp add: rebind_released_row_def)

lemma rebind_none:
  "(\<And>row. row \<in> set rows \<Longrightarrow> execution_owners s ! row \<noteq> w) \<Longrightarrow> foldl (rebind_released_row w) s rows = s"
  by (induction rows) (simp_all add: rebind_other)

lemma rebind_loop:
  assumes d: "distinct (execution_owners s)" and r: "row < length (execution_owners s)" and w: "execution_owners s ! row = w"
    and f: "w \<noteq> Transient (next_transient_owner s)"
  shows "foldl (rebind_released_row w) s [0..<length (execution_owners s)] = rebind_released_row w s row"
proof -
  let ?n = "length (execution_owners s)"
  let ?s = "rebind_released_row w s row"
  have split: "[0..<?n] = [0..<row] @ row # [Suc row..<?n]"
    using r by (metis le_add_same_cancel1 less_imp_le_nat upt_add_eq_append upt_conv_Cons zero_le le_add_diff_inverse)
  have a: "execution_owners s ! j \<noteq> w" if "j < ?n" "j \<noteq> row" for j
    using d r w that by (metis nth_eq_iff_index_eq)
  have "foldl (rebind_released_row w) s [0..<row] = s" by (rule rebind_none) (use a r in auto)
  moreover have "foldl (rebind_released_row w) ?s [Suc row..<?n] = ?s"
  proof (rule rebind_none)
    fix j assume "j \<in> set [Suc row..<?n]"
    then show "execution_owners ?s ! j \<noteq> w" using a [of j] r w f by (simp add: rebind_released_row_def Let_def)
  qed
  ultimately show ?thesis by (simp add: split)
qed

section \<open>Dropping a table\<close>

definition released_tables :: "block_owner \<Rightarrow> 'c paged_kv \<Rightarrow> block_owner \<Rightarrow> owned_table option" where
  "released_tables w s =
     (if w \<in> set (execution_owners s)
      then (tables s)(w := None, Transient (next_transient_owner s) \<mapsto> empty_table s)
      else (tables s)(w := None))"

definition cleared_row :: "block_owner \<Rightarrow> (block_owner \<times> int list) \<Rightarrow> int list" where
  "cleared_row w = (\<lambda>(w', row). if w' = w then replicate (length row) (- 1) else row)"

text \<open>What \<open>drop_owner_table\<close> computes, written out.\<close>

lemma drop_owner_table_eq:
  fixes t :: owned_table
  assumes d: "distinct (execution_owners s)" and f: "w \<noteq> Transient (next_transient_owner s)"
  defines "u \<equiv> release_refs (rev (live_blocks t)) (s\<lparr>owned_tables := AList.delete w (owned_tables s)\<rparr>)"
  shows "drop_owner_table w t s = (let u = u\<lparr>block_tables := map (cleared_row w) (zip (execution_owners s) (block_tables s)),
        row_offsets := map (\<lambda>(w', x). if w' = w then 0 else x) (zip (execution_owners s) (row_offsets s))\<rparr>
    in if w \<in> set (execution_owners s)
       then u\<lparr>next_transient_owner := sat_add (next_transient_owner s) 1,
              execution_owners := map (\<lambda>v. if v = w then Transient (next_transient_owner s) else v) (execution_owners s),
              owned_tables := AList.update (Transient (next_transient_owner s)) (empty_table s) (owned_tables u)\<rparr>
       else u)"
proof -
  let ?s0 = "s\<lparr>owned_tables := AList.delete w (owned_tables s)\<rparr>"
  have fr: "counts_frame x (release_refs ps x)" for ps and x :: "'a paged_kv"
  proof (induction ps arbitrary: x)
    case (Cons p ps)
    have "release_refs (p # ps) x = release_refs ps (release_page_ref p x)" by (simp add: release_refs_def)
    then show ?case using counts_frame_trans [OF release_counts_frame Cons.IH] by simp
  qed (simp add: release_refs_def)
  have cf: "counts_frame ?s0 u" unfolding u_def by (rule fr)
  note pf = counts_frame_fields(1) [OF cf, unfolded pool_frame_def]
  have rl: "filter (\<lambda>p. p \<ge> 0) (rev (blocks t)) = rev (live_blocks t)" by (simp add: live_blocks_def rev_filter)
  let ?u = "u\<lparr>block_tables := map (cleared_row w) (zip (execution_owners s) (block_tables s)),
      row_offsets := map (\<lambda>(w', x). if w' = w then 0 else x) (zip (execution_owners s) (row_offsets s))\<rparr>"
  have e: "drop_owner_table w t s = foldl (rebind_released_row w) ?u [0..<length (execution_owners ?u)]"
    unfolding drop_owner_table_def Let_def rl release_refs_def [symmetric] u_def [symmetric] cleared_row_def
    using pf by simp
  have ow: "execution_owners ?u = execution_owners s" "next_transient_owner ?u = next_transient_owner s" using pf by simp_all
  have em: "empty_table ?u = empty_table s" using pf by (simp add: empty_table_def)
  show ?thesis
  proof (cases "w \<in> set (execution_owners s)")
    case True
    then obtain row where row: "row < length (execution_owners s)" "execution_owners s ! row = w" by (rule row_of)
    have du: "distinct (execution_owners ?u)" unfolding ow(1) by (rule d)
    have "foldl (rebind_released_row w) ?u [0..<length (execution_owners ?u)] = rebind_released_row w ?u row"
      by (rule rebind_loop [OF du]) (use row f in \<open>simp_all only: ow not_False_eq_True\<close>)
    moreover have "(execution_owners s)[row := Transient (next_transient_owner s)]
        = map (\<lambda>v. if v = w then Transient (next_transient_owner s) else v) (execution_owners s)"
    proof (rule nth_equalityI)
      fix j assume j: "j < length ((execution_owners s)[row := Transient (next_transient_owner s)])"
      show "(execution_owners s)[row := Transient (next_transient_owner s)] ! j
          = map (\<lambda>v. if v = w then Transient (next_transient_owner s) else v) (execution_owners s) ! j"
        using row d j by (auto simp: nth_list_update nth_eq_iff_index_eq)
    qed simp
    ultimately show ?thesis using True e row pf em by (simp add: rebind_released_row_def Let_def)
  next
    case False
    then have "foldl (rebind_released_row w) ?u [0..<length (execution_owners ?u)] = ?u"
      by (intro rebind_none) (auto simp: ow(1))
    then show ?thesis using False e by simp
  qed
qed

section \<open>Releasing an owner\<close>

lemma released_row:
  assumes ok: "rows_ok s" and j: "j < length (execution_owners s)" and ne: "execution_owners s ! j \<noteq> w"
  shows "map (cleared_row w) (zip (execution_owners s) (block_tables s)) ! j = block_tables s ! j"
    and "map (\<lambda>(w', x). if w' = w then 0 else x) (zip (execution_owners s) (row_offsets s)) ! j = row_offsets s ! j"
  using assms by (simp_all add: rows_ok_def cleared_row_def)

lemma drop_owner_table_ok:
  assumes i: "kv_inv E s" and y: "synced s" and t: "tables s w = Some t" and nx: "next_transient_owner s < u64_max"
  defines "s' \<equiv> drop_owner_table w t s"
  shows "kv_inv E s'" and "tables s' = released_tables w s" and "synced s'" and "same_cells s' s"
    and "k_pages s' = k_pages s" and "v_pages s' = v_pages s" and "block_size s' = block_size s"
    and "immutable_pins s' = immutable_pins s" and "page_generations s' = page_generations s"
    and "no_leak s \<Longrightarrow> no_leak s'"
proof -
  have r: "rows_ok s" and f: "fresh_ok s" and b: "book (tables s) E s" and st: "store_ok s" and c: "cover_ok s"
    using i by (simp_all add: kv_inv_def)
  have d: "distinct (execution_owners s)" and dk: "distinct (map fst (owned_tables s))" using r by (simp_all add: rows_ok_def)
  have wk: "w \<in> fst ` set (owned_tables s)" using t tables_dom [OF r] by blast
  have fk: "Transient (next_transient_owner s) \<notin> fst ` set (owned_tables s)" using f less_irrefl unfolding fresh_ok_def by blast
  have fw: "w \<noteq> Transient (next_transient_owner s)" using wk fk by blast
  let ?fresh = "Transient (next_transient_owner s)"
  let ?s0 = "s\<lparr>owned_tables := AList.delete w (owned_tables s)\<rparr>"
  let ?ps = "rev (live_blocks t)"
  define u where "u = release_refs ?ps ?s0"
  note eq = drop_owner_table_eq [OF d fw, where t = t, folded u_def s'_def]
  have sp0: "same_pool s ?s0" by (simp add: same_pool_def)
  have "book ((tables s)(w := None)) (blocks_mset t + E) s" by (rule book_uninstall [OF b t])
  then have b0: "book ((tables s)(w := None)) (mset ?ps + E) ?s0" unfolding same_pool_book(1) [OF sp0] by (simp add: blocks_mset_def)
  have nn: "\<forall>p \<in> set ?ps. 0 \<le> p" using live_blocks_nonneg by auto
  have uf: "counts_frame ?s0 u" "book ((tables s)(w := None)) E u" "\<forall>q. page_ref_count u q \<le> page_ref_count ?s0 q"
    "no_leak ?s0 \<longrightarrow> no_leak u"
    using release_refs_facts [OF b0 nn] unfolding u_def by blast+
  note fl = counts_frame_fields [OF uf(1)]
  note pf = fl(1) [unfolded pool_frame_def]
  have rc0: "page_ref_count ?s0 q = page_ref_count s q" for q by (rule page_ref_count_cong) simp
  have st0: "store_ok ?s0" using st unfolding same_pool_book(2) [OF sp0] .
  have live: "page_ref_count ?s0 q > 0" if "page_ref_count u q > 0" for q using uf(3) [rule_format, of q] that by simp
  have stu: "store_ok u" by (rule counts_frame_store(1) [OF uf(1) st0 live])
  let ?bt = "map (cleared_row w) (zip (execution_owners s) (block_tables s))"
  let ?ro = "map (\<lambda>(w', x). if w' = w then 0 else x) (zip (execution_owners s) (row_offsets s))"
  let ?eo = "map (\<lambda>v. if v = w then ?fresh else v) (execution_owners s)"
  let ?al = "AList.delete w (owned_tables s)"
  have ou: "owned_tables u = ?al" using pf by simp
  have s'u: "same_pool u s'" "observability s' = observability u" unfolding eq Let_def by (simp_all add: same_pool_def)
  have bt: "block_tables s' = ?bt" "row_offsets s' = ?ro" "batch s' = batch s"
    using pf unfolding eq Let_def by simp_all
  have eo: "execution_owners s' = ?eo"
  proof (cases "w \<in> set (execution_owners s)")
    case False
    then have "?eo = execution_owners s" by (intro map_idI) auto
    then show ?thesis using pf False unfolding eq Let_def by simp
  qed (simp add: eq Let_def)
  have al: "owned_tables s' = (if w \<in> set (execution_owners s) then AList.update ?fresh (empty_table s) ?al else ?al)"
    unfolding eq Let_def by (simp add: ou)
  have m: "map_of (owned_tables s) = tables s" using y by (simp add: synced_def)
  have mal: "map_of (owned_tables s') = released_tables w s"
    unfolding al released_tables_def by (simp add: update_conv' delete_conv' m)
  have g: "max_blocks_per_row s' = max_blocks_per_row s" "cap s' = cap s" "block_size s' = block_size s"
    using s'u(1) pf by (simp_all add: same_pool_def)
  have dal: "distinct (map fst (owned_tables s'))" using dk by (simp add: al distinct_delete distinct_update)
  have alset: "set (owned_tables s') \<subseteq> insert (?fresh, empty_table s) (set (owned_tables s))"
    using set_update_subset_alist [of ?fresh "empty_table s" ?al] by (auto simp: al AList.delete_eq)
  have r': "rows_ok s'"
  proof -
    have "distinct ?eo"
    proof -
      have "?fresh \<notin> set (execution_owners s)" using r fk by (auto simp: rows_ok_def)
      then have "inj_on (\<lambda>v. if v = w then ?fresh else v) (set (execution_owners s))" by (auto simp: inj_on_def)
      then show ?thesis using d by (simp add: distinct_map)
    qed
    moreover have "set ?eo \<subseteq> fst ` set (owned_tables s')"
    proof
      fix v assume "v \<in> set ?eo"
      then have "v \<in> dom (released_tables w s)" using r tables_dom [OF r] fw
        by (auto simp: released_tables_def rows_ok_def split: if_splits)
      then show "v \<in> fst ` set (owned_tables s')" using mal by (metis dom_map_of_conv_image_fst)
    qed
    moreover have "\<not> is_immutable v \<and> length (blocks x) = nat (max_blocks_per_row s)" if "(v, x) \<in> set (owned_tables s')" for v x
      using alset that r by (auto simp: rows_ok_def is_immutable_def)
    moreover have "length row = nat (max_blocks_per_row s)" if "row \<in> set ?bt" for row
      using that r by (auto simp: rows_ok_def cleared_row_def dest: set_zip_rightD split: if_splits)
    ultimately show ?thesis using r dal unfolding rows_ok_def eo bt g by (auto simp: rows_ok_def)
  qed
  have T: "tables s' = released_tables w s"
  proof (rule tables_eqI [OF r' r' refl])
    show "map_of (owned_tables s') v = released_tables w s v" for v by (simp add: mal)
    show "released_tables w s (execution_owners s' ! j) = Some \<lparr>blocks = block_tables s' ! j, offset = row_offsets s' ! j\<rparr>"
      if j: "j < length (execution_owners s')" for j
    proof -
      have j': "j < length (execution_owners s)" using j by (simp add: eo)
      show ?thesis
      proof (cases "execution_owners s ! j = w")
        case True
        then have "w \<in> set (execution_owners s)" using j' by auto
        moreover have "block_tables s ! j \<in> set (block_tables s)" using r j' by (simp add: rows_ok_def)
        ultimately show ?thesis using True j' r unfolding eo bt
          by (auto simp: released_tables_def cleared_row_def rows_ok_def empty_table_def)
      next
        case False
        have "execution_owners s ! j \<in> fst ` set (owned_tables s)" using r j' by (simp add: rows_ok_def subset_iff)
        then have "execution_owners s ! j \<noteq> ?fresh" using fk by metis
        then show ?thesis using False j' tables_row [OF r j'] released_row [OF r j' False] unfolding eo bt
          by (auto simp: released_tables_def)
      qed
    qed
  qed
  show "tables s' = released_tables w s" by (rule T)
  show "synced s'" by (simp add: synced_def T mal)
  note spu = same_pool_book [OF s'u(1)]
  have "table_refs (released_tables w s) p = table_refs ((tables s)(w := None)) p" if "0 \<le> p" for p
  proof (rule table_refs_eqI)
    show "finite (dom ((tables s)(w := None)))" "finite (dom (released_tables w s))"
      using tables_finite [OF r] by (simp_all add: released_tables_def)
    have z: "count_list (blocks (empty_table s)) p = 0" using that count_list_empty [of "blocks (empty_table s)" p]
      empty_table_empty(1) [of s] by (simp add: table_is_empty_def)
    have "tables s ?fresh = None" using fk tables_dom [OF r] by blast
    then show "(case released_tables w s v of None \<Rightarrow> 0 | Some t \<Rightarrow> count_list (blocks t) p)
      = (case ((tables s)(w := None)) v of None \<Rightarrow> 0 | Some t \<Rightarrow> count_list (blocks t) p)" for v
      using z by (simp add: released_tables_def)
  qed
  then have "book (released_tables w s) E u"
    using uf(2) tables_finite [OF r] by (intro book_retable [OF uf(2)]) (simp_all add: released_tables_def)
  then have bk: "book (tables s') E s'" unfolding T spu(1) .
  have fr: "fresh_ok s'"
  proof -
    have nt: "next_transient_owner s \<le> next_transient_owner s'" "w \<in> set (execution_owners s) \<Longrightarrow> next_transient_owner s < next_transient_owner s'"
      using pf nx unfolding eq Let_def by (simp_all add: sat_add_def)
    have "n < next_transient_owner s'" if "Transient n \<in> fst ` set (owned_tables s')" for n
    proof (cases "n = next_transient_owner s")
      case True
      then have "w \<in> set (execution_owners s)" using that fk by (auto simp: al AList.delete_eq split: if_splits)
      then show ?thesis using nt True by simp
    next
      case False
      then have "Transient n \<in> fst ` set (owned_tables s)" using that alset by force
      then show ?thesis using f nt(1) by (force simp: fresh_ok_def)
    qed
    then show ?thesis by (simp add: fresh_ok_def)
  qed
  have cv: "cover_ok s'"
  proof -
    have tk: "table_ok s' = table_ok s" using g by (intro ext) (simp add: table_ok_def)
    have "table_ok s x" if "released_tables w s v = Some x" for v x
      using that c empty_table_ok [OF r] by (auto simp: released_tables_def cover_ok_def split: if_splits)
    then show ?thesis by (simp add: cover_ok_def T tk)
  qed
  show "kv_inv E s'" using r' fr bk cv stu spu(2) by (simp add: kv_inv_def)
  show kp: "k_pages s' = k_pages s" "v_pages s' = v_pages s" and "block_size s' = block_size s"
    and "immutable_pins s' = immutable_pins s" and "page_generations s' = page_generations s"
    using s'u(1) fl(2,3,4) pf by (simp_all add: same_pool_def)
  then show "same_cells s' s" by (simp add: same_cells_def)
  show "no_leak s'" if "no_leak s" using that uf(4) spu(3) same_pool_book(3) [OF sp0] by simp
qed

section \<open>The three outcomes of a release\<close>

lemma unpin_ok:
  assumes i: "kv_inv E s" and k: "map_of (immutable_pins s) k = Some h"
  defines "s' \<equiv> count_release (release_page_ref (handle_page h) (s\<lparr>immutable_pins := AList.delete k (immutable_pins s)\<rparr>))"
  shows "kv_inv E s'" and "tables s' = tables s" and "synced s' = synced s" and "k_pages s' = k_pages s" and "v_pages s' = v_pages s"
    and "block_size s' = block_size s" and "immutable_pins s' = AList.delete k (immutable_pins s)"
    and "page_generations s' = page_generations s" and "no_leak s \<Longrightarrow> no_leak s'"
proof -
  let ?d = "s\<lparr>immutable_pins := AList.delete k (immutable_pins s)\<rparr>"
  let ?p = "handle_page h"
  let ?u = "release_page_ref ?p ?d"
  have b: "book (tables s) E s" and st: "store_ok s" using i by (simp_all add: kv_inv_def)
  have p0: "0 \<le> ?p" using book_pin [OF b, of k h] k by (simp add: map_of_SomeD pin_ok_def)
  have bd: "book (tables s) (add_mset ?p E) ?d" by (rule book_pin_delete [OF b k])
  have pf: "pins_frame s ?d" by (simp add: pins_frame_def)
  note d = pins_frame_facts [OF pf]
  have cf: "counts_frame ?d ?u" by (rule release_counts_frame)
  note fl = counts_frame_fields [OF cf]
  note fs = frame_shape [OF fl(1)]
  have p: "page_ref_count ?d ?p > 0" using book_count [OF bd p0] by (simp add: holders_def)
  have live: "page_ref_count ?d q > 0" if "page_ref_count ?u q > 0" for q
    using that p by (auto simp: release_page_ref_count [OF p] split: if_splits)
  have T: "tables ?u = tables s" using frame_tables [OF cf] d(1) by simp
  have "store_ok ?d" using st by (simp add: d)
  then have "store_ok ?u" by (rule counts_frame_store(1) [OF cf _ live])
  moreover have "book (tables s) E ?u" by (rule release_page_ref_book [OF bd p0])
  moreover have "rows_ok ?u" "fresh_ok ?u" "cover_ok ?u" using i by (simp_all add: fs d kv_inv_def)
  ultimately have iu: "kv_inv E ?u" by (simp add: kv_inv_def T)
  obtain x where s': "s' = ?u\<lparr>observability := x\<rparr>" unfolding s'_def count_release_def by blast
  note ob = observability_irrelevant [where s = ?u and x = x]
  show "kv_inv E s'" "tables s' = tables s" unfolding s' ob by (rule iu, rule T)
  show "synced s' = synced s" unfolding s' ob fs d ..
  show "k_pages s' = k_pages s" "v_pages s' = v_pages s" "block_size s' = block_size s"
    "immutable_pins s' = AList.delete k (immutable_pins s)" "page_generations s' = page_generations s"
    unfolding s' using fl by (simp_all add: pool_frame_def)
  show "no_leak s'" if "no_leak s"
    unfolding s' ob by (rule release_no_leak [OF bd p0]) (simp add: d that)
qed

lemma released_tables_cong:
  assumes "tables s' = tables s" and "execution_owners s' = execution_owners s"
    and "next_transient_owner s' = next_transient_owner s" and "max_blocks_per_row s' = max_blocks_per_row s"
  shows "released_tables w s' = released_tables w s"
  using assms by (simp add: released_tables_def empty_table_def)

definition passed :: "(kv_error + unit) \<Rightarrow> kv_error + bool" where
  "passed r = (case r of Inl e \<Rightarrow> Inl e | Inr _ \<Rightarrow> Inr True)"

lemma andthen_checked: "andthen (checked s) (\<lambda>_ s. (Inr True, s)) = (passed (validate_owner_invariants s), s)"
  by (simp add: andthen_def checked_def passed_def split: sum.split)

definition same_contents :: "'c paged_kv \<Rightarrow> 'c paged_kv \<Rightarrow> bool" where
  "same_contents s s' = (k_pages s' = k_pages s \<and> v_pages s' = v_pages s \<and> block_size s' = block_size s
     \<and> page_generations s' = page_generations s)"

lemma release_owner_ok:
  assumes i: "kv_inv E s" and nx: "next_transient_owner s < u64_max" and f: "release_owner w s = (r, s')"
  obtains (absent) "r = Inr False" and "kv_inv E s'" and "tables s' = tables s" and "same_contents s s'"
      and "no_leak s' = no_leak s" and "immutable_pins s' = immutable_pins s" and "synced s'"
      and "(\<exists>k. w = Immutable k \<and> map_of (immutable_pins s) k = None) \<or> \<not> is_immutable w \<and> tables s w = None"
  | (owner) t where "r = passed (validate_owner_invariants s')" and "kv_inv E s'" and "\<not> is_immutable w" and "tables s w = Some t"
      and "tables s' = released_tables w s" and "same_contents s s'"
      and "no_leak s \<Longrightarrow> no_leak s'" and "immutable_pins s' = immutable_pins s" and "synced s'"
  | (pin) k h where "r = passed (validate_owner_invariants s')" and "kv_inv E s'" and "w = Immutable k"
      and "map_of (immutable_pins s) k = Some h" and "tables s' = tables s" and "same_contents s s'"
      and "no_leak s \<Longrightarrow> no_leak s'" and "immutable_pins s' = AList.delete k (immutable_pins s)" and "synced s'"
proof -
  obtain s1 where c: "commit_execution_rows s = (Inr (), s1)" "kv_inv E s1" "tables s1 = tables s" "synced s1" "same_pool s s1"
    "execution_owners s1 = execution_owners s" "next_transient_owner s1 = next_transient_owner s"
    using commit_inv [OF i] by metis
  have m: "map_of (owned_tables s1) = tables s" using c(3,4) by (simp add: synced_def)
  have l: "int (length (row_offsets s)) = batch s" using i by (simp add: kv_inv_def rows_ok_def)
  have g: "immutable_pins s1 = immutable_pins s" "max_blocks_per_row s1 = max_blocks_per_row s" using c(5) by (simp_all add: same_pool_def)
  have sc: "same_contents s s1" using c(5) by (simp add: same_pool_def same_contents_def)
  have nl: "no_leak s1 = no_leak s" by (rule same_pool_book [OF c(5)])
  have rt: "released_tables w s1 = released_tables w s" by (rule released_tables_cong) (simp_all add: c g)
  have gone: thesis if "r = Inr False" "s' = s1"
    "(\<exists>k. w = Immutable k \<and> map_of (immutable_pins s) k = None) \<or> \<not> is_immutable w \<and> tables s w = None"
    using absent that c sc nl g by simp
  show thesis
  proof (cases "is_immutable w")
    case True
    then obtain k where w: "w = Immutable k" by (auto simp: is_immutable_def split: block_owner.splits)
    show thesis
    proof (cases "map_of (immutable_pins s) k")
      case None
      then show thesis using f w l c(1) g by (intro gone) (simp_all add: release_owner_def)
    next
      case (Some h)
      let ?s' = "count_release (release_page_ref (handle_page h) (s1\<lparr>immutable_pins := AList.delete k (immutable_pins s1)\<rparr>))"
      have h1: "map_of (immutable_pins s1) k = Some h" using Some g by simp
      have e: "r = passed (validate_owner_invariants s')" "s' = ?s'"
        using f w l c(1) h1 by (auto simp: release_owner_def andthen_checked)
      note u = unpin_ok [OF c(2) h1, folded e(2)]
      show thesis using pin [OF e(1) u(1) w Some] u c(3,4) sc nl g unfolding same_contents_def by simp
    qed
  next
    case False
    show thesis
    proof (cases "tables s w")
      case None
      have "release_owner w s = (Inr False, s1)"
        using False l c(1) None unfolding m [symmetric] by (auto simp: release_owner_def is_immutable_def split: block_owner.splits)
      then show thesis using f None False by (intro gone) simp_all
    next
      case (Some t)
      have t1: "map_of (owned_tables s1) w = Some t" "tables s1 w = Some t" using Some m c(3) by simp_all
      let ?d = "drop_owner_table w t s1"
      have "release_owner w s = (passed (validate_owner_invariants (count_release ?d)), count_release ?d)"
        using False l c(1) t1 by (auto simp: release_owner_def is_immutable_def andthen_checked split: block_owner.splits)
      then have e: "r = passed (validate_owner_invariants s')" "s' = count_release ?d" using f by simp_all
      have nx1: "next_transient_owner s1 < u64_max" using nx c(7) by simp
      note u = drop_owner_table_ok [OF c(2) c(4) t1(2) nx1]
      obtain x where s': "s' = ?d\<lparr>observability := x\<rparr>" unfolding e(2) count_release_def by blast
      note ob = observability_irrelevant [where s = ?d and x = x, folded s']
      have T: "tables s' = released_tables w s" using ob(1) u(2) rt by simp
      have "same_contents s s'" using sc u unfolding same_contents_def s' by simp
      moreover have "immutable_pins s' = immutable_pins s" unfolding s' using u(8) g by simp
      ultimately show thesis using owner [OF e(1) _ False Some T] u ob nl by simp
    qed
  qed
qed

end
