(* ===== verification/PagedKvCells.thy ===== *)
theory PagedKvCells
  imports PagedKvRelease
begin

text \<open>
  The logical content of \<open>ironmlx/src/core/cache/paged_kv.rs\<close>: the tokens an owner reads through its
  block table, the pages that other owners and pins can see, and the steps of an append, none of which
  touches what somebody else can see or what the row already holds.
\<close>

section \<open>Tokens\<close>

definition cell_at :: "'c paged_kv \<Rightarrow> int \<Rightarrow> nat \<Rightarrow> 'c \<times> 'c" where
  "cell_at s p i = (cells (k_pages s) p ! i, cells (v_pages s) p ! i)"

definition token :: "'c paged_kv \<Rightarrow> int list \<Rightarrow> int \<Rightarrow> 'c \<times> 'c" where
  "token s bl i = cell_at s (bl ! nat (i div block_size s)) (nat (i mod block_size s))"

definition table_tokens :: "'c paged_kv \<Rightarrow> owned_table \<Rightarrow> ('c \<times> 'c) list" where
  "table_tokens s t = map (token s (blocks t)) [0..offset t - 1]"

definition covered :: "'c paged_kv \<Rightarrow> int list \<Rightarrow> int \<Rightarrow> bool" where
  "covered s bl n = (\<forall>j < length bl. int j * block_size s < n \<longrightarrow> 0 \<le> bl ! j)"

text \<open>A page that some other owner or a pin refers to.\<close>

definition foreign :: "block_owner \<Rightarrow> 'c paged_kv \<Rightarrow> int \<Rightarrow> bool" where
  "foreign w s p = (0 \<le> p \<and> ((\<exists>v t. v \<noteq> w \<and> tables s v = Some t \<and> p \<in> set (blocks t))
     \<or> (\<exists>k h. (k, h) \<in> set (immutable_pins s) \<and> handle_page h = p)))"

lemma foreign_live: "book (tables s) E s \<Longrightarrow> foreign w s p \<Longrightarrow> page_ref_count s p > 0"
  using table_live(1) [of "tables s" E s] pin_live(1) [of "tables s" E s] by (auto simp: foreign_def)

text \<open>A page with one reference, held by a block of this owner, is nobody else's.\<close>

lemma private_page:
  assumes b: "book (tables s) E s" and t: "tables s w = Some t" and j: "j < length (blocks t)" and p: "0 \<le> blocks t ! j"
    and c: "page_ref_count s (blocks t ! j) \<le> 1"
  shows "\<not> foreign w s (blocks t ! j)" and "i < length (blocks t) \<Longrightarrow> blocks t ! i = blocks t ! j \<Longrightarrow> i = j"
proof -
  let ?p = "blocks t ! j"
  have fin: "finite (dom (tables s))" by (rule book_finite [OF b])
  have h: "holders (tables s) E (immutable_pins s) ?p \<le> 1" using book_count [OF b p] c by simp
  have own: "0 < count_list (blocks t) ?p" using j by (metis count_list_0_iff neq0_conv nth_mem)
  have rm: "table_refs ((tables s)(w := None)) ?p + count_list (blocks t) ?p = table_refs (tables s) ?p"
    by (rule table_refs_remove [OF fin t])
  show "\<not> foreign w s ?p"
  proof
    assume "foreign w s ?p"
    then consider v u where "v \<noteq> w" "tables s v = Some u" "?p \<in> set (blocks u)"
      | k q where "(k, q) \<in> set (immutable_pins s)" "handle_page q = ?p" by (auto simp: foreign_def)
    then show False
    proof cases
      case 1
      have "0 < count_list (blocks u) ?p" using 1(3) by (metis count_list_0_iff neq0_conv)
      moreover have "count_list (blocks u) ?p \<le> table_refs ((tables s)(w := None)) ?p"
        by (rule table_refs_in [where w = v]) (use fin 1 in simp_all)
      ultimately show False using rm own h by (simp add: holders_def)
    next
      case 2
      then have "0 < pin_refs (immutable_pins s) ?p" by (auto simp: pin_refs_def filter_empty_conv)
      moreover have "0 < table_refs (tables s) ?p" using rm own by simp
      ultimately show False using h by (simp add: holders_def)
    qed
  qed
  show "i = j" if "i < length (blocks t)" "blocks t ! i = ?p" for i
  proof (rule ccontr)
    assume ne: "i \<noteq> j"
    let ?bl = "(blocks t)[j := ?p - 1]"
    have "count_list ?bl ?p + 1 = count_list (blocks t) ?p" using count_list_update [OF j, of "?p - 1" ?p] by simp
    moreover have "?p \<in> set ?bl" using that ne by (metis length_list_update nth_list_update_neq nth_mem)
    then have "0 < count_list ?bl ?p" by (metis count_list_0_iff neq0_conv)
    ultimately have "1 < table_refs (tables s) ?p" using rm by simp
    then show False using h by (simp add: holders_def)
  qed
qed

section \<open>Steps that keep what the row and the others hold\<close>

definition same_frame :: "'c paged_kv \<Rightarrow> 'c paged_kv \<Rightarrow> bool" where
  "same_frame s s' =
     (execution_owners s' = execution_owners s \<and> owned_tables s' = owned_tables s \<and> row_offsets s' = row_offsets s
      \<and> batch s' = batch s \<and> immutable_pins s' = immutable_pins s \<and> next_transient_owner s' = next_transient_owner s
      \<and> max_pages s' = max_pages s \<and> max_blocks_per_row s' = max_blocks_per_row s \<and> layout s' = layout s
      \<and> cap s' = cap s \<and> block_size s' = block_size s)"

definition row_step :: "nat \<Rightarrow> int \<Rightarrow> 'c paged_kv \<Rightarrow> 'c paged_kv \<Rightarrow> bool" where
  "row_step r n s s' =
     (same_frame s s'
      \<and> (\<exists>bl. block_tables s' = (block_tables s)[r := bl])
      \<and> (\<forall>p. foreign (execution_owners s ! r) s p \<longrightarrow> cell_at s' p = cell_at s p)
      \<and> (\<forall>i. 0 \<le> i \<and> i < n \<longrightarrow> token s' (block_tables s' ! r) i = token s (block_tables s ! r) i)
      \<and> length (block_tables s' ! r) = length (block_tables s ! r)
      \<and> (\<forall>j < length (block_tables s ! r). 0 \<le> block_tables s ! r ! j \<longrightarrow> 0 \<le> block_tables s' ! r ! j))"

lemma same_frame_trans: "same_frame s t \<Longrightarrow> same_frame t u \<Longrightarrow> same_frame s u"
  by (simp add: same_frame_def)

lemma pool_same_frame: "pool_frame s s' \<Longrightarrow> same_frame s s'"
  by (simp add: same_frame_def pool_frame_def)

lemma foreign_row:
  assumes "rows_ok s" and "rows_ok s'" and f: "same_frame s s'" and b: "block_tables s' = (block_tables s)[r := bl]"
    and r: "r < length (execution_owners s)"
  shows "v \<noteq> execution_owners s ! r \<Longrightarrow> tables s' v = tables s v"
    and "foreign (execution_owners s ! r) s' p = foreign (execution_owners s ! r) s p"
proof -
  have o: "execution_owners s' = execution_owners s" "immutable_pins s' = immutable_pins s" "owned_tables s' = owned_tables s"
    "row_offsets s' = row_offsets s" using f by (simp_all add: same_frame_def)
  show *: "v \<noteq> execution_owners s ! r \<Longrightarrow> tables s' v = tables s v" for v
  proof (cases "v \<in> set (execution_owners s)")
    case True
    assume ne: "v \<noteq> execution_owners s ! r"
    from True obtain j where j: "j < length (execution_owners s)" "execution_owners s ! j = v" by (rule row_of)
    then have "j \<noteq> r" using ne by auto
    then show ?thesis using tables_row [OF assms(1) j(1)] tables_row [OF assms(2), of j] j o b by simp
  next
    case False
    then show ?thesis using tables_unbound [of v s] tables_unbound [of v s'] o by simp
  qed
  show "foreign (execution_owners s ! r) s' p = foreign (execution_owners s ! r) s p"
    unfolding foreign_def o(2) using * by metis
qed

lemma row_step_trans:
  assumes "row_step r n s t" and "row_step r n t u" and "rows_ok s" and "rows_ok t" and "r < length (execution_owners s)"
  shows "row_step r n s u"
proof -
  have f: "same_frame s t" "same_frame t u" using assms by (simp_all add: row_step_def)
  obtain bl bl' where bl: "block_tables t = (block_tables s)[r := bl]" "block_tables u = (block_tables t)[r := bl']"
    using assms by (auto simp: row_step_def)
  have o: "execution_owners t = execution_owners s" using f by (simp add: same_frame_def)
  note fr = foreign_row(2) [OF assms(3,4) f(1) bl(1) assms(5)]
  have "block_tables u = (block_tables s)[r := bl']" using bl by simp
  then show ?thesis using assms(1,2) same_frame_trans [OF f] unfolding row_step_def o fr by metis
qed

lemma row_step_mono: "row_step r n s s' \<Longrightarrow> m \<le> n \<Longrightarrow> row_step r m s s'"
  unfolding row_step_def by force

lemma row_step_covered:
  "row_step r n s s' \<Longrightarrow> covered s (block_tables s ! r) m \<Longrightarrow> covered s' (block_tables s' ! r) m"
  unfolding row_step_def covered_def same_frame_def by simp

lemma covered_nth:
  assumes "rows_ok s" and "0 < block_size s" and "r < length (execution_owners s)" and "covered s (block_tables s ! r) n"
    and "0 \<le> i" and "i < n" and "n \<le> cap s"
  shows "nat (i div block_size s) < length (block_tables s ! r)" and "0 \<le> block_tables s ! r ! nat (i div block_size s)"
proof -
  have "i < max_blocks_per_row s * block_size s" using assms by (auto simp: rows_ok_def)
  then have "i div block_size s < max_blocks_per_row s" using int_div_less [OF assms(2)] by simp
  moreover have len: "length (block_tables s ! r) = nat (max_blocks_per_row s)" using assms(1,3) by (auto simp: rows_ok_def)
  moreover have d0: "0 \<le> i div block_size s" using assms(2,5) by (simp add: pos_imp_zdiv_nonneg_iff)
  ultimately show a: "nat (i div block_size s) < length (block_tables s ! r)" by simp
  have "i div block_size s * block_size s = i - i mod block_size s" by (rule minus_mod_eq_div_mult [symmetric])
  moreover have "0 \<le> i mod block_size s" using assms(2) by simp
  ultimately have "i div block_size s * block_size s \<le> i" by linarith
  then show "0 \<le> block_tables s ! r ! nat (i div block_size s)" using assms(4,6) a d0 by (simp add: covered_def)
qed

end
