(* ===== verification/PagedKvAppend.thy ===== *)
theory PagedKvAppend
  imports PagedKvCells
begin

text \<open>
  Appending in \<open>ironmlx/src/core/cache/paged_kv.rs\<close>: every step of \<open>append_on\<close>, also a failing one, keeps
  the invariant, the tokens the row already has and everything other owners and pins can see
  (copy-on-write); when it succeeds the row reads the new tokens after the old ones.
\<close>

section \<open>Steps as triples\<close>

text \<open>
  \<open>step_ok dev r n E s m Q\<close>: the outcome \<open>m\<close> of an operation started in \<open>s\<close> keeps the first \<open>n\<close> tokens of row \<open>r\<close>
  and what others see, keeps the invariant (with the references \<open>E\<close> in flight unless a tensor operation
  failed), loses no page on a working device, and satisfies \<open>Q\<close> if it succeeds.
\<close>

definition rowed :: "nat \<Rightarrow> int \<Rightarrow> int multiset \<Rightarrow> 'c paged_kv \<Rightarrow> bool" where
  "rowed r n E s = (kv_inv E s \<and> r < length (execution_owners s) \<and> covered s (block_tables s ! r) n \<and> 0 \<le> n \<and> n \<le> cap s)"

definition step_ok ::
  "'c kv_device \<Rightarrow> nat \<Rightarrow> int \<Rightarrow> int multiset \<Rightarrow> 'c paged_kv \<Rightarrow> ('c, 'a) kv_result \<Rightarrow> ('a \<Rightarrow> 'c paged_kv \<Rightarrow> bool) \<Rightarrow> bool" where
  "step_ok dev r n E s m Q =
     (row_step r n s (snd m)
      \<and> (\<exists>E'. kv_inv E' (snd m) \<and> (works dev \<or> fst m \<notin> range Inl \<longrightarrow> E' = E))
      \<and> (works dev \<longrightarrow> no_leak s \<longrightarrow> no_leak (snd m))
      \<and> (\<forall>x. fst m = Inr x \<longrightarrow> Q x (snd m)))"

lemma row_step_refl [simp]: "row_step r n s s"
proof -
  have "block_tables s = (block_tables s)[r := block_tables s ! r]" by simp
  then show ?thesis unfolding row_step_def same_frame_def by blast
qed

lemma rowed_parts:
  assumes "rowed r n E s"
  shows "kv_inv E s" and "rows_ok s" and "r < length (execution_owners s)" and "covered s (block_tables s ! r) n"
    and "0 \<le> n" and "n \<le> cap s" and "0 < block_size s" and "book (tables s) E s" and "store_ok s"
    and "tables s (execution_owners s ! r) = Some \<lparr>blocks = block_tables s ! r, offset = row_offsets s ! r\<rparr>"
    and "length (block_tables s ! r) = nat (max_blocks_per_row s)"
proof -
  show k: "kv_inv E s" and r: "r < length (execution_owners s)" and "covered s (block_tables s ! r) n" and "0 \<le> n" "n \<le> cap s"
    using assms by (simp_all add: rowed_def)
  show ro: "rows_ok s" and "book (tables s) E s" and st: "store_ok s" using k by (simp_all add: kv_inv_def)
  show "0 < block_size s" using st by (simp add: store_ok_def)
  show "tables s (execution_owners s ! r) = Some \<lparr>blocks = block_tables s ! r, offset = row_offsets s ! r\<rparr>"
    by (rule tables_row [OF ro r])
  have "block_tables s ! r \<in> set (block_tables s)" using ro r by (simp add: rows_ok_def)
  then show "length (block_tables s ! r) = nat (max_blocks_per_row s)" using ro unfolding rows_ok_def by blast
qed

lemma row_step_rowed:
  assumes w: "rowed r n E s" and st: "row_step r n s s'" and k: "kv_inv E' s'"
  shows "rowed r n E' s'"
  using assms row_step_covered [OF st] unfolding rowed_def row_step_def same_frame_def by simp

lemma step_ok_bind:
  assumes m: "step_ok dev r n E s m Q" and w: "rowed r n E s"
    and f: "\<And>x s1. m = (Inr x, s1) \<Longrightarrow> rowed r n E s1 \<Longrightarrow> row_step r n s s1 \<Longrightarrow> Q x s1 \<Longrightarrow> step_ok dev r n E s1 (f x s1) R"
  shows "step_ok dev r n E s (andthen m f) R"
proof (cases m)
  case (Pair res s1)
  show ?thesis
  proof (cases res)
    case (Inl e)
    then show ?thesis using m Pair by (auto simp: step_ok_def)
  next
    case (Inr x)
    have st: "row_step r n s s1" and k: "kv_inv E s1" and q: "Q x s1" and nl: "works dev \<Longrightarrow> no_leak s \<Longrightarrow> no_leak s1"
      using m Pair Inr by (auto simp: step_ok_def)
    have w1: "rowed r n E s1" by (rule row_step_rowed [OF w st k])
    have f1: "step_ok dev r n E s1 (f x s1) R" by (rule f) (use Pair Inr w1 st q in simp_all)
    have "row_step r n s (snd (f x s1))"
      by (rule row_step_trans [OF st _ rowed_parts(2) [OF w] rowed_parts(2) [OF w1] rowed_parts(3) [OF w]])
        (use f1 in \<open>simp add: step_ok_def\<close>)
    then show ?thesis using f1 nl Pair Inr by (auto simp: step_ok_def)
  qed
qed

lemma step_ok_result:
  "step_ok dev r n E s (Inr x, s') Q \<longleftrightarrow>
     row_step r n s s' \<and> kv_inv E s' \<and> (works dev \<longrightarrow> no_leak s \<longrightarrow> no_leak s') \<and> Q x s'"
  by (auto simp: step_ok_def)

lemma step_okI:
  assumes "row_step r n s s'" and "kv_inv E s'" and "works dev \<Longrightarrow> no_leak s \<Longrightarrow> no_leak s'" and "\<And>x. res = Inr x \<Longrightarrow> Q x s'"
  shows "step_ok dev r n E s (res, s') Q"
  unfolding step_ok_def using assms by (intro conjI exI [of _ E]) auto

lemma step_ok_error:
  "rowed r n E s \<Longrightarrow> step_ok dev r n E s (Inl e, s) Q"
  by (auto simp: step_ok_def rowed_def)

lemma step_ok_weaken:
  "step_ok dev r n E s m Q \<Longrightarrow> (\<And>x s'. m = (Inr x, s') \<Longrightarrow> row_step r n s s' \<Longrightarrow> Q x s' \<Longrightarrow> R x s') \<Longrightarrow>
     step_ok dev r n E s m R"
  by (cases m) (auto simp: step_ok_def)

lemma step_ok_mono: "step_ok dev r n E s m Q \<Longrightarrow> n' \<le> n \<Longrightarrow> step_ok dev r n' E s m Q"
  unfolding step_ok_def using row_step_mono by blast

section \<open>Steps of the pool\<close>

lemma own_live:
  assumes w: "rowed r n E s" and i: "0 \<le> i" "i < n"
  shows "page_ref_count s (block_tables s ! r ! nat (i div block_size s)) > 0"
    and "nat (i div block_size s) < length (block_tables s ! r)" and "0 \<le> block_tables s ! r ! nat (i div block_size s)"
proof -
  note p = rowed_parts [OF w]
  show a: "nat (i div block_size s) < length (block_tables s ! r)" "0 \<le> block_tables s ! r ! nat (i div block_size s)"
    by (rule covered_nth [OF p(2,7,3,4) i p(6)])+
  show "page_ref_count s (block_tables s ! r ! nat (i div block_size s)) > 0"
    by (rule table_live(1) [OF p(8,10)]) (use a in simp_all)
qed

lemma same_cells_at: "same_cells s s' \<Longrightarrow> page_ref_count s p > 0 \<Longrightarrow> cell_at s' p = cell_at s p"
  by (intro ext) (simp add: same_cells_def cell_at_def)

lemma pool_row_step:
  assumes w: "rowed r n E s" and f: "pool_frame s s'" and c: "same_cells s s'"
  shows "row_step r n s s'"
proof -
  note p = rowed_parts [OF w]
  have b: "block_tables s' = block_tables s" "block_size s' = block_size s" using f by (simp_all add: pool_frame_def)
  have "block_tables s' = (block_tables s)[r := block_tables s ! r]" using b by simp
  moreover have "cell_at s' q = cell_at s q" if "foreign (execution_owners s ! r) s q" for q
    by (rule same_cells_at [OF c foreign_live [OF p(8) that]])
  moreover have "token s' (block_tables s ! r) i = token s (block_tables s ! r) i" if "0 \<le> i \<and> i < n" for i
    using same_cells_at [OF c own_live(1) [OF w]] that by (simp add: token_def b)
  ultimately show ?thesis using pool_same_frame [OF f] unfolding row_step_def b by blast
qed

lemma pool_kv_inv:
  assumes "kv_inv E s" and f: "pool_frame s s'" and "book (tables s) E' s'" and "store_ok s'"
  shows "kv_inv E' s'"
  using assms pool_frame_tables [OF f] by (simp add: kv_inv_def frame_shape [OF f])

lemma no_leak_cong:
  assumes "page_ref_counts s' = page_ref_counts s" and "page_generations s' = page_generations s"
    and "allocated_pages s' = allocated_pages s" and "free_pages s' = free_pages s"
  shows "no_leak s' = no_leak s"
  using page_ref_count_cong [OF assms(1)] assms by (simp add: no_leak_def)

lemma tensor_op_step:
  assumes w: "rowed r n E s"
  shows "step_ok dev r n E s (tensor_op dev s) (\<lambda>_ s'. \<exists>m. s' = s\<lparr>ticks := m\<rparr>)"
proof -
  let ?s = "s\<lparr>ticks := ticks s + 1\<rparr>"
  have f: "pool_frame s ?s" "same_cells s ?s" by simp_all
  have b: "book (tables s) E ?s" by (rule book_transfer [OF rowed_parts(8) [OF w]]) (simp_all add: f)
  have k: "kv_inv E ?s" by (rule pool_kv_inv [OF rowed_parts(1) [OF w] f(1) b]) (simp add: rowed_parts(9) [OF w])
  have nl: "no_leak ?s = no_leak s" by (rule no_leak_cong) simp_all
  show ?thesis unfolding tensor_op_def by (rule step_okI [OF pool_row_step [OF w f] k]) (use nl in blast)+
qed

lemma two_ops_step:
  assumes w: "rowed r n E s"
  shows "step_ok dev r n E s (two_ops dev s) (\<lambda>_ s'. \<exists>m. s' = s\<lparr>ticks := m\<rparr>)"
  unfolding two_ops_def
proof (rule step_ok_bind [OF tensor_op_step [OF w] w])
  fix x s1
  assume a: "rowed r n E s1" "\<exists>m. s1 = s\<lparr>ticks := m\<rparr>"
  show "step_ok dev r n E s1 (tensor_op dev s1) (\<lambda>_ s'. \<exists>m. s' = s\<lparr>ticks := m\<rparr>)"
    by (rule step_ok_weaken [OF tensor_op_step [OF a(1)]]) (use a(2) in auto)
qed

lemma ensure_step:
  assumes w: "rowed r n E s" and p: "0 \<le> p" "p < allocated_pages s"
  shows "step_ok dev r n E s (ensure_page_capacity dev (p + 1) s) (\<lambda>_ s'. pool_frame s s' \<and> same_cells s s'
    \<and> page_ref_count s' = page_ref_count s \<and> p < page_capacity s')"
proof -
  obtain res s' where e: "ensure_page_capacity dev (p + 1) s = (res, s')" by fastforce
  note q = rowed_parts [OF w]
  have live: "\<And>p. page_ref_count s p > 0 \<Longrightarrow> p < allocated_pages s" using book_live [OF q(8)] by blast
  have al: "0 \<le> allocated_pages s" and pp: "0 < p + 1" using p by simp_all
  note f = ensure_page_capacity_facts [OF e q(9) live al pp]
  have b: "book (tables s) E s'" by (rule book_transfer [OF q(8)]) (use f in simp_all)
  have "kv_inv E s'" by (rule pool_kv_inv [OF q(1) _ b]) (use f in simp_all)
  moreover have "no_leak s \<longrightarrow> no_leak s'" using f by (simp add: no_leak_def)
  ultimately show ?thesis using pool_row_step [OF w] f e by (auto simp: step_ok_def fun_eq_iff)
qed

section \<open>Changing a block of the row\<close>

lemma nth_update_nonneg: "0 \<le> (q :: int) \<Longrightarrow> j < length xs \<Longrightarrow> 0 \<le> xs ! j \<Longrightarrow> 0 \<le> xs[c := q] ! j"
  by (cases "j = c") simp_all

lemma set_block_write_row:
  assumes "rows_ok s"
  shows "set_block r c q s = write_row r ((block_tables s ! r)[c := q]) (row_offsets s ! r) s"
  by (simp add: set_block_def write_row_def)

lemma set_block_inv:
  assumes ok: "rows_ok s" "fresh_ok s" "store_ok s" "cover_ok s" and r: "r < length (execution_owners s)"
    and q: "0 \<le> q"
    and b: "book ((tables s)(execution_owners s ! r \<mapsto> \<lparr>blocks = (block_tables s ! r)[c := q], offset = row_offsets s ! r\<rparr>)) E s"
  shows "kv_inv E (set_block r c q s)"
proof -
  let ?s = "set_block r c q s"
  let ?bl = "(block_tables s ! r)[c := q]"
  let ?w = "execution_owners s ! r"
  have "block_tables s ! r \<in> set (block_tables s)" using ok(1) r by (simp add: rows_ok_def)
  then have len: "length ?bl = nat (max_blocks_per_row s)" using ok(1) by (simp add: rows_ok_def)
  note e = set_block_write_row [OF ok(1), of r c q]
  have r': "rows_ok ?s" unfolding e by (rule write_row_rows_ok [OF ok(1) len])
  have T: "tables ?s = (tables s)(?w \<mapsto> \<lparr>blocks = ?bl, offset = row_offsets s ! r\<rparr>)"
    unfolding e by (rule write_row_tables [OF ok(1) len r])
  have sp: "same_pool s ?s" by (simp add: set_block_def same_pool_def)
  note spb = same_pool_book [OF sp]
  have tk: "table_ok s \<lparr>blocks = block_tables s ! r, offset = row_offsets s ! r\<rparr>"
    using ok(4) tables_row [OF ok(1) r] by (simp add: cover_ok_def)
  have "table_ok s \<lparr>blocks = ?bl, offset = row_offsets s ! r\<rparr>"
    using tk q by (auto simp: table_ok_def intro!: nth_update_nonneg)
  then have "cover_ok ?s" using ok(4) unfolding cover_ok_def T spb(5) by simp
  moreover have "fresh_ok ?s" using ok(2) by (simp add: fresh_ok_def set_block_def)
  ultimately show ?thesis using r' ok(3) b unfolding kv_inv_def T spb by simp
qed

lemma set_block_row_step:
  assumes w: "rowed r n E s" and c: "c < length (block_tables s ! r)" and q: "0 \<le> q"
    and f: "pool_frame s u" and cells: "same_cells s u"
    and keep: "\<And>i. 0 \<le> i \<Longrightarrow> i < n \<Longrightarrow> nat (i div block_size s) = c \<Longrightarrow>
      cell_at u q (nat (i mod block_size s)) = cell_at s (block_tables s ! r ! c) (nat (i mod block_size s))"
  shows "row_step r n s (set_block r c q u)"
proof -
  let ?s = "set_block r c q u"
  note p = rowed_parts [OF w]
  have fu: "block_tables u = block_tables s" "block_size u = block_size s" using f by (simp_all add: pool_frame_def)
  have r: "r < length (block_tables s)" using p(2,3) by (simp add: rows_ok_def)
  have bt: "block_tables ?s = (block_tables s)[r := (block_tables s ! r)[c := q]]" using fu by (simp add: set_block_def)
  have bs: "block_size ?s = block_size s" using fu by (simp add: set_block_def)
  have ca: "cell_at ?s = cell_at u" by (intro ext) (simp add: cell_at_def set_block_def)
  have rowbl: "block_tables ?s ! r = (block_tables s ! r)[c := q]" using r bt by simp
  have "same_frame s ?s" using f by (simp add: same_frame_def pool_frame_def set_block_def)
  moreover have "cell_at ?s x = cell_at s x" if "foreign (execution_owners s ! r) s x" for x
    unfolding ca by (rule same_cells_at [OF cells foreign_live [OF p(8) that]])
  moreover have "token ?s (block_tables ?s ! r) i = token s (block_tables s ! r) i" if "0 \<le> i \<and> i < n" for i
  proof (cases "nat (i div block_size s) = c")
    case True
    then show ?thesis using keep [of i] that c unfolding rowbl by (simp add: token_def bs ca)
  next
    case False
    then show ?thesis using same_cells_at [OF cells own_live(1) [OF w, of i]] that unfolding rowbl
      by (simp add: token_def bs ca)
  qed
  moreover have "length (block_tables ?s ! r) = length (block_tables s ! r)" by (simp add: rowbl)
  moreover have "0 \<le> block_tables ?s ! r ! j" if "j < length (block_tables s ! r)" "0 \<le> block_tables s ! r ! j" for j
    using that q unfolding rowbl by (intro nth_update_nonneg)
  ultimately show ?thesis using bt unfolding row_step_def by blast
qed

section \<open>Writing cells\<close>

definition overwrite :: "nat \<Rightarrow> 'a list \<Rightarrow> 'a list \<Rightarrow> 'a list" where
  "overwrite i part xs = take i xs @ part @ drop (i + length part) xs"

lemma overwrite_simps [simp]:
  "i + length part \<le> length xs \<Longrightarrow> length (overwrite i part xs) = length xs"
  "i \<le> length xs \<Longrightarrow> j < i \<Longrightarrow> overwrite i part xs ! j = xs ! j"
  "i \<le> length xs \<Longrightarrow> j < length part \<Longrightarrow> overwrite i part xs ! (i + j) = part ! j"
  by (simp_all add: overwrite_def nth_append)

lemma store_cells_facts:
  assumes d: "store_dims s ps" and p: "0 \<le> p" "p < page_capacity s" and i: "0 \<le> i" "nat i + length part \<le> nat (block_size s)"
  shows "store_dims s (store_cells p i part ps)" and "cells (store_cells p i part ps) p = overwrite (nat i) part (cells ps p)"
    and "0 \<le> q \<Longrightarrow> q \<noteq> p \<Longrightarrow> cells (store_cells p i part ps) q = cells ps q" and "length (cells ps p) = nat (block_size s)"
proof -
  obtain xs where ps: "ps = Some xs" using d p by (cases ps) (simp_all add: store_dims_def)
  have x: "int (length xs) = page_capacity s" "\<forall>pg \<in> set xs. length pg = nat (block_size s)"
    using d by (simp_all add: store_dims_def ps)
  have pl: "nat p < length xs" using p x(1) by linarith
  have c: "length (xs ! nat p) = nat (block_size s)" using x(2) pl by simp
  then show "length (cells ps p) = nat (block_size s)" by (simp add: ps cells_def)
  have l: "length (overwrite (nat i) part (xs ! nat p)) = nat (block_size s)" using c i by simp
  have ln: "length pg = nat (block_size s)" if "pg \<in> set (xs[nat p := overwrite (nat i) part (xs ! nat p)])" for pg
  proof -
    from that have "pg \<in> insert (overwrite (nat i) part (xs ! nat p)) (set xs)" by (rule subsetD [OF set_update_subset_insert])
    then show ?thesis
    proof
      assume "pg = overwrite (nat i) part (xs ! nat p)"
      then show ?thesis by (simp only: l)
    next
      assume "pg \<in> set xs"
      then show ?thesis by (rule bspec [OF x(2)])
    qed
  qed
  have "store_cells p i part ps = Some (xs[nat p := overwrite (nat i) part (xs ! nat p)])" by (simp add: ps store_cells_def overwrite_def)
  then show "store_dims s (store_cells p i part ps)"
    unfolding store_dims_def by (simp only: option.case length_list_update x(1) simp_thms) (intro ballI ln)
  show "cells (store_cells p i part ps) p = overwrite (nat i) part (cells ps p)"
    using pl by (simp add: ps store_cells_def cells_def overwrite_def)
  show "cells (store_cells p i part ps) q = cells ps q" if "0 \<le> q" "q \<noteq> p"
    using that p by (simp add: ps store_cells_def cells_def nth_list_update eq_nat_nat_iff)
qed

lemma write_page_facts:
  assumes e: "write_page dev p i kc vc s = (res, s')" and st: "store_ok s" and p: "0 \<le> p" "p < page_capacity s"
    and i: "0 \<le> i" "nat i + length kc \<le> nat (block_size s)" "nat i + length vc \<le> nat (block_size s)"
  shows "pool_frame s s' \<and> store_ok s' \<and> allocated_pages s' = allocated_pages s \<and> free_pages s' = free_pages s
      \<and> page_ref_counts s' = page_ref_counts s \<and> page_generations s' = page_generations s \<and> observability s' = observability s"
    and "0 \<le> q \<Longrightarrow> q \<noteq> p \<Longrightarrow> cell_at s' q = cell_at s q \<and> cells (k_pages s') q = cells (k_pages s) q \<and> cells (v_pages s') q = cells (v_pages s) q"
    and "j < nat i \<Longrightarrow> cell_at s' p j = cell_at s p j"
    and "res = Inr () \<Longrightarrow> j < length kc \<Longrightarrow> length vc = length kc \<Longrightarrow> cell_at s' p (nat i + j) = (kc ! j, vc ! j)"
    and "works dev \<Longrightarrow> res = Inr ()"
proof -
  have dk: "store_dims s (k_pages s)" and dv: "store_dims s (v_pages s)" using st by (simp_all add: store_ok_def)
  note k = store_cells_facts [OF dk p i(1,2)] and v = store_cells_facts [OF dv p i(1,3)]
  consider (none) "s' = s\<lparr>ticks := ticks s + 1\<rparr>" "res = Inl DeviceError" "\<not> works dev"
    | (half) "s' = s\<lparr>ticks := ticks s + 2, k_pages := store_cells p i kc (k_pages s)\<rparr>" "res = Inl DeviceError" "\<not> works dev"
    | (full) "s' = s\<lparr>ticks := ticks s + 2, k_pages := store_cells p i kc (k_pages s), v_pages := store_cells p i vc (v_pages s)\<rparr>"
        "res = Inr ()"
  proof -
    have nw: "\<not> works dev" if "\<not> dev_ok dev n" for n using that by (auto simp: works_def)
    show thesis
    proof (cases "dev_ok dev (ticks s)")
      case False
      then show thesis using e nw by (intro none) (auto simp: write_page_def tensor_op_def)
    next
      case t: True
      show thesis
      proof (cases "dev_ok dev (ticks s + 1)")
        case False
        then show thesis using e nw t by (intro half) (auto simp: write_page_def tensor_op_def)
      next
        case True
        then show thesis using e t by (intro full) (auto simp: write_page_def tensor_op_def)
      qed
    qed
  qed
  note cs = this
  have st': "store_ok s' \<and> page_ref_counts s' = page_ref_counts s"
  proof -
    obtain ks vs m where s': "s' = s\<lparr>ticks := m, k_pages := ks, v_pages := vs\<rparr>" and "store_dims s ks" "store_dims s vs"
    proof (cases rule: cs)
      case none
      then show thesis using dk dv by (intro that [where ks = "k_pages s" and vs = "v_pages s" and m = "ticks s + 1"]) simp_all
    next
      case half
      then show thesis using k(1) dv by (intro that [where ks = "store_cells p i kc (k_pages s)" and vs = "v_pages s" and m = "ticks s + 2"]) simp_all
    next
      case full
      then show thesis using k(1) v(1) by (intro that [where ks = "store_cells p i kc (k_pages s)" and vs = "store_cells p i vc (v_pages s)" and m = "ticks s + 2"]) simp_all
    qed
    moreover have "page_ref_count s' = page_ref_count s" by (intro ext page_ref_count_cong) (simp add: s')
    moreover have "store_dims s' x = store_dims s x" for x by (simp add: s' store_dims_def split: option.split)
    ultimately show ?thesis using st by (simp add: store_ok_def)
  qed
  then show "pool_frame s s' \<and> store_ok s' \<and> allocated_pages s' = allocated_pages s \<and> free_pages s' = free_pages s
      \<and> page_ref_counts s' = page_ref_counts s \<and> page_generations s' = page_generations s \<and> observability s' = observability s"
    by (cases rule: cs) (simp_all add: pool_frame_def)
  show "cell_at s' q = cell_at s q \<and> cells (k_pages s') q = cells (k_pages s) q \<and> cells (v_pages s') q = cells (v_pages s) q"
    if "0 \<le> q" "q \<noteq> p"
    using k(3) [OF that] v(3) [OF that] by (cases rule: cs) (simp_all add: cell_at_def fun_eq_iff)
  show "cell_at s' p j = cell_at s p j" if "j < nat i"
    using k(2,4) v(2,4) i that by (cases rule: cs) (simp_all add: cell_at_def)
  show "cell_at s' p (nat i + j) = (kc ! j, vc ! j)" if "res = Inr ()" "j < length kc" "length vc = length kc"
    using k(2,4) v(2,4) i that by (cases rule: cs) (simp_all add: cell_at_def)
  show "res = Inr ()" if "works dev" using that by (cases rule: cs) simp_all
qed

end
