(* ===== verification/PagedKvClone.thy ===== *)
theory PagedKvClone
  imports PagedKvAppend
begin

text \<open>
  Copy-on-write in \<open>ironmlx/src/core/cache/paged_kv.rs\<close>: \<open>clone_page_for_write_on\<close> fills a fresh page with the
  cells of a shared one, and the block of the appending row is moved to it.
\<close>

section \<open>Reading a page\<close>

lemma two_ops_cases:
  obtains (ok) m where "two_ops dev s = (Inr (), s\<lparr>ticks := m\<rparr>)" | (failed) m where "two_ops dev s = (Inl DeviceError, s\<lparr>ticks := m\<rparr>)" and "\<not> works dev"
proof (cases "dev_ok dev (ticks s) \<and> dev_ok dev (ticks s + 1)")
  case True
  then have "two_ops dev s = (Inr (), s\<lparr>ticks := ticks s + 2\<rparr>)" by (simp add: two_ops_def tensor_op_def)
  then show thesis by (rule ok)
next
  case False
  then have w: "\<not> works dev" by (auto simp: works_def)
  show thesis
  proof (cases "dev_ok dev (ticks s)")
    case True
    then have "two_ops dev s = (Inl DeviceError, s\<lparr>ticks := ticks s + 2\<rparr>)" using False by (simp add: two_ops_def tensor_op_def)
    then show thesis using w by (rule failed)
  next
    case False
    then have "two_ops dev s = (Inl DeviceError, s\<lparr>ticks := ticks s + 1\<rparr>)" by (simp add: two_ops_def tensor_op_def)
    then show thesis using w by (rule failed)
  qed
qed

lemma page_slice_facts:
  assumes e: "page_slice dev p n s = (res, s')"
  obtains m where "s' = s\<lparr>ticks := m\<rparr>"
    and "\<And>kc vc. res = Inr (kc, vc) \<Longrightarrow> 0 < n \<Longrightarrow>
      n \<le> block_size s \<and> kc = take (nat n) (cells (k_pages s) p) \<and> vc = take (nat n) (cells (v_pages s) p)"
    and "\<And>kc vc. res = Inr (kc, vc) \<Longrightarrow> n = 0 \<Longrightarrow> kc = [] \<and> vc = []"
    and "works dev \<Longrightarrow> 0 \<le> n \<Longrightarrow> n \<le> block_size s \<Longrightarrow> 0 \<le> p \<Longrightarrow> p < page_capacity s \<Longrightarrow> store_ok s \<Longrightarrow> \<exists>x. res = Inr x"
proof -
  have same: "s = s\<lparr>ticks := ticks s\<rparr>" by simp
  consider (range) "\<not> (n \<ge> 0 \<and> n \<le> block_size s)" | (zero) "n = 0" "n \<le> block_size s"
    | (missing) "0 < n" "n \<le> block_size s" "p < 0 \<or> p \<ge> page_capacity s"
    | (empty) "0 < n" "n \<le> block_size s" "0 \<le> p" "p < page_capacity s" "k_pages s = None \<or> v_pages s = None"
    | (read) ks vs where "0 < n" "n \<le> block_size s" "0 \<le> p" "p < page_capacity s" "k_pages s = Some ks" "v_pages s = Some vs"
    by fastforce
  then show thesis
  proof cases
    case range
    then have "s' = s" "res = Inl BadArgument" using e by (simp_all add: page_slice_def)
    then show thesis using range by (intro that [of "ticks s"]) simp_all
  next
    case zero
    show thesis
    proof (cases rule: two_ops_cases [of dev s])
      case (ok m)
      then have "s' = s\<lparr>ticks := m\<rparr>" "res = Inr ([], [])" using zero e by (simp_all add: page_slice_def)
      then show thesis using zero by (intro that [of m]) simp_all
    next
      case (failed m)
      then have "s' = s\<lparr>ticks := m\<rparr>" "res = Inl DeviceError" using zero e by (simp_all add: page_slice_def)
      then show thesis using failed by (intro that [of m]) simp_all
    qed
  next
    case missing
    then have "s' = s" "res = Inl MissingPage" using e by (auto simp: page_slice_def)
    then show thesis using missing by (intro that [of "ticks s"]) auto
  next
    case empty
    then have r: "s' = s" "res = Inl MissingPage" using e by (auto simp: page_slice_def split: option.splits)
    have "\<not> store_ok s" using empty by (auto simp: store_ok_def store_dims_def split: option.splits)
    then show thesis using r by (intro that [of "ticks s"]) simp_all
  next
    case (read ks vs)
    show thesis
    proof (cases rule: two_ops_cases [of dev s])
      case (ok m)
      then have "s' = s\<lparr>ticks := m\<rparr>" "res = Inr (take (nat n) (ks ! nat p), take (nat n) (vs ! nat p))"
        using read e by (simp_all add: page_slice_def)
      then show thesis using read by (intro that [of m]) (simp_all add: cells_def)
    next
      case (failed m)
      then have "s' = s\<lparr>ticks := m\<rparr>" "res = Inl DeviceError" using read e by (simp_all add: page_slice_def)
      then show thesis using failed by (intro that [of m]) simp_all
    qed
  qed
qed

section \<open>Cloning\<close>

lemma same_cells_live_trans:
  assumes "same_cells s t" and "\<And>p. page_ref_count s p > 0 \<Longrightarrow> cells (k_pages u) p = cells (k_pages t) p \<and> cells (v_pages u) p = cells (v_pages t) p"
  shows "same_cells s u"
  using assms by (simp add: same_cells_def)

lemma clone_facts:
  assumes k: "kv_inv E s" and p: "page_ref_count s p > 0" and e: "clone_page_for_write dev p s = (res, s')"
  shows "pool_frame s s' \<and> same_cells s s'"
    and "\<exists>E'. kv_inv E' s' \<and> (res \<notin> range Inr \<longrightarrow> works dev \<longrightarrow> E' = E)"
    and "works dev \<Longrightarrow> no_leak s \<Longrightarrow> no_leak s'"
    and "res = Inr q \<Longrightarrow> kv_inv (add_mset q E) s' \<and> 0 \<le> q \<and> page_ref_count s q = 0 \<and> page_ref_count s' q = 1
      \<and> page_ref_count s' p = page_ref_count s p \<and> q < page_capacity s'"
    and "res = Inr q \<Longrightarrow> j < nat (block_size s) \<Longrightarrow> cell_at s' q j = cell_at s p j"
proof -
  have b: "book (tables s) E s" and st: "store_ok s" using k by (simp_all add: kv_inv_def)
  have bs: "0 < block_size s" using st by (simp add: store_ok_def)
  obtain r1 s1 where a: "allocate_page dev s = (r1, s1)" by fastforce
  note al = allocate_page_facts [OF b st a]
  have f1: "pool_frame s s1" and st1: "store_ok s1" and sc1: "same_cells s s1" using al(1) by simp_all
  have "(pool_frame s s' \<and> same_cells s s')
    \<and> (\<exists>E'. kv_inv E' s' \<and> (res \<notin> range Inr \<longrightarrow> works dev \<longrightarrow> E' = E)) \<and> (works dev \<longrightarrow> no_leak s \<longrightarrow> no_leak s')
    \<and> (\<forall>q. res = Inr q \<longrightarrow> (kv_inv (add_mset q E) s' \<and> 0 \<le> q \<and> page_ref_count s q = 0 \<and> page_ref_count s' q = 1
      \<and> page_ref_count s' p = page_ref_count s p \<and> q < page_capacity s') \<and> (\<forall>j < nat (block_size s). cell_at s' q j = cell_at s p j))"
  proof (cases r1)
    case (Inl e1)
    then have "res = Inl e1" "s' = s1" using e a by (simp_all add: clone_page_for_write_def)
    moreover have "kv_inv E s1" by (rule pool_kv_inv [OF k f1 al(2) [OF Inl] st1])
    ultimately show ?thesis using f1 sc1 al(5) by auto
  next
    case (Inr q)
    have q: "book (tables s) (add_mset q E) s1" "0 \<le> q" "page_ref_count s q = 0" "page_ref_count s1 q = 1"
      using al(3) [OF Inr] by simp_all
    have pq: "p \<noteq> q" using p q(3) by auto
    have cp: "page_ref_count s1 p = page_ref_count s p" using al(4) [OF Inr pq] by simp
    obtain r2 s2 where ps: "page_slice dev p (block_size s1) s1 = (r2, s2)" by fastforce
    have bs1: "block_size s1 = block_size s" using f1 by (simp add: pool_frame_def)
    obtain m2 where s2: "s2 = s1\<lparr>ticks := m2\<rparr>"
      and sl: "\<And>kc vc. r2 = Inr (kc, vc) \<Longrightarrow> kc = take (nat (block_size s)) (cells (k_pages s1) p) \<and> vc = take (nat (block_size s)) (cells (v_pages s1) p)"
      and sw: "works dev \<Longrightarrow> 0 \<le> p \<Longrightarrow> p < page_capacity s1 \<Longrightarrow> \<exists>x. r2 = Inr x"
      using page_slice_facts [OF ps] bs bs1 st1 by (metis order.refl order_less_imp_le)
    obtain r3 s3 where en: "ensure_page_capacity dev (q + 1) s2 = (r3, s3)" by fastforce
    have b2: "book (tables s) (add_mset q E) s2" by (rule book_transfer [OF q(1)]) (simp_all add: s2)
    have st2: "store_ok s2" using st1 by (simp add: s2)
    have live2: "\<And>x. page_ref_count s2 x > 0 \<Longrightarrow> x < allocated_pages s2" using book_live [OF b2] by blast
    have al2: "0 \<le> allocated_pages s2" using b2 by (simp add: book_def)
    have q1: "0 < q + 1" using q(2) by simp
    note ec = ensure_page_capacity_facts [OF en st2 live2 al2 q1]
    have lq: "q < page_capacity s2" using store_live(1) [OF st2, of q] q(4) by (simp add: s2)
    then have keep: "s3 = s2" "r3 = Inr ()" using en by (auto simp: ensure_page_capacity_def)
    have f2: "pool_frame s s2" using f1 pool_frame_trans [OF f1] by (simp add: s2)
    have sc2: "same_cells s s2" using sc1 by (simp add: s2 same_cells_def)
    have k2: "kv_inv (add_mset q E) s2" by (rule pool_kv_inv [OF k f2 b2 st2])
    have nl2: "no_leak s2 = no_leak s1" by (rule no_leak_cong) (simp_all add: s2)
    show ?thesis
    proof (cases r2)
      case inl: (Inl e2)
      then have r: "res = Inl e2" "s' = s2" using e a Inr ps by (simp_all add: clone_page_for_write_def)
      have "\<not> works dev"
      proof
        assume wk: "works dev"
        have "0 \<le> p \<and> p < page_capacity s1" using store_live(1) [OF st1] p cp by simp
        then show False using sw [OF wk] inl by auto
      qed
      then show ?thesis using r f2 sc2 k2 by auto
    next
      case inr: (Inr cv)
      obtain kc vc where cv: "cv = (kc, vc)" by (cases cv)
      have part: "kc = take (nat (block_size s)) (cells (k_pages s1) p)" "vc = take (nat (block_size s)) (cells (v_pages s1) p)"
        using sl inr cv by simp_all
      have lc: "length (cells (k_pages s1) p) = nat (block_size s)" "length (cells (v_pages s1) p) = nat (block_size s)"
        using store_live(2,3) [OF st1] p cp bs1 by simp_all
      obtain r4 s4 where wp: "write_page dev q 0 kc vc s2 = (r4, s4)" by fastforce
      have bs2: "block_size s2 = block_size s" by (simp add: s2 bs1)
      have l2: "nat 0 + length kc \<le> nat (block_size s2)" "nat 0 + length vc \<le> nat (block_size s2)" by (simp_all add: part lc bs2)
      note w = write_page_facts [OF wp st2 q(2) lq _ l2, simplified]
      have f4: "pool_frame s s4" using pool_frame_trans [OF f2] w(1) by simp
      have sc4: "same_cells s s4"
      proof (rule same_cells_live_trans [OF sc2])
        fix x assume x: "page_ref_count s x > 0"
        then have "x \<noteq> q" "0 \<le> x" using q(3) ref_count_in_range [OF x] by auto
        then show "cells (k_pages s4) x = cells (k_pages s2) x \<and> cells (v_pages s4) x = cells (v_pages s2) x" using w(2) by simp
      qed
      have rc4: "page_ref_count s4 x = page_ref_count s1 x" for x by (rule page_ref_count_cong) (use w(1) in \<open>simp add: s2\<close>)
      have b4: "book (tables s) (add_mset q E) s4"
        by (rule book_transfer [OF b2]) (use w(1) page_ref_count_cong page_generation_cong in auto)
      have k4: "kv_inv (add_mset q E) s4" by (rule pool_kv_inv [OF k f4 b4]) (use w(1) in simp)
      have nl4: "no_leak s4 = no_leak s1" using no_leak_cong [of s4 s2] w(1) nl2 by simp
      show ?thesis
      proof (cases r4)
        case (Inl e4)
        then have r: "res = Inl e4" "s' = s4" using e a Inr ps inr cv en keep wp by (simp_all add: clone_page_for_write_def)
        have "\<not> works dev" using w(5) Inl by auto
        then show ?thesis using r f4 sc4 k4 by auto
      next
        case (Inr u)
        define x where "x = (observability s4)\<lparr>cow_page_copies := sat_add (cow_page_copies (observability s4)) 1\<rparr>"
        have r: "res = Inr q" "s' = s4\<lparr>observability := x\<rparr>"
          using e a \<open>r1 = Inr q\<close> ps inr cv en keep wp Inr by (simp_all add: clone_page_for_write_def x_def)
        note ob = observability_irrelevant [where s = s4 and x = x]
        have cell: "cell_at s4 q j = cell_at s p j" if "j < nat (block_size s)" for j
        proof -
          have "cell_at s4 q j = (kc ! j, vc ! j)" using w(4) [of j] Inr that by (simp add: part lc)
          also have "\<dots> = cell_at s1 p j" using that by (simp add: part cell_at_def)
          also have "\<dots> = cell_at s p j" using same_cells_at [OF sc1 p] by simp
          finally show ?thesis .
        qed
        have cp': "q < page_capacity s4" using store_live(1) [of s4 q] w(1) rc4 q(4) by simp
        have "pool_frame s s'" using f4 by (simp add: r pool_frame_def)
        moreover have "same_cells s s'" using sc4 by (simp add: r same_cells_def)
        moreover have "kv_inv (add_mset q E) s'" using k4 ob(2) by (simp add: r)
        moreover have "page_ref_count s' y = page_ref_count s1 y" for y
          using rc4 [of y] page_ref_count_cong [of s' s4 y] by (simp add: r)
        moreover have "no_leak s' = no_leak s1" using nl4 ob(5) by (simp add: r)
        moreover have "cell_at s' q j = cell_at s p j" if "j < nat (block_size s)" for j
          using cell [OF that] by (simp add: r cell_at_def)
        ultimately show ?thesis using r q cp cp' al(5) by auto
      qed
    qed
  qed
  then show "pool_frame s s' \<and> same_cells s s'"
    and "\<exists>E'. kv_inv E' s' \<and> (res \<notin> range Inr \<longrightarrow> works dev \<longrightarrow> E' = E)"
    and "works dev \<Longrightarrow> no_leak s \<Longrightarrow> no_leak s'"
    and "res = Inr q \<Longrightarrow> kv_inv (add_mset q E) s' \<and> 0 \<le> q \<and> page_ref_count s q = 0 \<and> page_ref_count s' q = 1
      \<and> page_ref_count s' p = page_ref_count s p \<and> q < page_capacity s'"
    and "res = Inr q \<Longrightarrow> j < nat (block_size s) \<Longrightarrow> cell_at s' q j = cell_at s p j"
    by blast+
qed

end
