(* ===== verification/PagedKvChunk.thy ===== *)
theory PagedKvChunk
  imports PagedKvClone
begin

text \<open>
  One iteration of the loop of \<open>append_on\<close> (\<open>ironmlx/src/core/cache/paged_kv.rs\<close>): a block is allocated or made
  private, and a chunk of new cells is written behind the tokens the row already has.
\<close>

lemma set_block_no_leak: "no_leak (set_block r c q s) = no_leak s"
  by (rule no_leak_cong) (simp_all add: set_block_def)

lemma set_block_counts: "page_ref_count (set_block r c q s) p = page_ref_count s p"
  by (rule page_ref_count_cong) (simp add: set_block_def)

lemma set_block_nth:
  assumes "r < length (block_tables s)" and "c < length (block_tables s ! r)"
  shows "block_tables (set_block r c q s) ! r ! c = q"
  using assms by (simp add: set_block_def)

lemma rowed_in_range:
  assumes "rowed r n E s"
  shows "r < length (block_tables s)"
  using rowed_parts(2,3) [OF assms] by (simp add: rows_ok_def)

section \<open>A page for the block\<close>

lemma block_for_append_step:
  assumes w: "rowed r n E s" and c: "c < length (block_tables s ! r)"
  shows "step_ok dev r n E s (block_for_append dev r c s) (\<lambda>p s'. 0 \<le> p \<and> block_tables s' ! r ! c = p)"
proof (cases "block_tables s ! r ! c < 0")
  case False
  then show ?thesis using w unfolding block_for_append_def by (simp add: step_ok_result rowed_def)
next
  case True
  note q = rowed_parts [OF w]
  let ?t = "\<lparr>blocks = block_tables s ! r, offset = row_offsets s ! r\<rparr>"
  obtain r1 s1 where a: "allocate_page dev s = (r1, s1)" by fastforce
  note al = allocate_page_facts [OF q(8,9) a]
  have f: "pool_frame s s1" and st: "store_ok s1" and sc: "same_cells s s1" using al(1) by simp_all
  show ?thesis
  proof (cases r1)
    case (Inl e)
    have e: "block_for_append dev r c s = (Inl e, s1)" using True a Inl by (simp add: block_for_append_def)
    show ?thesis unfolding e
      by (rule step_okI [OF pool_row_step [OF w f sc] pool_kv_inv [OF q(1) f al(2) [OF Inl] st] al(5)]) simp_all
  next
    case (Inr p)
    let ?s = "set_block r c p s1"
    have e: "block_for_append dev r c s = (Inr p, ?s)" using True a Inr by (simp add: block_for_append_def)
    have b: "book (tables s) (add_mset p E) s1" and p: "0 \<le> p" using al(3) [OF Inr] by simp_all
    note fs = frame_shape [OF f]
    have T: "tables s1 = tables s" by (rule pool_frame_tables [OF f])
    have g: "block_tables s1 = block_tables s" "execution_owners s1 = execution_owners s" "row_offsets s1 = row_offsets s"
      using f by (simp_all add: pool_frame_def)
    have cl: "c < length (blocks ?t)" using c by simp
    have bt: "book ((tables s)(execution_owners s ! r \<mapsto> ?t\<lparr>blocks := (block_tables s ! r)[c := p]\<rparr>)) E s1"
      using book_set_block [OF b q(10) cl p] True by simp
    have k: "kv_inv E ?s"
      by (rule set_block_inv) (use q(1,3) st p bt in \<open>simp_all add: fs g T kv_inv_def\<close>)
    have rs: "row_step r n s ?s"
    proof (rule set_block_row_step [OF w c p f sc])
      fix i assume i: "0 \<le> i" "i < n" "nat (i div block_size s) = c"
      then show "cell_at s1 p (nat (i mod block_size s)) = cell_at s (block_tables s ! r ! c) (nat (i mod block_size s))"
        using own_live(3) [OF w i(1,2)] True by simp
    qed
    show ?thesis unfolding e
    proof (rule step_okI [OF rs k])
      show "no_leak ?s" if "works dev" "no_leak s" unfolding set_block_no_leak by (rule al(5) [OF that])
      show "0 \<le> x \<and> block_tables ?s ! r ! c = x" if "Inr p = Inr x" for x
        using that p set_block_nth [of r s1 c p] rowed_in_range [OF w] c g by simp
    qed
  qed
qed

section \<open>A private page for the block\<close>

lemma private_for_append_step:
  assumes w: "rowed r n E s" and c: "c < length (block_tables s ! r)" and p: "0 \<le> p" "block_tables s ! r ! c = p"
  shows "step_ok dev r n E s (private_for_append dev r c p s)
    (\<lambda>q s'. 0 \<le> q \<and> block_tables s' ! r ! c = q \<and> page_ref_count s' q \<le> 1)"
proof (cases "page_ref_count s p > 1")
  case False
  then show ?thesis using w p unfolding private_for_append_def by (simp add: step_ok_result rowed_def)
next
  case True
  note q = rowed_parts [OF w]
  let ?t = "\<lparr>blocks = block_tables s ! r, offset = row_offsets s ! r\<rparr>"
  have live: "page_ref_count s p > 0" using True by simp
  obtain r1 s1 where a: "clone_page_for_write dev p s = (r1, s1)" by fastforce
  note cl = clone_facts [OF q(1) live a]
  have f: "pool_frame s s1" and sc: "same_cells s s1" using cl(1) by simp_all
  show ?thesis
  proof (cases r1)
    case (Inl e)
    have e: "private_for_append dev r c p s = (Inl e, s1)" using True a Inl by (simp add: private_for_append_def)
    obtain E' where E': "kv_inv E' s1" "works dev \<longrightarrow> E' = E" using cl(2) Inl by auto
    have "row_step r n s s1" by (rule pool_row_step [OF w f sc])
    then show ?thesis using E' cl(3) unfolding e step_ok_def by auto
  next
    case (Inr x)
    let ?s2 = "release_page_ref p s1"
    let ?s = "set_block r c x ?s2"
    have e: "private_for_append dev r c p s = (Inr x, ?s)" using True a Inr by (simp add: private_for_append_def)
    have k1: "kv_inv (add_mset x E) s1" and x: "0 \<le> x" "page_ref_count s x = 0" "page_ref_count s1 x = 1"
      and cp: "page_ref_count s1 p = page_ref_count s p"
      using cl(4) [OF Inr] by simp_all
    have b1: "book (tables s) (add_mset x E) s1" using k1 pool_frame_tables [OF f] by (simp add: kv_inv_def)
    let ?T = "(tables s)(execution_owners s ! r \<mapsto> ?t\<lparr>blocks := (block_tables s ! r)[c := x]\<rparr>)"
    have cl': "c < length (blocks ?t)" using c by simp
    have bT: "book ?T (add_mset p E) s1" using book_set_block [OF b1 q(10) cl' x(1)] p by simp
    have b2: "book ?T E ?s2" by (rule release_page_ref_book [OF bT p(1)])
    have cf: "counts_frame s1 ?s2" by (rule release_counts_frame)
    have f2: "pool_frame s ?s2" by (rule pool_frame_trans [OF f counts_frame_fields(1) [OF cf]])
    have p1: "page_ref_count s1 p > 0" using live cp by simp
    have lv: "page_ref_count s1 y > 0" if "page_ref_count ?s2 y > 0" for y
      using that p1 by (auto simp: release_page_ref_count [OF p1] split: if_splits)
    have st2: "store_ok ?s2" by (rule counts_frame_store(1) [OF cf _ lv]) (use k1 in \<open>simp_all add: kv_inv_def\<close>)
    have ca: "cell_at ?s2 = cell_at s1" using counts_frame_fields(2,3) [OF cf] by (intro ext) (simp add: cell_at_def)
    have sc2: "same_cells s ?s2" using sc counts_frame_fields(2,3) [OF cf] by (simp add: same_cells_def)
    note fs = frame_shape [OF f2]
    have g: "block_tables ?s2 = block_tables s" "execution_owners ?s2 = execution_owners s" "row_offsets ?s2 = row_offsets s"
      using f2 by (simp_all add: pool_frame_def)
    have T: "tables ?s2 = tables s" by (rule pool_frame_tables [OF f2])
    have k: "kv_inv E ?s"
      by (rule set_block_inv) (use q(1,3) st2 x b2 in \<open>simp_all add: fs g T kv_inv_def\<close>)
    have rs: "row_step r n s ?s"
    proof (rule set_block_row_step [OF w c x(1) f2 sc2])
      fix i assume "0 \<le> i" "i < n" "nat (i div block_size s) = c"
      have "0 \<le> i mod block_size s" "i mod block_size s < block_size s" using q(7) by simp_all
      then have "nat (i mod block_size s) < nat (block_size s)" by simp
      then show "cell_at ?s2 x (nat (i mod block_size s)) = cell_at s (block_tables s ! r ! c) (nat (i mod block_size s))"
        unfolding ca using cl(5) [OF Inr] p by simp
    qed
    show ?thesis unfolding e
    proof (rule step_okI [OF rs k])
      show "no_leak ?s" if "works dev" "no_leak s"
        unfolding set_block_no_leak by (rule release_no_leak [OF bT p(1) cl(3) [OF that]])
      show "0 \<le> y \<and> block_tables ?s ! r ! c = y \<and> page_ref_count ?s y \<le> 1" if "Inr x = Inr y" for y
        using that x set_block_nth [of r ?s2 c x] rowed_in_range [OF w] c g
        by (simp add: set_block_counts release_page_ref_count [OF p1])
    qed
  qed
qed

section \<open>Writing the chunk\<close>

lemma token_at:
  assumes "0 < block_size s" and "0 \<le> j" and "j < block_size s"
  shows "token s bl (int c * block_size s + j) = cell_at s (bl ! c) (nat j)"
proof -
  have "(int c * block_size s + j) div block_size s = int c" "(int c * block_size s + j) mod block_size s = j"
    using assms by simp_all
  then show ?thesis unfolding token_def by simp
qed

lemma write_row_page_step:
  assumes w: "rowed r (int c * block_size s + i) E s" and c: "c < length (block_tables s ! r)" and q0: "0 \<le> block_tables s ! r ! c"
    and cnt: "page_ref_count s (block_tables s ! r ! c) \<le> 1" and i: "0 \<le> i" "i + n \<le> block_size s"
    and l: "length kc \<le> nat n" "length vc \<le> nat n" and pos: "0 < n"
  shows "step_ok dev r (int c * block_size s + i) E s (write_page dev (block_tables s ! r ! c) i kc vc s)
    (\<lambda>_ s'. covered s' (block_tables s' ! r) (int c * block_size s + i + n)
      \<and> (length vc = length kc \<longrightarrow> (\<forall>j < length kc. token s' (block_tables s' ! r) (int c * block_size s + i + int j) = (kc ! j, vc ! j))))"
proof -
  let ?bl = "block_tables s ! r"
  let ?q = "?bl ! c"
  let ?n = "int c * block_size s + i"
  note q = rowed_parts [OF w]
  let ?t = "\<lparr>blocks = ?bl, offset = row_offsets s ! r\<rparr>"
  obtain res s' where e: "write_page dev ?q i kc vc s = (res, s')" by fastforce
  have cb: "c < length (blocks ?t)" "0 \<le> blocks ?t ! c" "page_ref_count s (blocks ?t ! c) \<le> 1" using c q0 cnt by simp_all
  note pv = private_page [OF q(8,10) cb, simplified]
  have "?q \<in> set (blocks ?t)" using c by simp
  from table_live(1) [OF q(8,10) this q0] have live: "page_ref_count s ?q > 0" .
  have rng: "0 \<le> ?q" "?q < page_capacity s" using store_live(1) [OF q(9) live] by simp_all
  have len: "nat i + length kc \<le> nat (block_size s)" "nat i + length vc \<le> nat (block_size s)" using i l pos by linarith+
  note wp = write_page_facts [OF e q(9) rng i(1) len]
  have f: "pool_frame s s'" using wp(1) by simp
  have g: "block_tables s' = block_tables s" "block_size s' = block_size s" using f by (simp_all add: pool_frame_def)
  have b: "book (tables s) E s'"
    by (rule book_transfer [OF q(8) f]) (use wp(1) page_ref_count_cong page_generation_cong in auto)
  have k: "kv_inv E s'" by (rule pool_kv_inv [OF q(1) f b]) (use wp(1) in simp)
  have rs: "row_step r ?n s s'"
  proof -
    have "cell_at s' x = cell_at s x" if "foreign (execution_owners s ! r) s x" for x
    proof -
      have "0 \<le> x" "x \<noteq> ?q" using that pv(1) by (auto simp: foreign_def)
      then show ?thesis using wp(2) by simp
    qed
    moreover have "token s' ?bl j = token s ?bl j" if j: "0 \<le> j \<and> j < ?n" for j
    proof (cases "nat (j div block_size s) = c")
      case True
      have "0 \<le> j div block_size s" using j q(7) by (simp add: pos_imp_zdiv_nonneg_iff)
      then have "j div block_size s = int c" using True by simp
      then have "j = int c * block_size s + j mod block_size s" by (metis div_mult_mod_eq)
      then have "j mod block_size s < i" using j by linarith
      moreover have "0 \<le> j mod block_size s" using q(7) by simp
      ultimately have "nat (j mod block_size s) < nat i" by simp
      then show ?thesis using wp(3) True by (simp add: token_def g)
    next
      case False
      have jl: "nat (j div block_size s) < length ?bl" "0 \<le> ?bl ! nat (j div block_size s)"
        using own_live(2,3) [OF w] j by simp_all
      then have "?bl ! nat (j div block_size s) \<noteq> ?q" using pv(2) False by metis
      then show ?thesis using wp(2) jl by (simp add: token_def g)
    qed
    moreover have "block_tables s' = (block_tables s)[r := ?bl]" using g by simp
    ultimately show ?thesis using pool_same_frame [OF f] unfolding row_step_def g by blast
  qed
  show ?thesis unfolding e
  proof (rule step_okI [OF rs k])
    have "no_leak s' = no_leak s" by (rule no_leak_cong) (use wp(1) in simp_all)
    then show "no_leak s'" if "works dev" "no_leak s" using that by simp
    fix x assume ok: "res = Inr x"
    have "0 \<le> ?bl ! j" if "j < length ?bl" "int j * block_size s < ?n + n" for j
    proof (cases "j < c")
      case True
      then have "(int j + 1) * block_size s \<le> int c * block_size s" using q(7) by (intro mult_right_mono) auto
      then have "int j * block_size s < ?n" using i(1) q(7) by (simp add: distrib_right)
      then show ?thesis using q(4) that(1) by (simp add: covered_def)
    next
      case False
      have "int j * block_size s < (int c + 1) * block_size s" using that(2) i(2) by (simp add: distrib_right)
      then have "int j < int c + 1" using q(7) by (simp only: mult_less_cancel_right_pos)
      then have "j = c" using False by linarith
      then show ?thesis using q0 by simp
    qed
    moreover have "token s' ?bl (?n + int j) = (kc ! j, vc ! j)" if "length vc = length kc" "j < length kc" for j
    proof -
      have ij: "0 \<le> i + int j" "i + int j < block_size s'" using i l that pos g by linarith+
      have "token s' ?bl (int c * block_size s' + (i + int j)) = cell_at s' ?q (nat (i + int j))"
        by (rule token_at) (use ij q(7) g in simp_all)
      also have "nat (i + int j) = nat i + j" using i(1) by (simp add: nat_add_distrib)
      also have "cell_at s' ?q (nat i + j) = (kc ! j, vc ! j)" using wp(4) ok that by simp
      finally show ?thesis by (simp add: g add.assoc)
    qed
    ultimately show "covered s' (block_tables s' ! r) (?n + n)
      \<and> (length vc = length kc \<longrightarrow> (\<forall>j < length kc. token s' (block_tables s' ! r) (?n + int j) = (kc ! j, vc ! j)))"
      by (simp add: covered_def g)
  qed
qed

lemma row_step_len: "row_step r n s s' \<Longrightarrow> length (block_tables s' ! r) = length (block_tables s ! r)"
  and row_step_size: "row_step r n s s' \<Longrightarrow> block_size s' = block_size s"
  by (simp_all add: row_step_def same_frame_def)

lemma append_chunk_step:
  assumes w: "rowed r (int c * block_size s + i) E s" and i: "0 \<le> i" "i + n \<le> block_size s" and pos: "0 < n"
    and l: "length (slice_cells r src n v) = length (slice_cells r src n k)"
  shows "step_ok dev r (int c * block_size s + i) E s (append_chunk dev r k v (int c) i src n s)
    (\<lambda>_ s'. covered s' (block_tables s' ! r) (int c * block_size s + i + n)
      \<and> (\<forall>j < length (slice_cells r src n k). token s' (block_tables s' ! r) (int c * block_size s + i + int j)
          = (slice_cells r src n k ! j, slice_cells r src n v ! j)))"
proof (cases "int c \<ge> max_blocks_per_row s")
  case True
  then have "append_chunk dev r k v (int c) i src n s = (Inl TableTooNarrow, s)" by (simp add: append_chunk_def)
  then show ?thesis using step_ok_error [OF w] by simp
next
  case False
  let ?n = "int c * block_size s + i"
  let ?Q = "\<lambda>(_ :: unit) s'. covered s' (block_tables s' ! r) (?n + n)
      \<and> (\<forall>j < length (slice_cells r src n k). token s' (block_tables s' ! r) (?n + int j)
          = (slice_cells r src n k ! j, slice_cells r src n v ! j))"
  have c: "c < length (block_tables s ! r)" using False rowed_parts(11) [OF w] by simp
  have lk: "length (slice_cells r src n k) \<le> nat n" "length (slice_cells r src n v) \<le> nat n" by (simp_all add: slice_cells_def)
  show ?thesis
    unfolding append_chunk_def nat_int if_not_P [OF False]
  proof (rule step_ok_bind [OF block_for_append_step [OF w c] w])
    fix p s1
    assume w1: "rowed r ?n E s1" and st1: "row_step r ?n s s1" and p: "0 \<le> p \<and> block_tables s1 ! r ! c = p"
    have c1: "c < length (block_tables s1 ! r)" using c row_step_len [OF st1] by simp
    have p': "0 \<le> p" "block_tables s1 ! r ! c = p" using p by simp_all
    show "step_ok dev r ?n E s1 (andthen (private_for_append dev r c p s1) (\<lambda>p s. andthen (ensure_page_capacity dev (p + 1) s) (\<lambda>_ s.
        andthen (two_ops dev s) (\<lambda>_ s. write_page dev p i (slice_cells r src n k) (slice_cells r src n v) s)))) ?Q"
    proof (rule step_ok_bind [OF private_for_append_step [OF w1 c1 p'] w1])
      fix q s2
      assume w2: "rowed r ?n E s2" and st2: "row_step r ?n s1 s2"
        and q: "0 \<le> q \<and> block_tables s2 ! r ! c = q \<and> page_ref_count s2 q \<le> 1"
      have c2: "c < length (block_tables s2 ! r)" using c1 row_step_len [OF st2] by simp
      have "q \<in> set (block_tables s2 ! r)" using c2 q by auto
      then have qa: "q < allocated_pages s2" using table_live(2) [OF rowed_parts(8,10) [OF w2]] q by simp
      have q0: "0 \<le> q" using q by simp
      show "step_ok dev r ?n E s2 (andthen (ensure_page_capacity dev (q + 1) s2) (\<lambda>_ s.
          andthen (two_ops dev s) (\<lambda>_ s. write_page dev q i (slice_cells r src n k) (slice_cells r src n v) s))) ?Q"
      proof (rule step_ok_bind [OF ensure_step [OF w2 q0 qa] w2])
        fix u s3
        assume w3: "rowed r ?n E s3" and st3: "row_step r ?n s2 s3"
          and e: "pool_frame s2 s3 \<and> same_cells s2 s3 \<and> page_ref_count s3 = page_ref_count s2 \<and> q < page_capacity s3"
        show "step_ok dev r ?n E s3 (andthen (two_ops dev s3) (\<lambda>_ s. write_page dev q i (slice_cells r src n k) (slice_cells r src n v) s)) ?Q"
        proof (rule step_ok_bind [OF two_ops_step [OF w3] w3])
          fix u' s4
          assume w4: "rowed r ?n E s4" and st4: "row_step r ?n s3 s4" and t: "\<exists>m. s4 = s3\<lparr>ticks := m\<rparr>"
          have bl: "block_tables s4 = block_tables s2" using t e by (auto simp: pool_frame_def)
          have sz: "block_size s4 = block_size s"
            using row_step_size [OF st1] row_step_size [OF st2] row_step_size [OF st3] row_step_size [OF st4] by simp
          have cnt: "page_ref_count s4 q \<le> 1" using t e q by auto
          have qe: "block_tables s4 ! r ! c = q" using bl q by simp
          have w4': "rowed r (int c * block_size s4 + i) E s4" using w4 sz by simp
          have c4: "c < length (block_tables s4 ! r)" using c2 bl by simp
          have q4: "0 \<le> block_tables s4 ! r ! c" "page_ref_count s4 (block_tables s4 ! r ! c) \<le> 1" using qe q0 cnt by simp_all
          have i4: "i + n \<le> block_size s4" using i(2) sz by simp
          show "step_ok dev r ?n E s4 (write_page dev q i (slice_cells r src n k) (slice_cells r src n v) s4) ?Q"
            using write_row_page_step [OF w4' c4 q4 i(1) i4 lk pos, of dev] l unfolding qe sz by simp
        qed
      qed
    qed
  qed
qed

end
