(* ===== verification/PagedKvTokens.thy ===== *)
theory PagedKvTokens
  imports PagedKvChunk
begin

text \<open>
  \<open>append_on\<close> of \<open>ironmlx/src/core/cache/paged_kv.rs\<close> as a whole, against the view of the cache as a map from
  owners to token lists: each row's owner gets its new tokens appended and nobody else sees a difference.
\<close>

section \<open>One row\<close>

definition row_token :: "nat \<Rightarrow> 'c kv_tensor \<Rightarrow> 'c kv_tensor \<Rightarrow> int \<Rightarrow> 'c \<times> 'c" where
  "row_token r k v i = (t_rows k ! r ! nat i, t_rows v ! r ! nat i)"

lemma slice_cells_nth:
  assumes "0 \<le> src" and "0 \<le> n" and "nat (src + n) \<le> length (t_rows t ! r)"
  shows "length (slice_cells r src n t) = nat n" and "j < nat n \<Longrightarrow> slice_cells r src n t ! j = t_rows t ! r ! nat (src + int j)"
  using assms by (simp_all add: slice_cells_def nat_add_distrib)

lemma append_row_bind:
  assumes "src < n" and "0 < block_size s"
  shows "append_row dev r k v logical src n s =
    andthen (append_chunk dev r k v (logical div block_size s) (logical mod block_size s) src
        (min (n - src) (block_size s - logical mod block_size s)) s)
      (\<lambda>_ s'. append_row dev r k v (logical + min (n - src) (block_size s - logical mod block_size s))
         (src + min (n - src) (block_size s - logical mod block_size s)) n s')"
  using assms by (subst append_row.simps) (simp add: Let_def andthen_def)

lemma append_row_step:
  assumes "rowed r l E s" and "0 \<le> src" and "src \<le> n" and "l + (n - src) \<le> cap s"
    and "nat n \<le> length (t_rows k ! r)" and "nat n \<le> length (t_rows v ! r)"
  shows "step_ok dev r l E s (append_row dev r k v l src n s)
    (\<lambda>_ s'. covered s' (block_tables s' ! r) (l + (n - src))
      \<and> (\<forall>j. 0 \<le> j \<and> j < n - src \<longrightarrow> token s' (block_tables s' ! r) (l + j) = row_token r k v (src + j)))"
  using assms
proof (induction "nat (n - src)" arbitrary: l src s rule: less_induct)
  case (less src l s)
  note w = less.prems(1)
  note q = rowed_parts [OF w]
  show ?case
  proof (cases "src < n")
    case False
    then have e: "append_row dev r k v l src n s = (Inr (), s)" by (subst append_row.simps) simp
    show ?thesis unfolding e using False less.prems(3) w q(4) by (auto simp: step_ok_result rowed_def)
  next
    case True
    let ?b = "block_size s"
    let ?i = "l mod ?b"
    let ?m = "min (n - src) (?b - ?i)"
    define c where "c = nat (l div ?b)"
    have c: "int c = l div ?b" using q(5,7) by (simp add: c_def pos_imp_zdiv_nonneg_iff)
    have i: "0 \<le> ?i" "?i < ?b" using q(7) by simp_all
    have m: "0 < ?m" "?i + ?m \<le> ?b" "?m \<le> n - src" using True i by auto
    have l: "int c * ?b + ?i = l" unfolding c by simp
    have fit: "nat (src + ?m) \<le> length (t_rows k ! r)" "nat (src + ?m) \<le> length (t_rows v ! r)"
      using m(3) less.prems(5,6) by linarith+
    have m0: "0 \<le> ?m" using m(1) by simp
    note sk = slice_cells_nth [OF less.prems(2) m0 fit(1)] and sv = slice_cells_nth [OF less.prems(2) m0 fit(2)]
    have ll: "length (slice_cells r src ?m v) = length (slice_cells r src ?m k)" using sk sv by simp
    have w': "rowed r (int c * ?b + ?i) E s" using w l by simp
    note ch = append_chunk_step [OF w' i(1) m(2,1) ll, of dev, unfolded l, unfolded c]
    show ?thesis unfolding append_row_bind [OF True q(7)]
    proof (rule step_ok_bind [OF ch w])
      fix u s1
      assume w1: "rowed r l E s1" and st: "row_step r l s s1"
        and post: "covered s1 (block_tables s1 ! r) (l + ?m) \<and> (\<forall>j < length (slice_cells r src ?m k).
          token s1 (block_tables s1 ! r) (l + int j) = (slice_cells r src ?m k ! j, slice_cells r src ?m v ! j))"
      have capeq: "cap s1 = cap s" using st by (simp add: row_step_def same_frame_def)
      have w2: "rowed r (l + ?m) E s1" using w1 post less.prems(4) m capeq unfolding rowed_def by simp
      have IH: "step_ok dev r (l + ?m) E s1 (append_row dev r k v (l + ?m) (src + ?m) n s1)
        (\<lambda>_ s'. covered s' (block_tables s' ! r) (l + ?m + (n - (src + ?m)))
          \<and> (\<forall>j. 0 \<le> j \<and> j < n - (src + ?m) \<longrightarrow> token s' (block_tables s' ! r) (l + ?m + j) = row_token r k v (src + ?m + j)))"
        by (rule less.hyps [OF _ w2]) (use m True less.prems capeq in auto)
      have "step_ok dev r (l + ?m) E s1 (append_row dev r k v (l + ?m) (src + ?m) n s1)
        (\<lambda>_ s'. covered s' (block_tables s' ! r) (l + (n - src))
          \<and> (\<forall>j. 0 \<le> j \<and> j < n - src \<longrightarrow> token s' (block_tables s' ! r) (l + j) = row_token r k v (src + j)))"
      proof (rule step_ok_weaken [OF IH])
        fix y s2
        assume st2: "row_step r (l + ?m) s1 s2"
          and p2: "covered s2 (block_tables s2 ! r) (l + ?m + (n - (src + ?m)))
            \<and> (\<forall>j. 0 \<le> j \<and> j < n - (src + ?m) \<longrightarrow> token s2 (block_tables s2 ! r) (l + ?m + j) = row_token r k v (src + ?m + j))"
        have "token s2 (block_tables s2 ! r) (l + j) = row_token r k v (src + j)" if j: "0 \<le> j" "j < n - src" for j
        proof (cases "j < ?m")
          case True
          have "token s2 (block_tables s2 ! r) (l + j) = token s1 (block_tables s1 ! r) (l + j)"
            using st2 True j(1) q(5) unfolding row_step_def by simp
          also have "\<dots> = (slice_cells r src ?m k ! nat j, slice_cells r src ?m v ! nat j)"
            using post [THEN conjunct2, rule_format, of "nat j"] sk(1) True j(1) by simp
          also have "\<dots> = row_token r k v (src + j)" using sk(2) [of "nat j"] sv(2) [of "nat j"] True j(1) by (simp add: row_token_def)
          finally show ?thesis .
        next
          case False
          then show ?thesis using p2 [THEN conjunct2, rule_format, of "j - ?m"] j(2) by (simp add: algebra_simps)
        qed
        moreover have "l + ?m + (n - (src + ?m)) = l + (n - src)" by simp
        ultimately show "covered s2 (block_tables s2 ! r) (l + (n - src))
          \<and> (\<forall>j. 0 \<le> j \<and> j < n - src \<longrightarrow> token s2 (block_tables s2 ! r) (l + j) = row_token r k v (src + j))"
          using p2 by metis
      qed
      then show "step_ok dev r l E s1 (append_row dev r k v (l + ?m) (src + ?m) n s1)
        (\<lambda>_ s'. covered s' (block_tables s' ! r) (l + (n - src))
          \<and> (\<forall>j. 0 \<le> j \<and> j < n - src \<longrightarrow> token s' (block_tables s' ! r) (l + j) = row_token r k v (src + j)))"
        by (rule step_ok_mono) (use m in simp)
    qed
  qed
qed

section \<open>The cache as a map from owners to tokens\<close>

definition owner_tokens :: "'c paged_kv \<Rightarrow> block_owner \<Rightarrow> ('c \<times> 'c) list option" where
  "owner_tokens s w = map_option (table_tokens s) (tables s w)"

definition pin_tokens :: "'c paged_kv \<Rightarrow> nat \<Rightarrow> ('c \<times> 'c) list option" where
  "pin_tokens s k = map_option (\<lambda>h. map (cell_at s (handle_page h)) [0..<nat (block_size s)]) (map_of (immutable_pins s) k)"

lemma table_page:
  assumes k: "kv_inv E s" and t: "tables s w = Some t" and i: "0 \<le> i" "i < offset t"
  shows "blocks t ! nat (i div block_size s) \<in> set (blocks t)" and "0 \<le> blocks t ! nat (i div block_size s)"
proof -
  have r: "rows_ok s" and tk: "table_ok s t" and b0: "0 < block_size s"
    using k t by (auto simp: kv_inv_def cover_ok_def store_ok_def)
  have "i < max_blocks_per_row s * block_size s" using r tk i by (auto simp: rows_ok_def table_ok_def)
  then have d: "i div block_size s < max_blocks_per_row s" using int_div_less [OF b0] by simp
  have d0: "0 \<le> i div block_size s" using b0 i by (simp add: pos_imp_zdiv_nonneg_iff)
  have l: "nat (i div block_size s) < length (blocks t)" using d d0 tk by (simp add: table_ok_def)
  then show "blocks t ! nat (i div block_size s) \<in> set (blocks t)" by simp
  have "i div block_size s * block_size s = i - i mod block_size s" by (rule minus_mod_eq_div_mult [symmetric])
  moreover have "0 \<le> i mod block_size s" using b0 by simp
  ultimately have "i div block_size s * block_size s < offset t" using i by linarith
  then show "0 \<le> blocks t ! nat (i div block_size s)" using tk l d0 by (simp add: table_ok_def)
qed

text \<open>Tokens only depend on the cells of live pages.\<close>

lemma table_tokens_cong:
  assumes k: "kv_inv E s" and t: "tables s w = Some t" and b: "block_size s' = block_size s"
    and c: "\<And>p. 0 \<le> p \<Longrightarrow> p \<in> set (blocks t) \<Longrightarrow> cell_at s' p = cell_at s p"
  shows "table_tokens s' t = table_tokens s t"
proof -
  have "token s' (blocks t) i = token s (blocks t) i" if "0 \<le> i" "i < offset t" for i
    using c table_page [OF k t that] by (simp add: token_def b)
  then show ?thesis by (simp add: table_tokens_def)
qed

lemma owner_tokens_same_cells:
  assumes k: "kv_inv E s" and c: "same_cells s s'" and b: "block_size s' = block_size s" and t: "tables s' w = tables s w"
  shows "owner_tokens s' w = owner_tokens s w"
proof (cases "tables s w")
  case (Some u)
  have bk: "book (tables s) E s" using k by (simp add: kv_inv_def)
  have "table_tokens s' u = table_tokens s u"
    by (rule table_tokens_cong [OF k Some b]) (rule same_cells_at [OF c table_live(1) [OF bk Some]])
  then show ?thesis using t Some by (simp add: owner_tokens_def)
qed (simp add: owner_tokens_def t)

lemma pin_tokens_same_cells:
  assumes k: "kv_inv E s" and c: "same_cells s s'" and b: "block_size s' = block_size s"
    and m: "map_of (immutable_pins s') j = map_of (immutable_pins s) j"
  shows "pin_tokens s' j = pin_tokens s j"
proof (cases "map_of (immutable_pins s) j")
  case (Some h)
  have bk: "book (tables s) E s" using k by (simp add: kv_inv_def)
  have "cell_at s' (handle_page h) = cell_at s (handle_page h)"
    by (rule same_cells_at [OF c pin_live(1) [OF bk map_of_SomeD [OF Some]]])
  then show ?thesis using m Some by (simp add: pin_tokens_def b)
qed (simp add: pin_tokens_def m)

lemma row_step_tokens:
  assumes w: "rowed r n E s" and st: "row_step r n s s'" and ok: "rows_ok s'" and n: "row_offsets s ! r \<le> n"
  shows "owner_tokens s' = owner_tokens s" and "pin_tokens s' = pin_tokens s"
proof -
  note q = rowed_parts [OF w]
  let ?w = "execution_owners s ! r"
  have f: "same_frame s s'" and fc: "\<And>p. foreign ?w s p \<Longrightarrow> cell_at s' p = cell_at s p" using st by (simp_all add: row_step_def)
  have b: "block_size s' = block_size s" "row_offsets s' = row_offsets s" "execution_owners s' = execution_owners s"
    "immutable_pins s' = immutable_pins s" using f by (simp_all add: same_frame_def)
  obtain bl where bl: "block_tables s' = (block_tables s)[r := bl]" using st by (auto simp: row_step_def)
  show "owner_tokens s' = owner_tokens s"
  proof (rule ext)
    fix v
    show "owner_tokens s' v = owner_tokens s v"
    proof (cases "v = ?w")
      case True
      have t': "tables s' ?w = Some \<lparr>blocks = block_tables s' ! r, offset = row_offsets s ! r\<rparr>"
        using tables_row [OF ok, of r] q(3) b by simp
      have "token s' (block_tables s' ! r) i = token s (block_tables s ! r) i" if "0 \<le> i" "i < row_offsets s ! r" for i
        using st that n unfolding row_step_def by simp
      then show ?thesis using True t' q(10) by (simp add: owner_tokens_def table_tokens_def)
    next
      case False
      have tv: "tables s' v = tables s v" by (rule foreign_row(1) [OF q(2) ok f bl q(3) False])
      show ?thesis
      proof (cases "tables s v")
        case (Some u)
        have "cell_at s' p = cell_at s p" if "0 \<le> p" "p \<in> set (blocks u)" for p
          by (rule fc) (use that Some False in \<open>auto simp: foreign_def\<close>)
        then have "table_tokens s' u = table_tokens s u" by (rule table_tokens_cong [OF q(1) Some b(1)])
        then show ?thesis using Some tv by (simp add: owner_tokens_def)
      qed (simp add: owner_tokens_def tv)
    qed
  qed
  show "pin_tokens s' = pin_tokens s"
  proof (rule ext)
    fix j
    show "pin_tokens s' j = pin_tokens s j"
    proof (cases "map_of (immutable_pins s) j")
      case (Some h)
      have "foreign ?w s (handle_page h)"
        using pin_live(2) [OF q(8) map_of_SomeD [OF Some]] map_of_SomeD [OF Some] by (auto simp: foreign_def)
      then have "cell_at s' (handle_page h) = cell_at s (handle_page h)" by (rule fc)
      then show ?thesis using Some by (simp add: pin_tokens_def b)
    qed (simp add: pin_tokens_def b)
  qed
qed

section \<open>Advancing the offset of a row\<close>

lemma advance_ok:
  assumes w: "rowed r x E s" and x: "row_offsets s ! r \<le> x"
  defines "s' \<equiv> s\<lparr>row_offsets := (row_offsets s)[r := x]\<rparr>"
  shows "kv_inv E s'" and "no_leak s' = no_leak s" and "pin_tokens s' = pin_tokens s"
    and "v \<noteq> execution_owners s ! r \<Longrightarrow> owner_tokens s' v = owner_tokens s v"
    and "owner_tokens s' (execution_owners s ! r) = Some (map (token s (block_tables s ! r)) [0..x - 1])"
proof -
  note q = rowed_parts [OF w]
  let ?w = "execution_owners s ! r"
  let ?bl = "block_tables s ! r"
  have s': "s' = write_row r ?bl x s" by (simp add: s'_def write_row_def)
  have T: "tables s' = (tables s)(?w \<mapsto> \<lparr>blocks = ?bl, offset = x\<rparr>)" unfolding s' by (rule write_row_tables [OF q(2,11,3)])
  have r': "rows_ok s'" unfolding s' by (rule write_row_rows_ok [OF q(2,11)])
  have sp: "same_pool s s'" by (simp add: s'_def same_pool_def)
  note spb = same_pool_book [OF sp]
  have "book (tables s') E s"
  proof (rule book_retable [OF q(8)])
    show "finite (dom (tables s'))" using book_finite [OF q(8)] by (simp add: T)
    show "table_refs (tables s') p + count E p = table_refs (tables s) p + count E p" for p
      by (intro arg_cong2 [where f = "(+)"] table_refs_blocks refl) (use q(10) in \<open>auto simp: T split: if_splits\<close>)
  qed
  moreover have "table_ok s \<lparr>blocks = ?bl, offset = x\<rparr>" using q by (simp add: table_ok_def covered_def)
  then have "cover_ok s'" using q(1) unfolding cover_ok_def T spb(5) by (simp add: kv_inv_def cover_ok_def)
  moreover have "fresh_ok s'" using q(1) by (simp add: kv_inv_def fresh_ok_def s'_def)
  ultimately show "kv_inv E s'" using r' q(9) unfolding kv_inv_def spb by simp
  show "no_leak s' = no_leak s" by (rule spb)
  have ca: "cell_at s' = cell_at s" by (intro ext) (simp add: cell_at_def s'_def)
  have sz: "block_size s' = block_size s" by (simp add: s'_def)
  have tt: "table_tokens s' = table_tokens s" by (intro ext) (simp add: table_tokens_def token_def ca sz)
  show "pin_tokens s' = pin_tokens s" by (intro ext) (simp add: pin_tokens_def ca, simp add: s'_def)
  show "owner_tokens s' v = owner_tokens s v" if "v \<noteq> ?w" using that by (simp add: owner_tokens_def T tt)
  show "owner_tokens s' ?w = Some (map (token s ?bl) [0..x - 1])" by (simp add: owner_tokens_def T tt table_tokens_def)
qed

section \<open>All rows\<close>

definition new_tokens :: "nat \<Rightarrow> 'c kv_tensor \<Rightarrow> 'c kv_tensor \<Rightarrow> int \<Rightarrow> ('c \<times> 'c) list" where
  "new_tokens r k v n = map (row_token r k v) [0..n - 1]"

text \<open>The view after \<open>m\<close> rows from row \<open>a\<close> on have been extended.\<close>

definition extended ::
  "'c kv_tensor \<Rightarrow> 'c kv_tensor \<Rightarrow> nat \<Rightarrow> int list \<Rightarrow> block_owner list \<Rightarrow> (block_owner \<Rightarrow> ('c \<times> 'c) list option)
   \<Rightarrow> (block_owner \<Rightarrow> ('c \<times> 'c) list option) \<Rightarrow> bool" where
  "extended k v a ns ws A A' =
     ((\<forall>j < length ws. A' (ws ! j) = map_option (\<lambda>old. old @ (if a \<le> j \<and> j < a + length ns then new_tokens j k v (ns ! (j - a)) else [])) (A (ws ! j)))
      \<and> (\<forall>w. w \<notin> set ws \<longrightarrow> A' w = A w))"

lemma map_option_append_Nil [simp]: "map_option (\<lambda>old. old @ []) x = x"
  by (cases x) simp_all

declare option.map_ident [simp]

lemma extended_Nil [simp]: "extended k v a [] ws A A' = (A' = A)"
proof
  assume "extended k v a [] ws A A'"
  then have e: "\<And>j. j < length ws \<Longrightarrow> A' (ws ! j) = A (ws ! j)" "\<And>w. w \<notin> set ws \<Longrightarrow> A' w = A w"
    by (auto simp: extended_def)
  show "A' = A"
  proof
    fix w show "A' w = A w" using e(1) e(2) [of w] by (cases "w \<in> set ws") (auto simp: in_set_conv_nth)
  qed
qed (auto simp: extended_def)

lemma extended_Cons:
  assumes d: "distinct ws" and a: "a < length ws"
    and 1: "A1 (ws ! a) = map_option (\<lambda>old. old @ new_tokens a k v n) (A (ws ! a))" and o: "\<And>w. w \<noteq> ws ! a \<Longrightarrow> A1 w = A w"
    and 2: "extended k v (a + 1) ns ws A1 A2"
  shows "extended k v a (n # ns) ws A A2"
proof -
  have "A2 (ws ! j) = map_option (\<lambda>old. old @ (if a \<le> j \<and> j < a + length (n # ns) then new_tokens j k v ((n # ns) ! (j - a)) else [])) (A (ws ! j))"
    if j: "j < length ws" for j
  proof (cases "j = a")
    case True
    have "A2 (ws ! a) = A1 (ws ! a)" using 2 a by (auto simp: extended_def)
    then show ?thesis using True 1 by simp
  next
    case False
    then have "A1 (ws ! j) = A (ws ! j)" using o d a j by (simp add: nth_eq_iff_index_eq)
    moreover have "A2 (ws ! j) = map_option (\<lambda>old. old @ (if a + 1 \<le> j \<and> j < a + 1 + length ns then new_tokens j k v (ns ! (j - (a + 1))) else [])) (A1 (ws ! j))"
      using 2 j by (simp add: extended_def)
    moreover have "(if a + 1 \<le> j \<and> j < a + 1 + length ns then new_tokens j k v (ns ! (j - (a + 1))) else [])
        = (if a \<le> j \<and> j < a + length (n # ns) then new_tokens j k v ((n # ns) ! (j - a)) else [])"
    proof (cases "a < j")
      case True
      then have "j - a = Suc (j - (a + 1))" by simp
      then show ?thesis using True by simp
    qed (use False in simp)
    ultimately show ?thesis by simp
  qed
  moreover have "A2 w = A w" if "w \<notin> set ws" for w
  proof -
    have "w \<noteq> ws ! a" using that a by auto
    then show ?thesis using that 2 o [of w] by (simp add: extended_def)
  qed
  ultimately show ?thesis unfolding extended_def by blast
qed

definition rows_fit :: "'c kv_tensor \<Rightarrow> 'c kv_tensor \<Rightarrow> nat \<Rightarrow> int list \<Rightarrow> 'c paged_kv \<Rightarrow> bool" where
  "rows_fit k v a ns s = (a + length ns = length (execution_owners s) \<and> (\<forall>i < length ns. 0 \<le> ns ! i
     \<and> row_offsets s ! (a + i) + ns ! i \<le> cap s \<and> nat (ns ! i) \<le> length (t_rows k ! (a + i)) \<and> nat (ns ! i) \<le> length (t_rows v ! (a + i))))"

lemma kv_rowed:
  assumes "kv_inv E s" and "r < length (execution_owners s)"
  shows "rowed r (row_offsets s ! r) E s"
proof -
  have r: "rows_ok s" and "cover_ok s" using assms by (simp_all add: kv_inv_def)
  then have "table_ok s \<lparr>blocks = block_tables s ! r, offset = row_offsets s ! r\<rparr>"
    using tables_row [OF r assms(2)] by (simp add: cover_ok_def)
  then show ?thesis using assms by (simp add: rowed_def table_ok_def covered_def)
qed

lemma upto_tokens:
  assumes "0 \<le> x" and "0 \<le> n" and "\<And>i. 0 \<le> i \<Longrightarrow> i < x \<Longrightarrow> f i = g i" and "\<And>j. 0 \<le> j \<Longrightarrow> j < n \<Longrightarrow> f (x + j) = h j"
  shows "map f [0..x + n - 1] = map g [0..x - 1] @ map h [0..n - 1]"
proof (rule nth_equalityI)
  show "length (map f [0..x + n - 1]) = length (map g [0..x - 1] @ map h [0..n - 1])" using assms(1,2) by simp
  fix i assume "i < length (map f [0..x + n - 1])"
  then have i: "int i < x + n" using assms(1,2) by simp
  show "map f [0..x + n - 1] ! i = (map g [0..x - 1] @ map h [0..n - 1]) ! i"
  proof (cases "int i < x")
    case True
    then have "i < nat x" by linarith
    then show ?thesis using assms(3) [of "int i"] True i by (simp add: nth_append)
  next
    case False
    then have "\<not> i < nat x" "int (i - nat x) = int i - x" using assms(1) by auto
    then show ?thesis using assms(4) [of "int i - x"] i assms(1) False by (simp add: nth_append)
  qed
qed

lemma append_rows_ok:
  assumes "kv_inv E s" and "rows_fit k v a ns s" and "append_rows dev k v a ns s = (res, s')"
  shows "\<exists>m E'. m \<le> length ns \<and> (res = Inr () \<longrightarrow> m = length ns) \<and> kv_inv E' s' \<and> (works dev \<or> res = Inr () \<longrightarrow> E' = E)
    \<and> (works dev \<longrightarrow> no_leak s \<longrightarrow> no_leak s') \<and> pin_tokens s' = pin_tokens s \<and> execution_owners s' = execution_owners s
    \<and> extended k v a (take m ns) (execution_owners s) (owner_tokens s) (owner_tokens s')"
  using assms
proof (induction ns arbitrary: a s)
  case Nil
  then show ?case by auto
next
  case (Cons n ns)
  have al: "a < length (execution_owners s)" using Cons.prems(2) by (simp add: rows_fit_def)
  have fit: "0 \<le> n" "row_offsets s ! a + n \<le> cap s" "nat n \<le> length (t_rows k ! a)" "nat n \<le> length (t_rows v ! a)"
    using Cons.prems(2) [unfolded rows_fit_def] by (force dest: spec [of _ 0])+
  have dist: "distinct (execution_owners s)" using Cons.prems(1) by (simp add: kv_inv_def rows_ok_def)
  let ?w = "execution_owners s ! a"
  let ?x = "row_offsets s ! a"
  note w = kv_rowed [OF Cons.prems(1) al]
  note q = rowed_parts [OF w]
  have ot: "owner_tokens s ?w = Some (map (token s (block_tables s ! a)) [0..?x - 1])"
    using q(10) by (simp add: owner_tokens_def table_tokens_def)
  have next_fit: "rows_fit k v (a + 1) ns s1" if "execution_owners s1 = execution_owners s" "cap s1 = cap s"
    "\<And>j. j \<noteq> a \<Longrightarrow> row_offsets s1 ! j = row_offsets s ! j" for s1 :: "'a paged_kv"
  proof -
    have "0 \<le> ns ! i \<and> row_offsets s1 ! (a + 1 + i) + ns ! i \<le> cap s1 \<and> nat (ns ! i) \<le> length (t_rows k ! (a + 1 + i))
        \<and> nat (ns ! i) \<le> length (t_rows v ! (a + 1 + i))" if "i < length ns" for i
      using Cons.prems(2) [unfolded rows_fit_def, THEN conjunct2, rule_format, of "Suc i"] that \<open>\<And>j. j \<noteq> a \<Longrightarrow> row_offsets s1 ! j = row_offsets s ! j\<close> [of "a + 1 + i"]
        \<open>cap s1 = cap s\<close> by simp
    then show ?thesis using Cons.prems(2) that(1) by (simp add: rows_fit_def)
  qed
  have finish: ?case if s1: "kv_inv E s1" "works dev \<longrightarrow> no_leak s \<longrightarrow> no_leak s1" "pin_tokens s1 = pin_tokens s"
      "execution_owners s1 = execution_owners s" "rows_fit k v (a + 1) ns s1"
      "owner_tokens s1 ?w = map_option (\<lambda>old. old @ new_tokens a k v n) (owner_tokens s ?w)"
      "\<And>v. v \<noteq> ?w \<Longrightarrow> owner_tokens s1 v = owner_tokens s v"
      and rec: "append_rows dev k v (a + 1) ns s1 = (res, s')" for s1
  proof -
    from Cons.IH [OF s1(1,5) rec] obtain m E' where m: "m \<le> length ns" "res = Inr () \<longrightarrow> m = length ns" "kv_inv E' s'"
      "works dev \<or> res = Inr () \<longrightarrow> E' = E" "works dev \<longrightarrow> no_leak s1 \<longrightarrow> no_leak s'" "pin_tokens s' = pin_tokens s1"
      "execution_owners s' = execution_owners s1"
      "extended k v (a + 1) (take m ns) (execution_owners s1) (owner_tokens s1) (owner_tokens s')" by blast
    have "extended k v a (n # take m ns) (execution_owners s) (owner_tokens s) (owner_tokens s')"
      by (rule extended_Cons [where ?A1.0 = "owner_tokens s1", OF dist al]) (use m(8) s1(4,6,7) in simp_all)
    then show ?thesis using m s1 by (intro exI [of _ "Suc m"] exI [of _ E']) simp
  qed
  show ?case
  proof (cases "n = 0")
    case True
    then have rec: "append_rows dev k v (a + 1) ns s = (res, s')" using Cons.prems(3) by simp
    show ?thesis by (rule finish [OF Cons.prems(1) _ _ _ next_fit _ _ rec]) (use True in \<open>simp_all add: new_tokens_def\<close>)
  next
    case False
    obtain r1 s1 where e: "append_row dev a k v ?x 0 n s = (r1, s1)" by fastforce
    have x0: "?x + (n - 0) \<le> cap s" using fit by simp
    note st = append_row_step [OF w order.refl fit(1) x0 fit(3,4), of dev, unfolded e]
    have rs: "row_step a ?x s s1" and nl: "works dev \<Longrightarrow> no_leak s \<Longrightarrow> no_leak s1" using st by (auto simp: step_ok_def)
    show ?thesis
    proof (cases r1)
      case (Inl er)
      have r: "res = Inl er" "s' = s1" using Cons.prems(3) False e Inl by auto
      obtain E' where E': "kv_inv E' s1" "works dev \<longrightarrow> E' = E" using st Inl by (auto simp: step_ok_def)
      have "rows_ok s1" using E'(1) by (simp add: kv_inv_def)
      note tk = row_step_tokens [OF w rs this order.refl]
      have eo: "execution_owners s1 = execution_owners s" using rs by (simp add: row_step_def same_frame_def)
      show ?thesis using r E' tk nl eo by (intro exI [of _ 0] exI [of _ E']) simp
    next
      case (Inr u)
      have k1: "kv_inv E s1" and cv: "covered s1 (block_tables s1 ! a) (?x + n)"
        and nt: "\<And>j. 0 \<le> j \<Longrightarrow> j < n \<Longrightarrow> token s1 (block_tables s1 ! a) (?x + j) = row_token a k v j"
        using st Inr by (auto simp: step_ok_def)
      have r1: "rows_ok s1" using k1 by (simp add: kv_inv_def)
      note tk = row_step_tokens [OF w rs r1 order.refl]
      have fr: "execution_owners s1 = execution_owners s" "row_offsets s1 = row_offsets s" "cap s1 = cap s"
        using rs by (simp_all add: row_step_def same_frame_def)
      have w1: "rowed a (?x + n) E s1" using k1 cv fit al q(5) fr by (simp add: rowed_def)
      have xle: "row_offsets s1 ! a \<le> ?x + n" using fit(1) fr by simp
      let ?s2 = "s1\<lparr>row_offsets := (row_offsets s1)[a := ?x + n]\<rparr>"
      note ad = advance_ok [OF w1 xle]
      have rec: "append_rows dev k v (a + 1) ns ?s2 = (res, s')"
        using Cons.prems(3) False e Inr fr by simp
      have ow: "owner_tokens ?s2 ?w = map_option (\<lambda>old. old @ new_tokens a k v n) (owner_tokens s ?w)"
      proof -
        have "map (token s1 (block_tables s1 ! a)) [0..?x + n - 1] = map (token s (block_tables s ! a)) [0..?x - 1] @ new_tokens a k v n"
          unfolding new_tokens_def
          by (rule upto_tokens [OF q(5) fit(1)]) (use rs nt in \<open>simp_all add: row_step_def\<close>)
        then show ?thesis using ad(5) fr ot by simp
      qed
      show ?thesis
        by (rule finish [OF ad(1) _ _ _ next_fit ow _ rec]) (use ad(2-4) tk nl fr in \<open>simp_all\<close>)
    qed
  qed
qed

end
