(* ===== verification/PagedKvWhole.thy ===== *)
theory PagedKvWhole
  imports PagedKvTokens
begin

text \<open>
  The remaining operations of \<open>ironmlx/src/core/cache/paged_kv.rs\<close> against the token view: \<open>append_on\<close> with its
  validation, \<open>restore_offsets\<close>, \<open>grow_cap\<close>, \<open>clear\<close>, and installing a block restored from a prefix.
\<close>

section \<open>Append\<close>

definition wf_tensor :: "'c kv_tensor \<Rightarrow> bool" where
  "wf_tensor t = (length (t_dims t) = 4 \<and> int (length (t_rows t)) = t_dims t ! 0 \<and> (\<forall>row \<in> set (t_rows t). int (length row) = t_dims t ! 2))"

lemma check_lengths_iff: "check_lengths s m xs = Inr () \<longleftrightarrow> (\<forall>(x, n) \<in> set xs. 0 \<le> n \<and> n \<le> m \<and> x + n \<le> cap s)"
proof -
  have "check_lengths s m xs = Inr () \<longleftrightarrow> find (\<lambda>(x, n). n < 0 \<or> n > m \<or> x + n > cap s) xs = None"
    by (simp add: check_lengths_def split: option.split prod.split)
  also have "\<dots> \<longleftrightarrow> (\<forall>(x, n) \<in> set xs. 0 \<le> n \<and> n \<le> m \<and> x + n \<le> cap s)"
    by (auto simp: find_None_iff not_less)
  finally show ?thesis .
qed

lemma validate_update_facts:
  assumes v: "validate_update_inputs k v lens s = Inr ()" and i: "kv_inv E s" and wf: "wf_tensor k" "wf_tensor v"
  shows "rows_fit k v 0 lens s"
proof -
  have r: "rows_ok s" using i by (simp add: kv_inv_def)
  have l: "int (length lens) = batch s" and d: "t_dims k ! 0 = batch s" "t_dims v ! 0 = batch s" "t_dims v ! 2 = t_dims k ! 2"
    and c: "check_lengths s (t_dims k ! 2) (zip (row_offsets s) lens) = Inr ()"
    using v by (auto simp: validate_update_inputs_def split: sum.splits if_splits)
  have len: "length lens = length (execution_owners s)" using l r by (simp add: rows_ok_def)
  have rows: "length (t_rows k) = length lens" "length (t_rows v) = length lens" using wf d l by (simp_all add: wf_tensor_def)
  have "0 \<le> lens ! j \<and> row_offsets s ! (0 + j) + lens ! j \<le> cap s \<and> nat (lens ! j) \<le> length (t_rows k ! (0 + j))
      \<and> nat (lens ! j) \<le> length (t_rows v ! (0 + j))" if j: "j < length lens" for j
  proof -
    have "(row_offsets s ! j, lens ! j) \<in> set (zip (row_offsets s) lens)"
      using j len r by (auto simp: set_zip rows_ok_def)
    then have "0 \<le> lens ! j \<and> lens ! j \<le> t_dims k ! 2 \<and> row_offsets s ! j + lens ! j \<le> cap s"
      using c by (auto simp: check_lengths_iff)
    moreover have "t_rows k ! j \<in> set (t_rows k)" "t_rows v ! j \<in> set (t_rows v)" using j rows by simp_all
    ultimately show ?thesis using wf d(3) by (auto simp: wf_tensor_def)
  qed
  then show ?thesis using len by (simp add: rows_fit_def)
qed

lemma commit_tokens:
  assumes i: "kv_inv E s"
  obtains s' where "commit_execution_rows s = (Inr (), s')" and "kv_inv E s'" and "synced s'" and "tables s' = tables s"
    and "owner_tokens s' = owner_tokens s" and "pin_tokens s' = pin_tokens s" and "execution_owners s' = execution_owners s"
    and "no_leak s' = no_leak s" and "row_offsets s' = row_offsets s" and "same_pool s s'"
    and "next_transient_owner s' = next_transient_owner s" and "block_tables s' = block_tables s" and "batch s' = batch s"
proof -
  obtain s' where c: "commit_execution_rows s = (Inr (), s')" "kv_inv E s'" "tables s' = tables s" "synced s'" "same_pool s s'"
    "execution_owners s' = execution_owners s" "row_offsets s' = row_offsets s" "next_transient_owner s' = next_transient_owner s"
    "block_tables s' = block_tables s" "batch s' = batch s"
    using commit_inv [OF i] by metis
  note sp = same_pool_book [OF c(5)]
  have b: "block_size s' = block_size s" "immutable_pins s' = immutable_pins s" using c(5) by (simp_all add: same_pool_def)
  have "owner_tokens s' w = owner_tokens s w" for w by (rule owner_tokens_same_cells [OF i sp(4) b(1)]) (simp add: c(3))
  moreover have "pin_tokens s' j = pin_tokens s j" for j by (rule pin_tokens_same_cells [OF i sp(4) b(1)]) (simp add: b(2))
  ultimately show thesis using that [OF c(1,2,4,3)] c(5-10) sp(3) by (simp add: fun_eq_iff)
qed

lemma append_ok:
  assumes i: "kv_inv E s" and wf: "wf_tensor k" "wf_tensor v" and e: "append dev k v lens s = (res, s')"
  shows "\<exists>m E'. m \<le> length lens \<and> (res = Inr () \<longrightarrow> m = length lens \<and> synced s' \<and> length lens = length (execution_owners s))
    \<and> kv_inv E' s' \<and> (works dev \<or> res = Inr () \<longrightarrow> E' = E)
    \<and> (works dev \<longrightarrow> no_leak s \<longrightarrow> no_leak s') \<and> pin_tokens s' = pin_tokens s \<and> execution_owners s' = execution_owners s
    \<and> extended k v 0 (take m lens) (execution_owners s) (owner_tokens s) (owner_tokens s')"
proof (cases "validate_update_inputs k v lens s")
  case (Inl er)
  then have "res = Inl er" "s' = s" using e by (simp_all add: append_def)
  then show ?thesis using i by (intro exI [of _ 0] exI [of _ E]) simp
next
  case (Inr u)
  then have v: "validate_update_inputs k v lens s = Inr ()" by simp
  have fit: "rows_fit k v 0 lens s" by (rule validate_update_facts [OF v i wf])
  obtain r1 s1 where a: "append_rows dev k v 0 lens s = (r1, s1)" by fastforce
  from append_rows_ok [OF i fit a] obtain m E' where m: "m \<le> length lens" "r1 = Inr () \<longrightarrow> m = length lens" "kv_inv E' s1"
    "works dev \<or> r1 = Inr () \<longrightarrow> E' = E" "works dev \<longrightarrow> no_leak s \<longrightarrow> no_leak s1" "pin_tokens s1 = pin_tokens s"
    "execution_owners s1 = execution_owners s" "extended k v 0 (take m lens) (execution_owners s) (owner_tokens s) (owner_tokens s1)"
    by blast
  have len: "length lens = length (execution_owners s)" using fit by (simp add: rows_fit_def)
  show ?thesis
  proof (cases r1)
    case (Inl er)
    then have "res = Inl er" "s' = s1" using e v a by (simp_all add: append_def)
    then show ?thesis using m Inl by (intro exI [of _ m] exI [of _ E']) simp
  next
    case ok: (Inr u')
    obtain s2 where c: "commit_execution_rows s1 = (Inr (), s2)" "kv_inv E' s2" "synced s2" "owner_tokens s2 = owner_tokens s1"
      "pin_tokens s2 = pin_tokens s1" "execution_owners s2 = execution_owners s1" "no_leak s2 = no_leak s1"
      using commit_tokens [OF m(3)] by metis
    have "res = Inr ()" "s' = s2" using e v a ok c(1) by (simp_all add: append_def)
    then show ?thesis using m c ok len by (intro exI [of _ m] exI [of _ E']) simp
  qed
qed

section \<open>Rewinding\<close>

definition keep_blocks :: "nat \<Rightarrow> int list \<Rightarrow> int list" where
  "keep_blocks n bl = map (\<lambda>j. if j < n \<or> bl ! j < 0 then bl ! j else - 1) [0..<length bl]"

lemma keep_blocks_length [simp]: "length (keep_blocks n bl) = length bl"
  by (simp add: keep_blocks_def)

lemma keep_blocks_nth [simp]: "j < length bl \<Longrightarrow> keep_blocks n bl ! j = (if j < n \<or> bl ! j < 0 then bl ! j else - 1)"
  by (simp add: keep_blocks_def)

lemma keep_blocks_all: "length bl \<le> n \<Longrightarrow> keep_blocks n bl = bl"
  by (rule nth_equalityI) simp_all

text \<open>What stays true while rows are being rewound: everything but the cover of the old offsets.\<close>

definition rewinding :: "int multiset \<Rightarrow> 'c paged_kv \<Rightarrow> bool" where
  "rewinding E s = (rows_ok s \<and> fresh_ok s \<and> book (tables s) E s \<and> store_ok s)"

definition rewind_frame :: "'c paged_kv \<Rightarrow> 'c paged_kv \<Rightarrow> bool" where
  "rewind_frame s s' = (s' = s\<lparr>page_ref_counts := page_ref_counts s', free_pages := free_pages s', block_tables := block_tables s'\<rparr>)"

definition drop_block :: "nat \<Rightarrow> 'c paged_kv \<Rightarrow> nat \<Rightarrow> 'c paged_kv" where
  "drop_block r s b = (let p = block_tables s ! r ! b in
     if p \<ge> 0 then (release_page_ref p s)\<lparr>block_tables := (block_tables s)[r := (block_tables s ! r)[b := - 1]]\<rparr> else s)"

lemma release_row_fold: "release_row_pages_from r start s = foldl (drop_block r) s (rev [start..<length (block_tables s ! r)])"
  by (simp add: release_row_pages_from_def drop_block_def [abs_def])

lemma rewind_frame_refl [simp]: "rewind_frame s s"
  by (simp add: rewind_frame_def)

lemma rewind_frame_trans:
  assumes "rewind_frame s t" and "rewind_frame t u"
  shows "rewind_frame s u"
proof -
  have "u = t\<lparr>page_ref_counts := page_ref_counts u, free_pages := free_pages u, block_tables := block_tables u\<rparr>"
    using assms by (simp add: rewind_frame_def)
  also have "t = s\<lparr>page_ref_counts := page_ref_counts t, free_pages := free_pages t, block_tables := block_tables t\<rparr>"
    using assms by (simp add: rewind_frame_def)
  finally show ?thesis by (simp add: rewind_frame_def)
qed

lemma drop_block_ok:
  assumes i: "rewinding E s" and r: "r < length (execution_owners s)" and b: "b < length (block_tables s ! r)"
  shows "rewinding E (drop_block r s b)" and "rewind_frame s (drop_block r s b)"
    and "block_tables (drop_block r s b) = (block_tables s)[r := (block_tables s ! r)[b := if block_tables s ! r ! b < 0 then block_tables s ! r ! b else - 1]]"
    and "no_leak s \<Longrightarrow> no_leak (drop_block r s b)"
proof -
  let ?p = "block_tables s ! r ! b"
  let ?s = "drop_block r s b"
  have ro: "rows_ok s" and bk: "book (tables s) E s" and st: "store_ok s" and fo: "fresh_ok s" using i by (simp_all add: rewinding_def)
  have "rewinding E ?s \<and> rewind_frame s ?s
    \<and> block_tables ?s = (block_tables s)[r := (block_tables s ! r)[b := if ?p < 0 then ?p else - 1]] \<and> (no_leak s \<longrightarrow> no_leak ?s)"
  proof (cases "?p < 0")
    case True
    then show ?thesis using i by (simp add: drop_block_def Let_def)
  next
    case False
    let ?bl = "(block_tables s ! r)[b := - 1]"
    let ?u = "release_page_ref ?p s"
    have s': "?s = ?u\<lparr>block_tables := (block_tables s)[r := ?bl]\<rparr>" using False by (simp add: drop_block_def Let_def)
    have cf: "counts_frame s ?u" by (rule release_counts_frame)
    note fl = counts_frame_fields [OF cf]
    note fs = frame_shape [OF fl(1)]
    have g: "block_tables ?u = block_tables s" "execution_owners ?u = execution_owners s" "row_offsets ?u = row_offsets s"
      "max_blocks_per_row ?u = max_blocks_per_row s"
      using fl(1) by (simp_all add: pool_frame_def)
    have w: "?s = write_row r ?bl (row_offsets ?u ! r) ?u" by (simp add: s' write_row_def g)
    have "block_tables s ! r \<in> set (block_tables s)" using ro r by (simp add: rows_ok_def)
    then have len: "length ?bl = nat (max_blocks_per_row ?u)" using ro g by (simp add: rows_ok_def)
    have ru: "rows_ok ?u" using ro by (simp add: fs)
    have r': "rows_ok ?s" unfolding w by (rule write_row_rows_ok [OF ru len])
    let ?t = "\<lparr>blocks = block_tables s ! r, offset = row_offsets s ! r\<rparr>"
    have T: "tables ?s = (tables s)(execution_owners s ! r \<mapsto> ?t\<lparr>blocks := ?bl\<rparr>)"
      unfolding w using write_row_tables [OF ru len, of "r"] r g frame_tables [OF cf] by simp
    have cl: "b < length (blocks ?t)" "0 \<le> blocks ?t ! b" using b False by simp_all
    have b1: "book (tables ?s) (add_mset ?p E) s"
      using book_drop_block [OF bk tables_row [OF ro r] cl] unfolding T by simp
    have p0: "0 \<le> ?p" using False by simp
    have bu: "book (tables ?s) E ?u" by (rule release_page_ref_book [OF b1 p0])
    have sp: "same_pool ?u ?s" by (simp add: s' same_pool_def)
    note spb = same_pool_book [OF sp]
    have pc: "page_ref_count s ?p > 0" using book_count [OF b1 p0] by (simp add: holders_def)
    have lv: "page_ref_count s y > 0" if "page_ref_count ?u y > 0" for y
      using that pc by (auto simp: release_page_ref_count [OF pc] split: if_splits)
    have "store_ok ?u" by (rule counts_frame_store(1) [OF cf st lv])
    moreover have "fresh_ok ?s" using fo fs(2) by (simp add: s' fresh_ok_def)
    ultimately have "rewinding E ?s" using r' bu spb unfolding rewinding_def by simp
    moreover have "rewind_frame s ?s" using cf unfolding s' counts_frame_def rewind_frame_def by simp
    moreover have "no_leak s \<longrightarrow> no_leak ?s" using release_no_leak [OF b1 p0] spb(3) by simp
    ultimately show ?thesis using False by (simp add: s')
  qed
  then show "rewinding E ?s" and "rewind_frame s ?s"
    and "block_tables ?s = (block_tables s)[r := (block_tables s ! r)[b := if ?p < 0 then ?p else - 1]]"
    and "no_leak s \<Longrightarrow> no_leak ?s" by blast+
qed

lemma rewind_frame_fields:
  assumes "rewind_frame s s'"
  shows "execution_owners s' = execution_owners s" and "row_offsets s' = row_offsets s" and "owned_tables s' = owned_tables s"
    and "immutable_pins s' = immutable_pins s" and "k_pages s' = k_pages s" and "v_pages s' = v_pages s"
    and "block_size s' = block_size s" and "cap s' = cap s" and "max_blocks_per_row s' = max_blocks_per_row s" and "batch s' = batch s"
    and "next_transient_owner s' = next_transient_owner s"
  by (subst assms [unfolded rewind_frame_def], simp)+

lemma drop_blocks_ok:
  assumes i: "rewinding E s" and r: "r < length (execution_owners s)" and n: "n \<le> length (block_tables s ! r)"
  defines "s' \<equiv> foldl (drop_block r) s (rev [n..<length (block_tables s ! r)])"
  shows "rewinding E s' \<and> rewind_frame s s' \<and> block_tables s' = (block_tables s)[r := keep_blocks n (block_tables s ! r)]
    \<and> (no_leak s \<longrightarrow> no_leak s')"
  using n unfolding s'_def
proof (induction n rule: inc_induct)
  case base
  then show ?case using i by (simp add: keep_blocks_all)
next
  case (step m)
  let ?bl = "block_tables s ! r"
  let ?s1 = "foldl (drop_block r) s (rev [Suc m..<length ?bl])"
  from step.IH have ih: "rewinding E ?s1" "rewind_frame s ?s1" "block_tables ?s1 = (block_tables s)[r := keep_blocks (Suc m) ?bl]"
    "no_leak s \<longrightarrow> no_leak ?s1" by blast+
  have rl: "r < length (block_tables s)" using i r by (simp add: rewinding_def rows_ok_def)
  have b1: "block_tables ?s1 ! r = keep_blocks (Suc m) ?bl" using ih(3) rl by simp
  have m1: "m < length (block_tables ?s1 ! r)" unfolding b1 using step.hyps by simp
  have r1: "r < length (execution_owners ?s1)" using r rewind_frame_fields(1) [OF ih(2)] by simp
  note d = drop_block_ok [OF ih(1) r1 m1]
  have e: "foldl (drop_block r) s (rev [m..<length ?bl]) = drop_block r ?s1 m" using step.hyps by (simp add: upt_conv_Cons)
  have kb: "(keep_blocks (Suc m) ?bl)[m := if keep_blocks (Suc m) ?bl ! m < 0 then keep_blocks (Suc m) ?bl ! m else - 1] = keep_blocks m ?bl"
    by (rule nth_equalityI) (use step.hyps in \<open>auto simp: nth_list_update\<close>)
  have "block_tables (drop_block r ?s1 m) = (block_tables s)[r := keep_blocks m ?bl]"
    unfolding d(3) b1 kb unfolding ih(3) by simp
  then show ?case unfolding e using d(1,2,4) ih rewind_frame_trans by blast
qed

definition rewound :: "'c paged_kv \<Rightarrow> int list \<Rightarrow> int \<times> int \<Rightarrow> int list" where
  "rewound s bl = (\<lambda>(old, new). if new < old then keep_blocks (nat (ceil_div new (block_size s))) bl else bl)"

definition rewind_row :: "'c paged_kv \<Rightarrow> nat \<times> int \<times> int \<Rightarrow> 'c paged_kv" where
  "rewind_row s = (\<lambda>(row, old, new). if new < old then release_row_pages_from row (nat (ceil_div new (block_size s))) s else s)"

lemma rewind_rows_fold: "rewind_rows ns s = foldl rewind_row s (List.enumerate 0 (zip (row_offsets s) ns))"
  by (simp add: rewind_rows_def rewind_row_def [abs_def])

lemma release_row_ok:
  assumes i: "rewinding E s" and r: "r < length (execution_owners s)"
  shows "rewinding E (release_row_pages_from r n s) \<and> rewind_frame s (release_row_pages_from r n s)
    \<and> block_tables (release_row_pages_from r n s) = (block_tables s)[r := keep_blocks n (block_tables s ! r)]
    \<and> (no_leak s \<longrightarrow> no_leak (release_row_pages_from r n s))"
proof (cases "n \<le> length (block_tables s ! r)")
  case True
  show ?thesis unfolding release_row_fold by (rule drop_blocks_ok [OF i r True])
next
  case False
  then show ?thesis using i unfolding release_row_fold by (simp add: keep_blocks_all)
qed

lemma rewind_loop:
  assumes "rewinding E s" and "a + length xs = length (execution_owners s)"
  defines "s' \<equiv> foldl rewind_row s (List.enumerate a xs)"
  shows "rewinding E s' \<and> rewind_frame s s' \<and> length (block_tables s') = length (block_tables s)
    \<and> (\<forall>j. block_tables s' ! j = (if a \<le> j \<and> j < a + length xs then rewound s (block_tables s ! j) (xs ! (j - a)) else block_tables s ! j))
    \<and> (no_leak s \<longrightarrow> no_leak s')"
  using assms(1,2) unfolding s'_def
proof (induction xs arbitrary: a s)
  case Nil
  then show ?case by auto
next
  case (Cons x xs)
  obtain old new where x: "x = (old, new)" by (cases x)
  have al: "a < length (execution_owners s)" using Cons.prems(2) by simp
  let ?s1 = "rewind_row s (a, x)"
  have st: "rewinding E ?s1 \<and> rewind_frame s ?s1 \<and> block_tables ?s1 = (block_tables s)[a := rewound s (block_tables s ! a) x]
    \<and> (no_leak s \<longrightarrow> no_leak ?s1)"
    using release_row_ok [OF Cons.prems(1) al] Cons.prems(1) by (simp add: rewind_row_def x rewound_def)
  have sz: "Suc a + length xs = length (execution_owners ?s1)" "block_size ?s1 = block_size s"
    using rewind_frame_fields(1,7) [of s ?s1] st Cons.prems(2) by simp_all
  have al2: "a < length (block_tables s)" using Cons.prems(1) al by (simp add: rewinding_def rows_ok_def)
  have ri: "rewinding E ?s1" using st by blast
  note ih = Cons.IH [OF ri sz(1)]
  let ?s2 = "foldl rewind_row ?s1 (List.enumerate (Suc a) xs)"
  have e: "foldl rewind_row s (List.enumerate a (x # xs)) = ?s2" by simp
  have "block_tables ?s2 ! j = (if a \<le> j \<and> j < a + length (x # xs) then rewound s (block_tables s ! j) ((x # xs) ! (j - a)) else block_tables s ! j)" for j
  proof -
    have h: "block_tables ?s2 ! j = (if Suc a \<le> j \<and> j < Suc a + length xs then rewound ?s1 (block_tables ?s1 ! j) (xs ! (j - Suc a)) else block_tables ?s1 ! j)"
      using ih by blast
    have rw: "rewound ?s1 = rewound s" unfolding rewound_def sz(2) ..
    have b1: "block_tables ?s1 ! j = (if j = a then rewound s (block_tables s ! a) x else block_tables s ! j)"
      using st al2 by (auto simp: nth_list_update)
    show ?thesis
    proof (cases "Suc a \<le> j")
      case True
      then have "j - a = Suc (j - Suc a)" by simp
      then show ?thesis using h True b1 rw by simp
    next
      case False
      then show ?thesis using h b1 by (cases "j = a") simp_all
    qed
  qed
  moreover have "length (block_tables ?s2) = length (block_tables s)" using ih st by simp
  moreover have "rewind_frame s ?s2" using ih st rewind_frame_trans by blast
  ultimately show ?case unfolding e using ih st by blast
qed

lemma check_row_blocks_iff:
  "check_row_blocks s ps = Inr () \<longleftrightarrow> (\<forall>p \<in> set ps. 0 \<le> p \<and> p < allocated_pages s \<and> page_ref_count s p > 0)"
  by (induction ps) auto

lemma check_rows_iff:
  "check_rows s rs = Inr () \<longleftrightarrow> (\<forall>(row, x) \<in> set rs. ceil_div x (block_size s) \<le> max_blocks_per_row s
     \<and> (\<forall>p \<in> set (take (nat (ceil_div x (block_size s))) row). 0 \<le> p \<and> p < allocated_pages s \<and> page_ref_count s p > 0))"
proof (induction rs)
  case (Cons a rs)
  obtain row x where a: "a = (row, x)" by (cases a)
  show ?case
  proof (cases "check_row_blocks s (take (nat (ceil_div x (block_size s))) row)")
    case (Inl e)
    then have "\<not> (\<forall>p \<in> set (take (nat (ceil_div x (block_size s))) row). 0 \<le> p \<and> p < allocated_pages s \<and> page_ref_count s p > 0)"
      using check_row_blocks_iff [of s "take (nat (ceil_div x (block_size s))) row"] by auto
    then show ?thesis using Inl by (auto simp: a Let_def)
  next
    case (Inr u)
    then have "\<forall>p \<in> set (take (nat (ceil_div x (block_size s))) row). 0 \<le> p \<and> p < allocated_pages s \<and> page_ref_count s p > 0"
      using check_row_blocks_iff [of s "take (nat (ceil_div x (block_size s))) row"] by simp
    then show ?thesis using Inr Cons by (auto simp: a Let_def)
  qed
qed simp

lemma validate_offsets_iff:
  "validate_offsets_allocated s offs = Inr () \<longleftrightarrow>
     int (length offs) = batch s \<and> (\<forall>x \<in> set offs. 0 \<le> x \<and> x \<le> cap s) \<and> check_rows s (zip (block_tables s) offs) = Inr ()"
proof -
  have "list_ex (\<lambda>x. x < 0 \<or> x > cap s) offs = (\<not> (\<forall>x \<in> set offs. 0 \<le> x \<and> x \<le> cap s))"
    by (induction offs) auto
  then show ?thesis by (simp add: validate_offsets_allocated_def validate_offsets_shape_and_cap_def)
qed

lemma rows_tables_cong:
  assumes ok: "rows_ok s" "rows_ok s'" and e: "execution_owners s' = execution_owners s" and al: "owned_tables s' = owned_tables s"
    and w: "w \<notin> set (execution_owners s)"
  shows "tables s' w = tables s w"
  using tables_unbound [OF w] tables_unbound [of w s'] w e al by simp

lemma restore_offsets_ok:
  assumes i: "kv_inv E s" and f: "restore_offsets ns s = (res, s')"
  obtains (rejected) e where "res = Inl e" and "s' = s"
  | (restored) "res = Inr ()" and "kv_inv E s'" and "synced s'" and "no_leak s \<Longrightarrow> no_leak s'" and "length ns = length (execution_owners s)"
      and "execution_owners s' = execution_owners s" and "pin_tokens s' = pin_tokens s"
      and "\<And>w. w \<notin> set (execution_owners s) \<Longrightarrow> owner_tokens s' w = owner_tokens s w"
      and "\<And>j. j < length ns \<Longrightarrow> owner_tokens s' (execution_owners s ! j) = Some (map (token s (block_tables s ! j)) [0..ns ! j - 1])"
proof (cases "validate_offsets_allocated s ns")
  case (Inl e)
  show thesis
  proof (cases "validate_offsets_shape_and_cap s ns")
    case (Inl e')
    then have "res = Inl e'" "s' = s" using f by (simp_all add: restore_offsets_def)
    then show thesis by (rule rejected)
  next
    case (Inr u)
    then have "res = Inl e" "s' = s" using f \<open>validate_offsets_allocated s ns = Inl e\<close> by (simp_all add: restore_offsets_def)
    then show thesis by (rule rejected)
  qed
next
  case v: (Inr u)
  then have va: "validate_offsets_allocated s ns = Inr ()" by simp
  then have l: "int (length ns) = batch s" and rng: "\<forall>x \<in> set ns. 0 \<le> x \<and> x \<le> cap s"
    and chk: "check_rows s (zip (block_tables s) ns) = Inr ()" by (simp_all add: validate_offsets_iff)
  have sh: "validate_offsets_shape_and_cap s ns = Inr ()"
    using va by (auto simp: validate_offsets_allocated_def split: sum.splits)
  have r: "rows_ok s" and b0: "0 < block_size s" and cv: "cover_ok s" and bk: "book (tables s) E s"
    using i by (simp_all add: kv_inv_def store_ok_def)
  have len: "length ns = length (execution_owners s)" "length (block_tables s) = length (execution_owners s)"
    "length (row_offsets s) = length (execution_owners s)" using l r by (simp_all add: rows_ok_def)
  let ?xs = "zip (row_offsets s) ns"
  let ?s1 = "rewind_rows ns s"
  have rw: "rewinding E s" using i by (simp add: kv_inv_def rewinding_def)
  have lx: "0 + length ?xs = length (execution_owners s)" using len by simp
  from rewind_loop [OF rw lx] have s1: "rewinding E ?s1" "rewind_frame s ?s1" "length (block_tables ?s1) = length (block_tables s)"
    "\<And>j. j < length ns \<Longrightarrow> block_tables ?s1 ! j = rewound s (block_tables s ! j) (row_offsets s ! j, ns ! j)"
    "no_leak s \<Longrightarrow> no_leak ?s1"
    unfolding rewind_rows_fold using len by auto
  note fr = rewind_frame_fields [OF s1(2)]
  let ?s2 = "?s1\<lparr>row_offsets := ns\<rparr>"
  have r1: "rows_ok ?s1" and b1: "book (tables ?s1) E ?s1" and st1: "store_ok ?s1" and f1: "fresh_ok ?s1"
    using s1(1) by (simp_all add: rewinding_def)
  have r2: "rows_ok ?s2" using r1 len fr(1) by (simp add: rows_ok_def)
  have sp: "same_pool ?s1 ?s2" by (simp add: same_pool_def)
  note spb = same_pool_book [OF sp]
  have t2: "tables ?s2 (execution_owners s ! j) = Some \<lparr>blocks = block_tables ?s1 ! j, offset = ns ! j\<rparr>"
    and t1: "tables ?s1 (execution_owners s ! j) = Some \<lparr>blocks = block_tables ?s1 ! j, offset = row_offsets s ! j\<rparr>"
    if "j < length ns" for j
    using tables_row [OF r2, of j] tables_row [OF r1, of j] that len fr by simp_all
  have tu: "tables ?s2 w = tables s w" "tables ?s1 w = tables s w" if "w \<notin> set (execution_owners s)" for w
    by (rule rows_tables_cong [OF r]; use r1 r2 fr that in simp)+
  have rowcase: "\<exists>j < length ns. w = execution_owners s ! j" if "w \<in> set (execution_owners s)" for w
    using that len by (metis in_set_conv_nth)
  have b2: "book (tables ?s2) E ?s1"
  proof (rule book_retable [OF b1])
    have dm: "dom (tables ?s2) = dom (tables ?s1)" using tables_dom [OF r2] tables_dom [OF r1] by simp
    show "finite (dom (tables ?s2))" by (rule tables_finite [OF r2])
    have same: "blocks t' = blocks t" if "tables ?s1 w = Some t" "tables ?s2 w = Some t'" for w t t'
    proof (cases "w \<in> set (execution_owners s)")
      case True
      then obtain j where j: "j < length ns" "w = execution_owners s ! j" using rowcase by blast
      then show ?thesis using t1 [OF j(1)] t2 [OF j(1)] that by auto
    next
      case False
      then show ?thesis using tu that by simp
    qed
    have "table_refs (tables ?s2) p = table_refs (tables ?s1) p" for p by (rule table_refs_blocks [OF dm same])
    then show "table_refs (tables ?s2) p + count E p = table_refs (tables ?s1) p + count E p" for p by simp
  qed
  have bl: "block_tables ?s1 ! j ! n = block_tables s ! j ! n \<and> 0 \<le> block_tables s ! j ! n"
    if j: "j < length ns" and n: "n < length (block_tables s ! j)" "int n * block_size s < ns ! j" for j n
  proof -
    have nj: "0 \<le> ns ! j" using rng j by (simp add: nth_mem)
    have c: "int n < ceil_div (ns ! j) (block_size s)" using less_ceil_div_iff [OF b0 nj] n(2) by simp
    have "(block_tables s ! j, ns ! j) \<in> set (zip (block_tables s) ns)" using j len by (auto simp: set_zip)
    then have "\<forall>p \<in> set (take (nat (ceil_div (ns ! j) (block_size s))) (block_tables s ! j)). 0 \<le> p"
      using chk check_rows_iff by blast
    moreover have "n < nat (ceil_div (ns ! j) (block_size s))" using c by simp
    then have "block_tables s ! j ! n \<in> set (take (nat (ceil_div (ns ! j) (block_size s))) (block_tables s ! j))"
      using n(1) by (metis length_take min_less_iff_conj nth_mem nth_take)
    ultimately show ?thesis using s1(4) [OF j] n(1) \<open>n < nat _\<close> by (simp add: rewound_def)
  qed
  have rl: "length (block_tables ?s1 ! j) = length (block_tables s ! j)" if "j < length ns" for j
    using s1(4) [OF that] by (simp add: rewound_def)
  have mx: "length (block_tables s ! j) = nat (max_blocks_per_row s)" if "j < length ns" for j
    using tables_length [OF r tables_row [OF r, of j]] that len by simp
  have "cover_ok ?s2"
  proof -
    have "table_ok s t" if "tables ?s2 w = Some t" for w t
    proof (cases "w \<in> set (execution_owners s)")
      case True
      then obtain j where j: "j < length ns" "w = execution_owners s ! j" using rowcase by blast
      have t: "t = \<lparr>blocks = block_tables ?s1 ! j, offset = ns ! j\<rparr>" using t2 [OF j(1)] j(2) that by simp
      have "ns ! j \<in> set ns" using j by simp
      then show ?thesis using rng bl [OF j(1)] rl [OF j(1)] mx [OF j(1)] unfolding t table_ok_def by simp
    next
      case False
      then show ?thesis using that tu cv by (simp add: cover_ok_def)
    qed
    then show ?thesis using fr by (simp add: cover_ok_def table_ok_def)
  qed
  then have k2: "kv_inv E ?s2" using r2 b2 st1 f1 spb unfolding kv_inv_def by (simp add: fresh_ok_def)
  obtain s3 where c: "commit_execution_rows ?s2 = (Inr (), s3)" "kv_inv E s3" "synced s3" "owner_tokens s3 = owner_tokens ?s2"
    "pin_tokens s3 = pin_tokens ?s2" "execution_owners s3 = execution_owners ?s2" "no_leak s3 = no_leak ?s2"
    using commit_tokens [OF k2] by metis
  have res: "res = Inr ()" "s' = s3" using f sh va c(1) by (simp_all add: restore_offsets_def)
  have ca: "cell_at ?s2 = cell_at s" by (intro ext) (simp add: cell_at_def fr)
  have tk: "token ?s2 = token s" by (intro ext) (simp add: token_def ca fr)
  show thesis
  proof (rule restored [OF res(1)])
    show "kv_inv E s'" "synced s'" using c res by simp_all
    show "no_leak s'" if "no_leak s" using s1(5) [OF that] spb(3) c(7) res by simp
    show "length ns = length (execution_owners s)" by (rule len)
    show "execution_owners s' = execution_owners s" using c(6) res fr by simp
    show "pin_tokens s' = pin_tokens s" using c(5) res by (intro ext) (simp add: pin_tokens_def ca fr)
    show "owner_tokens s' w = owner_tokens s w" if "w \<notin> set (execution_owners s)" for w
    proof -
      have "table_tokens ?s2 = table_tokens s" by (intro ext) (simp add: table_tokens_def tk)
      then show ?thesis using c(4) res tu(1) [OF that] by (simp add: owner_tokens_def)
    qed
    show "owner_tokens s' (execution_owners s ! j) = Some (map (token s (block_tables s ! j)) [0..ns ! j - 1])" if j: "j < length ns" for j
    proof -
      have "token s (block_tables ?s1 ! j) x = token s (block_tables s ! j) x" if x: "0 \<le> x" "x < ns ! j" for x
      proof -
        have "ns ! j \<in> set ns" using j by simp
        then have "ns ! j \<le> max_blocks_per_row s * block_size s" using rng r by (force simp: rows_ok_def)
        then have "x div block_size s < max_blocks_per_row s" using int_div_less [OF b0, of x] x by simp
        moreover have d0: "0 \<le> x div block_size s" using b0 x by (simp add: pos_imp_zdiv_nonneg_iff)
        ultimately have a: "nat (x div block_size s) < length (block_tables s ! j)" using mx [OF j] by simp
        have "x div block_size s * block_size s = x - x mod block_size s" by (rule minus_mod_eq_div_mult [symmetric])
        moreover have "0 \<le> x mod block_size s" using b0 by simp
        ultimately have "int (nat (x div block_size s)) * block_size s < ns ! j" using x d0 by simp
        then show ?thesis using bl [OF j a] by (simp add: token_def)
      qed
      then show ?thesis using c(4) res t2 [OF j] by (simp add: owner_tokens_def table_tokens_def tk)
    qed
  qed
qed

end
