(* ===== verification/PagedKvReset.thy ===== *)
theory PagedKvReset
  imports PagedKvWhole
begin

text \<open>
  Growing and clearing the cache of \<open>ironmlx/src/core/cache/paged_kv.rs\<close>, \<open>KVCache::reset\<close>
  (\<open>ironmlx/src/core/cache/kv_cache.rs\<close>), and installing a block restored from a stored prefix.
\<close>

section \<open>Growing the capacity\<close>

definition widen :: "nat \<Rightarrow> owned_table \<Rightarrow> owned_table" where
  "widen n t = t\<lparr>blocks := resize (blocks t) n (- 1)\<rparr>"

lemma count_resize: "length xs \<le> n \<Longrightarrow> 0 \<le> (p :: int) \<Longrightarrow> count_list (resize xs n (- 1)) p = count_list xs p"
proof -
  assume "length xs \<le> n" "0 \<le> p"
  moreover have "count_list (replicate k (- 1)) p = 0" for k using \<open>0 \<le> p\<close> by (auto simp: count_list_0_iff)
  ultimately show ?thesis by (auto simp: resize_def)
qed

lemma map_of_map_value: "map_of (map (\<lambda>(w, t). (w, f t)) al) w = map_option f (map_of al w)"
  by (induction al) auto

lemma grow_cap_ok:
  fixes c :: int
  assumes i: "kv_inv E s"
  defines "s' \<equiv> grow_cap c s"
  shows "kv_inv E s'" and "owner_tokens s' = owner_tokens s" and "pin_tokens s' = pin_tokens s" and "no_leak s' = no_leak s"
    and "cap s' = max c (cap s)" and "execution_owners s' = execution_owners s" and "next_transient_owner s' = next_transient_owner s"
proof -
  have r: "rows_ok s" and fo: "fresh_ok s" and b: "book (tables s) E s" and st: "store_ok s" and cv: "cover_ok s"
    using i by (simp_all add: kv_inv_def)
  have b0: "0 < block_size s" using st by (simp add: store_ok_def)
  have "kv_inv E s' \<and> owner_tokens s' = owner_tokens s \<and> pin_tokens s' = pin_tokens s \<and> no_leak s' = no_leak s
    \<and> cap s' = max c (cap s) \<and> execution_owners s' = execution_owners s \<and> next_transient_owner s' = next_transient_owner s"
  proof (cases "c \<le> cap s")
    case True
    then show ?thesis using i by (simp add: s'_def grow_cap_def)
  next
    case False
    let ?n = "max (ceil_div c (block_size s)) 1"
    let ?N = "max ?n (max_blocks_per_row s)"
    have c0: "0 \<le> c" using False r by (simp add: rows_ok_def)
    have fit: "c \<le> ?N * block_size s"
    proof -
      have "c \<le> ceil_div c (block_size s) * block_size s" using ceil_div_le_iff [OF b0 c0, of "ceil_div c (block_size s)"] by simp
      also have "\<dots> \<le> ?N * block_size s" using b0 by (intro mult_right_mono) auto
      finally show ?thesis .
    qed
    have row_len: "length row = nat (max_blocks_per_row s)" if "row \<in> set (block_tables s)" for row
      using r that by (auto simp: rows_ok_def)
    have tab_len: "length (blocks t) = nat (max_blocks_per_row s)" if "(w, t) \<in> set (owned_tables s)" for w t
      using r that by (auto simp: rows_ok_def)
    have same_row: "resize row (nat ?N) (- 1) = row" if "?n \<le> max_blocks_per_row s" "length row = nat (max_blocks_per_row s)" for row :: "int list"
    proof -
      have "?N = max_blocks_per_row s" using that(1) by (rule max_absorb2)
      then show ?thesis using that(2) by (simp add: resize_def)
    qed
    have s': "s' = s\<lparr>cap := c, block_tables := map (\<lambda>row. resize row (nat ?N) (- 1)) (block_tables s),
        owned_tables := map (\<lambda>(w, t). (w, widen (nat ?N) t)) (owned_tables s), max_blocks_per_row := ?N\<rparr>"
    proof (cases "?n > max_blocks_per_row s")
      case True
      then have "?N = ?n" by simp
      then show ?thesis using True False by (simp add: s'_def grow_cap_def Let_def widen_def)
    next
      case False
      then have n: "?n \<le> max_blocks_per_row s" by (simp only: not_less)
      have "map (\<lambda>row. resize row (nat ?N) (- 1)) (block_tables s) = block_tables s"
        by (rule map_idI) (rule same_row [OF n row_len])
      moreover have "map (\<lambda>(w, t). (w, widen (nat ?N) t)) (owned_tables s) = owned_tables s"
      proof (rule map_idI)
        fix x assume "x \<in> set (owned_tables s)"
        then have "resize (blocks (snd x)) (nat ?N) (- 1) = blocks (snd x)"
          by (intro same_row [OF n] tab_len [of "fst x"]) simp
        then show "(case x of (w, t) \<Rightarrow> (w, widen (nat ?N) t)) = x" by (simp add: case_prod_beta widen_def)
      qed
      moreover have "?N = max_blocks_per_row s" using n by (rule max_absorb2)
      ultimately show ?thesis using \<open>\<not> c \<le> cap s\<close> False by (simp add: s'_def grow_cap_def Let_def)
    qed
    have f: "max_blocks_per_row s' = ?N" "execution_owners s' = execution_owners s" "row_offsets s' = row_offsets s"
      "immutable_pins s' = immutable_pins s" "cap s' = c" "block_size s' = block_size s" "k_pages s' = k_pages s" "v_pages s' = v_pages s"
      "page_ref_counts s' = page_ref_counts s" "page_generations s' = page_generations s" "allocated_pages s' = allocated_pages s"
      "free_pages s' = free_pages s" "max_pages s' = max_pages s" "page_capacity s' = page_capacity s" "page_grow_step s' = page_grow_step s"
      "next_transient_owner s' = next_transient_owner s" "batch s' = batch s"
      by (simp_all add: s')
    have bt: "block_tables s' = map (\<lambda>row. resize row (nat ?N) (- 1)) (block_tables s)"
      and ot: "owned_tables s' = map (\<lambda>(w, t). (w, widen (nat ?N) t)) (owned_tables s)" by (simp_all add: s')
    have keys: "map fst (owned_tables s') = map fst (owned_tables s)" by (simp add: ot case_prod_beta)
    then have keyset: "fst ` set (owned_tables s') = fst ` set (owned_tables s)" by (metis list.set_map)
    have r': "rows_ok s'"
    proof -
      have "\<not> is_immutable w \<and> length (blocks t) = nat ?N" if "(w, t) \<in> set (owned_tables s')" for w t
        using that r unfolding ot by (auto simp: widen_def rows_ok_def)
      moreover have "length row = nat ?N" if "row \<in> set (block_tables s')" for row using that unfolding bt by auto
      moreover have "0 < ?N" by simp
      moreover have "length (block_tables s') = length (block_tables s)" by (simp add: bt)
      ultimately show ?thesis using r fit c0 unfolding rows_ok_def f keys keyset by auto
    qed
    have T: "tables s' = (\<lambda>w. map_option (widen (nat ?N)) (tables s w))"
    proof (rule tables_eqI [OF r r' f(2)])
      show "map_of (owned_tables s') w = map_option (widen (nat ?N)) (tables s w)" if "w \<notin> set (execution_owners s)" for w
        unfolding ot map_of_map_value tables_unbound [OF that] ..
      show "map_option (widen (nat ?N)) (tables s (execution_owners s ! row)) = Some \<lparr>blocks = block_tables s' ! row, offset = row_offsets s' ! row\<rparr>"
        if "row < length (execution_owners s)" for row
        using tables_row [OF r that] that r f(3) by (simp add: bt widen_def rows_ok_def)
    qed
    have le: "length (blocks t) \<le> nat ?N" if "tables s w = Some t" for w t using tables_length [OF r that] by simp
    have rc: "page_ref_count s' p = page_ref_count s p" "page_generation s' p = page_generation s p" for p
      by (rule page_ref_count_cong page_generation_cong, simp add: f)+
    have b1: "book (tables s') E s"
    proof (rule book_retable [OF b])
      show fin: "finite (dom (tables s'))" by (rule tables_finite [OF r'])
      have "table_refs (tables s') p = table_refs (tables s) p" if "0 \<le> p" for p
      proof (rule table_refs_eqI [OF book_finite [OF b] fin])
        show "(case tables s' w of None \<Rightarrow> 0 | Some t \<Rightarrow> count_list (blocks t) p) = (case tables s w of None \<Rightarrow> 0 | Some t \<Rightarrow> count_list (blocks t) p)" for w
          using le [of w] count_resize [OF _ that] by (simp add: T widen_def split: option.split)
      qed
      then show "table_refs (tables s') p + count E p = table_refs (tables s) p + count E p" if "0 \<le> p" for p using that by simp
    qed
    have pk: "pin_ok s' h" if "pin_ok s h" for h using that by (auto simp: pin_ok_def rc f)
    have "\<forall>(k, h) \<in> set (immutable_pins s). pin_ok s' h" using book_pin [OF b] pk by auto
    then have b2: "book (tables s') E s'" using b1 unfolding book_def rc f by blast
    have sd: "store_dims s' x = store_dims s x" for x by (simp add: store_dims_def f split: option.split)
    have st': "store_ok s'" using st unfolding store_ok_def sd rc f .
    have cv': "cover_ok s'"
    proof -
      have "table_ok s' (widen (nat ?N) t)" if t: "tables s w = Some t" for w t
      proof -
        have tk: "table_ok s t" using cv t by (simp add: cover_ok_def)
        have "0 \<le> resize (blocks t) (nat ?N) (- 1) ! j" if j: "int j * block_size s < offset t" "j < nat ?N" for j
        proof -
          have "offset t \<le> max_blocks_per_row s * block_size s" using tk r by (auto simp: table_ok_def rows_ok_def)
          then have "int j * block_size s < max_blocks_per_row s * block_size s" using j by simp
          then have "int j < max_blocks_per_row s" using b0 by (simp only: mult_less_cancel_right_pos)
          then have "j < length (blocks t)" using tables_length [OF r t] by simp
          then show ?thesis using tk j by (simp add: nth_resize table_ok_def)
        qed
        then show ?thesis using tk False by (simp add: table_ok_def widen_def f)
      qed
      then show ?thesis unfolding cover_ok_def T by auto
    qed
    have fo': "fresh_ok s'" using fo unfolding fresh_ok_def keyset f .
    have k': "kv_inv E s'" using r' fo' b2 st' cv' by (simp add: kv_inv_def)
    have ca: "cell_at s' = cell_at s" by (intro ext) (simp add: cell_at_def f)
    have "owner_tokens s' w = owner_tokens s w" for w
    proof (cases "tables s w")
      case (Some t)
      have "token s' (resize (blocks t) (nat ?N) (- 1)) x = token s (blocks t) x" if x: "0 \<le> x" "x < offset t" for x
      proof -
        have "offset t \<le> max_blocks_per_row s * block_size s" using cv Some r by (fastforce simp: cover_ok_def table_ok_def rows_ok_def)
        then have "x div block_size s < max_blocks_per_row s" using int_div_less [OF b0, of x] x by simp
        moreover have "0 \<le> x div block_size s" using b0 x by (simp add: pos_imp_zdiv_nonneg_iff)
        ultimately have a: "nat (x div block_size s) < length (blocks t)" using tables_length [OF r Some] by simp
        then have "nat (x div block_size s) < nat ?N" using le [OF Some] by (rule less_le_trans)
        then show ?thesis using a by (simp only: token_def ca f nth_resize if_True)
      qed
      then show ?thesis using Some by (simp add: owner_tokens_def T table_tokens_def widen_def)
    qed (simp add: owner_tokens_def T)
    moreover have "pin_tokens s' = pin_tokens s" by (intro ext) (simp add: pin_tokens_def ca f)
    moreover have "no_leak s' = no_leak s" by (rule no_leak_cong) (simp_all add: f)
    ultimately show ?thesis using k' False f by auto
  qed
  then show "kv_inv E s'" and "owner_tokens s' = owner_tokens s" and "pin_tokens s' = pin_tokens s" and "no_leak s' = no_leak s"
    and "cap s' = max c (cap s)" and "execution_owners s' = execution_owners s" and "next_transient_owner s' = next_transient_owner s" by blast+
qed

section \<open>Clearing\<close>

text \<open>\<open>KVCache::reset\<close>: zero the offsets, clear the pages.\<close>

definition kv_reset :: "'c paged_kv \<Rightarrow> 'c paged_kv" where
  "kv_reset s = clear_cache (s\<lparr>row_offsets := map (\<lambda>_. 0) (row_offsets s)\<rparr>)"

definition blank :: "owned_table \<Rightarrow> owned_table" where
  "blank t = \<lparr>blocks = replicate (length (blocks t)) (- 1), offset = 0\<rparr>"

lemma reset_ok:
  assumes i: "kv_inv E s"
  shows "kv_inv {#} (kv_reset s)" and "no_leak (kv_reset s)" and "synced (kv_reset s)"
    and "owner_tokens (kv_reset s) w = map_option (\<lambda>_. []) (owner_tokens s w)" and "pin_tokens (kv_reset s) k = None"
    and "execution_owners (kv_reset s) = execution_owners s" and "next_transient_owner (kv_reset s) = next_transient_owner s"
    and "allocated_pages (kv_reset s) = 0"
proof -
  let ?s = "kv_reset s"
  have r: "rows_ok s" and fo: "fresh_ok s" and st: "store_ok s" and mx: "0 \<le> max_pages s"
    using i by (auto simp: kv_inv_def store_ok_def)
  have ot: "owned_tables ?s = map (\<lambda>(w, t). (w, blank t)) (owned_tables s)" by (simp add: kv_reset_def clear_cache_def blank_def)
  have bt: "block_tables ?s = map (\<lambda>row. replicate (length row) (- 1)) (block_tables s)" and ro: "row_offsets ?s = map (\<lambda>_. 0) (row_offsets s)"
    and eo: "execution_owners ?s = execution_owners s" by (simp_all add: kv_reset_def clear_cache_def)
  have f: "max_blocks_per_row ?s = max_blocks_per_row s" "block_size ?s = block_size s" "cap ?s = cap s" "batch ?s = batch s"
    "page_capacity ?s = page_capacity s" "max_pages ?s = max_pages s" "page_grow_step ?s = page_grow_step s" "allocated_pages ?s = 0"
    "free_pages ?s = []" "immutable_pins ?s = []" "k_pages ?s = k_pages s" "v_pages ?s = v_pages s" "next_transient_owner ?s = next_transient_owner s"
    by (simp_all add: kv_reset_def clear_cache_def)
  have rc: "page_ref_count ?s p = 0" for p by (simp add: page_ref_count_def kv_reset_def clear_cache_def)
  have keys: "map fst (owned_tables ?s) = map fst (owned_tables s)" by (simp add: ot case_prod_beta)
  then have keyset: "fst ` set (owned_tables ?s) = fst ` set (owned_tables s)" by (metis list.set_map)
  have r': "rows_ok ?s"
  proof -
    have "\<not> is_immutable w \<and> length (blocks t) = nat (max_blocks_per_row s)" if "(w, t) \<in> set (owned_tables ?s)" for w t
      using that r unfolding ot by (auto simp: blank_def rows_ok_def)
    moreover have "length row = nat (max_blocks_per_row s)" if "row \<in> set (block_tables ?s)" for row
      using that r unfolding bt by (auto simp: rows_ok_def)
    moreover have "length (block_tables ?s) = length (block_tables s)" "length (row_offsets ?s) = length (row_offsets s)" by (simp_all add: bt ro)
    ultimately show ?thesis using r unfolding rows_ok_def f eo keys keyset by auto
  qed
  have T: "tables ?s = (\<lambda>w. map_option blank (tables s w))"
  proof (rule tables_eqI [OF r r' eo])
    show "map_of (owned_tables ?s) w = map_option blank (tables s w)" if "w \<notin> set (execution_owners s)" for w
      unfolding ot map_of_map_value tables_unbound [OF that] ..
    show "map_option blank (tables s (execution_owners s ! row)) = Some \<lparr>blocks = block_tables ?s ! row, offset = row_offsets ?s ! row\<rparr>"
      if "row < length (execution_owners s)" for row
      using tables_row [OF r that] that r by (simp add: bt ro blank_def rows_ok_def)
  qed
  have fin: "finite (dom (tables ?s))" by (rule tables_finite [OF r'])
  have z: "count_list (blocks (blank t)) p = 0" if "0 \<le> p" for t p using that by (simp add: blank_def count_list_0_iff)
  have tr: "table_refs (tables ?s) p = 0" if "0 \<le> p" for p
    unfolding table_refs_def by (rule sum.neutral) (use z [OF that] in \<open>auto simp: T\<close>)
  have b: "book (tables ?s) {#} ?s"
    using fin tr mx st unfolding book_def by (simp add: rc f holders_def pin_refs_def store_ok_def)
  have sd: "store_dims ?s x = store_dims s x" for x by (simp add: store_dims_def f split: option.split)
  have st': "store_ok ?s" using st unfolding store_ok_def sd rc f by simp
  have cv: "cover_ok ?s"
  proof -
    have b0: "0 < block_size s" using st by (simp add: store_ok_def)
    have "table_ok ?s (blank t)" if "tables s w = Some t" for w t
    proof -
      have "\<not> int j * block_size s < 0" for j using b0 by (simp add: mult_less_0_iff)
      then show ?thesis using tables_length [OF r that] r by (simp add: table_ok_def blank_def f rows_ok_def)
    qed
    then show ?thesis unfolding cover_ok_def T by auto
  qed
  have "fresh_ok ?s" using fo unfolding fresh_ok_def keyset f .
  then show "kv_inv {#} ?s" using r' b st' cv by (simp add: kv_inv_def)
  show "no_leak ?s" by (simp add: no_leak_def f)
  show "synced ?s"
  proof -
    have "map_of (owned_tables ?s) w = map_option blank (tables s w)" for w
    proof (cases "w \<in> set (execution_owners s)")
      case True
      then obtain row where row: "row < length (execution_owners s)" "execution_owners s ! row = w" by (rule row_of)
      have "w \<in> fst ` set (owned_tables s)" using True r by (auto simp: rows_ok_def)
      then obtain t where t: "map_of (owned_tables s) w = Some t" by (metis dom_map_of_conv_image_fst domD)
      have "length (blocks t) = nat (max_blocks_per_row s)" using map_of_SomeD [OF t] r by (auto simp: rows_ok_def)
      moreover obtain t' where t': "tables s w = Some t'" using tables_row [OF r row(1)] row(2) by simp
      ultimately show ?thesis using t tables_length [OF r t'] unfolding ot map_of_map_value by (simp add: blank_def)
    next
      case False
      then show ?thesis by (simp only: ot map_of_map_value tables_unbound [OF False])
    qed
    then show ?thesis by (simp add: synced_def T fun_eq_iff)
  qed
  show "owner_tokens ?s w = map_option (\<lambda>_. []) (owner_tokens s w)"
    by (simp add: owner_tokens_def T option.map_comp table_tokens_def blank_def o_def)
  show "pin_tokens ?s k = None" by (simp add: pin_tokens_def f)
  show "execution_owners ?s = execution_owners s" "next_transient_owner ?s = next_transient_owner s" "allocated_pages ?s = 0" by (simp_all add: f eo)
qed

end
