(* ===== verification/PagedKvRestore.thy ===== *)
theory PagedKvRestore
  imports PagedKvReset
begin

text \<open>
  \<open>install_immutable_block_from_prefix_on\<close> of \<open>ironmlx/src/core/cache/paged_kv.rs\<close>: a block of a stored prefix gets a
  page of its own and a pin; a failed copy gives the page back.
\<close>

definition page_kept :: "'c paged_kv \<Rightarrow> 'c paged_kv \<Rightarrow> bool" where
  "page_kept s s' = (pool_frame s s' \<and> same_cells s s')"

lemma page_kept_tokens:
  assumes i: "kv_inv E s" and p: "page_kept s s'"
  shows "owner_tokens s' = owner_tokens s" and "pin_tokens s' = pin_tokens s" and "tables s' = tables s"
proof -
  have f: "pool_frame s s'" and c: "same_cells s s'" using p by (simp_all add: page_kept_def)
  have b: "block_size s' = block_size s" "immutable_pins s' = immutable_pins s" using f by (simp_all add: pool_frame_def)
  show t: "tables s' = tables s" by (rule pool_frame_tables [OF f])
  show "owner_tokens s' = owner_tokens s" by (intro ext owner_tokens_same_cells [OF i c b(1)]) (simp add: t)
  show "pin_tokens s' = pin_tokens s" by (intro ext pin_tokens_same_cells [OF i c b(1)]) (simp add: b(2))
qed

lemma copy_page_facts:
  assumes k: "kv_inv E s" and c: "page_ref_count s q = 1" "0 \<le> q" and e: "copy_single_prefix_page dev kt vt i q s = (res, s')"
    and l: "length (t_rows kt ! i) \<le> nat (block_size s)" "length (t_rows vt ! i) \<le> nat (block_size s)"
  shows "pool_frame s s' \<and> store_ok s' \<and> allocated_pages s' = allocated_pages s \<and> free_pages s' = free_pages s
      \<and> page_ref_counts s' = page_ref_counts s \<and> page_generations s' = page_generations s"
    and "0 \<le> x \<Longrightarrow> x \<noteq> q \<Longrightarrow> cells (k_pages s') x = cells (k_pages s) x \<and> cells (v_pages s') x = cells (v_pages s) x"
    and "res = Inr () \<Longrightarrow> j < length (t_rows kt ! i) \<Longrightarrow> length (t_rows vt ! i) = length (t_rows kt ! i) \<Longrightarrow>
      cell_at s' q j = (t_rows kt ! i ! j, t_rows vt ! i ! j)"
proof -
  have st: "store_ok s" using k by (simp add: kv_inv_def)
  have rng: "0 \<le> q" "q < page_capacity s" using store_live(1) [OF st, of q] c by simp_all
  have en: "ensure_page_capacity dev (q + 1) (s\<lparr>ticks := m\<rparr>) = (Inr (), s\<lparr>ticks := m\<rparr>)" for m
    using rng by (simp add: ensure_page_capacity_def)
  have "(pool_frame s s' \<and> store_ok s' \<and> allocated_pages s' = allocated_pages s \<and> free_pages s' = free_pages s
      \<and> page_ref_counts s' = page_ref_counts s \<and> page_generations s' = page_generations s)
    \<and> (\<forall>x. 0 \<le> x \<and> x \<noteq> q \<longrightarrow> cells (k_pages s') x = cells (k_pages s) x \<and> cells (v_pages s') x = cells (v_pages s) x)
    \<and> (\<forall>j. res = Inr () \<and> j < length (t_rows kt ! i) \<and> length (t_rows vt ! i) = length (t_rows kt ! i) \<longrightarrow>
      cell_at s' q j = (t_rows kt ! i ! j, t_rows vt ! i ! j))"
  proof (cases rule: two_ops_cases [of dev s])
    case (ok m)
    let ?s = "s\<lparr>ticks := m\<rparr>"
    have w: "write_page dev q 0 (t_rows kt ! i) (t_rows vt ! i) ?s = (res, s')"
      using e ok en by (simp add: copy_single_prefix_page_def)
    have st': "store_ok ?s" and rng': "q < page_capacity ?s" using st rng by simp_all
    have l': "nat 0 + length (t_rows kt ! i) \<le> nat (block_size ?s)" "nat 0 + length (t_rows vt ! i) \<le> nat (block_size ?s)" using l by simp_all
    note wp = write_page_facts [OF w st' rng(1) rng' _ l', simplified]
    show ?thesis using wp(1) wp(2) wp(4) by (auto simp: pool_frame_def)
  next
    case (failed m)
    then have "res = Inl DeviceError" "s' = s\<lparr>ticks := m\<rparr>" using e by (simp_all add: copy_single_prefix_page_def)
    then show ?thesis using st by simp
  qed
  then show "pool_frame s s' \<and> store_ok s' \<and> allocated_pages s' = allocated_pages s \<and> free_pages s' = free_pages s
      \<and> page_ref_counts s' = page_ref_counts s \<and> page_generations s' = page_generations s"
    and "0 \<le> x \<Longrightarrow> x \<noteq> q \<Longrightarrow> cells (k_pages s') x = cells (k_pages s) x \<and> cells (v_pages s') x = cells (v_pages s) x"
    and "res = Inr () \<Longrightarrow> j < length (t_rows kt ! i) \<Longrightarrow> length (t_rows vt ! i) = length (t_rows kt ! i) \<Longrightarrow>
      cell_at s' q j = (t_rows kt ! i ! j, t_rows vt ! i ! j)" by blast+
qed

lemma install_block_ok:
  assumes i: "kv_inv E s" and wf: "wf_tensor kt" "wf_tensor vt"
    and e: "install_immutable_block_from_prefix dev w j kt vt s = (res, s')"
  obtains (rejected) er where "res = Inl er" and "kv_inv E s'" and "tables s' = tables s" and "owner_tokens s' = owner_tokens s"
      and "pin_tokens s' = pin_tokens s" and "works dev \<Longrightarrow> no_leak s \<Longrightarrow> no_leak s'" and "immutable_pins s' = immutable_pins s"
      and "next_transient_owner s' = next_transient_owner s" and "cap s' = cap s" and "block_size s' = block_size s"
  | (installed) h k where "res = Inr h" and "w = Immutable k" and "kv_inv E s'" and "tables s' = tables s" and "owner_tokens s' = owner_tokens s"
      and "immutable_pins s' = immutable_pins s @ [(k, h)]" and "map_of (immutable_pins s) k = None"
      and "pin_tokens s' = (pin_tokens s)(k \<mapsto> zip (t_rows kt ! 0) (t_rows vt ! 0))"
      and "works dev \<Longrightarrow> no_leak s \<Longrightarrow> no_leak s'" and "next_transient_owner s' = next_transient_owner s"
      and "cap s' = cap s" and "block_size s' = block_size s"
proof -
  have rej: thesis if "res = Inl er" "s' = s" for er by (rule rejected [OF that(1)]) (use that i in simp_all)
  show thesis
  proof (cases "pin_id w")
    case None
    then show thesis using e by (intro rej [of WrongOwnerKind]) (auto simp: install_immutable_block_from_prefix_def)
  next
    case (Some k)
    then have w: "w = Immutable k" by (auto simp: pin_id_def split: block_owner.splits)
    let ?ok = "0 \<le> j \<and> j < max_blocks_per_row s \<and> map_of (immutable_pins s) k = None
      \<and> validate_prefix_pages kt (head_dim (layout s)) s = Inr () \<and> validate_prefix_pages vt (v_head_dim (layout s)) s = Inr ()
      \<and> t_dims kt ! 0 = 1 \<and> t_dims vt ! 0 = 1"
    show thesis
    proof (cases ?ok)
      case False
      then have "\<exists>er. install_immutable_block_from_prefix dev w j kt vt s = (Inl er, s)"
        using Some unfolding install_immutable_block_from_prefix_def by (auto split: sum.split)
      then obtain er where "install_immutable_block_from_prefix dev w j kt vt s = (Inl er, s)" by blast
      then show thesis using e by (intro rej [of er]) simp_all
    next
      case True
      let ?copy = "\<lambda>p s. (case copy_single_prefix_page dev kt vt 0 p s of
                   (Inl e, s) \<Rightarrow> (Inl e, release_page_ref p s)
                 | (Inr _, s) \<Rightarrow>
                     (let h = \<lparr>block_index = j, handle_page = p, generation = page_generation s p\<rparr>
                      in (Inr h, s\<lparr>immutable_pins := AList.update k h (immutable_pins s)\<rparr>)))"
      have eq: "install_immutable_block_from_prefix dev w j kt vt s = andthen (allocate_page dev s) ?copy"
        using True Some by (simp add: install_immutable_block_from_prefix_def)
      have bs: "t_dims kt ! 2 = block_size s" "t_dims vt ! 2 = block_size s"
        using True by (auto simp: validate_prefix_pages_def split: if_splits)
      have rows: "length (t_rows kt) = 1" "length (t_rows vt) = 1" using wf True by (simp_all add: wf_tensor_def)
      then have "t_rows kt ! 0 \<in> set (t_rows kt)" "t_rows vt ! 0 \<in> set (t_rows vt)" by simp_all
      then have len: "length (t_rows kt ! 0) = nat (block_size s)" "length (t_rows vt ! 0) = nat (block_size s)"
        using wf bs unfolding wf_tensor_def by fastforce+
      have b: "book (tables s) E s" and st: "store_ok s" using i by (simp_all add: kv_inv_def)
      obtain r1 s1 where a: "allocate_page dev s = (r1, s1)" by fastforce
      note al = allocate_page_facts [OF b st a]
      have f1: "pool_frame s s1" and st1: "store_ok s1" and sc1: "same_cells s s1" using al(1) by simp_all
      show thesis
      proof (cases r1)
        case (Inl er)
        have k1: "kv_inv E s1" by (rule pool_kv_inv [OF i f1 al(2) [OF Inl] st1])
        have pk: "page_kept s s1" using f1 sc1 by (simp add: page_kept_def)
        have "res = Inl er" "s' = s1" using e eq a Inl by simp_all
        then show thesis using rejected [of er] k1 page_kept_tokens [OF i pk] al(5) f1 by (simp add: pool_frame_def)
      next
        case (Inr p)
        have p: "book (tables s) (add_mset p E) s1" "0 \<le> p" "page_ref_count s p = 0" "page_ref_count s1 p = 1"
          using al(3) [OF Inr] by simp_all
        have k1: "kv_inv (add_mset p E) s1" by (rule pool_kv_inv [OF i f1 p(1) st1])
        obtain r2 s2 where cp: "copy_single_prefix_page dev kt vt 0 p s1 = (r2, s2)" by fastforce
        have bs1: "block_size s1 = block_size s" using f1 by (simp add: pool_frame_def)
        have l1: "length (t_rows kt ! 0) \<le> nat (block_size s1)" "length (t_rows vt ! 0) \<le> nat (block_size s1)" using len bs1 by simp_all
        note c = copy_page_facts [OF k1 p(4,2) cp l1]
        have f2: "pool_frame s s2" using pool_frame_trans [OF f1] c(1) by simp
        have sc2: "same_cells s s2"
        proof (rule same_cells_live_trans [OF sc1])
          fix x assume x: "page_ref_count s x > 0"
          then have "0 \<le> x" "x \<noteq> p" using ref_count_in_range [OF x] p(3) by auto
          then show "cells (k_pages s2) x = cells (k_pages s1) x \<and> cells (v_pages s2) x = cells (v_pages s1) x" by (rule c(2))
        qed
        have b2: "book (tables s) (add_mset p E) s2"
          by (rule book_transfer [OF p(1)]) (use c(1) page_ref_count_cong page_generation_cong in auto)
        have k2: "kv_inv (add_mset p E) s2" by (rule pool_kv_inv [OF i f2 b2]) (use c(1) in simp)
        have rc: "page_ref_count s2 p = 1" using page_ref_count_cong [of s2 s1 p] c(1) p(4) by simp
        have nl2: "works dev \<Longrightarrow> no_leak s \<Longrightarrow> no_leak s2" using no_leak_cong [of s2 s1] c(1) al(5) by simp
        have pk2: "page_kept s s2" using f2 sc2 by (simp add: page_kept_def)
        note tk2 = page_kept_tokens [OF i pk2]
        show thesis
        proof (cases r2)
          case (Inl er)
          let ?u = "release_page_ref p s2"
          have r: "res = Inl er" "s' = ?u" using e eq a Inr cp Inl by simp_all
          have cf: "counts_frame s2 ?u" by (rule release_counts_frame)
          have f3: "pool_frame s ?u" by (rule pool_frame_trans [OF f2 counts_frame_fields(1) [OF cf]])
          have sc3: "same_cells s ?u" using sc2 counts_frame_fields(2,3) [OF cf] by (simp add: same_cells_def)
          have pos: "page_ref_count s2 p > 0" using rc by simp
          have lv: "page_ref_count s2 y > 0" if "page_ref_count ?u y > 0" for y
            using that pos by (auto simp: release_page_ref_count [OF pos] split: if_splits)
          have "store_ok ?u" by (rule counts_frame_store(1) [OF cf _ lv]) (use k2 in \<open>simp_all add: kv_inv_def\<close>)
          then have k3: "kv_inv E ?u" by (rule pool_kv_inv [OF i f3 release_page_ref_book [OF b2 p(2)]])
          have pk3: "page_kept s ?u" using f3 sc3 by (simp add: page_kept_def)
          show thesis using rejected [OF r(1)] k3 page_kept_tokens [OF i pk3] release_no_leak [OF b2 p(2)] nl2 f3 r(2)
            by (simp add: pool_frame_def)
        next
          case (Inr u)
          define h where "h = \<lparr>block_index = j, handle_page = p, generation = page_generation s2 p\<rparr>"
          have pins: "immutable_pins s2 = immutable_pins s" using f2 by (simp add: pool_frame_def)
          have r: "res = Inr h" "s' = s2\<lparr>immutable_pins := AList.update k h (immutable_pins s2)\<rparr>"
            using e eq a \<open>r1 = Inr p\<close> cp Inr by (simp_all add: h_def Let_def)
          have n: "map_of (immutable_pins s2) k = None" using True pins by simp
          have po: "pin_ok s2 h" using True p(2) f2 by (simp add: pin_ok_def h_def pool_frame_def)
          have b2': "book (tables s) (add_mset (handle_page h) E) s2" using b2 by (simp add: h_def)
          have b3: "book (tables s) E s'" unfolding r(2) by (rule book_pin_insert [OF b2' n po])
          have pf: "pins_frame s2 s'" by (simp add: pins_frame_def r(2))
          note pff = pins_frame_facts [OF pf]
          have k3: "kv_inv E s'" using k2 b3 unfolding kv_inv_def pff tk2(3) by simp
          have ca: "cell_at s' = cell_at s2" by (intro ext) (simp add: cell_at_def r(2))
          have bs2: "block_size s2 = block_size s" using f2 by (simp add: pool_frame_def)
          have tt: "table_tokens s' = table_tokens s2" by (intro ext) (simp add: table_tokens_def token_def ca pff(8))
          have ot: "owner_tokens s' = owner_tokens s" by (intro ext) (metis owner_tokens_def tk2(1) pff(1) tt)
          have new: "map (cell_at s2 p) [0..<nat (block_size s)] = zip (t_rows kt ! 0) (t_rows vt ! 0)"
            by (rule nth_equalityI) (use c(3) Inr len in simp_all)
          have pt: "pin_tokens s' = (pin_tokens s)(k \<mapsto> zip (t_rows kt ! 0) (t_rows vt ! 0))"
          proof
            fix x
            have m: "map_of (immutable_pins s') x = (if x = k then Some h else map_of (immutable_pins s2) x)"
              by (simp add: r(2) update_conv')
            have "pin_tokens s2 x = pin_tokens s x" using tk2(2) by simp
            then show "pin_tokens s' x = ((pin_tokens s)(k \<mapsto> zip (t_rows kt ! 0) (t_rows vt ! 0))) x"
              using new by (auto simp: pin_tokens_def m ca pff(8) bs2 h_def)
          qed
          have ip: "immutable_pins s' = immutable_pins s @ [(k, h)]" using update_new [OF n] by (simp add: r(2) pins)
          have nx: "next_transient_owner s' = next_transient_owner s" "cap s' = cap s" "block_size s' = block_size s"
            using f2 by (simp_all add: r(2) pool_frame_def)
          show thesis
            by (rule installed [OF r(1) w k3 _ ot ip _ pt _ nx]) (use pff(1,6) tk2(3) True nl2 in simp_all)
        qed
      qed
    qed
  qed
qed

end
