(* ===== verification/PagedKvMachine.thy ===== *)
theory PagedKvMachine
  imports PagedKvRestore
begin

text \<open>
  \<open>PagedKVCache\<close> (\<open>ironmlx/src/core/cache/paged_kv.rs\<close>) as a machine: its operations in any order their callers
  may use, the two invariants (a sound one for any device, a stronger one for a device that does not
  fail), and what each owner operation does to the map from owners to tokens.
\<close>

section \<open>The machine\<close>

datatype 'c kv_op =
    OpBind "block_owner list"
  | OpFork block_owner block_owner
  | OpRelease block_owner
  | OpPin block_owner int nat
  | OpPrefix block_owner "block_handle list"
  | OpBlock block_owner int "'c kv_tensor" "'c kv_tensor"
  | OpAppend "'c kv_tensor" "'c kv_tensor" "int list"
  | OpRestore "int list"
  | OpGrow int
  | OpReset

fun kv_step :: "'c kv_device \<Rightarrow> 'c paged_kv \<Rightarrow> 'c kv_op \<Rightarrow> 'c paged_kv" where
  "kv_step dev s (OpBind ws) = snd (bind_execution_rows ws s)"
| "kv_step dev s (OpFork w d) = snd (fork_owner w d s)"
| "kv_step dev s (OpRelease w) = snd (release_owner w s)"
| "kv_step dev s (OpPin w j k) = snd (pin_immutable_block w j k s)"
| "kv_step dev s (OpPrefix d hs) = snd (install_immutable_prefix d hs s)"
| "kv_step dev s (OpBlock w j k v) = snd (install_immutable_block_from_prefix dev w j k v s)"
| "kv_step dev s (OpAppend k v lens) = snd (append dev k v lens s)"
| "kv_step dev s (OpRestore ns) = snd (restore_offsets ns s)"
| "kv_step dev s (OpGrow c) = grow_cap c s"
| "kv_step dev s OpReset = kv_reset s"

text \<open>
  What callers respect: execution rows and forks belong to requests or to transient owners the cache
  has handed out, the transient counter does not wrap, tensors have the shape they claim, and a
  restored prefix is not longer than the cap.
\<close>

fun kv_allowed :: "'c paged_kv \<Rightarrow> 'c kv_op \<Rightarrow> bool" where
  "kv_allowed s (OpBind ws) = list_all (bindable s) ws"
| "kv_allowed s (OpFork w d) = bindable s d"
| "kv_allowed s (OpRelease w) = (next_transient_owner s < u64_max)"
| "kv_allowed s (OpPin w j k) = True"
| "kv_allowed s (OpPrefix d hs) = (int (length hs) * block_size s \<le> cap s)"
| "kv_allowed s (OpBlock w j k v) = (wf_tensor k \<and> wf_tensor v)"
| "kv_allowed s (OpAppend k v lens) = (wf_tensor k \<and> wf_tensor v)"
| "kv_allowed s (OpRestore ns) = True"
| "kv_allowed s (OpGrow c) = True"
| "kv_allowed s OpReset = True"

definition kv_sound :: "'c paged_kv \<Rightarrow> bool" where
  "kv_sound s = (\<exists>E. kv_inv E s)"

definition kv_healthy :: "'c paged_kv \<Rightarrow> bool" where
  "kv_healthy s = (kv_inv {#} s \<and> no_leak s)"

text \<open>An operation keeps the ledger, with the same references in flight when the device works.\<close>

definition kept :: "'c kv_device \<Rightarrow> int multiset \<Rightarrow> 'c paged_kv \<Rightarrow> 'c paged_kv \<Rightarrow> bool" where
  "kept dev E s s' = ((\<exists>E'. kv_inv E' s') \<and> (works dev \<longrightarrow> E = {#} \<longrightarrow> no_leak s \<longrightarrow> kv_inv {#} s' \<and> no_leak s'))"

lemma keptI: "kv_inv E s' \<Longrightarrow> (works dev \<Longrightarrow> no_leak s \<Longrightarrow> no_leak s') \<Longrightarrow> kept dev E s s'"
  by (auto simp: kept_def)

lemma kept_refl: "kv_inv E s \<Longrightarrow> kept dev E s s"
  by (auto simp: kept_def)

lemma bind_kept:
  assumes i: "kv_inv E s" and ws: "list_all (bindable s) ws"
  shows "kept dev E s (snd (bind_execution_rows ws s))"
proof (cases "ws = [] \<or> \<not> distinct ws")
  case True
  then have "snd (bind_execution_rows ws s) = s" by (auto simp: bind_execution_rows_def)
  then show ?thesis using kept_refl [OF i] by simp
next
  case False
  then have ne: "ws \<noteq> []" "distinct ws" by simp_all
  obtain s' where s': "bind_execution_rows ws s = (validate_owner_invariants s', s')" "kv_inv E s'" "same_pool s s'"
    using bind_ok [OF i ne ws] by metis
  show ?thesis unfolding s'(1) snd_conv by (rule keptI [OF s'(2)]) (simp add: same_pool_book(3) [OF s'(3)])
qed

lemma fork_kept:
  assumes i: "kv_inv E s" and d: "bindable s d"
  shows "kept dev E s (snd (fork_owner w d s))"
proof -
  obtain r s' where e: "fork_owner w d s = (r, s')" by fastforce
  show ?thesis unfolding e snd_conv by (cases rule: fork_owner_ok [OF i d e]) (auto intro!: keptI)
qed

lemma release_kept:
  assumes i: "kv_inv E s" and nx: "next_transient_owner s < u64_max"
  shows "kept dev E s (snd (release_owner w s))"
proof -
  obtain r s' where e: "release_owner w s = (r, s')" by fastforce
  show ?thesis unfolding e snd_conv by (cases rule: release_owner_ok [OF i nx e]) (auto intro!: keptI)
qed

lemma pin_kept:
  assumes i: "kv_inv E s"
  shows "kept dev E s (snd (pin_immutable_block w j k s))"
proof -
  obtain r s' where e: "pin_immutable_block w j k s = (r, s')" by fastforce
  show ?thesis unfolding e snd_conv by (rule keptI [OF pin_block_ok(1) [OF i e] pin_block_ok(4) [OF i e]])
qed

lemma prefix_kept:
  assumes i: "kv_inv E s" and c: "int (length hs) * block_size s \<le> cap s"
  shows "kept dev E s (snd (install_immutable_prefix d hs s))"
proof -
  obtain r s' where e: "install_immutable_prefix d hs s = (r, s')" by fastforce
  show ?thesis unfolding e snd_conv by (cases rule: install_prefix_ok [OF i e c]) (auto intro!: keptI)
qed

lemma block_kept:
  assumes i: "kv_inv E s" and wf: "wf_tensor k" "wf_tensor v"
  shows "kept dev E s (snd (install_immutable_block_from_prefix dev w j k v s))"
proof -
  obtain r s' where e: "install_immutable_block_from_prefix dev w j k v s = (r, s')" by fastforce
  show ?thesis unfolding e snd_conv by (cases rule: install_block_ok [OF i wf e]) (auto intro!: keptI)
qed

lemma append_kept:
  assumes i: "kv_inv E s" and wf: "wf_tensor k" "wf_tensor v"
  shows "kept dev E s (snd (append dev k v lens s))"
proof -
  obtain r s' where e: "append dev k v lens s = (r, s')" by fastforce
  show ?thesis unfolding e snd_conv using append_ok [OF i wf e] unfolding kept_def by blast
qed

lemma restore_kept:
  assumes i: "kv_inv E s"
  shows "kept dev E s (snd (restore_offsets ns s))"
proof -
  obtain r s' where e: "restore_offsets ns s = (r, s')" by fastforce
  show ?thesis unfolding e snd_conv
    by (cases rule: restore_offsets_ok [OF i e]) (auto intro!: keptI simp: kept_refl [OF i])
qed

lemma kv_step_kept:
  assumes i: "kv_inv E s" and ok: "kv_allowed s x"
  shows "kept dev E s (kv_step dev s x)"
proof (cases x)
  case (OpGrow c)
  then show ?thesis using grow_cap_ok(1,4) [OF i] by (auto intro!: keptI)
next
  case OpReset
  then show ?thesis using reset_ok(1,2) [OF i] by (auto simp: kept_def)
qed (use i ok in \<open>simp_all add: bind_kept fork_kept release_kept pin_kept prefix_kept block_kept append_kept restore_kept\<close>)

interpretation kv_any: invariant_machine "kv_step dev" kv_allowed kv_sound for dev
  by unfold_locales (use kv_step_kept in \<open>fastforce simp: kv_sound_def kept_def\<close>)

interpretation kv_working: invariant_machine "kv_step dev" kv_allowed "\<lambda>s. works dev \<longrightarrow> kv_healthy s" for dev
  by unfold_locales (use kv_step_kept in \<open>fastforce simp: kv_healthy_def kept_def\<close>)

section \<open>A new cache\<close>

lemma kv_new_ok:
  assumes "kv_new b h kd vd dt c bs mp = Inr s"
  shows "kv_inv {#} s" and "no_leak s"
proof -
  have g: "0 < b" "0 \<le> c" "0 < bs" "0 < mp" using assms by (auto simp: kv_new_def split: if_splits)
  let ?w = "max (ceil_div c bs) 1"
  let ?row = "replicate (nat ?w) (- 1 :: int)"
  let ?ow = "map Transient [0..<nat b]"
  have s: "block_tables s = replicate (nat b) ?row" "execution_owners s = ?ow"
    "owned_tables s = map (\<lambda>w. (w, \<lparr>blocks = ?row, offset = 0\<rparr>)) ?ow" "immutable_pins s = []" "next_transient_owner s = nat b"
    "free_pages s = []" "page_ref_counts s = []" "page_generations s = []" "allocated_pages s = 0" "page_capacity s = 0"
    "max_pages s = mp" "max_blocks_per_row s = ?w" "batch s = b" "cap s = c" "block_size s = bs" "page_grow_step s = 64"
    "row_offsets s = replicate (nat b) 0" "k_pages s = None" "v_pages s = None"
    using assms g by (auto simp: kv_new_def Let_def split: if_splits)
  have fit: "c \<le> ?w * bs"
  proof -
    have "c \<le> ceil_div c bs * bs" using ceil_div_le_iff [OF g(3,2), of "ceil_div c bs"] by simp
    also have "\<dots> \<le> ?w * bs" using g by (intro mult_right_mono) auto
    finally show ?thesis .
  qed
  have d: "distinct ?ow" by (simp add: distinct_map inj_on_def)
  have r: "rows_ok s"
    using g fit d unfolding rows_ok_def s by (auto simp: is_immutable_def o_def image_iff)
  have rc: "page_ref_count s p = 0" for p by (simp add: page_ref_count_def s)
  have T: "t = \<lparr>blocks = ?row, offset = 0\<rparr>" if "tables s w = Some t" for w t
  proof (cases "w \<in> set (execution_owners s)")
    case True
    then obtain row where "row < length (execution_owners s)" "execution_owners s ! row = w" by (rule row_of)
    then show ?thesis using tables_row [OF r] that g by (auto simp: s)
  next
    case False
    then show ?thesis using that by (auto simp: tables_unbound s dest!: map_of_SomeD)
  qed
  have "count_list ?row p = 0" if "0 \<le> p" for p using that by (auto simp: count_list_0_iff)
  then have tr: "table_refs (tables s) p = 0" if "0 \<le> p" for p
    unfolding table_refs_def using that T by (intro sum.neutral) fastforce
  have "book (tables s) {#} s"
    using tables_finite [OF r] tr g unfolding book_def by (simp add: rc s holders_def pin_refs_def)
  moreover have "store_ok s" using g by (simp add: store_ok_def rc) (simp add: s store_dims_def)
  moreover have "cover_ok s"
  proof -
    have "\<not> int j * bs < 0" for j using g by (simp add: mult_less_0_iff)
    then have "table_ok s \<lparr>blocks = ?row, offset = 0\<rparr>" using g by (simp add: table_ok_def s)
    then show ?thesis using T by (auto simp: cover_ok_def)
  qed
  moreover have "fresh_ok s" by (auto simp: fresh_ok_def s)
  ultimately show "kv_inv {#} s" using r by (simp add: kv_inv_def)
  show "no_leak s" by (simp add: no_leak_def s)
qed

section \<open>Owner operations on tokens\<close>

lemma fork_tokens:
  assumes i: "kv_inv E s" and c: "same_cells s s'" and b: "block_size s' = block_size s"
    and t: "tables s w = Some t" and T: "tables s' = (tables s)(d \<mapsto> t)"
  shows "owner_tokens s' = (owner_tokens s)(d := owner_tokens s w)"
proof
  fix v
  have bk: "book (tables s) E s" using i by (simp add: kv_inv_def)
  have tt: "table_tokens s' u = table_tokens s u" if "tables s x = Some u" for x u
    by (rule table_tokens_cong [OF i that b]) (rule same_cells_at [OF c table_live(1) [OF bk that]])
  show "owner_tokens s' v = ((owner_tokens s)(d := owner_tokens s w)) v"
    using tt [OF t] tt [of v] t by (cases "tables s v") (auto simp: owner_tokens_def T)
qed

definition page_tokens :: "'c paged_kv \<Rightarrow> block_handle \<Rightarrow> ('c \<times> 'c) list" where
  "page_tokens s h = map (cell_at s (handle_page h)) [0..<nat (block_size s)]"

lemma prefix_tokens:
  assumes b: "0 < block_size s" and l: "length hs \<le> nat (max_blocks_per_row s)"
  shows "table_tokens s (prefix_table hs s) = concat (map (page_tokens s) hs)"
proof (rule nth_equalityI)
  let ?b = "nat (block_size s)"
  have u: "\<forall>xs \<in> set (map (page_tokens s) hs). length xs = ?b" by (auto simp: page_tokens_def)
  note c = concat_uniform [OF u, simplified]
  have off: "nat (int (length hs) * block_size s) = length hs * ?b" using b by (simp add: nat_mult_distrib)
  show len: "length (table_tokens s (prefix_table hs s)) = length (concat (map (page_tokens s) hs))"
    unfolding c(1) using off by (simp add: table_tokens_def prefix_table_def)
  fix i assume "i < length (table_tokens s (prefix_table hs s))"
  then have i: "i < length hs * ?b" using len c(1) by simp
  have b0: "0 < ?b" using b by simp
  have d: "i div ?b < length hs" using i by (simp add: less_mult_imp_div_less)
  have dv: "nat (int i div block_size s) = i div ?b" "nat (int i mod block_size s) = i mod ?b"
    using b by (simp_all add: nat_div_distrib nat_mod_distrib)
  have "int i < int (length hs) * block_size s" using i off by linarith
  then have "table_tokens s (prefix_table hs s) ! i = token s (blocks (prefix_table hs s)) (int i)"
    by (simp add: table_tokens_def prefix_table_def)
  also have "\<dots> = cell_at s (handle_page (hs ! (i div ?b))) (i mod ?b)"
    using d by (simp add: token_def prefix_table_def dv nth_append)
  also have "\<dots> = map (page_tokens s) hs ! (i div ?b) ! (i mod ?b)" using d b0 by (simp add: page_tokens_def)
  also have "\<dots> = concat (map (page_tokens s) hs) ! i" using c(2) i by simp
  finally show "table_tokens s (prefix_table hs s) ! i = concat (map (page_tokens s) hs) ! i" .
qed

lemma released_tokens:
  assumes c: "same_contents s s'" and T: "tables s' = released_tables w s"
  shows "owner_tokens s' = (if w \<in> set (execution_owners s)
    then (owner_tokens s)(w := None, Transient (next_transient_owner s) \<mapsto> []) else (owner_tokens s)(w := None))"
proof
  fix v
  have ca: "cell_at s' = cell_at s" using c by (intro ext) (simp add: cell_at_def same_contents_def)
  have b: "block_size s' = block_size s" using c by (simp add: same_contents_def)
  have tt: "table_tokens s' = table_tokens s" by (intro ext) (simp add: table_tokens_def token_def ca b)
  show "owner_tokens s' v = (if w \<in> set (execution_owners s)
      then (owner_tokens s)(w := None, Transient (next_transient_owner s) \<mapsto> []) else (owner_tokens s)(w := None)) v"
    by (simp add: owner_tokens_def T tt released_tables_def) (simp add: table_tokens_def empty_table_def)
qed

end
