(* ===== verification/PagedKvRead.thy ===== *)
theory PagedKvRead
  imports PagedKvMachine
begin

text \<open>
  \<open>materialize_prefix_on\<close> of \<open>ironmlx/src/core/cache/paged_kv.rs\<close>: the dense tensors it builds hold, for every
  row, exactly the tokens the row's table stands for, padded with zero cells.
\<close>

section \<open>Dense tensors\<close>

definition dense_shape :: "nat \<Rightarrow> nat \<Rightarrow> 'c list list \<times> 'c list list \<Rightarrow> bool" where
  "dense_shape n m d = (length (fst d) = n \<and> length (snd d) = n \<and> (\<forall>r < n. length (fst d ! r) = m \<and> length (snd d ! r) = m))"

definition dense_at :: "'c list list \<times> 'c list list \<Rightarrow> nat \<Rightarrow> nat \<Rightarrow> 'c \<times> 'c" where
  "dense_at d r i = (fst d ! r ! i, snd d ! r ! i)"

lemma put_cells_overwrite: "put_cells r i part d = d[r := overwrite i part (d ! r)]"
  by (simp add: put_cells_def overwrite_def)

lemma overwrite_beyond: "i + length part \<le> length xs \<Longrightarrow> i + length part \<le> j \<Longrightarrow> j < length xs \<Longrightarrow> overwrite i part xs ! j = xs ! j"
  by (auto simp: overwrite_def nth_append)

lemma put_dense:
  assumes d: "dense_shape n m d" and r: "r < n" and l: "length kc = k" "length vc = k" and f: "i + k \<le> m"
  defines "d' \<equiv> (put_cells r i kc (fst d), put_cells r i vc (snd d))"
  shows "dense_shape n m d'" and "q \<noteq> r \<Longrightarrow> dense_at d' q = dense_at d q"
    and "j < i \<or> i + k \<le> j \<and> j < m \<Longrightarrow> dense_at d' r j = dense_at d r j"
    and "j < k \<Longrightarrow> dense_at d' r (i + j) = (kc ! j, vc ! j)"
proof -
  have s: "length (fst d) = n" "length (snd d) = n" "length (fst d ! r) = m" "length (snd d ! r) = m"
    using d r by (simp_all add: dense_shape_def)
  show "dense_shape n m d'" using d l f r unfolding dense_shape_def d'_def put_cells_overwrite
    by (auto simp: nth_list_update)
  show "dense_at d' q = dense_at d q" if "q \<noteq> r" using that by (intro ext) (simp add: dense_at_def d'_def put_cells_overwrite)
  show "dense_at d' r j = dense_at d r j" if "j < i \<or> i + k \<le> j \<and> j < m"
    using that s r l f by (auto simp: dense_at_def d'_def put_cells_overwrite overwrite_beyond)
  show "dense_at d' r (i + j) = (kc ! j, vc ! j)" if "j < k"
    using that s r l f by (simp add: dense_at_def d'_def put_cells_overwrite)
qed

definition ticked :: "'c paged_kv \<Rightarrow> 'c paged_kv \<Rightarrow> bool" where
  "ticked s s' = (\<exists>m. s' = s\<lparr>ticks := m\<rparr>)"

lemma ticked_refl [simp]: "ticked s s"
  unfolding ticked_def by (rule exI [of _ "ticks s"]) simp

lemma ticked_set [simp]: "ticked s (s\<lparr>ticks := m\<rparr>)"
  unfolding ticked_def by blast

lemma ticked_trans: "ticked s t \<Longrightarrow> ticked t u \<Longrightarrow> ticked s u"
  by (auto simp: ticked_def)

lemma ticked_fields:
  assumes "ticked s s'"
  shows "block_size s' = block_size s" and "store_ok s' = store_ok s" and "page_capacity s' = page_capacity s"
    and "cell_at s' = cell_at s" and "k_pages s' = k_pages s" and "v_pages s' = v_pages s" and "block_tables s' = block_tables s"
proof -
  obtain m where s': "s' = s\<lparr>ticks := m\<rparr>" using assms by (auto simp: ticked_def)
  show "block_size s' = block_size s" "store_ok s' = store_ok s" "page_capacity s' = page_capacity s"
    "k_pages s' = k_pages s" "v_pages s' = v_pages s" "block_tables s' = block_tables s" by (simp_all add: s')
  show "cell_at s' = cell_at s" by (intro ext) (simp add: cell_at_def s')
qed

section \<open>One row\<close>

text \<open>The pages of a row can be read.\<close>

definition readable :: "'c paged_kv \<Rightarrow> int list \<Rightarrow> bool" where
  "readable s ps = (\<forall>p \<in> set ps. 0 \<le> p \<and> p < page_capacity s \<and> length (cells (k_pages s) p) = nat (block_size s)
     \<and> length (cells (v_pages s) p) = nat (block_size s))"

lemma readable_ticked: "ticked s s' \<Longrightarrow> readable s' ps = readable s ps"
  by (simp add: readable_def ticked_fields)

lemma materialize_blocks_ok:
  assumes "store_ok s" and "readable s ps" and "dense_shape n m d" and "r < n" and "len \<le> int m"
    and "len \<le> int (c + length ps) * block_size s" and "ps \<noteq> [] \<Longrightarrow> int (c + length ps - 1) * block_size s < len"
    and "materialize_blocks dev r len ps (int c) d s = (res, s')"
  shows "ticked s s' \<and> (works dev \<longrightarrow> res \<in> range Inr) \<and> (\<forall>d'. res = Inr d' \<longrightarrow> dense_shape n m d' \<and> (\<forall>q. q \<noteq> r \<longrightarrow> dense_at d' q = dense_at d q)
    \<and> (\<forall>i < m. dense_at d' r i = (if c * nat (block_size s) \<le> i \<and> int i < len
          then cell_at s (ps ! (i div nat (block_size s) - c)) (i mod nat (block_size s)) else dense_at d r i)))"
  using assms
proof (induction ps arbitrary: c d s)
  case Nil
  have "int (c * nat (block_size s)) = int c * block_size s" using Nil.prems(1) by (simp add: store_ok_def)
  moreover have "len \<le> int c * block_size s" using Nil.prems(6) by simp
  ultimately have "len \<le> int (c * nat (block_size s))" by linarith
  then have "\<not> (c * nat (block_size s) \<le> i \<and> int i < len)" for i by linarith
  then show ?case using Nil.prems by auto
next
  case (Cons p ps)
  let ?B = "nat (block_size s)"
  have b0: "0 < block_size s" using Cons.prems(1) by (simp add: store_ok_def)
  have bB: "int ?B = block_size s" "0 < ?B" using b0 by simp_all
  have p: "0 \<le> p" "p < page_capacity s" "length (cells (k_pages s) p) = ?B" "length (cells (v_pages s) p) = ?B"
    using Cons.prems(2) by (simp_all add: readable_def)
  let ?start = "int c * block_size s"
  let ?n = "min (len - ?start) (block_size s)"
  have st: "nat ?start = c * ?B" by (simp add: nat_mult_distrib)
  have sti: "int (c * ?B) = ?start" using b0 by simp
  have sl: "?start < len"
  proof -
    have "int c * block_size s \<le> int (c + length (p # ps) - 1) * block_size s" using b0 by (intro mult_right_mono) auto
    then show ?thesis using Cons.prems(7) by simp
  qed
  have n0: "0 < ?n" "?n \<le> block_size s" using sl b0 by simp_all
  obtain r1 s1 where ps1: "page_slice dev p ?n s = (r1, s1)" by fastforce
  obtain m1 where s1: "s1 = s\<lparr>ticks := m1\<rparr>"
    and sl1: "\<And>kc vc. r1 = Inr (kc, vc) \<Longrightarrow> kc = take (nat ?n) (cells (k_pages s) p) \<and> vc = take (nat ?n) (cells (v_pages s) p)"
    and w1: "works dev \<Longrightarrow> \<exists>x. r1 = Inr x"
    using page_slice_facts [OF ps1] n0 p(1,2) Cons.prems(1) by (metis order_less_imp_le)
  have t1: "ticked s s1" unfolding s1 by simp
  have eq: "materialize_blocks dev r len (p # ps) (int c) d s = andthen (page_slice dev p ?n s) (\<lambda>(kc, vc) s.
        andthen (two_ops dev s) (\<lambda>_ s. materialize_blocks dev r len ps (int c + 1)
            (put_cells r (nat ?start) kc (fst d), put_cells r (nat ?start) vc (snd d)) s))"
    using p(1) by (simp add: Let_def)
  show ?case
  proof (cases r1)
    case (Inl e)
    then have "res = Inl e" "s' = s1" using Cons.prems(8) eq ps1 by simp_all
    then show ?thesis using t1 w1 Inl by auto
  next
    case (Inr cv)
    obtain kc vc where cv: "cv = (kc, vc)" by (cases cv)
    have part: "kc = take (nat ?n) (cells (k_pages s) p)" "vc = take (nat ?n) (cells (v_pages s) p)" using sl1 Inr cv by simp_all
    have lk: "length kc = nat ?n" "length vc = nat ?n" using part p n0 by auto
    have fit: "c * ?B + nat ?n \<le> m" using sti Cons.prems(5) n0 sl by linarith
    let ?d = "(put_cells r (nat ?start) kc (fst d), put_cells r (nat ?start) vc (snd d))"
    note pd = put_dense [OF Cons.prems(3,4) lk fit, folded st]
    show ?thesis
    proof (cases rule: two_ops_cases [of dev s1])
      case (failed m2)
      then have "res = Inl DeviceError" "s' = s1\<lparr>ticks := m2\<rparr>" using Cons.prems(8) eq ps1 Inr cv by simp_all
      then show ?thesis using failed t1 ticked_trans [OF t1] by auto
    next
      case (ok m2)
      let ?s2 = "s1\<lparr>ticks := m2\<rparr>"
      have t2: "ticked s ?s2" using ticked_trans [OF t1] by simp
      note tf = ticked_fields [OF t2]
      have rec: "materialize_blocks dev r len ps (int (c + 1)) ?d ?s2 = (res, s')"
        using Cons.prems(8) eq ps1 Inr cv ok by (simp add: add.commute)
      have pre: "store_ok ?s2" "readable ?s2 ps" "len \<le> int (c + 1 + length ps) * block_size ?s2"
        "ps \<noteq> [] \<Longrightarrow> int (c + 1 + length ps - 1) * block_size ?s2 < len"
        using Cons.prems tf readable_ticked [OF t2, of ps] by (simp_all add: readable_def)
      note ih = Cons.IH [OF pre(1,2) pd(1) Cons.prems(4,5) pre(3,4) rec]
      have body: "dense_shape n m d' \<and> (\<forall>q. q \<noteq> r \<longrightarrow> dense_at d' q = dense_at d q)
        \<and> (\<forall>i < m. dense_at d' r i = (if c * ?B \<le> i \<and> int i < len
          then cell_at s ((p # ps) ! (i div ?B - c)) (i mod ?B) else dense_at d r i))" if res: "res = Inr d'" for d'
      proof -
        have h: "dense_shape n m d'" "\<And>q. q \<noteq> r \<Longrightarrow> dense_at d' q = dense_at d q"
          "\<And>i. i < m \<Longrightarrow> dense_at d' r i = (if (c + 1) * ?B \<le> i \<and> int i < len
              then cell_at s (ps ! (i div ?B - (c + 1))) (i mod ?B) else dense_at ?d r i)"
          using ih res pd(2) tf by auto
        have "dense_at d' r i = (if c * ?B \<le> i \<and> int i < len then cell_at s ((p # ps) ! (i div ?B - c)) (i mod ?B) else dense_at d r i)"
          if i: "i < m" for i
        proof -
          consider (before) "i < c * ?B" | (here) "c * ?B \<le> i" "i < (c + 1) * ?B" | (after) "(c + 1) * ?B \<le> i" by linarith
          then show ?thesis
          proof cases
            case before
            then show ?thesis using h(3) [OF i] pd(3) [of i] st by simp
          next
            case here
            have dv: "i div ?B = c" by (rule div_nat_eqI) (use here in \<open>simp_all add: algebra_simps\<close>)
            then have md: "i mod ?B = i - c * ?B" by (metis minus_div_mult_eq_mod)
            have "int i < int ((c + 1) * ?B)" using here(2) by (simp only: of_nat_less_iff)
            then have hi: "int i < ?start + block_size s" using b0 by (simp add: distrib_right)
            show ?thesis
            proof (cases "int i < len")
              case True
              have "int (i - c * ?B) = int i - ?start" using here(1) sti by (simp only: of_nat_diff)
              then have "int (i - c * ?B) < ?n" using True hi by linarith
              then have j: "i - c * ?B < nat ?n" by (simp only: zless_nat_eq_int_zless)
              have "dense_at d' r i = dense_at ?d r (c * ?B + (i - c * ?B))" using h(3) [OF i] here by simp
              also have "\<dots> = (kc ! (i - c * ?B), vc ! (i - c * ?B))" using pd(4) [OF j] st by simp
              also have "\<dots> = cell_at s p (i - c * ?B)" using j part by (simp add: cell_at_def)
              finally show ?thesis using True here dv md by simp
            next
              case False
              then have "nat ?start + nat ?n \<le> i" using st sti sl hi n0 by linarith
              then show ?thesis using h(3) [OF i] pd(3) [of i] here False i by simp
            qed
          next
            case after
            have "c + 1 \<le> i div ?B" using after bB(2) by (metis div_le_mono div_mult_self_is_m less_numeral_extra(3) mult.commute)
            then have "i div ?B - c = Suc (i div ?B - (c + 1))" by simp
            moreover have "nat ?start + nat ?n \<le> i" if "\<not> int i < len" using that sti sl bB n0 by linarith
            ultimately show ?thesis using h(3) [OF i] pd(3) [of i] after i by auto
          qed
        qed
        then show ?thesis using h by blast
      qed
      show ?thesis using ih ticked_trans [OF t2] body by blast
    qed
  qed
qed

section \<open>All rows\<close>

definition row_readable :: "'c paged_kv \<Rightarrow> nat \<Rightarrow> int list \<times> int \<Rightarrow> bool" where
  "row_readable s m = (\<lambda>(t, len). 0 \<le> len \<and> len \<le> int m \<and> nat (ceil_div len (block_size s)) \<le> length t
     \<and> readable s (take (nat (ceil_div len (block_size s))) t))"

lemma row_blocks_ok:
  assumes st: "store_ok s" and rr: "row_readable s m (t, len)" and d: "dense_shape n m d" and r: "r < n"
    and e: "materialize_blocks dev r len (take (nat (ceil_div len (block_size s))) t) 0 d s = (res, s')"
  shows "ticked s s' \<and> (works dev \<longrightarrow> res \<in> range Inr) \<and> (\<forall>d'. res = Inr d' \<longrightarrow> dense_shape n m d' \<and> (\<forall>q. q \<noteq> r \<longrightarrow> dense_at d' q = dense_at d q)
    \<and> (\<forall>i < m. dense_at d' r i = (if int i < len then token s t (int i) else dense_at d r i)))"
proof -
  let ?k = "nat (ceil_div len (block_size s))"
  let ?ps = "take ?k t"
  have b0: "0 < block_size s" using st by (simp add: store_ok_def)
  have l: "0 \<le> len" "len \<le> int m" "?k \<le> length t" "readable s ?ps" using rr by (simp_all add: row_readable_def)
  have ki: "int ?k = ceil_div len (block_size s)" using ceil_div_nonneg [OF b0, of len] by simp
  have lp: "length ?ps = ?k" using l(3) by simp
  have up: "len \<le> int (0 + length ?ps) * block_size s"
    using ceil_div_le_iff [OF b0 l(1), of "ceil_div len (block_size s)"] by (simp only: lp add_0 ki order.refl)
  have lo: "int (0 + length ?ps - 1) * block_size s < len" if "?ps \<noteq> []"
  proof -
    have "0 < ?k" using that lp by (cases ?k) simp_all
    then have "int (?k - 1) < ceil_div len (block_size s)" using ki by linarith
    then show ?thesis using less_ceil_div_iff [OF b0 l(1)] by (simp only: lp add_0)
  qed
  have e0: "materialize_blocks dev r len ?ps (int 0) d s = (res, s')" using e by simp
  note m = materialize_blocks_ok [OF st l(4) d r l(2) up lo e0]
  have tok: "cell_at s (?ps ! (i div nat (block_size s))) (i mod nat (block_size s)) = token s t (int i)" if "int i < len" for i
  proof -
    have dv: "nat (int i div block_size s) = i div nat (block_size s)" "nat (int i mod block_size s) = i mod nat (block_size s)"
      using b0 by (simp_all add: nat_div_distrib nat_mod_distrib)
    have "int i div block_size s * block_size s \<le> int i"
    proof -
      have "int i div block_size s * block_size s = int i - int i mod block_size s" by (rule minus_mod_eq_div_mult [symmetric])
      moreover have "0 \<le> int i mod block_size s" using b0 by simp
      ultimately show ?thesis by linarith
    qed
    then have "int i div block_size s < ceil_div len (block_size s)" using less_ceil_div_iff [OF b0 l(1)] that by simp
    then have "i div nat (block_size s) < ?k" using dv(1) ki b0 by (metis zless_nat_eq_int_zless nat_0_le of_nat_0_le_iff pos_imp_zdiv_nonneg_iff)
    then show ?thesis by (simp add: token_def dv)
  qed
  show ?thesis using m tok by auto
qed

lemma row_readable_ticked: "ticked s s' \<Longrightarrow> row_readable s' m x = row_readable s m x"
  by (simp add: row_readable_def readable_ticked ticked_fields split: prod.split)

lemma token_ticked: "ticked s s' \<Longrightarrow> token s' = token s"
  by (intro ext) (simp add: token_def ticked_fields)

lemma materialize_rows_ok:
  assumes "store_ok s" and "\<forall>x \<in> set rs. row_readable s m x" and "dense_shape n m d" and "a + length rs \<le> n"
    and "materialize_rows dev a rs d s = (res, s')"
  shows "ticked s s' \<and> (works dev \<longrightarrow> res \<in> range Inr) \<and> (\<forall>d'. res = Inr d' \<longrightarrow> dense_shape n m d'
    \<and> (\<forall>q. q < a \<or> a + length rs \<le> q \<longrightarrow> dense_at d' q = dense_at d q)
    \<and> (\<forall>j < length rs. \<forall>i < m. dense_at d' (a + j) i = (if int i < snd (rs ! j) then token s (fst (rs ! j)) (int i) else dense_at d (a + j) i)))"
  using assms
proof (induction rs arbitrary: a d s)
  case Nil
  then show ?case by auto
next
  case (Cons x rs)
  obtain t len where x: "x = (t, len)" by (cases x)
  let ?ps = "take (nat (ceil_div len (block_size s))) t"
  have an: "a < n" using Cons.prems(4) by simp
  have rr: "row_readable s m (t, len)" using Cons.prems(2) x by simp
  obtain r1 s1 where e: "materialize_blocks dev a len ?ps 0 d s = (r1, s1)" by fastforce
  note b = row_blocks_ok [OF Cons.prems(1) rr Cons.prems(3) an e]
  have t1: "ticked s s1" using b by blast
  have eq: "materialize_rows dev a (x # rs) d s = andthen (materialize_blocks dev a len ?ps 0 d s) (\<lambda>dense s. materialize_rows dev (a + 1) rs dense s)"
    by (simp add: x)
  show ?case
  proof (cases r1)
    case (Inl er)
    then have "res = Inl er" "s' = s1" using Cons.prems(5) eq e by simp_all
    then show ?thesis using b Inl by auto
  next
    case (Inr d1)
    have b1: "dense_shape n m d1" "\<And>q. q \<noteq> a \<Longrightarrow> dense_at d1 q = dense_at d q"
      "\<And>i. i < m \<Longrightarrow> dense_at d1 a i = (if int i < len then token s t (int i) else dense_at d a i)"
      using b Inr by blast+
    have rec: "materialize_rows dev (a + 1) rs d1 s1 = (res, s')" using Cons.prems(5) eq e Inr by simp
    have pre: "store_ok s1" "\<forall>x \<in> set rs. row_readable s1 m x" "a + 1 + length rs \<le> n"
      using Cons.prems(1,2,4) by (simp_all add: ticked_fields [OF t1] row_readable_ticked [OF t1])
    note ih = Cons.IH [OF pre(1,2) b1(1) pre(3) rec]
    have "dense_shape n m d' \<and> (\<forall>q. q < a \<or> a + length (x # rs) \<le> q \<longrightarrow> dense_at d' q = dense_at d q)
      \<and> (\<forall>j < length (x # rs). \<forall>i < m. dense_at d' (a + j) i
          = (if int i < snd ((x # rs) ! j) then token s (fst ((x # rs) ! j)) (int i) else dense_at d (a + j) i))" if res: "res = Inr d'" for d'
    proof -
      have h: "dense_shape n m d'" "\<And>q. q < a + 1 \<or> a + 1 + length rs \<le> q \<Longrightarrow> dense_at d' q = dense_at d1 q"
        "\<And>j i. j < length rs \<Longrightarrow> i < m \<Longrightarrow> dense_at d' (a + 1 + j) i
          = (if int i < snd (rs ! j) then token s (fst (rs ! j)) (int i) else dense_at d1 (a + 1 + j) i)"
        using ih res token_ticked [OF t1] by auto
      have "dense_at d' (a + j) i = (if int i < snd ((x # rs) ! j) then token s (fst ((x # rs) ! j)) (int i) else dense_at d (a + j) i)"
        if j: "j < length (x # rs)" and i: "i < m" for j i
      proof (cases j)
        case 0
        then show ?thesis using h(2) [of a] b1(3) [OF i] x by simp
      next
        case (Suc j')
        then have "j' < length rs" using j by simp
        from h(3) [OF this i] show ?thesis using Suc b1(2) [of "a + 1 + j'"] by simp
      qed
      then show ?thesis using h(1,2) b1(2) by auto
    qed
    then show ?thesis using ih ticked_trans [OF t1] by blast
  qed
qed

lemma checked_rows_readable:
  assumes i: "kv_inv E s" and v: "validate_offsets_allocated s offs = Inr ()" and m: "\<forall>x \<in> set offs. x \<le> int m"
    and x: "x \<in> set (zip (block_tables s) offs)"
  shows "row_readable s m x"
proof -
  obtain t len where tl: "x = (t, len)" by (cases x)
  have st: "store_ok s" using i by (simp add: kv_inv_def)
  have f: "\<forall>x \<in> set offs. 0 \<le> x" "check_rows s (zip (block_tables s) offs) = Inr ()" using v by (auto simp: validate_offsets_iff)
  have ch: "ceil_div len (block_size s) \<le> max_blocks_per_row s"
    "\<forall>p \<in> set (take (nat (ceil_div len (block_size s))) t). 0 \<le> p \<and> page_ref_count s p > 0"
    using f(2) x unfolding check_rows_iff tl by blast+
  have "t \<in> set (block_tables s)" "len \<in> set offs" using x tl by (auto dest: set_zip_leftD set_zip_rightD)
  then have "length t = nat (max_blocks_per_row s)" "0 \<le> len" "len \<le> int m" using i f(1) m by (auto simp: kv_inv_def rows_ok_def)
  moreover have "readable s (take (nat (ceil_div len (block_size s))) t)"
    using ch(2) store_live [OF st] by (auto simp: readable_def)
  ultimately show ?thesis using ch(1) by (simp add: row_readable_def tl)
qed

lemma materialize_prefix_ok:
  assumes i: "kv_inv E s" and e: "materialize_prefix dev offs m s = (res, s')"
  shows "ticked s s'"
    and "works dev \<Longrightarrow> validate_offsets_allocated s offs = Inr () \<Longrightarrow> \<forall>x \<in> set offs. x \<le> m \<Longrightarrow> 0 \<le> m \<Longrightarrow> m \<le> cap s \<Longrightarrow> res \<in> range Inr"
    and "res = Inr d \<Longrightarrow> dense_shape (nat (batch s)) (nat m) d \<and> int (length offs) = batch s
      \<and> (\<forall>r < nat (batch s). \<forall>j < nat m. dense_at d r j = (if int j < offs ! r then token s (block_tables s ! r) (int j) else (zero_cell dev, zero_cell dev)))"
proof -
  let ?Q = "ticked s s' \<and> (works dev \<and> validate_offsets_allocated s offs = Inr () \<and> (\<forall>x \<in> set offs. x \<le> m) \<and> 0 \<le> m \<and> m \<le> cap s \<longrightarrow> res \<in> range Inr)
    \<and> (\<forall>d. res = Inr d \<longrightarrow> dense_shape (nat (batch s)) (nat m) d \<and> int (length offs) = batch s
      \<and> (\<forall>r < nat (batch s). \<forall>j < nat m. dense_at d r j = (if int j < offs ! r then token s (block_tables s ! r) (int j) else (zero_cell dev, zero_cell dev))))"
  have shape: "validate_offsets_shape_and_cap s offs = Inr ()" if "validate_offsets_allocated s offs = Inr ()"
    using that by (auto simp: validate_offsets_allocated_def split: sum.splits)
  consider (shape_bad) er where "validate_offsets_shape_and_cap s offs = Inl er"
    | (max_bad) "validate_offsets_shape_and_cap s offs = Inr ()" "(m < 0 \<or> m > cap s) \<or> list_ex (\<lambda>x. x > m) offs"
    | (good) "validate_offsets_shape_and_cap s offs = Inr ()" "\<not> (m < 0 \<or> m > cap s)" "\<not> list_ex (\<lambda>x. x > m) offs"
    by (cases "validate_offsets_shape_and_cap s offs") auto
  then have ?Q
  proof cases
    case shape_bad
    then have "res = Inl er" "s' = s" using e by (simp_all add: materialize_prefix_def)
    then show ?thesis using shape shape_bad by auto
  next
    case max_bad
    then have "materialize_prefix dev offs m s = (Inl BadArgument, s)"
      by (cases "m < 0 \<or> m > cap s") (simp_all add: materialize_prefix_def)
    then have "res = Inl BadArgument" "s' = s" using e by simp_all
    moreover have "\<not> ((\<forall>x \<in> set offs. x \<le> m) \<and> 0 \<le> m \<and> m \<le> cap s)" using max_bad(2) by (auto simp: list_ex_iff not_le [symmetric])
    ultimately show ?thesis by auto
  next
    case good
    have len: "int (length offs) = batch s" using good(1) by (simp add: validate_offsets_shape_and_cap_def split: if_splits)
    have mx: "\<forall>x \<in> set offs. x \<le> int (nat m)" using good(2,3) by (auto simp: list_ex_iff)
    show ?thesis
    proof (cases "m = 0")
      case True
      show ?thesis
      proof (cases rule: two_ops_cases [of dev s])
        case (ok k)
        then have r: "res = Inr (replicate (nat (batch s)) [], replicate (nat (batch s)) [])" "s' = s\<lparr>ticks := k\<rparr>"
          using e good True by (simp_all add: materialize_prefix_def)
        then show ?thesis using True len by (auto simp: dense_shape_def)
      next
        case (failed k)
        then have "res = Inl DeviceError" "s' = s\<lparr>ticks := k\<rparr>" using e good True by (simp_all add: materialize_prefix_def)
        then show ?thesis using failed by auto
      qed
    next
      case m0: False
      show ?thesis
      proof (cases "validate_offsets_allocated s offs")
        case (Inl er)
        then have "res = Inl er" "s' = s" using e good m0 by (simp_all add: materialize_prefix_def)
        then show ?thesis using Inl by auto
      next
        case (Inr u)
        then have va: "validate_offsets_allocated s offs = Inr ()" by simp
        let ?z = "replicate (nat (batch s)) (replicate (nat m) (zero_cell dev))"
        have dz: "dense_shape (nat (batch s)) (nat m) (?z, ?z)" by (simp add: dense_shape_def)
        have st: "store_ok s" and r: "rows_ok s" using i by (simp_all add: kv_inv_def)
        show ?thesis
        proof (cases rule: two_ops_cases [of dev s])
          case (ok k)
          let ?s = "s\<lparr>ticks := k\<rparr>"
          let ?rs = "zip (block_tables s) offs"
          have t: "ticked s ?s" by simp
          have rec: "materialize_rows dev 0 ?rs (?z, ?z) ?s = (res, s')" using e good m0 va ok by (simp add: materialize_prefix_def Let_def)
          have lr: "length ?rs = nat (batch s)" using len r by (simp add: rows_ok_def)
          have pre: "store_ok ?s" "\<forall>x \<in> set ?rs. row_readable ?s (nat m) x" "0 + length ?rs \<le> nat (batch s)"
            using st checked_rows_readable [OF i va mx] lr by (simp_all add: row_readable_ticked [OF t])
          note mr = materialize_rows_ok [OF pre(1,2) dz pre(3) rec]
          have "dense_at d q j = (if int j < offs ! q then token s (block_tables s ! q) (int j) else (zero_cell dev, zero_cell dev))"
            if "res = Inr d" "q < nat (batch s)" "j < nat m" for d q j
          proof -
            have q: "q < length ?rs" using that(2) lr by simp
            then have "?rs ! q = (block_tables s ! q, offs ! q)" by simp
            moreover have "dense_at (?z, ?z) q j = (zero_cell dev, zero_cell dev)" using that by (simp add: dense_at_def)
            ultimately show ?thesis using mr that(1,3) q token_ticked [OF t] by auto
          qed
          then show ?thesis using mr ticked_trans [OF t] len by blast
        next
          case (failed k)
          then have "res = Inl DeviceError" "s' = s\<lparr>ticks := k\<rparr>" using e good m0 va by (simp_all add: materialize_prefix_def Let_def)
          then show ?thesis using failed by auto
        qed
      qed
    qed
  qed
  then show "ticked s s'"
    and "works dev \<Longrightarrow> validate_offsets_allocated s offs = Inr () \<Longrightarrow> \<forall>x \<in> set offs. x \<le> m \<Longrightarrow> 0 \<le> m \<Longrightarrow> m \<le> cap s \<Longrightarrow> res \<in> range Inr"
    and "res = Inr d \<Longrightarrow> dense_shape (nat (batch s)) (nat m) d \<and> int (length offs) = batch s
      \<and> (\<forall>r < nat (batch s). \<forall>j < nat m. dense_at d r j = (if int j < offs ! r then token s (block_tables s ! r) (int j) else (zero_cell dev, zero_cell dev)))"
    by blast+
qed

end
