(* ===== verification/PagedKvReach.thy ===== *)
theory PagedKvReach
  imports PagedKvRead
begin

text \<open>
  The states a \<open>PagedKVCache\<close> (\<open>ironmlx/src/core/cache/paged_kv.rs\<close>) can get into, and the lemmas the
  properties of the cache rest on.
\<close>

definition kv_reach :: "'c kv_device \<Rightarrow> 'c paged_kv \<Rightarrow> bool" where
  "kv_reach dev s = (\<exists>b h kd vd dt c bs mp s0 ops. kv_new b h kd vd dt c bs mp = Inr s0
     \<and> run_ok (kv_step dev) kv_allowed s0 ops \<and> s = run_ops (kv_step dev) s0 ops)"

lemma kv_reachI:
  "kv_new b h kd vd dt c bs mp = Inr s0 \<Longrightarrow> run_ok (kv_step dev) kv_allowed s0 ops \<Longrightarrow> kv_reach dev (run_ops (kv_step dev) s0 ops)"
  unfolding kv_reach_def by blast

lemma reach_sound:
  assumes "kv_reach dev s"
  obtains E where "kv_inv E s"
proof -
  obtain b h kd vd dt c bs mp s0 ops where n: "kv_new b h kd vd dt c bs mp = Inr s0"
    and r: "run_ok (kv_step dev) kv_allowed s0 ops" and s: "s = run_ops (kv_step dev) s0 ops"
    using assms unfolding kv_reach_def by blast
  have "kv_sound s0" using kv_new_ok(1) [OF n] by (auto simp: kv_sound_def)
  then have "kv_sound s" unfolding s using r by (rule kv_any.run_inv)
  then show thesis using that by (auto simp: kv_sound_def)
qed

lemma reach_healthy:
  assumes "kv_reach dev s" and w: "works dev"
  shows "kv_inv {#} s" and "no_leak s"
proof -
  obtain b h kd vd dt c bs mp s0 ops where n: "kv_new b h kd vd dt c bs mp = Inr s0"
    and r: "run_ok (kv_step dev) kv_allowed s0 ops" and s: "s = run_ops (kv_step dev) s0 ops"
    using assms unfolding kv_reach_def by blast
  have "works dev \<longrightarrow> kv_healthy s0" using kv_new_ok [OF n] by (simp add: kv_healthy_def)
  then have "works dev \<longrightarrow> kv_healthy s" unfolding s using r by (rule kv_working.run_inv)
  then show "kv_inv {#} s" "no_leak s" using w by (simp_all add: kv_healthy_def)
qed

lemma bind_succeeds:
  assumes i: "kv_inv {#} s" and l: "no_leak s" and ws: "ws \<noteq> []" "distinct ws" "list_all (bindable s) ws"
  shows "fst (bind_execution_rows ws s) = Inr ()"
proof -
  obtain s' where s': "bind_execution_rows ws s = (validate_owner_invariants s', s')" "kv_inv {#} s'" "synced s'" "same_pool s s'"
    using bind_ok [OF i ws] by metis
  have "no_leak s'" using l same_pool_book(3) [OF s'(4)] by simp
  then show ?thesis using healthy_checks [OF s'(2) _ s'(3)] s'(1) by simp
qed

lemma release_result:
  assumes i: "kv_inv {#} s" and l: "no_leak s" and nx: "next_transient_owner s < u64_max" and e: "release_owner w s = (r, s')"
  shows "r = Inr (case w of Immutable k \<Rightarrow> map_of (immutable_pins s) k \<noteq> None | _ \<Rightarrow> tables s w \<noteq> None)"
  using i nx e
proof (cases rule: release_owner_ok)
  case absent
  then show ?thesis by (auto simp: is_immutable_def split: block_owner.splits)
next
  case (owner t)
  then show ?thesis using healthy_checks [OF owner(2) owner(7) [OF l] owner(9)]
    by (auto simp: passed_def is_immutable_def split: block_owner.splits)
next
  case (pin k h)
  then show ?thesis using healthy_checks [OF pin(2) pin(7) [OF l] pin(9)] by (simp add: passed_def)
qed

lemma new_tokens_zip:
  assumes "0 \<le> n" and "nat n \<le> length (t_rows k ! r)" and "nat n \<le> length (t_rows v ! r)"
  shows "new_tokens r k v n = zip (take (nat n) (t_rows k ! r)) (take (nat n) (t_rows v ! r))"
  by (rule nth_equalityI) (use assms in \<open>simp_all add: new_tokens_def row_token_def\<close>)

text \<open>What the input validation of an append gives its rows.\<close>

lemma append_new_tokens:
  assumes i: "kv_inv E s" and wf: "wf_tensor k" "wf_tensor v" and e: "append dev k v lens s = (Inr (), s')" and r: "r < length lens"
  shows "new_tokens r k v (lens ! r) = zip (take (nat (lens ! r)) (t_rows k ! r)) (take (nat (lens ! r)) (t_rows v ! r))"
proof -
  have "validate_update_inputs k v lens s = Inr ()" using e by (cases "validate_update_inputs k v lens s") (simp_all add: append_def)
  then have "rows_fit k v 0 lens s" using i wf by (rule validate_update_facts)
  then show ?thesis using r by (intro new_tokens_zip) (auto simp: rows_fit_def)
qed

lemma append_tokens:
  assumes i: "kv_inv E s" and wf: "wf_tensor k" "wf_tensor v" and e: "append dev k v lens s = (Inr (), s')"
  shows "kv_inv E s'" and "length lens = length (execution_owners s)" and "execution_owners s' = execution_owners s"
    and "pin_tokens s' = pin_tokens s" and "w \<notin> set (execution_owners s) \<Longrightarrow> owner_tokens s' w = owner_tokens s w"
    and "r < length lens \<Longrightarrow> owner_tokens s' (execution_owners s ! r) = map_option
      (\<lambda>old. old @ zip (take (nat (lens ! r)) (t_rows k ! r)) (take (nat (lens ! r)) (t_rows v ! r))) (owner_tokens s (execution_owners s ! r))"
proof -
  obtain m E' where m: "m = length lens" "length lens = length (execution_owners s)" "kv_inv E' s'" "E' = E"
    "pin_tokens s' = pin_tokens s" "execution_owners s' = execution_owners s"
    "extended k v 0 (take m lens) (execution_owners s) (owner_tokens s) (owner_tokens s')"
    using append_ok [OF i wf e] by auto
  show "kv_inv E s'" "length lens = length (execution_owners s)" "execution_owners s' = execution_owners s" "pin_tokens s' = pin_tokens s"
    using m by simp_all
  show "owner_tokens s' w = owner_tokens s w" if "w \<notin> set (execution_owners s)" using m(7) that by (simp add: extended_def)
  show "owner_tokens s' (execution_owners s ! r) = map_option
      (\<lambda>old. old @ zip (take (nat (lens ! r)) (t_rows k ! r)) (take (nat (lens ! r)) (t_rows v ! r))) (owner_tokens s (execution_owners s ! r))"
    if r: "r < length lens"
  proof -
    have "owner_tokens s' (execution_owners s ! r) = map_option (\<lambda>old. old @ new_tokens r k v (lens ! r)) (owner_tokens s (execution_owners s ! r))"
      using m r by (simp add: extended_def)
    then show ?thesis unfolding append_new_tokens [OF i wf e r] .
  qed
qed

lemma owner_tokens_row:
  assumes i: "kv_inv E s" and r: "r < length (execution_owners s)"
  shows "owner_tokens s (execution_owners s ! r) = Some (map (token s (block_tables s ! r)) [0..row_offsets s ! r - 1])"
  using i tables_row [of s r] r by (simp add: kv_inv_def owner_tokens_def table_tokens_def)

text \<open>A dense row as a list of tokens.\<close>

definition dense_row :: "'c list list \<times> 'c list list \<Rightarrow> nat \<Rightarrow> ('c \<times> 'c) list" where
  "dense_row d r = zip (fst d ! r) (snd d ! r)"

lemma read_row:
  assumes i: "kv_inv E s" and e: "materialize_prefix dev (row_offsets s) m s = (Inr d, s')" and r: "r < length (execution_owners s)"
    and m: "row_offsets s ! r \<le> m"
  shows "dense_row d r = the (owner_tokens s (execution_owners s ! r)) @ replicate (nat (m - row_offsets s ! r)) (zero_cell dev, zero_cell dev)"
proof -
  have ro: "rows_ok s" using i by (simp add: kv_inv_def)
  have b: "nat (batch s) = length (execution_owners s)" using ro by (simp add: rows_ok_def)
  have "table_ok s \<lparr>blocks = block_tables s ! r, offset = row_offsets s ! r\<rparr>"
    using i tables_row [OF ro r] by (auto simp: kv_inv_def cover_ok_def)
  then have x0: "0 \<le> row_offsets s ! r" by (simp add: table_ok_def)
  have d: "dense_shape (nat (batch s)) (nat m) d"
    "\<And>j. j < nat m \<Longrightarrow> dense_at d r j = (if int j < row_offsets s ! r then token s (block_tables s ! r) (int j) else (zero_cell dev, zero_cell dev))"
    using materialize_prefix_ok(3) [OF i e refl] r b by auto
  have l: "length (fst d ! r) = nat m" "length (snd d ! r) = nat m" using d(1) r b by (simp_all add: dense_shape_def)
  show ?thesis unfolding owner_tokens_row [OF i r] option.sel
  proof (rule nth_equalityI)
    show "length (dense_row d r) = length (map (token s (block_tables s ! r)) [0..row_offsets s ! r - 1]
        @ replicate (nat (m - row_offsets s ! r)) (zero_cell dev, zero_cell dev))"
      using l x0 m by (simp add: dense_row_def)
    fix j assume "j < length (dense_row d r)"
    then have j: "j < nat m" using l by (simp add: dense_row_def)
    have "dense_row d r ! j = dense_at d r j" using j l by (simp add: dense_row_def dense_at_def)
    then show "dense_row d r ! j = (map (token s (block_tables s ! r)) [0..row_offsets s ! r - 1]
        @ replicate (nat (m - row_offsets s ! r)) (zero_cell dev, zero_cell dev)) ! j"
      using d(2) [OF j] j x0 m by (auto simp: nth_append)
  qed
qed

lemma fold_max_ge: "x \<in> set xs \<Longrightarrow> x \<le> fold max xs (a :: int)" and fold_max_init: "a \<le> fold max xs a"
proof (induction xs arbitrary: a)
  case (Cons y ys)
  {
    case 1
    then show ?case using Cons.IH(1) [of "max y a"] Cons.IH(2) [of "max y a"] by auto
  next
    case 2
    then show ?case using Cons.IH(2) [of "max y a"] by simp
  }
qed simp_all

text \<open>Rewinding a row to at most its current offset keeps a prefix of its tokens.\<close>

lemma take_upto_map: "0 \<le> n \<Longrightarrow> n \<le> x \<Longrightarrow> map f [0..n - 1] = take (nat n) (map f [0..x - 1])"
  by (rule nth_equalityI) simp_all

end
