(* ===== verification/PagedKvProperties.thy ===== *)
theory PagedKvProperties
  imports PagedKvReach
begin

text \<open>
  The properties of \<open>PagedKVCache\<close> (\<open>ironmlx/src/core/cache/paged_kv.rs\<close>). They are stated for the states a
  cache reaches by its operations, on a device that may fail unless \<open>works dev\<close> is assumed, and against
  the view of the cache as a map from owners to token lists.
\<close>

section \<open>Concrete runs\<close>

definition good_dev :: "nat kv_device" where
  "good_dev = \<lparr>dev_ok = (\<lambda>_. True), zero_cell = 0\<rparr>"

text \<open>A device whose ninth operation fails.\<close>

definition weak_dev :: "nat kv_device" where
  "weak_dev = \<lparr>dev_ok = (\<lambda>n. n < 8), zero_cell = 0\<rparr>"

definition demo_tensor :: "nat kv_tensor" where
  "demo_tensor = \<lparr>t_dtype = 0, t_dims = [2, 1, 3, 1], t_rows = [[1, 2, 3], [4, 5, 6]]\<rparr>"

definition demo_new :: "nat paged_kv" where
  "demo_new = (case kv_new 2 1 1 1 0 8 2 6 of Inr s \<Rightarrow> s | Inl _ \<Rightarrow> undefined)"

definition demo :: "nat kv_device \<Rightarrow> nat kv_op list \<Rightarrow> nat paged_kv" where
  "demo dev ops = run_ops (kv_step dev) demo_new ops"

lemma demo_reach: "run_ok (kv_step dev) kv_allowed demo_new ops \<Longrightarrow> kv_reach dev (demo dev ops)"
proof -
  assume r: "run_ok (kv_step dev) kv_allowed demo_new ops"
  have "kv_new 2 1 1 1 0 8 2 6 = Inr demo_new" by (simp add: demo_new_def kv_new_def Let_def)
  then show ?thesis unfolding demo_def using r by (rule kv_reachI)
qed

lemma good_dev_works: "works good_dev"
  by (simp add: works_def good_dev_def)

lemma demo_wf: "wf_tensor demo_tensor"
  by (simp add: wf_tensor_def demo_tensor_def)

text \<open>Two rows bound, then three and one tokens appended, then the first owner forked.\<close>

definition bound_state :: "nat paged_kv" where
  "bound_state = demo_new\<lparr>execution_owners := [Request 0, Request 1],
     owned_tables := [(Request 0, \<lparr>blocks = [- 1, - 1, - 1, - 1], offset = 0\<rparr>),
       (Request 1, \<lparr>blocks = [- 1, - 1, - 1, - 1], offset = 0\<rparr>)]\<rparr>"

definition filled_state :: "nat paged_kv" where
  "filled_state = bound_state\<lparr>k_pages := Some [[1, 2], [3, 0], [4, 0], [0, 0], [0, 0], [0, 0]],
     v_pages := Some [[1, 2], [3, 0], [4, 0], [0, 0], [0, 0], [0, 0]],
     block_tables := [[0, 1, - 1, - 1], [2, - 1, - 1, - 1]],
     owned_tables := [(Request 0, \<lparr>blocks = [0, 1, - 1, - 1], offset = 3\<rparr>),
       (Request 1, \<lparr>blocks = [2, - 1, - 1, - 1], offset = 1\<rparr>)],
     page_ref_counts := [1, 1, 1, 0, 0, 0], page_generations := [1, 1, 1, 0, 0, 0], allocated_pages := 3,
     page_capacity := 6, row_offsets := [3, 1], ticks := 14\<rparr>"

lemma bound_state: "kv_step dev demo_new (OpBind [Request 0, Request 1]) = bound_state"
proof -
  have "snd (bind_execution_rows [Request 0, Request 1] demo_new) = bound_state" by code_simp
  then show ?thesis by simp
qed

lemma filled_state: "kv_step good_dev bound_state (OpAppend demo_tensor demo_tensor [3, 1]) = filled_state"
  by code_simp

lemma bound_reach: "kv_reach dev bound_state"
  using demo_reach [of dev "[OpBind [Request 0, Request 1]]"] by (simp add: demo_def bound_state bindable_def del: kv_step.simps One_nat_def)

lemma filled_reach: "kv_reach good_dev filled_state"
  using demo_reach [of good_dev "[OpBind [Request 0, Request 1], OpAppend demo_tensor demo_tensor [3, 1]]"]
  by (simp add: demo_def bound_state filled_state bindable_def demo_wf del: kv_step.simps One_nat_def)

section \<open>Appending\<close>

text \<open>
  C1: \<open>append_on\<close> refines appending to token lists: when it succeeds, the owner of every execution row
  reads its old tokens followed by its new ones, and every other owner and every pinned block reads what it
  read before, whatever pages they share with the rows (copy-on-write).
\<close>

theorem append_refines_lists:
  assumes "kv_reach dev s" and "wf_tensor k" and "wf_tensor v" and "append dev k v lens s = (Inr (), s')"
  shows "length lens = length (execution_owners s) \<and> execution_owners s' = execution_owners s
    \<and> (\<forall>r < length lens. owner_tokens s' (execution_owners s ! r) = map_option
        (\<lambda>old. old @ zip (take (nat (lens ! r)) (t_rows k ! r)) (take (nat (lens ! r)) (t_rows v ! r)))
        (owner_tokens s (execution_owners s ! r)))
    \<and> (\<forall>w. w \<notin> set (execution_owners s) \<longrightarrow> owner_tokens s' w = owner_tokens s w)
    \<and> pin_tokens s' = pin_tokens s"
proof -
  obtain E where i: "kv_inv E s" using assms(1) by (rule reach_sound)
  note a = append_tokens [OF i assms(2-4)]
  show ?thesis using a(2-6) by blast
qed

lemma filled_append: "append good_dev demo_tensor demo_tensor [3, 1] bound_state = (Inr (), filled_state)"
  by code_simp

theorem append_refines_lists_witness:
  "owner_tokens filled_state (Request 0) = Some [(1, 1), (2, 2), (3, 3)] \<and> owner_tokens filled_state (Request 1) = Some [(4, 4)]"
proof -
  note a = append_refines_lists [OF bound_reach demo_wf demo_wf filled_append]
  have o: "execution_owners bound_state = [Request 0, Request 1]" by (simp add: bound_state_def)
  have z: "owner_tokens bound_state (Request 0) = Some []" "owner_tokens bound_state (Request 1) = Some []" by code_simp+
  have "owner_tokens filled_state (execution_owners bound_state ! 0) = Some [(1, 1), (2, 2), (3, 3)]"
    using a z by (auto simp: o demo_tensor_def numeral_3_eq_3 less_Suc_eq_0_disj)
  moreover have "owner_tokens filled_state (execution_owners bound_state ! 1) = Some [(4, 4)]"
    using a z by (auto simp: o demo_tensor_def numeral_3_eq_3 less_Suc_eq_0_disj)
  ultimately show ?thesis by (simp add: o)
qed

text \<open>
  A failing append leaves no half-written row: the rows before some row have got all their new tokens,
  the others none, and no other owner and no pinned block sees a difference.
\<close>

theorem failed_append_is_clean:
  assumes "kv_reach dev s" and "wf_tensor k" and "wf_tensor v" and "append dev k v lens s = (Inl e, s')"
  shows "(\<exists>m \<le> length lens. extended k v 0 (take m lens) (execution_owners s) (owner_tokens s) (owner_tokens s'))
    \<and> execution_owners s' = execution_owners s \<and> pin_tokens s' = pin_tokens s"
proof -
  obtain E where i: "kv_inv E s" using assms(1) by (rule reach_sound)
  show ?thesis using append_ok [OF i assms(2-4)] by blast
qed

theorem failed_append_is_clean_witness:
  "fst (append weak_dev demo_tensor demo_tensor [3, 1] bound_state) = Inl DeviceError
   \<and> pin_tokens (snd (append weak_dev demo_tensor demo_tensor [3, 1] bound_state)) = pin_tokens bound_state"
proof -
  let ?m = "append weak_dev demo_tensor demo_tensor [3, 1] bound_state"
  have f: "fst ?m = Inl DeviceError" by code_simp
  then have "?m = (Inl DeviceError, snd ?m)" by (metis prod.collapse)
  from failed_append_is_clean [OF bound_reach demo_wf demo_wf this] f show ?thesis by blast
qed

section \<open>The ledger\<close>

text \<open>
  C3: on a device that does not fail, whatever operations have run, the stored count of every page is the
  number of table blocks and pins that refer to it, the free list holds exactly the allocated pages
  without references, each once, and binding any legitimate rows passes the checker the code runs.
\<close>

theorem pages_are_accounted:
  assumes "works dev" and "kv_reach dev s"
  shows "(\<forall>p \<ge> 0. page_ref_count s p = int (table_refs (tables s) p + pin_refs (immutable_pins s) p))
    \<and> (\<forall>p. (0 \<le> p \<and> p < allocated_pages s \<and> page_ref_count s p = 0) = (p \<in> set (free_pages s)))
    \<and> distinct (free_pages s) \<and> allocated_pages s \<le> max_pages s
    \<and> (\<forall>ws. ws \<noteq> [] \<and> distinct ws \<and> list_all (bindable s) ws \<longrightarrow> fst (bind_execution_rows ws s) = Inr ())"
proof -
  have i: "kv_inv {#} s" and l: "no_leak s" using reach_healthy [OF assms(2,1)] by blast+
  have b: "book (tables s) {#} s" using i by (simp add: kv_inv_def)
  have "page_ref_count s p = int (table_refs (tables s) p + pin_refs (immutable_pins s) p)" if "0 \<le> p" for p
    using book_count [OF b that] by (simp add: holders_def)
  moreover have "(0 \<le> p \<and> p < allocated_pages s \<and> page_ref_count s p = 0) = (p \<in> set (free_pages s))" for p
    using book_free [OF b, of p] l unfolding no_leak_def by blast
  moreover have "distinct (free_pages s)" "allocated_pages s \<le> max_pages s" using b by (simp_all add: book_def)
  moreover have "fst (bind_execution_rows ws s) = Inr ()" if "ws \<noteq> []" "distinct ws" "list_all (bindable s) ws" for ws
    using bind_succeeds [OF i l that] .
  ultimately show ?thesis by simp
qed

theorem pages_are_accounted_witness:
  "page_ref_count filled_state 1 = 1 \<and> fst (bind_execution_rows [Request 1, Request 7] filled_state) = Inr ()"
proof -
  note pages_are_accounted [OF good_dev_works filled_reach]
  then have "\<forall>ws. ws \<noteq> [] \<and> distinct ws \<and> list_all (bindable filled_state) ws \<longrightarrow> fst (bind_execution_rows ws filled_state) = Inr ()"
    by (elim conjE)
  from this [rule_format, of "[Request 1, Request 7]"] have "fst (bind_execution_rows [Request 1, Request 7] filled_state) = Inr ()"
    by (simp add: bindable_def)
  moreover have "page_ref_count filled_state 1 = 1" by code_simp
  ultimately show ?thesis by blast
qed

text \<open>
  C30: no page in use is ever free, even after tensor operations have failed: every page of an owner's table
  and every pinned page is allocated, backed by the tensors, counted and not on the free list, and the
  handle of every pin still validates.
\<close>

theorem no_page_in_use_is_free:
  assumes "kv_reach dev s"
  shows "(\<forall>w t p. tables s w = Some t \<and> p \<in> set (blocks t) \<and> 0 \<le> p \<longrightarrow>
      0 < page_ref_count s p \<and> p < allocated_pages s \<and> p < page_capacity s \<and> p \<notin> set (free_pages s))
    \<and> (\<forall>k h. map_of (immutable_pins s) k = Some h \<longrightarrow>
      validate_live_handle s h = Inr () \<and> handle_page h < page_capacity s \<and> handle_page h \<notin> set (free_pages s))"
proof -
  obtain E where i: "kv_inv E s" using assms by (rule reach_sound)
  have b: "book (tables s) E s" and st: "store_ok s" using i by (simp_all add: kv_inv_def)
  have live: "p < page_capacity s \<and> p \<notin> set (free_pages s)" if "0 < page_ref_count s p" for p
    using store_live(1) [OF st that] book_free [OF b, of p] that by auto
  have "0 < page_ref_count s p \<and> p < allocated_pages s \<and> p < page_capacity s \<and> p \<notin> set (free_pages s)"
    if "tables s w = Some t" "p \<in> set (blocks t)" "0 \<le> p" for w t p
    using table_live [OF b that] live by blast
  moreover have "validate_live_handle s h = Inr () \<and> handle_page h < page_capacity s \<and> handle_page h \<notin> set (free_pages s)"
    if "map_of (immutable_pins s) k = Some h" for k h
    using pin_live [OF b map_of_SomeD [OF that]] live by (simp add: pin_valid_def)
  ultimately show ?thesis by blast
qed

theorem no_page_in_use_is_free_witness:
  "tables filled_state (Request 0) = Some \<lparr>blocks = [0, 1, - 1, - 1], offset = 3\<rparr> \<and> (1 :: int) \<notin> set (free_pages filled_state)"
proof -
  have t: "tables filled_state (Request 0) = Some \<lparr>blocks = [0, 1, - 1, - 1], offset = 3\<rparr>" by code_simp
  then have "0 < page_ref_count filled_state 1 \<and> 1 < allocated_pages filled_state \<and> 1 < page_capacity filled_state
      \<and> 1 \<notin> set (free_pages filled_state)"
    using no_page_in_use_is_free [OF filled_reach, THEN conjunct1, rule_format, of "Request 0" "\<lparr>blocks = [0, 1, - 1, - 1], offset = 3\<rparr>" 1] by simp
  then show ?thesis using t by blast
qed

text \<open>
  C34: \<open>validate_owner_invariants\<close> is exact: the counting loops accept a cache if and only if the tables,
  pins, counts, free list, generations and rows satisfy the declarative statement of the invariant.
\<close>

theorem kv_checker_exact:
  assumes "0 \<le> allocated_pages s"
  shows "(validate_owner_invariants s = Inr ()) =
    (int (length (execution_owners s)) = batch s \<and> int (length (block_tables s)) = batch s
      \<and> (\<forall>(w, t) \<in> set (owned_tables s). \<not> is_immutable w \<and> length (blocks t) = nat (max_blocks_per_row s)
           \<and> 0 \<le> offset t \<and> offset t \<le> cap s \<and> (\<forall>p \<in> set (blocks t). p < int (nat (allocated_pages s))))
      \<and> (\<forall>(k, h) \<in> set (immutable_pins s). validate_live_handle s h = Inr () \<and> 0 \<le> block_index h \<and> block_index h < max_blocks_per_row s)
      \<and> (\<forall>i < min (nat (allocated_pages s)) (length (page_ref_counts s)). page_ref_counts s ! i = int (stored_refs s (int i)))
      \<and> distinct (free_pages s)
      \<and> (\<forall>p \<in> set (free_pages s). 0 \<le> p \<and> p < allocated_pages s \<and> page_ref_count s p = 0)
      \<and> card {i. i < nat (allocated_pages s) \<and> stored_refs s (int i) = 0} = length (free_pages s)
      \<and> nat (allocated_pages s) \<le> length (page_generations s)
      \<and> (\<forall>row < length (execution_owners s). map_option blocks (map_of (owned_tables s) (execution_owners s ! row)) = Some (block_tables s ! row)))"
  using validate_exact [OF assms] unfolding owner_invariants_def stored_table_ok_def pin_valid_def by simp

theorem kv_checker_exact_witness:
  "validate_owner_invariants filled_state = Inr () \<and> distinct (free_pages filled_state)"
proof -
  have "0 \<le> allocated_pages filled_state" by code_simp
  moreover have "validate_owner_invariants filled_state = Inr ()" by code_simp
  ultimately show ?thesis using kv_checker_exact [of filled_state] by blast
qed

end
