(* ===== verification/PagedKvSharing.thy ===== *)
theory PagedKvSharing
  imports PagedKvProperties
begin

text \<open>
  Further properties of \<open>PagedKVCache\<close> (\<open>ironmlx/src/core/cache/paged_kv.rs\<close>): forks, releases, pinned
  prefixes and their handles, dense reads, rewinding and resetting, all as equations on the map from
  owners to tokens.
\<close>

section \<open>Concrete states\<close>

lemma reach_step:
  assumes "kv_reach dev s" and "kv_allowed s x"
  shows "kv_reach dev (kv_step dev s x)"
proof -
  obtain b h kd vd dt c bs mp s0 ops where n: "kv_new b h kd vd dt c bs mp = Inr s0"
    and r: "run_ok (kv_step dev) kv_allowed s0 ops" and s: "s = run_ops (kv_step dev) s0 ops"
    using assms(1) unfolding kv_reach_def by blast
  have "run_ok (kv_step dev) kv_allowed s0 (ops @ [x])"
    using r assms(2) unfolding s by (induction ops arbitrary: s0) auto
  from kv_reachI [OF n this] show ?thesis by (simp add: run_ops_append s)
qed

text \<open>A third request forked from the first; then the first block of the first owner pinned.\<close>

definition forked_state :: "nat paged_kv" where
  "forked_state = snd (fork_owner (Request 0) (Request 2) filled_state)"

definition pinned_state :: "nat paged_kv" where
  "pinned_state = snd (pin_immutable_block (Request 0) 0 7 forked_state)"

lemma forked_reach: "kv_reach good_dev forked_state"
  using reach_step [OF filled_reach, of "OpFork (Request 0) (Request 2)"] by (simp add: forked_state_def bindable_def)

lemma pinned_reach: "kv_reach good_dev pinned_state"
  using reach_step [OF forked_reach, of "OpPin (Request 0) 0 7"] by (simp add: pinned_state_def)

section \<open>Forking\<close>

text \<open>
  A successful fork gives the destination the source's tokens and takes no page: no other owner and no
  pinned block changes, the tensors and the pages available to the pool stay as they are.
\<close>

theorem fork_shares_tokens:
  assumes "kv_reach dev s" and "bindable s d" and "fork_owner w d s = (Inr (), s')"
  shows "owner_tokens s w \<noteq> None \<and> owner_tokens s' = (owner_tokens s)(d := owner_tokens s w) \<and> pin_tokens s' = pin_tokens s
    \<and> (\<forall>t. owner_tokens s d = Some t \<longrightarrow> t = [])"
proof -
  obtain E where i: "kv_inv E s" using assms(1) by (rule reach_sound)
  from i assms(2,3) show ?thesis
  proof (cases rule: fork_owner_ok)
    case (rejected e)
    then show ?thesis by simp
  next
    case (forked t)
    have "owner_tokens s' = (owner_tokens s)(d := owner_tokens s w)"
      by (rule fork_tokens [OF i forked(8,11,5,7)])
    moreover have "pin_tokens s' j = pin_tokens s j" for j
      by (rule pin_tokens_same_cells [OF i forked(8,11)]) (simp add: forked(10))
    moreover have "owner_tokens s w \<noteq> None" using forked(5) by (simp add: owner_tokens_def)
    moreover have "u = []" if "owner_tokens s d = Some u" for u
      using that forked(6) by (auto simp: owner_tokens_def table_is_empty_def table_tokens_def)
    ultimately show ?thesis by auto
  qed
qed

theorem fork_shares_tokens_witness:
  "owner_tokens forked_state (Request 2) = owner_tokens filled_state (Request 0) \<and> owner_tokens filled_state (Request 0) \<noteq> None"
proof -
  have "fst (fork_owner (Request 0) (Request 2) filled_state) = Inr ()" by code_simp
  then have "fork_owner (Request 0) (Request 2) filled_state = (Inr (), forked_state)"
    unfolding forked_state_def by (metis prod.collapse)
  from fork_shares_tokens [OF filled_reach _ this] show ?thesis by (simp add: bindable_def)
qed

section \<open>Releasing\<close>

lemma contents_cell_at: "same_contents s s' \<Longrightarrow> cell_at s' = cell_at s"
  by (intro ext) (simp add: cell_at_def same_contents_def)

lemma contents_tokens:
  assumes "same_contents s s'"
  shows "table_tokens s' = table_tokens s" and "block_size s' = block_size s"
proof -
  show b: "block_size s' = block_size s" using assms by (simp add: same_contents_def)
  show "table_tokens s' = table_tokens s"
    by (intro ext) (simp add: table_tokens_def token_def contents_cell_at [OF assms] b)
qed

lemma contents_pin_tokens:
  assumes "same_contents s s'"
  shows "pin_tokens s' k = map_option (\<lambda>h. map (cell_at s (handle_page h)) [0..<nat (block_size s)]) (map_of (immutable_pins s') k)"
  by (simp add: pin_tokens_def contents_cell_at [OF assms] contents_tokens(2) [OF assms])

text \<open>
  On a device that does not fail, \<open>release_owner\<close> says whether there was anything to release and
  forgets exactly that owner or pin: it loses its tokens, every other owner and pin keeps its own (a row
  the owner executed in goes on as a fresh empty owner), and releasing it again is a no-op that says so.
\<close>

theorem release_forgets_owner:
  assumes "works dev" and "kv_reach dev s" and "next_transient_owner s < u64_max" and "release_owner w s = (r, s')"
  shows "r = Inr (case w of Immutable k \<Rightarrow> pin_tokens s k \<noteq> None | _ \<Rightarrow> owner_tokens s w \<noteq> None)
    \<and> owner_tokens s' w = None
    \<and> (\<forall>v. v \<noteq> w \<and> owner_tokens s v \<noteq> None \<longrightarrow> owner_tokens s' v = owner_tokens s v)
    \<and> pin_tokens s' = (case w of Immutable k \<Rightarrow> (pin_tokens s)(k := None) | _ \<Rightarrow> pin_tokens s)
    \<and> (next_transient_owner s' < u64_max \<longrightarrow> fst (release_owner w s') = Inr False)"
proof -
  have i: "kv_inv {#} s" and l: "no_leak s" using reach_healthy [OF assms(2,1)] by blast+
  have f: "fresh_ok s" and ro: "rows_ok s" using i by (simp_all add: kv_inv_def)
  have r: "r = Inr (case w of Immutable k \<Rightarrow> pin_tokens s k \<noteq> None | _ \<Rightarrow> owner_tokens s w \<noteq> None)"
    using release_result [OF i l assms(3,4)] by (simp add: pin_tokens_def owner_tokens_def split: block_owner.splits)
  have pins: "pin_tokens s' = (case w of Immutable k \<Rightarrow> (pin_tokens s)(k := None) | _ \<Rightarrow> pin_tokens s)"
    if c: "same_contents s s'" "immutable_pins s' = (case w of Immutable k \<Rightarrow> AList.delete k (immutable_pins s) | _ \<Rightarrow> immutable_pins s)"
  proof
    show "pin_tokens s' j = (case w of Immutable k \<Rightarrow> (pin_tokens s)(k := None) | _ \<Rightarrow> pin_tokens s) j" for j
      unfolding contents_pin_tokens [OF c(1)] c(2) by (simp add: pin_tokens_def delete_conv' split: block_owner.splits)
  qed
  have again: "fst (release_owner w s') = Inr False"
    if "kv_inv {#} s'" "no_leak s'" "owner_tokens s' w = None" "next_transient_owner s' < u64_max"
      "\<And>k. w = Immutable k \<Longrightarrow> pin_tokens s' k = None"
  proof -
    obtain r2 s2 where e: "release_owner w s' = (r2, s2)" by fastforce
    then show ?thesis using release_result [OF that(1,2,4) e] that(3,5)
      by (auto simp: owner_tokens_def pin_tokens_def split: block_owner.splits)
  qed
  have none: "tables s w = None" if im: "is_immutable w"
  proof (rule ccontr)
    assume "tables s w \<noteq> None"
    then have "w \<in> fst ` set (owned_tables s)" unfolding tables_dom [OF ro, symmetric] by blast
    then obtain t where "(w, t) \<in> set (owned_tables s)" by auto
    then show False using ro im by (auto simp: rows_ok_def)
  qed
  have same: "owner_tokens s' = owner_tokens s" if "tables s' = tables s" "same_contents s s'"
    by (rule ext) (simp add: owner_tokens_def that(1) contents_tokens [OF that(2)])
  from i assms(3,4) show ?thesis
  proof (cases rule: release_owner_ok)
    case absent
    have w: "owner_tokens s' w = None" using absent(3,8) none by (auto simp: owner_tokens_def is_immutable_def)
    have p: "pin_tokens s' j = (case w of Immutable k \<Rightarrow> (pin_tokens s)(k := None) | _ \<Rightarrow> pin_tokens s) j" for j
      unfolding contents_pin_tokens [OF absent(4)] absent(6) using absent(8)
      by (auto simp: pin_tokens_def is_immutable_def split: block_owner.splits)
    then have p: "pin_tokens s' = (case w of Immutable k \<Rightarrow> (pin_tokens s)(k := None) | _ \<Rightarrow> pin_tokens s)" by (rule ext)
    show ?thesis using r w p same [OF absent(3,4)] again [OF absent(2) _ w] absent(5) l by (auto split: block_owner.splits)
  next
    case (owner t)
    note o' = released_tokens [OF owner(6,5)]
    have nw: "w \<noteq> Transient (next_transient_owner s)"
    proof
      assume e: "w = Transient (next_transient_owner s)"
      have "w \<in> fst ` set (owned_tables s)" unfolding tables_dom [OF ro, symmetric] using owner(4) by blast
      then show False using f e unfolding fresh_ok_def by (metis less_irrefl)
    qed
    have w: "owner_tokens s' w = None" using nw by (simp add: o')
    have v: "owner_tokens s' v = owner_tokens s v" if "v \<noteq> w" "owner_tokens s v \<noteq> None" for v
    proof -
      have "v \<in> fst ` set (owned_tables s)" unfolding tables_dom [OF ro, symmetric] using that(2) by (auto simp: owner_tokens_def)
      then have "v \<noteq> Transient (next_transient_owner s)" using f unfolding fresh_ok_def by (metis less_irrefl)
      then show ?thesis using that(1) by (simp add: o')
    qed
    have p: "pin_tokens s' = pin_tokens s"
      by (rule ext) (unfold contents_pin_tokens [OF owner(6)] owner(8), simp add: pin_tokens_def)
    show ?thesis using r w v p again [OF owner(2) owner(7) [OF l] w] owner(3) by (auto simp: is_immutable_def split: block_owner.splits)
  next
    case (pin k h)
    have w: "owner_tokens s' w = None" using pin(3,5) none by (simp add: owner_tokens_def is_immutable_def)
    have p: "pin_tokens s' = (pin_tokens s)(k := None)" using pins [OF pin(6)] pin(3,8) by simp
    show ?thesis using r w p same [OF pin(5,6)] again [OF pin(2) pin(7) [OF l] w] pin(3) by simp
  qed
qed

theorem release_forgets_owner_witness:
  "fst (release_owner (Request 0) forked_state) = Inr True
   \<and> owner_tokens (snd (release_owner (Request 0) forked_state)) (Request 0) = None
   \<and> owner_tokens (snd (release_owner (Request 0) forked_state)) (Request 2) = Some [(1, 1), (2, 2), (3, 3)]"
proof -
  let ?m = "release_owner (Request 0) forked_state"
  have n: "next_transient_owner forked_state < u64_max"
  proof -
    have "next_transient_owner forked_state = 2" by code_simp
    then show ?thesis by (simp add: u64_max_def)
  qed
  have "?m = (fst ?m, snd ?m)" by simp
  note a = release_forgets_owner [OF good_dev_works forked_reach n this]
  have t: "owner_tokens forked_state (Request 2) = Some [(1, 1), (2, 2), (3, 3)]" "owner_tokens forked_state (Request 0) \<noteq> None"
    by code_simp+
  then show ?thesis using a [THEN conjunct1] a [THEN conjunct2, THEN conjunct1]
      a [THEN conjunct2, THEN conjunct2, THEN conjunct1, rule_format, of "Request 2"] by simp
qed

section \<open>Starting from pinned blocks\<close>

text \<open>
  A request installed on a pinned prefix reads the tokens of the pinned pages, in order, and nothing
  else changes: other owners and the pins keep their tokens.
\<close>

theorem prefix_start_reads_blocks:
  assumes "kv_reach dev s" and "int (length hs) * block_size s \<le> cap s" and "install_immutable_prefix d hs s = (Inr (), s')"
  shows "owner_tokens s' = (owner_tokens s)(d \<mapsto> concat (map (page_tokens s) hs)) \<and> pin_tokens s' = pin_tokens s
    \<and> (\<forall>k h. map_of (immutable_pins s) k = Some h \<longrightarrow> pin_tokens s k = Some (page_tokens s h))"
proof -
  obtain E where i: "kv_inv E s" using assms(1) by (rule reach_sound)
  have b: "0 < block_size s" using i by (simp add: kv_inv_def store_ok_def)
  have bk: "book (tables s) E s" using i by (simp add: kv_inv_def)
  from i assms(3,2) show ?thesis
  proof (cases rule: install_prefix_ok)
    case (rejected e)
    then show ?thesis by simp
  next
    case installed
    have "owner_tokens s' v = ((owner_tokens s)(d \<mapsto> concat (map (page_tokens s) hs))) v" for v
    proof (cases "v = d")
      case True
      have "cell_at s' (handle_page h) = cell_at s (handle_page h)" if "h \<in> set hs" for h
        using installed(8) that by (intro same_cells_at [OF installed(4)]) (simp add: live_handle_iff)
      then have "map (page_tokens s') hs = map (page_tokens s) hs" by (simp add: page_tokens_def installed(7))
      moreover have iv: "0 < block_size s'" "length hs \<le> nat (max_blocks_per_row s')"
      proof -
        show "0 < block_size s'" using b by (simp add: installed(7))
        have "tables s' d = Some (prefix_table hs s)" by (simp add: installed(3))
        then have "length (blocks (prefix_table hs s)) = nat (max_blocks_per_row s')"
          using installed(2) tables_length [of s' d] by (simp add: kv_inv_def)
        then show "length hs \<le> nat (max_blocks_per_row s')" using installed(9) by (simp add: prefix_table_def)
      qed
      moreover have "prefix_table hs s = prefix_table hs s'"
      proof -
        have "tables s' d = Some (prefix_table hs s)" by (simp add: installed(3))
        then have "length (blocks (prefix_table hs s)) = nat (max_blocks_per_row s')"
          using installed(2) tables_length [of s' d] by (simp add: kv_inv_def)
        then show ?thesis using installed(7,9) by (simp add: prefix_table_def)
      qed
      ultimately have "table_tokens s' (prefix_table hs s) = concat (map (page_tokens s) hs)" using prefix_tokens by metis
      then show ?thesis using True by (simp add: owner_tokens_def installed(3))
    next
      case False
      then show ?thesis using owner_tokens_same_cells [OF i installed(4,7)] by (simp add: installed(3))
    qed
    moreover have "pin_tokens s' j = pin_tokens s j" for j
      by (rule pin_tokens_same_cells [OF i installed(4,7)]) (simp add: installed(6))
    ultimately show ?thesis by (auto simp: pin_tokens_def page_tokens_def)
  qed
qed

theorem prefix_start_reads_blocks_witness:
  "owner_tokens (snd (install_immutable_prefix (Request 9) [\<lparr>block_index = 0, handle_page = 0, generation = 1\<rparr>] pinned_state)) (Request 9)
     = Some [(1, 1), (2, 2)]"
proof -
  let ?hs = "[\<lparr>block_index = 0, handle_page = 0, generation = 1\<rparr>]"
  let ?m = "install_immutable_prefix (Request 9) ?hs pinned_state"
  have "fst ?m = Inr ()" by code_simp
  then have m: "?m = (Inr (), snd ?m)" by (metis prod.collapse)
  have "int (length ?hs) * block_size pinned_state \<le> cap pinned_state" by code_simp
  note a = prefix_start_reads_blocks [OF pinned_reach this m]
  have "concat (map (page_tokens pinned_state) ?hs) = [(1, 1), (2, 2)]" by code_simp
  then show ?thesis using a by simp
qed

section \<open>Reading\<close>

text \<open>What row \<open>r\<close> holds after an update, and the length of the longest row.\<close>

definition updated_row :: "'c kv_tensor \<Rightarrow> 'c kv_tensor \<Rightarrow> int list \<Rightarrow> 'c paged_kv \<Rightarrow> nat \<Rightarrow> ('c \<times> 'c) list" where
  "updated_row k v lens s r = the (owner_tokens s (execution_owners s ! r))
     @ zip (take (nat (lens ! r)) (t_rows k ! r)) (take (nat (lens ! r)) (t_rows v ! r))"

definition longest_row :: "'c kv_tensor \<Rightarrow> 'c kv_tensor \<Rightarrow> int list \<Rightarrow> 'c paged_kv \<Rightarrow> nat" where
  "longest_row k v lens s = Max (set (map (\<lambda>r. length (updated_row k v lens s r)) [0..<length lens]))"

lemma fold_max_nat: "xs \<noteq> [] \<Longrightarrow> \<forall>x \<in> set xs. 0 \<le> x \<Longrightarrow> nat (fold max xs 0) = Max (nat ` set xs)"
proof -
  assume n: "xs \<noteq> []" and p: "\<forall>x \<in> set xs. 0 \<le> (x :: int)"
  have f: "fold max xs (0 :: int) = Max (insert 0 (set xs))" using Max.set_eq_fold [of 0 xs] by simp
  have "Max (insert 0 (set xs)) = Max (set xs)"
    using n p by (subst Max_insert) (auto simp: max_def Max_ge_iff intro: antisym)
  moreover have "nat (Max (set xs)) = Max (nat ` set xs)"
    using n by (intro mono_Max_commute) (auto simp: mono_def)
  ultimately show ?thesis using f by simp
qed

text \<open>
  C2: \<open>update_and_fetch\<close> returns, for every execution row, the tokens its owner had, then the new ones, then zeros up to
  the longest row, and no further; when no row gets a new token it returns rows without any token.
\<close>

theorem fetch_returns_rows:
  assumes "kv_reach dev s" and "wf_tensor k" and "wf_tensor v" and "update_and_fetch dev k v lens s = (Inr d, s')" and "r < length lens"
  shows "dense_row d r = (if list_all (\<lambda>n. n = 0) lens then []
      else updated_row k v lens s r @ replicate (longest_row k v lens s - length (updated_row k v lens s r)) (zero_cell dev, zero_cell dev))"
proof (cases "list_all (\<lambda>n. n = 0) lens")
  case True
  obtain E where i: "kv_inv E s" using assms(1) by (rule reach_sound)
  have "validate_update_inputs k v lens s = Inr ()" "d = (replicate (nat (batch s)) [], replicate (nat (batch s)) [])"
    using assms(4) True by (auto simp: update_and_fetch_def andthen_def two_ops_def tensor_op_def split: sum.splits if_splits)
  moreover have "r < nat (batch s)" using calculation(1) assms(5) by (auto simp: validate_update_inputs_def split: if_splits sum.splits)
  ultimately show ?thesis using True by (simp add: dense_row_def)
next
  case False
  obtain E where i: "kv_inv E s" using assms(1) by (rule reach_sound)
  obtain s1 where a: "append dev k v lens s = (Inr (), s1)"
    and f: "materialize_prefix dev (row_offsets s1) (fold max (row_offsets s1) 0) s1 = (Inr d, s')"
    using assms(4) False by (cases "append dev k v lens s") (auto simp: update_and_fetch_def andthen_def split: sum.splits)
  note t = append_tokens [OF i assms(2,3) a]
  have l: "length (row_offsets s1) = length lens" using t(1-3) by (simp add: kv_inv_def rows_ok_def)
  let ?m = "fold max (row_offsets s1) 0" and ?row = "updated_row k v lens s"
  have len: "0 \<le> row_offsets s1 ! q \<and> length (?row q) = nat (row_offsets s1 ! q) \<and> owner_tokens s1 (execution_owners s1 ! q) = Some (?row q)"
    if q: "q < length lens" for q
  proof -
    have r1: "q < length (execution_owners s1)" "q < length (execution_owners s)" using q t(2,3) by simp_all
    obtain old where "owner_tokens s (execution_owners s ! q) = Some old" using owner_tokens_row [OF i r1(2)] by simp
    then have row: "owner_tokens s1 (execution_owners s1 ! q) = Some (?row q)" using t(6) [OF q] by (simp add: t(3) updated_row_def)
    then have "?row q = map (token s1 (block_tables s1 ! q)) [0..row_offsets s1 ! q - 1]" using owner_tokens_row [OF t(1) r1(1)] by simp
    from arg_cong [OF this, of length] have "length (?row q) = nat (row_offsets s1 ! q)" by simp
    moreover have "table_ok s1 \<lparr>blocks = block_tables s1 ! q, offset = row_offsets s1 ! q\<rparr>"
      using t(1) tables_row [of s1 q] r1 by (simp add: kv_inv_def cover_ok_def)
    ultimately show ?thesis using row by (simp add: table_ok_def)
  qed
  have "nat ` set (row_offsets s1) = set (map (\<lambda>q. length (?row q)) [0..<length lens])"
    using len l by (force simp: in_set_conv_nth image_iff)
  moreover have "\<forall>x \<in> set (row_offsets s1). 0 \<le> x" "row_offsets s1 \<noteq> []" using len l assms(5) by (auto simp: in_set_conv_nth)
  ultimately have m: "nat ?m = longest_row k v lens s" by (simp add: fold_max_nat longest_row_def)
  have "row_offsets s1 ! r \<le> ?m" using assms(5) l by (intro fold_max_ge) simp
  moreover have "r < length (execution_owners s1)" using assms(5) t(2,3) by simp
  ultimately have "dense_row d r = ?row r @ replicate (nat ?m - length (?row r)) (zero_cell dev, zero_cell dev)"
    using read_row [OF t(1) f] len [OF assms(5)] by (simp add: nat_diff_distrib)
  then show ?thesis using m False by simp
qed

theorem fetch_returns_rows_witness:
  "\<exists>d. fst (update_and_fetch good_dev demo_tensor demo_tensor [3, 1] bound_state) = Inr d
     \<and> dense_row d 0 = [(1, 1), (2, 2), (3, 3)] \<and> length (dense_row d 1) = 3"
proof -
  let ?m = "update_and_fetch good_dev demo_tensor demo_tensor [3, 1] bound_state"
  obtain d where d: "fst ?m = Inr d"
  proof -
    have "\<not> isl (fst ?m)" by code_simp
    then show thesis using that by (cases "fst ?m") auto
  qed
  then have m: "?m = (Inr d, snd ?m)" by (metis prod.collapse)
  have o: "execution_owners bound_state = [Request 0, Request 1]" by (simp add: bound_state_def)
  have z: "owner_tokens bound_state (Request 0) = Some []" "owner_tokens bound_state (Request 1) = Some []" by code_simp+
  have rows: "updated_row demo_tensor demo_tensor [3, 1] bound_state 0 = [(1, 1), (2, 2), (3, 3)]"
    "length (updated_row demo_tensor demo_tensor [3, 1] bound_state 1) = 1"
    using z by (simp_all add: updated_row_def o demo_tensor_def numeral_3_eq_3)
  have long: "longest_row demo_tensor demo_tensor [3, 1] bound_state = 3" using rows by (simp add: longest_row_def)
  show ?thesis using d fetch_returns_rows [OF bound_reach demo_wf demo_wf m, of 0] fetch_returns_rows [OF bound_reach demo_wf demo_wf m, of 1]
    by (simp add: rows long del: One_nat_def)
qed

section \<open>Rewinding\<close>

text \<open>
  Rewinding (\<open>restore_offsets\<close> with offsets no larger than the current ones) cuts every execution row
  to a prefix of its tokens, on the pages it shares too, and changes no other owner and no pin.
\<close>

theorem rewind_keeps_prefix:
  assumes "kv_reach dev s" and "list_all2 (\<le>) ns (row_offsets s)" and "restore_offsets ns s = (Inr (), s')"
  shows "(\<forall>r < length (execution_owners s). owner_tokens s' (execution_owners s ! r)
        = map_option (take (nat (ns ! r))) (owner_tokens s (execution_owners s ! r)))
    \<and> (\<forall>w. w \<notin> set (execution_owners s) \<longrightarrow> owner_tokens s' w = owner_tokens s w) \<and> pin_tokens s' = pin_tokens s"
proof -
  obtain E where i: "kv_inv E s" using assms(1) by (rule reach_sound)
  from i assms(3) show ?thesis
  proof (cases rule: restore_offsets_ok)
    case (rejected e)
    then show ?thesis by simp
  next
    case restored
    have "owner_tokens s' (execution_owners s ! r) = map_option (take (nat (ns ! r))) (owner_tokens s (execution_owners s ! r))"
      if r: "r < length (execution_owners s)" for r
    proof -
      have n: "ns ! r \<le> row_offsets s ! r" using assms(2) r restored(5) by (simp add: list_all2_conv_all_nth)
      have "map (token s (block_tables s ! r)) [0..ns ! r - 1] = take (nat (ns ! r)) (map (token s (block_tables s ! r)) [0..row_offsets s ! r - 1])"
        using take_upto_map [OF _ n] by (cases "0 \<le> ns ! r") simp_all
      then show ?thesis using restored(9) [of r] r restored(5) owner_tokens_row [OF i r] by simp
    qed
    then show ?thesis using restored(7,8) by blast
  qed
qed

theorem rewind_keeps_prefix_witness:
  "owner_tokens (snd (restore_offsets [1, 1] forked_state)) (Request 0) = Some [(1, 1)]
   \<and> owner_tokens (snd (restore_offsets [1, 1] forked_state)) (Request 2) = Some [(1, 1), (2, 2), (3, 3)]"
proof -
  let ?m = "restore_offsets [1, 1] forked_state"
  have "fst ?m = Inr ()" by code_simp
  then have m: "?m = (Inr (), snd ?m)" by (metis prod.collapse)
  have o: "execution_owners forked_state = [Request 0, Request 1]" by code_simp
  have "list_all2 (\<le>) [1, 1] (row_offsets forked_state)" by code_simp
  note a = rewind_keeps_prefix [OF forked_reach this m]
  have t: "owner_tokens forked_state (Request 2) = Some [(1, 1), (2, 2), (3, 3)]"
    "owner_tokens forked_state (Request 0) = Some [(1, 1), (2, 2), (3, 3)]" by code_simp+
  show ?thesis
    using a [THEN conjunct1, rule_format, of 0] a [THEN conjunct2, THEN conjunct1, rule_format, of "Request 2"] by (simp add: o t)
qed

end
