(* ===== verification/PagedKvRecycling.thy ===== *)
theory PagedKvRecycling
  imports PagedKvSharing
begin

text \<open>
  The life of pages in \<open>PagedKVCache\<close> (\<open>ironmlx/src/core/cache/paged_kv.rs\<close>): shapes that never change,
  generations that tell recycled pages from live ones, what \<open>KVCache::reset\<close> repairs and what it
  forgets, and what a failed growth of the page tensors leaves behind.
\<close>

section \<open>Shapes\<close>

text \<open>
  C36: the cache keeps its shape whatever happens: one table, one owner and one offset per execution row,
  every table row \<open>max_blocks_per_row\<close> wide, distinct owners none of which is an immutable pin, tables wide
  enough for the cap, and both page tensors \<open>page_capacity\<close> pages of \<open>block_size\<close> cells.
\<close>

theorem cache_keeps_its_shape:
  assumes "kv_reach dev s"
  shows "int (length (execution_owners s)) = batch s \<and> int (length (block_tables s)) = batch s \<and> int (length (row_offsets s)) = batch s
    \<and> list_all (\<lambda>row. int (length row) = max_blocks_per_row s) (block_tables s)
    \<and> list_all (\<lambda>(w, t). \<not> is_immutable w \<and> int (length (blocks t)) = max_blocks_per_row s) (owned_tables s)
    \<and> distinct (execution_owners s) \<and> distinct (map fst (owned_tables s)) \<and> distinct (map fst (immutable_pins s))
    \<and> cap s \<le> max_blocks_per_row s * block_size s \<and> page_capacity s \<le> max_pages s
    \<and> store_dims s (k_pages s) \<and> store_dims s (v_pages s)"
proof -
  obtain E where i: "kv_inv E s" using assms by (rule reach_sound)
  have r: "rows_ok s" and st: "store_ok s" and b: "book (tables s) E s" using i by (simp_all add: kv_inv_def)
  have m: "0 < max_blocks_per_row s" using r by (simp add: rows_ok_def)
  have "list_all (\<lambda>row. int (length row) = max_blocks_per_row s) (block_tables s)"
    "list_all (\<lambda>(w, t). \<not> is_immutable w \<and> int (length (blocks t)) = max_blocks_per_row s) (owned_tables s)"
    using r m by (auto simp: rows_ok_def list_all_iff)
  then show ?thesis using r st b by (simp add: rows_ok_def store_ok_def book_def)
qed

theorem cache_keeps_its_shape_witness:
  "store_dims forked_state (k_pages forked_state) \<and> int (length (block_tables forked_state)) = batch forked_state"
  using cache_keeps_its_shape [OF forked_reach] by blast

section \<open>Handles\<close>

text \<open>
  C32: allocating a page does not bring back to life a dead handle of a generation that the page has had since the last
  reset, as long as the counter of generations of that page is not saturated: such a handle, one that does not
  validate before, does not validate after, even when the allocation recycles its page, and one that validates
  before still does.
\<close>

theorem stale_handles_are_rejected:
  assumes "kv_reach dev s" and "allocate_page dev s = (Inr p, s')"
    and "generation h \<le> page_generation s (handle_page h)" and "page_generation s (handle_page h) < u64_max"
  shows "(validate_live_handle s' h = Inr ()) = (validate_live_handle s h = Inr ())"
proof -
  obtain E where i: "kv_inv E s" using assms(1) by (rule reach_sound)
  have b: "book (tables s) E s" and st: "store_ok s" using i by (simp_all add: kv_inv_def)
  note a = allocate_page_facts [OF b st assms(2)]
  have p: "book (tables s) (add_mset p E) s'" "page_ref_count s p = 0" "page_generation s' p = max (sat_add (page_generation s p) 1) 1"
    using a(3) by auto
  show ?thesis
  proof (cases "handle_page h = p")
    case True
    have "generation h < page_generation s' p" using assms(3,4) p(3) True by (simp add: sat_add_def)
    then show ?thesis using True p(2) by (auto simp: live_handle_iff)
  next
    case False
    have "page_ref_count s' (handle_page h) = page_ref_count s (handle_page h)"
      "page_generation s' (handle_page h) = page_generation s (handle_page h)" using a(4) False by auto
    then show ?thesis using book_live [OF b, of "handle_page h"] book_live [OF p(1), of "handle_page h"]
      by (auto simp: live_handle_iff validate_live_handle_def)
  qed
qed

definition released_state :: "nat paged_kv" where
  "released_state = snd (release_owner (Request 1) filled_state)"

lemma released_reach: "kv_reach good_dev released_state"
proof -
  have "next_transient_owner filled_state = 2" by code_simp
  then show ?thesis using reach_step [OF filled_reach, of "OpRelease (Request 1)"] by (simp add: released_state_def u64_max_def)
qed

theorem stale_handles_are_rejected_witness:
  "validate_live_handle (snd (allocate_page good_dev released_state)) \<lparr>block_index = 0, handle_page = 2, generation = 1\<rparr> \<noteq> Inr ()
   \<and> fst (allocate_page good_dev released_state) = Inr 2
   \<and> validate_live_handle filled_state \<lparr>block_index = 0, handle_page = 2, generation = 1\<rparr> = Inr ()"
proof -
  let ?h = "\<lparr>block_index = 0, handle_page = 2, generation = 1\<rparr>"
  let ?m = "allocate_page good_dev released_state"
  have f: "fst ?m = Inr 2" by code_simp
  then have m: "?m = (Inr 2, snd ?m)" by (metis prod.collapse)
  have g: "page_generation released_state 2 = 1" by code_simp
  have "validate_live_handle released_state ?h \<noteq> Inr ()" by code_simp
  moreover have "(validate_live_handle (snd ?m) ?h = Inr ()) = (validate_live_handle released_state ?h = Inr ())"
    by (rule stale_handles_are_rejected [OF released_reach m]) (simp_all add: g u64_max_def)
  moreover have "validate_live_handle filled_state ?h = Inr ()" by code_simp
  ultimately show ?thesis using f by blast
qed

section \<open>Failed growth\<close>

text \<open>A page that is allocated, unreferenced and not on the free list.\<close>

definition lost_page :: "'c paged_kv \<Rightarrow> int \<Rightarrow> bool" where
  "lost_page s p = (0 \<le> p \<and> p < allocated_pages s \<and> page_ref_count s p = 0 \<and> p \<notin> set (free_pages s))"

lemma lost_page_fails:
  assumes i: "kv_inv E s" and y: "synced s" and p: "lost_page s p"
  shows "validate_owner_invariants s \<noteq> Inr ()"
proof
  assume v: "validate_owner_invariants s = Inr ()"
  have b: "book (tables s) E s" and r: "rows_ok s" using i by (simp_all add: kv_inv_def)
  have al: "0 \<le> allocated_pages s" using b by (simp add: book_def)
  let ?Z = "{i. i < nat (allocated_pages s) \<and> stored_refs s (int i) = 0}"
  have c: "card ?Z = length (free_pages s)" using v validate_exact [OF al] by (simp add: owner_invariants_def)
  have z: "stored_refs s q = 0" if "0 \<le> q" "page_ref_count s q = 0" for q
  proof -
    have "list_refs (owned_tables s) q = table_refs (tables s) q"
      using list_refs_tables [of "owned_tables s"] r y by (simp add: rows_ok_def synced_def)
    then show ?thesis using book_count [OF b that(1)] that(2) by (simp add: stored_refs_def holders_def)
  qed
  have "insert (nat p) (nat ` set (free_pages s)) \<subseteq> ?Z"
    using p z book_free [OF b] by (auto simp: lost_page_def)
  then have "card (insert (nat p) (nat ` set (free_pages s))) \<le> card ?Z" by (intro card_mono) auto
  moreover have "nat p \<notin> nat ` set (free_pages s)"
  proof
    assume "nat p \<in> nat ` set (free_pages s)"
    then obtain q where q: "q \<in> set (free_pages s)" "nat p = nat q" by blast
    then have "p = q" using p book_free [OF b q(1)] by (simp add: lost_page_def eq_nat_nat_iff)
    then show False using p q by (simp add: lost_page_def)
  qed
  moreover have "card (nat ` set (free_pages s)) = length (free_pages s)"
  proof -
    have "inj_on nat (set (free_pages s))" using book_free [OF b] by (intro inj_onI) (simp add: eq_nat_nat_iff)
    then show ?thesis using b by (simp add: card_image distinct_card book_def)
  qed
  ultimately show False using c by simp
qed

lemma same_pool_lost: "same_pool s s' \<Longrightarrow> lost_page s' = lost_page s"
  by (intro ext) (simp add: lost_page_def page_ref_count_def same_pool_def)

text \<open>
  C37: a page lost by a failed growth of the page tensors poisons the cache: the next page is counted as
  allocated before the tensors have grown, so when the growth fails the page is neither referenced nor
  free, and a binding of execution rows that comes next, whichever rows it binds, reports a broken invariant,
  although the operation that failed was an append.
\<close>

theorem failed_growth_poisons_cache:
  assumes "kv_reach dev s" and "free_pages s = []" and "allocate_page dev s = (Inl DeviceError, s')"
    and "ws \<noteq> []" and "distinct ws" and "list_all (bindable s) ws"
  shows "lost_page s' (allocated_pages s) \<and> fst (bind_execution_rows ws s') \<noteq> Inr ()"
proof -
  obtain E where i: "kv_inv E s" using assms(1) by (rule reach_sound)
  have b: "book (tables s) E s" and st: "store_ok s" using i by (simp_all add: kv_inv_def)
  note a = allocate_page_facts [OF b st assms(3)]
  have i': "kv_inv E s'" using pool_kv_inv [OF i] a(1,2) by blast
  have al: "0 \<le> allocated_pages s" using b by (simp add: book_def)
  have lt: "allocated_pages s < max_pages s"
  proof (rule ccontr)
    assume "\<not> allocated_pages s < max_pages s"
    then show False using assms(2,3) by (simp add: allocate_page_def take_page_def)
  qed
  then have t: "take_page s = (Inr (allocated_pages s), s\<lparr>allocated_pages := allocated_pages s + 1\<rparr>)"
    using assms(2) by (simp add: take_page_def)
  note tp = take_page_facts [OF b t]
  let ?s1 = "s\<lparr>allocated_pages := allocated_pages s + 1\<rparr>"
  have e: "ensure_page_capacity dev (allocated_pages s + 1) ?s1 = (Inl DeviceError, s')"
    using assms(3) by (cases "ensure_page_capacity dev (allocated_pages s + 1) ?s1") (auto simp: allocate_page_def t andthen_def split: sum.splits)
  have live: "p < allocated_pages ?s1" if "page_ref_count ?s1 p > 0" for p
    using book_live [OF b, of p] that tp(2) [of p] by simp
  have st1: "store_ok ?s1" using tp(1) st by simp
  note ec = ensure_page_capacity_facts [OF e st1 live]
  have p: "lost_page s' (allocated_pages s)"
    using ec(1) ec(2) [of "allocated_pages s"] tp(2) [of "allocated_pages s"] tp(6,7) al assms(2) by (simp add: lost_page_def)
  have bd: "list_all (bindable s') ws" using assms(6) a(1) by (simp add: pool_frame_def bindable_def [abs_def])
  obtain s2 where s2: "bind_execution_rows ws s' = (validate_owner_invariants s2, s2)" "kv_inv E s2" "synced s2" "same_pool s' s2"
    using bind_ok [OF i' assms(4,5) bd] by metis
  show ?thesis using p lost_page_fails [OF s2(2,3)] same_pool_lost [OF s2(4)] s2(1) by simp
qed

text \<open>A device that refuses every tensor operation: the first append fails, and so does the next bind.\<close>

definition dead_dev :: "nat kv_device" where
  "dead_dev = \<lparr>dev_ok = (\<lambda>_. False), zero_cell = 0\<rparr>"

theorem failed_growth_poisons_cache_witness:
  "fst (append dead_dev demo_tensor demo_tensor [3, 1] bound_state) = Inl DeviceError
   \<and> fst (bind_execution_rows [Request 5] (snd (allocate_page dead_dev bound_state))) \<noteq> Inr ()"
proof -
  let ?m = "allocate_page dead_dev bound_state"
  have "fst ?m = Inl DeviceError" by code_simp
  then have m: "?m = (Inl DeviceError, snd ?m)" by (metis prod.collapse)
  have "free_pages bound_state = []" by code_simp
  from failed_growth_poisons_cache [OF bound_reach this m, of "[Request 5]"]
  have "fst (bind_execution_rows [Request 5] (snd ?m)) \<noteq> Inr ()" by (simp add: bindable_def)
  moreover have "fst (append dead_dev demo_tensor demo_tensor [3, 1] bound_state) = Inl DeviceError" by code_simp
  ultimately show ?thesis by blast
qed

section \<open>Resetting\<close>

text \<open>
  C33: \<open>KVCache::reset\<close> gives every page back and repairs any damage: whatever failures came before,
  every owner is empty, no pin is left, no page is allocated, and binding legitimate rows passes the checker.
\<close>

theorem reset_frees_everything:
  assumes "kv_reach dev s"
  shows "allocated_pages (kv_reset s) = 0 \<and> free_pages (kv_reset s) = [] \<and> (\<forall>p. \<not> lost_page (kv_reset s) p)
    \<and> (\<forall>w. owner_tokens (kv_reset s) w = map_option (\<lambda>_. []) (owner_tokens s w)) \<and> (\<forall>k. pin_tokens (kv_reset s) k = None)
    \<and> execution_owners (kv_reset s) = execution_owners s
    \<and> (\<forall>ws. ws \<noteq> [] \<and> distinct ws \<and> list_all (bindable s) ws \<longrightarrow> fst (bind_execution_rows ws (kv_reset s)) = Inr ())"
proof -
  obtain E where i: "kv_inv E s" using assms by (rule reach_sound)
  note r = reset_ok [OF i]
  have bd: "bindable (kv_reset s) = bindable s" by (intro ext) (simp add: bindable_def r(7) split: block_owner.split)
  have f: "free_pages (kv_reset s) = []" by (simp add: kv_reset_def clear_cache_def)
  have "fst (bind_execution_rows ws (kv_reset s)) = Inr ()" if "ws \<noteq> []" "distinct ws" "list_all (bindable s) ws" for ws
    using bind_succeeds [OF r(1,2) that(1,2)] that(3) bd by simp
  then show ?thesis using r(4-6,8) f by (simp add: lost_page_def)
qed

theorem reset_frees_everything_witness:
  "allocated_pages (kv_reset pinned_state) = 0 \<and> pin_tokens (kv_reset pinned_state) 7 = None \<and> pin_tokens pinned_state 7 \<noteq> None"
proof -
  have "pin_tokens pinned_state 7 \<noteq> None" by code_simp
  then show ?thesis using reset_frees_everything [OF pinned_reach] by blast
qed

text \<open>
  C38: the generations that reject stale handles do not survive a reset: a handle of the first use of page 0
  taken before the reset validates again as soon as the page is allocated to somebody else.
\<close>

theorem reset_revives_stale_handles:
  assumes "works dev" and "kv_reach dev s" and "map_of (immutable_pins s) k = Some h"
    and "handle_page h = 0" and "generation h = 1" and "allocate_page dev (kv_reset s) = (r, s')"
  shows "r = Inr 0 \<and> validate_live_handle s' h = Inr () \<and> pin_tokens s' k = None"
proof -
  have i: "kv_inv {#} s" using reach_healthy [OF assms(2,1)] by blast
  have bs: "book (tables s) {#} s" using i by (simp add: kv_inv_def)
  note q = reset_ok [OF i]
  have b: "book (tables (kv_reset s)) {#} (kv_reset s)" and st: "store_ok (kv_reset s)" using q(1) by (simp_all add: kv_inv_def)
  note a = allocate_page_facts [OF b st assms(6)]
  have f: "free_pages (kv_reset s) = []" "max_pages (kv_reset s) = max_pages s" "immutable_pins (kv_reset s) = []"
    "page_generations (kv_reset s) = []" by (simp_all add: kv_reset_def clear_cache_def)
  have "0 < allocated_pages s" using pin_live(1) [OF bs map_of_SomeD [OF assms(3)]] book_live [OF bs] assms(4) by fastforce
  then have "0 < max_pages s" using bs by (simp add: book_def)
  then obtain p where p: "r = Inr p" using a(6) [OF assms(1)] q(8) f by auto
  have t: "take_page (kv_reset s) = (Inr 0, (kv_reset s)\<lparr>allocated_pages := 1\<rparr>)"
    using \<open>0 < max_pages s\<close> q(8) f by (simp add: take_page_def)
  have p0: "p = 0" using assms(6) p t by (auto simp: allocate_page_def andthen_def split: prod.splits sum.splits)
  have g: "page_generation s' 0 = 1" using a(3) [OF p] p0 f by (simp add: page_generation_def sat_add_def u64_max_def)
  have "page_ref_count s' 0 = 1" using a(3) [OF p] p0 by simp
  moreover have "0 < allocated_pages s'" using a(3) [OF p] p0 book_live [of _ _ s' 0] calculation by auto
  ultimately have "validate_live_handle s' h = Inr ()" using assms(4,5) g by (simp add: live_handle_iff validate_live_handle_def)
  moreover have "immutable_pins s' = []" using a(1) f by (simp add: pool_frame_def)
  ultimately show ?thesis using p p0 by (simp add: pin_tokens_def)
qed

theorem reset_revives_stale_handles_witness:
  "validate_live_handle (snd (allocate_page good_dev (kv_reset pinned_state))) \<lparr>block_index = 0, handle_page = 0, generation = 1\<rparr> = Inr ()"
proof -
  have "map_of (immutable_pins pinned_state) 7 = Some \<lparr>block_index = 0, handle_page = 0, generation = 1\<rparr>" by code_simp
  from reset_revives_stale_handles [OF good_dev_works pinned_reach this _ _ prod.collapse [symmetric]] show ?thesis by simp
qed

end
