(* ===== verification/Spec2Isabelle.thy ===== *)
theory Spec2Isabelle
  imports TurboPack FreshBatch MemoryBudget GovernorProperties ColdProperties EnginePoolProperties NativeOutput GeneratedOutput ToolPromptCache CostCycle NgramExact SharedPoolProperties PagedKvRecycling
begin

text \<open>
  A verification library for \<open>ironmlx\<close>, an inference server for large language models on Apple silicon,
  written in Rust. A request travels through the program like this: the HTTP front end renders its prompt
  and looks it up in a prompt cache; the scheduler actor admits it against a memory budget and puts it
  into a batch; the batch is prefilled and decoded, its keys and values living in a paged cache that
  requests share by copy-on-write; while decoding, the server may draft tokens from the prompt itself,
  when measurements say that pays; the tokens come back through an incremental decoder that separates
  reasoning, answer and tool calls. The library models the parts of this path that keep state, count
  resources or parse text. It leaves out the tensor arithmetic in between.

  Every theory names the source file it models; definitions keep the names of the code. Paths below are
  relative to \<open>src/\<close>.

  \<^bold>\<open>Shared vocabulary.\<close> \<open>Prelude\<close>: fixed-width arithmetic of \<open>usize\<close> and \<open>u64\<close> written out on \<open>nat\<close> (wrapping, saturating,
  checked), results of fallible stateful calls (\<open>outcome\<close> and its sequencing \<open>andthen\<close>), sequences of
  operations (\<open>run_ops\<close>, \<open>run_ok\<close>) and the locales that the stateful components share, foremost
  \<open>invariant_machine\<close>: operations, what callers must respect, and an invariant every operation keeps. Each
  component interprets the locale on its own step function and takes its invariants from it.

  \<^bold>\<open>Index packing.\<close> \<open>TurboPack\<close> is \<open>turboquant/src/pack.rs\<close>: 3-bit and 4-bit indices packed into bytes, on
  8-bit words with the code's shifts and masks, with round trips in both directions.

  \<^bold>\<open>Admission.\<close> \<open>Admission\<close> is \<open>ironmlx/src/core/server/adaptive_admission.rs\<close>; \<open>FreshBatch\<close> is the part of
  \<open>server/scheduler_actor.rs\<close> that fills a fresh batch from a command or from the queue. What the scheduler
  answers, and which clients have gone away, are parameters or inputs. The lemmas bound the batch and account
  for every request. \<open>MemoryBudget\<close> is \<open>core/memory_budget.rs\<close>: start-up validation and run-time charges, at
  64 bits; the concurrent check-then-add of \<open>try_admit\<close> is modelled as one step.

  \<^bold>\<open>Memory governor.\<close> \<open>MemoryGovernor\<close> is \<open>core/process_memory.rs\<close>: samples of the process and the machine become a pressure level
  and ceilings; reservations are granted against the headroom; the cap on the allocator's cache follows both;
  a prefill chunk is chosen by binary search. \<open>Float64\<close> holds the little floating-point arithmetic this needs, on
  dyadic fractions. \<open>GovernorInv\<close> holds the invariant (exact accounting, ceilings, the cap fits) and the machine,
  \<open>GovernorPlan\<close> the search and the level under a sequence of samples, \<open>GovernorInstance\<close> a small machine evaluated
  on concrete samples, \<open>GovernorProperties\<close> the properties. What the operating system reports is an argument.
  \<open>ColdMaterialization\<close> and \<open>ColdProperties\<close> are the tracker of weights that have not been used yet: threads claim
  components, reserve their bytes with the governor and mark them warm, in separate critical sections.

  \<^bold>\<open>Engines.\<close> \<open>EngineRegistry\<close> and \<open>EnginePool\<close> are \<open>core/server/engine.rs\<close>. The registry knows the models and resolves the name in a
  request; the pool holds a slot for each, loads a model for the request that needs it and unloads it by hand,
  by age, for room or under memory pressure. What a task does is a sequence of critical sections and of looks without a
  lock, and the machine \<open>engine_step\<close> has one operation for each, so that anything may come in between, also the loss of
  the task that loads; scans for an engine to evict and counts go slot by slot, and \<open>tasks\<close> holds the tasks that have
  looked at a slot and have still to act. Two spans of the task at the gate are merged, as \<open>EnginePool\<close> says. \<open>EnginePoolInv\<close>
  holds the invariant (leases are counted exactly, the limits hold, a count under way is not too low, nobody collects a
  preloaded model; and, when no task comes late, a slot in use keeps its engine), \<open>EnginePoolSteps\<close> shows that every
  operation keeps it, \<open>EngineLifecycle\<close> gives the abstract life of one slot as a step relation and the simulation,
  \<open>EnginePoolProperties\<close> what follows, and the trace in which a late task unloads an engine in use.
  What loading a model gives and what the governor answers are arguments of the operations.

  \<^bold>\<open>Output.\<close> \<open>OutputEvents\<close> and \<open>GeneratedOutput\<close> are \<open>core/generated_output.rs\<close>, \<open>NativeOutput\<close> is \<open>core/native_output.rs\<close>:
  the splitter between reasoning and answer, on byte strings, with the text held back because it may start
  a marker; the decoder around it. Tokenizer and tool parser are parameters. The central lemma says that
  the chunks in which text arrives do not matter.

  \<^bold>\<open>Tool prompt cache.\<close> \<open>ToolPromptCache\<close> is \<open>core/tool_prompt_cache.rs\<close>, with the critical sections of a lookup as separate
  steps, so that the invariant holds for every interleaving. The digest is a parameter.

  \<^bold>\<open>Prompt-lookup costs.\<close> \<open>CostModel\<close>, \<open>CostController\<close>, \<open>CostInvariant\<close>, \<open>CostProperties\<close>, \<open>CostProfile\<close> and \<open>CostCycle\<close> are the cost
  controller of \<open>core/prompt_lookup.rs\<close>: decisions and cooldowns, the phase machine of a regime with its
  statistics and persistence, its invariant, what it promises the scheduler, what survives a restart, and
  the closed loop of the scheduler asking, running and recording under steady costs.

  \<^bold>\<open>Prompt-lookup index.\<close> \<open>NgramIndex\<close> is \<open>PromptLookupRowState\<close> of the same file: the n-gram index over a request's own
  history, its keys on 64-bit words, and the proposals read from it. \<open>NgramInv\<close> holds its invariant, \<open>NgramLookup\<close> its
  bounds, \<open>NgramExact\<close> the comparison with a plain scan of the history, under the two conditions that make
  the index lossy otherwise (no eviction for room, no collision of keys), and what holds without them.
  \<open>SharedPool\<close> is \<open>SharedPromptLookupPool\<close>, the candidates that finished requests publish for others. \<open>SharedPoolInv\<close> holds
  its invariant (every candidate comes from a publication and is in the ledger; the ledger is in order of
  use), \<open>SharedPoolSteps\<close>, \<open>SharedPoolPublish\<close>, \<open>SharedPoolMachine\<close> and \<open>SharedPoolUse\<close> show that every operation keeps it, and
  \<open>SharedPoolProperties\<close> what follows for callers.

  \<^bold>\<open>Paged cache.\<close> The \<open>PagedKv\<close> theories are \<open>core/cache/paged_kv.rs\<close> with the calls \<open>core/cache/kv_cache.rs\<close> makes.
    \<^item> Model: \<open>PagedKv\<close> (data, allocation, reference counts, the checker), \<open>PagedKvOps\<close> (binding rows, forking,
      pinning, releasing, rewinding, clearing), \<open>PagedKvData\<close> (appending, copy-on-write, reading).
    \<^item> Book-keeping: \<open>PagedKvBook\<close>, \<open>PagedKvPool\<close>, \<open>PagedKvRows\<close>, \<open>PagedKvCheck\<close> and \<open>PagedKvInv\<close> hold the invariant \<open>kv_inv E s\<close>. The
      multiset \<open>E\<close> holds the references in flight: those an operation has taken and not yet stored, or that a
      device failure has leaked. \<open>PagedKvBind\<close> to \<open>PagedKvRelease\<close> show that the owner operations keep it.
    \<^item> Contents: \<open>PagedKvCells\<close> to \<open>PagedKvRestore\<close> follow every step of an append, also a failing one, and relate the pages
      to the abstract view \<open>owner_tokens\<close>, a map from owners to token lists, and \<open>pin_tokens\<close>.
    \<^item> Whole: \<open>PagedKvMachine\<close> (the operations as a machine, with two invariants), \<open>PagedKvRead\<close> and \<open>PagedKvReach\<close>;
      \<open>PagedKvProperties\<close>, \<open>PagedKvSharing\<close> and \<open>PagedKvRecycling\<close> hold the properties, stated for every reachable state.

  A page is the list of its \<open>block_size\<close> token cells; a cell stands for the column of one token across heads
  and dimensions. The tensor library is a parameter that says which of its operations fail; one model
  operation stands for a group of library calls with no change of the cache between them. \<open>i32\<close> quantities are
  integers: the code keeps them below \<open>max_pages\<close> and \<open>cap + block_size\<close>.

  \<^bold>\<open>Bounds and fuel.\<close> No definition uses fuel: loops are recursion on lists or have a measure. Fixed-width
  counters are written with their saturation or wrap-around where the code has it.

  \<^bold>\<open>Not modelled.\<close> Models, layers, kernels and bindings (floating-point tensors over a native library); the
  HTTP layers, command line, benchmarks and the desktop application (input and output); tokenizers and
  templates (third-party); \<open>core/scheduler.rs\<close> and the speculative decoders (loops over model calls); the
  hot/cold tier of the paged cache, which moves pages to files and is off by default; the prefix store on
  disk; grammar-constrained decoding and the tool-call parsers; of the engine pool, replacing the model of a slot,
  adding slots at run time, the routing of requests and the reports.
\<close>

end
